(* ===== verification/Go_Prelude.thy ===== *)
theory Go_Prelude
  imports Main "HOL-Library.Char_ord" "HOL-Library.List_Lexorder"
begin

text \<open>
  The parts of Go that the modelled code of \<^verbatim>\<open>src/pkg/gofr\<close> relies on: 64-bit integers, byte
  strings and the functions of the packages \<^verbatim>\<open>strings\<close> and \<^verbatim>\<open>strconv\<close>, and results that may be
  an error or may never be produced. A Go string is a byte sequence, and so is an Isabelle string
  (a list of 8-bit characters), so lengths and indices agree. The case conversions are those of
  the ASCII range; bytes outside it are left alone.

  Every component theory builds on this one. The simplification rules of the string functions are
  collected in \<open>gostr\<close>, those of error results in \<open>gores\<close>.
\<close>

named_theorems gostr \<open>facts about the string functions of the Go library\<close>
named_theorems gores \<open>facts about results that can be errors or diverge\<close>

section \<open>64-bit integers\<close>

definition maxInt64 :: int where
  "maxInt64 = 2 ^ 63 - 1"

definition minInt64 :: int where
  "minInt64 = - (2 ^ 63)"

definition wrap64 :: "int \<Rightarrow> int" where
  "wrap64 x = (x + 2 ^ 63) mod 2 ^ 64 - 2 ^ 63"

lemma maxInt64_num: "maxInt64 = 9223372036854775807"
  by (simp add: maxInt64_def)

lemma minInt64_num: "minInt64 = - 9223372036854775808"
  by (simp add: minInt64_def)

lemmas int64_num = maxInt64_num minInt64_num

lemma wrap64_id: "minInt64 \<le> x \<Longrightarrow> x \<le> maxInt64 \<Longrightarrow> wrap64 x = x"
  by (simp add: wrap64_def int64_num)

lemma wrap64_bounds: "minInt64 \<le> wrap64 x \<and> wrap64 x \<le> maxInt64"
  by (simp add: wrap64_def int64_num)

section \<open>Results: errors and divergence\<close>

text \<open>
  A Go function that returns a value or an error is a function into the sum type, the error on
  the left. Where a loop need not end, the result is wrapped in an option whose \<open>None\<close> stands for
  a call that never returns; \<open>bind_res\<close> is sequential composition for such calls, with the usual
  early return on an error.
\<close>

fun bind_res :: "('e + 'a) option \<Rightarrow> ('a \<Rightarrow> ('e + 'b) option) \<Rightarrow> ('e + 'b) option" where
  "bind_res None f = None"
| "bind_res (Some (Inl e)) f = Some (Inl e)"
| "bind_res (Some (Inr a)) f = f a"

lemma bind_res_eq_Inr [gores]:
  "bind_res m f = Some (Inr b) \<longleftrightarrow> (\<exists>a. m = Some (Inr a) \<and> f a = Some (Inr b))"
  by (cases "(m, f)" rule: bind_res.cases) auto

lemma bind_res_eq_Inl [gores]:
  "bind_res m f = Some (Inl e) \<longleftrightarrow> m = Some (Inl e) \<or> (\<exists>a. m = Some (Inr a) \<and> f a = Some (Inl e))"
  by (cases "(m, f)" rule: bind_res.cases) auto

lemma bind_res_eq_None [gores]:
  "bind_res m f = None \<longleftrightarrow> m = None \<or> (\<exists>a. m = Some (Inr a) \<and> f a = None)"
  by (cases "(m, f)" rule: bind_res.cases) auto

fun bind_sum :: "('e + 'a) \<Rightarrow> ('a \<Rightarrow> ('e + 'b)) \<Rightarrow> ('e + 'b)" where
  "bind_sum (Inl e) f = Inl e"
| "bind_sum (Inr a) f = f a"

lemma bind_sum_eq_Inr [gores]: "bind_sum m f = Inr b \<longleftrightarrow> (\<exists>a. m = Inr a \<and> f a = Inr b)"
  by (cases m) auto

lemma bind_sum_eq_Inl [gores]:
  "bind_sum m f = Inl e \<longleftrightarrow> m = Inl e \<or> (\<exists>a. m = Inr a \<and> f a = Inl e)"
  by (cases m) auto

section \<open>The package strings\<close>

definition HasPrefix :: "string \<Rightarrow> string \<Rightarrow> bool" where
  "HasPrefix s p \<longleftrightarrow> take (length p) s = p"

definition HasSuffix :: "string \<Rightarrow> string \<Rightarrow> bool" where
  "HasSuffix s p \<longleftrightarrow> length p \<le> length s \<and> drop (length s - length p) s = p"

fun Contains :: "string \<Rightarrow> string \<Rightarrow> bool" where
  "Contains [] p = (p = [])"
| "Contains (c # s) p = (HasPrefix (c # s) p \<or> Contains s p)"

fun IndexByte :: "string \<Rightarrow> char \<Rightarrow> nat option" where
  "IndexByte [] c = None"
| "IndexByte (d # s) c = (if d = c then Some 0 else map_option Suc (IndexByte s c))"

text \<open>\<open>Split s c\<close> is \<^verbatim>\<open>strings.Split(s, c)\<close> for a separator of one byte.\<close>

fun Split :: "string \<Rightarrow> char \<Rightarrow> string list" where
  "Split [] c = [[]]"
| "Split (d # s) c =
     (if d = c then [] # Split s c
      else (case Split s c of [] \<Rightarrow> [[d]] | w # ws \<Rightarrow> (d # w) # ws))"

fun Join :: "string list \<Rightarrow> string \<Rightarrow> string" where
  "Join [] sep = []"
| "Join [w] sep = w"
| "Join (w # v # ws) sep = w @ sep @ Join (v # ws) sep"

definition TrimLeft :: "string \<Rightarrow> char \<Rightarrow> string" where
  "TrimLeft s c = dropWhile (\<lambda>d. d = c) s"

definition TrimRight :: "string \<Rightarrow> char \<Rightarrow> string" where
  "TrimRight s c = rev (dropWhile (\<lambda>d. d = c) (rev s))"

definition Trim :: "string \<Rightarrow> char \<Rightarrow> string" where
  "Trim s c = TrimRight (TrimLeft s c) c"

definition upper_char :: "char \<Rightarrow> char" where
  "upper_char c = (let n = of_char c :: nat in if 97 \<le> n \<and> n \<le> 122 then char_of (n - 32) else c)"

definition ToUpper :: "string \<Rightarrow> string" where
  "ToUpper s = map upper_char s"

definition EqualFold :: "string \<Rightarrow> string \<Rightarrow> bool" where
  "EqualFold s t \<longleftrightarrow> ToUpper s = ToUpper t"

text \<open>ASCII white space, as \<^verbatim>\<open>strings.Fields\<close> and \<^verbatim>\<open>strings.TrimSpace\<close> see it: tab, newline,
  vertical tab, form feed, carriage return and space.\<close>

definition is_space :: "char \<Rightarrow> bool" where
  "is_space c \<longleftrightarrow> (let n = of_char c :: nat in n = 32 \<or> (9 \<le> n \<and> n \<le> 13))"

fun fields_aux :: "string \<Rightarrow> string \<Rightarrow> string list" where
  "fields_aux acc [] = (if acc = [] then [] else [rev acc])"
| "fields_aux acc (c # s) =
     (if is_space c then (if acc = [] then fields_aux [] s else rev acc # fields_aux [] s)
      else fields_aux (c # acc) s)"

definition Fields :: "string \<Rightarrow> string list" where
  "Fields s = fields_aux [] s"

definition TrimSpace :: "string \<Rightarrow> string" where
  "TrimSpace s = rev (dropWhile is_space (rev (dropWhile is_space s)))"

subsection \<open>Laws of the string functions\<close>

lemma HasPrefix_iff [gostr]: "HasPrefix s p \<longleftrightarrow> (\<exists>r. s = p @ r)"
  unfolding HasPrefix_def by (metis append_take_drop_id append_eq_conv_conj)

lemma HasSuffix_iff [gostr]: "HasSuffix s p \<longleftrightarrow> (\<exists>r. s = r @ p)"
  unfolding HasSuffix_def
  by (metis append_eq_conv_conj append_take_drop_id diff_diff_cancel diff_le_self length_append
      length_drop le_add2 add_diff_cancel_right')

lemma Contains_char [gostr]: "Contains s [c] \<longleftrightarrow> c \<in> set s"
  by (induction s) (auto simp: HasPrefix_def)

lemma Split_not_Nil [simp]: "Split s c \<noteq> []"
  by (induction s) (auto split: list.splits)

lemma Split_append [gostr]: "c \<notin> set s \<Longrightarrow> Split (s @ c # t) c = s # Split t c"
  by (induction s) auto

lemma Split_single [gostr]: "c \<notin> set s \<Longrightarrow> Split s c = [s]"
  by (induction s) auto

lemma Split_no_sep [gostr]: "w \<in> set (Split s c) \<Longrightarrow> c \<notin> set w"
  by (induction s arbitrary: w) (auto split: if_splits list.splits)

lemma Split_subset: "w \<in> set (Split s c) \<Longrightarrow> set w \<subseteq> set s"
  by (induction s arbitrary: w) (fastforce split: if_splits list.splits)+

lemma Split_Join [gostr]:
  "ws \<noteq> [] \<Longrightarrow> (\<forall>w \<in> set ws. c \<notin> set w) \<Longrightarrow> Split (Join ws [c]) c = ws"
  by (induction ws "[c]" rule: Join.induct) (auto simp: Split_single Split_append)

lemma Join_Split [gostr]: "Join (Split s c) [c] = s"
proof (induction s)
  case Nil
  then show ?case by simp
next
  case (Cons d s)
  then show ?case
    by (cases "Split s c"; cases "tl (Split s c)") auto
qed

lemma IndexByte_None [gostr]: "IndexByte s c = None \<longleftrightarrow> c \<notin> set s"
  by (induction s) auto

lemma IndexByte_Some [gostr]:
  "IndexByte s c = Some i \<Longrightarrow> i < length s \<and> s ! i = c \<and> c \<notin> set (take i s)"
  by (induction s arbitrary: i) (auto split: if_splits)

lemma TrimLeft_id [gostr]: "s = [] \<or> hd s \<noteq> c \<Longrightarrow> TrimLeft s c = s"
  by (cases s) (auto simp: TrimLeft_def)

lemma TrimRight_id [gostr]: "s = [] \<or> last s \<noteq> c \<Longrightarrow> TrimRight s c = s"
  by (cases s rule: rev_cases) (auto simp: TrimRight_def)

lemma ToUpper_idem [gostr]: "ToUpper (ToUpper s) = ToUpper s"
proof -
  have "upper_char (upper_char c) = upper_char c" for c
    by (auto simp: upper_char_def Let_def)
  then show ?thesis by (simp add: ToUpper_def)
qed

lemma upper_char_other:
  assumes "upper_char c = d" and "\<not> (65 \<le> (of_char d :: nat) \<and> (of_char d :: nat) \<le> 90)"
  shows "c = d"
proof (cases "97 \<le> (of_char c :: nat) \<and> (of_char c :: nat) \<le> 122")
  case True
  then have "(of_char (upper_char c) :: nat) = of_char c - 32" by (auto simp: upper_char_def Let_def)
  with assms True show ?thesis by auto
next
  case False
  with assms(1) show ?thesis by (auto simp: upper_char_def Let_def)
qed

lemma ToUpper_free:
  assumes "d \<notin> set m" and "\<not> (65 \<le> (of_char d :: nat) \<and> (of_char d :: nat) \<le> 90)"
  shows "d \<notin> set (ToUpper m)"
  using assms(1) upper_char_other [OF _ assms(2)] by (force simp: ToUpper_def)

section \<open>The package strconv\<close>

definition is_digit :: "char \<Rightarrow> bool" where
  "is_digit c \<longleftrightarrow> (let n = of_char c :: nat in 48 \<le> n \<and> n \<le> 57)"

definition digit_val :: "char \<Rightarrow> int" where
  "digit_val c = int (of_char c) - 48"

definition digits_val :: "string \<Rightarrow> int" where
  "digits_val s = foldl (\<lambda>n c. n * 10 + digit_val c) 0 s"

datatype num_error = ErrSyntax | ErrRange

text \<open>
  \<^verbatim>\<open>strconv.Atoi\<close> on a 64-bit platform: an optional sign and decimal digits. A value out of range
  is reported together with the nearest representable integer, a malformed one together with 0.
\<close>

definition atoi_range :: "int \<Rightarrow> int \<times> num_error option" where
  "atoi_range v =
     (if v > maxInt64 then (maxInt64, Some ErrRange)
      else if v < minInt64 then (minInt64, Some ErrRange)
      else (v, None))"

definition Atoi :: "string \<Rightarrow> int \<times> num_error option" where
  "Atoi s =
     (let neg = (s \<noteq> [] \<and> hd s = CHR ''-'');
          ds = (if s \<noteq> [] \<and> (hd s = CHR ''-'' \<or> hd s = CHR ''+'') then tl s else s)
      in if ds = [] \<or> \<not> list_all is_digit ds then (0, Some ErrSyntax)
         else atoi_range (if neg then - digits_val ds else digits_val ds))"

text \<open>The decimal text of a natural number, for the round trips.\<close>

fun show_nat :: "nat \<Rightarrow> string" where
  "show_nat n = (if n < 10 then [char_of (48 + n)] else show_nat (n div 10) @ [char_of (48 + n mod 10)])"

declare show_nat.simps [simp del]

lemma digits_val_snoc: "digits_val (s @ [c]) = digits_val s * 10 + digit_val c"
  by (simp add: digits_val_def)

lemma digit_char [simp]: "n < 10 \<Longrightarrow> is_digit (char_of (48 + n :: nat))"
  by (simp add: is_digit_def Let_def)

lemma digit_val_char [simp]: "n < 10 \<Longrightarrow> digit_val (char_of (48 + n :: nat)) = int n"
  by (simp add: digit_val_def)

lemma show_nat_digits: "list_all is_digit (show_nat n)"
  by (induction n rule: show_nat.induct) (subst show_nat.simps, simp)

lemma show_nat_not_Nil [simp]: "show_nat n \<noteq> []"
  by (subst show_nat.simps) simp

lemma digits_val_show_nat [simp]: "digits_val (show_nat n) = int n"
proof (induction n rule: show_nat.induct)
  case (1 n)
  show ?case
  proof (cases "n < 10")
    case True
    then show ?thesis by (subst show_nat.simps) (simp add: digits_val_def)
  next
    case False
    with 1 have "digits_val (show_nat (n div 10)) = int (n div 10)" by simp
    moreover have "show_nat n = show_nat (n div 10) @ [char_of (48 + n mod 10)]"
      using False by (subst show_nat.simps) simp
    ultimately have "digits_val (show_nat n) = int (n div 10) * 10 + int (n mod 10)"
      by (simp add: digits_val_snoc)
    then show ?thesis by (metis div_mult_mod_eq of_nat_add of_nat_mult of_nat_numeral)
  qed
qed

lemma digit_not_sign: "is_digit c \<Longrightarrow> c \<noteq> CHR ''-'' \<and> c \<noteq> CHR ''+''"
  by (auto simp: is_digit_def)

lemma Atoi_digits:
  assumes "s \<noteq> []" and "list_all is_digit s"
  shows "Atoi s = atoi_range (digits_val s)"
proof -
  from assms have "is_digit (hd s)" by (cases s) auto
  then have "hd s \<noteq> CHR ''-''" and "hd s \<noteq> CHR ''+''" by (auto dest: digit_not_sign)
  with assms show ?thesis by (simp add: Atoi_def Let_def)
qed

lemma Atoi_show_nat [gostr]: "int n \<le> maxInt64 \<Longrightarrow> Atoi (show_nat n) = (int n, None)"
  by (simp add: Atoi_digits show_nat_digits atoi_range_def int64_num)

lemma digit_val_nonneg: "is_digit c \<Longrightarrow> 0 \<le> digit_val c"
  by (simp add: is_digit_def digit_val_def Let_def)

lemma digits_val_nonneg: "list_all is_digit s \<Longrightarrow> 0 \<le> digits_val s"
  by (induction s rule: rev_induct) (auto simp: digits_val_snoc digit_val_nonneg digits_val_def)

lemma Atoi_digits_nonneg: "list_all is_digit s \<Longrightarrow> 0 \<le> fst (Atoi s)"
proof (cases "s = []")
  case True
  then show ?thesis by (simp add: Atoi_def)
next
  case False
  assume "list_all is_digit s"
  with False show ?thesis
    using digits_val_nonneg [of s] by (simp add: Atoi_digits atoi_range_def int64_num)
qed

section \<open>Names of HTTP headers\<close>

text \<open>\<^verbatim>\<open>http.CanonicalHeaderKey\<close>: a name with a byte that is not a token character is left alone; otherwise
  the first letter and every letter after a hyphen become upper case, the others lower case.\<close>

definition is_upper :: "char \<Rightarrow> bool" where
  "is_upper c \<longleftrightarrow> (let n = of_char c :: nat in 65 \<le> n \<and> n \<le> 90)"

definition is_lower :: "char \<Rightarrow> bool" where
  "is_lower c \<longleftrightarrow> (let n = of_char c :: nat in 97 \<le> n \<and> n \<le> 122)"

definition lower_char :: "char \<Rightarrow> char" where
  "lower_char c = (if is_upper c then char_of ((of_char c :: nat) + 32) else c)"

definition is_token :: "char \<Rightarrow> bool" where
  "is_token c \<longleftrightarrow> is_upper c \<or> is_lower c \<or> is_digit c \<or> c \<in> set ''!#$%&*+-.^_|~'' \<or>
     (of_char c :: nat) \<in> {39, 96}"

fun canonical_loop :: "bool \<Rightarrow> string \<Rightarrow> string" where
  "canonical_loop up [] = []"
| "canonical_loop up (c # s) =
     (let c' = (if up then upper_char c else lower_char c) in c' # canonical_loop (c' = CHR ''-'') s)"

definition CanonicalHeaderKey :: "string \<Rightarrow> string" where
  "CanonicalHeaderKey s = (if list_all is_token s then canonical_loop True s else s)"

section \<open>Transition systems\<close>

text \<open>A sum over the goroutines of a system changes with the state of one of them.\<close>

lemma sum_list_update_int: "g < length xs \<Longrightarrow> sum_list (xs[g := v]) = sum_list xs - xs ! g + v" for v :: int
  by (induction xs arbitrary: g) (auto split: nat.splits)

text \<open>
  The states reachable from an initial one, for the components whose goroutines interleave. The
  locale \<open>invariant\<close> is the contract a component's step relation fulfils for one of its state
  predicates; every component with concurrent steps interprets it on its own relation.
\<close>

inductive reachable :: "('s \<Rightarrow> bool) \<Rightarrow> ('s \<Rightarrow> 's \<Rightarrow> bool) \<Rightarrow> 's \<Rightarrow> bool" for init step where
  reachable_init: "init s \<Longrightarrow> reachable init step s"
| reachable_step: "reachable init step s \<Longrightarrow> step s t \<Longrightarrow> reachable init step t"

locale invariant =
  fixes init :: "'s \<Rightarrow> bool"
    and step :: "'s \<Rightarrow> 's \<Rightarrow> bool"
    and inv :: "'s \<Rightarrow> bool"
  assumes inv_init: "init s \<Longrightarrow> inv s"
    and inv_step: "inv s \<Longrightarrow> step s t \<Longrightarrow> inv t"
begin

lemma reachable_inv: "reachable init step s \<Longrightarrow> inv s"
  by (induction rule: reachable.induct) (auto intro: inv_init inv_step)

lemma steps_inv: "step\<^sup>*\<^sup>* s t \<Longrightarrow> inv s \<Longrightarrow> inv t"
  by (induction rule: rtranclp_induct) (auto intro: inv_step)

end

end
