(* ===== verification/Cron.thy ===== *)
theory Cron
  imports Go_Prelude
begin

text \<open>
  The cron scheduler: \<^verbatim>\<open>pkg/gofr/cron.go\<close> (the crontab, dispatch and shutdown) and
  \<^verbatim>\<open>pkg/gofr/cron_scheduler.go\<close> (the schedule syntax and the match of a job against a tick).
  Integers are Go's 64-bit \<^verbatim>\<open>int\<close>; the stepping loop of \<open>getDefaultJobField\<close> need not end, so it
  returns an option whose \<open>None\<close> means that the call does not return. The crontab's goroutines
  are a step relation over its shared state.
\<close>

section \<open>Data\<close>

text \<open>A set-like map of the source (\<^verbatim>\<open>map[int]struct{}\<close>) is a set; \<open>j_sec\<close> may also be the nil map,
  which the code tells apart from an empty one. The job's function is an abstract value of type
  \<open>'f\<close>, or \<open>None\<close> for the nil function of a job under construction.\<close>

record 'f job =
  j_sec :: "int set option"
  j_min :: "int set"
  j_hour :: "int set"
  j_day :: "int set"
  j_month :: "int set"
  j_dayOfWeek :: "int set"
  j_name :: string
  j_fn :: "'f option"

record tick =
  t_sec :: int
  t_min :: int
  t_hour :: int
  t_day :: int
  t_month :: int
  t_dayOfWeek :: int

text \<open>What the accessors of a \<^verbatim>\<open>time.Time\<close> return.\<close>

record civil_time =
  tm_Second :: int
  tm_Minute :: int
  tm_Hour :: int
  tm_Day :: int
  tm_Month :: int
  tm_Weekday :: int

definition seconds :: int where "seconds = 59"
definition minutes :: int where "minutes = 59"
definition hrs :: int where "hrs = 23"
definition days :: int where "days = 31"
definition months :: int where "months = 12"
definition dayOfWeek :: int where "dayOfWeek = 6"

lemmas cron_bounds = seconds_def minutes_def hrs_def days_def months_def dayOfWeek_def

datatype cron_error =
    ErrBadScheduleFormat
  | ErrOutOfRange string string int int
  | ErrParsing string string

section \<open>The schedule syntax\<close>

text \<open>\<^verbatim>\<open>matchSpaces\<close>: the regular expression \<open>\s+\<close>, whose class holds tab, newline, form feed,
  carriage return and space.\<close>

definition re_space :: "char \<Rightarrow> bool" where
  "re_space c \<longleftrightarrow> (let n = of_char c :: nat in n = 32 \<or> n = 9 \<or> n = 10 \<or> n = 12 \<or> n = 13)"

fun matchSpaces_aux :: "bool \<Rightarrow> string \<Rightarrow> string" where
  "matchSpaces_aux inrun [] = []"
| "matchSpaces_aux inrun (c # s) =
     (if re_space c then (if inrun then matchSpaces_aux True s else CHR '' '' # matchSpaces_aux True s)
      else c # matchSpaces_aux False s)"

definition matchSpaces_ReplaceAll :: "string \<Rightarrow> string" where
  "matchSpaces_ReplaceAll s = matchSpaces_aux False s"

text \<open>\<^verbatim>\<open>matchN\<close>: the unanchored, greedy \<open>(.*)/(\d+)\<close>. A match cannot cross a newline, so the
  leftmost one starts at the beginning of the first line that has a slash followed by a digit, and
  its first group runs to the last such slash of that line.\<close>

fun matchN_line :: "string \<Rightarrow> (string \<times> string) option" where
  "matchN_line [] = None"
| "matchN_line (c # s) =
     (case matchN_line s of
        Some (a, b) \<Rightarrow> Some (c # a, b)
      | None \<Rightarrow> (if c = CHR ''/'' \<and> takeWhile is_digit s \<noteq> [] then Some ([], takeWhile is_digit s)
                 else None))"

fun first_Some :: "('a \<Rightarrow> 'b option) \<Rightarrow> 'a list \<Rightarrow> 'b option" where
  "first_Some f [] = None"
| "first_Some f (x # xs) = (case f x of Some y \<Rightarrow> Some y | None \<Rightarrow> first_Some f xs)"

definition matchN :: "string \<Rightarrow> (string \<times> string) option" where
  "matchN s = first_Some matchN_line (Split s (char_of (10 :: nat)))"

text \<open>\<^verbatim>\<open>matchRange\<close>: the anchored \<open>^(\d+)-(\d+)$\<close>.\<close>

definition matchRange :: "string \<Rightarrow> (string \<times> string) option" where
  "matchRange s =
     (case dropWhile is_digit s of
        [] \<Rightarrow> None
      | c # b \<Rightarrow> (if takeWhile is_digit s \<noteq> [] \<and> c = CHR ''-'' \<and> b \<noteq> [] \<and> list_all is_digit b
                  then Some (takeWhile is_digit s, b) else None))"

partial_function (option) getDefaultJobField_loop :: "int \<Rightarrow> int \<Rightarrow> int \<Rightarrow> int set \<Rightarrow> int set option" where
  "getDefaultJobField_loop i maxValue incr r =
     (if i \<le> maxValue then getDefaultJobField_loop (wrap64 (i + incr)) maxValue incr (insert i r)
      else Some r)"

definition getDefaultJobField :: "int \<Rightarrow> int \<Rightarrow> int \<Rightarrow> int set option" where
  "getDefaultJobField minValue maxValue incr = getDefaultJobField_loop minValue maxValue incr {}"

function insert_range :: "int \<Rightarrow> int \<Rightarrow> int set \<Rightarrow> int set" where
  "insert_range i localMax r = (if i \<le> localMax then insert_range (i + 1) localMax (insert i r) else r)"
  by pat_completeness auto
termination
  by (relation "measure (\<lambda>(i, m, r). nat (m + 1 - i))") auto

declare insert_range.simps [simp del]

definition parseSingleOrRange :: "string \<Rightarrow> int \<Rightarrow> int \<Rightarrow> int set \<Rightarrow> cron_error + int set" where
  "parseSingleOrRange part minValue maxValue r =
     (case matchRange part of
        Some (a, b) \<Rightarrow>
          (let localMin = fst (Atoi a); localMax = fst (Atoi b)
           in if localMin < minValue \<or> localMax > maxValue
              then Inl (ErrOutOfRange part part minValue maxValue)
              else Inr (insert_range localMin localMax r))
      | None \<Rightarrow>
          (case Atoi part of
             (i, Some err) \<Rightarrow> Inl (ErrParsing part part)
           | (i, None) \<Rightarrow> if i < minValue \<or> i > maxValue
                          then Inl (ErrOutOfRange part part minValue maxValue)
                          else Inr (insert i r)))"

fun parseRange_loop :: "string list \<Rightarrow> int \<Rightarrow> int \<Rightarrow> int set \<Rightarrow> cron_error + int set" where
  "parseRange_loop [] minValue maxValue r = Inr r"
| "parseRange_loop (part # parts) minValue maxValue r =
     (case parseSingleOrRange part minValue maxValue r of
        Inl err \<Rightarrow> Inl err
      | Inr r' \<Rightarrow> parseRange_loop parts minValue maxValue r')"

definition parseRange :: "string \<Rightarrow> int \<Rightarrow> int \<Rightarrow> cron_error + int set" where
  "parseRange s minValue maxValue =
     (case parseRange_loop (Split s (CHR '','')) minValue maxValue {} of
        Inl err \<Rightarrow> Inl err
      | Inr r \<Rightarrow> if card r = 0 then Inl (ErrParsing s []) else Inr r)"

definition parseSteps :: "string \<Rightarrow> string \<Rightarrow> string \<Rightarrow> int \<Rightarrow> int \<Rightarrow> (cron_error + int set) option" where
  "parseSteps s match1 match2 minValue maxValue =
     (let n = fst (Atoi match2) in
      if match1 \<noteq> [] \<and> match1 \<noteq> ''*'' then
        (case matchRange match1 of
           None \<Rightarrow> Some (Inl (ErrParsing match1 s))
         | Some (a, b) \<Rightarrow>
             (let localMin = fst (Atoi a); localMax = fst (Atoi b)
              in if localMin < minValue \<or> localMax > maxValue
                 then Some (Inl (ErrOutOfRange a s minValue maxValue))
                 else map_option Inr (getDefaultJobField localMin localMax n)))
      else map_option Inr (getDefaultJobField minValue maxValue n))"

definition parsePart :: "string \<Rightarrow> int \<Rightarrow> int \<Rightarrow> (cron_error + int set) option" where
  "parsePart s minValue maxValue =
     (if s = ''*'' then map_option Inr (getDefaultJobField minValue maxValue 1)
      else (case matchN s of
              Some (match1, match2) \<Rightarrow> parseSteps s match1 match2 minValue maxValue
            | None \<Rightarrow> Some (parseRange s minValue maxValue)))"

definition mergeDays :: "'f job \<Rightarrow> 'f job" where
  "mergeDays j =
     (if card (j_day j) < 31 \<and> card (j_dayOfWeek j) = 7 then j\<lparr>j_dayOfWeek := {}\<rparr>
      else if card (j_dayOfWeek j) < 7 \<and> card (j_day j) = 31 then j\<lparr>j_day := {}\<rparr>
      else j)"

text \<open>The five parts common to both forms of a schedule, from \<^verbatim>\<open>parts[partsItr]\<close> on.\<close>

definition parseFields :: "'f job \<Rightarrow> string \<Rightarrow> string \<Rightarrow> string \<Rightarrow> string \<Rightarrow> string
    \<Rightarrow> (cron_error + 'f job) option" where
  "parseFields j p0 p1 p2 p3 p4 =
     bind_res (parsePart p0 0 minutes) (\<lambda>mi.
     bind_res (parsePart p1 0 hrs) (\<lambda>ho.
     bind_res (parsePart p2 1 days) (\<lambda>da.
     bind_res (parsePart p3 1 months) (\<lambda>mo.
     bind_res (parsePart p4 0 dayOfWeek) (\<lambda>dw.
       Some (Inr (mergeDays (j\<lparr>j_min := mi, j_hour := ho, j_day := da, j_month := mo, j_dayOfWeek := dw\<rparr>))))))))"

definition empty_job :: "'f job" where
  "empty_job =
     \<lparr>j_sec = None, j_min = {}, j_hour = {}, j_day = {}, j_month = {}, j_dayOfWeek = {}, j_name = [], j_fn = None\<rparr>"

definition schedule_parts :: "string \<Rightarrow> string list" where
  "schedule_parts s = Split (Trim (matchSpaces_ReplaceAll s) (CHR '' '')) (CHR '' '')"

definition parseSchedule :: "string \<Rightarrow> (cron_error + 'f job) option" where
  "parseSchedule s =
     (case schedule_parts s of
        [p0, p1, p2, p3, p4, p5] \<Rightarrow>
          bind_res (parsePart p0 0 seconds) (\<lambda>se.
            parseFields (empty_job\<lparr>j_sec := Some se\<rparr>) p1 p2 p3 p4 p5)
      | [p0, p1, p2, p3, p4] \<Rightarrow> parseFields empty_job p0 p1 p2 p3 p4
      | _ \<Rightarrow> Some (Inl ErrBadScheduleFormat))"

section \<open>Matching a job against a tick\<close>

definition getTick :: "civil_time \<Rightarrow> tick" where
  "getTick t = \<lparr>t_sec = tm_Second t, t_min = tm_Minute t, t_hour = tm_Hour t, t_day = tm_Day t,
     t_month = tm_Month t, t_dayOfWeek = tm_Weekday t\<rparr>"

definition job_tick :: "'f job \<Rightarrow> tick \<Rightarrow> bool" where
  "job_tick j t =
     (if t_min t \<notin> j_min j then False
      else if t_hour t \<notin> j_hour j then False
      else let day = t_day t \<in> j_day j; dow = t_dayOfWeek t \<in> j_dayOfWeek j in
        if \<not> day \<and> \<not> dow then False
        else if t_month t \<notin> j_month j then False
        else (case j_sec j of
                Some s \<Rightarrow> t_sec t \<in> s
              | None \<Rightarrow> t_sec t = 0))"

section \<open>The crontab\<close>

text \<open>\<open>c_running\<close> are the jobs whose goroutine the wait group still counts; \<open>c_once\<close> is the state of the
  \<^verbatim>\<open>sync.Once\<close>, \<open>c_ticking\<close> whether the ticker runs, \<open>c_done\<close> whether the channel is closed.\<close>

record 'f crontab =
  c_jobs :: "'f job list"
  c_stopped :: bool
  c_running :: "'f job list"
  c_done :: bool
  c_once :: bool
  c_ticking :: bool

definition NewCron :: "'f crontab" where
  "NewCron = \<lparr>c_jobs = [], c_stopped = False, c_running = [], c_done = False, c_once = False, c_ticking = True\<rparr>"

definition AddJob :: "string \<Rightarrow> string \<Rightarrow> 'f \<Rightarrow> 'f crontab \<Rightarrow> (cron_error option \<times> 'f crontab) option" where
  "AddJob schedule name fn c =
     (case parseSchedule schedule of
        None \<Rightarrow> None
      | Some (Inl err) \<Rightarrow> Some (Some err, c)
      | Some (Inr j) \<Rightarrow> Some (None, c\<lparr>c_jobs := c_jobs c @ [j\<lparr>j_name := name, j_fn := Some fn\<rparr>]\<rparr>))"

fun dispatch :: "tick \<Rightarrow> 'f job list \<Rightarrow> 'f crontab \<Rightarrow> 'f crontab" where
  "dispatch tk [] c = c"
| "dispatch tk (j # js) c =
     (if \<not> job_tick j tk then dispatch tk js c
      else dispatch tk js (c\<lparr>c_running := c_running c @ [j]\<rparr>))"

definition runScheduled :: "civil_time \<Rightarrow> 'f crontab \<Rightarrow> 'f crontab" where
  "runScheduled t c = (if c_stopped c then c else dispatch (getTick t) (c_jobs c) c)"

text \<open>The first half of \<^verbatim>\<open>stop\<close>, the body of \<^verbatim>\<open>once.Do\<close>.\<close>

definition stop_begin :: "'f crontab \<Rightarrow> 'f crontab" where
  "stop_begin c =
     (if c_once c then c else c\<lparr>c_once := True, c_ticking := False, c_stopped := True, c_done := True\<rparr>)"

section \<open>One run of a job\<close>

text \<open>The container a job runs with; a nil one is \<open>None\<close>. \<open>panics\<close> says whether a call of the
  job's function ends in a panic; a call of the nil function always does.\<close>

record container =
  has_logger :: bool
  has_metrics :: bool

datatype run_event =
    StartSpan string
  | LogStarting string
  | IncrementCounter string string
  | CallFn
  | RecordHistogram string string
  | LogPanic string
  | LogFinished string
  | EndSpan

definition fn_panics :: "('f \<Rightarrow> bool) \<Rightarrow> 'f option \<Rightarrow> bool" where
  "fn_panics panics fn = (case fn of None \<Rightarrow> True | Some f \<Rightarrow> panics f)"

definition job_run :: "('f \<Rightarrow> bool) \<Rightarrow> 'f job \<Rightarrow> container option \<Rightarrow> run_event list" where
  "job_run panics j cntnr =
     (case cntnr of
        None \<Rightarrow> []
      | Some c \<Rightarrow>
          if \<not> has_logger c then []
          else
            [StartSpan (j_name j), LogStarting (j_name j)]
            @ (if has_metrics c then [IncrementCounter ''app_cron_job_total'' (j_name j)] else [])
            @ [CallFn]
            @ (if has_metrics c
               then RecordHistogram ''app_cron_job_duration'' (j_name j)
                 # (if fn_panics panics (j_fn j)
                    then [LogPanic (j_name j), IncrementCounter ''app_cron_job_failures'' (j_name j)]
                    else [IncrementCounter ''app_cron_job_success'' (j_name j)])
               else if fn_panics panics (j_fn j) then [LogPanic (j_name j)] else [])
            @ [LogFinished (j_name j), EndSpan])"

definition registerMetrics :: "container \<Rightarrow> string list" where
  "registerMetrics c =
     (if \<not> has_metrics c then []
      else [''app_cron_job_duration'', ''app_cron_job_total'', ''app_cron_job_success'', ''app_cron_job_failures''])"

section \<open>The goroutines of a crontab\<close>

text \<open>
  The shared crontab with the goroutines that act on it: the ticker loop started by \<open>NewCron\<close>
  (\<open>loop_alive\<close>), the callers blocked in \<^verbatim>\<open>stop\<close> (\<open>stop_waiting\<close>) and, as a ghost counter, the calls
  of \<^verbatim>\<open>stop\<close> that returned because the wait group was joined. Each rule is one atomic section of
  the code: the bodies guarded by \<^verbatim>\<open>c.mu\<close>, the end of a job's goroutine, and the two ways out of
  the final \<^verbatim>\<open>select\<close> of \<^verbatim>\<open>stop\<close>. A tick may still be taken from the ticker's channel after it has
  been stopped.
\<close>

record 'f cron_sys =
  tab :: "'f crontab"
  loop_alive :: bool
  stop_waiting :: nat
  stop_joined :: nat

inductive cron_step :: "'f cron_sys \<Rightarrow> 'f cron_sys \<Rightarrow> bool" where
  add_job: "AddJob schedule name fn (tab s) = Some (err, c) \<Longrightarrow> cron_step s (s\<lparr>tab := c\<rparr>)"
| take_tick: "loop_alive s \<Longrightarrow> cron_step s (s\<lparr>tab := runScheduled t (tab s)\<rparr>)"
| loop_exit: "loop_alive s \<Longrightarrow> c_done (tab s) \<Longrightarrow> cron_step s (s\<lparr>loop_alive := False\<rparr>)"
| job_done: "c_running (tab s) = xs @ j # ys \<Longrightarrow>
     cron_step s (s\<lparr>tab := (tab s)\<lparr>c_running := xs @ ys\<rparr>\<rparr>)"
| stop_call: "cron_step s (s\<lparr>tab := stop_begin (tab s), stop_waiting := Suc (stop_waiting s)\<rparr>)"
| stop_join: "stop_waiting s = Suc n \<Longrightarrow> c_running (tab s) = [] \<Longrightarrow>
     cron_step s (s\<lparr>stop_waiting := n, stop_joined := Suc (stop_joined s)\<rparr>)"
| stop_abort: "stop_waiting s = Suc n \<Longrightarrow> cron_step s (s\<lparr>stop_waiting := n\<rparr>)"

definition cron_init :: "'f cron_sys \<Rightarrow> bool" where
  "cron_init s \<longleftrightarrow> s = \<lparr>tab = NewCron, loop_alive = True, stop_waiting = 0, stop_joined = 0\<rparr>"

definition cron_inv :: "'f cron_sys \<Rightarrow> bool" where
  "cron_inv s \<longleftrightarrow>
     (c_stopped (tab s) \<longleftrightarrow> c_once (tab s)) \<and> (c_done (tab s) \<longleftrightarrow> c_once (tab s)) \<and>
     (0 < stop_waiting s \<or> 0 < stop_joined s \<longrightarrow> c_once (tab s)) \<and>
     (0 < stop_joined s \<longrightarrow> c_running (tab s) = [])"

section \<open>Lemmas: the stepping loop\<close>

lemma getDefaultJobField_loop_eq:
  assumes "0 < incr" and "maxValue + incr \<le> maxInt64" and "minInt64 \<le> i"
  shows "getDefaultJobField_loop i maxValue incr r =
           Some (r \<union> {x. \<exists>k::nat. x = i + int k * incr \<and> x \<le> maxValue})"
  using assms
proof (induction "nat (maxValue + 1 - i)" arbitrary: i r rule: less_induct)
  case less
  show ?case
  proof (cases "i \<le> maxValue")
    case False
    have "\<not> i + int k * incr \<le> maxValue" for k
    proof -
      have "0 \<le> int k * incr" using less.prems by simp
      with False show ?thesis by linarith
    qed
    then have "{x. \<exists>k::nat. x = i + int k * incr \<and> x \<le> maxValue} = {}" by blast
    with False show ?thesis
      by (subst getDefaultJobField_loop.simps) (simp only: if_False Un_empty_right)
  next
    case True
    have w: "wrap64 (i + incr) = i + incr" using True less.prems by (intro wrap64_id) auto
    have split: "{x. \<exists>k::nat. x = i + int k * incr \<and> x \<le> maxValue} =
        insert i {x. \<exists>k::nat. x = i + incr + int k * incr \<and> x \<le> maxValue}" (is "?L = insert i ?R")
    proof (intro set_eqI iffI)
      fix x assume "x \<in> ?L"
      then obtain k where "x = i + int k * incr" "x \<le> maxValue" by auto
      then show "x \<in> insert i ?R" by (cases k) (auto simp: algebra_simps)
    next
      fix x assume "x \<in> insert i ?R"
      then show "x \<in> ?L"
      proof (cases "x = i")
        case True
        with \<open>i \<le> maxValue\<close> show ?thesis by (auto intro: exI [of _ 0])
      next
        case False
        with \<open>x \<in> insert i ?R\<close> obtain k where "x = i + incr + int k * incr" "x \<le> maxValue" by auto
        then show ?thesis by (auto intro: exI [of _ "Suc k"] simp: algebra_simps)
      qed
    qed
    have "getDefaultJobField_loop (i + incr) maxValue incr (insert i r) =
        Some (insert i r \<union> {x. \<exists>k::nat. x = i + incr + int k * incr \<and> x \<le> maxValue})"
      using True less.prems by (intro less.hyps) auto
    then show ?thesis
      using True w split by (subst getDefaultJobField_loop.simps) simp
  qed
qed

lemma getDefaultJobField_loop_zero:
  assumes "getDefaultJobField_loop i maxValue incr r = Some y"
  shows "incr = 0 \<Longrightarrow> i \<le> maxValue \<Longrightarrow> minInt64 \<le> i \<Longrightarrow> i \<le> maxInt64 \<Longrightarrow> False"
proof (rule getDefaultJobField_loop.raw_induct [where P = "\<lambda>i m n r y. n = 0 \<longrightarrow> i \<le> m \<longrightarrow>
    minInt64 \<le> i \<longrightarrow> i \<le> maxInt64 \<longrightarrow> False", OF _ assms, THEN mp, THEN mp, THEN mp, THEN mp])
  fix f i m n r y
  assume "\<And>i m n r y. f i m n r = Some y \<Longrightarrow>
      n = 0 \<longrightarrow> i \<le> m \<longrightarrow> minInt64 \<le> i \<longrightarrow> i \<le> maxInt64 \<longrightarrow> False"
    and "(if i \<le> m then f (wrap64 (i + n)) m n (insert i r) else Some r) = Some y"
  then show "n = 0 \<longrightarrow> i \<le> m \<longrightarrow> minInt64 \<le> i \<longrightarrow> i \<le> maxInt64 \<longrightarrow> False"
    by (metis add_0_right wrap64_id)
qed

lemma getDefaultJobField_eq:
  "0 < incr \<Longrightarrow> maxValue + incr \<le> maxInt64 \<Longrightarrow> 0 \<le> minValue \<Longrightarrow>
   getDefaultJobField minValue maxValue incr =
     Some {x. \<exists>k::nat. x = minValue + int k * incr \<and> x \<le> maxValue}"
  using getDefaultJobField_loop_eq [of incr maxValue minValue "{}"]
  by (simp add: getDefaultJobField_def int64_num)

lemma getDefaultJobField_one:
  "0 \<le> minValue \<Longrightarrow> maxValue < maxInt64 \<Longrightarrow> getDefaultJobField minValue maxValue 1 = Some {minValue..maxValue}"
proof -
  assume "0 \<le> minValue" "maxValue < maxInt64"
  moreover have "{x. \<exists>k::nat. x = minValue + int k * 1 \<and> x \<le> maxValue} = {minValue..maxValue}"
    by (auto intro: exI [of _ "nat (x - minValue)" for x])
  ultimately show ?thesis by (simp add: getDefaultJobField_eq)
qed

lemma getDefaultJobField_zero:
  "minValue \<le> maxValue \<Longrightarrow> 0 \<le> minValue \<Longrightarrow> maxValue \<le> maxInt64 \<Longrightarrow>
   getDefaultJobField minValue maxValue 0 = None"
  using getDefaultJobField_loop_zero [of minValue maxValue 0 "{}"]
  by (cases "getDefaultJobField minValue maxValue 0") (auto simp: getDefaultJobField_def int64_num)

lemma getDefaultJobField_empty: "maxValue < minValue \<Longrightarrow> getDefaultJobField minValue maxValue incr = Some {}"
  by (simp add: getDefaultJobField_def getDefaultJobField_loop.simps)

section \<open>Lemmas: lists, ranges and steps\<close>

lemma insert_range_eq: "insert_range i m r = r \<union> {i..m}"
proof (induction i m r rule: insert_range.induct)
  case (1 i m r)
  show ?case
  proof (cases "i \<le> m")
    case True
    then have "{i..m} = insert i {i + 1..m}" by auto
    with 1 True show ?thesis by (simp add: insert_range.simps [of i m r])
  next
    case False
    then show ?thesis by (simp add: insert_range.simps [of i m r])
  qed
qed

lemma parseSingleOrRange_bounds:
  "parseSingleOrRange p lo hi r = Inr r' \<Longrightarrow> r \<subseteq> r' \<and> r' \<subseteq> r \<union> {lo..hi}"
  by (auto simp: parseSingleOrRange_def insert_range_eq Let_def split: option.splits if_splits prod.splits)

lemma parseRange_loop_bounds:
  "parseRange_loop ps lo hi r = Inr r' \<Longrightarrow> r \<subseteq> r' \<and> r' \<subseteq> r \<union> {lo..hi}"
proof (induction ps arbitrary: r)
  case Nil
  then show ?case by simp
next
  case (Cons p ps)
  then obtain r1 where r1: "parseSingleOrRange p lo hi r = Inr r1" "parseRange_loop ps lo hi r1 = Inr r'"
    by (auto split: sum.splits)
  from parseSingleOrRange_bounds [OF r1(1)] Cons.IH [OF r1(2)] show ?case by blast
qed

lemma parseRange_bounds: "parseRange s lo hi = Inr r \<Longrightarrow> r \<noteq> {} \<and> r \<subseteq> {lo..hi}"
  by (auto simp: parseRange_def split: sum.splits if_splits dest!: parseRange_loop_bounds)

lemma first_Some_eq_Some: "first_Some f xs = Some y \<Longrightarrow> \<exists>x \<in> set xs. f x = Some y"
  by (induction xs) (auto split: option.splits)

lemma matchN_line_Some:
  "matchN_line s = Some (a, b) \<Longrightarrow> list_all is_digit b \<and> b \<noteq> [] \<and> CHR ''/'' \<in> set s"
  by (induction s arbitrary: a)
    (auto split: option.splits if_splits simp: list_all_iff dest: set_takeWhileD)

lemma matchN_Some: "matchN s = Some (a, b) \<Longrightarrow> list_all is_digit b \<and> b \<noteq> [] \<and> CHR ''/'' \<in> set s"
  unfolding matchN_def
  by (drule first_Some_eq_Some) (meson Split_subset matchN_line_Some subsetD)

lemma matchN_None: "CHR ''/'' \<notin> set s \<Longrightarrow> matchN s = None"
  by (metis matchN_Some not_None_eq surj_pair)

lemma matchRange_Some: "matchRange s = Some (a, b) \<Longrightarrow> list_all is_digit a \<and> list_all is_digit b"
  by (auto simp: matchRange_def list_all_iff split: list.splits if_splits dest: set_takeWhileD)

text \<open>The step number of a part, and the condition that stepping from within the field's range
  cannot run past the largest integer.\<close>

definition step_of :: "string \<Rightarrow> int option" where
  "step_of s = map_option (\<lambda>(a, b). fst (Atoi b)) (matchN s)"

definition step_fits :: "string \<Rightarrow> int \<Rightarrow> bool" where
  "step_fits s hi \<longleftrightarrow> (case step_of s of None \<Rightarrow> True | Some n \<Rightarrow> hi + n \<le> maxInt64)"

lemma getDefaultJobField_cases:
  assumes "0 \<le> lo" and "0 \<le> n" and "hi + n \<le> maxInt64" and "hi \<le> maxInt64"
  shows "(getDefaultJobField lo hi n = None \<longleftrightarrow> lo \<le> hi \<and> n = 0) \<and>
    (\<forall>r. getDefaultJobField lo hi n = Some r \<longrightarrow> r \<subseteq> {lo..hi})"
proof (cases "lo \<le> hi")
  case False
  then show ?thesis by (simp add: getDefaultJobField_empty)
next
  case True
  show ?thesis
  proof (cases "n = 0")
    case True
    with \<open>lo \<le> hi\<close> assms show ?thesis by (simp add: getDefaultJobField_zero)
  next
    case False
    with assms \<open>lo \<le> hi\<close> show ?thesis by (auto simp: getDefaultJobField_eq)
  qed
qed

text \<open>The step part whose loop does not end: step 0 over a non-empty range.\<close>

definition zero_step :: "string \<Rightarrow> int \<Rightarrow> int \<Rightarrow> bool" where
  "zero_step s lo hi =
     (case matchN s of
        None \<Rightarrow> False
      | Some (m1, m2) \<Rightarrow> fst (Atoi m2) = 0 \<and>
          (if m1 = [] \<or> m1 = ''*'' then lo \<le> hi
           else (case matchRange m1 of
                   None \<Rightarrow> False
                 | Some (a, b) \<Rightarrow> lo \<le> fst (Atoi a) \<and> fst (Atoi a) \<le> fst (Atoi b) \<and> fst (Atoi b) \<le> hi)))"

lemma parseSteps_cases:
  assumes "0 \<le> lo" "hi + fst (Atoi m2) \<le> maxInt64" "hi \<le> maxInt64"
    and dig: "list_all is_digit m2"
  shows "(parseSteps s m1 m2 lo hi = None \<longleftrightarrow> fst (Atoi m2) = 0 \<and>
          (if m1 = [] \<or> m1 = ''*'' then lo \<le> hi
           else (case matchRange m1 of
                   None \<Rightarrow> False
                 | Some (a, b) \<Rightarrow> lo \<le> fst (Atoi a) \<and> fst (Atoi a) \<le> fst (Atoi b) \<and> fst (Atoi b) \<le> hi))) \<and>
    (\<forall>r. parseSteps s m1 m2 lo hi = Some (Inr r) \<longrightarrow> r \<subseteq> {lo..hi})"
proof -
  have n: "0 \<le> fst (Atoi m2)" using dig by (rule Atoi_digits_nonneg)
  show ?thesis
  proof (cases "m1 \<noteq> [] \<and> m1 \<noteq> ''*''")
    case False
    then show ?thesis
      using getDefaultJobField_cases [OF assms(1) n assms(2,3)] by (auto simp: parseSteps_def)
  next
    case True
    show ?thesis
    proof (cases "matchRange m1")
      case None
      with True show ?thesis by (simp add: parseSteps_def)
    next
      case (Some ab)
      obtain a b where ab: "ab = (a, b)" by fastforce
      have "(getDefaultJobField (fst (Atoi a)) (fst (Atoi b)) (fst (Atoi m2)) = None \<longleftrightarrow>
           fst (Atoi a) \<le> fst (Atoi b) \<and> fst (Atoi m2) = 0) \<and>
         (\<forall>r. getDefaultJobField (fst (Atoi a)) (fst (Atoi b)) (fst (Atoi m2)) = Some r \<longrightarrow>
           r \<subseteq> {fst (Atoi a)..fst (Atoi b)})" if "lo \<le> fst (Atoi a)" "fst (Atoi b) \<le> hi"
        using that assms n by (intro getDefaultJobField_cases) auto
      with True Some ab show ?thesis
        by (auto simp: parseSteps_def Let_def not_less not_le) force+
    qed
  qed
qed

lemma parsePart_cases:
  assumes "0 \<le> lo" "hi < maxInt64" "step_fits s hi"
  shows "(parsePart s lo hi = None \<longleftrightarrow> zero_step s lo hi) \<and>
    (\<forall>r. parsePart s lo hi = Some (Inr r) \<longrightarrow> r \<subseteq> {lo..hi})"
proof (cases "matchN s")
  case None
  with assms show ?thesis
    by (auto simp: parsePart_def zero_step_def getDefaultJobField_one dest: parseRange_bounds)
next
  case (Some m)
  obtain m1 m2 where m: "m = (m1, m2)" by fastforce
  from matchN_Some [of s m1 m2] Some m have "list_all is_digit m2" "s \<noteq> ''*''" by auto
  with assms Some m show ?thesis
    using parseSteps_cases [of lo hi m2 s m1]
    by (auto simp: parsePart_def zero_step_def step_fits_def step_of_def)
qed

section \<open>Lemmas: printing and parsing lists\<close>

datatype cron_item = Single nat | Range nat nat

fun show_item :: "cron_item \<Rightarrow> string" where
  "show_item (Single n) = show_nat n"
| "show_item (Range a b) = show_nat a @ CHR ''-'' # show_nat b"

fun item_set :: "cron_item \<Rightarrow> int set" where
  "item_set (Single n) = {int n}"
| "item_set (Range a b) = {int a..int b}"

fun item_ok :: "int \<Rightarrow> int \<Rightarrow> cron_item \<Rightarrow> bool" where
  "item_ok lo hi (Single n) \<longleftrightarrow> lo \<le> int n \<and> int n \<le> hi"
| "item_ok lo hi (Range a b) \<longleftrightarrow> lo \<le> int a \<and> a \<le> b \<and> int b \<le> hi"

lemma digit_excludes: "\<not> is_digit (CHR '','')" "\<not> is_digit (CHR ''-'')" "\<not> is_digit (CHR ''/'')"
    "\<not> is_digit (CHR ''*'')"
  by (simp_all add: is_digit_def)

lemma show_nat_set: "c \<in> set (show_nat n) \<Longrightarrow> is_digit c"
  using show_nat_digits [of n] by (simp add: list_all_iff)

lemma show_item_chars: "c \<in> set (show_item it) \<Longrightarrow> is_digit c \<or> c = CHR ''-''"
  by (cases it) (auto dest: show_nat_set)

lemma matchRange_show_nat: "matchRange (show_nat n) = None"
proof -
  have "dropWhile is_digit (show_nat n) = []"
    by (auto simp: dropWhile_eq_Nil_conv show_nat_set)
  then show ?thesis unfolding matchRange_def by (simp only: list.case)
qed

lemma matchRange_show_range: "matchRange (show_nat a @ CHR ''-'' # show_nat b) = Some (show_nat a, show_nat b)"
proof -
  have "dropWhile is_digit (show_nat a @ CHR ''-'' # show_nat b) = CHR ''-'' # show_nat b"
    using show_nat_set by (subst dropWhile_append2) (auto simp: digit_excludes)
  moreover have "takeWhile is_digit (show_nat a @ CHR ''-'' # show_nat b) = show_nat a"
    using show_nat_set by (subst takeWhile_append2) (auto simp: digit_excludes)
  ultimately show ?thesis by (simp add: matchRange_def show_nat_digits)
qed

lemma parseSingleOrRange_show:
  "item_ok lo hi it \<Longrightarrow> hi < maxInt64 \<Longrightarrow>
   parseSingleOrRange (show_item it) lo hi r = Inr (r \<union> item_set it)"
  by (cases it)
    (auto simp: parseSingleOrRange_def matchRange_show_nat matchRange_show_range Atoi_show_nat
      insert_range_eq Let_def)

lemma parseRange_loop_show:
  "\<forall>it \<in> set its. item_ok lo hi it \<Longrightarrow> hi < maxInt64 \<Longrightarrow>
   parseRange_loop (map show_item its) lo hi r = Inr (r \<union> \<Union> (item_set ` set its))"
  by (induction its arbitrary: r) (auto simp: parseSingleOrRange_show)

lemma item_set_nonempty: "item_ok lo hi it \<Longrightarrow> item_set it \<noteq> {} \<and> finite (item_set it)"
  by (cases it) auto

lemma Join_chars: "c \<in> set (Join ws sep) \<Longrightarrow> c \<in> set sep \<or> (\<exists>w \<in> set ws. c \<in> set w)"
  by (induction ws sep rule: Join.induct) auto

section \<open>Lemmas: the crontab\<close>

lemma dispatch_eq:
  "dispatch tk js c = c\<lparr>c_running := c_running c @ filter (\<lambda>j. job_tick j tk) js\<rparr>"
  by (induction js arbitrary: c) auto

lemma runScheduled_simps [simp]:
  "c_stopped (runScheduled t c) = c_stopped c" "c_once (runScheduled t c) = c_once c"
  "c_done (runScheduled t c) = c_done c" "c_jobs (runScheduled t c) = c_jobs c"
  by (auto simp: runScheduled_def dispatch_eq)

lemma AddJob_simps:
  "AddJob sch n f c = Some (err, c') \<Longrightarrow>
     c_stopped c' = c_stopped c \<and> c_once c' = c_once c \<and> c_done c' = c_done c \<and> c_running c' = c_running c"
  by (auto simp: AddJob_def split: option.splits sum.splits)

inductive_simps cron_step_simps: "cron_step s t"

lemma cron_inv_step: "cron_inv s \<Longrightarrow> cron_step s t \<Longrightarrow> cron_inv t"
  unfolding cron_step_simps
  by (elim disjE exE conjE; hypsubst?)
    (auto simp: cron_inv_def stop_begin_def runScheduled_def dispatch_eq dest: AddJob_simps)

lemma cron_inv_init: "cron_init s \<Longrightarrow> cron_inv s"
  by (simp add: cron_inv_def cron_init_def NewCron_def)

interpretation cron: invariant cron_init cron_step cron_inv
  by unfold_locales (fact cron_inv_init cron_inv_step)+

section \<open>Properties\<close>

text \<open>
  C8. A schedule part that parses denotes only values of its field. For every text \<open>s\<close> whose step
  number, if it has one, cannot push the loop past the largest 64-bit integer, a set returned by
  \<open>parsePart s lo hi\<close> lies within \<open>{lo..hi}\<close>, and the call fails to return exactly on the parts with
  a zero step over a non-empty range.
\<close>

theorem parsePart_sound_and_total:
  assumes "0 \<le> lo" and "hi < maxInt64" and "step_fits s hi"
  shows "(parsePart s lo hi = Some (Inr r) \<longrightarrow> r \<subseteq> {lo..hi}) \<and>
         (parsePart s lo hi = None \<longleftrightarrow> zero_step s lo hi)"
  using parsePart_cases [OF assms] by blast

theorem parsePart_sound_and_total_witness:
  "parsePart ''1-10/4'' 0 59 = Some (Inr {1, 5, 9}) \<and> {1, 5, 9} \<subseteq> {0..59::int} \<and>
   \<not> zero_step ''1-10/4'' 0 59"
proof -
  have fits: "step_fits ''1-10/4'' 59" by code_simp
  have "parsePart ''1-10/4'' 0 59 = map_option Inr (getDefaultJobField_loop 1 10 4 {})" by code_simp
  then have *: "parsePart ''1-10/4'' 0 59 = Some (Inr {1, 5, 9})"
    by (simp add: getDefaultJobField_loop.simps wrap64_def insert_commute)
  from fits have "(parsePart ''1-10/4'' 0 59 = Some (Inr {1, 5, 9}) \<longrightarrow> {1, 5, 9} \<subseteq> {0..59::int}) \<and>
      (parsePart ''1-10/4'' 0 59 = None \<longleftrightarrow> zero_step ''1-10/4'' 0 59)"
    by (intro parsePart_sound_and_total) (simp_all add: int64_num)
  with * show ?thesis by simp
qed

text \<open>
  Adding a job with a zero step never returns: the loop of \<open>getDefaultJobField\<close> does not advance,
  so \<open>AddJob\<close> hangs instead of reporting an error, whatever the crontab and the job.
\<close>

lemma AddJob_zero_step_hangs:
  fixes c :: "'f crontab"
  shows "AddJob ''*/0 * * * *'' name fn c = None"
proof -
  have p: "schedule_parts ''*/0 * * * *'' = [''*/0'', ''*'', ''*'', ''*'', ''*'']" by code_simp
  have "step_fits ''*/0'' minutes" and "zero_step ''*/0'' 0 minutes" by code_simp+
  then have "parsePart ''*/0'' 0 minutes = None"
    using parsePart_cases [of 0 minutes "''*/0''"] by (simp add: int64_num cron_bounds)
  then have "(parseSchedule ''*/0 * * * *'' :: (cron_error + 'f job) option) = None" by (simp add: parseSchedule_def p parseFields_def)
  then show ?thesis by (simp add: AddJob_def)
qed

text \<open>
  Printing a non-empty list of numbers and ascending ranges of a field, separated by commas, and
  parsing the text with \<open>parsePart\<close> gives back exactly the union of what was printed.
\<close>

lemma parsePart_roundtrip:
  assumes "its \<noteq> []" and "\<forall>it \<in> set its. item_ok lo hi it" and "hi < maxInt64"
  shows "parsePart (Join (map show_item its) '','') lo hi = Some (Inr (\<Union> (item_set ` set its)))"
proof -
  let ?s = "Join (map show_item its) '',''"
  have chars: "is_digit c \<or> c = CHR ''-'' \<or> c = CHR '',''" if "c \<in> set ?s" for c
    using Join_chars [OF that] by (auto dest: show_item_chars)
  have split: "Split ?s (CHR '','') = map show_item its"
    using assms(1) by (intro Split_Join) (use digit_excludes in \<open>auto dest: show_item_chars\<close>)
  have "matchN ?s = None" using chars digit_excludes by (intro matchN_None) auto
  moreover have "?s \<noteq> ''*''" using chars [of "CHR ''*''"] digit_excludes by auto
  moreover have "card (\<Union> (item_set ` set its)) \<noteq> 0"
    using assms item_set_nonempty by (auto simp: card_eq_0_iff neq_Nil_conv)
  ultimately show ?thesis
    using assms by (simp add: parsePart_def parseRange_def split parseRange_loop_show)
qed

lemma parsePart_roundtrip_witness:
  "parsePart (Join (map show_item [Single 5, Range 10 12]) '','') 0 59 =
     Some (Inr (\<Union> (item_set ` set [Single 5, Range 10 12])))"
  by (rule parsePart_roundtrip) (simp_all add: int64_num)

text \<open>The rule for the days of a schedule: a restricted day of the month and a restricted day of
  the week each suffice; an unrestricted one does not count while the other is restricted.\<close>

definition day_rule :: "int set \<Rightarrow> int set \<Rightarrow> tick \<Rightarrow> bool" where
  "day_rule da dw tk \<longleftrightarrow>
     (if da = {1..days} then dw = {0..dayOfWeek} \<or> t_dayOfWeek tk \<in> dw
      else if dw = {0..dayOfWeek} then t_day tk \<in> da
      else t_day tk \<in> da \<or> t_dayOfWeek tk \<in> dw)"

lemma card_full: "r \<subseteq> {lo..hi::int} \<Longrightarrow> card r = card {lo..hi} \<longleftrightarrow> r = {lo..hi}"
  by (metis card_subset_eq finite_atLeastAtMost_int)

lemma card_bound: "r \<subseteq> {lo..hi::int} \<Longrightarrow> card r \<le> card {lo..hi}"
  by (rule card_mono) auto

lemma mergeDays_rule:
  assumes "j_day j \<subseteq> {1..days}" "j_dayOfWeek j \<subseteq> {0..dayOfWeek}"
    and "t_day tk \<in> {1..days}" "t_dayOfWeek tk \<in> {0..dayOfWeek}"
  shows "t_day tk \<in> j_day (mergeDays j) \<or> t_dayOfWeek tk \<in> j_dayOfWeek (mergeDays j) \<longleftrightarrow>
         day_rule (j_day j) (j_dayOfWeek j) tk"
proof -
  have c: "card {1..days} = 31" "card {0..dayOfWeek} = 7" by (simp_all add: cron_bounds)
  have d: "card (j_day j) = 31 \<longleftrightarrow> j_day j = {1..days}" "card (j_day j) \<le> 31"
    using card_full [OF assms(1)] card_bound [OF assms(1)] c by auto
  have w: "card (j_dayOfWeek j) = 7 \<longleftrightarrow> j_dayOfWeek j = {0..dayOfWeek}" "card (j_dayOfWeek j) \<le> 7"
    using card_full [OF assms(2)] card_bound [OF assms(2)] c by auto
  from d w assms show ?thesis
    by (auto simp: mergeDays_def day_rule_def c)
qed

lemma mergeDays_frame [simp]:
  "j_sec (mergeDays j) = j_sec j" "j_min (mergeDays j) = j_min j" "j_hour (mergeDays j) = j_hour j"
  "j_month (mergeDays j) = j_month j"
  by (auto simp: mergeDays_def)

text \<open>
  C11. When a job fires: a five-part schedule that parses fires at exactly the ticks at second 0 whose
  minute, hour and month belong to the sets of their parts and whose day satisfies the cron rule for
  combining day of month and day of week.
\<close>

theorem parseSchedule_fires:
  assumes "schedule_parts s = [p0, p1, p2, p3, p4]"
    and "parsePart p0 0 minutes = Some (Inr mi)" and "parsePart p1 0 hrs = Some (Inr ho)"
    and "parsePart p2 1 days = Some (Inr da)" and "parsePart p3 1 months = Some (Inr mo)"
    and "parsePart p4 0 dayOfWeek = Some (Inr dw)"
    and "step_fits p2 days" and "step_fits p4 dayOfWeek"
    and "t_day tk \<in> {1..days}" and "t_dayOfWeek tk \<in> {0..dayOfWeek}"
  shows "\<exists>j :: 'f job. parseSchedule s = Some (Inr j) \<and>
    (job_tick j tk \<longleftrightarrow> t_sec tk = 0 \<and> t_min tk \<in> mi \<and> t_hour tk \<in> ho \<and> t_month tk \<in> mo \<and>
       day_rule da dw tk)"
proof -
  let ?j = "(empty_job :: 'f job)\<lparr>j_min := mi, j_hour := ho, j_day := da, j_month := mo, j_dayOfWeek := dw\<rparr>"
  have "da \<subseteq> {1..days}" and "dw \<subseteq> {0..dayOfWeek}"
    using assms parsePart_cases [of 1 days p2] parsePart_cases [of 0 dayOfWeek p4]
    by (auto simp: int64_num cron_bounds)
  then have "t_day tk \<in> j_day (mergeDays ?j) \<or> t_dayOfWeek tk \<in> j_dayOfWeek (mergeDays ?j) \<longleftrightarrow>
      day_rule da dw tk"
    using assms(9,10) mergeDays_rule [of ?j tk] by simp
  then have "job_tick (mergeDays ?j) tk \<longleftrightarrow> t_sec tk = 0 \<and> t_min tk \<in> mi \<and> t_hour tk \<in> ho \<and>
      t_month tk \<in> mo \<and> day_rule da dw tk"
    by (auto simp: job_tick_def empty_job_def)
  with assms(1-6) show ?thesis by (auto simp: parseSchedule_def parseFields_def)
qed

theorem parseSchedule_fires_witness:
  "\<exists>j :: unit job. parseSchedule ''30 9 1 * 1-5'' = Some (Inr j) \<and>
     (job_tick j \<lparr>t_sec = 0, t_min = 30, t_hour = 9, t_day = 7, t_month = 3, t_dayOfWeek = 2\<rparr> \<longleftrightarrow> True)"
proof -
  let ?tk = "\<lparr>t_sec = 0, t_min = 30, t_hour = 9, t_day = 7, t_month = 3, t_dayOfWeek = 2\<rparr>"
  have num: "parsePart ''30'' 0 minutes = Some (Inr {30})" "parsePart ''9'' 0 hrs = Some (Inr {9})"
      "parsePart ''1'' 1 days = Some (Inr {1})"
    by code_simp+
  have rng: "parsePart ''1-5'' 0 dayOfWeek = Some (Inr {1..5})" by code_simp
  have any: "parsePart ''*'' 1 months = Some (Inr {1..12})"
    by (simp add: parsePart_def getDefaultJobField_one cron_bounds int64_num)
  have rule: "day_rule {1} {1..5} ?tk" by code_simp
  have "schedule_parts ''30 9 1 * 1-5'' = [''30'', ''9'', ''1'', ''*'', ''1-5'']"
    and "step_fits ''1'' days" and "step_fits ''1-5'' dayOfWeek" by code_simp+
  from parseSchedule_fires [OF this(1) num any rng this(2,3), of ?tk]
  show ?thesis using rule by (simp add: cron_bounds)
qed

text \<open>
  C14. Stopping joins: in every state the goroutines of a crontab can reach, once a call of \<^verbatim>\<open>stop\<close>
  has returned because the wait group was joined, no job is running, and no later step of the
  system, a tick still pending included, starts one.
\<close>

theorem stop_joins_all_jobs:
  assumes "reachable cron_init cron_step s" and "0 < stop_joined s" and "cron_step\<^sup>*\<^sup>* s t"
  shows "c_running (tab t) = []"
proof -
  have "cron_inv s" using assms(1) by (rule cron.reachable_inv)
  with assms(3) have "cron_inv t" by (rule cron.steps_inv)
  moreover from assms(3,2) have "0 < stop_joined t"
    by (induction rule: rtranclp_induct) (auto simp: cron_step_simps)
  ultimately show ?thesis by (simp add: cron_inv_def)
qed

theorem stop_joins_all_jobs_witness:
  "c_running (tab \<lparr>tab = stop_begin NewCron :: unit crontab, loop_alive = True, stop_waiting = 0,
     stop_joined = 1\<rparr>) = []"
proof -
  let ?s0 = "\<lparr>tab = NewCron :: unit crontab, loop_alive = True, stop_waiting = 0, stop_joined = 0\<rparr>"
  let ?s1 = "\<lparr>tab = stop_begin NewCron :: unit crontab, loop_alive = True, stop_waiting = 1, stop_joined = 0\<rparr>"
  let ?s2 = "\<lparr>tab = stop_begin NewCron :: unit crontab, loop_alive = True, stop_waiting = 0, stop_joined = 1\<rparr>"
  have "reachable cron_init cron_step ?s0" by (rule reachable_init) (simp add: cron_init_def)
  moreover have "cron_step ?s0 ?s1" using cron_step.stop_call [of ?s0] by simp
  moreover have "cron_step ?s1 ?s2"
    using cron_step.stop_join [of ?s1 0] by (simp add: stop_begin_def NewCron_def)
  ultimately have "reachable cron_init cron_step ?s2" by (blast intro: reachable_step)
  then show ?thesis by (rule stop_joins_all_jobs [where t = ?s2]) simp_all
qed

text \<open>
  One run of a job is accounted for: with a logger and metrics it calls the job's function once,
  counts one start and exactly one outcome (a failure if and only if the function panics, which is
  recovered), and ends with the duration recorded, the end logged and the span closed.
\<close>

lemma job_run_accounting:
  assumes "has_logger c" and "has_metrics c"
  shows "count_list (job_run panics j (Some c)) CallFn = 1 \<and>
    count_list (job_run panics j (Some c)) (IncrementCounter ''app_cron_job_total'' (j_name j)) = 1 \<and>
    count_list (job_run panics j (Some c)) (IncrementCounter ''app_cron_job_failures'' (j_name j)) =
      (if fn_panics panics (j_fn j) then 1 else 0) \<and>
    count_list (job_run panics j (Some c)) (IncrementCounter ''app_cron_job_success'' (j_name j)) =
      (if fn_panics panics (j_fn j) then 0 else 1) \<and>
    RecordHistogram ''app_cron_job_duration'' (j_name j) \<in> set (job_run panics j (Some c)) \<and>
    last (job_run panics j (Some c)) = EndSpan"
  using assms by (auto simp: job_run_def)

lemma job_run_accounting_witness:
  "last (job_run (\<lambda>f :: bool. f) (empty_job\<lparr>j_name := ''sync'', j_fn := Some True\<rparr>)
     (Some \<lparr>has_logger = True, has_metrics = True\<rparr>)) = EndSpan"
  using job_run_accounting [of "\<lparr>has_logger = True, has_metrics = True\<rparr>" "\<lambda>f :: bool. f"
      "empty_job\<lparr>j_name := ''sync'', j_fn := Some True\<rparr>"] by simp

end
