(* ===== verification/Trie_Router.thy ===== *)
theory Trie_Router
  imports Go_Prelude "HOL-Library.Multiset"
begin

text \<open>
  The route index of \<^verbatim>\<open>pkg/gofr/http/trie_router.go\<close>: which routes may be indexed (an analysis of
  the regular expression gorilla/mux compiled for a route), the segment trie, the candidates of a
  request and the match among them. The router gorilla/mux and the parser of \<^verbatim>\<open>regexp/syntax\<close> are
  not part of the repository: their operations are the fields of the record \<open>mux\<close>, a parameter of
  every definition that calls them.
\<close>

section \<open>Regular expressions\<close>

text \<open>The syntax trees of \<^verbatim>\<open>regexp/syntax\<close>, one constructor per operator; runes are integers.
  A character class is its list of inclusive range pairs.\<close>

datatype regexp =
    OpNoMatch
  | OpEmptyMatch
  | OpLiteral "int list"
  | OpCharClass "int list"
  | OpAnyCharNotNL
  | OpAnyChar
  | OpBeginLine
  | OpEndLine
  | OpBeginText
  | OpEndText
  | OpWordBoundary
  | OpNoWordBoundary
  | OpCapture regexp
  | OpStar regexp
  | OpPlus regexp
  | OpQuest regexp
  | OpRepeat int int regexp
  | OpConcat "regexp list"
  | OpAlternate "regexp list"

text \<open>The field \<^verbatim>\<open>Sub\<close> of a node.\<close>

fun Sub :: "regexp \<Rightarrow> regexp list" where
  "Sub (OpCapture r) = [r]"
| "Sub (OpStar r) = [r]"
| "Sub (OpPlus r) = [r]"
| "Sub (OpQuest r) = [r]"
| "Sub (OpRepeat lo hi r) = [r]"
| "Sub (OpConcat rs) = rs"
| "Sub (OpAlternate rs) = rs"
| "Sub _ = []"

lemma Sub_size [termination_simp]: "x \<in> set (Sub re) \<Longrightarrow> size x < size re"
  by (cases re) (auto dest: size_list_estimation' [where f = size, OF _ order_refl])

definition slash :: int where "slash = 47"

definition isAnchoredBothEnds :: "regexp \<Rightarrow> bool" where
  "isAnchoredBothEnds re =
     (case re of
        OpConcat rs \<Rightarrow>
          if length rs < 2 then False
          else (hd rs = OpBeginText \<or> hd rs = OpBeginLine) \<and> (last rs = OpEndText \<or> last rs = OpEndLine)
      | _ \<Rightarrow> False)"

fun class_pair :: "int list \<Rightarrow> int \<Rightarrow> bool" where
  "class_pair (lo # hi # rs) r = (lo \<le> r \<and> r \<le> hi \<or> class_pair rs r)"
| "class_pair _ r = False"

fun opEmitsSlash :: "regexp \<Rightarrow> bool" where
  "opEmitsSlash OpAnyChar = True"
| "opEmitsSlash OpAnyCharNotNL = True"
| "opEmitsSlash (OpLiteral rs) = (slash \<in> set rs)"
| "opEmitsSlash (OpCharClass rs) = class_pair rs slash"
| "opEmitsSlash _ = False"

fun reNodeMayMatchSlash :: "regexp \<Rightarrow> bool" where
  "reNodeMayMatchSlash re = (opEmitsSlash re \<or> list_ex reNodeMayMatchSlash (Sub re))"

declare reNodeMayMatchSlash.simps [simp del]

fun canMatchEmpty :: "regexp \<Rightarrow> bool" and allCanMatchEmpty :: "regexp list \<Rightarrow> bool"
  and anyCanMatchEmpty :: "regexp list \<Rightarrow> bool" where
  "canMatchEmpty (OpLiteral rs) = (rs = [])"
| "canMatchEmpty (OpCharClass rs) = False"
| "canMatchEmpty OpAnyChar = False"
| "canMatchEmpty OpAnyCharNotNL = False"
| "canMatchEmpty OpNoMatch = False"
| "canMatchEmpty (OpCapture r) = canMatchEmpty r"
| "canMatchEmpty (OpPlus r) = canMatchEmpty r"
| "canMatchEmpty (OpRepeat lo hi r) = (lo = 0 \<or> canMatchEmpty r)"
| "canMatchEmpty (OpConcat rs) = allCanMatchEmpty rs"
| "canMatchEmpty (OpAlternate rs) = anyCanMatchEmpty rs"
| "canMatchEmpty _ = True"
| "allCanMatchEmpty [] = True"
| "allCanMatchEmpty (r # rs) = (if \<not> canMatchEmpty r then False else allCanMatchEmpty rs)"
| "anyCanMatchEmpty [] = False"
| "anyCanMatchEmpty (r # rs) = (if canMatchEmpty r then True else anyCanMatchEmpty rs)"

definition is_capture :: "regexp \<Rightarrow> bool" where
  "is_capture re = (case re of OpCapture r \<Rightarrow> True | _ \<Rightarrow> False)"

fun capturesAreSingleSegment :: "regexp \<Rightarrow> bool" where
  "capturesAreSingleSegment re =
     (if is_capture re \<and> (reNodeMayMatchSlash re \<or> canMatchEmpty re) then False
      else list_all capturesAreSingleSegment (Sub re))"

declare capturesAreSingleSegment.simps [simp del]

section \<open>The interface to gorilla/mux\<close>

text \<open>A route is an abstract value of type \<open>'r\<close>, a request one of type \<open>'q\<close>, a \<^verbatim>\<open>RouteMatch\<close> one of
  type \<open>'m\<close>. \<open>Match\<close> takes the match it writes into and returns it with the verdict; \<open>emptyMatch\<close> is
  \<^verbatim>\<open>mux.RouteMatch{}\<close>. \<open>urlPath\<close> and \<open>escapedPath\<close> are the two forms of a request's path.\<close>

record ('r, 'q, 'm) mux =
  GetPathTemplate :: "'r \<Rightarrow> string option"
  GetPathRegexp :: "'r \<Rightarrow> string option"
  syntaxParse :: "string \<Rightarrow> regexp option"
  Match :: "'r \<Rightarrow> 'q \<Rightarrow> 'm \<Rightarrow> bool \<times> 'm"
  emptyMatch :: 'm
  urlPath :: "'q \<Rightarrow> string"
  escapedPath :: "'q \<Rightarrow> string"

definition isIndexablePathRegexp :: "('r, 'q, 'm) mux \<Rightarrow> string \<Rightarrow> bool" where
  "isIndexablePathRegexp mx rx =
     (case syntaxParse mx rx of
        None \<Rightarrow> False
      | Some re \<Rightarrow> isAnchoredBothEnds re \<and> capturesAreSingleSegment re)"

definition exactPathTemplate :: "('r, 'q, 'm) mux \<Rightarrow> 'r \<Rightarrow> string option" where
  "exactPathTemplate mx route =
     (case GetPathTemplate mx route of
        None \<Rightarrow> None
      | Some tpl \<Rightarrow>
          if \<not> HasPrefix tpl ''/'' then None
          else (case GetPathRegexp mx route of
                  None \<Rightarrow> None
                | Some rx \<Rightarrow> if \<not> isIndexablePathRegexp mx rx then None else Some tpl))"

section \<open>The trie\<close>

record 'r routeEntry =
  route :: 'r
  order :: nat

datatype 'e trieNode = TrieNode
  (children: "string \<Rightarrow> 'e trieNode option")
  (paramChild: "'e trieNode option")
  (routes: "'e list")

definition newTrieNode :: "'e trieNode" where
  "newTrieNode = TrieNode (\<lambda>_. None) None []"

definition pathSegments :: "string \<Rightarrow> string list" where
  "pathSegments p =
     (let p' = Trim p (CHR ''/'') in if p' = [] then [] else Split p' (CHR ''/''))"

definition segmentHasParam :: "string \<Rightarrow> bool" where
  "segmentHasParam seg = Contains seg ''{''"

fun trie_insert :: "string list \<Rightarrow> 'e \<Rightarrow> 'e trieNode \<Rightarrow> 'e trieNode" where
  "trie_insert [] e (TrieNode ch pc rs) = TrieNode ch pc (rs @ [e])"
| "trie_insert (seg # segs) e (TrieNode ch pc rs) =
     (if segmentHasParam seg then
        (let n = (case pc of None \<Rightarrow> newTrieNode | Some n \<Rightarrow> n)
         in TrieNode ch (Some (trie_insert segs e n)) rs)
      else
        (let n = (case ch seg of None \<Rightarrow> newTrieNode | Some n \<Rightarrow> n)
         in TrieNode (ch(seg := Some (trie_insert segs e n))) pc rs))"

text \<open>\<open>collect n rest out\<close> appends to \<open>out\<close>; the first segment of \<open>rest\<close> ends at its first slash.\<close>

definition first_segment :: "string \<Rightarrow> string \<times> string" where
  "first_segment rest =
     (case IndexByte rest (CHR ''/'') of
        Some i \<Rightarrow> (take i rest, drop (i + 1) rest)
      | None \<Rightarrow> (rest, []))"

lemma first_segment_length: "rest \<noteq> [] \<Longrightarrow> length (snd (first_segment rest)) < length rest"
  by (auto simp: first_segment_def dest: IndexByte_Some split: option.splits)

function collect :: "'e trieNode \<Rightarrow> string \<Rightarrow> 'e list \<Rightarrow> 'e list" where
  "collect n rest out =
     (if rest = [] then out @ routes n
      else let seg = fst (first_segment rest); tail = snd (first_segment rest);
               out1 = (case children n seg of Some child \<Rightarrow> collect child tail out | None \<Rightarrow> out)
           in (case paramChild n of Some child \<Rightarrow> collect child tail out1 | None \<Rightarrow> out1))"
  by pat_completeness auto
termination
  by (relation "measure (\<lambda>(n, rest, out). length rest)") (auto simp: first_segment_length)

declare collect.simps [simp del]

section \<open>The index\<close>

record 'r routeIndex =
  root :: "'r routeEntry trieNode"
  fallback :: "'r routeEntry list"

definition newRouteIndex :: "'r routeIndex" where
  "newRouteIndex = \<lparr>root = newTrieNode, fallback = []\<rparr>"

definition idx_insert :: "string \<Rightarrow> 'r routeEntry \<Rightarrow> 'r routeIndex \<Rightarrow> 'r routeIndex" where
  "idx_insert tpl e idx = idx\<lparr>root := trie_insert (pathSegments tpl) e (root idx)\<rparr>"

text \<open>\<open>build\<close> visits the routes in the order in which \<^verbatim>\<open>Walk\<close> does, the order of registration.\<close>

fun build_from :: "('r, 'q, 'm) mux \<Rightarrow> nat \<Rightarrow> 'r list \<Rightarrow> 'r routeIndex \<Rightarrow> 'r routeIndex" where
  "build_from mx ord [] idx = idx"
| "build_from mx ord (r # rs) idx =
     (let e = \<lparr>route = r, order = ord\<rparr> in
      case exactPathTemplate mx r of
        None \<Rightarrow> build_from mx (Suc ord) rs (idx\<lparr>fallback := fallback idx @ [e]\<rparr>)
      | Some tpl \<Rightarrow> build_from mx (Suc ord) rs (idx_insert tpl e idx))"

definition build :: "('r, 'q, 'm) mux \<Rightarrow> 'r list \<Rightarrow> 'r routeIndex" where
  "build mx rs = build_from mx 0 rs newRouteIndex"

definition candidates :: "('r, 'q, 'm) mux \<Rightarrow> 'r routeIndex \<Rightarrow> 'q \<Rightarrow> 'r routeEntry list \<Rightarrow> 'r routeEntry list" where
  "candidates mx idx req out =
     (let out1 = collect (root idx) (Trim (urlPath mx req) (CHR ''/'')) out;
          esc = escapedPath mx req;
          out2 = (if esc \<noteq> urlPath mx req then collect (root idx) (Trim esc (CHR ''/'')) out1 else out1)
      in out2 @ fallback idx)"

text \<open>The insertion sort, on the slice as a list: the inner loop moves the element at \<open>j\<close> down.\<close>

fun sift_down :: "'r routeEntry list \<Rightarrow> nat \<Rightarrow> 'r routeEntry list" where
  "sift_down cands 0 = cands"
| "sift_down cands (Suc j) =
     (if order (cands ! Suc j) < order (cands ! j)
      then sift_down (cands[Suc j := cands ! j, j := cands ! Suc j]) j
      else cands)"

fun sort_outer :: "'r routeEntry list \<Rightarrow> nat \<Rightarrow> nat \<Rightarrow> 'r routeEntry list" where
  "sort_outer cands i 0 = cands"
| "sort_outer cands i (Suc n) = sort_outer (sift_down cands i) (Suc i) n"

definition sortByRegistrationOrder :: "'r routeEntry list \<Rightarrow> 'r routeEntry list" where
  "sortByRegistrationOrder cands = sort_outer cands 1 (length cands - 1)"

fun match_loop :: "('r, 'q, 'm) mux \<Rightarrow> 'q \<Rightarrow> 'r routeEntry list \<Rightarrow> bool \<times> 'm" where
  "match_loop mx req [] = (False, emptyMatch mx)"
| "match_loop mx req (e # es) =
     (case Match mx (route e) req (emptyMatch mx) of
        (True, rm) \<Rightarrow> (True, rm)
      | (False, rm) \<Rightarrow> match_loop mx req es)"

definition idx_match :: "('r, 'q, 'm) mux \<Rightarrow> 'r routeIndex \<Rightarrow> 'q \<Rightarrow> bool \<times> 'm" where
  "idx_match mx idx req = match_loop mx req (sortByRegistrationOrder (candidates mx idx req []))"

section \<open>Lemmas: what a capture can match\<close>

text \<open>
  The strings a syntax tree matches. Anchors and word boundaries match the empty string, without
  regard to the position; a literal may fold case, by the relation \<open>eqv\<close> between runes.
\<close>

inductive re_matches :: "(int \<Rightarrow> int \<Rightarrow> bool) \<Rightarrow> regexp \<Rightarrow> int list \<Rightarrow> bool" for eqv where
  m_empty: "re_matches eqv OpEmptyMatch []"
| m_literal: "list_all2 eqv rs w \<Longrightarrow> re_matches eqv (OpLiteral rs) w"
| m_class: "class_pair rs r \<Longrightarrow> re_matches eqv (OpCharClass rs) [r]"
| m_any_nl: "r \<noteq> 10 \<Longrightarrow> re_matches eqv OpAnyCharNotNL [r]"
| m_any: "re_matches eqv OpAnyChar [r]"
| m_anchor: "re \<in> {OpBeginLine, OpEndLine, OpBeginText, OpEndText, OpWordBoundary, OpNoWordBoundary} \<Longrightarrow>
     re_matches eqv re []"
| m_capture: "re_matches eqv r w \<Longrightarrow> re_matches eqv (OpCapture r) w"
| m_star: "\<forall>w \<in> set ws. re_matches eqv r w \<Longrightarrow> re_matches eqv (OpStar r) (concat ws)"
| m_plus: "ws \<noteq> [] \<Longrightarrow> \<forall>w \<in> set ws. re_matches eqv r w \<Longrightarrow> re_matches eqv (OpPlus r) (concat ws)"
| m_quest: "length ws \<le> 1 \<Longrightarrow> \<forall>w \<in> set ws. re_matches eqv r w \<Longrightarrow> re_matches eqv (OpQuest r) (concat ws)"
| m_repeat: "lo \<le> int (length ws) \<Longrightarrow> hi = - 1 \<or> int (length ws) \<le> hi \<Longrightarrow>
     \<forall>w \<in> set ws. re_matches eqv r w \<Longrightarrow> 0 \<le> lo \<Longrightarrow> re_matches eqv (OpRepeat lo hi r) (concat ws)"
| m_concat: "length rs = length ws \<Longrightarrow> \<forall>i < length rs. re_matches eqv (rs ! i) (ws ! i) \<Longrightarrow>
     re_matches eqv (OpConcat rs) (concat ws)"
| m_alternate: "r \<in> set rs \<Longrightarrow> re_matches eqv r w \<Longrightarrow> re_matches eqv (OpAlternate rs) w"

lemma allCanMatchEmpty_iff: "allCanMatchEmpty rs \<longleftrightarrow> (\<forall>r \<in> set rs. canMatchEmpty r)"
  by (induction rs) auto

lemma anyCanMatchEmpty_iff: "anyCanMatchEmpty rs \<longleftrightarrow> (\<exists>r \<in> set rs. canMatchEmpty r)"
  by (induction rs) auto

lemma canMatchEmpty_complete: "re_matches eqv re w \<Longrightarrow> w = [] \<Longrightarrow> canMatchEmpty re"
proof (induction rule: re_matches.induct)
  case (m_plus ws r)
  then show ?case by (cases ws) auto
next
  case (m_repeat lo ws hi r)
  then show ?case by (cases ws) auto
next
  case (m_concat rs ws)
  then have "canMatchEmpty (rs ! i)" if "i < length rs" for i using that by (metis concat_eq_Nil_conv nth_mem)
  then show ?case by (auto simp: allCanMatchEmpty_iff in_set_conv_nth)
qed (auto simp: anyCanMatchEmpty_iff)

lemma mayMatchSlash_node [simp]:
  "reNodeMayMatchSlash (OpLiteral rs) = (slash \<in> set rs)"
  "reNodeMayMatchSlash (OpCharClass rs) = class_pair rs slash"
  "reNodeMayMatchSlash OpAnyChar" "reNodeMayMatchSlash OpAnyCharNotNL"
  "reNodeMayMatchSlash (OpCapture r) = reNodeMayMatchSlash r"
  "reNodeMayMatchSlash (OpStar r) = reNodeMayMatchSlash r"
  "reNodeMayMatchSlash (OpPlus r) = reNodeMayMatchSlash r"
  "reNodeMayMatchSlash (OpQuest r) = reNodeMayMatchSlash r"
  "reNodeMayMatchSlash (OpRepeat lo hi r) = reNodeMayMatchSlash r"
  "reNodeMayMatchSlash (OpConcat ss) = list_ex reNodeMayMatchSlash ss"
  "reNodeMayMatchSlash (OpAlternate ss) = list_ex reNodeMayMatchSlash ss"
  by (subst reNodeMayMatchSlash.simps; simp)+

lemma mayMatchSlash_complete:
  assumes "re_matches eqv re w" and "\<And>a. eqv a slash \<Longrightarrow> a = slash"
  shows "slash \<in> set w \<Longrightarrow> reNodeMayMatchSlash re"
  using assms(1)
proof (induction rule: re_matches.induct)
  case (m_literal rs w)
  then obtain i where "i < length w" "w ! i = slash" "eqv (rs ! i) (w ! i)" "i < length rs"
    by (auto simp: list_all2_conv_all_nth in_set_conv_nth)
  with assms(2) have "slash \<in> set rs" by (metis nth_mem)
  then show ?case by simp
next
  case (m_concat rs ws)
  then obtain v where "v \<in> set ws" "slash \<in> set v" by auto
  then obtain i where i: "i < length ws" "ws ! i = v" by (auto simp: in_set_conv_nth)
  with m_concat \<open>slash \<in> set v\<close> have "reNodeMayMatchSlash (rs ! i)" "rs ! i \<in> set rs" by simp_all
  then show ?case by (auto simp: list_ex_iff)
qed (auto simp: list_ex_iff)

inductive subterm :: "regexp \<Rightarrow> regexp \<Rightarrow> bool" where
  subterm_refl: "subterm re re"
| subterm_sub: "subterm x r \<Longrightarrow> r \<in> set (Sub re) \<Longrightarrow> subterm x re"

lemma capturesAreSingleSegment_sub:
  "subterm x re \<Longrightarrow> capturesAreSingleSegment re \<Longrightarrow> capturesAreSingleSegment x"
proof (induction rule: subterm.induct)
  case (subterm_sub x r re)
  from subterm_sub.prems have "list_all capturesAreSingleSegment (Sub re)"
    by (subst (asm) capturesAreSingleSegment.simps) (auto split: if_splits)
  with subterm_sub show ?case by (auto simp: list_all_iff)
qed

section \<open>Lemmas: the trie as an index by segments\<close>

text \<open>What the index relies on the trie for, as an interface: a collection of entries filed under
  lists of template segments, searched by a list of path segments.\<close>

locale segment_index =
  fixes empty_index :: 't
    and ins :: "string list \<Rightarrow> 'e \<Rightarrow> 't \<Rightarrow> 't"
    and coll :: "'t \<Rightarrow> string list \<Rightarrow> 'e list"
    and fits :: "string list \<Rightarrow> string list \<Rightarrow> bool"
  assumes coll_empty: "coll empty_index ss = []"
    and coll_ins: "set (coll (ins ts e t) ss) = set (coll t ss) \<union> (if fits ts ss then {e} else {})"
begin

lemma coll_fold:
  "set (coll (fold (\<lambda>(ts, e). ins ts e) xs t) ss) = set (coll t ss) \<union> {e. \<exists>ts. (ts, e) \<in> set xs \<and> fits ts ss}"
proof (induction xs arbitrary: t)
  case Nil
  then show ?case by simp
next
  case (Cons x xs)
  then show ?case by (cases x) (auto simp: coll_ins)
qed

lemma coll_filed:
  "set (coll (fold (\<lambda>(ts, e). ins ts e) xs empty_index) ss) = {e. \<exists>ts. (ts, e) \<in> set xs \<and> fits ts ss}"
  by (simp add: coll_fold coll_empty)

end

fun collect_segs :: "'e trieNode \<Rightarrow> string list \<Rightarrow> 'e list" where
  "collect_segs n [] = routes n"
| "collect_segs n (s # ss) =
     (case children n s of Some c \<Rightarrow> collect_segs c ss | None \<Rightarrow> []) @
     (case paramChild n of Some c \<Rightarrow> collect_segs c ss | None \<Rightarrow> [])"

definition aligned :: "string list \<Rightarrow> string list \<Rightarrow> bool" where
  "aligned ts ss = list_all2 (\<lambda>t s. segmentHasParam t \<or> t = s) ts ss"

lemma collect_segs_new [simp]: "collect_segs newTrieNode ss = []"
  by (cases ss) (auto simp: newTrieNode_def)

lemma collect_segs_insert:
  "set (collect_segs (trie_insert ts e n) ss) = set (collect_segs n ss) \<union> (if aligned ts ss then {e} else {})"
proof (induction ts e n arbitrary: ss rule: trie_insert.induct)
  case (1 e ch pc rs)
  then show ?case by (cases ss) (auto simp: aligned_def)
next
  case (2 seg segs e ch pc rs)
  show ?case
  proof (cases ss)
    case Nil
    then show ?thesis by (simp add: aligned_def Let_def)
  next
    case (Cons s ss')
    show ?thesis
    proof (cases "segmentHasParam seg")
      case True
      with "2.IH"(1) [OF True refl, of ss'] Cons show ?thesis
        by (cases pc) (auto simp: aligned_def Let_def)
    next
      case False
      with "2.IH"(2) [OF False refl, of ss'] Cons show ?thesis
        by (cases "ch seg") (auto simp: aligned_def Let_def)
    qed
  qed
qed

interpretation trie: segment_index newTrieNode trie_insert collect_segs aligned
  by unfold_locales (simp_all add: collect_segs_insert)

lemma Trim_last: "Trim s c = [] \<or> last (Trim s c) \<noteq> c"
proof -
  have "dropWhile (\<lambda>d. d = c) xs = [] \<or> hd (dropWhile (\<lambda>d. d = c) xs) \<noteq> c" for xs
    by (induction xs) auto
  from this [of "rev (TrimLeft s c)"] show ?thesis
    by (simp only: Trim_def TrimRight_def last_rev rev_is_Nil_conv)
qed

lemma first_segment_Split:
  assumes "rest \<noteq> []" "last rest \<noteq> CHR ''/''"
  shows "Split rest (CHR ''/'') = fst (first_segment rest) #
      (if snd (first_segment rest) = [] then [] else Split (snd (first_segment rest)) (CHR ''/'')) \<and>
    (snd (first_segment rest) = [] \<or> last (snd (first_segment rest)) \<noteq> CHR ''/'')"
proof (cases "IndexByte rest (CHR ''/'')")
  case None
  then have "CHR ''/'' \<notin> set rest" by (simp add: IndexByte_None)
  then show ?thesis using None by (simp add: first_segment_def Split_single)
next
  case (Some i)
  from IndexByte_Some [OF Some] have i: "i < length rest" "rest ! i = CHR ''/''"
    "CHR ''/'' \<notin> set (take i rest)" by auto
  then have r: "rest = take i rest @ CHR ''/'' # drop (Suc i) rest" by (metis id_take_nth_drop)
  with assms(2) have ne: "drop (Suc i) rest \<noteq> []" by (metis append_is_Nil_conv last_snoc)
  have "Split rest (CHR ''/'') = take i rest # Split (drop (Suc i) rest) (CHR ''/'')"
    using Split_append [OF i(3)] r by metis
  moreover have "last (drop (Suc i) rest) = last rest" using ne by simp
  ultimately show ?thesis using Some ne assms(2) by (simp add: first_segment_def)
qed

lemma collect_eq:
  "rest = [] \<or> last rest \<noteq> CHR ''/'' \<Longrightarrow>
   collect n rest out = out @ collect_segs n (if rest = [] then [] else Split rest (CHR ''/''))"
proof (induction n rest out rule: collect.induct)
  case (1 n rest out)
  show ?case
  proof (cases "rest = []")
    case True
    then show ?thesis by (simp add: collect.simps)
  next
    case False
    with "1.prems" first_segment_Split [of rest] have s:
      "Split rest (CHR ''/'') = fst (first_segment rest) #
        (if snd (first_segment rest) = [] then [] else Split (snd (first_segment rest)) (CHR ''/''))"
      "snd (first_segment rest) = [] \<or> last (snd (first_segment rest)) \<noteq> CHR ''/''" by auto
    show ?thesis
      using False s "1.IH" [OF False refl refl] "1.IH"(2) [OF False refl refl refl]
      by (subst collect.simps) (auto simp: Let_def split: option.splits)
  qed
qed

lemma collect_Trim:
  "collect n (Trim p (CHR ''/'')) out = out @ collect_segs n (pathSegments p)"
  by (simp add: collect_eq Trim_last pathSegments_def Let_def)

section \<open>Lemmas: building the index\<close>

definition entries_from :: "nat \<Rightarrow> 'r list \<Rightarrow> 'r routeEntry list" where
  "entries_from ord rs = map (\<lambda>(i, r). \<lparr>route = r, order = i\<rparr>) (enumerate ord rs)"

abbreviation entries :: "'r list \<Rightarrow> 'r routeEntry list" where
  "entries rs \<equiv> entries_from 0 rs"

lemma entries_from_simps [simp]:
  "entries_from ord [] = []"
  "entries_from ord (r # rs) = \<lparr>route = r, order = ord\<rparr> # entries_from (Suc ord) rs"
  by (simp_all add: entries_from_def)

definition filed :: "('r, 'q, 'm) mux \<Rightarrow> 'r routeEntry list \<Rightarrow> (string list \<times> 'r routeEntry) list" where
  "filed mx es = concat (map (\<lambda>e. case exactPathTemplate mx (route e) of
     None \<Rightarrow> [] | Some tpl \<Rightarrow> [(pathSegments tpl, e)]) es)"

lemma filed_set:
  "(ts, e) \<in> set (filed mx es) \<longleftrightarrow>
     e \<in> set es \<and> (\<exists>tpl. exactPathTemplate mx (route e) = Some tpl \<and> ts = pathSegments tpl)"
proof (induction es)
  case Nil
  then show ?case by (simp add: filed_def)
next
  case (Cons x es)
  have "filed mx (x # es) = (case exactPathTemplate mx (route x) of
      None \<Rightarrow> [] | Some tpl \<Rightarrow> [(pathSegments tpl, x)]) @ filed mx es" by (simp add: filed_def)
  with Cons show ?case by (cases "exactPathTemplate mx (route x)") auto
qed

lemma build_from_parts:
  "root (build_from mx ord rs idx) =
     fold (\<lambda>(ts, e). trie_insert ts e) (filed mx (entries_from ord rs)) (root idx) \<and>
   fallback (build_from mx ord rs idx) =
     fallback idx @ filter (\<lambda>e. exactPathTemplate mx (route e) = None) (entries_from ord rs)"
  by (induction mx ord rs idx rule: build_from.induct)
    (auto simp: filed_def idx_insert_def Let_def split: option.splits)

lemma build_root:
  "set (collect_segs (root (build mx rs)) ss) =
     {e \<in> set (entries rs). \<exists>tpl. exactPathTemplate mx (route e) = Some tpl \<and> aligned (pathSegments tpl) ss}"
proof -
  have "root (build mx rs) = fold (\<lambda>(ts, e). trie_insert ts e) (filed mx (entries rs)) newTrieNode"
    using build_from_parts [of mx 0 rs newRouteIndex] by (simp add: build_def newRouteIndex_def)
  then show ?thesis by (auto simp: trie.coll_filed filed_set)
qed

lemma build_fallback:
  "set (fallback (build mx rs)) = {e \<in> set (entries rs). exactPathTemplate mx (route e) = None}"
  using build_from_parts [of mx 0 rs newRouteIndex] by (auto simp: build_def newRouteIndex_def)

text \<open>The alignment of a request's path, in either form, with a template.\<close>

definition path_aligned :: "('r, 'q, 'm) mux \<Rightarrow> 'q \<Rightarrow> string \<Rightarrow> bool" where
  "path_aligned mx req tpl \<longleftrightarrow>
     aligned (pathSegments tpl) (pathSegments (urlPath mx req)) \<or>
     aligned (pathSegments tpl) (pathSegments (escapedPath mx req))"

lemma candidates_set:
  "set (candidates mx (build mx rs) req []) =
     {e \<in> set (entries rs). case exactPathTemplate mx (route e) of
        None \<Rightarrow> True | Some tpl \<Rightarrow> path_aligned mx req tpl}"
  by (auto simp: candidates_def Let_def collect_Trim build_root build_fallback path_aligned_def
      split: option.splits if_splits)

section \<open>Lemmas: the insertion sort\<close>

fun ins_right :: "'r routeEntry \<Rightarrow> 'r routeEntry list \<Rightarrow> 'r routeEntry list" where
  "ins_right x [] = [x]"
| "ins_right x (y # ys) = (if order y \<le> order x then y # ins_right x ys else x # y # ys)"

lemma ins_right_mset: "mset (ins_right x xs) = add_mset x (mset xs)"
  by (induction xs) auto

lemma ins_right_set: "set (ins_right x xs) = insert x (set xs)"
  by (induction xs) auto

lemma ins_right_snoc: "order x < order y \<Longrightarrow> ins_right x (xs @ [y]) = ins_right x xs @ [y]"
  by (induction xs) auto

lemma ins_right_last: "\<forall>z \<in> set xs. order z \<le> order x \<Longrightarrow> ins_right x xs = xs @ [x]"
  by (induction xs) auto

lemma ins_right_sorted: "sorted (map order xs) \<Longrightarrow> sorted (map order (ins_right x xs))"
  by (induction xs) (auto simp: ins_right_set)

lemma ins_right_stable:
  "sorted (map order xs) \<Longrightarrow>
   filter (\<lambda>y. order y = k) (ins_right x xs) = filter (\<lambda>y. order y = k) (xs @ [x])"
proof (induction xs)
  case Nil
  then show ?case by simp
next
  case (Cons y xs)
  have "filter (\<lambda>z. order z = order x) xs = []" if "order x < order y"
    using Cons.prems that by (auto simp: filter_empty_conv)
  with Cons show ?case by (cases "order y \<le> order x") auto
qed

lemma sift_down_eq:
  "sorted (map order xs) \<Longrightarrow> sift_down (xs @ x # ys) (length xs) = ins_right x xs @ ys"
proof (induction xs arbitrary: ys rule: rev_induct)
  case Nil
  then show ?case by simp
next
  case (snoc y xs)
  show ?case
  proof (cases "order x < order y")
    case True
    then have "sift_down (xs @ y # x # ys) (Suc (length xs)) = sift_down (xs @ x # y # ys) (length xs)"
      by (simp add: nth_append list_update_append)
    with snoc True show ?thesis by (simp add: sorted_append ins_right_snoc)
  next
    case False
    then have "\<forall>z \<in> set (xs @ [y]). order z \<le> order x"
      using snoc.prems by (auto simp: sorted_append)
    from ins_right_last [OF this] False show ?thesis by (simp add: nth_append)
  qed
qed

lemma sort_outer_eq:
  "sorted (map order xs) \<Longrightarrow> sort_outer (xs @ ys) (length xs) (length ys) = foldl (\<lambda>a y. ins_right y a) xs ys"
proof (induction ys arbitrary: xs)
  case Nil
  then show ?case by simp
next
  case (Cons y ys)
  have len: "length (ins_right y xs) = Suc (length xs)"
    by (metis ins_right_mset size_add_mset size_mset)
  have "sort_outer (xs @ y # ys) (length xs) (length (y # ys)) =
      sort_outer (ins_right y xs @ ys) (length (ins_right y xs)) (length ys)"
    using Cons.prems by (simp add: sift_down_eq len)
  with Cons.IH [OF ins_right_sorted [OF Cons.prems], of y] show ?case by simp
qed

lemma foldl_ins_right:
  "sorted (map order xs) \<Longrightarrow>
   mset (foldl (\<lambda>a y. ins_right y a) xs ys) = mset xs + mset ys \<and>
   sorted (map order (foldl (\<lambda>a y. ins_right y a) xs ys)) \<and>
   filter (\<lambda>y. order y = k) (foldl (\<lambda>a y. ins_right y a) xs ys) = filter (\<lambda>y. order y = k) (xs @ ys)"
proof (induction ys arbitrary: xs)
  case Nil
  then show ?case by simp
next
  case (Cons y ys)
  from Cons.IH [OF ins_right_sorted [OF Cons.prems], of y]
  show ?case by (simp add: ins_right_mset ins_right_stable [OF Cons.prems])
qed

lemma sortByRegistrationOrder_eq: "sortByRegistrationOrder cands = sort_key order cands"
proof (cases cands)
  case Nil
  then show ?thesis by (simp add: sortByRegistrationOrder_def)
next
  case (Cons c cs)
  then have "sortByRegistrationOrder cands = foldl (\<lambda>a y. ins_right y a) [c] cs"
    using sort_outer_eq [of "[c]" cs] by (simp add: sortByRegistrationOrder_def)
  moreover have "sort_key order cands = foldl (\<lambda>a y. ins_right y a) [c] cs"
  proof (rule properties_for_sort_key)
    fix k :: "'a routeEntry"
    have eq: "(\<lambda>x. order k = order x) = (\<lambda>x. order x = order k)" by auto
    show "filter (\<lambda>x. order k = order x) (foldl (\<lambda>a y. ins_right y a) [c] cs) =
        filter (\<lambda>x. order k = order x) cands"
      unfolding eq using foldl_ins_right [of "[c]" cs "order k"] Cons by simp
  qed (use foldl_ins_right [of "[c]" cs] Cons in simp_all)
  ultimately show ?thesis by simp
qed

section \<open>Lemmas: the match\<close>

text \<open>The reference: a scan of all routes in the order of registration, which is what stock mux does.\<close>

fun scan :: "('r, 'q, 'm) mux \<Rightarrow> 'q \<Rightarrow> 'r list \<Rightarrow> bool \<times> 'm" where
  "scan mx req [] = (False, emptyMatch mx)"
| "scan mx req (r # rs) =
     (if fst (Match mx r req (emptyMatch mx)) then Match mx r req (emptyMatch mx) else scan mx req rs)"

definition hits :: "('r, 'q, 'm) mux \<Rightarrow> 'q \<Rightarrow> 'r routeEntry \<Rightarrow> bool" where
  "hits mx req e = fst (Match mx (route e) req (emptyMatch mx))"

definition outcome :: "('r, 'q, 'm) mux \<Rightarrow> 'q \<Rightarrow> 'r routeEntry list \<Rightarrow> bool \<times> 'm" where
  "outcome mx req es =
     (case es of [] \<Rightarrow> (False, emptyMatch mx) | e # _ \<Rightarrow> Match mx (route e) req (emptyMatch mx))"

lemma match_loop_eq: "match_loop mx req es = outcome mx req (filter (hits mx req) es)"
  by (induction es) (auto simp: hits_def outcome_def split: prod.splits bool.splits)

lemma scan_eq: "scan mx req rs = outcome mx req (filter (hits mx req) (entries_from ord rs))"
  by (induction rs arbitrary: ord) (auto simp: hits_def outcome_def)

lemma entries_from_order: "map order (entries_from ord rs) = [ord..<ord + length rs]"
proof (induction rs arbitrary: ord)
  case Nil
  then show ?case by simp
next
  case (Cons r rs)
  have "[ord..<ord + length (r # rs)] = ord # [Suc ord..<Suc ord + length rs]"
    by (subst upt_conv_Cons) simp_all
  with Cons.IH [of "Suc ord"] show ?case by (simp del: upt_Suc)
qed

lemma hd_sorted_unique:
  assumes "sorted (map f xs)" "sorted (map f ys)" "set xs = set ys" "inj_on f (set xs)" "xs = x # xs'" "ys = y # ys'"
  shows "x = y"
proof -
  have "f x \<le> f y" "f y \<le> f x" using assms by auto
  with assms show ?thesis by (metis antisym inj_onD list.set_intros(1))
qed

lemma outcome_unique:
  assumes "sorted (map order xs)" "sorted (map order ys)" "set xs = set ys" "inj_on order (set xs)"
  shows "outcome mx req xs = outcome mx req ys"
proof (cases xs)
  case Nil
  with assms(3) show ?thesis by simp
next
  case (Cons x xs')
  with assms(3) obtain y ys' where ys: "ys = y # ys'" by (cases ys) auto
  from hd_sorted_unique [OF assms Cons ys] Cons ys show ?thesis by (simp add: outcome_def)
qed

lemma narrowing_sound:
  assumes "set cands \<subseteq> set (entries rs)" "\<And>e. e \<in> set (entries rs) \<Longrightarrow> hits mx req e \<Longrightarrow> e \<in> set cands"
  shows "match_loop mx req (sortByRegistrationOrder cands) = scan mx req rs"
proof -
  have ord: "sorted (map order (entries rs))" "inj_on order (set (entries rs))"
    using entries_from_order [of 0 rs] distinct_map [of order "entries rs"] by simp_all
  have "outcome mx req (filter (hits mx req) (sort_key order cands)) =
      outcome mx req (filter (hits mx req) (entries rs))"
  proof (rule outcome_unique)
    show "set (filter (hits mx req) (sort_key order cands)) = set (filter (hits mx req) (entries rs))"
      using assms by auto
    show "inj_on order (set (filter (hits mx req) (sort_key order cands)))"
      using ord(2) assms(1) by (auto elim!: inj_on_subset)
    show "sorted (map order (filter (hits mx req) (sort_key order cands)))"
      by (rule sorted_filter) simp
    show "sorted (map order (filter (hits mx req) (entries rs)))"
      using ord(1) by (rule sorted_filter)
  qed
  then show ?thesis
    by (simp add: match_loop_eq sortByRegistrationOrder_eq scan_eq [where ord = 0])
qed

lemma match_candidates_scan:
  assumes "\<And>r tpl. r \<in> set rs \<Longrightarrow> exactPathTemplate mx r = Some tpl \<Longrightarrow>
      fst (Match mx r req (emptyMatch mx)) \<Longrightarrow> path_aligned mx req tpl"
  shows "idx_match mx (build mx rs) req = scan mx req rs"
  unfolding idx_match_def
proof (rule narrowing_sound)
  show "set (candidates mx (build mx rs) req []) \<subseteq> set (entries rs)"
    by (auto simp: candidates_set)
next
  fix e assume e: "e \<in> set (entries rs)" "hits mx req e"
  then have "route e \<in> set rs"
    by (auto simp: entries_from_def in_set_enumerate_eq)
  with e assms show "e \<in> set (candidates mx (build mx rs) req [])"
    by (auto simp: candidates_set hits_def split: option.splits)
qed

section \<open>Properties\<close>

text \<open>
  C1. The index never changes which route wins. Let mux align what it matches: whenever an indexable
  route matches the request, the request's path (or its escaped form) has the segments of the
  route's template, parameters standing for any segment. Then the match among the trie's candidates
  is the match of a scan over all routes in the order of registration, whatever the routes.
\<close>

theorem idx_match_eq_scan:
  assumes "\<And>r tpl. r \<in> set rs \<Longrightarrow> exactPathTemplate mx r = Some tpl \<Longrightarrow>
      fst (Match mx r req (emptyMatch mx)) \<Longrightarrow> path_aligned mx req tpl"
  shows "idx_match mx (build mx rs) req = scan mx req rs"
  using assms by (rule match_candidates_scan)

text \<open>A concrete mux for the witnesses: a route is its template, the regular expression of every
  template is an anchored one with one capture of a slash-free class, and a route matches the
  paths aligned with its template.\<close>

definition demo_mux :: "(string, string, string option) mux" where
  "demo_mux = \<lparr>GetPathTemplate = Some, GetPathRegexp = Some,
     syntaxParse = (\<lambda>_. Some (OpConcat [OpBeginText, OpCapture (OpPlus (OpCharClass [0, 46, 48, 255])), OpEndText])),
     Match = (\<lambda>r q m. if aligned (pathSegments r) (pathSegments q) then (True, Some r) else (False, m)),
     emptyMatch = None, urlPath = (\<lambda>q. q), escapedPath = (\<lambda>q. q)\<rparr>"

theorem idx_match_eq_scan_witness:
  "idx_match demo_mux (build demo_mux [''/users/{id}'', ''/users/me'']) ''/users/me'' =
     scan demo_mux ''/users/me'' [''/users/{id}'', ''/users/me'']"
  by (rule idx_match_eq_scan)
    (auto simp: demo_mux_def path_aligned_def exactPathTemplate_def split: if_splits)

text \<open>
  What the analysis of a route's regular expression guarantees: in an expression accepted by
  \<open>capturesAreSingleSegment\<close>, every capture group, at any depth, matches only non-empty texts
  without a slash, under any case folding that leaves the slash alone.
\<close>

lemma capture_matches_single_segment:
  assumes "capturesAreSingleSegment re" and "subterm (OpCapture r) re"
    and "\<And>a. eqv a slash \<Longrightarrow> a = slash" and "re_matches eqv (OpCapture r) w"
  shows "w \<noteq> [] \<and> slash \<notin> set w"
proof -
  have "capturesAreSingleSegment (OpCapture r)"
    using assms(1,2) by (rule capturesAreSingleSegment_sub [rotated])
  then have "\<not> reNodeMayMatchSlash (OpCapture r)" "\<not> canMatchEmpty (OpCapture r)"
    by (subst (asm) capturesAreSingleSegment.simps, simp add: is_capture_def split: if_splits)+
  then show ?thesis
    using canMatchEmpty_complete [OF assms(4)] mayMatchSlash_complete [OF assms(4,3)] by blast
qed

lemma capture_matches_single_segment_witness:
  "([65] :: int list) \<noteq> [] \<and> slash \<notin> set [65]"
proof (rule capture_matches_single_segment
    [where re = "OpConcat [OpBeginText, OpCapture (OpCharClass [65, 90]), OpEndText]"
       and r = "OpCharClass [65, 90]" and eqv = "(=)"])
  show "capturesAreSingleSegment (OpConcat [OpBeginText, OpCapture (OpCharClass [65, 90]), OpEndText])"
    by code_simp
  show "subterm (OpCapture (OpCharClass [65, 90])) (OpConcat [OpBeginText, OpCapture (OpCharClass [65, 90]), OpEndText])"
    by (rule subterm_sub [OF subterm_refl]) simp
qed (auto intro!: m_capture m_class)

text \<open>
  A template whose parameter carries a constraint with a slash, such as the common negated class
  \<open>[^/]+\<close>, is accepted for the trie (its capture cannot match a slash) but filed under segments cut
  inside the constraint: after building the index, the route is no candidate for a request it
  matches, and a later catch-all route is served instead.
\<close>

definition lost_mux :: "(string, string, string option) mux" where
  "lost_mux = \<lparr>GetPathTemplate = Some, GetPathRegexp = Some,
     syntaxParse = (\<lambda>rx. if rx = ''/'' then Some (OpConcat [OpBeginText, OpLiteral [47]])
       else Some (OpConcat [OpBeginText, OpLiteral (map of_char ''/users/''),
              OpCapture (OpPlus (OpCharClass [0, 46, 48, 1114111])), OpEndText])),
     Match = (\<lambda>r q m. if r = ''/'' \<or> (HasPrefix q ''/users/'' \<and> CHR ''/'' \<notin> set (drop 7 q) \<and> drop 7 q \<noteq> [])
       then (True, Some r) else (False, m)),
     emptyMatch = None, urlPath = (\<lambda>q. q), escapedPath = (\<lambda>q. q)\<rparr>"

lemma slash_in_constraint_is_lost:
  "exactPathTemplate lost_mux ''/users/{id:[^/]+}'' = Some ''/users/{id:[^/]+}'' \<and>
   scan lost_mux ''/users/7'' [''/users/{id:[^/]+}'', ''/''] = (True, Some ''/users/{id:[^/]+}'') \<and>
   idx_match lost_mux (build lost_mux [''/users/{id:[^/]+}'', ''/'']) ''/users/7'' = (True, Some ''/'')"
  by code_simp

end
