(* ===== verification/Http_Path.thy ===== *)
theory Http_Path
  imports Go_Prelude
begin

text \<open>
  Path normalization of \<^verbatim>\<open>pkg/gofr/http/router.go\<close>: the test for a canonical path with its
  byte loops (\<^verbatim>\<open>isCleanPath\<close>, \<^verbatim>\<open>hasDirtySegment\<close>, \<^verbatim>\<open>isDotSegment\<close>) and \<^verbatim>\<open>normalizePath\<close>, over the
  standard library's \<^verbatim>\<open>path.Clean\<close>. The lemmas characterise canonical paths by their segments; the
  router and the static file handler build on them.
\<close>

section \<open>The package path\<close>

text \<open>\<^verbatim>\<open>path.Clean\<close>, which \<^verbatim>\<open>filepath.Clean\<close> equals on a system with slash-separated paths, by segments:
  an empty segment or a single dot disappears, a double dot removes the segment before it, stays at
  the front of a relative path and disappears at the root. The output segments are kept in reverse.\<close>

abbreviation sl :: char where
  "sl \<equiv> CHR ''/''"

fun clean_segs :: "bool \<Rightarrow> string list \<Rightarrow> string list \<Rightarrow> string list" where
  "clean_segs rooted out [] = rev out"
| "clean_segs rooted out (s # ss) =
     (if s = '''' \<or> s = ''.'' then clean_segs rooted out ss
      else if s = ''..'' then
        (case out of
           [] \<Rightarrow> clean_segs rooted (if rooted then [] else [''..'']) ss
         | t # ts \<Rightarrow> if t = ''..'' then clean_segs rooted (''..'' # out) ss else clean_segs rooted ts ss)
      else clean_segs rooted (s # out) ss)"

definition Clean :: "string \<Rightarrow> string" where
  "Clean p =
     (if p = '''' then ''.''
      else let rooted = (hd p = sl); out = Join (clean_segs rooted [] (Split p sl)) ''/''
           in if rooted then sl # out else if out = '''' then ''.'' else out)"

section \<open>Canonical paths and normalization\<close>

record request =
  rMethod :: string
  rPath :: string
  rRawPath :: string

definition hasNonRootTrailingSlash :: "string \<Rightarrow> bool" where
  "hasNonRootTrailingSlash p \<longleftrightarrow> length p > 1 \<and> p ! (length p - 1) = sl"

definition isDotSegment :: "string \<Rightarrow> nat \<Rightarrow> bool" where
  "isDotSegment p idx =
     (if idx + 1 = length p then True
      else if p ! (idx + 1) = sl then True
      else if p ! (idx + 1) = CHR ''.'' \<and> (idx + 2 = length p \<or> p ! (idx + 2) = sl) then True
      else False)"

function hasDirtySegment_from :: "string \<Rightarrow> nat \<Rightarrow> bool" where
  "hasDirtySegment_from p i =
     (if i < length p then
        if p ! i \<noteq> sl \<or> i + 1 \<ge> length p then hasDirtySegment_from p (i + 1)
        else if p ! (i + 1) = sl then True
        else if p ! (i + 1) = CHR ''.'' \<and> isDotSegment p (i + 1) then True
        else hasDirtySegment_from p (i + 1)
      else False)"
  by pat_completeness auto
termination
  by (relation "measure (\<lambda>(p, i). length p - i)") auto

declare hasDirtySegment_from.simps [simp del]

definition hasDirtySegment :: "string \<Rightarrow> bool" where
  "hasDirtySegment p = hasDirtySegment_from p 0"

definition isCleanPath :: "string \<Rightarrow> bool" where
  "isCleanPath p =
     (if p = '''' \<or> p ! 0 \<noteq> sl then False
      else if hasNonRootTrailingSlash p then False
      else \<not> hasDirtySegment p)"

definition normalizePath :: "request \<Rightarrow> request" where
  "normalizePath r =
     (let originalPath = rPath r in
      if isCleanPath originalPath then r
      else let c = Clean originalPath;
               c' = (if c = ''.'' then ''/'' else c);
               normalizedPath = sl # TrimLeft c' sl
           in if originalPath \<noteq> normalizedPath
              then r\<lparr>rPath := normalizedPath,
                     rRawPath := (if rRawPath r \<noteq> '''' then normalizedPath else rRawPath r)\<rparr>
              else r)"

section \<open>Lemmas: canonical paths by their segments\<close>

definition plain_seg :: "string \<Rightarrow> bool" where
  "plain_seg s \<longleftrightarrow> s \<noteq> '''' \<and> s \<noteq> ''.'' \<and> s \<noteq> ''..'' \<and> sl \<notin> set s"

text \<open>The loop of \<open>hasDirtySegment\<close>, as a recursion over the rest of the path.\<close>

fun dirty :: "string \<Rightarrow> bool" where
  "dirty (c # d # s) =
     (c = sl \<and> (d = sl \<or> d = CHR ''.'' \<and>
        (s = [] \<or> hd s = sl \<or> hd s = CHR ''.'' \<and> (tl s = [] \<or> hd (tl s) = sl))) \<or> dirty (d # s))"
| "dirty _ = False"

lemma drop_two: "i + 1 < length p \<Longrightarrow> drop i p = p ! i # p ! (i + 1) # drop (i + 2) p"
  by (metis Cons_nth_drop_Suc Suc_eq_plus1 Suc_lessD add_2_eq_Suc')

lemma isDotSegment_drop:
  assumes "i < length p"
  shows "isDotSegment p i \<longleftrightarrow> (let s = drop (i + 1) p in
     s = [] \<or> hd s = sl \<or> hd s = CHR ''.'' \<and> (tl s = [] \<or> hd (tl s) = sl))"
proof -
  have "tl (drop (Suc i) p) = drop (Suc (Suc i)) p" by (simp add: drop_Suc tl_drop)
  then show ?thesis using assms
    by (cases "Suc (Suc i) < length p") (auto simp: isDotSegment_def Let_def hd_drop_conv_nth)
qed

lemma hasDirtySegment_from_eq: "hasDirtySegment_from p i \<longleftrightarrow> dirty (drop i p)"
proof (induction p i rule: hasDirtySegment_from.induct)
  case (1 p i)
  consider "i + 1 < length p" | "i + 1 = length p" | "length p \<le> i" by linarith
  then show ?case
  proof cases
    case 1
    have "drop (Suc i) p = p ! Suc i # drop (Suc (Suc i)) p" using 1 by (simp add: Cons_nth_drop_Suc)
    with 1 "1.IH" show ?thesis
      by (subst hasDirtySegment_from.simps) (auto simp: drop_two isDotSegment_drop Let_def)
  next
    case 2
    then have "drop i p = [p ! i]" by (metis Cons_nth_drop_Suc Suc_eq_plus1 drop_all le_refl less_add_one)
    with 2 "1.IH" show ?thesis by (subst hasDirtySegment_from.simps) auto
  next
    case 3
    then show ?thesis by (subst hasDirtySegment_from.simps) simp
  qed
qed

lemma dirty_skip: "sl \<notin> set w \<Longrightarrow> dirty (w @ sl # t) = dirty (sl # t)"
proof (induction w)
  case Nil
  then show ?case by simp
next
  case (Cons c w)
  obtain d s where "w @ sl # t = d # s" by (cases w) auto
  with Cons show ?case by auto
qed

lemma dirty_no_slash: "sl \<notin> set w \<Longrightarrow> \<not> dirty w"
  by (induction w rule: dirty.induct) auto

lemma dirty_first:
  "sl \<notin> set w \<Longrightarrow>
   dirty (sl # w @ sl # t) \<longleftrightarrow> w = '''' \<or> w = ''.'' \<or> w = ''..'' \<or> dirty (sl # t)"
  using dirty_skip [of w t] by (cases w; cases "tl w"; cases "tl (tl w)") auto

lemma dirty_last: "sl \<notin> set w \<Longrightarrow> dirty (sl # w) \<longleftrightarrow> w = ''.'' \<or> w = ''..''"
  using dirty_no_slash [of w] by (cases w; cases "tl w"; cases "tl (tl w)") auto

lemma dirty_Join:
  "ws \<noteq> [] \<Longrightarrow> \<forall>w \<in> set ws. sl \<notin> set w \<Longrightarrow>
   dirty (sl # Join ws ''/'') \<longleftrightarrow> ''.'' \<in> set ws \<or> ''..'' \<in> set ws \<or> '''' \<in> set (butlast ws)"
  by (induction ws "''/''" rule: Join.induct) (auto simp: dirty_last dirty_first)

lemma Join_last: "ws \<noteq> [] \<Longrightarrow> last ws \<noteq> [] \<Longrightarrow> Join ws sep \<noteq> [] \<and> last (Join ws sep) = last (last ws)"
  by (induction ws sep rule: Join.induct) auto

lemma Join_last_Nil: "length ws > 1 \<Longrightarrow> last ws = [] \<Longrightarrow> Join ws [c] \<noteq> [] \<and> last (Join ws [c]) = c"
proof (induction ws "[c]" rule: Join.induct)
  case (3 w v ws)
  then show ?case by (cases ws) auto
qed auto

lemma trailing_Join:
  assumes "ws \<noteq> []" "\<forall>w \<in> set ws. sl \<notin> set w"
  shows "hasNonRootTrailingSlash (sl # Join ws ''/'') \<longleftrightarrow> last ws = [] \<and> ws \<noteq> [[]]"
proof (cases "last ws = []")
  case True
  show ?thesis
  proof (cases "length ws > 1")
    case True
    then show ?thesis using Join_last_Nil [of ws sl] \<open>last ws = []\<close>
      by (auto simp: hasNonRootTrailingSlash_def last_conv_nth)
  next
    case False
    with assms True have "ws = [[]]" by (cases ws) auto
    then show ?thesis by (simp add: hasNonRootTrailingSlash_def)
  qed
next
  case False
  with assms have "last (last ws) \<noteq> sl" by (metis last_in_set)
  with Join_last [OF assms(1) False, of "''/''"]
  have "Join ws ''/'' \<noteq> []" "last (Join ws ''/'') \<noteq> sl" by auto
  then show ?thesis using False by (auto simp: hasNonRootTrailingSlash_def last_conv_nth)
qed

lemma isCleanPath_Join:
  assumes "ws \<noteq> []" "\<forall>w \<in> set ws. sl \<notin> set w"
  shows "isCleanPath (sl # Join ws ''/'') \<longleftrightarrow> ws = [[]] \<or> list_all plain_seg ws"
proof -
  obtain vs v where ws: "ws = vs @ [v]" using assms(1) by (cases ws rule: rev_cases) auto
  then have "[] \<in> set ws \<longleftrightarrow> [] \<in> set (butlast ws) \<or> last ws = []" by auto
  with assms show ?thesis
    by (auto simp: isCleanPath_def trailing_Join hasDirtySegment_def hasDirtySegment_from_eq dirty_Join
        list_all_iff plain_seg_def)
qed

lemma isCleanPath_iff:
  "isCleanPath p \<longleftrightarrow> p = ''/'' \<or> (\<exists>ws. ws \<noteq> [] \<and> list_all plain_seg ws \<and> p = sl # Join ws ''/'')"
proof (cases "p \<noteq> '''' \<and> p ! 0 = sl")
  case True
  then obtain q where p: "p = sl # q" by (cases p) auto
  have q: "q = Join (Split q sl) ''/''" by (simp add: Join_Split)
  have "\<forall>w \<in> set (Split q sl). sl \<notin> set w" by (auto dest: Split_no_sep)
  from isCleanPath_Join [OF Split_not_Nil this]
  have "isCleanPath p \<longleftrightarrow> Split q sl = [[]] \<or> list_all plain_seg (Split q sl)" using p q by simp
  moreover have "Split q sl = [[]] \<longleftrightarrow> q = []" using q by (metis Join.simps(2) Split.simps(1))
  moreover have "ws = Split q sl" if "ws \<noteq> []" "list_all plain_seg ws" "q = Join ws ''/''" for ws
    using that by (auto simp: Split_Join list_all_iff plain_seg_def)
  ultimately show ?thesis using p q by (metis Split_not_Nil list.inject)
next
  case False
  then show ?thesis by (auto simp: isCleanPath_def)
qed

section \<open>Lemmas: cleaning\<close>

lemma clean_segs_plain: "list_all plain_seg ss \<Longrightarrow> clean_segs b out ss = rev out @ ss"
  by (induction ss arbitrary: out) (auto simp: plain_seg_def)

lemma clean_segs_rooted:
  "list_all plain_seg out \<Longrightarrow> \<forall>s \<in> set ss. sl \<notin> set s \<Longrightarrow> list_all plain_seg (clean_segs True out ss)"
proof (induction ss arbitrary: out)
  case Nil
  then show ?case by (auto simp: list_all_iff)
next
  case (Cons s ss)
  then show ?case by (auto simp: plain_seg_def split: list.splits)
qed

lemma Clean_rooted:
  "hd p = sl \<Longrightarrow> p \<noteq> '''' \<Longrightarrow> Clean p = sl # Join (clean_segs True [] (Split (tl p) sl)) ''/''"
  by (cases p) (simp_all add: Clean_def Let_def)

lemma Clean_id: "isCleanPath p \<Longrightarrow> Clean p = p"
proof -
  assume "isCleanPath p"
  then consider "p = ''/''" | ws where "ws \<noteq> []" "list_all plain_seg ws" "p = sl # Join ws ''/''"
    by (auto simp: isCleanPath_iff)
  then show ?thesis
  proof cases
    case 1
    then show ?thesis by (simp add: Clean_def)
  next
    case (2 ws)
    then have "Split (Join ws ''/'') sl = ws"
      by (intro Split_Join) (auto simp: list_all_iff plain_seg_def)
    with 2 show ?thesis by (simp add: Clean_rooted clean_segs_plain)
  qed
qed

lemma Clean_clean: "hd p = sl \<Longrightarrow> p \<noteq> '''' \<Longrightarrow> isCleanPath (Clean p)"
proof -
  assume p: "hd p = sl" "p \<noteq> ''''"
  have "list_all plain_seg (clean_segs True [] (Split (tl p) sl))"
    by (rule clean_segs_rooted) (auto dest: Split_no_sep)
  with p show ?thesis
    by (cases "clean_segs True [] (Split (tl p) sl) = []") (auto simp: Clean_rooted isCleanPath_iff)
qed

lemma clean_TrimLeft: "isCleanPath p \<Longrightarrow> sl # TrimLeft p sl = p"
proof -
  assume c: "isCleanPath p"
  then obtain q where p: "p = sl # q" by (auto simp: isCleanPath_iff)
  have "q = [] \<or> hd q \<noteq> sl"
    using c by (cases q) (auto simp: p isCleanPath_def hasDirtySegment_def hasDirtySegment_from_eq split: if_splits)
  with p show ?thesis by (auto simp: TrimLeft_def dropWhile_eq_self_iff)
qed

text \<open>\<open>slowPath\<close> is what \<open>normalizePath\<close> computes without its fast path.\<close>

definition slowPath :: "string \<Rightarrow> string" where
  "slowPath p = sl # TrimLeft (if Clean p = ''.'' then ''/'' else Clean p) sl"

lemma not_clean_dot [simp]: "\<not> isCleanPath ''.''" "isCleanPath ''/''"
  by code_simp+

lemma slowPath_clean: "isCleanPath (Clean p) \<Longrightarrow> slowPath p = Clean p"
  by (auto simp: slowPath_def clean_TrimLeft)

lemma rPath_normalizePath: "rPath (normalizePath r) = slowPath (rPath r)"
  using slowPath_clean [of "rPath r"]
  by (auto simp: normalizePath_def Let_def slowPath_def Clean_id)

section \<open>Properties\<close>

text \<open>
  C12. Normalization gives the router a canonical path. Whatever the request, the fast path returns
  what the full computation with \<^verbatim>\<open>path.Clean\<close> would. If the request's path starts with a slash (or is
  empty), the routed path is canonical (it is the root, or a slash and non-empty segments other than
  a dot and a double dot), a second normalization changes nothing, and an escaped path, when there is
  one and the path was not yet canonical, is replaced by the same text.
\<close>

theorem normalizePath_canonical:
  assumes "rPath r = '''' \<or> hd (rPath r) = CHR ''/''"
  shows "rPath (normalizePath r) = slowPath (rPath r) \<and>
    (rPath (normalizePath r) = ''/'' \<or>
     (\<exists>ws. ws \<noteq> [] \<and> list_all plain_seg ws \<and> rPath (normalizePath r) = CHR ''/'' # Join ws ''/'')) \<and>
    normalizePath (normalizePath r) = normalizePath r \<and>
    (normalizePath r = r \<or> rRawPath (normalizePath r) \<in> {'''', rPath (normalizePath r)})"
proof -
  have "isCleanPath (rPath (normalizePath r))"
  proof (cases "rPath r = ''''")
    case True
    then show ?thesis by (simp add: rPath_normalizePath slowPath_def Clean_def TrimLeft_def)
  next
    case False
    then have "isCleanPath (Clean (rPath r))" using assms by (intro Clean_clean) auto
    then show ?thesis by (simp add: rPath_normalizePath slowPath_clean)
  qed
  moreover from this have "normalizePath (normalizePath r) = normalizePath r"
    by (simp add: normalizePath_def [of "normalizePath r"])
  moreover have "normalizePath r = r \<or> rRawPath (normalizePath r) \<in> {'''', rPath (normalizePath r)}"
    by (auto simp: normalizePath_def Let_def)
  ultimately show ?thesis by (simp add: rPath_normalizePath isCleanPath_iff)
qed

theorem normalizePath_canonical_witness:
  "rPath (normalizePath \<lparr>rMethod = ''GET'', rPath = ''/a//b/../c/'', rRawPath = ''''\<rparr>) = ''/a/c''"
proof -
  have "slowPath ''/a//b/../c/'' = ''/a/c''" by code_simp
  with normalizePath_canonical [of "\<lparr>rMethod = ''GET'', rPath = ''/a//b/../c/'', rRawPath = ''''\<rparr>"]
  show ?thesis by simp
qed

text \<open>For a path that does not start with a slash the result need not be canonical: a leading double
  dot survives \<^verbatim>\<open>path.Clean\<close> and ends up behind the slash that is put in front.\<close>

lemma normalizePath_relative_dotdot:
  "rPath (normalizePath \<lparr>rMethod = ''GET'', rPath = ''../a'', rRawPath = ''''\<rparr>) = ''/../a''"
  by code_simp

end
