(* ===== verification/Http_Router.thy ===== *)
theory Http_Router
  imports Trie_Router Http_Path
begin

text \<open>
  The router of \<^verbatim>\<open>pkg/gofr/http/router.go\<close> over the index of \<^verbatim>\<open>Trie_Router\<close>: registration
  (\<^verbatim>\<open>Add\<close>, \<^verbatim>\<open>Use\<close>, the report of a late registration), the lazily built index, serving with either
  matcher, the cache of composed middleware chains and the methods allowed on a path. A handler is an
  abstract value of type \<open>'h\<close> and a middleware a function on handlers. The embedded gorilla/mux router
  is a parameter: the record \<open>muxlib\<close> holds the operations the code calls on it.
\<close>

section \<open>The state of the router\<close>

datatype match_err = ErrMethodMismatch | ErrNotFound

text \<open>The fields of \<^verbatim>\<open>mux.RouteMatch\<close> the code reads; \<open>None\<close> is Go's nil.\<close>

record ('r, 'h) RouteMatch =
  mRoute :: "'r option"
  mHandler :: "'h option"
  mVars :: "(string \<times> string) list"
  mErr :: "match_err option"

text \<open>What a request comes to: a handler runs on a request whose context carries the URL variables, if
  any were stored there, and the route.\<close>

datatype ('r, 'h) served =
    Handled 'h request "(string \<times> string) list option" "'r option"
  | Unhandled request

datatype path_spec = ExactPath string | PathPrefix string

record ('r, 'h) muxlib =
  mx :: "('r, request, ('r, 'h) RouteMatch) mux"
  GetMethods :: "'r \<Rightarrow> string list option"
  NewRoute :: "string option \<Rightarrow> path_spec \<Rightarrow> 'h \<Rightarrow> 'r"
  muxServeHTTP :: "'r list \<Rightarrow> ('h \<Rightarrow> 'h) list \<Rightarrow> request \<Rightarrow> ('r, 'h) served"

record ('r, 'h) Router =
  muxRoutes :: "'r list"
  muxMws :: "('h \<Rightarrow> 'h) list"
  useTrie :: bool
  idx :: "'r routeIndex option"
  mws :: "('h \<Rightarrow> 'h) list"
  chains :: "'r \<Rightarrow> 'h option"
  own :: "'r set"
  cached :: bool
  logger :: "nat list option"

text \<open>\<^verbatim>\<open>logger\<close> is nil or the list of the numbers reported by \<^verbatim>\<open>reportLateRegistration\<close>, the latest last.\<close>

definition NewRouter :: "string \<Rightarrow> ('r, 'h) Router" where
  "NewRouter env = \<lparr>muxRoutes = [], muxMws = [], useTrie = EqualFold env ''trie'', idx = None, mws = [],
     chains = (\<lambda>_. None), own = {}, cached = False, logger = None\<rparr>"

definition Matcher :: "('r, 'h) Router \<Rightarrow> string" where
  "Matcher rou = (if useTrie rou then ''trie'' else ''mux'')"

section \<open>Registration\<close>

definition reportLateRegistration :: "nat \<Rightarrow> ('r, 'h) Router \<Rightarrow> ('r, 'h) Router" where
  "reportLateRegistration n rou =
     (if n = 0 \<or> \<not> useTrie rou \<or> \<not> cached rou \<or> logger rou = None then rou
      else rou\<lparr>logger := map_option (\<lambda>l. l @ [n]) (logger rou)\<rparr>)"

definition Use :: "('h \<Rightarrow> 'h) list \<Rightarrow> ('r, 'h) Router \<Rightarrow> ('r, 'h) Router" where
  "Use mwf rou =
     (let rou1 = reportLateRegistration (length mwf) rou
      in rou1\<lparr>mws := mws rou1 @ mwf, muxMws := muxMws rou1 @ mwf\<rparr>)"

definition UseMiddleware :: "('h \<Rightarrow> 'h) list \<Rightarrow> ('r, 'h) Router \<Rightarrow> ('r, 'h) Router" where
  "UseMiddleware ms rou = Use (fold (\<lambda>m acc. acc @ [m]) ms []) rou"

definition UseLogger :: "nat list \<Rightarrow> ('r, 'h) Router \<Rightarrow> ('r, 'h) Router" where
  "UseLogger l rou = rou\<lparr>logger := Some l\<rparr>"

definition markOwned :: "'r \<Rightarrow> ('r, 'h) Router \<Rightarrow> ('r, 'h) Router" where
  "markOwned r rou = rou\<lparr>own := insert r (own rou)\<rparr>"

text \<open>Creating a route through the embedded router appends it to that router's routes.\<close>

definition addRoute :: "'r \<Rightarrow> ('r, 'h) Router \<Rightarrow> ('r, 'h) Router" where
  "addRoute r rou = rou\<lparr>muxRoutes := muxRoutes rou @ [r]\<rparr>"

definition Add :: "('r, 'h) muxlib \<Rightarrow> string \<Rightarrow> string \<Rightarrow> 'h \<Rightarrow> ('r, 'h) Router \<Rightarrow> ('r, 'h) Router" where
  "Add lib method pattern handler rou =
     (let r = NewRoute lib (Some method) (ExactPath pattern) handler in markOwned r (addRoute r rou))"

section \<open>Serving\<close>

fun compose_loop :: "('h \<Rightarrow> 'h) list \<Rightarrow> nat \<Rightarrow> 'h \<Rightarrow> 'h" where
  "compose_loop ms 0 h = h"
| "compose_loop ms (Suc i) h = compose_loop ms i ((ms ! i) h)"

definition composeMiddleware :: "('h \<Rightarrow> 'h) list \<Rightarrow> 'h \<Rightarrow> 'h" where
  "composeMiddleware ms h = compose_loop ms (length ms) h"

definition index :: "('r, 'h) muxlib \<Rightarrow> ('r, 'h) Router \<Rightarrow> 'r routeIndex \<times> ('r, 'h) Router" where
  "index lib rou =
     (case idx rou of
        Some i \<Rightarrow> (i, rou)
      | None \<Rightarrow> let i = build (mx lib) (muxRoutes rou) in (i, rou\<lparr>idx := Some i\<rparr>))"

definition chainFor :: "'r option \<Rightarrow> 'h \<Rightarrow> ('r, 'h) Router \<Rightarrow> 'h \<times> ('r, 'h) Router" where
  "chainFor rt h rou =
     (case rt of
        None \<Rightarrow> (composeMiddleware (mws rou) h, rou)
      | Some r \<Rightarrow>
          if r \<notin> own rou then (composeMiddleware (mws rou) h, rou)
          else (case chains rou r of
                  Some c \<Rightarrow> (c, rou)
                | None \<Rightarrow> let c = composeMiddleware (mws rou) h
                          in (c, rou\<lparr>chains := (chains rou)(r \<mapsto> c), cached := True\<rparr>)))"

definition serveMatched ::
    "request \<Rightarrow> ('r, 'h) RouteMatch \<Rightarrow> 'h \<Rightarrow> ('r, 'h) Router \<Rightarrow> ('r, 'h) served \<times> ('r, 'h) Router" where
  "serveMatched r m h rou =
     (let vars = (if length (mVars m) > 0 then Some (mVars m) else None) in
      if mErr m \<noteq> None then (Handled h r vars (mRoute m), rou)
      else let (c, rou1) = chainFor (mRoute m) h rou in (Handled c r vars (mRoute m), rou1))"

definition serveTrie :: "('r, 'h) muxlib \<Rightarrow> request \<Rightarrow> ('r, 'h) Router \<Rightarrow> ('r, 'h) served \<times> ('r, 'h) Router" where
  "serveTrie lib r rou =
     (let (i, rou1) = index lib rou in
      case idx_match (mx lib) i r of
        (ok, m) \<Rightarrow>
          (case (ok, mHandler m) of
             (True, Some h) \<Rightarrow> serveMatched r m h rou1
           | _ \<Rightarrow> (muxServeHTTP lib (muxRoutes rou1) (muxMws rou1) r, rou1)))"

definition ServeHTTP :: "('r, 'h) muxlib \<Rightarrow> request \<Rightarrow> ('r, 'h) Router \<Rightarrow> ('r, 'h) served \<times> ('r, 'h) Router" where
  "ServeHTTP lib r rou =
     (let r1 = normalizePath r in
      if useTrie rou then serveTrie lib r1 rou
      else (muxServeHTTP lib (muxRoutes rou) (muxMws rou) r1, rou))"

section \<open>Allowed methods\<close>

definition reports :: "('r, 'h) muxlib \<Rightarrow> request \<Rightarrow> 'r \<Rightarrow> bool" where
  "reports lib q r =
     (case Match (mx lib) r q (emptyMatch (mx lib)) of (ok, m) \<Rightarrow> ok \<or> mErr m = Some ErrMethodMismatch)"

fun add_missing :: "string list \<Rightarrow> string list \<Rightarrow> string list" where
  "add_missing allowed [] = allowed"
| "add_missing allowed (m # ms) = add_missing (if m \<in> set allowed then allowed else allowed @ [m]) ms"

fun allowed_loop :: "('r, 'h) muxlib \<Rightarrow> request \<Rightarrow> string list \<Rightarrow> 'r routeEntry list \<Rightarrow> string list" where
  "allowed_loop lib q allowed [] = allowed"
| "allowed_loop lib q allowed (e # es) =
     (if \<not> reports lib q (route e) then allowed_loop lib q allowed es
      else (case GetMethods lib (route e) of
              None \<Rightarrow> allowed_loop lib q allowed es
            | Some ms \<Rightarrow> allowed_loop lib q (add_missing allowed ms) es))"

definition AllowedMethods :: "('r, 'h) muxlib \<Rightarrow> request \<Rightarrow> ('r, 'h) Router \<Rightarrow> string list \<times> ('r, 'h) Router" where
  "AllowedMethods lib q rou =
     (let (i, rou1) = index lib rou
      in (sort (allowed_loop lib q [] (candidates (mx lib) i q [])), rou1))"

text \<open>The catch-all handler of \<^verbatim>\<open>pkg/gofr/handler.go\<close>: its answer is a 404 or a 405 with the value of
  the header \<^verbatim>\<open>Allow\<close>.\<close>

datatype catch_answer = NotFound404 | MethodNotAllowed405 string

definition catchAll :: "('r, 'h) muxlib \<Rightarrow> request \<Rightarrow> ('r, 'h) Router \<Rightarrow> catch_answer \<times> ('r, 'h) Router" where
  "catchAll lib q rou =
     (let (methods, rou1) = AllowedMethods lib q rou in
      if length methods = 0 then (NotFound404, rou1)
      else let methods1 = (if ''OPTIONS'' \<notin> set methods then methods @ [''OPTIONS''] else methods)
           in (MethodNotAllowed405 (Join (sort methods1) '', ''), rou1))"

section \<open>Lemmas: the middleware chain\<close>

lemma compose_loop_eq: "i \<le> length ms \<Longrightarrow> compose_loop ms i h = foldr (\<lambda>m h. m h) (take i ms) h"
  by (induction i arbitrary: h) (simp_all add: take_Suc_conv_app_nth)

lemma composeMiddleware_eq: "composeMiddleware ms h = foldr (\<lambda>m h. m h) ms h"
  by (simp add: composeMiddleware_def compose_loop_eq)

section \<open>Lemmas: serving\<close>

text \<open>A router that has not been changed since it began to serve: its index is that of its routes, and
  every cached chain is the one its middlewares compose around the route's own handler \<open>hof r\<close>.\<close>

definition settled :: "('r, 'h) muxlib \<Rightarrow> ('r \<Rightarrow> 'h) \<Rightarrow> ('r, 'h) Router \<Rightarrow> bool" where
  "settled lib hof rou \<longleftrightarrow>
     (idx rou = None \<or> idx rou = Some (build (mx lib) (muxRoutes rou))) \<and> mws rou = muxMws rou \<and>
     (\<forall>r c. chains rou r = Some c \<longrightarrow> c = composeMiddleware (mws rou) (hof r))"

definition same_config :: "('r, 'h) Router \<Rightarrow> ('r, 'h) Router \<Rightarrow> bool" where
  "same_config rou rou' \<longleftrightarrow> muxRoutes rou' = muxRoutes rou \<and> muxMws rou' = muxMws rou \<and>
     useTrie rou' = useTrie rou \<and> own rou' = own rou"

text \<open>What the router relies on of gorilla/mux: its own \<^verbatim>\<open>ServeHTTP\<close> runs the handler of the first
  route that matches, wrapped by the middlewares unless the match carries an error; a route of the
  router's own always matches with the handler it was registered with; and a route whose template
  is indexed matches only paths with the segments of the template.\<close>

definition mux_serves :: "('r, 'h) muxlib \<Rightarrow> bool" where
  "mux_serves lib \<longleftrightarrow> (\<forall>rs ms q m h. scan (mx lib) q rs = (True, m) \<longrightarrow> mHandler m = Some h \<longrightarrow>
     muxServeHTTP lib rs ms q =
       Handled (if mErr m = None then foldr (\<lambda>f. f) ms h else h) q (Some (mVars m)) (mRoute m))"

definition own_handlers :: "('r, 'h) muxlib \<Rightarrow> ('r \<Rightarrow> 'h) \<Rightarrow> 'r set \<Rightarrow> bool" where
  "own_handlers lib hof S \<longleftrightarrow> (\<forall>r q m r'. Match (mx lib) r q (emptyMatch (mx lib)) = (True, m) \<longrightarrow>
     mRoute m = Some r' \<longrightarrow> r' \<in> S \<longrightarrow> mErr m = None \<longrightarrow> mHandler m = Some (hof r'))"

definition mux_aligns :: "('r, 'h) muxlib \<Rightarrow> 'r list \<Rightarrow> request \<Rightarrow> bool" where
  "mux_aligns lib rs q \<longleftrightarrow> (\<forall>r \<in> set rs. \<forall>tpl. exactPathTemplate (mx lib) r = Some tpl \<longrightarrow>
     fst (Match (mx lib) r q (emptyMatch (mx lib))) \<longrightarrow> path_aligned (mx lib) q tpl)"

fun observed :: "('r, 'h) served \<Rightarrow> ('h \<times> request \<times> (string \<times> string) list \<times> 'r option) option" where
  "observed (Handled h q vs r) = Some (h, q, case vs of None \<Rightarrow> [] | Some v \<Rightarrow> v, r)"
| "observed (Unhandled q) = None"

lemma index_settled:
  assumes "settled lib hof rou"
  shows "\<exists>rou'. index lib rou = (build (mx lib) (muxRoutes rou), rou') \<and> settled lib hof rou' \<and>
    same_config rou rou' \<and> mws rou' = mws rou"
  using assms by (auto simp: index_def settled_def same_config_def Let_def split: option.splits)

lemma chainFor_settled:
  assumes "settled lib hof rou" and "\<And>r. rt = Some r \<Longrightarrow> r \<in> own rou \<Longrightarrow> h = hof r"
  shows "\<exists>rou'. chainFor rt h rou = (composeMiddleware (mws rou) h, rou') \<and> settled lib hof rou' \<and>
    same_config rou rou'"
  using assms
  by (cases "chains rou (the rt)")
    (auto simp: chainFor_def settled_def same_config_def Let_def split: option.splits)

lemma scan_Match: "scan X q rs = (True, m) \<Longrightarrow> \<exists>r \<in> set rs. Match X r q (emptyMatch X) = (True, m)"
  by (induction rs) (auto split: if_splits)

lemma serveMatched_settled:
  assumes "settled lib hof rou" and "own_handlers lib hof (own rou)"
    and "Match (mx lib) r q (emptyMatch (mx lib)) = (True, m)" and "mHandler m = Some h"
  shows "\<exists>s rou'. serveMatched q m h rou = (s, rou') \<and> settled lib hof rou' \<and> same_config rou rou' \<and>
    observed s = Some (if mErr m = None then composeMiddleware (mws rou) h else h, q, mVars m, mRoute m)"
proof (cases "mErr m = None")
  case True
  with assms(2-4) have "h = hof r'" if "mRoute m = Some r'" "r' \<in> own rou" for r'
    using that unfolding own_handlers_def by (metis option.inject)
  with chainFor_settled [OF assms(1), of "mRoute m" h]
  obtain rou' where "chainFor (mRoute m) h rou = (composeMiddleware (mws rou) h, rou')"
    "settled lib hof rou'" "same_config rou rou'" by auto
  with True show ?thesis by (auto simp: serveMatched_def Let_def)
next
  case False
  with assms(1) show ?thesis by (auto simp: serveMatched_def Let_def same_config_def)
qed

lemma serveTrie_settled:
  assumes "settled lib hof rou" and "mux_serves lib" and "own_handlers lib hof (own rou)"
    and "mux_aligns lib (muxRoutes rou) q"
  shows "\<exists>s rou'. serveTrie lib q rou = (s, rou') \<and> settled lib hof rou' \<and> same_config rou rou' \<and>
    observed s = observed (muxServeHTTP lib (muxRoutes rou) (muxMws rou) q)"
proof -
  obtain rou1 where i: "index lib rou = (build (mx lib) (muxRoutes rou), rou1)"
    and s1: "settled lib hof rou1" "same_config rou rou1" "mws rou1 = mws rou"
    using index_settled [OF assms(1)] by auto
  have scan: "idx_match (mx lib) (build (mx lib) (muxRoutes rou)) q = scan (mx lib) q (muxRoutes rou)"
    using assms(4) by (intro match_candidates_scan) (auto simp: mux_aligns_def)
  obtain ok m where m: "scan (mx lib) q (muxRoutes rou) = (ok, m)" by force
  show ?thesis
  proof (cases "ok \<and> mHandler m \<noteq> None")
    case False
    with i scan m s1 show ?thesis
      by (auto simp: serveTrie_def same_config_def split: bool.splits option.splits)
  next
    case True
    then obtain h where h: "mHandler m = Some h" and ok: ok by auto
    with m scan_Match obtain r where "Match (mx lib) r q (emptyMatch (mx lib)) = (True, m)" by fastforce
    with serveMatched_settled [OF s1(1) _ this h] assms(3) s1 obtain s rou' where
      s: "serveMatched q m h rou1 = (s, rou')" "settled lib hof rou'" "same_config rou1 rou'"
        "observed s = Some (if mErr m = None then composeMiddleware (mws rou1) h else h, q, mVars m, mRoute m)"
      by (auto simp: same_config_def)
    have "observed (muxServeHTTP lib (muxRoutes rou) (muxMws rou) q) = observed s"
      using assms(1,2) m h ok s(4) s1(3)
      by (simp add: mux_serves_def composeMiddleware_eq settled_def)
    with i scan m h ok s s1(2) show ?thesis
      by (auto simp: serveTrie_def same_config_def)
  qed
qed

section \<open>Lemmas: from start-up to serving\<close>

datatype 'h startup =
    StartAdd string string 'h
  | StartUse "('h \<Rightarrow> 'h) list"
  | StartLogger "nat list"

fun register :: "('r, 'h) muxlib \<Rightarrow> 'h startup \<Rightarrow> ('r, 'h) Router \<Rightarrow> ('r, 'h) Router" where
  "register lib (StartAdd m p h) rou = Add lib m p h rou"
| "register lib (StartUse ms) rou = UseMiddleware ms rou"
| "register lib (StartLogger l) rou = UseLogger l rou"

fun serve_all :: "('r, 'h) muxlib \<Rightarrow> request list \<Rightarrow> ('r, 'h) Router \<Rightarrow> ('r, 'h) served list \<times> ('r, 'h) Router" where
  "serve_all lib [] rou = ([], rou)"
| "serve_all lib (q # qs) rou =
     (let (s, rou1) = ServeHTTP lib q rou; (ss, rou2) = serve_all lib qs rou1 in (s # ss, rou2))"

definition fresh_router :: "('r, 'h) Router \<Rightarrow> bool" where
  "fresh_router rou \<longleftrightarrow> idx rou = None \<and> chains rou = (\<lambda>_. None) \<and> mws rou = muxMws rou"

lemmas register_defs = Add_def UseMiddleware_def UseLogger_def Use_def markOwned_def addRoute_def
  reportLateRegistration_def Let_def

lemma register_fresh:
  "fresh_router rou \<Longrightarrow> fresh_router (register lib op rou) \<and> useTrie (register lib op rou) = useTrie rou"
  by (cases op) (auto simp: fresh_router_def register_defs)

lemma registered_fresh:
  "fresh_router rou \<Longrightarrow>
   fresh_router (fold (register lib) ops rou) \<and> useTrie (fold (register lib) ops rou) = useTrie rou"
  by (induction ops arbitrary: rou) (auto simp: register_fresh)

lemma fresh_settled: "fresh_router rou \<Longrightarrow> settled lib hof rou"
  by (simp add: fresh_router_def settled_def)

lemma serve_all_settled:
  assumes "settled lib hof rou" and "useTrie rou" and "mux_serves lib" and "own_handlers lib hof (own rou)"
    and "\<forall>q \<in> set qs. mux_aligns lib (muxRoutes rou) (normalizePath q)"
  shows "map observed (fst (serve_all lib qs rou)) =
    map (\<lambda>q. observed (muxServeHTTP lib (muxRoutes rou) (muxMws rou) (normalizePath q))) qs"
  using assms
proof (induction qs arbitrary: rou)
  case Nil
  then show ?case by simp
next
  case (Cons q qs)
  obtain s rou' where s: "serveTrie lib (normalizePath q) rou = (s, rou')" "settled lib hof rou'"
    "same_config rou rou'"
    "observed s = observed (muxServeHTTP lib (muxRoutes rou) (muxMws rou) (normalizePath q))"
    using serveTrie_settled [OF Cons.prems(1,3,4), of "normalizePath q"] Cons.prems(5) by auto
  with Cons.IH [OF s(2)] Cons.prems show ?case
    by (auto simp: ServeHTTP_def same_config_def split: prod.splits)
qed

section \<open>Lemmas: allowed methods\<close>

definition methods_of :: "('r, 'h) muxlib \<Rightarrow> 'r \<Rightarrow> string set" where
  "methods_of lib r = (case GetMethods lib r of None \<Rightarrow> {} | Some ms \<Rightarrow> set ms)"

lemma add_missing_set: "set (add_missing allowed ms) = set allowed \<union> set ms"
  by (induction allowed ms rule: add_missing.induct) auto

lemma add_missing_distinct: "distinct allowed \<Longrightarrow> distinct (add_missing allowed ms)"
  by (induction allowed ms rule: add_missing.induct) auto

lemma allowed_loop_set:
  "set (allowed_loop lib q allowed es) =
     set allowed \<union> (\<Union>e \<in> {e \<in> set es. reports lib q (route e)}. methods_of lib (route e))"
  by (induction lib q allowed es rule: allowed_loop.induct)
    (auto simp: methods_of_def add_missing_set split: option.splits if_splits)

lemma allowed_loop_distinct: "distinct allowed \<Longrightarrow> distinct (allowed_loop lib q allowed es)"
  by (induction lib q allowed es rule: allowed_loop.induct)
    (auto simp: add_missing_distinct split: option.splits)

definition reports_aligned :: "('r, 'h) muxlib \<Rightarrow> 'r list \<Rightarrow> request \<Rightarrow> bool" where
  "reports_aligned lib rs q \<longleftrightarrow> (\<forall>r \<in> set rs. \<forall>tpl. exactPathTemplate (mx lib) r = Some tpl \<longrightarrow>
     reports lib q r \<longrightarrow> path_aligned (mx lib) q tpl)"

definition registered_methods :: "('r, 'h) muxlib \<Rightarrow> 'r list \<Rightarrow> request \<Rightarrow> string set" where
  "registered_methods lib rs q = (\<Union>r \<in> {r \<in> set rs. reports lib q r}. methods_of lib r)"

lemma entries_from_route: "map route (entries_from ord rs) = rs"
  by (induction rs arbitrary: ord) auto

lemma entries_route: "route ` set (entries rs) = set rs"
  by (metis entries_from_route set_map)

lemma reporting_candidates:
  assumes "reports_aligned lib rs q"
  shows "route ` {e \<in> set (candidates (mx lib) (build (mx lib) rs) q []). reports lib q (route e)} =
    {r \<in> set rs. reports lib q r}"
proof -
  have "{e \<in> set (candidates (mx lib) (build (mx lib) rs) q []). reports lib q (route e)} =
      {e \<in> set (entries rs). reports lib q (route e)}"
    using assms entries_route [of rs]
    by (auto simp: candidates_set reports_aligned_def split: option.splits)
  then show ?thesis using entries_route [of rs] by auto
qed

lemma AllowedMethods_set:
  assumes "idx rou = None \<or> idx rou = Some (build (mx lib) (muxRoutes rou))"
    and "reports_aligned lib (muxRoutes rou) q"
  shows "sorted (fst (AllowedMethods lib q rou)) \<and> distinct (fst (AllowedMethods lib q rou)) \<and>
    set (fst (AllowedMethods lib q rou)) = registered_methods lib (muxRoutes rou) q"
proof -
  let ?cs = "candidates (mx lib) (build (mx lib) (muxRoutes rou)) q []"
  have "fst (index lib rou) = build (mx lib) (muxRoutes rou)"
    using assms(1) by (auto simp: index_def Let_def)
  then have "fst (AllowedMethods lib q rou) = sort (allowed_loop lib q [] ?cs)"
    by (cases "index lib rou") (simp add: AllowedMethods_def)
  moreover have "(\<Union>e \<in> {e \<in> set ?cs. reports lib q (route e)}. methods_of lib (route e)) =
      (\<Union>r \<in> route ` {e \<in> set ?cs. reports lib q (route e)}. methods_of lib r)" by blast
  ultimately show ?thesis
    using reporting_candidates [OF assms(2)]
    by (simp add: registered_methods_def allowed_loop_set allowed_loop_distinct)
qed

section \<open>Properties\<close>

text \<open>
  C2. The trie matcher is only an accelerator. Let routes and middlewares be registered in any order
  during start-up with the trie matcher selected, and then any sequence of requests be served. Under
  the stated behaviour of gorilla/mux, every request runs the same handler (the whole middleware chain
  included), on the same normalized request, with the same variables and the same route, as
  gorilla/mux's own \<^verbatim>\<open>ServeHTTP\<close> would; neither the index nor the cache of chains ever shows.
\<close>

theorem trie_serves_like_mux:
  assumes "EqualFold env ''trie''" and "rou = fold (register lib) ops (NewRouter env)"
    and "mux_serves lib" and "own_handlers lib hof (own rou)"
    and "\<forall>q \<in> set qs. mux_aligns lib (muxRoutes rou) (normalizePath q)"
  shows "map observed (fst (serve_all lib qs rou)) =
    map (\<lambda>q. observed (muxServeHTTP lib (muxRoutes rou) (muxMws rou) (normalizePath q))) qs"
proof (rule serve_all_settled)
  have "fresh_router (NewRouter env :: ('a, 'b) Router)" by (simp add: fresh_router_def NewRouter_def)
  then show "settled lib hof rou" and "useTrie rou"
    using registered_fresh [of "NewRouter env" lib ops] fresh_settled assms(1,2)
    by (auto simp: NewRouter_def)
qed (use assms in auto)

text \<open>A concrete mux for the witness: a route is its template and handler name, a route matches the
  aligned paths, and the middlewares put their names in front of the handler's.\<close>

definition demo_lib :: "(string \<times> string, string) muxlib" where
  "demo_lib =
     (let mu = \<lparr>GetPathTemplate = (\<lambda>r. Some (fst r)), GetPathRegexp = (\<lambda>r. Some (fst r)),
        syntaxParse = (\<lambda>_. Some (OpConcat [OpBeginText, OpCapture (OpPlus (OpCharClass [0, 46, 48, 255])), OpEndText])),
        Match = (\<lambda>r q m. if aligned (pathSegments (fst r)) (pathSegments (rPath q))
           then (True, \<lparr>mRoute = Some r, mHandler = Some (snd r), mVars = [], mErr = None\<rparr>) else (False, m)),
        emptyMatch = \<lparr>mRoute = None, mHandler = None, mVars = [], mErr = None\<rparr>,
        urlPath = rPath, escapedPath = rPath\<rparr>
      in \<lparr>mx = mu, GetMethods = (\<lambda>_. Some [''GET'']),
          NewRoute = (\<lambda>m p h. (case p of ExactPath t \<Rightarrow> t | PathPrefix t \<Rightarrow> t, h)),
          muxServeHTTP = (\<lambda>rs ms q. case scan mu q rs of
             (True, m) \<Rightarrow> (case mHandler m of
                Some h \<Rightarrow> Handled (if mErr m = None then foldr (\<lambda>f. f) ms h else h) q (Some (mVars m)) (mRoute m)
              | None \<Rightarrow> Unhandled q)
           | _ \<Rightarrow> Unhandled q)\<rparr>)"

abbreviation demo_ops :: "string startup list" where
  "demo_ops \<equiv> [StartUse [(\<lambda>h. ''log>'' @ h)], StartAdd ''GET'' ''/users/{id}'' ''user'', StartUse [(\<lambda>h. ''cors>'' @ h)]]"

abbreviation demo_req :: "string \<Rightarrow> request" where
  "demo_req p \<equiv> \<lparr>rMethod = ''GET'', rPath = p, rRawPath = ''''\<rparr>"

theorem trie_serves_like_mux_witness:
  "let rou = fold (register demo_lib) demo_ops (NewRouter ''TRIE'') in
   map observed (fst (serve_all demo_lib [demo_req ''/users//7/'', demo_req ''/users/8''] rou)) =
     map (\<lambda>q. observed (muxServeHTTP demo_lib (muxRoutes rou) (muxMws rou) (normalizePath q)))
       [demo_req ''/users//7/'', demo_req ''/users/8'']"
  unfolding Let_def
proof (rule trie_serves_like_mux [OF _ refl, where hof = snd])
  show "EqualFold ''TRIE'' ''trie''" by code_simp
  show "mux_serves demo_lib" by (simp add: mux_serves_def demo_lib_def Let_def)
  show "own_handlers demo_lib snd S" for S
    by (auto simp: own_handlers_def demo_lib_def Let_def split: if_splits)
  show "\<forall>q \<in> set [demo_req ''/users//7/'', demo_req ''/users/8''].
      mux_aligns demo_lib (muxRoutes (fold (register demo_lib) demo_ops (NewRouter ''TRIE''))) (normalizePath q)"
    by (auto simp: mux_aligns_def demo_lib_def Let_def path_aligned_def exactPathTemplate_def split: if_splits)
qed

text \<open>
  The catch-all distinguishes an unknown path from a wrong method. When the index is that of the
  registered routes and routes report only paths aligned with their templates, the answer is a 404
  exactly if no registered route reports the path with a method list that is not empty; otherwise it
  is a 405 whose \<^verbatim>\<open>Allow\<close> header lists, sorted and without repetition, every method registered for the
  path and \<^verbatim>\<open>OPTIONS\<close>. The index is consulted, but no route it leaves out could add a method.
\<close>

lemma catchAll_answer:
  assumes "idx rou = None \<or> idx rou = Some (build (mx lib) (muxRoutes rou))"
    and "reports_aligned lib (muxRoutes rou) q"
  shows "fst (catchAll lib q rou) =
    (if registered_methods lib (muxRoutes rou) q = {} then NotFound404
     else MethodNotAllowed405
       (Join (sorted_list_of_set (insert ''OPTIONS'' (registered_methods lib (muxRoutes rou) q))) '', ''))"
proof -
  obtain ms rou1 where am: "AllowedMethods lib q rou = (ms, rou1)" by force
  let ?ms1 = "if ''OPTIONS'' \<notin> set ms then ms @ [''OPTIONS''] else ms"
  from AllowedMethods_set [OF assms] am have sms: "distinct ms"
    "set ms = registered_methods lib (muxRoutes rou) q" by auto
  from sms(1) have "distinct ?ms1" by auto
  then have "sort ?ms1 = sorted_list_of_set (set ?ms1)"
    by (simp add: sorted_list_of_set_sort_remdups distinct_remdups_id del: set_append)
  moreover have "set ?ms1 = insert ''OPTIONS'' (registered_methods lib (muxRoutes rou) q)"
    using sms(2) by auto
  moreover have "length ms = 0 \<longleftrightarrow> registered_methods lib (muxRoutes rou) q = {}"
    using sms(2) by auto
  ultimately show ?thesis by (simp add: catchAll_def am Let_def)
qed

lemma catchAll_answer_witness:
  "fst (catchAll demo_lib (demo_req ''/users/7'') (fold (register demo_lib) demo_ops (NewRouter ''trie''))) =
     MethodNotAllowed405 ''GET, OPTIONS''"
proof -
  let ?rou = "fold (register demo_lib) demo_ops (NewRouter ''trie'')"
  have rs: "muxRoutes ?rou = [(''/users/{id}'', ''user'')]" and idx: "idx ?rou = None"
    by (simp_all add: register_defs NewRouter_def demo_lib_def)
  have "reports demo_lib (demo_req ''/users/7'') (''/users/{id}'', ''user'')" by code_simp
  then have ms: "registered_methods demo_lib (muxRoutes ?rou) (demo_req ''/users/7'') = {''GET''}"
    unfolding rs by (auto simp: registered_methods_def methods_of_def demo_lib_def Let_def)
  have "reports_aligned demo_lib (muxRoutes ?rou) (demo_req ''/users/7'')"
    by (auto simp: reports_aligned_def reports_def demo_lib_def Let_def path_aligned_def
        exactPathTemplate_def split: if_splits)
  from catchAll_answer [OF disjI1 [OF idx] this]
  have "fst (catchAll demo_lib (demo_req ''/users/7'') ?rou) =
      MethodNotAllowed405 (Join (sorted_list_of_set {''OPTIONS'', ''GET''}) '', '')"
    unfolding ms by simp
  moreover have "Join (sorted_list_of_set {''OPTIONS'', ''GET''}) '', '' = ''GET, OPTIONS''" by code_simp
  ultimately show ?thesis by simp
qed

end
