(* ===== verification/Static_Files.thy ===== *)
theory Static_Files
  imports Http_Router "HOL-Library.Word"
begin

unbundle bit_operations_syntax

text \<open>
  The static file endpoints of \<^verbatim>\<open>pkg/gofr/http/router.go\<close>: \<^verbatim>\<open>AddStaticFiles\<close>, the handler with its
  checks and the responses for each error. The operating system is a parameter, the record \<open>os\<close>: the
  working directory, \<^verbatim>\<open>os.Stat\<close>, \<^verbatim>\<open>os.Open\<close> (with the \<^verbatim>\<open>Stat\<close> of the open file) and \<^verbatim>\<open>os.ReadFile\<close>.
\<close>

section \<open>The packages path/filepath and net/http\<close>

fun filepath_Join :: "string list \<Rightarrow> string" where
  "filepath_Join [] = ''''"
| "filepath_Join (e # es) = (if e \<noteq> '''' then Clean (Join (e # es) ''/'') else filepath_Join es)"

definition filepath_Base :: "string \<Rightarrow> string" where
  "filepath_Base p =
     (if p = '''' then ''.''
      else let q = TrimRight p sl in if q = '''' then ''/'' else last (Split q sl))"

datatype fs_err = ErrPermission | ErrNotExist | ErrOther

record fileInfo =
  IsDir :: bool
  IsRegular :: bool
  Perm :: "32 word"

record os =
  Getwd :: "string option"
  Stat :: "string \<Rightarrow> fs_err + fileInfo"
  Open :: "string \<Rightarrow> fs_err option"
  ReadFile :: "string \<Rightarrow> string option"

definition filepath_Abs :: "os \<Rightarrow> string \<Rightarrow> string option" where
  "filepath_Abs sys p =
     (if HasPrefix p ''/'' then Some (Clean p)
      else map_option (\<lambda>wd. filepath_Join [wd, p]) (Getwd sys))"

text \<open>What the endpoint writes: the content of a file through \<^verbatim>\<open>http.ServeContent\<close>, the custom page
  with status 404, or a status with the value of \<^verbatim>\<open>Allow\<close>, if it is set.\<close>

datatype static_answer =
    ServeContent string
  | NotFoundPage string
  | Respond nat "string option"

type_synonym static_handler = "request \<Rightarrow> static_answer"

text \<open>\<^verbatim>\<open>http.StripPrefix\<close>: the prefix is taken off the path, and off the escaped path if there is one;
  a request whose path does not carry it is answered 404.\<close>

definition TrimPrefix :: "string \<Rightarrow> string \<Rightarrow> string" where
  "TrimPrefix s p = (if HasPrefix s p then drop (length p) s else s)"

definition StripPrefix :: "string \<Rightarrow> static_handler \<Rightarrow> static_handler" where
  "StripPrefix pre h r =
     (if pre = '''' then h r
      else let p = TrimPrefix (rPath r) pre; rp = TrimPrefix (rRawPath r) pre in
        if length p < length (rPath r) \<and> (rRawPath r = '''' \<or> length rp < length (rRawPath r))
        then h (r\<lparr>rPath := p, rRawPath := rp\<rparr>)
        else Respond 404 None)"

section \<open>The handler\<close>

definition isWithinDirectory :: "string \<Rightarrow> string \<Rightarrow> bool" where
  "isWithinDirectory dir absPath \<longleftrightarrow> absPath = dir \<or> HasPrefix absPath (dir @ ''/'')"

definition isRestrictedFile :: "string \<Rightarrow> string \<Rightarrow> string \<Rightarrow> bool" where
  "isRestrictedFile dir url absPath \<longleftrightarrow>
     (let fileName = filepath_Base url
      in \<not> isWithinDirectory dir absPath \<or> EqualFold fileName ''openapi.json'')"

text \<open>The second half of \<^verbatim>\<open>validateFile\<close>, on the resolved path.\<close>

definition validate_info :: "string \<Rightarrow> fileInfo \<Rightarrow> fs_err + string" where
  "validate_info absPath fi =
     (if \<not> IsRegular fi then Inl ErrNotExist
      else if Perm fi AND 0x124 = 0 then Inl ErrPermission
      else Inr absPath)"

definition validateFile :: "os \<Rightarrow> string \<Rightarrow> fs_err + string" where
  "validateFile sys absPath =
     bind_sum (Stat sys absPath) (\<lambda>fi.
       if IsDir fi then
         let absPath1 = filepath_Join [absPath, ''index.html'']
         in bind_sum (Stat sys absPath1) (\<lambda>fi1. validate_info absPath1 fi1)
       else validate_info absPath fi)"

definition respondWithFileError :: "os \<Rightarrow> string \<Rightarrow> fs_err \<Rightarrow> static_answer" where
  "respondWithFileError sys dir err =
     (case err of
        ErrPermission \<Rightarrow> Respond 403 None
      | ErrNotExist \<Rightarrow>
          let notFoundPath = (case filepath_Abs sys (filepath_Join [dir, ''404.html'']) of
                                Some p \<Rightarrow> p | None \<Rightarrow> '''')
          in (case ReadFile sys notFoundPath of Some page \<Rightarrow> NotFoundPage page | None \<Rightarrow> Respond 404 None)
      | ErrOther \<Rightarrow> Respond 500 None)"

definition serveFile :: "os \<Rightarrow> string \<Rightarrow> fs_err + static_answer" where
  "serveFile sys p = (case Open sys p of Some e \<Rightarrow> Inl e | None \<Rightarrow> Inr (ServeContent p))"

definition staticHandler :: "os \<Rightarrow> string \<Rightarrow> static_handler" where
  "staticHandler sys dir r =
     (let url = rPath r in
      if rMethod r \<noteq> ''GET'' \<and> rMethod r \<noteq> ''HEAD'' then Respond 405 (Some ''GET, HEAD'')
      else (case filepath_Abs sys (filepath_Join [dir, url]) of
              None \<Rightarrow> Respond 500 None
            | Some absPath \<Rightarrow>
                if isRestrictedFile dir url absPath then Respond 403 None
                else (case validateFile sys absPath of
                        Inl err \<Rightarrow> respondWithFileError sys dir err
                      | Inr resolvedPath \<Rightarrow>
                          (case serveFile sys resolvedPath of
                             Inl err \<Rightarrow> respondWithFileError sys dir err
                           | Inr a \<Rightarrow> a))))"

section \<open>Registration\<close>

definition static_routes :: "string \<Rightarrow> static_handler \<Rightarrow> (path_spec \<times> static_handler) list" where
  "static_routes endpoint handler =
     (if endpoint = ''/'' then [(PathPrefix endpoint, StripPrefix endpoint handler)]
      else [(ExactPath endpoint, StripPrefix endpoint handler),
            (PathPrefix (endpoint @ ''/''), StripPrefix (endpoint @ ''/'') handler)])"

text \<open>The handlers are turned into values of the router's handler type by \<open>mk\<close>. The boolean says whether
  the endpoint was registered; an error is logged otherwise.\<close>

definition AddStaticFiles ::
    "('r, 'h) muxlib \<Rightarrow> (static_handler \<Rightarrow> 'h) \<Rightarrow> os \<Rightarrow> string \<Rightarrow> string \<Rightarrow> ('r, 'h) Router \<Rightarrow> bool \<times> ('r, 'h) Router" where
  "AddStaticFiles lib mk sys endpoint0 dirName rou =
     (let endpoint = sl # Trim endpoint0 sl in
      case filepath_Abs sys dirName of
        None \<Rightarrow> (False, rou)
      | Some absDir \<Rightarrow>
          (case Stat sys absDir of
             Inl _ \<Rightarrow> (False, rou)
           | Inr info \<Rightarrow>
               if \<not> IsDir info then (False, rou)
               else (True, fold (\<lambda>(spec, h) rou. let r = NewRoute lib None spec (mk h) in markOwned r (addRoute r rou))
                             (static_routes endpoint (staticHandler sys absDir)) rou)))"

section \<open>Lemmas: joining canonical paths\<close>

lemma Join_append: "ws \<noteq> [] \<Longrightarrow> us \<noteq> [] \<Longrightarrow> Join (ws @ us) sep = Join ws sep @ sep @ Join us sep"
proof (induction ws sep rule: Join.induct)
  case (2 w sep)
  then show ?case by (cases us) auto
qed auto

lemma plain_seg_no_slash: "plain_seg s \<or> s = [] \<Longrightarrow> sl \<notin> set s"
  by (auto simp: plain_seg_def)

lemma plain_seg_not_Nil: "plain_seg s \<Longrightarrow> s \<noteq> []"
  by (simp add: plain_seg_def)

lemma plain_filter: "list_all plain_seg ss \<Longrightarrow> filter (\<lambda>s. s \<noteq> []) ss = ss"
  by (auto simp: list_all_iff plain_seg_not_Nil filter_id_conv)

lemma clean_segs_filter:
  "\<forall>s \<in> set ss. plain_seg s \<or> s = [] \<Longrightarrow> clean_segs b out ss = rev out @ filter (\<lambda>s. s \<noteq> []) ss"
proof (induction ss arbitrary: out)
  case (Cons s ss)
  have "clean_segs b out (s # ss) = clean_segs b (if s = [] then out else s # out) ss"
    using Cons.prems by (auto simp: plain_seg_def)
  with Cons show ?case by simp
qed simp

lemma Clean_Join:
  assumes "ss \<noteq> []" "\<forall>s \<in> set ss. plain_seg s \<or> s = []"
  shows "Clean (sl # Join ss ''/'') = sl # Join (filter (\<lambda>s. s \<noteq> []) ss) ''/''"
proof -
  have "Split (Join ss ''/'') sl = ss"
    using assms by (intro Split_Join ballI plain_seg_no_slash) blast+
  with assms show ?thesis by (simp add: Clean_rooted clean_segs_filter)
qed

text \<open>The segments of a canonical path after its slash; the root has one empty segment.\<close>

lemma clean_tail_segs:
  assumes "isCleanPath (sl # q)"
  obtains ws where "ws \<noteq> []" "\<forall>s \<in> set ws. plain_seg s \<or> s = []" "q = Join ws ''/''"
    "q = [] \<longrightarrow> ws = [[]]" "q \<noteq> [] \<longrightarrow> list_all plain_seg ws"
proof -
  from assms consider "q = []" | ws where "ws \<noteq> []" "list_all plain_seg ws" "q = Join ws ''/''"
    by (auto simp: isCleanPath_iff)
  then show ?thesis
  proof cases
    case 1
    then show ?thesis by (intro that [of "[[]]"]) auto
  next
    case (2 ws)
    then have "q \<noteq> []" by (cases ws; cases "tl ws") (auto simp: plain_seg_def)
    with 2 show ?thesis by (intro that [of ws]) (auto simp: list_all_iff)
  qed
qed

lemma clean_segs_obtain:
  assumes "isCleanPath dir" "dir \<noteq> ''/''"
  obtains ws where "ws \<noteq> []" "list_all plain_seg ws" "dir = sl # Join ws ''/''"
  using assms by (auto simp: isCleanPath_iff)

lemma filepath_Join_clean:
  assumes "isCleanPath dir" "dir \<noteq> ''/''" "isCleanPath (sl # url)"
  shows "filepath_Join [dir, url] = (if url = [] then dir else dir @ sl # url)"
    and "isCleanPath (filepath_Join [dir, url])"
proof -
  obtain ws where ws: "ws \<noteq> []" "list_all plain_seg ws" "dir = sl # Join ws ''/''"
    using clean_segs_obtain [OF assms(1,2)] .
  obtain us where us: "us \<noteq> []" "\<forall>s \<in> set us. plain_seg s \<or> s = []" "url = Join us ''/''"
    "url = [] \<longrightarrow> us = [[]]" "url \<noteq> [] \<longrightarrow> list_all plain_seg us" using clean_tail_segs [OF assms(3)] .
  have fw: "filter (\<lambda>s. s \<noteq> []) ws = ws" using ws(2) by (rule plain_filter)
  have "filepath_Join [dir, url] = Clean (sl # Join (ws @ us) ''/'')"
    using ws us by (simp add: Join_append)
  also have "\<dots> = sl # Join (ws @ filter (\<lambda>s. s \<noteq> []) us) ''/''"
    using ws(1,2) us(2) fw by (subst Clean_Join) (auto simp: list_all_iff)
  finally have j: "filepath_Join [dir, url] = sl # Join (ws @ filter (\<lambda>s. s \<noteq> []) us) ''/''" .
  have fu: "filter (\<lambda>s. s \<noteq> []) us = (if url = [] then [] else us)"
    using us(4,5) plain_filter [of us] by (cases "url = []") simp_all
  show "filepath_Join [dir, url] = (if url = [] then dir else dir @ sl # url)"
    unfolding j fu using ws(1,3) us(1,3) by (cases "url = []") (simp_all add: Join_append)
  show "isCleanPath (filepath_Join [dir, url])"
    unfolding j fu isCleanPath_iff using ws us by (intro disjI2 exI [of _ "ws @ (if url = [] then [] else us)"]) auto
qed

lemma filepath_Abs_clean: "isCleanPath p \<Longrightarrow> filepath_Abs sys p = Some p"
  by (cases p) (simp_all add: filepath_Abs_def Clean_id HasPrefix_def isCleanPath_def split: if_splits)

lemma filepath_Base_clean:
  assumes "ws \<noteq> []" "list_all plain_seg ws"
  shows "filepath_Base (sl # Join ws ''/'') = last ws \<and> filepath_Base (Join ws ''/'') = last ws"
proof -
  have "last ws \<in> set ws" using assms(1) by simp
  with assms(2) have l: "last ws \<noteq> []" "sl \<notin> set (last ws)" by (auto simp: list_all_iff plain_seg_def)
  then have "last (last ws) \<noteq> sl" by (metis last_in_set)
  with Join_last [OF assms(1) l(1), of "''/''"]
  have j: "Join ws ''/'' \<noteq> []" "last (Join ws ''/'') \<noteq> sl" by auto
  have "Split (Join ws ''/'') sl = ws"
    using assms by (intro Split_Join) (auto simp: list_all_iff plain_seg_def)
  with j assms(1) show ?thesis by (simp add: filepath_Base_def Let_def TrimRight_id)
qed

lemma clean_suffix: "isCleanPath (e @ sl # url) \<Longrightarrow> isCleanPath (sl # url)"
proof -
  have suffix: "dirty t \<Longrightarrow> dirty (s @ t)" for s t
  proof (induction s)
    case (Cons c s)
    then obtain d r where "s @ t = d # r" by (cases "s @ t") auto
    with Cons show ?case by auto
  qed auto
  assume "isCleanPath (e @ sl # url)"
  then have "\<not> dirty (e @ sl # url)" "\<not> hasNonRootTrailingSlash (e @ sl # url)"
    by (auto simp: isCleanPath_def hasDirtySegment_def hasDirtySegment_from_eq split: if_splits)
  with suffix [of "sl # url" e] show ?thesis
    by (auto simp: isCleanPath_def hasDirtySegment_def hasDirtySegment_from_eq
        hasNonRootTrailingSlash_def nth_append)
qed

lemma filepath_Base_append:
  assumes "isCleanPath dir" "dir \<noteq> ''/''" "isCleanPath (sl # url)" "url \<noteq> []"
  shows "filepath_Base (dir @ sl # url) = filepath_Base url"
proof -
  obtain ws where ws: "ws \<noteq> []" "list_all plain_seg ws" "dir = sl # Join ws ''/''"
    using clean_segs_obtain [OF assms(1,2)] .
  obtain us where us: "us \<noteq> []" "url = Join us ''/''" "list_all plain_seg us"
    using clean_tail_segs [OF assms(3)] assms(4) by metis
  have "dir @ sl # url = sl # Join (ws @ us) ''/''" using ws us by (simp add: Join_append)
  moreover have "list_all plain_seg (ws @ us)" using ws us by simp
  ultimately show ?thesis
    using filepath_Base_clean [of "ws @ us"] filepath_Base_clean [of us] ws us by simp
qed

section \<open>Lemmas: what the handler serves\<close>

definition servable :: "os \<Rightarrow> string \<Rightarrow> bool" where
  "servable sys p = (case Stat sys p of Inl _ \<Rightarrow> False | Inr fi \<Rightarrow> IsRegular fi \<and> Perm fi AND 0x124 \<noteq> 0)"

lemma validateFile_cases:
  assumes "validateFile sys a = Inr p"
  shows "servable sys p \<and>
    (p = a \<and> (\<exists>fi. Stat sys a = Inr fi \<and> \<not> IsDir fi) \<or> p = filepath_Join [a, ''index.html''])"
  using assms
  by (auto simp: validateFile_def validate_info_def servable_def bind_sum_eq_Inr Let_def
      split: if_splits sum.splits)

lemma staticHandler_ServeContent:
  assumes "staticHandler sys dir r = ServeContent p"
  shows "rMethod r \<in> {''GET'', ''HEAD''} \<and>
    (\<exists>a. filepath_Abs sys (filepath_Join [dir, rPath r]) = Some a \<and>
       \<not> isRestrictedFile dir (rPath r) a \<and> validateFile sys a = Inr p)"
  using assms
  by (auto simp: staticHandler_def serveFile_def respondWithFileError_def Let_def
      split: if_splits option.splits sum.splits fs_err.splits)

lemma index_html: "isCleanPath (sl # ''index.html'')" "filepath_Base ''index.html'' = ''index.html''"
  "\<not> EqualFold ''index.html'' ''openapi.json''"
  by code_simp+

lemma staticHandler_confined:
  assumes dir: "isCleanPath dir" "dir \<noteq> ''/''" and isdir: "Stat sys dir = Inr di" "IsDir di"
    and url: "isCleanPath (sl # rPath r)" and srv: "staticHandler sys dir r = ServeContent p"
  shows "rMethod r \<in> {''GET'', ''HEAD''} \<and> isCleanPath p \<and> HasPrefix p (dir @ ''/'') \<and>
    \<not> EqualFold (filepath_Base p) ''openapi.json'' \<and> servable sys p"
proof -
  let ?a = "filepath_Join [dir, rPath r]"
  have a: "?a = (if rPath r = [] then dir else dir @ sl # rPath r)" "isCleanPath ?a"
    using filepath_Join_clean [OF dir url] by simp_all
  from staticHandler_ServeContent [OF srv] filepath_Abs_clean [OF a(2), of sys]
  have m: "rMethod r \<in> {''GET'', ''HEAD''}" and nr: "\<not> isRestrictedFile dir (rPath r) ?a"
    and v: "validateFile sys ?a = Inr p" by auto
  from validateFile_cases [OF v] consider
      (itself) "servable sys p" "p = ?a" "\<exists>fi. Stat sys ?a = Inr fi \<and> \<not> IsDir fi"
    | (indexed) "servable sys p" "p = filepath_Join [?a, ''index.html'']" by blast
  then show ?thesis
  proof cases
    case itself
    with itself(3) isdir have ne: "?a \<noteq> dir" by auto
    with a(1) have p: "rPath r \<noteq> []" "p = dir @ sl # rPath r" using itself(2) by (auto split: if_splits)
    from nr have "\<not> EqualFold (filepath_Base (rPath r)) ''openapi.json''"
      by (simp add: isRestrictedFile_def Let_def)
    with p filepath_Base_append [OF dir url p(1)] itself a(2) m show ?thesis
      by (simp add: HasPrefix_def)
  next
    case indexed
    have "?a \<noteq> ''/''" using a(1) \<open>dir \<noteq> ''/''\<close> \<open>isCleanPath dir\<close> by (cases dir) (auto split: if_splits)
    with filepath_Join_clean [OF a(2) _ index_html(1)] indexed(2)
    have p: "p = ?a @ sl # ''index.html''" "isCleanPath p" by simp_all
    moreover have "filepath_Base p = ''index.html''"
      using filepath_Base_append [OF a(2) \<open>?a \<noteq> ''/''\<close> index_html(1)] p(1) index_html(2) by simp
    moreover have "HasPrefix p (dir @ ''/'')" using p(1) a(1) by (simp add: HasPrefix_def)
    ultimately show ?thesis using indexed(1) m index_html(3) by simp
  qed
qed

section \<open>Properties\<close>

fun spec_accepts :: "path_spec \<Rightarrow> string \<Rightarrow> bool" where
  "spec_accepts (ExactPath t) p = (p = t)"
| "spec_accepts (PathPrefix t) p = HasPrefix p t"

lemma StripPrefix_url:
  assumes "HasPrefix (rPath r) pre" and "pre \<noteq> ''''" and "StripPrefix pre h r = ServeContent p"
  shows "\<exists>r'. h r' = ServeContent p \<and> rPath r' = drop (length pre) (rPath r) \<and> rMethod r' = rMethod r"
  using assms by (auto simp: StripPrefix_def TrimPrefix_def Let_def split: if_splits)

text \<open>
  C6. A static endpoint serves only what it was pointed at. Take any request, normalized as the router
  does, that one of the routes registered for the endpoint accepts. If the answer is the content of a
  file, then the method is GET or HEAD, the file's path is canonical (so it has no parent references)
  and lies strictly below the served directory, its name is not \<^verbatim>\<open>openapi.json\<close> in any spelling of
  its letters' case, and the file is regular and has a read permission bit. The served directory is any
  canonical path other than the file system's root that is a directory.
\<close>

theorem static_files_confined:
  assumes "isCleanPath dir" and "dir \<noteq> ''/''" and "Stat sys dir = Inr di" and "IsDir di"
    and "rPath q = '''' \<or> hd (rPath q) = CHR ''/''"
    and "(spec, h) \<in> set (static_routes endpoint (staticHandler sys dir))"
    and "spec_accepts spec (rPath (normalizePath q))"
    and "h (normalizePath q) = ServeContent p"
  shows "rMethod q \<in> {''GET'', ''HEAD''} \<and> isCleanPath p \<and> HasPrefix p (dir @ ''/'') \<and>
    \<not> EqualFold (filepath_Base p) ''openapi.json'' \<and> servable sys p"
proof -
  let ?n = "normalizePath q"
  have clean: "isCleanPath (rPath ?n)"
    using assms(5) Clean_clean [of "rPath q"] slowPath_clean [of "rPath q"]
    by (cases "rPath q = ''''") (auto simp: rPath_normalizePath slowPath_def Clean_def TrimLeft_def)
  obtain pre where pre: "h = StripPrefix pre (staticHandler sys dir)" "HasPrefix (rPath ?n) pre"
      "drop (length pre) (rPath ?n) = [] \<or> (\<exists>e. pre = e @ [sl])"
    using assms(6,7) by (fastforce simp: static_routes_def HasPrefix_def split: if_splits)
  have "isCleanPath (sl # drop (length pre) (rPath ?n))"
  proof (cases "drop (length pre) (rPath ?n) = []")
    case False
    with pre(3) obtain e where "pre = e @ [sl]" by auto
    with pre(2) have "rPath ?n = e @ sl # drop (length pre) (rPath ?n)"
      unfolding HasPrefix_def by (metis append.assoc append_Cons append_Nil append_take_drop_id)
    with clean show ?thesis by (metis clean_suffix)
  qed simp
  moreover have "rMethod ?n = rMethod q" by (simp add: normalizePath_def Let_def)
  moreover have "\<exists>r'. staticHandler sys dir r' = ServeContent p \<and>
      rPath r' = drop (length pre) (rPath ?n) \<and> rMethod r' = rMethod ?n"
  proof (cases "pre = ''''")
    case True
    with assms(8) pre(1) show ?thesis by (auto simp: StripPrefix_def)
  next
    case False
    with StripPrefix_url [OF pre(2) False] assms(8) pre(1) show ?thesis by simp
  qed
  ultimately show ?thesis using staticHandler_confined [OF assms(1-4)] by metis
qed

text \<open>A concrete file system for the witness, with one directory and one file.\<close>

definition demo_os :: os where
  "demo_os = \<lparr>Getwd = Some ''/'',
     Stat = (\<lambda>p. if p = ''/srv'' then Inr \<lparr>IsDir = True, IsRegular = False, Perm = 0x1ED\<rparr>
                 else if p = ''/srv/a.txt'' then Inr \<lparr>IsDir = False, IsRegular = True, Perm = 0x1A4\<rparr>
                 else Inl ErrNotExist),
     Open = (\<lambda>p. None), ReadFile = (\<lambda>p. None)\<rparr>"

theorem static_files_confined_witness:
  "StripPrefix ''/static/'' (staticHandler demo_os ''/srv'')
     (normalizePath (demo_req ''/static/../static/./a.txt'')) = ServeContent ''/srv/a.txt'' \<and>
   HasPrefix ''/srv/a.txt'' ''/srv/''"
proof -
  let ?h = "StripPrefix ''/static/'' (staticHandler demo_os ''/srv'')"
  have h: "?h (normalizePath (demo_req ''/static/../static/./a.txt'')) = ServeContent ''/srv/a.txt''"
    and n: "spec_accepts (PathPrefix ''/static/'') (rPath (normalizePath (demo_req ''/static/../static/./a.txt'')))"
    and c: "isCleanPath ''/srv''" by code_simp+
  have "(PathPrefix ''/static/'', ?h) \<in> set (static_routes ''/static'' (staticHandler demo_os ''/srv''))"
    by (simp add: static_routes_def)
  from static_files_confined [where h = ?h, OF c _ _ _ _ this n h]
  have "HasPrefix ''/srv/a.txt'' (''/srv'' @ ''/'')" by (simp add: demo_os_def)
  with h show ?thesis by simp
qed

text \<open>The root of the file system is the one directory that cannot be served: the containment check
  compares with the directory and a separator, two slashes here, which no canonical path starts with.\<close>

lemma root_directory_is_forbidden:
  assumes "rMethod r \<in> {''GET'', ''HEAD''}" and "rPath r = ''a.txt''"
  shows "staticHandler sys ''/'' r = Respond 403 None"
proof -
  have "filepath_Join [''/'', ''a.txt''] = ''/a.txt''" and "filepath_Abs sys ''/a.txt'' = Some ''/a.txt''"
    and "isRestrictedFile ''/'' ''a.txt'' ''/a.txt''"
    by (code_simp, simp add: filepath_Abs_def HasPrefix_def, code_simp, code_simp)
  with assms show ?thesis by (auto simp: staticHandler_def Let_def)
qed

end
