(* ===== verification/Http_Service.thy ===== *)
theory Http_Service
  imports Go_Prelude
begin

text \<open>
  What the decorators of the HTTP service client (\<^verbatim>\<open>pkg/gofr/service\<close>) share: errors with the chain of
  errors they wrap, contexts, and responses with their bodies.
\<close>

section \<open>Errors and contexts\<close>

text \<open>The errors the decorators compare with or look for. An error value is the list of the errors on
  its chain, itself first; a nil error is \<open>None\<close>.\<close>

datatype err_atom =
    Canceled
  | DeadlineExceeded
  | ErrCircuitOpen
  | ErrUnsupportedMethod
  | ErrAttemptTimeout
  | RateLimitError int
  | ErrApp string

type_synonym goerr = "err_atom list"

definition errorsIs :: "goerr option \<Rightarrow> err_atom \<Rightarrow> bool" where
  "errorsIs e target = (case e of None \<Rightarrow> False | Some chain \<Rightarrow> target \<in> set chain)"

text \<open>\<^verbatim>\<open>ctx.Err()\<close>, \<^verbatim>\<open>context.Cause(ctx)\<close> and \<^verbatim>\<open>ctx.Deadline()\<close>.\<close>

record go_context =
  ctxErr :: "err_atom option"
  ctxCause :: "err_atom option"
  ctxDeadline :: "int option"

definition isCause :: "go_context \<Rightarrow> goerr option \<Rightarrow> bool" where
  "isCause ctx err = (case ctxCause ctx of None \<Rightarrow> err = None | Some c \<Rightarrow> errorsIs err c)"

section \<open>Responses\<close>

text \<open>A response body: the bytes still to be read, whether reading them fails at the end, whether the
  body holds a connection of the pool, and whether it has been closed.\<close>

record body =
  content :: string
  readFails :: bool
  onWire :: bool
  bodyClosed :: bool

record http_response =
  StatusCode :: int
  RetryAfter :: string
  Body :: "body option"

type_synonym outcome = "http_response option \<times> goerr option"

definition discardedBodyLimit :: nat where
  "discardedBodyLimit = 4096"

text \<open>\<^verbatim>\<open>drainAndCloseResponse\<close>: reading to the end before closing is what gives the connection back.\<close>

definition drainAndCloseResponse :: "http_response option \<Rightarrow> http_response option" where
  "drainAndCloseResponse resp =
     (case resp of
        None \<Rightarrow> None
      | Some r \<Rightarrow>
          (case Body r of
             None \<Rightarrow> Some r
           | Some b \<Rightarrow> Some (r\<lparr>Body := Some (b\<lparr>content := drop discardedBodyLimit (content b), bodyClosed := True\<rparr>)\<rparr>)))"

end
