(* ===== verification/Circuit_Breaker.thy ===== *)
theory Circuit_Breaker
  imports Http_Service
begin

text \<open>
  The circuit breaker of \<^verbatim>\<open>pkg/gofr/service/circuit_breaker.go\<close>. Its state is a record; every section
  of the code that runs under the lock is one function, and the operations compose them. The clock,
  the result of a health check and the outcome of the wrapped client's call are arguments; what the
  breaker does towards the outside (upstream calls, health probes, metrics, released responses) is
  recorded in a list of events. Concurrent requests and the health-check goroutine are interleavings
  of the locked sections.
\<close>

section \<open>The state\<close>

datatype cbState = ClosedState | OpenState

datatype cb_event =
    Gauge int
  | OpenCount
  | Upstream
  | Probe
  | Released "http_response option"

record circuitBreaker =
  state :: cbState
  failureCount :: int
  threshold :: int
  interval :: int
  lastChecked :: int
  hasMetrics :: bool
  events :: "cb_event list"

definition emit :: "cb_event list \<Rightarrow> circuitBreaker \<Rightarrow> circuitBreaker" where
  "emit es cb = cb\<lparr>events := events cb @ es\<rparr>"

definition NewCircuitBreaker :: "int \<Rightarrow> int \<Rightarrow> circuitBreaker" where
  "NewCircuitBreaker thr itv = \<lparr>state = ClosedState, failureCount = 0, threshold = thr, interval = itv,
     lastChecked = 0, hasMetrics = False, events = []\<rparr>"

text \<open>\<^verbatim>\<open>AddOption\<close>: \<open>svcMetrics\<close> says whether the wrapped client is a service with metrics.\<close>

definition cb_AddOption :: "int \<Rightarrow> int \<Rightarrow> bool \<Rightarrow> circuitBreaker" where
  "cb_AddOption thr itv svcMetrics =
     (let cb = NewCircuitBreaker thr itv in
      if svcMetrics then emit [Gauge 0] (cb\<lparr>hasMetrics := True\<rparr>) else cb)"

section \<open>Transitions\<close>

definition isOpen :: "circuitBreaker \<Rightarrow> bool" where
  "isOpen cb \<longleftrightarrow> state cb = OpenState"

definition openCircuit :: "int \<Rightarrow> circuitBreaker \<Rightarrow> circuitBreaker" where
  "openCircuit now cb =
     (let wasOpen = (state cb = OpenState); cb1 = cb\<lparr>state := OpenState, lastChecked := now\<rparr> in
      if hasMetrics cb1 then
        let cb2 = emit [Gauge 1] cb1 in if \<not> wasOpen then emit [OpenCount] cb2 else cb2
      else cb1)"

definition resetCircuit :: "circuitBreaker \<Rightarrow> circuitBreaker" where
  "resetCircuit cb =
     (let cb1 = cb\<lparr>state := ClosedState, failureCount := 0\<rparr> in
      if hasMetrics cb1 then emit [Gauge 0] cb1 else cb1)"

definition handleFailure :: "int \<Rightarrow> circuitBreaker \<Rightarrow> circuitBreaker" where
  "handleFailure now cb =
     (let cb1 = cb\<lparr>failureCount := failureCount cb + 1\<rparr> in
      if failureCount cb1 > threshold cb1 then openCircuit now cb1 else cb1)"

definition resetFailureCount :: "circuitBreaker \<Rightarrow> circuitBreaker" where
  "resetFailureCount cb = cb\<lparr>failureCount := 0\<rparr>"

definition canceledByCaller :: "go_context \<Rightarrow> goerr option \<Rightarrow> bool" where
  "canceledByCaller ctx err =
     (if err = None \<or> ctxErr ctx \<noteq> Some Canceled then False
      else errorsIs err Canceled \<or> isCause ctx err)"

section \<open>Recovery\<close>

datatype recovery = Recovered | Refused | Probing

text \<open>The first locked section of \<^verbatim>\<open>tryCircuitRecovery\<close>, the one after the health check, and the whole. The
  two clock readings of the first section, one directly after the other, are one argument.\<close>

definition recovery_check :: "int \<Rightarrow> circuitBreaker \<Rightarrow> recovery \<times> circuitBreaker" where
  "recovery_check now cb =
     (if state cb = ClosedState then (Recovered, cb)
      else if now - lastChecked cb > interval cb then (Probing, emit [Probe] (cb\<lparr>lastChecked := now\<rparr>))
      else (Refused, cb))"

definition recovery_finish :: "bool \<Rightarrow> circuitBreaker \<Rightarrow> bool \<times> circuitBreaker" where
  "recovery_finish healthy cb =
     (if healthy then (True, if state cb = OpenState then resetCircuit cb else cb) else (False, cb))"

definition tryCircuitRecovery :: "int \<Rightarrow> bool \<Rightarrow> circuitBreaker \<Rightarrow> bool \<times> circuitBreaker" where
  "tryCircuitRecovery now healthy cb =
     (case recovery_check now cb of
        (Recovered, cb1) \<Rightarrow> (True, cb1)
      | (Refused, cb1) \<Rightarrow> (False, cb1)
      | (Probing, cb1) \<Rightarrow> recovery_finish healthy cb1)"

text \<open>The health check of the background goroutine, when a tick finds the breaker open.\<close>

definition health_tick :: "bool \<Rightarrow> circuitBreaker \<Rightarrow> circuitBreaker" where
  "health_tick healthy cb = (if healthy then resetCircuit cb else cb)"

section \<open>Requests\<close>

text \<open>The accounting of a finished call, under the lock.\<close>

definition account :: "int \<Rightarrow> outcome \<Rightarrow> circuitBreaker \<Rightarrow> outcome \<times> circuitBreaker" where
  "account now out cb =
     (case out of (result, err) \<Rightarrow>
        if err \<noteq> None \<or> (case result of Some r \<Rightarrow> StatusCode r > 500 | None \<Rightarrow> False) then
          let cb1 = handleFailure now cb in
          if state cb1 = OpenState
          then ((None, Some [ErrCircuitOpen]), emit [Released (drainAndCloseResponse result)] cb1)
          else (out, cb1)
        else (out, resetFailureCount cb))"

text \<open>One request's view of the world: the time and health for a recovery attempt, the caller's
  context, the outcome of the upstream call and the time it ends.\<close>

record cb_env =
  now_check :: int
  healthy :: bool
  now_done :: int

definition executeWithCircuitBreaker ::
    "cb_env \<Rightarrow> go_context \<Rightarrow> outcome \<Rightarrow> circuitBreaker \<Rightarrow> outcome \<times> circuitBreaker" where
  "executeWithCircuitBreaker env ctx f cb =
     (let (go, cb1) = (if isOpen cb then tryCircuitRecovery (now_check env) (healthy env) cb else (True, cb)) in
      if \<not> go then ((None, Some [ErrCircuitOpen]), cb1)
      else let cb2 = emit [Upstream] cb1 in
        if canceledByCaller ctx (snd f) then (f, cb2) else account (now_done env) f cb2)"

definition handleCircuitBreakerResult :: "outcome \<Rightarrow> outcome" where
  "handleCircuitBreakerResult out = (case out of (result, Some e) \<Rightarrow> (None, Some e) | (result, None) \<Rightarrow> (result, None))"

text \<open>\<^verbatim>\<open>doRequest\<close>: \<open>env0\<close> is what its own recovery attempt sees, \<open>f m\<close> the outcome of the client's method
  for the HTTP method \<open>m\<close>. The twelve public methods call it with their method's name.\<close>

definition doRequest ::
    "cb_env \<Rightarrow> cb_env \<Rightarrow> go_context \<Rightarrow> string \<Rightarrow> (string \<Rightarrow> outcome) \<Rightarrow> circuitBreaker \<Rightarrow> outcome \<times> circuitBreaker" where
  "doRequest env0 env ctx method f cb =
     (let (go, cb1) = (if isOpen cb then tryCircuitRecovery (now_check env0) (healthy env0) cb else (True, cb)) in
      if \<not> go then ((None, Some [ErrCircuitOpen]), cb1)
      else if method \<in> {''GET'', ''POST'', ''PATCH'', ''PUT'', ''DELETE'', ''QUERY''}
      then let (out, cb2) = executeWithCircuitBreaker env ctx (f method) cb1
           in (handleCircuitBreakerResult out, cb2)
      else ((None, Some [ErrUnsupportedMethod]), cb1))"

definition cb_Get :: "cb_env \<Rightarrow> cb_env \<Rightarrow> go_context \<Rightarrow> (string \<Rightarrow> outcome) \<Rightarrow> circuitBreaker \<Rightarrow> outcome \<times> circuitBreaker" where
  "cb_Get env0 env ctx f cb = doRequest env0 env ctx ''GET'' f cb"

definition cb_GetWithHeaders :: "cb_env \<Rightarrow> cb_env \<Rightarrow> go_context \<Rightarrow> (string \<Rightarrow> outcome) \<Rightarrow> circuitBreaker \<Rightarrow> outcome \<times> circuitBreaker" where
  "cb_GetWithHeaders env0 env ctx f cb = doRequest env0 env ctx ''GET'' f cb"

definition cb_Post :: "cb_env \<Rightarrow> cb_env \<Rightarrow> go_context \<Rightarrow> (string \<Rightarrow> outcome) \<Rightarrow> circuitBreaker \<Rightarrow> outcome \<times> circuitBreaker" where
  "cb_Post env0 env ctx f cb = doRequest env0 env ctx ''POST'' f cb"

definition cb_PostWithHeaders :: "cb_env \<Rightarrow> cb_env \<Rightarrow> go_context \<Rightarrow> (string \<Rightarrow> outcome) \<Rightarrow> circuitBreaker \<Rightarrow> outcome \<times> circuitBreaker" where
  "cb_PostWithHeaders env0 env ctx f cb = doRequest env0 env ctx ''POST'' f cb"

definition cb_Patch :: "cb_env \<Rightarrow> cb_env \<Rightarrow> go_context \<Rightarrow> (string \<Rightarrow> outcome) \<Rightarrow> circuitBreaker \<Rightarrow> outcome \<times> circuitBreaker" where
  "cb_Patch env0 env ctx f cb = doRequest env0 env ctx ''PATCH'' f cb"

definition cb_PatchWithHeaders :: "cb_env \<Rightarrow> cb_env \<Rightarrow> go_context \<Rightarrow> (string \<Rightarrow> outcome) \<Rightarrow> circuitBreaker \<Rightarrow> outcome \<times> circuitBreaker" where
  "cb_PatchWithHeaders env0 env ctx f cb = doRequest env0 env ctx ''PATCH'' f cb"

definition cb_Put :: "cb_env \<Rightarrow> cb_env \<Rightarrow> go_context \<Rightarrow> (string \<Rightarrow> outcome) \<Rightarrow> circuitBreaker \<Rightarrow> outcome \<times> circuitBreaker" where
  "cb_Put env0 env ctx f cb = doRequest env0 env ctx ''PUT'' f cb"

definition cb_PutWithHeaders :: "cb_env \<Rightarrow> cb_env \<Rightarrow> go_context \<Rightarrow> (string \<Rightarrow> outcome) \<Rightarrow> circuitBreaker \<Rightarrow> outcome \<times> circuitBreaker" where
  "cb_PutWithHeaders env0 env ctx f cb = doRequest env0 env ctx ''PUT'' f cb"

definition cb_Delete :: "cb_env \<Rightarrow> cb_env \<Rightarrow> go_context \<Rightarrow> (string \<Rightarrow> outcome) \<Rightarrow> circuitBreaker \<Rightarrow> outcome \<times> circuitBreaker" where
  "cb_Delete env0 env ctx f cb = doRequest env0 env ctx ''DELETE'' f cb"

definition cb_DeleteWithHeaders :: "cb_env \<Rightarrow> cb_env \<Rightarrow> go_context \<Rightarrow> (string \<Rightarrow> outcome) \<Rightarrow> circuitBreaker \<Rightarrow> outcome \<times> circuitBreaker" where
  "cb_DeleteWithHeaders env0 env ctx f cb = doRequest env0 env ctx ''DELETE'' f cb"

definition cb_Query :: "cb_env \<Rightarrow> cb_env \<Rightarrow> go_context \<Rightarrow> (string \<Rightarrow> outcome) \<Rightarrow> circuitBreaker \<Rightarrow> outcome \<times> circuitBreaker" where
  "cb_Query env0 env ctx f cb = doRequest env0 env ctx ''QUERY'' f cb"

definition cb_QueryWithHeaders :: "cb_env \<Rightarrow> cb_env \<Rightarrow> go_context \<Rightarrow> (string \<Rightarrow> outcome) \<Rightarrow> circuitBreaker \<Rightarrow> outcome \<times> circuitBreaker" where
  "cb_QueryWithHeaders env0 env ctx f cb = doRequest env0 env ctx ''QUERY'' f cb"

section \<open>Interleavings\<close>

text \<open>The steps of any number of concurrent requests and of the health-check goroutine: each locked
  section may run at any time, between any two sections of other goroutines.\<close>

inductive cb_step :: "circuitBreaker \<Rightarrow> circuitBreaker \<Rightarrow> bool" where
  step_check: "cb_step cb (snd (recovery_check now cb))"
| step_finish: "cb_step cb (snd (recovery_finish h cb))"
| step_call: "cb_step cb (emit [Upstream] cb)"
| step_account: "cb_step cb (snd (account now out cb))"
| step_tick: "cb_step cb (health_tick h cb)"

inductive_simps cb_step_simps: "cb_step cb cb'"

definition cb_init :: "circuitBreaker \<Rightarrow> bool" where
  "cb_init cb \<longleftrightarrow> (\<exists>thr itv m. 0 \<le> thr \<and> cb = cb_AddOption thr itv m)"

text \<open>What an observer of the metrics sees: the value of the gauge and how often it went from 0 to 1.\<close>

definition observe :: "cb_event list \<Rightarrow> int \<times> nat" where
  "observe es = foldl (\<lambda>(g, n) e. case e of
     Gauge v \<Rightarrow> (v, if g = 0 \<and> v = 1 then Suc n else n) | _ \<Rightarrow> (g, n)) (0, 0) es"

lemma observe_snoc:
  "observe (es @ [Gauge v]) = (v, if fst (observe es) = 0 \<and> v = 1 then Suc (snd (observe es)) else snd (observe es))"
  "observe (es @ [OpenCount]) = observe es" "observe (es @ [Upstream]) = observe es"
  "observe (es @ [Probe]) = observe es" "observe (es @ [Released r]) = observe es"
  by (simp_all add: observe_def split: prod.splits)

lemma observe_open: "observe (es @ [Gauge 1, OpenCount]) = observe (es @ [Gauge 1])"
  using observe_snoc(2) [of "es @ [Gauge 1]"] by simp

definition cb_inv :: "circuitBreaker \<Rightarrow> bool" where
  "cb_inv cb \<longleftrightarrow> 0 \<le> threshold cb \<and> 0 \<le> failureCount cb \<and>
     (state cb = ClosedState \<longrightarrow> failureCount cb \<le> threshold cb) \<and>
     (hasMetrics cb \<longrightarrow> fst (observe (events cb)) = (if state cb = OpenState then 1 else 0) \<and>
        snd (observe (events cb)) = count_list (events cb) OpenCount)"

lemmas cb_defs = recovery_check_def recovery_finish_def account_def health_tick_def handleFailure_def
  openCircuit_def resetCircuit_def resetFailureCount_def emit_def Let_def

lemma state_cases: "(s = OpenState) \<longleftrightarrow> (s \<noteq> ClosedState)"
  by (cases s) auto

lemma cb_inv_open: "cb_inv cb \<Longrightarrow> cb_inv (openCircuit now cb)"
  by (auto simp: cb_inv_def openCircuit_def emit_def Let_def observe_snoc observe_open state_cases)

lemma cb_inv_reset: "cb_inv cb \<Longrightarrow> cb_inv (resetCircuit cb)"
  by (auto simp: cb_inv_def resetCircuit_def emit_def Let_def observe_snoc)

lemma cb_inv_emit: "cb_inv cb \<Longrightarrow> e = Upstream \<or> e = Probe \<or> (\<exists>r. e = Released r) \<Longrightarrow> cb_inv (emit [e] cb)"
  by (auto simp: cb_inv_def emit_def observe_snoc)

lemma cb_inv_failure: "cb_inv cb \<Longrightarrow> cb_inv (handleFailure now cb)"
proof -
  assume inv: "cb_inv cb"
  let ?cb1 = "cb\<lparr>failureCount := failureCount cb + 1\<rparr>"
  have open_again: "openCircuit now (cb\<lparr>failureCount := n\<rparr>) = (openCircuit now cb)\<lparr>failureCount := n\<rparr>" for n
    by (simp add: openCircuit_def emit_def Let_def)
  have "state (openCircuit now cb) = OpenState" "threshold (openCircuit now cb) = threshold cb"
    "hasMetrics (openCircuit now cb) = hasMetrics cb"
    by (simp_all add: openCircuit_def emit_def Let_def)
  with cb_inv_open [OF inv, of now] inv show ?thesis
    by (auto simp: handleFailure_def Let_def open_again cb_inv_def)
qed

lemma cb_inv_account: "cb_inv cb \<Longrightarrow> cb_inv (snd (account now out cb))"
proof -
  assume inv: "cb_inv cb"
  have "cb_inv (resetFailureCount cb)" using inv by (auto simp: cb_inv_def resetFailureCount_def)
  with cb_inv_failure [OF inv, of now] show ?thesis
    by (auto simp: account_def Let_def intro: cb_inv_emit split: prod.splits)
qed

interpretation breaker: invariant cb_init cb_step cb_inv
proof unfold_locales
  fix cb assume "cb_init cb"
  then show "cb_inv cb"
    by (auto simp: cb_init_def cb_AddOption_def NewCircuitBreaker_def emit_def cb_inv_def observe_def Let_def
        split: if_splits)
next
  fix cb cb' assume inv: "cb_inv cb" and "cb_step cb cb'"
  from this(2) show "cb_inv cb'"
  proof cases
    case (step_check now)
    have "cb_inv (cb\<lparr>lastChecked := now\<rparr>)" using inv by (simp add: cb_inv_def)
    with inv step_check show ?thesis by (auto simp: recovery_check_def intro: cb_inv_emit)
  qed (auto simp: recovery_finish_def health_tick_def inv intro: cb_inv_emit cb_inv_account cb_inv_reset)
qed

section \<open>Sequences of requests and health checks\<close>

datatype verdict = Failed | Succeeded | Ignored

definition verdict_of :: "go_context \<Rightarrow> outcome \<Rightarrow> verdict" where
  "verdict_of ctx f =
     (if canceledByCaller ctx (snd f) then Ignored
      else if snd f \<noteq> None \<or> (case fst f of Some r \<Rightarrow> StatusCode r > 500 | None \<Rightarrow> False) then Failed
      else Succeeded)"

text \<open>What happens to a breaker: a request, from its check to its accounting; the accounting alone, for a
  call that passed the check earlier and ran while other things happened; and the result of a health
  check that a tick of the background goroutine started. The results of such checks may come at any
  time, also when the breaker has been closed in between.\<close>

datatype cb_action =
    Request cb_env go_context outcome
  | Finish int go_context outcome
  | Health bool

fun cb_act :: "cb_action \<Rightarrow> circuitBreaker \<Rightarrow> circuitBreaker" where
  "cb_act (Request env ctx f) cb = snd (executeWithCircuitBreaker env ctx f cb)"
| "cb_act (Finish now ctx f) cb = (if canceledByCaller ctx (snd f) then cb else snd (account now f cb))"
| "cb_act (Health h) cb = health_tick h cb"

definition cb_run :: "cb_action list \<Rightarrow> circuitBreaker \<Rightarrow> circuitBreaker" where
  "cb_run acts cb = fold cb_act acts cb"

text \<open>What an action says of the upstream: a call's verdict, or (\<open>None\<close>) that a health check found it up.\<close>

fun act_verdict :: "cb_action \<Rightarrow> verdict" where
  "act_verdict (Request env ctx f) = verdict_of ctx f"
| "act_verdict (Finish now ctx f) = verdict_of ctx f"
| "act_verdict (Health h) = Ignored"

definition cb_seen :: "cb_action \<Rightarrow> verdict option" where
  "cb_seen act = (if act = Health True then None else Some (act_verdict act))"

text \<open>Does the count of failures, starting at \<open>n\<close>, exceed \<open>t\<close> somewhere along the verdicts?\<close>

fun trips :: "nat \<Rightarrow> nat \<Rightarrow> verdict list \<Rightarrow> bool" where
  "trips t n [] = False"
| "trips t n (Failed # vs) = (Suc n > t \<or> trips t (Suc n) vs)"
| "trips t n (Succeeded # vs) = trips t 0 vs"
| "trips t n (Ignored # vs) = trips t n vs"

lemma prefix_Cons: "(\<exists>a b. x # xs = a @ b \<and> P a) \<longleftrightarrow> P [] \<or> (\<exists>a b. xs = a @ b \<and> P (x # a))"
  by (metis append_eq_Cons_conv append_Nil)

text \<open>\<open>lead\<close>: a prefix without a success in which the count exceeds \<open>t\<close>; \<open>failure_run\<close>: a stretch anywhere.\<close>

definition lead :: "nat \<Rightarrow> nat \<Rightarrow> verdict list \<Rightarrow> bool" where
  "lead t n vs \<longleftrightarrow> (\<exists>a b. vs = a @ b \<and> Succeeded \<notin> set a \<and> n + count_list a Failed > t)"

definition failure_run :: "nat \<Rightarrow> verdict list \<Rightarrow> bool" where
  "failure_run t vs \<longleftrightarrow> (\<exists>us a b. vs = us @ a @ b \<and> Succeeded \<notin> set a \<and> count_list a Failed > t)"

lemma lead_simps [simp]:
  "lead t n [] \<longleftrightarrow> t < n"
  "lead t n (Failed # vs) \<longleftrightarrow> t < n \<or> lead t (Suc n) vs"
  "lead t n (Succeeded # vs) \<longleftrightarrow> t < n"
  "lead t n (Ignored # vs) \<longleftrightarrow> t < n \<or> lead t n vs"
  unfolding lead_def prefix_Cons by simp_all

lemma lead_now: "t < n \<Longrightarrow> lead t n vs"
  unfolding lead_def by (rule exI [of _ "[]"]) simp

lemma lead_mono: "lead t m vs \<Longrightarrow> m \<le> n \<Longrightarrow> lead t n vs"
  unfolding lead_def by (metis add_le_mono1 less_le_trans)

lemma failure_run_simps [simp]:
  "\<not> failure_run t []"
  "failure_run t (v # vs) \<longleftrightarrow> lead t 0 (v # vs) \<or> failure_run t vs"
proof -
  show "\<not> failure_run t []" by (simp add: failure_run_def)
  show "failure_run t (v # vs) \<longleftrightarrow> lead t 0 (v # vs) \<or> failure_run t vs"
  proof
    assume "failure_run t (v # vs)"
    then obtain us a b where *: "v # vs = us @ a @ b" "Succeeded \<notin> set a" "count_list a Failed > t"
      unfolding failure_run_def by blast
    then show "lead t 0 (v # vs) \<or> failure_run t vs"
      by (cases us) (auto simp: lead_def failure_run_def)
  next
    assume "lead t 0 (v # vs) \<or> failure_run t vs"
    then show "failure_run t (v # vs)"
      unfolding lead_def failure_run_def by (metis add_0 append_Cons append_Nil)
  qed
qed

lemma trips_iff: "n \<le> t \<Longrightarrow> trips t n vs \<longleftrightarrow> lead t n vs \<or> failure_run t vs"
proof (induction t n vs rule: trips.induct)
  case (2 t n vs)
  then show ?case
    using lead_mono [of t 1 vs "Suc n"] lead_now [of t "Suc n" vs] by (cases "Suc n \<le> t") auto
next
  case (3 t n vs)
  have "lead t 0 vs \<Longrightarrow> failure_run t vs" by (cases vs) auto
  with 3 show ?case by auto
next
  case (4 t n vs)
  then show ?case using lead_mono [of t 0 vs n] by auto
qed auto

lemma exec_closed:
  assumes "state cb = ClosedState" and "threshold cb = int t" and "failureCount cb = int n" and "n \<le> t"
    and "cb' = snd (executeWithCircuitBreaker env ctx f cb)"
  shows "threshold cb' = threshold cb \<and> interval cb' = interval cb \<and>
    (case verdict_of ctx f of
       Failed \<Rightarrow> (if Suc n > t then state cb' = OpenState \<and> lastChecked cb' = now_done env
                  else state cb' = ClosedState \<and> failureCount cb' = int (Suc n))
     | Succeeded \<Rightarrow> state cb' = ClosedState \<and> failureCount cb' = 0
     | Ignored \<Rightarrow> state cb' = ClosedState \<and> failureCount cb' = int n)"
proof (cases f)
  case (Pair result err)
  then show ?thesis
    using assms
    by (cases err; cases result)
      (auto simp: executeWithCircuitBreaker_def isOpen_def verdict_of_def account_def handleFailure_def
        openCircuit_def resetFailureCount_def emit_def Let_def)
qed

lemma exec_open:
  assumes "state cb = OpenState" and "now_check env - lastChecked cb \<le> interval cb"
  shows "executeWithCircuitBreaker env ctx f cb = ((None, Some [ErrCircuitOpen]), cb)"
  using assms by (simp add: executeWithCircuitBreaker_def isOpen_def tryCircuitRecovery_def recovery_check_def)

text \<open>The times at which calls end, and those at which requests are checked: all requests are checked
  before the interval after the end of any call has passed.\<close>

fun done_times :: "cb_action \<Rightarrow> int set" where
  "done_times (Request env ctx f) = {now_done env}"
| "done_times (Finish now ctx f) = {now}"
| "done_times (Health h) = {}"

fun check_times :: "cb_action \<Rightarrow> int set" where
  "check_times (Request env ctx f) = {now_check env}"
| "check_times (Finish now ctx f) = {}"
| "check_times (Health h) = {}"

definition same_window :: "cb_action list \<Rightarrow> int \<Rightarrow> bool" where
  "same_window acts itv \<longleftrightarrow>
     (\<forall>x \<in> set acts. \<forall>y \<in> set acts. \<forall>d \<in> done_times x. \<forall>c \<in> check_times y. c - d \<le> itv)"

lemma finish_closed:
  assumes "state cb = ClosedState" and "threshold cb = int t" and "failureCount cb = int n" and "n \<le> t"
    and "cb' = cb_act (Finish now ctx f) cb"
  shows "threshold cb' = threshold cb \<and> interval cb' = interval cb \<and>
    (case verdict_of ctx f of
       Failed \<Rightarrow> (if Suc n > t then state cb' = OpenState \<and> lastChecked cb' = now
                  else state cb' = ClosedState \<and> failureCount cb' = int (Suc n))
     | Succeeded \<Rightarrow> state cb' = ClosedState \<and> failureCount cb' = 0
     | Ignored \<Rightarrow> state cb' = ClosedState \<and> failureCount cb' = int n)"
  using assms
  by (cases f; cases "snd f"; cases "fst f")
    (auto simp: verdict_of_def account_def handleFailure_def openCircuit_def resetFailureCount_def emit_def Let_def)

lemma act_closed:
  assumes "state cb = ClosedState" and "threshold cb = int t" and "failureCount cb = int n" and "n \<le> t"
    and "act \<noteq> Health True" and "cb' = cb_act act cb"
  shows "threshold cb' = threshold cb \<and> interval cb' = interval cb \<and>
    (case act_verdict act of
       Failed \<Rightarrow> (if Suc n > t then state cb' = OpenState \<and> lastChecked cb' \<in> done_times act
                  else state cb' = ClosedState \<and> failureCount cb' = int (Suc n))
     | Succeeded \<Rightarrow> state cb' = ClosedState \<and> failureCount cb' = 0
     | Ignored \<Rightarrow> state cb' = ClosedState \<and> failureCount cb' = int n)"
proof (cases act)
  case (Request env ctx f)
  then show ?thesis using exec_closed [OF assms(1-4), of cb' env ctx f] assms(6) by (auto split: verdict.split)
next
  case (Finish now ctx f)
  then show ?thesis using finish_closed [OF assms(1-4), of cb' now ctx f] assms(6) by (auto split: verdict.split)
next
  case (Health h)
  then show ?thesis using assms by (simp add: health_tick_def)
qed

text \<open>A call that ends while the breaker is open leaves it open.\<close>

lemma act_open:
  assumes "state cb = OpenState" and "act \<noteq> Health True" and "\<forall>c \<in> check_times act. c - lastChecked cb \<le> interval cb"
    and "cb' = cb_act act cb"
  shows "state cb' = OpenState \<and> interval cb' = interval cb \<and> lastChecked cb' \<in> insert (lastChecked cb) (done_times act)"
proof (cases act)
  case (Request env ctx f)
  then show ?thesis using assms exec_open [of cb env ctx f] by simp
next
  case (Finish now ctx f)
  then show ?thesis using assms(1,4)
    by (cases f) (auto simp: account_def handleFailure_def openCircuit_def resetFailureCount_def emit_def Let_def)
next
  case (Health h)
  then show ?thesis using assms by (simp add: health_tick_def)
qed

lemma cb_run_Cons [simp]: "cb_run [] cb = cb" "cb_run (act # acts) cb = cb_run acts (cb_act act cb)"
  by (simp_all add: cb_run_def)

lemma cb_run_append: "cb_run (xs @ ys) cb = cb_run ys (cb_run xs cb)"
  by (simp add: cb_run_def)

lemma cb_run_open:
  assumes "state cb = OpenState" and "Health True \<notin> set acts" and "same_window acts (interval cb)"
    and "\<forall>x \<in> set acts. \<forall>c \<in> check_times x. c - lastChecked cb \<le> interval cb"
  shows "state (cb_run acts cb) = OpenState"
  using assms
proof (induction acts arbitrary: cb)
  case (Cons act acts)
  let ?cb = "cb_act act cb"
  have o: "state ?cb = OpenState" "interval ?cb = interval cb" "lastChecked ?cb \<in> insert (lastChecked cb) (done_times act)"
    using act_open [OF Cons.prems(1) _ _ refl, of act] Cons.prems by auto
  have "\<forall>x \<in> set acts. \<forall>c \<in> check_times x. c - lastChecked ?cb \<le> interval ?cb"
    using o(2,3) Cons.prems(3,4) by (auto simp: same_window_def)
  moreover have "same_window acts (interval ?cb)" using Cons.prems(3) o(2) by (simp add: same_window_def)
  ultimately show ?case using Cons.IH [OF o(1)] Cons.prems(2) by simp
qed simp

lemma cb_run_trips:
  assumes "state cb = ClosedState" and "threshold cb = int t" and "failureCount cb = int n" and "n \<le> t"
    and "same_window acts (interval cb)" and "Health True \<notin> set acts"
  shows "isOpen (cb_run acts cb) \<longleftrightarrow> trips t n (map act_verdict acts)"
  using assms
proof (induction acts arbitrary: cb n)
  case Nil
  then show ?case by (simp add: isOpen_def)
next
  case (Cons act acts)
  let ?cb = "cb_act act cb"
  have nh: "act \<noteq> Health True" "Health True \<notin> set acts" using Cons.prems(6) by auto
  note ac = act_closed [OF Cons.prems(1-4) nh(1) refl]
  then have keep: "threshold ?cb = int t" "interval ?cb = interval cb" using Cons.prems(2) by auto
  have win: "same_window acts (interval ?cb)" using Cons.prems(5) keep by (simp add: same_window_def)
  note IH = Cons.IH [OF _ keep(1) _ _ win nh(2)]
  show ?case
  proof (cases "act_verdict act")
    case Failed
    show ?thesis
    proof (cases "Suc n > t")
      case True
      with ac Failed have o: "state ?cb = OpenState" "lastChecked ?cb \<in> done_times act" by auto
      then have "\<forall>x \<in> set acts. \<forall>c \<in> check_times x. c - lastChecked ?cb \<le> interval ?cb"
        using Cons.prems(5) keep(2) by (auto simp: same_window_def)
      with cb_run_open [OF o(1) nh(2) win] True Failed show ?thesis by (simp add: isOpen_def)
    next
      case False
      with ac Failed IH [of "Suc n"] show ?thesis by auto
    qed
  next
    case Succeeded
    with ac IH [of 0] show ?thesis by auto
  next
    case Ignored
    with ac IH [of n] Cons.prems(4) show ?thesis by auto
  qed
qed

text \<open>A successful health check starts the account anew, so only what follows the last one matters.\<close>

lemma act_keeps: "threshold (cb_act act cb) = threshold cb \<and> interval (cb_act act cb) = interval cb"
proof (cases act)
  case (Request env ctx f)
  then show ?thesis
    by (cases f) (auto simp: executeWithCircuitBreaker_def tryCircuitRecovery_def cb_defs split: if_splits)
next
  case (Finish now ctx f)
  then show ?thesis by (cases f) (auto simp: cb_defs)
qed (simp add: cb_defs)

lemma cb_run_keeps: "threshold (cb_run acts cb) = threshold cb \<and> interval (cb_run acts cb) = interval cb"
  by (induction acts arbitrary: cb) (simp_all add: act_keeps)

lemma seen_no_health: "Health True \<notin> set acts \<Longrightarrow> map cb_seen acts = map Some (map act_verdict acts)"
  by (auto simp: cb_seen_def)

lemma map_Some_suffix: "map Some vs = us @ map Some w \<Longrightarrow> \<exists>u. vs = u @ w"
proof (induction us arbitrary: vs)
  case Nil
  then have "vs = w" by (simp add: map_injective)
  then show ?case by simp
next
  case (Cons x us)
  then obtain v vs' where vs: "vs = v # vs'" "map Some vs' = us @ map Some w" by (cases vs) auto
  from Cons.IH [OF vs(2)] obtain u where "vs' = u @ w" ..
  with vs(1) have "vs = (v # u) @ w" by simp
  then show ?case ..
qed

lemma all_Some: "(\<exists>us. map Some vs = us @ map Some w) \<longleftrightarrow> (\<exists>u. vs = u @ w)"
proof
  assume "\<exists>u. vs = u @ w"
  then obtain u where "map Some vs = map Some u @ map Some w" by auto
  then show "\<exists>us. map Some vs = us @ map Some w" ..
qed (blast dest: map_Some_suffix)

lemma after_last_None:
  "(\<exists>us. ps @ None # map Some vs = us @ map Some w) \<longleftrightarrow> (\<exists>u. vs = u @ w)"
proof
  assume "\<exists>us. ps @ None # map Some vs = us @ map Some w"
  then obtain us where e: "ps @ None # map Some vs = us @ map Some w" ..
  then show "\<exists>u. vs = u @ w"
  proof (induction ps arbitrary: us)
    case Nil
    then obtain us' where "map Some vs = us' @ map Some w" by (cases us; cases w) auto
    then show ?case by (rule map_Some_suffix)
  next
    case (Cons p ps)
    show ?case
    proof (cases us)
      case Nil
      with Cons.prems have "None \<in> set (map Some w)" by (metis append_Nil in_set_conv_decomp append_Cons)
      then show ?thesis by auto
    next
      case (Cons q us')
      with Cons.prems Cons.IH [of us'] show ?thesis by simp
    qed
  qed
next
  assume "\<exists>u. vs = u @ w"
  then obtain u where "vs = u @ w" ..
  then have "ps @ None # map Some vs = (ps @ None # map Some u) @ map Some w" by simp
  then show "\<exists>us. ps @ None # map Some vs = us @ map Some w" ..
qed

lemma fresh_trips:
  assumes "state cb = ClosedState" and "failureCount cb = 0" and "threshold cb = int t"
    and "same_window acts (interval cb)" and "Health True \<notin> set acts"
  shows "isOpen (cb_run acts cb) \<longleftrightarrow> failure_run t (map act_verdict acts)"
proof -
  have "lead t 0 vs \<Longrightarrow> failure_run t vs" for vs by (cases vs) auto
  then show ?thesis using cb_run_trips [OF assms(1,3) _ _ assms(4,5), of 0] assms(2)
    trips_iff [of 0 t "map act_verdict acts"] by auto
qed

section \<open>Properties\<close>

text \<open>
  C4. The breaker trips exactly on a run of failures, and a successful health check of the background
  goroutine forgives all before it. Take a closed breaker whose count is zero and any sequence of
  requests, of calls that end while others run, and of results of the background health checks, in
  which no request comes more than the check interval after the end of a call. At its end the breaker
  is open if and only if, after the last successful health check, more than \<open>threshold\<close> calls failed
  with no success between them; calls abandoned by their own callers and failed health checks neither
  count as failures nor break a run. A call fails if it returns an error or a status above 500.
\<close>

theorem breaker_opens_iff_failure_run:
  assumes "state cb = ClosedState" and "failureCount cb = 0" and "threshold cb = int t"
    and "same_window acts (interval cb)"
  shows "isOpen (cb_run acts cb) \<longleftrightarrow>
    (\<exists>us a b. map cb_seen acts = us @ map Some (a @ b) \<and> Succeeded \<notin> set a \<and> count_list a Failed > t)"
proof (cases "Health True \<in> set acts")
  case False
  have "(\<exists>us. map cb_seen acts = us @ map Some w) \<longleftrightarrow> (\<exists>u. map act_verdict acts = u @ w)" for w
    unfolding seen_no_health [OF False] by (rule all_Some)
  then have "failure_run t (map act_verdict acts) \<longleftrightarrow>
      (\<exists>us a b. map cb_seen acts = us @ map Some (a @ b) \<and> Succeeded \<notin> set a \<and> count_list a Failed > t)"
    unfolding failure_run_def by blast
  with fresh_trips [OF assms(1-4) False] show ?thesis by simp
next
  case True
  then obtain ys zs where acts: "acts = ys @ Health True # zs" and zs: "Health True \<notin> set zs"
    by (meson split_list_last)
  let ?cb = "resetCircuit (cb_run ys cb)"
  have "state ?cb = ClosedState" "failureCount ?cb = 0" "threshold ?cb = int t" "interval ?cb = interval cb"
    using cb_run_keeps [of ys cb] assms(3) by (simp_all add: resetCircuit_def emit_def Let_def)
  moreover have "same_window zs (interval cb)" using assms(4) unfolding acts same_window_def by auto
  moreover have "cb_run acts cb = cb_run zs ?cb" by (simp add: acts cb_run_append health_tick_def)
  ultimately have "isOpen (cb_run acts cb) \<longleftrightarrow> failure_run t (map act_verdict zs)"
    using fresh_trips [of ?cb t zs] zs by simp
  moreover have "map cb_seen acts = map cb_seen ys @ None # map Some (map act_verdict zs)"
    using seen_no_health [OF zs] by (simp add: acts cb_seen_def)
  ultimately show ?thesis using after_last_None [of "map cb_seen ys" "map act_verdict zs"]
    unfolding failure_run_def by (metis (no_types, lifting))
qed

abbreviation demo_call :: "int \<Rightarrow> int \<Rightarrow> cb_action" where
  "demo_call t s \<equiv> Request \<lparr>now_check = t, healthy = False, now_done = t\<rparr> \<lparr>ctxErr = None, ctxCause = None, ctxDeadline = None\<rparr>
     (Some \<lparr>StatusCode = s, RetryAfter = '''', Body = None\<rparr>, None)"

abbreviation demo_acts :: "cb_action list" where
  "demo_acts \<equiv> [demo_call 1 503, demo_call 2 502, Health True, demo_call 3 502, Health False, demo_call 4 504]"

theorem breaker_opens_iff_failure_run_witness:
  "isOpen (cb_run demo_acts (cb_AddOption 1 10 True)) \<and> \<not> isOpen (cb_run (butlast demo_acts) (cb_AddOption 1 10 True)) \<and>
   (\<exists>us a b. [Some Failed, Some Failed, None, Some Failed, Some Ignored, Some Failed] = us @ map Some (a @ b) \<and>
      Succeeded \<notin> set a \<and> count_list a Failed > 1)"
proof -
  have v: "map cb_seen demo_acts = [Some Failed, Some Failed, None, Some Failed, Some Ignored, Some Failed]"
    and o: "isOpen (cb_run demo_acts (cb_AddOption 1 10 True))"
    and n: "\<not> isOpen (cb_run (butlast demo_acts) (cb_AddOption 1 10 True))"
    and c: "state (cb_AddOption 1 10 True) = ClosedState" "failureCount (cb_AddOption 1 10 True) = 0"
      "threshold (cb_AddOption 1 10 True) = int 1" "same_window demo_acts (interval (cb_AddOption 1 10 True))"
    by code_simp+
  from breaker_opens_iff_failure_run [OF c] o n show ?thesis unfolding v by simp
qed

text \<open>The requests an open breaker lets through, and the methods the breaker routes.\<close>

definition passes :: "cb_env \<Rightarrow> circuitBreaker \<Rightarrow> bool" where
  "passes env0 cb \<longleftrightarrow> \<not> isOpen cb \<or> (now_check env0 - lastChecked cb > interval cb \<and> healthy env0)"

definition routed :: "string \<Rightarrow> bool" where
  "routed method \<longleftrightarrow> method \<in> {''GET'', ''POST'', ''PATCH'', ''PUT'', ''DELETE'', ''QUERY''}"

text \<open>
  C15. An open breaker shields the upstream. A request reaches the upstream, exactly once, if and only if
  its method is one of the six the breaker routes and the breaker is closed or, being open, more than
  the check interval has passed and the health check succeeds. Otherwise the answer is
  \<open>ErrCircuitOpen\<close> (or the error for an unsupported method), and while the interval has not passed the
  breaker does not change at all.
\<close>

theorem doRequest_reaches_upstream_iff:
  "count_list (events (snd (doRequest env0 env ctx method f cb))) Upstream =
     count_list (events cb) Upstream + (if passes env0 cb \<and> routed method then 1 else 0) \<and>
   (\<not> passes env0 cb \<longrightarrow> fst (doRequest env0 env ctx method f cb) = (None, Some [ErrCircuitOpen]) \<and>
      isOpen (snd (doRequest env0 env ctx method f cb)) \<and>
      (now_check env0 - lastChecked cb \<le> interval cb \<longrightarrow> snd (doRequest env0 env ctx method f cb) = cb)) \<and>
   (passes env0 cb \<and> \<not> routed method \<longrightarrow>
      fst (doRequest env0 env ctx method f cb) = (None, Some [ErrUnsupportedMethod])) \<and>
   (passes env0 cb \<and> routed method \<and> snd (f method) = None \<longrightarrow>
      fst (doRequest env0 env ctx method f cb) \<in> {(fst (f method), None), (None, Some [ErrCircuitOpen])})"
proof -
  let ?rec = "if isOpen cb then tryCircuitRecovery (now_check env0) (healthy env0) cb else (True, cb)"
  obtain go cb1 where r: "?rec = (go, cb1)" by (rule prod.exhaust)
  have "go = passes env0 cb"
    using r unfolding passes_def
    by (auto simp: tryCircuitRecovery_def recovery_check_def recovery_finish_def isOpen_def emit_def state_cases
        split: if_splits)
  moreover have "count_list (events cb1) Upstream = count_list (events cb) Upstream"
    using r by (auto simp: tryCircuitRecovery_def cb_defs split: if_splits)
  moreover have "go \<Longrightarrow> \<not> isOpen cb1"
    using r by (auto simp: tryCircuitRecovery_def cb_defs isOpen_def state_cases split: if_splits)
  moreover have "\<not> go \<Longrightarrow> isOpen cb1 \<and>
      (now_check env0 - lastChecked cb \<le> interval cb \<longrightarrow> cb1 = cb)"
    using r by (auto simp: tryCircuitRecovery_def cb_defs isOpen_def state_cases split: if_splits)
  moreover obtain o2 cb2 where e: "executeWithCircuitBreaker env ctx (f method) cb1 = (o2, cb2)"
    by (rule prod.exhaust)
  moreover have "count_list (events cb2) Upstream = count_list (events cb1) Upstream + 1" if "\<not> isOpen cb1"
    using that e
    by (cases "f method"; cases "fst (f method)")
      (auto simp: executeWithCircuitBreaker_def cb_defs isOpen_def split: if_splits)
  moreover have "snd (f method) = None \<Longrightarrow>
      handleCircuitBreakerResult o2 \<in> {(fst (f method), None), (None, Some [ErrCircuitOpen])}"
    using e
    by (cases "f method") (auto simp: executeWithCircuitBreaker_def canceledByCaller_def account_def
        handleCircuitBreakerResult_def Let_def split: prod.splits if_splits option.splits)
  moreover have "doRequest env0 env ctx method f cb =
      (if \<not> go then ((None, Some [ErrCircuitOpen]), cb1)
       else if routed method then (handleCircuitBreakerResult o2, cb2)
       else ((None, Some [ErrUnsupportedMethod]), cb1))"
    unfolding doRequest_def r e routed_def [symmetric] by (simp add: e)
  ultimately show ?thesis by (cases "passes env0 cb"; cases "routed method") simp_all
qed

theorem doRequest_reaches_upstream_iff_witness:
  "let cb = (cb_AddOption 0 10 True)\<lparr>state := OpenState, lastChecked := 100\<rparr>;
       env = \<lparr>now_check = 105, healthy = True, now_done = 106\<rparr>;
       ctx = \<lparr>ctxErr = None, ctxCause = None, ctxDeadline = None\<rparr>
   in doRequest env env ctx ''GET'' (\<lambda>m. (None, None)) cb = ((None, Some [ErrCircuitOpen]), cb)"
proof -
  let ?cb = "(cb_AddOption 0 10 True)\<lparr>state := OpenState, lastChecked := 100\<rparr>"
  let ?env = "\<lparr>now_check = 105, healthy = True, now_done = 106\<rparr>"
  have "\<not> passes ?env ?cb" and "now_check ?env - lastChecked ?cb \<le> interval ?cb" by code_simp+
  with doRequest_reaches_upstream_iff [of ?env ?env _ "''GET''" "\<lambda>m. (None, None)" ?cb]
  show ?thesis unfolding Let_def by (metis prod.collapse)
qed

text \<open>
  The metrics tell the truth under any interleaving. However the locked sections of concurrent
  requests and of the health-check goroutine interleave, a closed breaker never holds more failures
  than its threshold; when metrics are attached, the gauge shows 1 exactly while the breaker is open,
  and the counter of openings equals the number of times the gauge went from 0 to 1, so a burst of
  concurrent failures is counted as one opening.
\<close>

lemma breaker_metrics_match_state:
  assumes "reachable cb_init cb_step cb"
  shows "(state cb = ClosedState \<longrightarrow> failureCount cb \<le> threshold cb) \<and>
    (hasMetrics cb \<longrightarrow> fst (observe (events cb)) = (if isOpen cb then 1 else 0) \<and>
       count_list (events cb) OpenCount = snd (observe (events cb)))"
  using breaker.reachable_inv [OF assms] by (simp add: cb_inv_def isOpen_def)

lemma breaker_metrics_match_state_witness:
  "let fail = account 5 (None, Some [ErrApp ''refused'']);
       cb = snd (fail (snd (fail (cb_AddOption 0 10 True))))
   in isOpen cb \<and> count_list (events cb) OpenCount = 1 \<and> observe (events cb) = (1, 1)"
proof -
  let ?fail = "account 5 (None, Some [ErrApp ''refused''])"
  let ?cb = "snd (?fail (snd (?fail (cb_AddOption 0 10 True))))"
  have "reachable cb_init cb_step (cb_AddOption 0 10 True)"
    by (rule reachable_init) (auto simp: cb_init_def)
  then have "reachable cb_init cb_step ?cb" by (blast intro: reachable_step step_account)
  then have inv: "hasMetrics ?cb \<longrightarrow> fst (observe (events ?cb)) = (if isOpen ?cb then 1 else 0) \<and>
      count_list (events ?cb) OpenCount = snd (observe (events ?cb))"
    using breaker_metrics_match_state by blast
  have "isOpen ?cb" "hasMetrics ?cb" "count_list (events ?cb) OpenCount = 1" by code_simp+
  with inv show ?thesis unfolding Let_def by (metis prod.collapse)
qed

end
