(* ===== verification/Retry_Budget.thy ===== *)
theory Retry_Budget
  imports Go_Prelude Complex_Main
begin

text \<open>
  The retry budget of \<^verbatim>\<open>pkg/gofr/service/retry_budget.go\<close>: a ring of one-second slots that counts
  first attempts and retries over the last seconds. Times are nanoseconds of the monotonic clock. The
  floating-point numbers of the code are rational numbers here, a configured NaN is \<open>None\<close>; the
  rounding of their arithmetic is not modelled.

  The lemmas show that the ring, with its slots reused and cleared on the way, implements a sliding
  window over the complete history of the budget.
\<close>

section \<open>The state\<close>

abbreviation Second :: int where
  "Second \<equiv> 1000000000"

record RetryBudget =
  Ratio :: "rat option"
  MinPerSecond :: int
  TTL :: int

record budgetSlot =
  second :: int
  deposits :: int
  withdrawals :: int

record retryBudget =
  ratio :: rat
  budget_floor :: rat
  slots :: "budgetSlot list"
  start :: int

definition defaultRetryBudgetTTL :: int where
  "defaultRetryBudgetTTL = 10 * Second"

text \<open>The number of slots: the seconds of the TTL, rounded up, at least one.\<close>

definition budget_seconds :: "int \<Rightarrow> int" where
  "budget_seconds ttl0 =
     (let ttl = (if ttl0 \<le> 0 then defaultRetryBudgetTTL else ttl0)
      in max ((ttl + Second - 1) div Second) 1)"

definition newRetryBudget :: "RetryBudget \<Rightarrow> int \<Rightarrow> retryBudget" where
  "newRetryBudget cfg now =
     (let seconds = budget_seconds (TTL cfg);
          r0 = (case Ratio cfg of Some q \<Rightarrow> if q > 0 then q else 0 | None \<Rightarrow> 0);
          m0 = max (MinPerSecond cfg) 0;
          (r, m) = (if r0 = 0 \<and> m0 = 0 then (1 / 5, 10) else (r0, m0))
      in \<lparr>ratio = r, budget_floor = of_int (wrap64 (m * seconds)),
          slots = replicate (nat seconds) \<lparr>second = 0, deposits = 0, withdrawals = 0\<rparr>, start = now\<rparr>)"

section \<open>Operations\<close>

abbreviation nslots :: "retryBudget \<Rightarrow> int" where
  "nslots b \<equiv> int (length (slots b))"

definition sec_of :: "int \<Rightarrow> retryBudget \<Rightarrow> int" where
  "sec_of now b = (now - start b) div Second"

definition slot_ix :: "int \<Rightarrow> retryBudget \<Rightarrow> nat" where
  "slot_ix sec b = nat (sec mod nslots b)"

text \<open>\<^verbatim>\<open>current\<close> returns the slot by its second; the slot itself is \<open>slots b ! slot_ix sec b\<close>.\<close>

definition current :: "int \<Rightarrow> retryBudget \<Rightarrow> int \<times> retryBudget" where
  "current now b =
     (let sec = sec_of now b; i = slot_ix sec b in
      if second (slots b ! i) \<noteq> sec
      then (sec, b\<lparr>slots := (slots b)[i := \<lparr>second = sec, deposits = 0, withdrawals = 0\<rparr>]\<rparr>)
      else (sec, b))"

definition update_slot :: "int \<Rightarrow> (budgetSlot \<Rightarrow> budgetSlot) \<Rightarrow> retryBudget \<Rightarrow> retryBudget" where
  "update_slot sec f b = b\<lparr>slots := (slots b)[slot_ix sec b := f (slots b ! slot_ix sec b)]\<rparr>"

fun room_loop :: "int \<Rightarrow> int \<Rightarrow> budgetSlot list \<Rightarrow> int \<Rightarrow> int \<Rightarrow> int \<times> int" where
  "room_loop sec n [] d w = (d, w)"
| "room_loop sec n (s # ss) d w =
     (if sec - second s < n then room_loop sec n ss (d + deposits s) (w + withdrawals s)
      else room_loop sec n ss d w)"

definition hasRoom :: "int \<Rightarrow> retryBudget \<Rightarrow> bool" where
  "hasRoom sec b =
     (case room_loop sec (nslots b) (slots b) 0 0 of
        (d, w) \<Rightarrow> of_int (w + 1) \<le> ratio b * of_int d + budget_floor b)"

definition deposit :: "int \<Rightarrow> retryBudget \<Rightarrow> retryBudget" where
  "deposit now b = (let (sec, b1) = current now b in update_slot sec (\<lambda>s. s\<lparr>deposits := deposits s + 1\<rparr>) b1)"

definition allows :: "int \<Rightarrow> retryBudget \<Rightarrow> bool \<times> retryBudget" where
  "allows now b = (let (sec, b1) = current now b in (hasRoom sec b1, b1))"

definition tryWithdraw :: "int \<Rightarrow> retryBudget \<Rightarrow> int option \<times> retryBudget" where
  "tryWithdraw now b =
     (let (sec, b1) = current now b in
      if \<not> hasRoom sec b1 then (None, b1)
      else (Some sec, update_slot sec (\<lambda>s. s\<lparr>withdrawals := withdrawals s + 1\<rparr>) b1))"

definition refund :: "int \<Rightarrow> retryBudget \<Rightarrow> retryBudget" where
  "refund sec b =
     (let s = slots b ! slot_ix sec b in
      if second s = sec \<and> withdrawals s > 0
      then update_slot sec (\<lambda>s. s\<lparr>withdrawals := withdrawals s - 1\<rparr>) b
      else b)"

section \<open>The specification: a sliding window over the whole history\<close>

text \<open>The abstract budget keeps, for every second since its creation, the number of first attempts and
  of retries. A retry is allowed if it fits the counts of the last \<open>n\<close> seconds.\<close>

record window =
  firsts :: "int \<Rightarrow> int"
  retries :: "int \<Rightarrow> int"

definition in_window :: "int \<Rightarrow> int \<Rightarrow> int set" where
  "in_window n t = {t - n <.. t}"

definition fits :: "rat \<Rightarrow> rat \<Rightarrow> int \<Rightarrow> int \<Rightarrow> window \<Rightarrow> bool" where
  "fits r f n t A \<longleftrightarrow>
     of_int ((\<Sum>s \<in> in_window n t. retries A s) + 1) \<le> r * of_int (\<Sum>s \<in> in_window n t. firsts A s) + f"

text \<open>Slot \<open>i\<close> stands for the one second of the window that is \<open>i\<close> modulo the length, if it carries that
  second; what it last held is older otherwise, or it has never been used.\<close>

definition slot_ok :: "int \<Rightarrow> int \<Rightarrow> window \<Rightarrow> int \<Rightarrow> budgetSlot \<Rightarrow> bool" where
  "slot_ok n t A i s \<longleftrightarrow>
     second s \<le> t \<and> (second s mod n = i \<or> deposits s = 0 \<and> withdrawals s = 0) \<and>
     (\<forall>u \<in> in_window n t. u mod n = i \<longrightarrow>
        (if second s = u then firsts A u = deposits s \<and> retries A u = withdrawals s
         else firsts A u = 0 \<and> retries A u = 0))"

definition rep :: "retryBudget \<Rightarrow> int \<Rightarrow> window \<Rightarrow> bool" where
  "rep b t A \<longleftrightarrow> slots b \<noteq> [] \<and> 0 \<le> t \<and> (\<forall>u > t. firsts A u = 0 \<and> retries A u = 0) \<and>
     (\<forall>i < length (slots b). slot_ok (nslots b) t A (int i) (slots b ! i))"

section \<open>Lemmas: the window\<close>

lemma window_unique:
  assumes "u \<in> in_window n t" "v \<in> in_window n t" "u mod n = v mod n"
  shows "u = v"
proof (rule ccontr)
  assume "u \<noteq> v"
  have "n dvd u - v" using assms(3) by (simp add: mod_eq_dvd_iff)
  then have "\<bar>n\<bar> \<le> \<bar>u - v\<bar>" using \<open>u \<noteq> v\<close> by (intro dvd_imp_le_int) auto
  with assms(1,2) show False by (auto simp: in_window_def)
qed

lemma window_bij:
  assumes "0 < n"
  shows "bij_betw (\<lambda>u. nat (u mod n)) (in_window n t) {..<nat n}"
proof -
  have inj: "inj_on (\<lambda>u. nat (u mod n)) (in_window n t)"
    using assms window_unique by (intro inj_onI) (metis nat_eq_iff2 pos_mod_sign)
  have "(\<lambda>u. nat (u mod n)) ` in_window n t \<subseteq> {..<nat n}" using assms by (auto simp: nat_less_iff)
  moreover have "card ((\<lambda>u. nat (u mod n)) ` in_window n t) = nat n"
    using inj by (subst card_image) (simp_all add: in_window_def)
  ultimately have "(\<lambda>u. nat (u mod n)) ` in_window n t = {..<nat n}"
    by (intro card_subset_eq) auto
  with inj show ?thesis by (simp add: bij_betw_def)
qed

lemma room_loop_sum:
  "room_loop sec n ss d w =
     (d + (\<Sum>i < length ss. if sec - second (ss ! i) < n then deposits (ss ! i) else 0),
      w + (\<Sum>i < length ss. if sec - second (ss ! i) < n then withdrawals (ss ! i) else 0))"
  by (induction ss arbitrary: d w) (simp_all add: sum.lessThan_Suc_shift del: sum.lessThan_Suc cong: if_cong)

lemma slot_term:
  assumes "slot_ok n t A (u mod n) s" "u \<in> in_window n t"
  shows "(if t - second s < n then deposits s else 0) = firsts A u"
    and "(if t - second s < n then withdrawals s else 0) = retries A u"
proof -
  have "second s = u \<or> \<not> t - second s < n \<or> deposits s = 0 \<and> withdrawals s = 0"
    using assms window_unique [of "second s" n t u] by (auto simp: slot_ok_def in_window_def)
  moreover have "t - u < n" using assms(2) by (simp add: in_window_def)
  moreover have "if second s = u then firsts A u = deposits s \<and> retries A u = withdrawals s
      else firsts A u = 0 \<and> retries A u = 0"
    using assms by (simp add: slot_ok_def)
  ultimately show "(if t - second s < n then deposits s else 0) = firsts A u"
    and "(if t - second s < n then withdrawals s else 0) = retries A u"
    by (auto split: if_splits)
qed

lemma rep_room:
  assumes "rep b t A"
  shows "hasRoom t b \<longleftrightarrow> fits (ratio b) (budget_floor b) (nslots b) t A"
proof -
  let ?n = "nslots b" and ?s = "\<lambda>u. slots b ! nat (u mod nslots b)"
  have n: "0 < ?n" using assms by (simp add: rep_def)
  have ok: "slot_ok ?n t A (u mod ?n) (?s u)" if "u \<in> in_window ?n t" for u
  proof -
    have "nat (u mod ?n) < length (slots b)" "int (nat (u mod ?n)) = u mod ?n" using n by (simp_all add: nat_less_iff)
    with assms show ?thesis unfolding rep_def by metis
  qed
  have re: "(\<Sum>i < length (slots b). F (slots b ! i)) = (\<Sum>u \<in> in_window ?n t. F (?s u))" for F :: "budgetSlot \<Rightarrow> int"
    using sum.reindex_bij_betw [OF window_bij [OF n, of t], of "\<lambda>i. F (slots b ! i)"] by simp
  have "(\<Sum>u \<in> in_window ?n t. if t - second (?s u) < ?n then deposits (?s u) else 0) =
      (\<Sum>u \<in> in_window ?n t. firsts A u)" by (intro sum.cong refl slot_term(1) ok)
  moreover have "(\<Sum>u \<in> in_window ?n t. if t - second (?s u) < ?n then withdrawals (?s u) else 0) =
      (\<Sum>u \<in> in_window ?n t. retries A u)" by (intro sum.cong refl slot_term(2) ok)
  ultimately have "room_loop t ?n (slots b) 0 0 =
      (\<Sum>u \<in> in_window ?n t. firsts A u, \<Sum>u \<in> in_window ?n t. retries A u)"
    unfolding room_loop_sum
    using re [of "\<lambda>s. if t - second s < ?n then deposits s else 0"]
      re [of "\<lambda>s. if t - second s < ?n then withdrawals s else 0"] by simp
  then show ?thesis unfolding hasRoom_def fits_def by simp
qed

section \<open>Lemmas: the operations on the window\<close>

lemma slot_ok_later: "slot_ok n t A i s \<Longrightarrow> t \<le> t' \<Longrightarrow> \<forall>u > t. firsts A u = 0 \<and> retries A u = 0 \<Longrightarrow> slot_ok n t' A i s"
  unfolding slot_ok_def in_window_def
  by (smt (verit) greaterThanAtMost_iff)

lemma rep_later: "rep b t A \<Longrightarrow> t \<le> t' \<Longrightarrow> rep b t' A"
  unfolding rep_def by (meson order.trans order_le_less_trans slot_ok_later)

lemma slot_ix_less: "slots b \<noteq> [] \<Longrightarrow> slot_ix sec b < length (slots b)"
  by (simp add: slot_ix_def nat_less_iff)

lemma slot_ix_int: "slots b \<noteq> [] \<Longrightarrow> int (slot_ix sec b) = sec mod nslots b"
  by (simp add: slot_ix_def)

text \<open>Changing the slot of the second \<open>t\<close>, and the window with it, keeps the representation.\<close>

lemma rep_update:
  assumes "rep b t A" and "second s' = t"
    and "firsts A' t = deposits s'" and "retries A' t = withdrawals s'"
    and "\<And>u. u \<noteq> t \<Longrightarrow> firsts A' u = firsts A u \<and> retries A' u = retries A u"
  shows "rep (b\<lparr>slots := (slots b)[slot_ix t b := s']\<rparr>) t A'"
proof -
  let ?n = "nslots b" and ?i = "slot_ix t b"
  have ne: "slots b \<noteq> []" and n: "0 < ?n" using assms(1) by (auto simp: rep_def)
  have "slot_ok ?n t A' (int i) ((slots b)[?i := s'] ! i)" if i: "i < length (slots b)" for i
  proof (cases "i = ?i")
    case True
    have t: "t \<in> in_window ?n t" using n by (simp add: in_window_def)
    have im: "int ?i = t mod ?n" using ne by (rule slot_ix_int)
    have "u = t" if "u \<in> in_window ?n t" "u mod ?n = t mod ?n" for u
      using that(1) t that(2) by (rule window_unique)
    then have "slot_ok ?n t A' (t mod ?n) s'" using assms(2-4) unfolding slot_ok_def by auto
    then show ?thesis using True i im by simp
  next
    case False
    have "u \<noteq> t" if "u mod ?n = int i" for u using that False slot_ix_int [OF ne, of t] by auto
    moreover have "slot_ok ?n t A (int i) (slots b ! i)" using assms(1) i by (simp add: rep_def)
    ultimately show ?thesis using assms(5) False by (auto simp: slot_ok_def)
  qed
  with assms(1,5) show ?thesis by (auto simp: rep_def)
qed

lemma rep_current:
  assumes "rep b t A" and "t \<le> sec_of now b" and "current now b = (sec, b')"
  shows "sec = sec_of now b \<and> rep b' sec A \<and> second (slots b' ! slot_ix sec b') = sec \<and>
    deposits (slots b' ! slot_ix sec b') = firsts A sec \<and> withdrawals (slots b' ! slot_ix sec b') = retries A sec \<and>
    length (slots b') = length (slots b) \<and> ratio b' = ratio b \<and> budget_floor b' = budget_floor b \<and> start b' = start b"
proof -
  have sec: "sec = sec_of now b" using assms(3) by (auto simp: current_def Let_def split: if_splits)
  have r: "rep b sec A" using rep_later [OF assms(1,2)] sec by simp
  then have ne: "slots b \<noteq> []" by (simp add: rep_def)
  have ok: "slot_ok (nslots b) sec A (sec mod nslots b) (slots b ! slot_ix sec b)"
    using r slot_ix_less [OF ne, of sec] slot_ix_int [OF ne, of sec] unfolding rep_def by metis
  have "sec \<in> in_window (nslots b) sec" using ne by (simp add: in_window_def)
  with ok have "if second (slots b ! slot_ix sec b) = sec
      then firsts A sec = deposits (slots b ! slot_ix sec b) \<and> retries A sec = withdrawals (slots b ! slot_ix sec b)
      else firsts A sec = 0 \<and> retries A sec = 0" by (simp add: slot_ok_def)
  with r assms(3) sec ne show ?thesis
    using rep_update [OF r, of "\<lparr>second = sec, deposits = 0, withdrawals = 0\<rparr>" A]
    by (auto simp: current_def Let_def slot_ix_def nat_less_iff split: if_splits)
qed

definition add_first :: "int \<Rightarrow> window \<Rightarrow> window" where
  "add_first t A = A\<lparr>firsts := (firsts A)(t := firsts A t + 1)\<rparr>"

definition add_retry :: "int \<Rightarrow> int \<Rightarrow> window \<Rightarrow> window" where
  "add_retry k t A = A\<lparr>retries := (retries A)(t := retries A t + k)\<rparr>"

definition same_shape :: "retryBudget \<Rightarrow> retryBudget \<Rightarrow> bool" where
  "same_shape b b' \<longleftrightarrow> length (slots b') = length (slots b) \<and> ratio b' = ratio b \<and>
     budget_floor b' = budget_floor b \<and> start b' = start b"

lemma rep_update_slot:
  assumes "rep b t A" and "second (f (slots b ! slot_ix t b)) = t"
    and "firsts A' t = deposits (f (slots b ! slot_ix t b))" and "retries A' t = withdrawals (f (slots b ! slot_ix t b))"
    and "\<And>u. u \<noteq> t \<Longrightarrow> firsts A' u = firsts A u \<and> retries A' u = retries A u"
  shows "rep (update_slot t f b) t A' \<and> same_shape b (update_slot t f b)"
  using rep_update [OF assms] by (simp add: update_slot_def same_shape_def)

lemma deposit_rep:
  assumes "rep b t A" and "t \<le> sec_of now b"
  shows "rep (deposit now b) (sec_of now b) (add_first (sec_of now b) A) \<and> same_shape b (deposit now b)"
proof -
  obtain sec b1 where c: "current now b = (sec, b1)" by (rule prod.exhaust)
  note r = rep_current [OF assms c]
  then have "rep (update_slot sec (\<lambda>s. s\<lparr>deposits := deposits s + 1\<rparr>) b1) sec (add_first sec A) \<and>
      same_shape b1 (update_slot sec (\<lambda>s. s\<lparr>deposits := deposits s + 1\<rparr>) b1)"
    by (intro rep_update_slot) (auto simp: add_first_def)
  with r c show ?thesis by (auto simp: deposit_def same_shape_def)
qed

lemma allows_rep:
  assumes "rep b t A" and "t \<le> sec_of now b"
  shows "fst (allows now b) = fits (ratio b) (budget_floor b) (nslots b) (sec_of now b) A \<and>
    rep (snd (allows now b)) (sec_of now b) A \<and> same_shape b (snd (allows now b))"
proof -
  obtain sec b1 where c: "current now b = (sec, b1)" by (rule prod.exhaust)
  note r = rep_current [OF assms c]
  with rep_room [of b1 sec A] c show ?thesis by (auto simp: allows_def same_shape_def)
qed

lemma tryWithdraw_rep:
  assumes "rep b t A" and "t \<le> sec_of now b"
  shows "if fits (ratio b) (budget_floor b) (nslots b) (sec_of now b) A
    then fst (tryWithdraw now b) = Some (sec_of now b) \<and>
      rep (snd (tryWithdraw now b)) (sec_of now b) (add_retry 1 (sec_of now b) A) \<and> same_shape b (snd (tryWithdraw now b))
    else fst (tryWithdraw now b) = None \<and>
      rep (snd (tryWithdraw now b)) (sec_of now b) A \<and> same_shape b (snd (tryWithdraw now b))"
proof -
  obtain sec b1 where c: "current now b = (sec, b1)" by (rule prod.exhaust)
  note r = rep_current [OF assms c]
  then have "rep (update_slot sec (\<lambda>s. s\<lparr>withdrawals := withdrawals s + 1\<rparr>) b1) sec (add_retry 1 sec A) \<and>
      same_shape b1 (update_slot sec (\<lambda>s. s\<lparr>withdrawals := withdrawals s + 1\<rparr>) b1)"
    by (intro rep_update_slot) (auto simp: add_retry_def)
  with r rep_room [of b1 sec A] c show ?thesis by (auto simp: tryWithdraw_def same_shape_def)
qed

text \<open>A refund counts only while its second is in the window and has a retry left to take back.\<close>

definition take_back :: "int \<Rightarrow> int \<Rightarrow> int \<Rightarrow> window \<Rightarrow> window" where
  "take_back n t s A = (if s \<in> in_window n t \<and> retries A s > 0 then add_retry (- 1) s A else A)"

lemma slot_ok_refund:
  assumes "slot_ok n t A (s mod n) x" and "second x = s" and "withdrawals x > 0"
  shows "slot_ok n t (take_back n t s A) (s mod n) (x\<lparr>withdrawals := withdrawals x - 1\<rparr>)"
proof (cases "s \<in> in_window n t")
  case True
  have "u = s" if "u \<in> in_window n t" "u mod n = s mod n" for u
    using that(1) True that(2) by (rule window_unique)
  moreover have "retries A s = withdrawals x \<and> firsts A s = deposits x"
    using assms(1,2) True by (auto simp: slot_ok_def)
  ultimately show ?thesis
    using assms True by (auto simp: slot_ok_def take_back_def add_retry_def)
next
  case False
  then show ?thesis using assms by (auto simp: slot_ok_def take_back_def)
qed

lemma slot_ok_other: "slot_ok n t A i x \<Longrightarrow> s mod n \<noteq> i \<Longrightarrow> slot_ok n t (take_back n t s A) i x"
  by (auto simp: slot_ok_def take_back_def add_retry_def)

lemma refund_rep:
  assumes "rep b t A"
  shows "rep (refund s b) t (take_back (nslots b) t s A) \<and> same_shape b (refund s b)"
proof -
  let ?n = "nslots b" and ?i = "slot_ix s b"
  have ne: "slots b \<noteq> []" and fut: "\<forall>u > t. firsts A u = 0 \<and> retries A u = 0" and "0 \<le> t"
    using assms by (auto simp: rep_def)
  have ok: "slot_ok ?n t A (s mod ?n) (slots b ! ?i)"
    using assms slot_ix_less [OF ne, of s] slot_ix_int [OF ne, of s] unfolding rep_def by metis
  have fut': "\<forall>u > t. firsts (take_back ?n t s A) u = 0 \<and> retries (take_back ?n t s A) u = 0"
    using fut by (auto simp: take_back_def add_retry_def in_window_def)
  show ?thesis
  proof (cases "second (slots b ! ?i) = s \<and> withdrawals (slots b ! ?i) > 0")
    case True
    let ?x = "(slots b ! ?i)\<lparr>withdrawals := withdrawals (slots b ! ?i) - 1\<rparr>"
    have "slot_ok ?n t (take_back ?n t s A) (int j) ((slots b)[?i := ?x] ! j)" if j: "j < length (slots b)" for j
    proof (cases "j = ?i")
      case True
      with slot_ok_refund [OF ok] \<open>second (slots b ! ?i) = s \<and> withdrawals (slots b ! ?i) > 0\<close> j
      show ?thesis by (simp add: slot_ix_int [OF ne])
    next
      case False
      then have "s mod ?n \<noteq> int j" using slot_ix_int [OF ne, of s] by auto
      with slot_ok_other assms j False show ?thesis by (auto simp: rep_def)
    qed
    with True ne fut' \<open>0 \<le> t\<close> show ?thesis
      by (auto simp: refund_def update_slot_def rep_def same_shape_def Let_def)
  next
    case False
    have "take_back ?n t s A = A"
      using ok False by (auto simp: take_back_def slot_ok_def split: if_splits)
    with False assms show ?thesis by (auto simp: refund_def same_shape_def Let_def)
  qed
qed

lemma rep_new: "rep (newRetryBudget cfg now) 0 \<lparr>firsts = \<lambda>_. 0, retries = \<lambda>_. 0\<rparr>"
proof -
  have "slots (newRetryBudget cfg now) =
      replicate (nat (budget_seconds (TTL cfg))) \<lparr>second = 0, deposits = 0, withdrawals = 0\<rparr>"
    by (simp add: newRetryBudget_def Let_def split: prod.splits)
  moreover have "0 < budget_seconds (TTL cfg)" by (simp add: budget_seconds_def Let_def max_def)
  ultimately show ?thesis by (simp add: rep_def slot_ok_def)
qed

section \<open>Sequences of operations\<close>

datatype budget_op = ODeposit int | OAllows int | OWithdraw int | ORefund int

datatype budget_res = Done | Allowed bool | Withdrawn "int option"

fun budget_step :: "budget_op \<Rightarrow> retryBudget \<Rightarrow> budget_res \<times> retryBudget" where
  "budget_step (ODeposit now) b = (Done, deposit now b)"
| "budget_step (OAllows now) b = map_prod Allowed id (allows now b)"
| "budget_step (OWithdraw now) b = map_prod Withdrawn id (tryWithdraw now b)"
| "budget_step (ORefund sec) b = (Done, refund sec b)"

fun budget_run :: "budget_op list \<Rightarrow> retryBudget \<Rightarrow> budget_res list" where
  "budget_run [] b = []"
| "budget_run (op # ops) b = (let (r, b1) = budget_step op b in r # budget_run ops b1)"

text \<open>The same operations on the history, for a budget with the parameters of \<open>b\<close>.\<close>

fun window_step :: "retryBudget \<Rightarrow> budget_op \<Rightarrow> int \<times> window \<Rightarrow> budget_res \<times> int \<times> window" where
  "window_step b (ODeposit now) (t, A) = (Done, sec_of now b, add_first (sec_of now b) A)"
| "window_step b (OAllows now) (t, A) =
     (Allowed (fits (ratio b) (budget_floor b) (nslots b) (sec_of now b) A), sec_of now b, A)"
| "window_step b (OWithdraw now) (t, A) =
     (if fits (ratio b) (budget_floor b) (nslots b) (sec_of now b) A
      then (Withdrawn (Some (sec_of now b)), sec_of now b, add_retry 1 (sec_of now b) A)
      else (Withdrawn None, sec_of now b, A))"
| "window_step b (ORefund sec) (t, A) = (Done, t, take_back (nslots b) t sec A)"

fun window_run :: "retryBudget \<Rightarrow> budget_op list \<Rightarrow> int \<times> window \<Rightarrow> budget_res list" where
  "window_run b [] st = []"
| "window_run b (op # ops) st = (let (r, st1) = window_step b op st in r # window_run b ops st1)"

text \<open>The clock never runs backwards, and a refund does not read it.\<close>

fun clocked :: "retryBudget \<Rightarrow> int \<Rightarrow> budget_op list \<Rightarrow> bool" where
  "clocked b t [] = True"
| "clocked b t (ODeposit now # ops) = (t \<le> sec_of now b \<and> clocked b (sec_of now b) ops)"
| "clocked b t (OAllows now # ops) = (t \<le> sec_of now b \<and> clocked b (sec_of now b) ops)"
| "clocked b t (OWithdraw now # ops) = (t \<le> sec_of now b \<and> clocked b (sec_of now b) ops)"
| "clocked b t (ORefund sec # ops) = clocked b t ops"

lemma same_shape_run:
  assumes "same_shape b b'"
  shows "window_run b' ops st = window_run b ops st" and "clocked b' t ops = clocked b t ops"
proof -
  have sec: "sec_of now b' = sec_of now b" for now using assms by (simp add: sec_of_def same_shape_def)
  have "window_step b' op st = window_step b op st" for op st
    using assms sec by (cases "(b, op, st)" rule: window_step.cases) (auto simp: same_shape_def)
  then show "window_run b' ops st = window_run b ops st"
    by (induction ops arbitrary: st) (auto split: prod.splits)
  show "clocked b' t ops = clocked b t ops"
  proof (induction ops arbitrary: t)
    case (Cons op ops)
    then show ?case by (cases op) (auto simp: sec)
  qed simp
qed

lemma budget_step_rep:
  assumes "rep b t A" and "clocked b t [op]"
  shows "\<exists>b' t' A'. budget_step op b = (fst (window_step b op (t, A)), b') \<and>
    snd (window_step b op (t, A)) = (t', A') \<and> rep b' t' A' \<and> same_shape b b'"
proof (cases op)
  case (ODeposit now)
  with assms deposit_rep [OF assms(1), of now] show ?thesis by simp
next
  case (OAllows now)
  with assms allows_rep [OF assms(1), of now] show ?thesis
    by (cases "allows now b") simp
next
  case (OWithdraw now)
  with assms tryWithdraw_rep [OF assms(1), of now] show ?thesis
    by (cases "tryWithdraw now b") (simp split: if_splits)
next
  case (ORefund sec)
  with refund_rep [OF assms(1), of sec] show ?thesis by simp
qed

lemma budget_run_rep: "rep b t A \<Longrightarrow> clocked b t ops \<Longrightarrow> budget_run ops b = window_run b ops (t, A)"
proof (induction ops arbitrary: b t A)
  case (Cons op ops)
  have c: "clocked b t [op]" "clocked b (fst (snd (window_step b op (t, A)))) ops"
    using Cons.prems(2) by (cases op; simp)+
  obtain b' t' A' where s: "budget_step op b = (fst (window_step b op (t, A)), b')"
    "snd (window_step b op (t, A)) = (t', A')" "rep b' t' A'" "same_shape b b'"
    using budget_step_rep [OF Cons.prems(1) c(1)] by blast
  with c(2) Cons.IH [OF s(3)] same_shape_run [OF s(4)] show ?case
    by (cases "window_step b op (t, A)") simp
qed simp

definition budget_after :: "budget_op list \<Rightarrow> retryBudget \<Rightarrow> retryBudget" where
  "budget_after ops b = fold (\<lambda>op b. snd (budget_step op b)) ops b"

lemma window_step_nonneg:
  "\<forall>u. 0 \<le> retries A u \<Longrightarrow> \<forall>u. 0 \<le> retries (snd (snd (window_step b op (t, A)))) u"
  by (cases op) (auto simp: add_first_def add_retry_def take_back_def)

lemma budget_after_rep:
  assumes "rep b t A" and "\<forall>u. 0 \<le> retries A u" and "clocked b t (ops @ ops')"
  shows "\<exists>t' A'. rep (budget_after ops b) t' A' \<and> (\<forall>u. 0 \<le> retries A' u) \<and> clocked (budget_after ops b) t' ops'"
  using assms
proof (induction ops arbitrary: b t A)
  case Nil
  then show ?case by (auto simp: budget_after_def)
next
  case (Cons op ops)
  have c: "clocked b t [op]" "clocked b (fst (snd (window_step b op (t, A)))) (ops @ ops')"
    using Cons.prems(3) by (cases op; simp)+
  obtain b' t' A' where s: "budget_step op b = (fst (window_step b op (t, A)), b')"
    "snd (window_step b op (t, A)) = (t', A')" "rep b' t' A'" "same_shape b b'"
    using budget_step_rep [OF Cons.prems(1) c(1)] by blast
  have "\<forall>u. 0 \<le> retries A' u" using window_step_nonneg [OF Cons.prems(2), of b op t] s(2) by simp
  moreover have "clocked b' t' (ops @ ops')" using c(2) s(2) same_shape_run(2) [OF s(4)] by simp
  ultimately show ?case using Cons.IH [OF s(3)] s(1) by (simp add: budget_after_def)
qed

lemma take_back_add: "0 < n \<Longrightarrow> 0 \<le> retries A t \<Longrightarrow> take_back n t t (add_retry 1 t A) = A"
  by (simp add: take_back_def add_retry_def in_window_def)

section \<open>Properties\<close>

text \<open>
  C9. The budget is a sliding window. For every configuration and every sequence of first attempts,
  queries, withdrawals and refunds along a clock that does not run backwards, the ring of reused slots
  returns what a budget with a complete history would: a retry is granted exactly if the retries of
  the last TTL seconds, itself included, are at most the ratio of the first attempts of those seconds
  plus the floor, and a refund takes effect while its second is still in the window.
\<close>

theorem budget_is_sliding_window:
  assumes "clocked (newRetryBudget cfg now0) 0 ops"
  shows "budget_run ops (newRetryBudget cfg now0) =
    window_run (newRetryBudget cfg now0) ops (0, \<lparr>firsts = \<lambda>_. 0, retries = \<lambda>_. 0\<rparr>)"
  using rep_new assms by (rule budget_run_rep)

definition demo_budget :: retryBudget where
  "demo_budget = newRetryBudget \<lparr>Ratio = Some (1 / 2), MinPerSecond = 0, TTL = 2 * Second\<rparr> 0"

theorem budget_is_sliding_window_witness:
  "budget_run [ODeposit 1, ODeposit 2, OWithdraw 3, OWithdraw 4, OAllows (2 * Second)] demo_budget =
     [Done, Done, Withdrawn (Some 0), Withdrawn None, Allowed False] \<and>
   window_run demo_budget [ODeposit 1, ODeposit 2, OWithdraw 3, OWithdraw 4, OAllows (2 * Second)]
     (0, \<lparr>firsts = \<lambda>_. 0, retries = \<lambda>_. 0\<rparr>) = [Done, Done, Withdrawn (Some 0), Withdrawn None, Allowed False]"
proof -
  let ?ops = "[ODeposit 1, ODeposit 2, OWithdraw 3, OWithdraw 4, OAllows (2 * Second)]"
  have "budget_run ?ops demo_budget = [Done, Done, Withdrawn (Some 0), Withdrawn None, Allowed False]"
    and "clocked demo_budget 0 ?ops" by code_simp+
  with budget_is_sliding_window [of _ 0 ?ops] show ?thesis by (metis demo_budget_def)
qed

text \<open>
  A refund undoes its withdrawal. At any point of any history, withdrawing a retry and giving it back
  leaves a budget that answers every further sequence of operations as one that was only asked whether
  a retry is allowed.
\<close>

lemma refund_undoes_withdrawal:
  assumes "clocked (newRetryBudget cfg now0) 0 (ops @ OWithdraw now # ops')"
    and "b = budget_after ops (newRetryBudget cfg now0)" and "tryWithdraw now b = (Some s, b')"
  shows "budget_run ops' (refund s b') = budget_run ops' (snd (allows now b))"
proof -
  obtain t A where r: "rep b t A" "\<forall>u. 0 \<le> retries A u" "clocked b t (OWithdraw now # ops')"
    using budget_after_rep [OF rep_new _ assms(1)] assms(2) by auto
  then have t: "t \<le> sec_of now b" and c: "clocked b (sec_of now b) ops'" by auto
  have n: "0 < nslots b" using r(1) by (simp add: rep_def)
  from tryWithdraw_rep [OF r(1) t] assms(3)
  have s: "s = sec_of now b" "rep b' s (add_retry 1 s A)" "same_shape b b'" by (auto split: if_splits)
  have same: "nslots b' = nslots b" using s(3) by (simp add: same_shape_def)
  from refund_rep [OF s(2), of s] have ref: "rep (refund s b') s A" "same_shape b' (refund s b')"
    using take_back_add [OF n] r(2) same by auto
  have sh: "same_shape b (refund s b')" using s(3) ref(2) by (simp add: same_shape_def)
  note al = allows_rep [OF r(1) t]
  have "budget_run ops' (refund s b') = window_run b ops' (s, A)"
    using budget_run_rep [OF ref(1)] same_shape_run [OF sh] c s(1) by simp
  moreover have "budget_run ops' (snd (allows now b)) = window_run b ops' (s, A)"
    using budget_run_rep [of "snd (allows now b)" s A] al same_shape_run [of b "snd (allows now b)"] c s(1) by auto
  ultimately show ?thesis by simp
qed

lemma refund_undoes_withdrawal_witness:
  "let b = budget_after [ODeposit 1, ODeposit 2] demo_budget in
   tryWithdraw 3 b = (Some 0, snd (tryWithdraw 3 b)) \<and>
   budget_run [OWithdraw 4] (refund 0 (snd (tryWithdraw 3 b))) = budget_run [OWithdraw 4] (snd (allows 3 b))"
proof -
  let ?b = "budget_after [ODeposit 1, ODeposit 2] demo_budget"
  have w: "fst (tryWithdraw 3 ?b) = Some 0"
    and c: "clocked demo_budget 0 ([ODeposit 1, ODeposit 2] @ OWithdraw 3 # [OWithdraw 4])"
    by code_simp+
  from w have w': "tryWithdraw 3 ?b = (Some 0, snd (tryWithdraw 3 ?b))" by (metis prod.collapse)
  with refund_undoes_withdrawal [OF c [unfolded demo_budget_def] refl, folded demo_budget_def, OF w']
  show ?thesis unfolding Let_def by simp
qed

end
