(* ===== verification/Retry_Policy.thy ===== *)
theory Retry_Policy
  imports Http_Service Retry_Budget
begin

text \<open>
  The rules of the retry layer, \<^verbatim>\<open>pkg/gofr/service/retry_policy.go\<close> and the configuration of
  \<^verbatim>\<open>retry.go\<close>: the settings resolved from a \<^verbatim>\<open>RetryConfig\<close>, which requests and results are retried, the
  wait before a retry (backoff or \<^verbatim>\<open>Retry-After\<close>), and the response a retry may still return. Durations
  are integers of nanoseconds within the 64-bit range; multipliers of the backoff are rational numbers,
  a NaN is \<open>None\<close>.
\<close>

section \<open>Configuration and settings\<close>

type_synonym retry_rule = "http_response option \<Rightarrow> goerr option \<Rightarrow> bool"

record RetryConfig =
  MaxRetries :: int
  Backoff :: "(int \<Rightarrow> int) option"
  RetryOn :: "retry_rule option"
  RespectRetryAfter :: bool
  MaxRetryAfter :: int
  Methods :: "string list option"
  IdempotencyKeyHeader :: string
  PerAttemptTimeout :: int
  Budget :: "RetryBudget option"

record retrySettings =
  legacy :: bool
  maxAttempts :: int
  backoff :: "(int \<Rightarrow> int) option"
  retryOn :: retry_rule
  respectRetryAfter :: bool
  maxRetryAfter :: int
  methods :: "string set option"
  idempotencyKeyHeader :: string
  perAttemptTimeout :: int
  budget :: "retryBudget option"

definition legacyRetryable :: retry_rule where
  "legacyRetryable resp err = (err \<noteq> None \<or> (case resp of Some r \<Rightarrow> StatusCode r > 500 | None \<Rightarrow> False))"

definition onlyMaxRetries :: "RetryConfig \<Rightarrow> bool" where
  "onlyMaxRetries r \<longleftrightarrow> Backoff r = None \<and> RetryOn r = None \<and> \<not> RespectRetryAfter r \<and> Methods r = None \<and>
     PerAttemptTimeout r = 0 \<and> Budget r = None"

definition resolve_settings :: "RetryConfig \<Rightarrow> int \<Rightarrow> retrySettings" where
  "resolve_settings r now =
     \<lparr>legacy = onlyMaxRetries r,
      maxAttempts = min (max (MaxRetries r) 0) (maxInt64 - 1) + 1,
      backoff = Backoff r,
      retryOn = (case RetryOn r of None \<Rightarrow> legacyRetryable | Some f \<Rightarrow> f),
      respectRetryAfter = RespectRetryAfter r,
      maxRetryAfter = (if MaxRetryAfter r \<le> 0 then 30 * Second else MaxRetryAfter r),
      methods = map_option (\<lambda>ms. ToUpper ` set ms) (Methods r),
      idempotencyKeyHeader =
        (let h = CanonicalHeaderKey (IdempotencyKeyHeader r) in if h = '''' then ''Idempotency-Key'' else h),
      perAttemptTimeout = PerAttemptTimeout r,
      budget = map_option (\<lambda>b. newRetryBudget b now) (Budget r)\<rparr>"

section \<open>Which requests and results are retried\<close>

text \<open>The headers of a request are the entries of a Go map, in any order.\<close>

definition canRetry :: "retrySettings \<Rightarrow> string \<Rightarrow> (string \<times> string) list \<Rightarrow> bool" where
  "canRetry s method headers =
     (if maxAttempts s \<le> 1 then False
      else (case methods s of
              None \<Rightarrow> True
            | Some ms \<Rightarrow>
                if method \<in> ms then True
                else list_ex (\<lambda>(k, v). v \<noteq> '''' \<and> CanonicalHeaderKey k = idempotencyKeyHeader s) headers))"

definition retryable :: "retrySettings \<Rightarrow> retry_rule" where
  "retryable s resp err = (if \<not> legacy s \<and> errorsIs err ErrCircuitOpen then False else retryOn s resp err)"

definition StandardRetryable :: retry_rule where
  "StandardRetryable resp err =
     (if err \<noteq> None then \<not> errorsIs err ErrCircuitOpen
      else (case resp of None \<Rightarrow> False | Some r \<Rightarrow> StatusCode r \<in> {408, 429, 502, 503, 504}))"

text \<open>\<^verbatim>\<open>errors.As\<close> to a \<^verbatim>\<open>RateLimitError\<close>: the first one on the chain, by its \<^verbatim>\<open>RetryAfter\<close>.\<close>

fun asRateLimit :: "goerr \<Rightarrow> int option" where
  "asRateLimit [] = None"
| "asRateLimit (RateLimitError d # es) = Some d"
| "asRateLimit (e # es) = asRateLimit es"

definition rateLimitOf :: "goerr option \<Rightarrow> int option" where
  "rateLimitOf err = (case err of None \<Rightarrow> None | Some chain \<Rightarrow> asRateLimit chain)"

definition reasonOf :: "http_response option \<Rightarrow> goerr option \<Rightarrow> string" where
  "reasonOf resp err =
     (if rateLimitOf err \<noteq> None then ''status_429''
      else if err \<noteq> None \<or> resp = None then ''network''
      else let c = StatusCode (the resp) in
        if c = 429 then ''status_429'' else if c = 408 then ''status_408''
        else if c \<ge> 500 then ''status_5xx'' else ''status_other'')"

section \<open>The wait before a retry\<close>

text \<open>\<open>parseTime\<close> is \<^verbatim>\<open>http.ParseTime\<close>; the difference of two times saturates, as \<^verbatim>\<open>Time.Sub\<close> does.\<close>

definition sub_time :: "int \<Rightarrow> int \<Rightarrow> int" where
  "sub_time t u = max minInt64 (min maxInt64 (t - u))"

definition parseRetryAfter :: "(string \<Rightarrow> int option) \<Rightarrow> string \<Rightarrow> int \<Rightarrow> int option" where
  "parseRetryAfter parseTime value now =
     (if value = '''' then None
      else (case Atoi value of
              (secs, None) \<Rightarrow>
                if secs < 0 then None
                else if secs > maxInt64 div Second then Some maxInt64
                else Some (wrap64 (secs * Second))
            | (_, Some _) \<Rightarrow>
                (case parseTime value of None \<Rightarrow> None | Some t \<Rightarrow> Some (max (sub_time t now) 0))))"

definition retryAfterOf :: "(string \<Rightarrow> int option) \<Rightarrow> int \<Rightarrow> http_response option \<Rightarrow> goerr option \<Rightarrow> int option" where
  "retryAfterOf parseTime now resp err =
     (case rateLimitOf err of
        Some d \<Rightarrow> Some (max d 0)
      | None \<Rightarrow>
          (case resp of
             None \<Rightarrow> None
           | Some r \<Rightarrow>
               if StatusCode r \<noteq> 429 \<and> StatusCode r \<noteq> 503 then None
               else parseRetryAfter parseTime (RetryAfter r) now))"

definition waitBefore ::
    "(string \<Rightarrow> int option) \<Rightarrow> int \<Rightarrow> retrySettings \<Rightarrow> int \<Rightarrow> http_response option \<Rightarrow> goerr option \<Rightarrow> int" where
  "waitBefore parseTime now s retry resp err =
     (case (if respectRetryAfter s then retryAfterOf parseTime now resp err else None) of
        Some d \<Rightarrow> min d (maxRetryAfter s)
      | None \<Rightarrow> (case backoff s of None \<Rightarrow> 0 | Some nx \<Rightarrow> max (nx retry) 0))"

section \<open>Backoff\<close>

definition ConstantBackoff_Next :: "int \<Rightarrow> int \<Rightarrow> int" where
  "ConstantBackoff_Next Delay attempt = Delay"

record ExponentialBackoff =
  Base :: int
  Max :: int
  Multiplier :: "rat option"

definition ceiling_of :: "ExponentialBackoff \<Rightarrow> int \<Rightarrow> int" where
  "ceiling_of b attempt =
     (if Base b \<le> 0 then 0
      else let multiplier = (case Multiplier b of Some m \<Rightarrow> if m \<le> 0 then Some 2 else Some m | None \<Rightarrow> None);
               limit = (if Max b > 0 then of_int (Max b) else (2 :: rat) ^ 63);
               c = map_option (\<lambda>m. of_int (Base b) * m ^ nat (max attempt 1 - 1)) multiplier
           in (case c of
                 None \<Rightarrow> if Max b > 0 then Max b else maxInt64
               | Some q \<Rightarrow> if q \<ge> limit then (if Max b > 0 then Max b else maxInt64) else \<lfloor>q\<rfloor>))"

text \<open>\<open>int64N\<close> is \<^verbatim>\<open>rand.Int64N\<close>, the source of the jitter.\<close>

definition ExponentialBackoff_Next :: "(int \<Rightarrow> int) \<Rightarrow> ExponentialBackoff \<Rightarrow> int \<Rightarrow> int" where
  "ExponentialBackoff_Next int64N b attempt =
     (let c = ceiling_of b attempt in
      if c \<le> 0 then 0 else if c = maxInt64 then int64N c else int64N (c + 1))"

text \<open>\<^verbatim>\<open>waitWithContext\<close>: \<open>timerFirst\<close> says whether the timer fires before the context is done.\<close>

definition waitWithContext :: "go_context \<Rightarrow> bool \<Rightarrow> int \<Rightarrow> err_atom option" where
  "waitWithContext ctx timerFirst d =
     (if d \<le> 0 then ctxErr ctx else if timerFirst then None else ctxErr ctx)"

section \<open>Detaching a body\<close>

text \<open>A body read into memory holds no connection and cannot fail. One that is too large, or fails while
  being read, is put back with what was read in front: its content is as it was.\<close>

definition detachBody :: "http_response option \<Rightarrow> http_response option" where
  "detachBody resp =
     (case resp of
        None \<Rightarrow> None
      | Some r \<Rightarrow>
          (case Body r of
             None \<Rightarrow> Some r
           | Some b \<Rightarrow>
               let got = take (discardedBodyLimit + 1) (content b);
                   err = readFails b \<and> length (content b) \<le> discardedBodyLimit in
               if \<not> err \<and> length got \<le> discardedBodyLimit
               then Some (r\<lparr>Body := Some \<lparr>content = got, readFails = False, onWire = False, bodyClosed = False\<rparr>\<rparr>)
               else Some (r\<lparr>Body := Some (b\<lparr>content := got @ drop (discardedBodyLimit + 1) (content b)\<rparr>)\<rparr>)))"

section \<open>Lemmas: waits\<close>

lemma parseRetryAfter_bounds:
  "parseRetryAfter pt value now = Some d \<Longrightarrow> 0 \<le> d \<and> d \<le> maxInt64"
proof -
  have "0 \<le> wrap64 (secs * Second) \<and> wrap64 (secs * Second) \<le> maxInt64"
    if "0 \<le> secs" "secs \<le> maxInt64 div Second" for secs
  proof -
    have "secs \<le> 9223372036" using that(2) by (simp add: maxInt64_num)
    with that(1) have "wrap64 (secs * Second) = secs * Second" by (intro wrap64_id) (simp_all add: int64_num)
    with that(1) \<open>secs \<le> 9223372036\<close> show ?thesis by (simp add: maxInt64_num)
  qed
  then show "parseRetryAfter pt value now = Some d \<Longrightarrow> 0 \<le> d \<and> d \<le> maxInt64"
    by (auto simp: parseRetryAfter_def sub_time_def int64_num split: prod.splits option.splits if_splits)
qed

lemma parseRetryAfter_seconds:
  assumes "int n \<le> maxInt64"
  shows "parseRetryAfter pt (show_nat n) now =
    Some (if int n * Second \<le> maxInt64 then int n * Second else maxInt64)"
proof -
  have "wrap64 (int n * Second) = int n * Second" if "int n * Second \<le> maxInt64"
    using that by (intro wrap64_id) (simp_all add: int64_num)
  with assms show ?thesis by (auto simp: parseRetryAfter_def Atoi_show_nat int64_num)
qed

lemma retryAfterOf_nonneg: "retryAfterOf pt now resp err = Some d \<Longrightarrow> 0 \<le> d"
  by (auto simp: retryAfterOf_def dest: parseRetryAfter_bounds split: option.splits if_splits)

lemma resolve_maxRetryAfter: "0 < maxRetryAfter (resolve_settings r t0)"
  by (simp add: resolve_settings_def)

section \<open>Properties\<close>

text \<open>
  The wait before a retry is never negative and never runs past its cap. For the settings of any
  configuration: the wait is at least 0; a \<^verbatim>\<open>Retry-After\<close> that is honoured waits at most \<open>maxRetryAfter\<close>;
  a number of seconds, however large, is converted without wrapping around, saturating at the largest
  duration; and without a backoff or an honoured \<^verbatim>\<open>Retry-After\<close> there is no wait.
\<close>

lemma waitBefore_bounds:
  fixes pt :: "string \<Rightarrow> int option"
  assumes "s = resolve_settings r t0" and "int n \<le> maxInt64"
  shows "0 \<le> waitBefore pt now s k resp err \<and>
    (respectRetryAfter s \<and> retryAfterOf pt now resp err \<noteq> None \<longrightarrow> waitBefore pt now s k resp err \<le> maxRetryAfter s) \<and>
    parseRetryAfter pt (show_nat n) now = Some (if int n * Second \<le> maxInt64 then int n * Second else maxInt64) \<and>
    (backoff s = None \<and> \<not> respectRetryAfter s \<longrightarrow> waitBefore pt now s k resp err = 0)"
proof (intro conjI)
  have m: "0 < maxRetryAfter s" using assms(1) resolve_maxRetryAfter by simp
  show "0 \<le> waitBefore pt now s k resp err"
    using m by (auto simp: waitBefore_def dest: retryAfterOf_nonneg split: option.splits if_splits)
qed (use assms in \<open>auto simp: waitBefore_def parseRetryAfter_seconds\<close>)

definition demo_config :: RetryConfig where
  "demo_config = \<lparr>MaxRetries = 3, Backoff = Some (ConstantBackoff_Next 5), RetryOn = Some StandardRetryable,
     RespectRetryAfter = True, MaxRetryAfter = 0, Methods = Some [''get''], IdempotencyKeyHeader = '''',
     PerAttemptTimeout = 0, Budget = None\<rparr>"

abbreviation demo_response :: "int \<Rightarrow> string \<Rightarrow> http_response" where
  "demo_response c ra \<equiv> \<lparr>StatusCode = c, RetryAfter = ra, Body = None\<rparr>"

lemma waitBefore_bounds_witness:
  "waitBefore (\<lambda>_. None) 0 (resolve_settings demo_config 0) 1 (Some (demo_response 503 ''86400'')) None \<le> 30 * Second"
proof -
  have "respectRetryAfter (resolve_settings demo_config 0)"
    "retryAfterOf (\<lambda>_. None) 0 (Some (demo_response 503 ''86400'')) None \<noteq> None"
    "maxRetryAfter (resolve_settings demo_config 0) = 30 * Second" by code_simp+
  with waitBefore_bounds [OF refl, of 86400 "\<lambda>_. None" 0 demo_config 0 1 "Some (demo_response 503 ''86400'')" None]
  show ?thesis by (simp add: int64_num)
qed

text \<open>
  Exponential backoff is a full jitter below its ceiling. With a random source that returns values of
  the range it is asked for, the wait before retry \<open>k\<close> lies between 0 and the ceiling, the ceiling is the
  base times the multiplier to the power \<open>k - 1\<close>, rounded down and capped at \<^verbatim>\<open>Max\<close> (or at the largest
  duration), and it does not overflow.
\<close>

lemma ExponentialBackoff_bounds:
  assumes "\<And>m. 0 < m \<Longrightarrow> 0 \<le> int64N m \<and> int64N m < m"
    and "0 < Base b" "Base b \<le> maxInt64" and "Max b \<le> maxInt64" and "Multiplier b = Some q" and "0 < q" and "1 \<le> k"
  shows "0 \<le> ExponentialBackoff_Next int64N b k \<and> ExponentialBackoff_Next int64N b k \<le> ceiling_of b k \<and>
    ceiling_of b k = min (if Max b > 0 then Max b else maxInt64) \<lfloor>of_int (Base b) * q ^ nat (k - 1)\<rfloor>"
proof -
  let ?c = "of_int (Base b) * q ^ nat (k - 1) :: rat"
  have c: "0 \<le> ?c" using assms(2,6) by simp
  have "\<lfloor>?c\<rfloor> < Max b" if "?c < of_int (Max b)" using that by linarith
  moreover have "Max b \<le> \<lfloor>?c\<rfloor>" if "of_int (Max b) \<le> ?c" using that by (simp add: le_floor_iff)
  moreover have "\<lfloor>?c\<rfloor> \<le> maxInt64" if "?c < 2 ^ 63"
  proof -
    have "?c < of_int 9223372036854775808" using that by simp
    then have "\<lfloor>?c\<rfloor> < 9223372036854775808" by linarith
    then show ?thesis by (simp add: maxInt64_num)
  qed
  moreover have "maxInt64 \<le> \<lfloor>?c\<rfloor>" if "2 ^ 63 \<le> ?c"
  proof -
    have "of_int 9223372036854775807 \<le> ?c" using that by simp
    then show ?thesis by (simp only: le_floor_iff maxInt64_num)
  qed
  ultimately have eq: "ceiling_of b k = min (if Max b > 0 then Max b else maxInt64) \<lfloor>?c\<rfloor>"
    using assms(2,5,6,7) by (auto simp: ceiling_of_def Let_def max_def min_def)
  have "0 \<le> \<lfloor>?c\<rfloor>" using c by simp
  then have pos: "0 \<le> ceiling_of b k" "ceiling_of b k \<le> maxInt64"
    using assms(4) by (auto simp: eq int64_num)
  have "0 \<le> ExponentialBackoff_Next int64N b k \<and> ExponentialBackoff_Next int64N b k \<le> ceiling_of b k"
    using pos assms(1) [of "ceiling_of b k"] assms(1) [of "ceiling_of b k + 1"]
    by (auto simp: ExponentialBackoff_Next_def Let_def)
  with eq show ?thesis by simp
qed

lemma ExponentialBackoff_bounds_witness:
  "ceiling_of \<lparr>Base = 100, Max = 1000, Multiplier = Some 3\<rparr> 3 = 900 \<and>
   ExponentialBackoff_Next (\<lambda>m. m - 1) \<lparr>Base = 100, Max = 1000, Multiplier = Some 3\<rparr> 3 \<le> 900"
  using ExponentialBackoff_bounds [of "\<lambda>m. m - 1" "\<lparr>Base = 100, Max = 1000, Multiplier = Some 3\<rparr>" 3 3]
  by (simp add: int64_num)

end
