(* ===== verification/Retry.thy ===== *)
theory Retry
  imports Retry_Policy
begin

text \<open>
  The retry loop of \<^verbatim>\<open>pkg/gofr/service/retry.go\<close> and the per-attempt timeout of \<^verbatim>\<open>retry_policy.go\<close>. What
  a call sees of the world is a record of functions of the attempt's number: the caller's context
  where the code samples it, the outcome of the wrapped client, whether timers fire, the clock. What
  the loop does is recorded as a list of events. Panics of a user's \<^verbatim>\<open>RetryOn\<close> or \<^verbatim>\<open>Backoff\<close>, which are
  functions here, and the timer that bounds reading a discarded body are not modelled.
\<close>

section \<open>The world of a call\<close>

record retry_env =
  httpTime :: "string \<Rightarrow> int option"
  deadline :: "int option"
  ctxBefore :: "int \<Rightarrow> go_context"
  ctxCut :: "int \<Rightarrow> go_context"
  ctxAfter :: "int \<Rightarrow> go_context"
  ctxWait :: "int \<Rightarrow> go_context"
  timerFirst :: "int \<Rightarrow> bool"
  timerFires :: "int \<Rightarrow> bool"
  reqFunc :: "int \<Rightarrow> bool \<Rightarrow> outcome"
  clock :: "int \<Rightarrow> int"

text \<open>\<open>reqFunc k cut\<close> is the outcome of attempt \<open>k\<close>, \<open>cut\<close> if the timer canceled its context.\<close>

datatype retry_event =
    Attempt int
  | Withdraw bool
  | Refunded
  | Exhausted
  | Detached
  | Drained "http_response option"
  | CountLegacy
  | CountRetry int string int

record retry_state =
  bud :: "retryBudget option"
  log :: "retry_event list"

record attemptResult =
  resp :: "http_response option"
  err :: "goerr option"
  timedOut :: bool
  wait :: int

definition jot :: "retry_event list \<Rightarrow> retry_state \<Rightarrow> retry_state" where
  "jot es st = st\<lparr>log := log st @ es\<rparr>"

section \<open>Deciding on a retry\<close>

definition contextEndedTheAttempt :: "go_context \<Rightarrow> goerr option \<Rightarrow> bool" where
  "contextEndedTheAttempt ctx e =
     (case ctxErr ctx of None \<Rightarrow> False | Some c \<Rightarrow> errorsIs e c \<or> isCause ctx e)"

definition roomForRetry :: "retrySettings \<Rightarrow> retry_env \<Rightarrow> int \<Rightarrow> int \<Rightarrow> bool" where
  "roomForRetry s env k w =
     (case deadline env of
        None \<Rightarrow> True
      | Some d \<Rightarrow>
          if legacy s then True
          else let remaining = d - clock env k; attemptTimeout = perAttemptTimeout s
               in remaining \<ge> attemptTimeout \<and> w \<le> remaining - attemptTimeout)"

definition budgetAllows :: "retry_env \<Rightarrow> int \<Rightarrow> retry_state \<Rightarrow> bool \<times> retry_state" where
  "budgetAllows env k st =
     (case bud st of
        None \<Rightarrow> (True, st)
      | Some b \<Rightarrow> let (ok, b1) = allows (clock env k) b in (ok, st\<lparr>bud := Some b1\<rparr>))"

text \<open>\<open>Some second\<close> stands for the function that gives the retry back to that second.\<close>

definition withdrawBudget :: "retry_env \<Rightarrow> int \<Rightarrow> retry_state \<Rightarrow> (bool \<times> int option) \<times> retry_state" where
  "withdrawBudget env k st =
     (case bud st of
        None \<Rightarrow> ((True, None), st)
      | Some b \<Rightarrow>
          (case tryWithdraw (clock env k) b of
             (None, b1) \<Rightarrow> ((False, None), jot [Withdraw False, Exhausted] (st\<lparr>bud := Some b1\<rparr>))
           | (Some sec, b1) \<Rightarrow> ((True, Some sec), jot [Withdraw True] (st\<lparr>bud := Some b1\<rparr>))))"

definition refundBudget :: "int option \<Rightarrow> retry_state \<Rightarrow> retry_state" where
  "refundBudget r st =
     (case (r, bud st) of
        (Some sec, Some b) \<Rightarrow> jot [Refunded] (st\<lparr>bud := Some (refund sec b)\<rparr>)
      | _ \<Rightarrow> st)"

text \<open>The error of an attempt the timer cut off, as the chain of errors it wraps.\<close>

definition errAttemptTimeout :: goerr where
  "errAttemptTimeout = [ErrAttemptTimeout, DeadlineExceeded]"

definition attemptTimeoutError :: "goerr option \<Rightarrow> goerr" where
  "attemptTimeoutError e =
     (case e of
        None \<Rightarrow> errAttemptTimeout
      | Some chain \<Rightarrow> if \<not> errorsIs e ErrAttemptTimeout then errAttemptTimeout @ chain else chain)"

definition retryAfterTimeout ::
    "retrySettings \<Rightarrow> retry_env \<Rightarrow> int \<Rightarrow> retry_state \<Rightarrow> (int \<times> bool) \<times> retry_state" where
  "retryAfterTimeout s env k st =
     (if \<not> retryOn s None (Some errAttemptTimeout) then ((0, False), st)
      else let w = waitBefore (httpTime env) (clock env k) s k None (Some errAttemptTimeout) in
        if \<not> roomForRetry s env k w then ((0, False), st)
        else let (ok, st1) = budgetAllows env k st in
          if \<not> ok then ((0, False), st1) else ((w, True), st1))"

definition plain :: "outcome \<Rightarrow> attemptResult" where
  "plain out = \<lparr>resp = fst out, err = snd out, timedOut = False, wait = 0\<rparr>"

definition attemptWithTimeout ::
    "retrySettings \<Rightarrow> retry_env \<Rightarrow> int \<Rightarrow> retry_state \<Rightarrow> attemptResult \<times> retry_state" where
  "attemptWithTimeout s env k st =
     (if timerFires env k then
        let ((w, retry), st1) = retryAfterTimeout s env k st; out = reqFunc env k retry in
        if ctxErr (ctxCut env k) \<noteq> None \<or> \<not> retry then (plain out, st1)
        else (\<lparr>resp = None, err = Some (attemptTimeoutError (snd out)), timedOut = True, wait = w\<rparr>,
              jot [Drained (drainAndCloseResponse (fst out))] st1)
      else (plain (reqFunc env k False), st))"

definition make_attempt ::
    "retrySettings \<Rightarrow> retry_env \<Rightarrow> int \<Rightarrow> bool \<Rightarrow> retry_state \<Rightarrow> attemptResult \<times> retry_state" where
  "make_attempt s env k lst st =
     (let st1 = jot [Attempt k] st in
      if lst \<or> perAttemptTimeout s \<le> 0 then (plain (reqFunc env k False), st1)
      else attemptWithTimeout s env k st1)"

definition planRetry ::
    "retrySettings \<Rightarrow> retry_env \<Rightarrow> int \<Rightarrow> attemptResult \<Rightarrow> (string \<times> int) option" where
  "planRetry s env k a =
     (if timedOut a then Some (''attempt_timeout'', wait a)
      else if \<not> retryable s (resp a) (err a) then None
      else let w = waitBefore (httpTime env) (clock env k) s k (resp a) (err a) in
        if \<not> roomForRetry s env k w then None else Some (reasonOf (resp a) (err a), w))"

definition recordRetry :: "retrySettings \<Rightarrow> int \<Rightarrow> string \<Rightarrow> int \<Rightarrow> retry_state \<Rightarrow> retry_state" where
  "recordRetry s k reason w st = (if legacy s then st else jot [CountRetry k reason w] st)"

definition countLegacyRetry :: "retrySettings \<Rightarrow> int \<Rightarrow> attemptResult \<Rightarrow> retry_state \<Rightarrow> retry_state" where
  "countLegacyRetry s k a st =
     (if legacy s \<and> k > 1 \<and> legacyRetryable (resp a) (err a) then jot [CountLegacy] st else st)"

definition rp_wait :: "retrySettings \<Rightarrow> retry_env \<Rightarrow> int \<Rightarrow> int \<Rightarrow> err_atom option" where
  "rp_wait s env k w = (if legacy s then None else waitWithContext (ctxWait env k) (timerFirst env k) w)"

text \<open>\<^verbatim>\<open>replace\<close> also returns the attempt's result, whose response it may have detached in place.\<close>

definition replace ::
    "retrySettings \<Rightarrow> retry_env \<Rightarrow> int \<Rightarrow> attemptResult \<Rightarrow> retry_state \<Rightarrow> bool \<times> attemptResult \<times> retry_state" where
  "replace s env k a st =
     (case planRetry s env k a of
        None \<Rightarrow> (False, a, st)
      | Some (reason, w) \<Rightarrow>
          (case withdrawBudget env k st of
             ((False, _), st1) \<Rightarrow> (False, a, st1)
           | ((True, rf), st1) \<Rightarrow>
               let (a1, st2) = (if w > 0 then (a\<lparr>resp := detachBody (resp a)\<rparr>, jot [Detached] st1) else (a, st1)) in
               if rp_wait s env k w \<noteq> None then (False, a1, refundBudget rf st2)
               else (True, a1,
                     jot [Drained (drainAndCloseResponse (resp a1))] (recordRetry s k reason w st2))))"

section \<open>The loop\<close>

definition is_last :: "retrySettings \<Rightarrow> bool \<Rightarrow> int \<Rightarrow> bool" where
  "is_last s can k \<longleftrightarrow> \<not> can \<or> k \<ge> maxAttempts s"

function retry_loop :: "retrySettings \<Rightarrow> retry_env \<Rightarrow> bool \<Rightarrow> int \<Rightarrow> retry_state \<Rightarrow> outcome \<times> retry_state" where
  "retry_loop s env can k st =
     (let ctxDone = (ctxErr (ctxBefore env k) \<noteq> None);
          lst = is_last s can k;
          (a, st1) = make_attempt s env k lst st;
          st2 = countLegacyRetry s k a st1
      in if lst \<or> ctxDone \<or> contextEndedTheAttempt (ctxAfter env k) (err a) then ((resp a, err a), st2)
         else (case replace s env k a st2 of
                 (False, a1, st3) \<Rightarrow> ((resp a1, err a1), st3)
               | (True, a1, st3) \<Rightarrow> retry_loop s env can (k + 1) st3))"
  by pat_completeness auto
termination
  by (relation "measure (\<lambda>(s, env, can, k, st). nat (maxAttempts s - k))") (auto simp: is_last_def)

declare retry_loop.simps [simp del]

definition doWithRetry ::
    "retrySettings \<Rightarrow> retry_env \<Rightarrow> string \<Rightarrow> (string \<times> string) list \<Rightarrow> retry_state \<Rightarrow> outcome \<times> retry_state" where
  "doWithRetry s env method headers st =
     (let can = canRetry s method headers;
          st1 = st\<lparr>bud := map_option (deposit (clock env 0)) (bud st)\<rparr>
      in retry_loop s env can 1 st1)"

text \<open>The public methods: each names its HTTP method, those with headers pass them on for the idempotency
  key. The arguments of the wrapped client's call are part of \<open>reqFunc\<close>.\<close>

definition rp_Get :: "retrySettings \<Rightarrow> retry_env \<Rightarrow> retry_state \<Rightarrow> outcome \<times> retry_state" where
  "rp_Get s env st = doWithRetry s env ''GET'' [] st"

definition rp_GetWithHeaders ::
    "retrySettings \<Rightarrow> retry_env \<Rightarrow> (string \<times> string) list \<Rightarrow> retry_state \<Rightarrow> outcome \<times> retry_state" where
  "rp_GetWithHeaders s env hs st = doWithRetry s env ''GET'' hs st"

definition rp_Post :: "retrySettings \<Rightarrow> retry_env \<Rightarrow> retry_state \<Rightarrow> outcome \<times> retry_state" where
  "rp_Post s env st = doWithRetry s env ''POST'' [] st"

definition rp_PostWithHeaders ::
    "retrySettings \<Rightarrow> retry_env \<Rightarrow> (string \<times> string) list \<Rightarrow> retry_state \<Rightarrow> outcome \<times> retry_state" where
  "rp_PostWithHeaders s env hs st = doWithRetry s env ''POST'' hs st"

definition rp_Put :: "retrySettings \<Rightarrow> retry_env \<Rightarrow> retry_state \<Rightarrow> outcome \<times> retry_state" where
  "rp_Put s env st = doWithRetry s env ''PUT'' [] st"

definition rp_PutWithHeaders ::
    "retrySettings \<Rightarrow> retry_env \<Rightarrow> (string \<times> string) list \<Rightarrow> retry_state \<Rightarrow> outcome \<times> retry_state" where
  "rp_PutWithHeaders s env hs st = doWithRetry s env ''PUT'' hs st"

definition rp_Patch :: "retrySettings \<Rightarrow> retry_env \<Rightarrow> retry_state \<Rightarrow> outcome \<times> retry_state" where
  "rp_Patch s env st = doWithRetry s env ''PATCH'' [] st"

definition rp_PatchWithHeaders ::
    "retrySettings \<Rightarrow> retry_env \<Rightarrow> (string \<times> string) list \<Rightarrow> retry_state \<Rightarrow> outcome \<times> retry_state" where
  "rp_PatchWithHeaders s env hs st = doWithRetry s env ''PATCH'' hs st"

definition rp_Delete :: "retrySettings \<Rightarrow> retry_env \<Rightarrow> retry_state \<Rightarrow> outcome \<times> retry_state" where
  "rp_Delete s env st = doWithRetry s env ''DELETE'' [] st"

definition rp_DeleteWithHeaders ::
    "retrySettings \<Rightarrow> retry_env \<Rightarrow> (string \<times> string) list \<Rightarrow> retry_state \<Rightarrow> outcome \<times> retry_state" where
  "rp_DeleteWithHeaders s env hs st = doWithRetry s env ''DELETE'' hs st"

definition rp_Query :: "retrySettings \<Rightarrow> retry_env \<Rightarrow> retry_state \<Rightarrow> outcome \<times> retry_state" where
  "rp_Query s env st = doWithRetry s env ''QUERY'' [] st"

definition rp_QueryWithHeaders ::
    "retrySettings \<Rightarrow> retry_env \<Rightarrow> (string \<times> string) list \<Rightarrow> retry_state \<Rightarrow> outcome \<times> retry_state" where
  "rp_QueryWithHeaders s env hs st = doWithRetry s env ''QUERY'' hs st"

section \<open>Lemmas: what each step leaves in the log\<close>

definition attempts :: "retry_state \<Rightarrow> int list" where
  "attempts st = concat (map (\<lambda>e. case e of Attempt k \<Rightarrow> [k] | _ \<Rightarrow> []) (log st))"

text \<open>Retries taken from the budget and not given back.\<close>

definition spent :: "retry_state \<Rightarrow> int" where
  "spent st = int (count_list (log st) (Withdraw True)) - int (count_list (log st) Refunded)"

definition has_budget :: "retry_state \<Rightarrow> bool" where
  "has_budget st \<longleftrightarrow> bud st \<noteq> None"

definition same_account :: "retry_state \<Rightarrow> retry_state \<Rightarrow> bool" where
  "same_account st st' \<longleftrightarrow> attempts st' = attempts st \<and> spent st' = spent st \<and> has_budget st' = has_budget st"

lemmas account_defs = same_account_def has_budget_def attempts_def spent_def jot_def

lemma same_account_trans: "same_account a b \<Longrightarrow> same_account b c \<Longrightarrow> same_account a c"
  by (simp add: same_account_def)

lemma budgetAllows_account: "same_account st (snd (budgetAllows env k st))"
  by (auto simp: budgetAllows_def account_defs split: option.splits prod.splits)

lemma retryAfterTimeout_account: "same_account st (snd (retryAfterTimeout s env k st))"
  using budgetAllows_account [of st env k]
  by (auto simp: retryAfterTimeout_def same_account_def Let_def split: prod.splits)

lemma attemptWithTimeout_account: "same_account st (snd (attemptWithTimeout s env k st))"
proof -
  have "same_account st' (jot [Drained r] st')" for st' r by (simp add: account_defs)
  with retryAfterTimeout_account [of st s env k] show ?thesis
    by (auto simp: attemptWithTimeout_def Let_def same_account_def split: prod.splits if_splits)
qed

lemma make_attempt_account:
  assumes "make_attempt s env k l st = (a, st')"
  shows "attempts st' = attempts st @ [k] \<and> spent st' = spent st \<and> has_budget st' = has_budget st \<and>
    (perAttemptTimeout s \<le> 0 \<or> l \<longrightarrow> a = plain (reqFunc env k False))"
proof -
  have "attempts (jot [Attempt k] st) = attempts st @ [k]" "spent (jot [Attempt k] st) = spent st"
    "has_budget (jot [Attempt k] st) = has_budget st" by (simp_all add: account_defs)
  with assms attemptWithTimeout_account [of "jot [Attempt k] st" s env k] show ?thesis
    by (auto simp: make_attempt_def same_account_def Let_def split: if_splits)
qed

lemma countLegacyRetry_account: "same_account st (countLegacyRetry s k a st)"
  by (simp add: countLegacyRetry_def account_defs)

lemma withdrawBudget_account:
  assumes "withdrawBudget env k st = ((ok, rf), st')"
  shows "attempts st' = attempts st \<and> has_budget st' = has_budget st \<and>
    (if ok \<and> has_budget st then spent st' = spent st + 1 \<and> rf \<noteq> None else spent st' = spent st \<and> rf = None)"
  using assms
  by (cases "bud st"; cases "tryWithdraw (clock env k) (the (bud st))")
    (auto simp: withdrawBudget_def account_defs split: option.splits)

lemma refundBudget_account:
  "attempts (refundBudget rf st) = attempts st \<and> has_budget (refundBudget rf st) = has_budget st \<and>
   spent (refundBudget rf st) = spent st - (if rf \<noteq> None \<and> has_budget st then 1 else 0)"
  by (auto simp: refundBudget_def account_defs split: option.splits)

lemma recordRetry_account: "same_account st (recordRetry s k reason w st)"
  by (simp add: recordRetry_def account_defs)

lemma rp_wait_None:
  "rp_wait s env k w = None \<longrightarrow> \<not> legacy s \<longrightarrow> ctxErr (ctxWait env k) = None \<or> timerFirst env k"
  "rp_wait s env k w \<noteq> None \<longrightarrow> \<not> legacy s \<and> ctxErr (ctxWait env k) \<noteq> None"
  by (auto simp: rp_wait_def waitWithContext_def split: if_splits)

lemma replace_account:
  assumes "replace s env k a st = (again, a', st')"
  shows "attempts st' = attempts st \<and> has_budget st' = has_budget st \<and>
    spent st' = spent st + (if again \<and> has_budget st then 1 else 0) \<and> err a' = err a \<and>
    resp a' \<in> {resp a, detachBody (resp a)} \<and>
    (again \<longrightarrow> planRetry s env k a \<noteq> None \<and> (\<not> legacy s \<longrightarrow> ctxErr (ctxWait env k) = None \<or> timerFirst env k)) \<and>
    (\<not> again \<longrightarrow> planRetry s env k a = None \<or> has_budget st \<or> \<not> legacy s \<and> ctxErr (ctxWait env k) \<noteq> None)"
proof (cases "planRetry s env k a")
  case None
  with assms show ?thesis by (simp add: replace_def)
next
  case (Some p)
  obtain reason w where p: "p = (reason, w)" by (rule prod.exhaust)
  obtain ok rf st1 where wd: "withdrawBudget env k st = ((ok, rf), st1)" by (metis prod.exhaust)
  note acc = withdrawBudget_account [OF wd]
  have jot: "same_account st' (jot [Detached] st')" "same_account st' (jot [Drained r] st')" for st' r
    by (simp_all add: account_defs)
  show ?thesis
  proof (cases ok)
    case False
    moreover have "has_budget st"
      using wd False by (auto simp: withdrawBudget_def has_budget_def split: option.splits)
    ultimately show ?thesis using assms Some p wd acc by (auto simp: replace_def)
  next
    case True
    then show ?thesis
      using assms Some p wd acc jot recordRetry_account refundBudget_account [of rf] rp_wait_None [of s env k w]
      by (auto simp: replace_def Let_def same_account_def split: if_splits)
  qed
qed

section \<open>Lemmas: the loop\<close>

text \<open>The results an attempt may have. The timer may cut it off if there is one, it fires and \<^verbatim>\<open>retryOn\<close> accepts
  the timeout; an attempt cut off has the timeout's error as its result, or, if the caller's context had
  ended by then, whatever the client returned.\<close>

definition timer_cuts :: "retrySettings \<Rightarrow> retry_env \<Rightarrow> int \<Rightarrow> bool" where
  "timer_cuts s env k \<longleftrightarrow> 0 < perAttemptTimeout s \<and> timerFires env k \<and> retryOn s None (Some errAttemptTimeout)"

definition timed_out :: "retrySettings \<Rightarrow> retry_env \<Rightarrow> int \<Rightarrow> outcome \<Rightarrow> bool" where
  "timed_out s env k out \<longleftrightarrow> timer_cuts s env k \<and> ctxErr (ctxCut env k) = None \<and>
     out = (None, Some (attemptTimeoutError (snd (reqFunc env k True))))"

definition attempt_result :: "retrySettings \<Rightarrow> retry_env \<Rightarrow> int \<Rightarrow> outcome \<Rightarrow> bool" where
  "attempt_result s env k out \<longleftrightarrow> out = reqFunc env k False \<or> timed_out s env k out \<or>
     timer_cuts s env k \<and> ctxErr (ctxCut env k) \<noteq> None \<and> out = reqFunc env k True"

lemma make_attempt_result:
  assumes "make_attempt s env k l st = (a, st')"
  shows "attempt_result s env k (resp a, err a) \<and> (l \<longrightarrow> (resp a, err a) = reqFunc env k False) \<and>
    (timedOut a \<longrightarrow> timed_out s env k (resp a, err a))"
proof (cases "l \<or> perAttemptTimeout s \<le> 0 \<or> \<not> timerFires env k")
  case True
  then have "a = plain (reqFunc env k False)"
    using assms by (auto simp: make_attempt_def attemptWithTimeout_def Let_def split: if_splits)
  then show ?thesis by (simp add: attempt_result_def plain_def)
next
  case False
  obtain w again st1 where r: "retryAfterTimeout s env k (jot [Attempt k] st) = ((w, again), st1)"
    by (metis prod.exhaust)
  have c: "timer_cuts s env k" if again
    using r that False by (auto simp: timer_cuts_def retryAfterTimeout_def split: if_splits)
  have "a = (if ctxErr (ctxCut env k) \<noteq> None \<or> \<not> again then plain (reqFunc env k again)
      else \<lparr>resp = None, err = Some (attemptTimeoutError (snd (reqFunc env k again))), timedOut = True, wait = w\<rparr>)"
    using assms False r by (auto simp: make_attempt_def attemptWithTimeout_def Let_def split: if_splits)
  with c False show ?thesis by (cases again) (auto simp: attempt_result_def timed_out_def plain_def)
qed

text \<open>What is true of an attempt that was replaced by a retry: the caller's context was live before it, its
  result is one the policy retries and was not caused by the end of the context, and, where the code
  waits, the context had not ended the wait. The policy that only sets \<^verbatim>\<open>MaxRetries\<close> does not wait.\<close>

definition may_replace :: "retrySettings \<Rightarrow> retry_env \<Rightarrow> int \<Rightarrow> bool" where
  "may_replace s env i \<longleftrightarrow> ctxErr (ctxBefore env i) = None \<and>
     (\<not> legacy s \<longrightarrow> ctxErr (ctxWait env i) = None \<or> timerFirst env i) \<and>
     (\<exists>out. attempt_result s env i out \<and> \<not> contextEndedTheAttempt (ctxAfter env i) (snd out) \<and>
        (retryable s (fst out) (snd out) \<or> timed_out s env i out))"

text \<open>Why an attempt that was not the last one allowed was not replaced.\<close>

definition may_stop :: "retrySettings \<Rightarrow> retry_env \<Rightarrow> bool \<Rightarrow> int \<Rightarrow> outcome \<Rightarrow> bool" where
  "may_stop s env budgeted k out \<longleftrightarrow> ctxErr (ctxBefore env k) \<noteq> None \<or>
     contextEndedTheAttempt (ctxAfter env k) (snd out) \<or> \<not> retryable s (fst out) (snd out) \<or>
     budgeted \<or> \<not> legacy s \<and> (deadline env \<noteq> None \<or> ctxErr (ctxWait env k) \<noteq> None)"

text \<open>What is returned after attempt \<open>k\<close>: its result, the response as it was or detached.\<close>

definition returned_after ::
    "retrySettings \<Rightarrow> retry_env \<Rightarrow> bool \<Rightarrow> bool \<Rightarrow> int \<Rightarrow> outcome \<Rightarrow> bool" where
  "returned_after s env lst budgeted k out \<longleftrightarrow>
     (\<exists>r. attempt_result s env k r \<and> snd out = snd r \<and> fst out \<in> {fst r, detachBody (fst r)} \<and>
        (if lst then r = reqFunc env k False else may_stop s env budgeted k r))"

definition loop_post ::
    "retrySettings \<Rightarrow> retry_env \<Rightarrow> bool \<Rightarrow> int \<Rightarrow> retry_state \<Rightarrow> outcome \<Rightarrow> retry_state \<Rightarrow> int \<Rightarrow> bool" where
  "loop_post s env can k st out st' n \<longleftrightarrow>
     k \<le> n \<and> n \<le> max k (maxAttempts s) \<and> (\<not> can \<longrightarrow> n = k) \<and>
     attempts st' = attempts st @ [k..n] \<and>
     spent st' = spent st + (if has_budget st then n - k else 0) \<and>
     (\<forall>i \<in> {k..<n}. may_replace s env i) \<and>
     returned_after s env (is_last s can n) (has_budget st) n out"

lemma loop_post_stop:
  assumes "make_attempt s env k (is_last s can k) st = (a, st1)"
    and "attempts st' = attempts st1" and "spent st' = spent st1"
    and "snd out = err a" and "fst out \<in> {resp a, detachBody (resp a)}"
    and "is_last s can k \<or> may_stop s env (has_budget st) k (resp a, err a)"
  shows "loop_post s env can k st out st' k"
proof -
  have "returned_after s env (is_last s can k) (has_budget st) k out"
    unfolding returned_after_def using assms(4-6) make_attempt_result [OF assms(1)]
    by (intro exI [of _ "(resp a, err a)"]) auto
  then show ?thesis using assms(2,3) make_attempt_account [OF assms(1)] by (auto simp: loop_post_def)
qed

lemma loop_post_next:
  assumes "can" and "k < maxAttempts s"
    and "attempts st1 = attempts st @ [k]" and "spent st1 = spent st + (if has_budget st then 1 else 0)"
    and "has_budget st1 = has_budget st" and "may_replace s env k" and "loop_post s env can (k + 1) st1 out st' n"
  shows "loop_post s env can k st out st' n"
proof -
  have kn: "k + 1 \<le> n" "n \<le> maxAttempts s" using assms(2,7) by (auto simp: loop_post_def)
  have "{k..<n} = insert k {k + 1..<n}" using kn by auto
  moreover have "[k..n] = k # [k + 1..n]" using kn by (intro upto_rec1) simp
  ultimately show ?thesis using assms kn by (simp add: loop_post_def)
qed

lemma retry_loop_post: "\<exists>n. loop_post s env can k st (fst (retry_loop s env can k st)) (snd (retry_loop s env can k st)) n"
proof (induction s env can k st rule: retry_loop.induct)
  case (1 s env can k st)
  let ?lst = "is_last s can k"
  obtain a st1 where a: "make_attempt s env k ?lst st = (a, st1)" by (rule prod.exhaust)
  let ?st2 = "countLegacyRetry s k a st1"
  note acc = make_attempt_account [OF a]
  have c: "attempts ?st2 = attempts st1" "spent ?st2 = spent st1" "has_budget ?st2 = has_budget st1"
    using countLegacyRetry_account [of st1 s k a] by (simp_all add: same_account_def)
  let ?stop = "?lst \<or> ctxErr (ctxBefore env k) \<noteq> None \<or> contextEndedTheAttempt (ctxAfter env k) (err a)"
  have step: "retry_loop s env can k st = (if ?stop then ((resp a, err a), ?st2)
      else (case replace s env k a ?st2 of
              (False, a1, st3) \<Rightarrow> ((resp a1, err a1), st3)
            | (True, a1, st3) \<Rightarrow> retry_loop s env can (k + 1) st3))"
    by (subst retry_loop.simps) (simp only: a Let_def prod.case)
  show ?case
  proof (cases ?stop)
    case True
    with step have "retry_loop s env can k st = ((resp a, err a), ?st2)" by (simp only: if_True)
    moreover have "?lst \<or> may_stop s env (has_budget st) k (resp a, err a)"
      using True by (auto simp: may_stop_def)
    ultimately show ?thesis using loop_post_stop [OF a c(1,2), of "(resp a, err a)"] by auto
  next
    case False
    obtain again a1 st3 where r: "replace s env k a ?st2 = (again, a1, st3)" by (metis prod.exhaust)
    note ra = replace_account [OF r]
    show ?thesis
    proof (cases again)
      case False
      with \<open>\<not> ?stop\<close> r step have "retry_loop s env can k st = ((resp a1, err a1), st3)" by simp
      moreover have "loop_post s env can k st (resp a1, err a1) st3 k"
      proof (rule loop_post_stop [OF a])
        have "has_budget ?st2 = has_budget st" using c(3) acc by simp
        moreover have "roomForRetry s env k w" if "deadline env = None" for w
          using that by (simp add: roomForRetry_def)
        moreover have "roomForRetry s env k w" if "legacy s" for w
          using that by (simp add: roomForRetry_def split: option.split)
        ultimately have "may_stop s env (has_budget st) k (resp a, err a)"
          using ra False by (auto simp: may_stop_def planRetry_def Let_def split: if_splits)
        then show "?lst \<or> may_stop s env (has_budget st) k (resp a, err a)" ..
      qed (use ra c False in auto)
      ultimately show ?thesis by auto
    next
      case True
      with \<open>\<not> ?stop\<close> r step have e: "retry_loop s env can k st = retry_loop s env can (k + 1) st3" by simp
      from "1.IH" [OF refl refl refl a [symmetric] refl \<open>\<not> ?stop\<close> r [symmetric] eqTrueI [OF True] refl] obtain n where
        n: "loop_post s env can (k + 1) st3 (fst (retry_loop s env can (k + 1) st3)) (snd (retry_loop s env can (k + 1) st3)) n"
        by auto
      have "may_replace s env k"
        unfolding may_replace_def using \<open>\<not> ?stop\<close> ra True make_attempt_result [OF a]
        by (intro conjI exI [of _ "(resp a, err a)"]) (auto simp: planRetry_def Let_def split: if_splits)
      with loop_post_next [OF _ _ _ _ _ _ n] \<open>\<not> ?stop\<close> acc c ra True e show ?thesis
        by (auto simp: is_last_def)
    qed
  qed
qed

abbreviation fresh_call :: "retrySettings \<Rightarrow> retry_state" where
  "fresh_call s \<equiv> \<lparr>bud = budget s, log = []\<rparr>"

lemma doWithRetry_post:
  fixes env :: retry_env
  defines "res m hs s \<equiv> doWithRetry s env m hs (fresh_call s)"
  assumes "1 \<le> maxAttempts s"
  shows "\<exists>n. 1 \<le> n \<and> n \<le> maxAttempts s \<and> (\<not> canRetry s m hs \<longrightarrow> n = 1) \<and> attempts (snd (res m hs s)) = [1..n] \<and>
    spent (snd (res m hs s)) = (if budget s = None then 0 else n - 1) \<and> (\<forall>i \<in> {1..<n}. may_replace s env i) \<and>
    returned_after s env (is_last s (canRetry s m hs) n) (budget s \<noteq> None) n (fst (res m hs s))"
proof -
  let ?st = "\<lparr>bud = map_option (deposit (clock env 0)) (budget s), log = []\<rparr>"
  have r: "res m hs s = retry_loop s env (canRetry s m hs) 1 ?st"
    by (simp add: res_def doWithRetry_def Let_def)
  have "attempts ?st = []" "spent ?st = 0" "has_budget ?st \<longleftrightarrow> budget s \<noteq> None"
    by (simp_all add: account_defs)
  with retry_loop_post [of s env "canRetry s m hs" 1 ?st] assms(2) show ?thesis
    unfolding r loop_post_def by (auto simp: max_def)
qed

lemma resolve_maxAttempts: "maxAttempts (resolve_settings cfg t0) = min (max (MaxRetries cfg) 0 + 1) maxInt64"
    "1 \<le> maxAttempts (resolve_settings cfg t0)"
  by (auto simp: resolve_settings_def int64_num)

section \<open>Properties\<close>

text \<open>
  C21. A call makes between one attempt and \<^verbatim>\<open>MaxRetries\<close> + 1 attempts (at most the largest \<^verbatim>\<open>int\<close>) and
  returns. For every configuration, with or without a per-attempt timeout, every world and every
  request, the loop ends; its attempts are numbered from 1 to some \<open>n\<close>, one only if the request may not
  be retried. Every attempt but the last began with a live context, had a result the policy retries
  (or was cut off by the per-attempt timer with a retry agreed) that the context's end did not cause,
  and, unless the policy is the one that only sets \<^verbatim>\<open>MaxRetries\<close> and does not wait, was followed by a wait
  the context did not end. What is returned is the result of attempt \<open>n\<close>, its response as it was or
  detached from the connection; and where the limit was not reached there is a reason: a context that
  had ended, a result that is not retried, a budget, or a deadline.
\<close>

theorem doWithRetry_attempts:
  assumes "s = resolve_settings cfg t0"
    and "doWithRetry s env m hs (fresh_call s) = (out, st)"
  shows "\<exists>n. 1 \<le> n \<and> n \<le> min (max (MaxRetries cfg) 0 + 1) maxInt64 \<and> (\<not> canRetry s m hs \<longrightarrow> n = 1) \<and>
    attempts st = [1..n] \<and> (\<forall>i \<in> {1..<n}. may_replace s env i) \<and>
    returned_after s env (\<not> canRetry s m hs \<or> n = min (max (MaxRetries cfg) 0 + 1) maxInt64) (budget s \<noteq> None) n out"
proof -
  note m = resolve_maxAttempts [of cfg t0, folded assms(1)]
  from doWithRetry_post [OF m(2), of m hs env] obtain n where n: "1 \<le> n" "n \<le> maxAttempts s" "\<not> canRetry s m hs \<longrightarrow> n = 1"
    "attempts st = [1..n]" "\<forall>i \<in> {1..<n}. may_replace s env i"
    "returned_after s env (is_last s (canRetry s m hs) n) (budget s \<noteq> None) n out"
    unfolding assms(2) by auto
  moreover have "is_last s (canRetry s m hs) n \<longleftrightarrow> \<not> canRetry s m hs \<or> n = maxAttempts s"
    using n(2) by (auto simp: is_last_def)
  ultimately show ?thesis unfolding m(1) [symmetric] by auto
qed

text \<open>A world for the witnesses: the context is never done, every attempt is answered by the status of
  its number.\<close>

definition demo_world :: "(int \<Rightarrow> int) \<Rightarrow> retry_env" where
  "demo_world st =
     (let live = (\<lambda>_. \<lparr>ctxErr = None, ctxCause = None, ctxDeadline = None\<rparr>) in
      \<lparr>httpTime = (\<lambda>_. None), deadline = None, ctxBefore = live, ctxCut = live, ctxAfter = live, ctxWait = live,
       timerFirst = (\<lambda>_. True), timerFires = (\<lambda>_. False),
       reqFunc = (\<lambda>k c. (Some (demo_response (st k) ''''), None)), clock = (\<lambda>k. k)\<rparr>)"

abbreviation demo_call_get :: "outcome \<times> retry_state" where
  "demo_call_get \<equiv> doWithRetry (resolve_settings demo_config 0) (demo_world (\<lambda>k. if k < 3 then 503 else 200))
     ''GET'' [] (fresh_call (resolve_settings demo_config 0))"

theorem doWithRetry_attempts_witness:
  "attempts (snd demo_call_get) = [1, 2, 3] \<and> fst demo_call_get = (Some (demo_response 200 ''''), None)"
proof -
  let ?s = "resolve_settings demo_config 0" and ?w = "demo_world (\<lambda>k. if k < 3 then 503 else 200)"
  have a: "attempts (snd demo_call_get) = [1, 2, 3]" by code_simp
  from doWithRetry_attempts [OF refl, of demo_config 0 ?w "''GET''" "[]" "fst demo_call_get" "snd demo_call_get"]
  obtain n where n: "1 \<le> n" "attempts (snd demo_call_get) = [1..n]" and
    out: "\<exists>r. attempt_result ?s ?w n r \<and> snd (fst demo_call_get) = snd r \<and>
      fst (fst demo_call_get) \<in> {fst r, detachBody (fst r)}"
    by (auto simp: returned_after_def)
  have "n = 3" using n a by (metis last.simps last_snoc list.distinct(1) upto_rec2)
  moreover have "\<not> timer_cuts ?s ?w n" by (simp add: timer_cuts_def demo_world_def Let_def)
  ultimately have "fst demo_call_get \<in> {(Some (demo_response 200 ''''), None)}"
    using out by (cases "fst demo_call_get")
      (simp add: demo_world_def Let_def detachBody_def attempt_result_def timed_out_def)
  with a show ?thesis by simp
qed

text \<open>
  An unsafe request is sent once. When \<^verbatim>\<open>Methods\<close> is configured, a request with a method outside the
  list that carries no idempotency key with a value makes exactly one attempt, whatever the result,
  and takes nothing from the budget.
\<close>

lemma unsafe_request_sent_once:
  assumes "s = resolve_settings cfg t0" and "Methods cfg = Some ms" and "m \<notin> ToUpper ` set ms"
    and "\<forall>(k, v) \<in> set hs. v = '''' \<or> CanonicalHeaderKey k \<noteq> idempotencyKeyHeader s"
  shows "attempts (snd (doWithRetry s env m hs (fresh_call s))) = [1] \<and>
    spent (snd (doWithRetry s env m hs (fresh_call s))) = 0"
proof -
  have "\<not> canRetry s m hs"
    using assms by (auto simp: canRetry_def resolve_settings_def list_ex_iff)
  with doWithRetry_post [of s m hs env] resolve_maxAttempts [of cfg t0] assms(1) show ?thesis by force
qed

lemma unsafe_request_sent_once_witness:
  "attempts (snd (doWithRetry (resolve_settings demo_config 0) (demo_world (\<lambda>_. 503)) ''POST''
     [(''idempotency-key'', '''')] (fresh_call (resolve_settings demo_config 0)))) = [1]"
proof -
  have "Methods demo_config = Some [''get'']" by (simp add: demo_config_def)
  moreover have "''POST'' \<notin> ToUpper ` set [''get'']" by code_simp
  moreover have "\<forall>(k, v) \<in> set [(''idempotency-key'', '''')].
      v = '''' \<or> CanonicalHeaderKey k \<noteq> idempotencyKeyHeader (resolve_settings demo_config 0)" by simp
  ultimately show ?thesis by (rule unsafe_request_sent_once [OF refl, THEN conjunct1])
qed

text \<open>
  The budget pays for every retry and for nothing else. With a budget, the withdrawals of a call that
  were not given back are as many as its retries (attempts after the first), whether the call ends
  with a refusal of the budget, a wait cut short or a final result.
\<close>

lemma budget_pays_for_retries:
  assumes "s = resolve_settings cfg t0" and "Budget cfg = Some bc"
  shows "spent (snd (doWithRetry s env m hs (fresh_call s))) =
    int (length (attempts (snd (doWithRetry s env m hs (fresh_call s))))) - 1"
proof -
  have "budget s \<noteq> None" using assms by (simp add: resolve_settings_def)
  with doWithRetry_post [of s m hs env] resolve_maxAttempts [of cfg t0] assms(1) show ?thesis by force
qed

definition demo_budgeted :: RetryConfig where
  "demo_budgeted = demo_config\<lparr>Budget := Some \<lparr>Ratio = Some 2, MinPerSecond = 0, TTL = 0\<rparr>\<rparr>"

lemma budget_pays_for_retries_witness:
  "let st = snd (doWithRetry (resolve_settings demo_budgeted 0) (demo_world (\<lambda>_. 503)) ''GET'' []
     (fresh_call (resolve_settings demo_budgeted 0)))
   in attempts st = [1, 2, 3] \<and> spent st = 2"
proof -
  let ?st = "snd (doWithRetry (resolve_settings demo_budgeted 0) (demo_world (\<lambda>_. 503)) ''GET'' []
     (fresh_call (resolve_settings demo_budgeted 0)))"
  have "attempts ?st = [1, 2, 3]" by code_simp
  moreover have "Budget demo_budgeted = Some \<lparr>Ratio = Some 2, MinPerSecond = 0, TTL = 0\<rparr>"
    by (simp add: demo_budgeted_def)
  from budget_pays_for_retries [OF refl this, of 0 "demo_world (\<lambda>_. 503)" "''GET''" "[]"]
  have "spent ?st = int (length (attempts ?st)) - 1" .
  ultimately show ?thesis unfolding Let_def by simp
qed

text \<open>
  A response held while waiting is returned intact. Detaching a body keeps the status, the headers and
  every byte still to be read, leaves the body open, and gives the connection back exactly when the body
  is readable and no longer than the limit.
\<close>

lemma detachBody_intact:
  assumes "Body r = Some b" and "\<not> bodyClosed b" and "onWire b"
  shows "\<exists>r' b'. detachBody (Some r) = Some r' \<and> Body r' = Some b' \<and> StatusCode r' = StatusCode r \<and>
    RetryAfter r' = RetryAfter r \<and> content b' = content b \<and> \<not> bodyClosed b' \<and>
    (onWire b' \<longleftrightarrow> readFails b \<or> length (content b) > discardedBodyLimit)"
  using assms by (auto simp: detachBody_def Let_def)

lemma detachBody_intact_witness:
  "let b = \<lparr>content = ''busy'', readFails = False, onWire = True, bodyClosed = False\<rparr> in
   \<exists>r' b'. detachBody (Some \<lparr>StatusCode = 503, RetryAfter = ''1'', Body = Some b\<rparr>) = Some r' \<and>
     Body r' = Some b' \<and> content b' = ''busy'' \<and> \<not> onWire b'"
  using detachBody_intact [of "\<lparr>StatusCode = 503, RetryAfter = ''1'',
      Body = Some \<lparr>content = ''busy'', readFails = False, onWire = True, bodyClosed = False\<rparr>\<rparr>"
      "\<lparr>content = ''busy'', readFails = False, onWire = True, bodyClosed = False\<rparr>"]
  by (auto simp: discardedBodyLimit_def)

end
