(* ===== verification/Rate_Limiter.thy ===== *)
theory Rate_Limiter
  imports Complex_Main Http_Service "HOL-Library.Signed_Division"
begin

text \<open>
  The rate limiter of the HTTP service client, \<^verbatim>\<open>pkg/gofr/service/rate_limiter*.go\<close>: the configuration with its
  defaults, the bucket of tokens in memory, as a function for one caller and as interleaved atomic
  operations for many, the script that keeps a bucket in Redis, the two stores and the limited calls.
  The locale \<open>admission\<close> states what a bucket promises and bounds the calls it admits; both buckets
  interpret it. Numbers of type \<^verbatim>\<open>float64\<close> and of the script are rationals. The parser of URLs and the
  wrapped client are parameters.
\<close>

section \<open>Configuration\<close>

definition nanos :: int where "nanos = 1000000000"
definition Millisecond :: int where "Millisecond = 1000000"
definition defaultWindow :: int where "defaultWindow = 60 * nanos"
definition defaultBurstCapacity :: int where "defaultBurstCapacity = 10"
definition bucketTTL :: int where "bucketTTL = 600 * nanos"

text \<open>What a key function sees of a request: its method, scheme and host of the URL, whether TLS is set, the host.\<close>

record client_request =
  cq_Method :: string
  cq_URL :: "(string \<times> string) option"
  cq_TLS :: bool
  cq_Host :: string

definition unknownServiceKey :: string where "unknownServiceKey = ''unknown''"

definition defaultKeyFunc :: "client_request option \<Rightarrow> string" where
  "defaultKeyFunc req =
     (case req of
        None \<Rightarrow> unknownServiceKey
      | Some r \<Rightarrow>
          (case cq_URL r of
             None \<Rightarrow> unknownServiceKey
           | Some (scheme0, host0) \<Rightarrow>
               let scheme = (if scheme0 = '''' then if cq_TLS r then ''https'' else ''http'' else scheme0);
                   host1 = (if host0 = '''' then cq_Host r else host0);
                   host = (if host1 = '''' then unknownServiceKey else host1)
               in scheme @ ''://'' @ host))"

record RateLimiterConfig =
  Requests :: rat
  Window :: int
  Burst :: int
  KeyFunc :: "(client_request option \<Rightarrow> string) option"

datatype rl_error = errInvalidRequestRate rat | errBurstLessThanRequests int rat

text \<open>The conversion of a float to an integer cuts off the fraction.\<close>

definition trunc :: "rat \<Rightarrow> int" where
  "trunc q = (if 0 \<le> q then \<lfloor>q\<rfloor> else - \<lfloor>- q\<rfloor>)"

definition rl_Validate :: "RateLimiterConfig \<Rightarrow> rl_error option \<times> RateLimiterConfig" where
  "rl_Validate c0 =
     (let (e1, c1) = (if Requests c0 \<le> 0 then (Some (errInvalidRequestRate (Requests c0)), c0\<lparr>Requests := 60\<rparr>) else (None, c0));
          c2 = (if Window c1 \<le> 0 then c1\<lparr>Window := defaultWindow\<rparr> else c1);
          c3 = (if Burst c2 \<le> 0 then c2\<lparr>Burst := defaultBurstCapacity\<rparr> else c2);
          (e4, c4) = (if of_int (Burst c3) < Requests c3
                      then (Some (errBurstLessThanRequests (Burst c3) (Requests c3)), c3\<lparr>Burst := trunc (Requests c3)\<rparr>)
                      else (e1, c3));
          c5 = (case KeyFunc c4 of None \<Rightarrow> c4\<lparr>KeyFunc := Some defaultKeyFunc\<rparr> | Some _ \<Rightarrow> c4)
      in (e4, c5))"

definition RequestsPerSecond :: "RateLimiterConfig \<Rightarrow> rat" where
  "RequestsPerSecond c = Requests c / (of_int (Window c) / of_int nanos)"

section \<open>The bucket in memory\<close>

record tokenBucket =
  tokens :: int
  lastRefillTime :: int
  maxTokens :: int
  refillRate :: int

definition newTokenBucket :: "RateLimiterConfig \<Rightarrow> int \<Rightarrow> tokenBucket" where
  "newTokenBucket c now =
     \<lparr>tokens = Burst c, lastRefillTime = now, maxTokens = Burst c, refillRate = trunc (RequestsPerSecond c)\<rparr>"

datatype allow_result = Allowed | Denied int | DivideByZero

definition tokensToAdd :: "tokenBucket \<Rightarrow> int \<Rightarrow> int" where
  "tokensToAdd tb now = wrap64 (wrap64 (now - lastRefillTime tb) * refillRate tb) sdiv nanos"

definition newTokens :: "tokenBucket \<Rightarrow> int \<Rightarrow> int \<Rightarrow> int" where
  "newTokens tb old add = (let n = wrap64 (old + add) in if n > maxTokens tb then maxTokens tb else n)"

definition tb_wait :: "tokenBucket \<Rightarrow> int \<Rightarrow> allow_result" where
  "tb_wait tb n =
     (if refillRate tb = 0 then DivideByZero
      else let waitTime = wrap64 (wrap64 (1 - n) * nanos) sdiv refillRate tb
           in Denied (if waitTime < Millisecond then Millisecond else waitTime))"

text \<open>The call of one caller with no other around: the compare-and-swap succeeds at once.\<close>

definition allow :: "int \<Rightarrow> tokenBucket \<Rightarrow> allow_result \<times> tokenBucket" where
  "allow now tb =
     (let n = newTokens tb (tokens tb) (tokensToAdd tb now) in
      if n < 1 then (tb_wait tb n, tb)
      else (Allowed, tb\<lparr>tokens := n - 1, lastRefillTime := now\<rparr>))"

subsection \<open>Concurrent callers\<close>

text \<open>Where a caller stands in \<open>allow\<close>: the clock is read, the refill computed from the shared time, the
  tokens loaded, or swapped with the time still to be stored.\<close>

datatype tb_pc =
    Idle
  | Entered int
  | Computed int int
  | Loaded int int int
  | Swapped int
  | Crashed

record tb_sys =
  bucket :: tokenBucket
  clock :: int
  pcs :: "nat \<Rightarrow> tb_pc"
  admitted :: nat

datatype tb_act = Tick nat | Enter nat | LoadLast nat | LoadTokens nat | Swap nat | StoreLast nat

definition set_pc :: "nat \<Rightarrow> tb_pc \<Rightarrow> tb_sys \<Rightarrow> tb_sys" where
  "set_pc g p s = s\<lparr>pcs := (pcs s)(g := p)\<rparr>"

definition swap_tokens :: "nat \<Rightarrow> int \<Rightarrow> int \<Rightarrow> int \<Rightarrow> tb_sys \<Rightarrow> tb_sys" where
  "swap_tokens g now add old s =
     (let n = newTokens (bucket s) old add in
      if n < 1 then set_pc g (if tb_wait (bucket s) n = DivideByZero then Crashed else Idle) s
      else if tokens (bucket s) = old
        then set_pc g (Swapped now) (s\<lparr>bucket := (bucket s)\<lparr>tokens := n - 1\<rparr>, admitted := Suc (admitted s)\<rparr>)
        else set_pc g (Computed now add) s)"

fun tb_exec :: "tb_act \<Rightarrow> tb_sys \<Rightarrow> tb_sys option" where
  "tb_exec (Tick d) s = Some (s\<lparr>clock := clock s + int d\<rparr>)"
| "tb_exec (Enter g) s = (if pcs s g = Idle then Some (set_pc g (Entered (clock s)) s) else None)"
| "tb_exec (LoadLast g) s =
     (case pcs s g of Entered now \<Rightarrow> Some (set_pc g (Computed now (tokensToAdd (bucket s) now)) s) | _ \<Rightarrow> None)"
| "tb_exec (LoadTokens g) s =
     (case pcs s g of Computed now add \<Rightarrow> Some (set_pc g (Loaded now add (tokens (bucket s))) s) | _ \<Rightarrow> None)"
| "tb_exec (Swap g) s = (case pcs s g of Loaded now add old \<Rightarrow> Some (swap_tokens g now add old s) | _ \<Rightarrow> None)"
| "tb_exec (StoreLast g) s =
     (case pcs s g of
        Swapped now \<Rightarrow> Some (set_pc g Idle (s\<lparr>bucket := (bucket s)\<lparr>lastRefillTime := now\<rparr>\<rparr>))
      | _ \<Rightarrow> None)"

definition tb_step :: "tb_sys \<Rightarrow> tb_sys \<Rightarrow> bool" where
  "tb_step s t \<longleftrightarrow> (\<exists>a. tb_exec a s = Some t)"

definition tb_start :: "tokenBucket \<Rightarrow> tb_sys" where
  "tb_start tb = \<lparr>bucket = tb, clock = lastRefillTime tb, pcs = (\<lambda>_. Idle), admitted = 0\<rparr>"

fun tb_run :: "tb_act list \<Rightarrow> tb_sys \<Rightarrow> tb_sys option" where
  "tb_run [] s = Some s"
| "tb_run (a # as) s = (case tb_exec a s of None \<Rightarrow> None | Some t \<Rightarrow> tb_run as t)"

section \<open>The stores\<close>

record bucketEntry =
  be_bucket :: tokenBucket
  lastAccess :: int

text \<open>The answer of a store: allowed, the time to wait, whether there was an error; or it panics.\<close>

datatype store_answer = Answer bool int bool | StorePanics

text \<open>The clock is read for the access time, for a new bucket and in \<open>allow\<close>.\<close>

definition LocalAllow ::
    "string \<Rightarrow> RateLimiterConfig \<Rightarrow> int \<times> int \<times> int \<Rightarrow> (string \<rightharpoonup> bucketEntry) \<Rightarrow> store_answer \<times> (string \<rightharpoonup> bucketEntry)" where
  "LocalAllow key c reads buckets =
     (case reads of (t1, t2, t3) \<Rightarrow>
        let now = t1 div nanos;
            entry = (case buckets key of Some be \<Rightarrow> be | None \<Rightarrow> \<lparr>be_bucket = newTokenBucket c t2, lastAccess = now\<rparr>);
            (res, tb) = allow t3 (be_bucket entry);
            buckets' = buckets(key \<mapsto> \<lparr>be_bucket = tb, lastAccess = now\<rparr>)
        in (case res of
              Allowed \<Rightarrow> (Answer True 0 False, buckets')
            | Denied w \<Rightarrow> (Answer False w False, buckets')
            | DivideByZero \<Rightarrow> (StorePanics, buckets')))"

definition cleanupExpiredBuckets :: "int \<Rightarrow> (string \<rightharpoonup> bucketEntry) \<Rightarrow> (string \<rightharpoonup> bucketEntry)" where
  "cleanupExpiredBuckets t buckets =
     (let cutoff = t div nanos - bucketTTL div nanos in
      (\<lambda>key. case buckets key of None \<Rightarrow> None | Some be \<Rightarrow> if lastAccess be < cutoff then None else Some be))"

subsection \<open>The script for Redis\<close>

text \<open>The hash of a key, with the time of the Redis server at which it expires.\<close>

record redis_bucket =
  rb_tokens :: rat
  rb_last :: int
  rb_expires :: int

definition redis_ttl :: int where "redis_ttl = 600 * nanos"

text \<open>A key that has expired is gone.\<close>

definition redis_live :: "int \<Rightarrow> redis_bucket option \<Rightarrow> redis_bucket option" where
  "redis_live server_now stored =
     (case stored of None \<Rightarrow> None | Some b \<Rightarrow> if server_now < rb_expires b then Some b else None)"

text \<open>The script: \<open>now\<close> is the time of the caller, \<open>server_now\<close> that of the Redis server, whose \<^verbatim>\<open>EXPIRE\<close> counts from the call.\<close>

definition tokenBucketScript ::
    "rat \<Rightarrow> rat \<Rightarrow> int \<Rightarrow> int \<Rightarrow> int \<Rightarrow> redis_bucket option \<Rightarrow> (int \<times> int) \<times> redis_bucket" where
  "tokenBucketScript burst requests window_ns now server_now stored =
     (let exp = server_now + redis_ttl;
          b0 = (case redis_live server_now stored of None \<Rightarrow> \<lparr>rb_tokens = burst, rb_last = now, rb_expires = exp\<rparr> | Some b \<Rightarrow> b);
          b1 = (if now > rb_last b0
                then b0\<lparr>rb_tokens := rb_tokens b0 + of_int (now - rb_last b0) * requests / of_int window_ns, rb_last := now\<rparr>
                else b0);
          t = min burst (rb_tokens b1)
      in if t \<ge> 1 then ((1, 0), b1\<lparr>rb_tokens := t - 1, rb_expires := exp\<rparr>)
         else ((0, \<lceil>(1 - t) * of_int window_ns / requests / 1000000\<rceil>), b1\<lparr>rb_tokens := t, rb_expires := exp\<rparr>))"

datatype redis_any = RInt int | RFloat rat | RString string | ROther

definition toInt64 :: "redis_any \<Rightarrow> int" where
  "toInt64 v =
     (case v of RInt n \<Rightarrow> n | RFloat q \<Rightarrow> trunc q | RString s \<Rightarrow> if s = '''' then 0 else fst (Atoi s) | ROther \<Rightarrow> 0)"

text \<open>What comes back from the client: an error, something else than an array of two, or the array.\<close>

datatype eval_result = EvalError | EvalOther | EvalPair redis_any redis_any

definition allowAt :: "eval_result \<Rightarrow> store_answer" where
  "allowAt r =
     (case r of
        EvalError \<Rightarrow> Answer True 0 True
      | EvalOther \<Rightarrow> Answer True 0 True
      | EvalPair a w \<Rightarrow> Answer (toInt64 a = 1) (wrap64 (toInt64 w * Millisecond)) False)"

definition RedisAllow ::
    "string \<Rightarrow> RateLimiterConfig \<Rightarrow> int \<Rightarrow> int \<Rightarrow> bool \<Rightarrow> (string \<rightharpoonup> redis_bucket) \<Rightarrow> store_answer \<times> (string \<rightharpoonup> redis_bucket)" where
  "RedisAllow key c now server_now unreachable db =
     (if unreachable then (allowAt EvalError, db)
      else (case tokenBucketScript (of_int (Burst c)) (Requests c) (Window c) now server_now (db (''gofr:ratelimit:'' @ key)) of
              ((a, w), b) \<Rightarrow> (allowAt (EvalPair (RInt a) (RInt w)), db(''gofr:ratelimit:'' @ key \<mapsto> b))))"

section \<open>Limited calls\<close>

text \<open>\<open>base\<close> is the URL of the wrapped client if it is a plain HTTP service.\<close>

definition buildFullURL :: "string option \<Rightarrow> string \<Rightarrow> string" where
  "buildFullURL base path =
     (if HasPrefix path ''http://'' \<or> HasPrefix path ''https://'' then path
      else (case base of
              None \<Rightarrow> path
            | Some url \<Rightarrow>
                let b = TrimRight url (CHR ''/'') in
                if b = '''' then path
                else b @ (if HasPrefix path ''/'' then path else CHR ''/'' # path)))"

datatype 'a limited = Forwarded 'a | Refused string int | Panics

text \<open>A request that could not be built is nil, and asking it for its context panics, as does calling a nil key
  function. A failing store lets the call pass.\<close>

definition checkRateLimit ::
    "RateLimiterConfig \<Rightarrow> (string \<Rightarrow> 's \<Rightarrow> store_answer \<times> 's) \<Rightarrow> client_request option \<Rightarrow> 's \<Rightarrow> (unit limited) \<times> 's" where
  "checkRateLimit c Allow req st =
     (case KeyFunc c of
        None \<Rightarrow> (Panics, st)
      | Some f \<Rightarrow>
          let serviceKey = f req in
          if req = None then (Panics, st)
          else (case Allow serviceKey st of
                  (StorePanics, st') \<Rightarrow> (Panics, st')
                | (Answer allowed retryAfter err, st') \<Rightarrow>
                    if err then (Forwarded (), st')
                    else if \<not> allowed then (Refused serviceKey retryAfter, st')
                    else (Forwarded (), st')))"

text \<open>The methods of the client differ in the HTTP method and in the arguments they pass on.\<close>

definition limited_call ::
    "RateLimiterConfig \<Rightarrow> (string \<Rightarrow> string \<Rightarrow> client_request option) \<Rightarrow> (string \<Rightarrow> 's \<Rightarrow> store_answer \<times> 's) \<Rightarrow> string option \<Rightarrow>
     string \<Rightarrow> string \<Rightarrow> (unit \<Rightarrow> 'a) \<Rightarrow> 's \<Rightarrow> 'a limited \<times> 's" where
  "limited_call c newRequest Allow base meth path inner st =
     (let fullURL = buildFullURL base path; req = newRequest meth fullURL in
      case checkRateLimit c Allow req st of
        (Forwarded _, st') \<Rightarrow> (Forwarded (inner ()), st')
      | (Refused k w, st') \<Rightarrow> (Refused k w, st')
      | (Panics, st') \<Rightarrow> (Panics, st'))"

definition rl_AddOption :: "RateLimiterConfig \<Rightarrow> RateLimiterConfig" where
  "rl_AddOption c = snd (rl_Validate c)"

section \<open>The contract of a bucket\<close>

text \<open>How many of the calls at the given times a bucket admits.\<close>

fun admissions :: "('b \<Rightarrow> 't \<Rightarrow> bool \<times> 'b) \<Rightarrow> 'b \<Rightarrow> 't list \<Rightarrow> nat" where
  "admissions take_token b [] = 0"
| "admissions take_token b (t # ts) =
     (case take_token b t of (a, b') \<Rightarrow> (if a then 1 else 0) + admissions take_token b' ts)"

fun after_calls :: "('b \<Rightarrow> int \<Rightarrow> bool \<times> 'b) \<Rightarrow> 'b \<Rightarrow> int list \<Rightarrow> 'b" where
  "after_calls take_token b [] = b"
| "after_calls take_token b (t # ts) = after_calls take_token (snd (take_token b t)) ts"

lemma potential_chain: "n \<le> l' + p \<Longrightarrow> l' + e \<le> l + q \<Longrightarrow> e + n \<le> l + (p + q)" for n :: rat
  by linarith

lemma rate_split: "r * of_int (a - b) + r * of_int (b - c) = r * of_int (a - c)" for r :: rat
  by (simp add: algebra_simps)

lemma min_shift: "0 \<le> d \<Longrightarrow> min a (x + d) \<le> min a x + d" for d :: rat
  by (simp add: min_def)

text \<open>The level of a bucket at a time is what it could give then. It never exceeds the burst, grows at most at
  the rate, and every admitted call takes one token of it.\<close>

locale admission =
  fixes take_token :: "'b \<Rightarrow> int \<Rightarrow> bool \<times> 'b"
    and ok :: "'b \<Rightarrow> int \<Rightarrow> bool"
    and level :: "'b \<Rightarrow> int \<Rightarrow> rat"
    and rate :: rat
    and burst :: rat
    and horizon :: int
  assumes level_range: "ok b t \<Longrightarrow> 0 \<le> level b t \<and> level b t \<le> burst"
    and take_ok: "ok b t \<Longrightarrow> t \<le> now \<Longrightarrow> now \<le> horizon \<Longrightarrow> ok (snd (take_token b now)) now"
    and take_level: "ok b t \<Longrightarrow> t \<le> now \<Longrightarrow> now \<le> horizon \<Longrightarrow>
      level (snd (take_token b now)) now + (if fst (take_token b now) then 1 else 0) \<le> level b t + rate * of_int (now - t)"
begin

lemma admissions_level:
  "ok b t \<Longrightarrow> sorted (t # ts) \<Longrightarrow> \<forall>u \<in> set ts. u \<le> horizon \<Longrightarrow>
   of_nat (admissions take_token b ts) \<le> level b t + rate * of_int (last (t # ts) - t)"
proof (induction ts arbitrary: b t)
  case Nil
  then show ?case using level_range by simp
next
  case (Cons now ts)
  obtain a b' where r: "take_token b now = (a, b')" by (rule prod.exhaust)
  have t: "t \<le> now" "now \<le> horizon" "sorted (now # ts)" "\<forall>u \<in> set ts. u \<le> horizon" using Cons.prems by auto
  have "ok b' now" using take_ok [OF Cons.prems(1) t(1,2)] r by simp
  note IH = Cons.IH [OF this t(3,4)]
  have "level b' now + (if a then 1 else 0) \<le> level b t + rate * of_int (now - t)"
    using take_level [OF Cons.prems(1) t(1,2)] r by simp
  from potential_chain [OF IH this]
  have "(if a then 1 else 0) + of_nat (admissions take_token b' ts) \<le> level b t + rate * of_int (last (now # ts) - t)"
    by (simp only: flip: distrib_left of_int_add) simp
  with r show ?case by (cases a; cases "ts = []") simp_all
qed

lemma admissions_bounded:
  "ok b t \<Longrightarrow> sorted (t # ts) \<Longrightarrow> \<forall>u \<in> set ts. u \<le> horizon \<Longrightarrow>
   of_nat (admissions take_token b ts) \<le> burst + rate * of_int (last (t # ts) - t)"
  using admissions_level [of b t ts] level_range [of b t] by linarith

end

section \<open>The bucket in memory keeps the contract\<close>

definition local_take :: "tokenBucket \<Rightarrow> int \<Rightarrow> bool \<times> tokenBucket" where
  "local_take tb now = (fst (allow now tb) = Allowed, snd (allow now tb))"

definition local_ok :: "int \<Rightarrow> int \<Rightarrow> tokenBucket \<Rightarrow> int \<Rightarrow> bool" where
  "local_ok r m tb t \<longleftrightarrow> refillRate tb = r \<and> maxTokens tb = m \<and> 0 \<le> r \<and> r \<le> maxInt64 \<and> m \<le> maxInt64 \<and>
     0 \<le> tokens tb \<and> tokens tb \<le> m \<and> 0 \<le> lastRefillTime tb \<and> lastRefillTime tb \<le> t"

definition local_level :: "int \<Rightarrow> int \<Rightarrow> tokenBucket \<Rightarrow> int \<Rightarrow> rat" where
  "local_level r m tb t = min (of_int m) (of_int (tokens tb) + of_int r / of_int nanos * of_int (t - lastRefillTime tb))"

lemma wrap64_le: "minInt64 \<le> x \<Longrightarrow> wrap64 x \<le> x"
proof -
  assume "minInt64 \<le> x"
  then have "(x + 2 ^ 63) mod 2 ^ 64 \<le> x + 2 ^ 63" by (intro zmod_le_nonneg_dividend) (simp add: int64_num)
  then show ?thesis by (simp add: wrap64_def)
qed

lemma sdiv_pos: "0 < d \<Longrightarrow> 0 \<le> x \<Longrightarrow> x sdiv d = x div d" for x d :: int
  by (cases "x = 0") (simp_all add: signed_divide_int_def)

lemma sdiv_neg_le: "0 < d \<Longrightarrow> x \<le> 0 \<Longrightarrow> x sdiv d \<le> 0" for x d :: int
  by (cases "x = 0") (simp_all add: signed_divide_int_def pos_imp_zdiv_nonneg_iff)

lemma sdiv_wrap_le:
  assumes "0 \<le> x" and "0 < d"
  shows "of_int (wrap64 x sdiv d) \<le> (of_int x / of_int d :: rat)"
proof (cases "0 \<le> wrap64 x")
  case True
  have "wrap64 x \<le> x" using assms(1) by (intro wrap64_le) (simp add: int64_num)
  then have "wrap64 x sdiv d \<le> x div d" using True assms(2) by (simp add: sdiv_pos zdiv_mono1)
  then have "of_int (wrap64 x sdiv d) \<le> (of_int (x div d) :: rat)" by simp
  also have "\<dots> = of_int \<lfloor>of_int x / (of_int d :: rat)\<rfloor>" by (simp only: floor_divide_of_int_eq)
  also have "\<dots> \<le> of_int x / of_int d" by (rule of_int_floor_le)
  finally show ?thesis .
next
  case False
  then have "wrap64 x sdiv d \<le> 0" using assms(2) by (intro sdiv_neg_le) simp_all
  then have "of_int (wrap64 x sdiv d) \<le> (0 :: rat)" by simp
  also have "\<dots> \<le> of_int x / of_int d" using assms by simp
  finally show ?thesis .
qed

lemma sdiv_int64: "x sdiv nanos \<ge> minInt64" if "minInt64 \<le> x" for x
  using that by (auto simp: signed_divide_int_def nanos_def int64_num sgn_if)

lemma tokensToAdd_le:
  assumes "local_ok r m tb t" and "t \<le> now" and "now \<le> maxInt64"
  shows "of_int (tokensToAdd tb now) \<le> (of_int r / of_int nanos * of_int (now - lastRefillTime tb) :: rat)"
proof -
  have "wrap64 (now - lastRefillTime tb) = now - lastRefillTime tb"
    using assms by (intro wrap64_id) (auto simp: local_ok_def int64_num)
  moreover have "0 \<le> (now - lastRefillTime tb) * r" using assms by (simp add: local_ok_def)
  from sdiv_wrap_le [OF this, of nanos]
  have "of_int (wrap64 ((now - lastRefillTime tb) * r) sdiv nanos) \<le> (of_int ((now - lastRefillTime tb) * r) / of_int nanos :: rat)"
    by (simp add: nanos_def)
  ultimately show ?thesis using assms(1) by (simp add: tokensToAdd_def local_ok_def mult.commute)
qed

lemma newTokens_le: "0 \<le> old \<Longrightarrow> minInt64 \<le> add \<Longrightarrow> newTokens tb old add \<le> old + add"
  using wrap64_le [of "old + add"] by (simp add: newTokens_def Let_def)

lemma newTokens_max: "newTokens tb old add \<le> maxTokens tb"
  by (simp add: newTokens_def Let_def)

lemma allow_cases:
  obtains n where "n = newTokens tb (tokens tb) (tokensToAdd tb now)" "n < 1" "allow now tb = (tb_wait tb n, tb)" "tb_wait tb n \<noteq> Allowed"
  | n where "n = newTokens tb (tokens tb) (tokensToAdd tb now)" "1 \<le> n" "allow now tb = (Allowed, tb\<lparr>tokens := n - 1, lastRefillTime := now\<rparr>)"
  by (cases "newTokens tb (tokens tb) (tokensToAdd tb now) < 1") (auto simp: allow_def Let_def tb_wait_def)

lemma minInt64_tokensToAdd: "minInt64 \<le> tokensToAdd tb now"
  using wrap64_bounds by (auto simp: tokensToAdd_def intro!: sdiv_int64)

lemma local_level_mono:
  assumes "local_ok r m tb t" and "t \<le> now"
  shows "local_level r m tb now \<le> local_level r m tb t + of_int r / of_int nanos * of_int (now - t)"
proof -
  have "0 \<le> (of_int r / of_int nanos * of_int (now - t) :: rat)" using assms by (simp add: local_ok_def nanos_def)
  from min_shift [OF this, of "of_int m" "of_int (tokens tb) + of_int r / of_int nanos * of_int (t - lastRefillTime tb)"]
  have "min (of_int m) (of_int (tokens tb) + of_int r / of_int nanos * (of_int (t - lastRefillTime tb) + of_int (now - t)))
      \<le> local_level r m tb t + of_int r / of_int nanos * of_int (now - t)"
    by (simp only: local_level_def distrib_left add.assoc)
  then show ?thesis by (simp add: local_level_def)
qed

lemma local_take_level:
  assumes "local_ok r m tb t" and "t \<le> now" and "now \<le> maxInt64"
  shows "local_level r m (snd (allow now tb)) now + (if fst (allow now tb) = Allowed then 1 else 0) \<le> local_level r m tb now"
proof (cases rule: allow_cases [of tb now])
  case (2 n)
  have "n \<le> tokens tb + tokensToAdd tb now" "n \<le> m"
    using 2(1) newTokens_le [of "tokens tb" "tokensToAdd tb now" tb] newTokens_max [of tb] minInt64_tokensToAdd assms(1)
    by (auto simp: local_ok_def)
  then have "of_int n \<le> (of_int (tokens tb) + of_int (tokensToAdd tb now) :: rat)" "of_int n \<le> (of_int m :: rat)"
    by (simp_all flip: of_int_add)
  with tokensToAdd_le [OF assms] have "of_int n \<le> local_level r m tb now" by (simp add: local_level_def)
  with 2(3) show ?thesis by (simp add: local_level_def)
qed simp

interpretation local_bucket: admission local_take "local_ok r m" "local_level r m" "of_int r / of_int nanos" "of_int m" maxInt64
  for r m
proof
  fix tb t assume ok: "local_ok r m tb t"
  then have "0 \<le> (of_int r / of_int nanos * of_int (t - lastRefillTime tb) :: rat)" by (simp add: local_ok_def nanos_def)
  with ok show "0 \<le> local_level r m tb t \<and> local_level r m tb t \<le> of_int m" by (auto simp: local_ok_def local_level_def)
next
  fix tb t now assume ok: "local_ok r m tb t" and t: "t \<le> now" "now \<le> maxInt64"
  show "local_ok r m (snd (local_take tb now)) now"
    using ok t newTokens_max [of tb "tokens tb" "tokensToAdd tb now"] by (cases rule: allow_cases [of tb now]) (auto simp: local_take_def local_ok_def)
  show "local_level r m (snd (local_take tb now)) now + (if fst (local_take tb now) then 1 else 0)
      \<le> local_level r m tb t + of_int r / of_int nanos * of_int (now - t)"
    using local_take_level [OF ok t] local_level_mono [OF ok t(1)] by (simp add: local_take_def)
qed

section \<open>The script for Redis keeps the contract\<close>

text \<open>A call is made at a time of the caller and a time of the server.\<close>

definition redis_take :: "rat \<Rightarrow> rat \<Rightarrow> int \<Rightarrow> redis_bucket option \<Rightarrow> int \<times> int \<Rightarrow> bool \<times> redis_bucket option" where
  "redis_take burst requests window b c =
     (case tokenBucketScript burst requests window (fst c) (snd c) b of ((a, w), b') \<Rightarrow> (a = 1, Some b'))"

definition bucket_ok :: "rat \<Rightarrow> rat \<Rightarrow> int \<Rightarrow> redis_bucket option \<Rightarrow> int \<Rightarrow> bool" where
  "bucket_ok burst requests window b t \<longleftrightarrow> 0 \<le> requests \<and> 0 < window \<and> 0 \<le> burst \<and>
     (case b of None \<Rightarrow> True | Some rb \<Rightarrow> 0 \<le> rb_tokens rb \<and> rb_tokens rb \<le> burst \<and> rb_last rb \<le> t)"

definition redis_ok :: "rat \<Rightarrow> rat \<Rightarrow> int \<Rightarrow> int \<Rightarrow> redis_bucket option \<Rightarrow> int \<Rightarrow> bool" where
  "redis_ok burst requests window sv b t \<longleftrightarrow> bucket_ok burst requests window b t \<and> redis_live sv b = b"

definition redis_level :: "rat \<Rightarrow> rat \<Rightarrow> int \<Rightarrow> redis_bucket option \<Rightarrow> int \<Rightarrow> rat" where
  "redis_level burst requests window b t =
     (case b of None \<Rightarrow> burst | Some rb \<Rightarrow> min burst (rb_tokens rb + requests / of_int window * of_int (t - rb_last rb)))"

text \<open>The bucket as the script sees it after the refill.\<close>

definition redis_refilled :: "rat \<Rightarrow> rat \<Rightarrow> int \<Rightarrow> int \<Rightarrow> int \<Rightarrow> redis_bucket option \<Rightarrow> redis_bucket" where
  "redis_refilled burst requests window now sv b =
     (case b of None \<Rightarrow> \<lparr>rb_tokens = burst, rb_last = now, rb_expires = sv + redis_ttl\<rparr>
      | Some rb \<Rightarrow>
          \<lparr>rb_tokens = min burst (rb_tokens rb + requests / of_int window * of_int (max now (rb_last rb) - rb_last rb)),
           rb_last = max now (rb_last rb), rb_expires = sv + redis_ttl\<rparr>)"

lemma script_refilled:
  "tokenBucketScript burst requests window now sv b =
     (let rb = redis_refilled burst requests window now sv (redis_live sv b); t = rb_tokens rb in
      if t \<ge> 1 then ((1, 0), rb\<lparr>rb_tokens := t - 1\<rparr>)
      else ((0, \<lceil>(1 - t) * of_int window / requests / 1000000\<rceil>), rb))"
  by (cases "redis_live sv b") (auto simp: tokenBucketScript_def redis_refilled_def Let_def max_def mult.commute)

lemma refilled_level:
  assumes "bucket_ok burst requests window b t" and "t \<le> now"
  shows "rb_tokens (redis_refilled burst requests window now sv b) = redis_level burst requests window b now"
    and "rb_last (redis_refilled burst requests window now sv b) = now"
    and "0 \<le> redis_level burst requests window b now" and "redis_level burst requests window b now \<le> burst"
proof -
  have "max now (rb_last rb) = now" if "b = Some rb" for rb using that assms by (simp add: bucket_ok_def)
  with assms show "rb_tokens (redis_refilled burst requests window now sv b) = redis_level burst requests window b now"
    "rb_last (redis_refilled burst requests window now sv b) = now"
    "0 \<le> redis_level burst requests window b now" "redis_level burst requests window b now \<le> burst"
    by (auto simp: redis_refilled_def redis_level_def bucket_ok_def split: option.splits)
qed

lemma redis_level_mono:
  assumes "bucket_ok burst requests window b t" and "t \<le> now"
  shows "redis_level burst requests window b now \<le> redis_level burst requests window b t + requests / of_int window * of_int (now - t)"
proof -
  have d: "0 \<le> requests / of_int window * of_int (now - t)" using assms by (simp add: bucket_ok_def)
  show ?thesis
  proof (cases b)
    case None
    with d show ?thesis by (simp add: redis_level_def)
  next
    case (Some rb)
    from min_shift [OF d, of burst "rb_tokens rb + requests / of_int window * of_int (t - rb_last rb)"]
    have "min burst (rb_tokens rb + requests / of_int window * (of_int (t - rb_last rb) + of_int (now - t)))
        \<le> redis_level burst requests window b t + requests / of_int window * of_int (now - t)"
      by (simp only: Some redis_level_def option.case distrib_left add.assoc)
    with Some show ?thesis by (simp add: redis_level_def)
  qed
qed

lemma refilled_expires [simp]: "rb_expires (redis_refilled burst requests window now sv b) = sv + redis_ttl"
  by (simp add: redis_refilled_def split: option.split)

lemma redis_ttl_pos: "0 < redis_ttl"
  by (simp add: redis_ttl_def nanos_def)

text \<open>The contract, for a key that has not expired at the server's time of the call.\<close>

interpretation redis_bucket: admission "\<lambda>b now. redis_take burst requests window b (now, sv)" "redis_ok burst requests window sv"
  "redis_level burst requests window" "requests / of_int window" burst horizon
  for burst requests window sv horizon
proof
  fix b t assume "redis_ok burst requests window sv b t"
  then have "bucket_ok burst requests window b t" by (simp add: redis_ok_def)
  from refilled_level(3,4) [OF this order_refl]
  show "0 \<le> redis_level burst requests window b t \<and> redis_level burst requests window b t \<le> burst" by simp
next
  fix b t now assume "redis_ok burst requests window sv b t" and t: "t \<le> now"
  then have ok: "bucket_ok burst requests window b t" and live: "redis_live sv b = b" by (simp_all add: redis_ok_def)
  note l = refilled_level [OF ok t]
  have "redis_live sv (snd (redis_take burst requests window b (now, sv))) = snd (redis_take burst requests window b (now, sv))"
    using redis_ttl_pos by (auto simp: redis_take_def script_refilled live redis_live_def Let_def)
  then show "redis_ok burst requests window sv (snd (redis_take burst requests window b (now, sv))) now"
    using ok l by (auto simp: redis_take_def script_refilled live Let_def redis_ok_def bucket_ok_def)
  have "redis_level burst requests window (snd (redis_take burst requests window b (now, sv))) now +
      (if fst (redis_take burst requests window b (now, sv)) then 1 else 0) \<le> redis_level burst requests window b now"
    using l by (auto simp: redis_take_def script_refilled live Let_def redis_level_def)
  with redis_level_mono [OF ok t]
  show "redis_level burst requests window (snd (redis_take burst requests window b (now, sv))) now +
      (if fst (redis_take burst requests window b (now, sv)) then 1 else 0)
      \<le> redis_level burst requests window b t + requests / of_int window * of_int (now - t)" by simp
qed

text \<open>A clock that lags behind is set to the time of the bucket.\<close>

lemma script_lag:
  "redis_live sv (Some rb) = Some rb \<Longrightarrow>
   tokenBucketScript burst requests window (max now (rb_last rb)) sv (Some rb) = tokenBucketScript burst requests window now sv (Some rb)"
  by (simp add: script_refilled redis_refilled_def)

lemma redis_take_some:
  obtains a rb' where "redis_take burst requests window b (now, sv) = (a, Some rb')" "rb_expires rb' = sv + redis_ttl"
    "rb_last rb' = (case redis_live sv b of None \<Rightarrow> now | Some rb \<Rightarrow> max now (rb_last rb))"
proof -
  obtain a w rb' where "tokenBucketScript burst requests window now sv b = ((a, w), rb')" by (metis prod.exhaust)
  then have "redis_take burst requests window b (now, sv) = (a = 1, Some rb')" "rb_expires rb' = sv + redis_ttl"
    "rb_last rb' = (case redis_live sv b of None \<Rightarrow> now | Some rb \<Rightarrow> max now (rb_last rb))"
    by (auto simp: redis_take_def script_refilled Let_def redis_refilled_def split: if_splits option.splits)
  then show thesis by (rule that)
qed

text \<open>Every time a key has expired before a call, the rate has filled the bucket since the latest time of any call.
  \<open>latest\<close> is that time and \<open>expires\<close> the server's time at which the key expires.\<close>

fun full_at_expiry :: "rat \<Rightarrow> rat \<Rightarrow> int \<Rightarrow> int \<Rightarrow> (int \<times> int) list \<Rightarrow> bool" where
  "full_at_expiry burst rate latest expires [] = True"
| "full_at_expiry burst rate latest expires ((u, sv) # cs) =
     ((expires \<le> sv \<longrightarrow> burst \<le> rate * of_int (u - latest)) \<and> full_at_expiry burst rate (max u latest) (sv + redis_ttl) cs)"

lemma redis_admissions_from:
  "bucket_ok burst requests window (Some rb) (rb_last rb) \<Longrightarrow> 0 < requests \<Longrightarrow> \<forall>(u, sv) \<in> set cs. u \<le> T \<Longrightarrow> rb_last rb \<le> T \<Longrightarrow>
   full_at_expiry burst (requests / of_int window) (rb_last rb) (rb_expires rb) cs \<Longrightarrow>
   of_nat (admissions (redis_take burst requests window) (Some rb) cs)
     \<le> redis_level burst requests window (Some rb) (rb_last rb) + requests / of_int window * of_int (T - rb_last rb)"
proof (induction cs arbitrary: rb)
  case Nil
  then have "0 \<le> requests / of_int window * of_int (T - rb_last rb)" by (simp add: bucket_ok_def)
  with refilled_level(3) [OF Nil.prems(1) order_refl] show ?case by simp
next
  case (Cons c cs)
  obtain u sv where c: "c = (u, sv)" by (cases c)
  let ?r = "requests / of_int window" and ?l = "redis_level burst requests window"
  obtain a rb' where r: "redis_take burst requests window (Some rb) (u, sv) = (a, Some rb')" "rb_expires rb' = sv + redis_ttl"
    "rb_last rb' = (case redis_live sv (Some rb) of None \<Rightarrow> u | Some rb \<Rightarrow> max u (rb_last rb))"
    by (rule redis_take_some)
  have win: "window > 0" "0 \<le> burst" using Cons.prems(1) by (simp_all add: bucket_ok_def)
  have step: "bucket_ok burst requests window (Some rb') (rb_last rb') \<and> rb_last rb' = max u (rb_last rb) \<and>
      ?l (Some rb') (rb_last rb') + (if a then 1 else 0) \<le> ?l (Some rb) (rb_last rb) + ?r * of_int (max u (rb_last rb) - rb_last rb)"
  proof (cases "sv < rb_expires rb")
    case True
    let ?now = "max u (rb_last rb)"
    have live: "redis_live sv (Some rb) = Some rb" using True by (simp add: redis_live_def)
    have ok: "redis_ok burst requests window sv (Some rb) (rb_last rb)" using Cons.prems(1) live by (simp add: redis_ok_def)
    have r': "redis_take burst requests window (Some rb) (?now, sv) = (a, Some rb')"
      using r(1) script_lag [OF live] by (simp add: redis_take_def)
    have "bucket_ok burst requests window (Some rb') ?now"
      using redis_bucket.take_ok [OF ok _ order_refl, of ?now] r' by (simp add: redis_ok_def)
    moreover have "?l (Some rb') ?now + (if a then 1 else 0) \<le> ?l (Some rb) (rb_last rb) + ?r * of_int (?now - rb_last rb)"
      using redis_bucket.take_level [OF ok _ order_refl, of ?now] r' by simp
    ultimately show ?thesis using r(3) live by simp
  next
    case False
    then have gone: "redis_live sv (Some rb) = None" by (simp add: redis_live_def)
    have none: "redis_ok burst requests window sv None u" using Cons.prems(1) by (simp add: redis_ok_def bucket_ok_def redis_live_def)
    have r': "redis_take burst requests window None (u, sv) = (a, Some rb')"
      using r(1) gone by (simp add: redis_take_def script_refilled redis_live_def)
    have full: "burst \<le> ?r * of_int (u - rb_last rb)" using Cons.prems(5) False c by simp
    have "0 \<le> ?r * of_int (u - rb_last rb)" using full win(2) by linarith
    then have u: "rb_last rb \<le> u" using Cons.prems(2) win(1) by (simp add: zero_le_mult_iff zero_le_divide_iff)
    have "?l (Some rb') u + (if a then 1 else 0) \<le> burst"
      using redis_bucket.take_level [OF none order_refl order_refl] r' by (simp add: redis_level_def)
    moreover have "0 \<le> ?l (Some rb) (rb_last rb)" by (rule refilled_level(3) [OF Cons.prems(1) order_refl])
    ultimately have "?l (Some rb') u + (if a then 1 else 0) \<le> ?l (Some rb) (rb_last rb) + ?r * of_int (u - rb_last rb)"
      using full by linarith
    moreover have "bucket_ok burst requests window (Some rb') u"
      using redis_bucket.take_ok [OF none order_refl order_refl] r' by (simp add: redis_ok_def)
    ultimately show ?thesis using r(3) gone u by (simp add: max_def)
  qed
  then have last': "rb_last rb' = max u (rb_last rb)" by blast
  have "of_nat (admissions (redis_take burst requests window) (Some rb') cs)
      \<le> ?l (Some rb') (rb_last rb') + ?r * of_int (T - rb_last rb')"
  proof (rule Cons.IH [OF conjunct1 [OF step] Cons.prems(2)])
    show "\<forall>(u, sv) \<in> set cs. u \<le> T" "rb_last rb' \<le> T" using Cons.prems(3,4) c last' by auto
    show "full_at_expiry burst ?r (rb_last rb') (rb_expires rb') cs" using Cons.prems(5) c last' r(2) by simp
  qed
  from potential_chain [OF this conjunct2 [OF conjunct2 [OF step]]]
  have "(if a then 1 else 0) + of_nat (admissions (redis_take burst requests window) (Some rb') cs)
      \<le> ?l (Some rb) (rb_last rb) + (?r * of_int (T - rb_last rb') + ?r * of_int (max u (rb_last rb) - rb_last rb))" .
  moreover have "?r * of_int (T - rb_last rb') + ?r * of_int (max u (rb_last rb) - rb_last rb) = ?r * of_int (T - rb_last rb)"
    unfolding last' by (rule rate_split)
  ultimately show ?case using r(1) c by (cases a) simp_all
qed

text \<open>Two cases in which no key is lost too early: no two calls in succession are ten minutes apart, whatever the callers'
  clocks say; or the callers' clocks agree with the server's and the bucket is filled within ten minutes.\<close>

lemma no_long_pause:
  "successively (\<lambda>(u, sv) (u', sv'). sv' - sv < redis_ttl) ((u0, sv0) # cs) \<Longrightarrow> full_at_expiry burst rate latest (sv0 + redis_ttl) cs"
  by (induction cs arbitrary: u0 sv0 latest) auto

lemma filled_in_ten_minutes:
  "sorted (map fst ((u0, sv0) # cs)) \<Longrightarrow> \<forall>(u, sv) \<in> set ((u0, sv0) # cs). u = sv + off \<Longrightarrow> 0 \<le> rate \<Longrightarrow> burst \<le> rate * of_int redis_ttl \<Longrightarrow>
   full_at_expiry burst rate u0 (sv0 + redis_ttl) cs"
proof (induction cs arbitrary: u0 sv0)
  case (Cons c cs)
  obtain u sv where c: "c = (u, sv)" by (cases c)
  have "burst \<le> rate * of_int (u - u0)" if "sv0 + redis_ttl \<le> sv"
  proof -
    have "redis_ttl \<le> u - u0" using that Cons.prems(2) c by auto
    then have "rate * of_int redis_ttl \<le> rate * of_int (u - u0)" using Cons.prems(3) by (intro mult_left_mono) simp_all
    then show ?thesis using Cons.prems(4) by simp
  qed
  moreover have "full_at_expiry burst rate u (sv + redis_ttl) cs" using Cons c by simp
  moreover have "max u u0 = u" using Cons.prems(1) c by simp
  ultimately show ?case using c by simp
qed simp

section \<open>Configuration: lemmas\<close>

lemma trunc_nonneg: "0 \<le> q \<Longrightarrow> 0 \<le> trunc q \<and> of_int (trunc q) \<le> q"
  by (simp add: trunc_def)

lemma Validate_ok:
  assumes "c' = rl_AddOption c"
  shows "0 < Requests c' \<and> 0 < Window c' \<and> 1 \<le> Burst c' \<and> KeyFunc c' \<noteq> None"
proof -
  have "1 \<le> \<lfloor>Requests c\<rfloor>" if "of_int (Burst c) < Requests c" "\<not> Burst c \<le> 0"
  proof -
    have "(1 :: rat) \<le> of_int (Burst c)" using that(2) by simp
    also have "\<dots> \<le> Requests c" using that(1) by simp
    finally show ?thesis by simp
  qed
  then show ?thesis
    by (auto simp: assms rl_AddOption_def rl_Validate_def defaultBurstCapacity_def defaultWindow_def nanos_def trunc_def Let_def
        split: option.splits)
qed

lemma rate_le: "c' = rl_AddOption c \<Longrightarrow> 0 \<le> refillRate (newTokenBucket c' t) \<and>
  of_int (refillRate (newTokenBucket c' t)) / of_int nanos \<le> Requests c' / of_int (Window c')"
  using Validate_ok [of c' c] trunc_nonneg [of "RequestsPerSecond c'"]
  by (auto simp: newTokenBucket_def RequestsPerSecond_def nanos_def field_simps)

section \<open>Properties\<close>

text \<open>
  C16. The bucket in memory keeps the configured rate. For calls one after the other, of those made from any
  moment on at most the burst is admitted, plus what the configured rate adds until the last of them,
  whatever calls came before. This holds also where the refill overflows.
\<close>

theorem local_rate_is_kept:
  assumes "c' = rl_AddOption c" and "Burst c' \<le> maxInt64" and "refillRate (newTokenBucket c' t0) \<le> maxInt64"
    and "0 \<le> t0" and "sorted (t0 # us @ v # vs)" and "\<forall>t \<in> set (us @ v # vs). t \<le> maxInt64"
  shows "of_nat (admissions local_take (after_calls local_take (newTokenBucket c' t0) us) (v # vs))
    \<le> (of_int (Burst c') + Requests c' / of_int (Window c') * of_int (last (v # vs) - v) :: rat)"
proof -
  let ?r = "refillRate (newTokenBucket c' t0)" and ?m = "Burst c'"
  have start: "local_ok ?r ?m (newTokenBucket c' t0) t0"
    using assms Validate_ok [OF assms(1)] rate_le [OF assms(1)] by (auto simp: local_ok_def newTokenBucket_def)
  have "local_ok ?r ?m (after_calls local_take tb us) v"
    if "local_ok ?r ?m tb t" "sorted (t # us @ [v])" "\<forall>t \<in> set us. t \<le> maxInt64" for tb t us
    using that
  proof (induction us arbitrary: tb t)
    case (Cons u us)
    from local_bucket.take_ok [OF Cons.prems(1)] Cons.prems(2,3) have "local_ok ?r ?m (snd (local_take tb u)) u" by simp
    from Cons.IH [OF this] Cons.prems(2,3) show ?case by simp
  qed (auto simp: local_ok_def)
  from this [OF start] assms(5,6) have ok: "local_ok ?r ?m (after_calls local_take (newTokenBucket c' t0) us) v" by (auto simp: sorted_append)
  have "sorted (v # v # vs)" "\<forall>t \<in> set (v # vs). t \<le> maxInt64" using assms(5,6) by (auto simp: sorted_append)
  from local_bucket.admissions_bounded [OF ok this]
  have "of_nat (admissions local_take (after_calls local_take (newTokenBucket c' t0) us) (v # vs))
      \<le> (of_int ?m + of_int ?r / of_int nanos * of_int (last (v # vs) - v) :: rat)" by simp
  also have "\<dots> \<le> of_int ?m + Requests c' / of_int (Window c') * of_int (last (v # vs) - v)"
  proof -
    have "v \<le> last (v # vs)" using \<open>sorted (v # v # vs)\<close> by (cases vs rule: rev_cases) auto
    then have "(0 :: rat) \<le> of_int (last (v # vs) - v)" by simp
    with rate_le [OF assms(1), of t0] show ?thesis by (intro add_left_mono mult_right_mono) auto
  qed
  finally show ?thesis .
qed

text \<open>
  C29. The bucket in Redis keeps the configured rate for callers whose clocks disagree, as long as Redis answers and no key is
  lost before its bucket is full. A call is made at a time of the caller and a time of the Redis server; Redis forgets a key
  ten minutes after its last use. From any state of the bucket that was last used by the time \<open>t\<close>, of any calls made at
  callers' times between \<open>t\<close> and \<open>T\<close>, in any order, at most the burst is admitted plus what the configured rate adds from \<open>t\<close>
  to \<open>T\<close>, provided that whenever the key has expired before a call, the rate has filled the bucket since the latest time of
  an earlier call. That is so if no two calls in succession are ten minutes apart, or if the clocks agree and the bucket is
  filled within ten minutes (\<open>no_long_pause\<close>, \<open>filled_in_ten_minutes\<close>).
\<close>

theorem redis_rate_is_kept:
  assumes "0 < requests" and "0 < window" and "0 \<le> burst" and "\<forall>(u, sv) \<in> set ((u0, sv0) # cs). t \<le> u \<and> u \<le> T"
    and "case b of None \<Rightarrow> True | Some rb \<Rightarrow> 0 \<le> rb_tokens rb \<and> rb_tokens rb \<le> burst \<and> rb_last rb \<le> t"
    and "full_at_expiry burst (requests / of_int window) u0 (sv0 + 600 * 1000000000) cs"
  shows "of_nat (admissions (redis_take burst requests window) b ((u0, sv0) # cs)) \<le> burst + requests / of_int window * of_int (T - t)"
proof -
  let ?r = "requests / of_int window" and ?l = "redis_level burst requests window" and ?b = "redis_live sv0 b"
  have t: "t \<le> u0" "u0 \<le> T" using assms(4) by auto
  have live: "redis_live sv0 ?b = ?b" by (simp add: redis_live_def split: option.split)
  have ok: "redis_ok burst requests window sv0 ?b t"
    using assms(1-3,5) live by (auto simp: redis_ok_def bucket_ok_def redis_live_def split: option.split)
  obtain a rb where r: "redis_take burst requests window b (u0, sv0) = (a, Some rb)" "rb_expires rb = sv0 + redis_ttl"
    "rb_last rb = (case ?b of None \<Rightarrow> u0 | Some rb \<Rightarrow> max u0 (rb_last rb))" by (rule redis_take_some)
  have r': "redis_take burst requests window ?b (u0, sv0) = (a, Some rb)" using r(1) live by (simp add: redis_take_def script_refilled)
  have l: "rb_last rb = u0" using r(3) ok t(1) by (auto simp: redis_ok_def bucket_ok_def max_def split: option.splits)
  have rbok: "bucket_ok burst requests window (Some rb) (rb_last rb)"
    using redis_bucket.take_ok [OF ok t(1) order_refl] r' l by (simp add: redis_ok_def)
  have "full_at_expiry burst ?r (rb_last rb) (rb_expires rb) cs" using assms(6) l r(2) by (simp add: redis_ttl_def nanos_def)
  from redis_admissions_from [OF rbok assms(1) _ _ this, of T] assms(4) l t
  have "of_nat (admissions (redis_take burst requests window) (Some rb) cs) \<le> ?l (Some rb) u0 + ?r * of_int (T - u0)" by auto
  moreover have "?l (Some rb) u0 + (if a then 1 else 0) \<le> ?l ?b t + ?r * of_int (u0 - t)"
    using redis_bucket.take_level [OF ok t(1) order_refl] r' by simp
  ultimately have "(if a then 1 else 0) + of_nat (admissions (redis_take burst requests window) (Some rb) cs)
      \<le> ?l ?b t + (?r * of_int (T - u0) + ?r * of_int (u0 - t))"
    by (rule potential_chain)
  moreover have "?l ?b t \<le> burst" using redis_bucket.level_range [OF ok] by simp
  moreover have "?r * of_int (T - u0) + ?r * of_int (u0 - t) = ?r * of_int (T - t)" by (rule rate_split)
  ultimately have "(if a then 1 else 0) + of_nat (admissions (redis_take burst requests window) (Some rb) cs) \<le> burst + ?r * of_int (T - t)"
    by linarith
  then show ?thesis using r(1) by (cases a) simp_all
qed

text \<open>Without that proviso the rate is not kept: at five requests an hour with a burst of five, ten minutes without a call
  give a new bucket.\<close>

lemma redis_forgets_too_early:
  "admissions (redis_take 5 5 (3600 * nanos)) None (replicate 5 (0, 0) @ replicate 5 (600 * nanos, 600 * nanos)) = 10 \<and>
   5 + 5 / of_int (3600 * nanos) * of_int (600 * nanos - 0) < (6 :: rat)"
proof
  show "5 + 5 / of_int (3600 * nanos) * of_int (600 * nanos - 0) < (6 :: rat)" by (simp add: nanos_def)
  show "admissions (redis_take 5 5 (3600 * nanos)) None (replicate 5 (0, 0) @ replicate 5 (600 * nanos, 600 * nanos)) = 10"
    by (simp add: numeral_eq_Suc redis_take_def tokenBucketScript_def redis_live_def redis_ttl_def nanos_def Let_def)
qed

text \<open>
  A refused caller gets in after the time it was told. If the script refuses a call with a time to wait, the next
  call, made after that time, is admitted.
\<close>

lemma redis_retry_after_suffices:
  assumes "0 < requests" and "0 < window" and "1 \<le> burst"
    and "tokenBucketScript burst requests window now sv b = ((0, w), b')" and "now + w * Millisecond \<le> later"
    and "case b of None \<Rightarrow> True | Some rb \<Rightarrow> rb_last rb \<le> now"
  shows "fst (tokenBucketScript burst requests window later sv' (Some b')) = (1, 0)"
proof (cases "sv' < rb_expires b'")
  case False
  then show ?thesis using assms(3) by (simp add: script_refilled redis_live_def redis_refilled_def)
next
  case True
  let ?rb = "redis_refilled burst requests window now sv (redis_live sv b)"
  let ?t = "rb_tokens ?rb"
  have live: "redis_live sv' (Some b') = Some b'" using True by (simp add: redis_live_def)
  have b': "?t < 1" "w = \<lceil>(1 - ?t) * of_int window / requests / 1000000\<rceil>" "b' = ?rb"
    using assms(4) by (auto simp: script_refilled Let_def split: if_splits)
  have last': "rb_last b' = now" using assms(6) b'(3) by (auto simp: redis_refilled_def redis_live_def max_def split: option.splits)
  have w: "(1 - ?t) * of_int window / requests / 1000000 \<le> of_int w" unfolding b'(2) by (rule le_of_int_ceiling)
  have "0 \<le> (1 - ?t) * of_int window / requests / 1000000" using b'(1) assms(1,2) by simp
  with w have "(0 :: rat) \<le> of_int w" by linarith
  then have "0 \<le> w" by simp
  have "of_int (w * Millisecond) \<le> (of_int (later - now) :: rat)" using assms(5) by (simp only: of_int_le_iff)
  moreover have "(1 - ?t) * of_int window / requests \<le> of_int (w * Millisecond)"
    using w by (simp only: divide_le_eq [of _ "1000000 :: rat"]) (simp add: Millisecond_def)
  ultimately have "(1 - ?t) * of_int window / requests \<le> of_int (later - now)" by (rule order_trans [rotated])
  then have "1 - ?t \<le> requests / of_int window * of_int (later - now)" using assms(1,2) by (simp add: field_simps)
  moreover have "max later now = later" using assms(5) \<open>0 \<le> w\<close> by (simp add: Millisecond_def max_def)
  ultimately have "1 \<le> rb_tokens (redis_refilled burst requests window later sv' (Some b'))"
    using assms(3) last' b'(3) by (simp add: redis_refilled_def [of _ _ _ later])
  then show ?thesis by (simp add: script_refilled live Let_def)
qed

section \<open>Slow rates\<close>

lemma allow_no_refill:
  assumes "refillRate tb = 0" and "0 \<le> tokens tb" and "tokens tb \<le> maxTokens tb" and "maxTokens tb \<le> maxInt64"
  shows "allow now tb = (if tokens tb < 1 then (DivideByZero, tb) else (Allowed, tb\<lparr>tokens := tokens tb - 1, lastRefillTime := now\<rparr>))"
proof -
  have "tokensToAdd tb now = 0" using assms(1) by (simp add: tokensToAdd_def wrap64_def)
  moreover have "wrap64 (tokens tb) = tokens tb" using assms by (intro wrap64_id) (simp_all add: int64_num)
  ultimately show ?thesis using assms by (simp add: allow_def newTokens_def tb_wait_def)
qed

lemma drained:
  "refillRate tb = 0 \<Longrightarrow> tokens tb = int (length ts) \<Longrightarrow> tokens tb \<le> maxTokens tb \<Longrightarrow> maxTokens tb \<le> maxInt64 \<Longrightarrow>
   admissions local_take tb ts = length ts \<and> fst (allow t (after_calls local_take tb ts)) = DivideByZero"
proof (induction ts arbitrary: tb)
  case Nil
  then show ?case by (simp add: allow_no_refill)
next
  case (Cons u ts)
  let ?tb = "tb\<lparr>tokens := tokens tb - 1, lastRefillTime := u\<rparr>"
  have "local_take tb u = (True, ?tb)" using Cons.prems by (simp add: local_take_def allow_no_refill)
  moreover have "admissions local_take ?tb ts = length ts \<and> fst (allow t (after_calls local_take ?tb ts)) = DivideByZero"
    using Cons.prems by (intro Cons.IH) simp_all
  ultimately show ?case by simp
qed

text \<open>
  A rate below one call per second makes the limiter in memory panic. The rate of the refill is the number of
  calls per second without its fraction, so it is zero. The first calls, as many as the burst, are
  admitted; the next one, however long it waits, divides by zero.
\<close>

lemma slow_rate_panics:
  assumes "c' = rl_AddOption c" and "Requests c' * of_int nanos < of_int (Window c')" and "Burst c' \<le> maxInt64"
    and "length ts = nat (Burst c')"
  shows "admissions local_take (newTokenBucket c' t0) ts = length ts \<and>
    fst (allow t (after_calls local_take (newTokenBucket c' t0) ts)) = DivideByZero"
proof -
  have "0 \<le> RequestsPerSecond c'" "RequestsPerSecond c' < 1"
    using Validate_ok [OF assms(1)] assms(2) by (simp_all add: RequestsPerSecond_def nanos_def field_simps)
  then have "trunc (RequestsPerSecond c') = 0" by (simp add: trunc_def floor_eq_iff)
  then show ?thesis using Validate_ok [OF assms(1)] assms(3,4) by (intro drained) (simp_all add: newTokenBucket_def)
qed

text \<open>A call is passed on exactly if its request can be built and the store admits it or fails.\<close>

lemma limited_call_forwards_iff:
  "(\<exists>st'. limited_call c newRequest Allow base meth path inner st = (Forwarded (inner ()), st')) \<longleftrightarrow>
   (\<exists>f r. KeyFunc c = Some f \<and> newRequest meth (buildFullURL base path) = Some r \<and>
     (case fst (Allow (f (Some r)) st) of Answer allowed w err \<Rightarrow> allowed \<or> err | StorePanics \<Rightarrow> False))"
  by (auto simp: limited_call_def checkRateLimit_def Let_def split: option.splits prod.splits store_answer.splits)

section \<open>Concurrent callers: lemmas\<close>

definition tb_inv :: "int \<Rightarrow> tb_sys \<Rightarrow> bool" where
  "tb_inv m s \<longleftrightarrow> maxTokens (bucket s) = m \<and> 0 \<le> tokens (bucket s) \<and> tokens (bucket s) \<le> m"

lemma swap_tokens_inv: "tb_inv m s \<Longrightarrow> tb_inv m (swap_tokens g now add old s)"
  using newTokens_max [of "bucket s" old add] by (auto simp: tb_inv_def swap_tokens_def set_pc_def Let_def)

interpretation buckets: invariant "\<lambda>s. \<exists>tb. s = tb_start tb \<and> tokens tb = maxTokens tb \<and> maxTokens tb = m \<and> 0 \<le> m" tb_step "tb_inv m" for m
proof
  show "tb_inv m s" if "\<exists>tb. s = tb_start tb \<and> tokens tb = maxTokens tb \<and> maxTokens tb = m \<and> 0 \<le> m" for s
    using that by (auto simp: tb_inv_def tb_start_def)
next
  fix s t assume inv: "tb_inv m s" and "tb_step s t"
  then obtain a where "tb_exec a s = Some t" by (auto simp: tb_step_def)
  with inv show "tb_inv m t"
    by (cases a) (auto simp: tb_inv_def set_pc_def swap_tokens_inv [unfolded tb_inv_def] split: if_splits tb_pc.splits)
qed

lemma tb_run_reachable: "tb_run as s = Some t \<Longrightarrow> reachable init tb_step s \<Longrightarrow> reachable init tb_step t"
proof (induction as s rule: tb_run.induct)
  case (2 a as s)
  then obtain u where "tb_exec a s = Some u" "tb_run as u = Some t" by (auto split: option.splits)
  moreover from this have "reachable init tb_step u" using reachable_step [OF "2.prems"(2)] unfolding tb_step_def by blast
  ultimately show ?case using "2.IH" by simp
qed simp

text \<open>A caller that is not interrupted does what \<open>allow\<close> does.\<close>

lemma solo_run:
  assumes "pcs s g = Idle" and "allow (clock s) (bucket s) = (Allowed, tb)"
  shows "tb_run [Enter g, LoadLast g, LoadTokens g, Swap g, StoreLast g] s = Some (s\<lparr>bucket := tb, admitted := Suc (admitted s)\<rparr>)"
  using assms
  by (cases s) (auto simp: allow_def Let_def set_pc_def swap_tokens_def tb_wait_def fun_upd_idem split: if_splits)

section \<open>Witnesses\<close>

definition every_second :: RateLimiterConfig where
  "every_second = \<lparr>Requests = 1, Window = nanos, Burst = 2, KeyFunc = None\<rparr>"

text \<open>The configuration the documentation shows: five calls a minute, a burst of ten.\<close>

definition documented :: RateLimiterConfig where
  "documented = \<lparr>Requests = 5, Window = 60 * nanos, Burst = 10, KeyFunc = None\<rparr>"

lemma every_second_valid: "rl_AddOption every_second = every_second\<lparr>KeyFunc := Some defaultKeyFunc\<rparr>"
  by (simp add: every_second_def rl_AddOption_def rl_Validate_def nanos_def)

lemma every_second_bucket:
  "newTokenBucket (rl_AddOption every_second) 0 = \<lparr>tokens = 2, lastRefillTime = 0, maxTokens = 2, refillRate = 1\<rparr>"
  by (subst every_second_valid) (simp add: every_second_def newTokenBucket_def RequestsPerSecond_def trunc_def nanos_def)

text \<open>Both callers compute the refill from the old time before either stores the new one.\<close>

definition shared_refill :: "tb_act list" where
  "shared_refill =
     (let solo = (\<lambda>g. [Enter g, LoadLast g, LoadTokens g, Swap g, StoreLast g]) in
      solo 0 @ solo 0 @ [Tick 2000000000, Enter 0, Enter 1, LoadLast 0, LoadLast 1, LoadTokens 0, Swap 0, StoreLast 0,
        LoadTokens 1, Swap 1, StoreLast 1] @ solo 0)"

text \<open>
  Concurrent callers exceed the rate. The time of the last refill is read and written apart from the
  tokens, so that two callers can both add the tokens of the same period: with a burst of two and one
  call per second, a run of two seconds admits five calls, where the limit is four.
\<close>

lemma concurrent_refill_counted_twice:
  "\<exists>s. tb_run shared_refill (tb_start (newTokenBucket (rl_AddOption every_second) 0)) = Some s \<and>
     of_nat (admitted s) > (of_int (Burst every_second) + Requests every_second / of_int (Window every_second) * of_int (clock s) :: rat)"
proof -
  let ?r = "tb_run shared_refill (tb_start (newTokenBucket (rl_AddOption every_second) 0))"
  have "map_option admitted ?r = Some 5 \<and> map_option clock ?r = Some 2000000000"
    unfolding every_second_bucket
    by (simp add: shared_refill_def tb_start_def set_pc_def swap_tokens_def tokensToAdd_def newTokens_def wrap64_def nanos_def)
  then obtain s where "?r = Some s" "admitted s = 5" "clock s = 2000000000" by auto
  then show ?thesis by (simp add: every_second_def nanos_def)
qed

lemma slow_rate_panics_witness:
  "fst (allow 3600000000000 (after_calls local_take (newTokenBucket (rl_AddOption documented) 0) [0, 0, 0, 0, 0, 0, 0, 0, 0, 0])) = DivideByZero"
proof -
  have "Requests (rl_AddOption documented) = 5" "Window (rl_AddOption documented) = 60 * nanos" "Burst (rl_AddOption documented) = 10"
    by (simp_all add: documented_def rl_AddOption_def rl_Validate_def nanos_def)
  then show ?thesis
    using slow_rate_panics [OF refl, of documented "[0, 0, 0, 0, 0, 0, 0, 0, 0, 0]" 0 3600000000000] by (simp add: nanos_def int64_num)
qed

theorem local_rate_is_kept_witness:
  "of_nat (admissions local_take (after_calls local_take (newTokenBucket (rl_AddOption every_second) 0) [0]) [0, 0, 1000000000]) \<le> (3 :: rat) \<and>
   admissions local_take (after_calls local_take (newTokenBucket (rl_AddOption every_second) 0) [0]) [0, 0, 1000000000] = 2"
proof
  have "Burst (rl_AddOption every_second) = 2" "Requests (rl_AddOption every_second) = 1" "Window (rl_AddOption every_second) = nanos"
    unfolding every_second_valid by (simp_all add: every_second_def)
  with local_rate_is_kept [OF refl, of every_second 0 "[0]" 0 "[0, 1000000000]"]
  show "of_nat (admissions local_take (after_calls local_take (newTokenBucket (rl_AddOption every_second) 0) [0]) [0, 0, 1000000000]) \<le> (3 :: rat)"
    by (simp add: every_second_bucket nanos_def int64_num)
  show "admissions local_take (after_calls local_take (newTokenBucket (rl_AddOption every_second) 0) [0]) [0, 0, 1000000000] = 2"
  proof -
    let ?b = "\<lambda>n t. \<lparr>tokens = n, lastRefillTime = t, maxTokens = 2, refillRate = 1\<rparr>"
    have "local_take (?b 2 0) 0 = (True, ?b 1 0)" "local_take (?b 1 0) 0 = (True, ?b 0 0)" "local_take (?b 0 0) 0 = (False, ?b 0 0)"
      "local_take (?b 0 0) 1000000000 = (True, ?b 0 1000000000)"
      by (simp_all add: local_take_def allow_def tokensToAdd_def newTokens_def tb_wait_def wrap64_def nanos_def)
    then show ?thesis by (simp add: every_second_bucket)
  qed
qed

theorem redis_rate_is_kept_witness:
  "of_nat (admissions (redis_take 2 1 1000000000) None [(1000000000, 5), (0, 6), (500000000, 7), (1000000000, 8)]) \<le> (3 :: rat)"
  using redis_rate_is_kept [of 1 1000000000 2 1000000000 5 "[(0, 6), (500000000, 7), (1000000000, 8)]" 0 1000000000 None]
  by (simp add: redis_ttl_def nanos_def)

lemma redis_retry_after_suffices_witness:
  "fst (tokenBucketScript 1 2 1000000000 500000000 9 (Some \<lparr>rb_tokens = 0, rb_last = 0, rb_expires = redis_ttl\<rparr>)) = (1, 0)"
proof -
  have "tokenBucketScript 1 2 1000000000 0 0 (Some \<lparr>rb_tokens = 0, rb_last = 0, rb_expires = 1\<rparr>) =
      ((0, 500), \<lparr>rb_tokens = 0, rb_last = 0, rb_expires = redis_ttl\<rparr>)"
    by (simp add: tokenBucketScript_def redis_live_def)
  from redis_retry_after_suffices [OF _ _ _ this] show ?thesis by (simp add: Millisecond_def)
qed

end
