(* ===== verification/Server_Limiter.thy ===== *)
theory Server_Limiter
  imports Rate_Limiter
begin

text \<open>
  The rate limiters of the servers: the HTTP middleware with its store in memory
  (\<^verbatim>\<open>pkg/gofr/http/middleware/rate_limiter.go\<close>, \<^verbatim>\<open>rate_limiter_store.go\<close>) and the gRPC interceptors over the same store
  (\<^verbatim>\<open>pkg/gofr/grpc/rate_limiter.go\<close>). The limiter of one key comes from \<^verbatim>\<open>golang.org/x/time/rate\<close>, so it is a
  parameter: how it is made, what a reservation answers, what canceling one leaves. The bookkeeping of keys
  is given twice, for one call at a time and as atomic operations of concurrent calls and of the cleanup.
\<close>

section \<open>Configuration\<close>

datatype go_float = NaN | PosInf | NegInf | Fin rat

record ServerLimiterConfig =
  sl_RequestsPerSecond :: go_float
  sl_Burst :: int
  PerIP :: bool
  TrustedProxies :: bool
  MaxKeys :: int

datatype sl_error = errInvalidRequestsPerSecond | errInvalidBurst

definition not_positive :: "go_float \<Rightarrow> bool" where
  "not_positive f = (case f of NaN \<Rightarrow> False | PosInf \<Rightarrow> False | NegInf \<Rightarrow> True | Fin q \<Rightarrow> q \<le> 0)"

definition sl_Validate :: "ServerLimiterConfig \<Rightarrow> sl_error option" where
  "sl_Validate c =
     (if not_positive (sl_RequestsPerSecond c) \<or> sl_RequestsPerSecond c = NaN then Some errInvalidRequestsPerSecond
      else if sl_Burst c \<le> 0 then Some errInvalidBurst
      else None)"

section \<open>The address of a client\<close>

record server_request =
  sr_Method :: string
  sr_Path :: string
  sr_RemoteAddr :: string
  sr_Header :: "string \<Rightarrow> string"

definition LastIndexByte :: "string \<Rightarrow> char \<Rightarrow> nat option" where
  "LastIndexByte s c = map_option (\<lambda>i. length s - 1 - i) (IndexByte (rev s) c)"

text \<open>\<^verbatim>\<open>net.SplitHostPort\<close>, the host only: the port follows the last colon, a host with colons is in brackets.\<close>

definition SplitHostPort :: "string \<Rightarrow> string option" where
  "SplitHostPort s =
     (case LastIndexByte s (CHR '':'') of
        None \<Rightarrow> None
      | Some i \<Rightarrow>
          if hd s = CHR ''['' then
            (case IndexByte s (CHR '']'') of
               None \<Rightarrow> None
             | Some e \<Rightarrow>
                 if e + 1 \<noteq> i then None
                 else if CHR ''['' \<in> set (drop 1 s) \<or> CHR '']'' \<in> set (drop (e + 1) s) then None
                 else Some (take (e - 1) (drop 1 s)))
          else if CHR '':'' \<in> set (take i s) then None
          else if CHR ''['' \<in> set s \<or> CHR '']'' \<in> set s then None
          else Some (take i s))"

definition getRemoteAddr :: "server_request \<Rightarrow> string" where
  "getRemoteAddr r = (case SplitHostPort (sr_RemoteAddr r) of Some ip \<Rightarrow> ip | None \<Rightarrow> sr_RemoteAddr r)"

definition getForwardedIP :: "server_request \<Rightarrow> string" where
  "getForwardedIP r =
     (let forwarded = sr_Header r ''X-Forwarded-For'' in
      if forwarded = '''' then ''''
      else (case Split forwarded (CHR '','') of [] \<Rightarrow> '''' | ip # _ \<Rightarrow> TrimSpace ip))"

definition getRealIP :: "server_request \<Rightarrow> string" where
  "getRealIP r = TrimSpace (sr_Header r ''X-Real-IP'')"

definition getIP :: "server_request \<Rightarrow> bool \<Rightarrow> string" where
  "getIP r trustProxies =
     (if \<not> trustProxies then getRemoteAddr r
      else if getForwardedIP r \<noteq> '''' then getForwardedIP r
      else if getRealIP r \<noteq> '''' then getRealIP r
      else getRemoteAddr r)"

section \<open>The store\<close>

text \<open>A limiter: a new one for a rate and a burst, a reservation at a time (\<open>None\<close> if it is not OK, otherwise the
  delay), and canceling the reservation.\<close>

record 'l limiter_ops =
  NewLimiter :: "go_float \<Rightarrow> int \<Rightarrow> 'l"
  Reserve :: "'l \<Rightarrow> int \<Rightarrow> int option \<times> 'l"
  Cancel :: "'l \<Rightarrow> int \<Rightarrow> 'l"

record 'l limiterEntry =
  le_limiter :: 'l
  le_lastAccess :: int

record 'l memoryRateLimiterStore =
  limiters :: "string \<rightharpoonup> 'l limiterEntry"
  keyCount :: int
  maxKeys :: int
  st_config :: ServerLimiterConfig

definition minDelay :: int where "minDelay = Millisecond"
definition maxDelay :: int where "maxDelay = 60 * nanos"
definition defaultMaxKeys :: int where "defaultMaxKeys = 100000"

definition NewMemoryRateLimiterStore :: "ServerLimiterConfig \<Rightarrow> 'l memoryRateLimiterStore" where
  "NewMemoryRateLimiterStore c =
     \<lparr>limiters = Map.empty, keyCount = 0, maxKeys = (if MaxKeys c \<le> 0 then defaultMaxKeys else MaxKeys c), st_config = c\<rparr>"

text \<open>A quotient that is not a number does not occur here: the rate was validated.\<close>

definition calculateSafeDelay :: "go_float \<Rightarrow> int" where
  "calculateSafeDelay f =
     (if not_positive f then maxDelay
      else let delay = (case f of Fin q \<Rightarrow> trunc (of_int nanos / q) | _ \<Rightarrow> 0) in
        if delay < minDelay then minDelay else if delay > maxDelay then maxDelay else delay)"

text \<open>\<open>t\<close> is the time in nanoseconds.\<close>

definition mem_Allow ::
    "'l limiter_ops \<Rightarrow> string \<Rightarrow> int \<Rightarrow> 'l memoryRateLimiterStore \<Rightarrow> (bool \<times> int) \<times> 'l memoryRateLimiterStore" where
  "mem_Allow ops key t m =
     (let now = t div nanos; cfg = st_config m;
          fresh = \<lparr>le_limiter = NewLimiter ops (sl_RequestsPerSecond cfg) (sl_Burst cfg), le_lastAccess = now\<rparr>;
          (entry, m1, overflow) =
            (case limiters m key of
               Some en \<Rightarrow> (en\<lparr>le_lastAccess := now\<rparr>, m, False)
             | None \<Rightarrow> (fresh, m\<lparr>keyCount := keyCount m + 1\<rparr>, maxKeys m > 0 \<and> keyCount m + 1 > maxKeys m))
      in if overflow then ((True, 0), m1\<lparr>limiters := (limiters m)(key := None), keyCount := keyCount m1 - 1\<rparr>)
         else (case Reserve ops (le_limiter entry) t of
                 (None, l) \<Rightarrow>
                   ((False, calculateSafeDelay (sl_RequestsPerSecond cfg)), m1\<lparr>limiters := (limiters m)(key \<mapsto> entry\<lparr>le_limiter := l\<rparr>)\<rparr>)
               | (Some delay, l) \<Rightarrow>
                   if delay > 0
                   then ((False, delay), m1\<lparr>limiters := (limiters m)(key \<mapsto> entry\<lparr>le_limiter := Cancel ops l t\<rparr>)\<rparr>)
                   else ((True, 0), m1\<lparr>limiters := (limiters m)(key \<mapsto> entry\<lparr>le_limiter := l\<rparr>)\<rparr>)))"

definition staleThreshold :: int where "staleThreshold = 600"

text \<open>The pass of the cleanup over the keys, as they are listed.\<close>

definition cleanup_key :: "int \<Rightarrow> string \<Rightarrow> 'l memoryRateLimiterStore \<Rightarrow> 'l memoryRateLimiterStore" where
  "cleanup_key cutoff key m =
     (case limiters m key of
        None \<Rightarrow> m
      | Some en \<Rightarrow>
          if le_lastAccess en < cutoff then m\<lparr>limiters := (limiters m)(key := None), keyCount := keyCount m - 1\<rparr> else m)"

definition mem_cleanup :: "int \<Rightarrow> string list \<Rightarrow> 'l memoryRateLimiterStore \<Rightarrow> 'l memoryRateLimiterStore" where
  "mem_cleanup t listed m = fold (cleanup_key (t div nanos - staleThreshold)) listed m"

section \<open>The middleware\<close>

definition isWellKnownPath :: "string \<Rightarrow> bool" where
  "isWellKnownPath p \<longleftrightarrow> p = ''/.well-known'' \<or> HasPrefix p ''/.well-known/''"

text \<open>The request goes to the next handler, or is answered 429 with a time to wait in seconds.\<close>

datatype sl_answer = Next | TooManyRequests int

definition limit_key :: "ServerLimiterConfig \<Rightarrow> server_request \<Rightarrow> string" where
  "limit_key c r =
     (if \<not> PerIP c then ''global''
      else let key = getIP r (TrustedProxies c) in if key = '''' then ''unknown'' else key)"

definition retry_seconds :: "int \<Rightarrow> int" where
  "retry_seconds d = \<lceil>(of_int d / of_int nanos :: rat)\<rceil>"

text \<open>What the request did to the store and whether the counter of refusals was raised come with the answer.
  \<open>Allow\<close> is the store: its answer, or an error.\<close>

definition RateLimiter_serve ::
    "ServerLimiterConfig \<Rightarrow> (string \<Rightarrow> 's \<Rightarrow> (bool \<times> int) option \<times> 's) \<Rightarrow> server_request \<Rightarrow> 's \<Rightarrow> sl_answer \<times> bool \<times> 's" where
  "RateLimiter_serve c Allow r st =
     (if sl_Validate c \<noteq> None then (Next, False, st)
      else if isWellKnownPath (sr_Path r) then (Next, False, st)
      else (case Allow (limit_key c r) st of
              (None, st') \<Rightarrow> (Next, False, st')
            | (Some (allowed, retryAfter), st') \<Rightarrow>
                if \<not> allowed then (TooManyRequests (retry_seconds retryAfter), True, st') else (Next, False, st')))"

section \<open>The interceptors for gRPC\<close>

text \<open>The incoming metadata of a call, if there is any, and the address of the peer, if it is known. The parser of
  addresses gives the canonical form.\<close>

record grpc_call =
  gc_method :: string
  gc_metadata :: "(string \<Rightarrow> string list) option"
  gc_peer :: "string option"

definition normalizeIP :: "(string \<Rightarrow> string option) \<Rightarrow> string \<Rightarrow> string" where
  "normalizeIP ParseIP s0 =
     (if s0 = '''' then ''''
      else let s1 = (if CHR '':'' \<in> set s0 then case SplitHostPort s0 of Some host \<Rightarrow> host | None \<Rightarrow> s0 else s0);
               s2 = (if length s1 > 1 \<and> hd s1 = CHR ''['' then take (length s1 - 2) (drop 1 s1) else s1)
           in (case ParseIP s2 of None \<Rightarrow> '''' | Some ip \<Rightarrow> ip))"

definition extractHeaderIP :: "(string \<Rightarrow> string option) \<Rightarrow> (string \<Rightarrow> string list) \<Rightarrow> string \<Rightarrow> bool \<Rightarrow> string" where
  "extractHeaderIP ParseIP md key firstCSV =
     (case md key of
        [] \<Rightarrow> ''''
      | v # _ \<Rightarrow>
          if v = '''' then ''''
          else let v1 = (if firstCSV then case IndexByte v (CHR '','') of Some i \<Rightarrow> take i v | None \<Rightarrow> v else v)
               in normalizeIP ParseIP (TrimSpace v1))"

definition getIPFromPeer :: "(string \<Rightarrow> string option) \<Rightarrow> grpc_call \<Rightarrow> string" where
  "getIPFromPeer ParseIP g = (case gc_peer g of None \<Rightarrow> '''' | Some addr \<Rightarrow> normalizeIP ParseIP addr)"

definition getIPFromProxy :: "(string \<Rightarrow> string option) \<Rightarrow> grpc_call \<Rightarrow> string" where
  "getIPFromProxy ParseIP g =
     (case gc_metadata g of
        None \<Rightarrow> getIPFromPeer ParseIP g
      | Some md \<Rightarrow>
          let ip1 = extractHeaderIP ParseIP md ''x-forwarded-for'' True; ip2 = extractHeaderIP ParseIP md ''x-real-ip'' False in
          if ip1 \<noteq> '''' then ip1 else if ip2 \<noteq> '''' then ip2 else getIPFromPeer ParseIP g)"

definition grpc_getIP :: "(string \<Rightarrow> string option) \<Rightarrow> grpc_call \<Rightarrow> bool \<Rightarrow> string" where
  "grpc_getIP ParseIP g trustProxy = (if trustProxy then getIPFromProxy ParseIP g else getIPFromPeer ParseIP g)"

definition resolveRateLimitKey :: "(string \<Rightarrow> string option) \<Rightarrow> grpc_call \<Rightarrow> ServerLimiterConfig \<Rightarrow> string" where
  "resolveRateLimitKey ParseIP g c =
     (if \<not> PerIP c then ''global''
      else let key = grpc_getIP ParseIP g (TrustedProxies c) in if key = '''' then ''unknown'' else key)"

definition retryAfterSeconds :: "int \<Rightarrow> int" where
  "retryAfterSeconds d = max 1 (retry_seconds d)"

text \<open>The handler runs, or the call ends with \<^verbatim>\<open>ResourceExhausted\<close>, the header \<^verbatim>\<open>retry-after\<close> and the exact delay.\<close>

datatype grpc_answer = RunCall | ResourceExhausted int int

definition RateLimitInterceptor ::
    "(string \<Rightarrow> string option) \<Rightarrow> ServerLimiterConfig \<Rightarrow> (string \<Rightarrow> 's \<Rightarrow> (bool \<times> int) option \<times> 's) \<Rightarrow> grpc_call \<Rightarrow> 's \<Rightarrow>
     grpc_answer \<times> 's" where
  "RateLimitInterceptor ParseIP c Allow g st =
     (if sl_Validate c \<noteq> None then (RunCall, st)
      else if HasPrefix (gc_method g) ''/grpc.health.v1.Health/'' then (RunCall, st)
      else (case Allow (resolveRateLimitKey ParseIP g c) st of
              (None, st') \<Rightarrow> (RunCall, st')
            | (Some (allowed, retryAfter), st') \<Rightarrow>
                if \<not> allowed then (ResourceExhausted (retryAfterSeconds retryAfter) retryAfter, st') else (RunCall, st')))"

section \<open>Concurrent calls and the cleanup\<close>

text \<open>Where a call stands in \<open>mem_Allow\<close>: the time is read; the key was found and its access time is to be stored; the
  key was stored and is to be counted; it exceeds the limit and is to be deleted; it was deleted and is to
  be taken off the count. What follows on the limiter does not touch the keys.\<close>

datatype mem_pc =
    At_rest
  | Called string int
  | Touching string int
  | Counting string int
  | Evicting string int
  | Uncounting

datatype sweep_pc = Resting | Sweeping int | Dropping int string | Dropped int

record mem_sys =
  mkeys :: "string \<rightharpoonup> int"
  mcount :: int
  mclock :: int
  mpcs :: "mem_pc list"
  msweep :: sweep_pc

datatype mem_act =
    MCall nat string
  | MLoadOrStore nat
  | MTouch nat bool
  | MCount nat
  | MEvict nat
  | MUncount nat
  | MTick nat
  | MSweep
  | MCheck string
  | MDrop
  | MDropCount
  | MSweepEnd

primrec pc_time :: "mem_pc \<Rightarrow> int option" where
  "pc_time At_rest = None"
| "pc_time (Called k n) = Some n"
| "pc_time (Touching k n) = Some n"
| "pc_time (Counting k n) = Some n"
| "pc_time (Evicting k n) = Some n"
| "pc_time Uncounting = None"

text \<open>Time passes only as far as a call in progress is not delayed by more than half the time after which a key is
  stale: five minutes.\<close>

definition may_tick :: "int \<Rightarrow> mem_sys \<Rightarrow> bool" where
  "may_tick d s = list_all (\<lambda>p. case pc_time p of None \<Rightarrow> True | Some n \<Rightarrow> mclock s + d \<le> n + staleThreshold div 2) (mpcs s)"

definition goto :: "nat \<Rightarrow> mem_pc \<Rightarrow> mem_sys \<Rightarrow> mem_sys" where
  "goto g p s = s\<lparr>mpcs := (mpcs s)[g := p]\<rparr>"

definition mpc :: "nat \<Rightarrow> mem_sys \<Rightarrow> mem_pc option" where
  "mpc g s = (if g < length (mpcs s) then Some (mpcs s ! g) else None)"

text \<open>A stale time may be written to an entry that was replaced meanwhile or not: \<open>hit\<close> says whether it shows.\<close>

fun mem_exec :: "int \<Rightarrow> mem_act \<Rightarrow> mem_sys \<Rightarrow> mem_sys option" where
  "mem_exec mx (MCall g k) s = (if mpc g s = Some At_rest then Some (goto g (Called k (mclock s)) s) else None)"
| "mem_exec mx (MLoadOrStore g) s =
     (case mpc g s of
        Some (Called k n) \<Rightarrow>
          Some (if mkeys s k \<noteq> None then goto g (Touching k n) s
                else goto g (Counting k n) (s\<lparr>mkeys := (mkeys s)(k \<mapsto> n)\<rparr>))
      | _ \<Rightarrow> None)"
| "mem_exec mx (MTouch g hit) s =
     (case mpc g s of
        Some (Touching k n) \<Rightarrow>
          Some (goto g At_rest (if hit \<and> mkeys s k \<noteq> None then s\<lparr>mkeys := (mkeys s)(k \<mapsto> n)\<rparr> else s))
      | _ \<Rightarrow> None)"
| "mem_exec mx (MCount g) s =
     (case mpc g s of
        Some (Counting k n) \<Rightarrow>
          Some (goto g (if mx > 0 \<and> mcount s + 1 > mx then Evicting k n else At_rest) (s\<lparr>mcount := mcount s + 1\<rparr>))
      | _ \<Rightarrow> None)"
| "mem_exec mx (MEvict g) s =
     (case mpc g s of Some (Evicting k n) \<Rightarrow> Some (goto g Uncounting (s\<lparr>mkeys := (mkeys s)(k := None)\<rparr>)) | _ \<Rightarrow> None)"
| "mem_exec mx (MUncount g) s =
     (if mpc g s = Some Uncounting then Some (goto g At_rest (s\<lparr>mcount := mcount s - 1\<rparr>)) else None)"
| "mem_exec mx (MTick d) s = (if may_tick (int d) s then Some (s\<lparr>mclock := mclock s + int d\<rparr>) else None)"
| "mem_exec mx MSweep s = (if msweep s = Resting then Some (s\<lparr>msweep := Sweeping (mclock s - staleThreshold)\<rparr>) else None)"
| "mem_exec mx (MCheck k) s =
     (case (msweep s, mkeys s k) of
        (Sweeping cutoff, Some a) \<Rightarrow> if a < cutoff then Some (s\<lparr>msweep := Dropping cutoff k\<rparr>) else Some s
      | _ \<Rightarrow> None)"
| "mem_exec mx MDrop s =
     (case msweep s of Dropping cutoff k \<Rightarrow> Some (s\<lparr>mkeys := (mkeys s)(k := None), msweep := Dropped cutoff\<rparr>) | _ \<Rightarrow> None)"
| "mem_exec mx MDropCount s =
     (case msweep s of Dropped cutoff \<Rightarrow> Some (s\<lparr>mcount := mcount s - 1, msweep := Sweeping cutoff\<rparr>) | _ \<Rightarrow> None)"
| "mem_exec mx MSweepEnd s = (case msweep s of Sweeping _ \<Rightarrow> Some (s\<lparr>msweep := Resting\<rparr>) | _ \<Rightarrow> None)"

definition mem_step :: "int \<Rightarrow> mem_sys \<Rightarrow> mem_sys \<Rightarrow> bool" where
  "mem_step mx s t \<longleftrightarrow> (\<exists>a. mem_exec mx a s = Some t)"

definition mem_init :: "mem_sys \<Rightarrow> bool" where
  "mem_init s \<longleftrightarrow> mkeys s = Map.empty \<and> mcount s = 0 \<and> list_all (\<lambda>p. p = At_rest) (mpcs s) \<and> msweep s = Resting"

section \<open>The invariant of the keys\<close>

definition w_stored :: "mem_pc \<Rightarrow> int" where
  "w_stored p = (case p of Counting _ _ \<Rightarrow> 1 | Uncounting \<Rightarrow> - 1 | _ \<Rightarrow> 0)"

definition w_over :: "mem_pc \<Rightarrow> int" where
  "w_over p = (case p of Evicting _ _ \<Rightarrow> 1 | Uncounting \<Rightarrow> 1 | _ \<Rightarrow> 0)"

text \<open>The call that stored a key and may still delete it.\<close>

primrec owned :: "mem_pc \<Rightarrow> (string \<times> int) option" where
  "owned At_rest = None"
| "owned (Called k n) = None"
| "owned (Touching k n) = None"
| "owned (Counting k n) = Some (k, n)"
| "owned (Evicting k n) = Some (k, n)"
| "owned Uncounting = None"

definition owner :: "nat \<Rightarrow> mem_sys \<Rightarrow> (string \<times> int) option" where
  "owner g s = (case mpc g s of Some p \<Rightarrow> owned p | None \<Rightarrow> None)"

definition since :: "nat \<Rightarrow> mem_sys \<Rightarrow> int option" where
  "since g s = (case mpc g s of Some p \<Rightarrow> pc_time p | None \<Rightarrow> None)"

definition weight :: "(mem_pc \<Rightarrow> int) \<Rightarrow> mem_sys \<Rightarrow> int" where
  "weight w s = sum_list (map w (mpcs s))"

definition counts_ok :: "int \<Rightarrow> mem_sys \<Rightarrow> bool" where
  "counts_ok mx s \<longleftrightarrow> finite (dom (mkeys s)) \<and>
     int (card (dom (mkeys s))) = mcount s + weight w_stored s - (case msweep s of Dropped _ \<Rightarrow> 1 | _ \<Rightarrow> 0) \<and>
     mcount s \<le> mx + weight w_over s"

definition owners_ok :: "mem_sys \<Rightarrow> bool" where
  "owners_ok s \<longleftrightarrow>
     (\<forall>g k n. owner g s = Some (k, n) \<longrightarrow> (\<exists>a. mkeys s k = Some a \<and> n - staleThreshold div 2 \<le> a)) \<and>
     (\<forall>g h k n m. owner g s = Some (k, n) \<longrightarrow> owner h s = Some (k, m) \<longrightarrow> g = h)"

definition sweep_ok :: "mem_sys \<Rightarrow> bool" where
  "sweep_ok s \<longleftrightarrow>
     (case msweep s of
        Resting \<Rightarrow> True
      | Sweeping c \<Rightarrow> c \<le> mclock s - staleThreshold
      | Dropping c k \<Rightarrow> c \<le> mclock s - staleThreshold \<and> mkeys s k \<noteq> None \<and> (\<forall>g n. owner g s \<noteq> Some (k, n))
      | Dropped c \<Rightarrow> c \<le> mclock s - staleThreshold)"

definition times_ok :: "mem_sys \<Rightarrow> bool" where
  "times_ok s \<longleftrightarrow> (\<forall>g n. since g s = Some n \<longrightarrow> n \<le> mclock s \<and> mclock s \<le> n + staleThreshold div 2)"

definition mem_inv :: "int \<Rightarrow> mem_sys \<Rightarrow> bool" where
  "mem_inv mx s \<longleftrightarrow> 0 < mx \<and> counts_ok mx s \<and> owners_ok s \<and> sweep_ok s \<and> times_ok s"

lemma goto_proj [simp]:
  "mkeys (goto g p s) = mkeys s" "mcount (goto g p s) = mcount s" "mclock (goto g p s) = mclock s" "msweep (goto g p s) = msweep s"
  by (simp_all add: goto_def)

lemma mpc_goto: "mpc g s = Some q \<Longrightarrow> mpc h (goto g p s) = (if h = g then Some p else mpc h s)"
  by (auto simp: mpc_def goto_def split: if_splits)

lemma mpc_upd [simp]:
  "mpc g (s\<lparr>mkeys := ks\<rparr>) = mpc g s" "mpc g (s\<lparr>mcount := n\<rparr>) = mpc g s" "mpc g (s\<lparr>mclock := t\<rparr>) = mpc g s"
  "mpc g (s\<lparr>msweep := x\<rparr>) = mpc g s"
  by (simp_all add: mpc_def)

lemma weight_upd [simp]:
  "weight w (s\<lparr>mkeys := ks\<rparr>) = weight w s" "weight w (s\<lparr>mcount := n\<rparr>) = weight w s" "weight w (s\<lparr>mclock := t\<rparr>) = weight w s"
  "weight w (s\<lparr>msweep := x\<rparr>) = weight w s"
  by (simp_all add: weight_def)

lemma weight_goto: "mpc g s = Some q \<Longrightarrow> weight w (goto g p s) = weight w s - w q + w p"
  by (auto simp: weight_def goto_def mpc_def map_update sum_list_update_int split: if_splits)

lemma card_drop: "finite (dom m) \<Longrightarrow> m k \<noteq> None \<Longrightarrow> int (card (dom m - {k})) = int (card (dom m)) - 1"
  using card_gt_0_iff [of "dom m"] by (auto simp: card_Diff_singleton domIff of_nat_diff Suc_leI)

lemma owner_upd [simp]:
  "owner g (s\<lparr>mkeys := ks\<rparr>) = owner g s" "owner g (s\<lparr>mcount := n\<rparr>) = owner g s" "owner g (s\<lparr>mclock := t\<rparr>) = owner g s"
  "owner g (s\<lparr>msweep := x\<rparr>) = owner g s"
  "since g (s\<lparr>mkeys := ks\<rparr>) = since g s" "since g (s\<lparr>mcount := n\<rparr>) = since g s" "since g (s\<lparr>mclock := t\<rparr>) = since g s"
  "since g (s\<lparr>msweep := x\<rparr>) = since g s"
  by (simp_all add: owner_def since_def)

lemma owner_goto: "mpc g s = Some q \<Longrightarrow> owner h (goto g p s) = (if h = g then owned p else owner h s)"
  by (simp add: owner_def mpc_goto)

lemma since_goto: "mpc g s = Some q \<Longrightarrow> since h (goto g p s) = (if h = g then pc_time p else since h s)"
  by (simp add: since_def mpc_goto)

lemma mpc_owner: "mpc g s = Some p \<Longrightarrow> owner g s = owned p" "mpc g s = Some p \<Longrightarrow> since g s = pc_time p"
  by (simp_all add: owner_def since_def)

lemma owner_since: "owner g s = Some (k, b) \<Longrightarrow> since g s = Some b"
proof -
  have "owned p = Some (k, b) \<Longrightarrow> pc_time p = Some b" for p by (cases p) auto
  then show "owner g s = Some (k, b) \<Longrightarrow> since g s = Some b" by (auto simp: owner_def since_def split: option.splits)
qed

text \<open>A call that moves on without taking a key keeps what is known of the keys.\<close>

lemma goto_ok:
  assumes "mpc g s = Some q" and "owned p = None \<or> owned p = owned q"
    and "pc_time p = None \<or> pc_time p = pc_time q \<or> pc_time p = Some (mclock s)"
  shows "owners_ok s \<Longrightarrow> owners_ok (goto g p s)" and "sweep_ok s \<Longrightarrow> sweep_ok (goto g p s)" and "times_ok s \<Longrightarrow> times_ok (goto g p s)"
proof -
  have o: "owner h (goto g p s) = Some x \<Longrightarrow> owner h s = Some x" for h x
    using assms(1,2) by (auto simp: owner_goto mpc_owner split: if_splits)
  show "owners_ok s \<Longrightarrow> owners_ok (goto g p s)" using o unfolding owners_ok_def goto_proj by blast
  show "sweep_ok s \<Longrightarrow> sweep_ok (goto g p s)" using o unfolding sweep_ok_def goto_proj by (auto split: sweep_pc.splits) blast
  show "times_ok s \<Longrightarrow> times_ok (goto g p s)"
    using assms(3) mpc_owner(2) [OF assms(1)] by (fastforce simp: times_ok_def since_goto [OF assms(1)] staleThreshold_def split: if_splits)
qed

lemma upd_ok [simp]:
  "owners_ok (s\<lparr>mcount := n\<rparr>) = owners_ok s" "sweep_ok (s\<lparr>mcount := n\<rparr>) = sweep_ok s" "times_ok (s\<lparr>mcount := n\<rparr>) = times_ok s"
  "times_ok (s\<lparr>mkeys := ks\<rparr>) = times_ok s" "times_ok (s\<lparr>msweep := x\<rparr>) = times_ok s" "owners_ok (s\<lparr>msweep := x\<rparr>) = owners_ok s"
  by (simp_all add: owners_ok_def sweep_ok_def times_ok_def split: sweep_pc.split)

lemma move_inv:
  assumes "mem_inv mx s" and "mpc g s = Some q" and "owned p = None \<or> owned p = owned q"
    and "pc_time p = None \<or> pc_time p = pc_time q \<or> pc_time p = Some (mclock s)"
    and "d + w_stored p = w_stored q" and "mcount s + d \<le> mx + weight w_over s - w_over q + w_over p"
  shows "mem_inv mx (goto g p (s\<lparr>mcount := mcount s + d\<rparr>))"
proof -
  let ?s = "s\<lparr>mcount := mcount s + d\<rparr>"
  have m: "mpc g ?s = Some q" and t: "pc_time p = None \<or> pc_time p = pc_time q \<or> pc_time p = Some (mclock ?s)" using assms(2,4) by simp_all
  have "counts_ok mx (goto g p ?s)" using assms(1,5,6) by (simp add: mem_inv_def counts_ok_def weight_goto [OF m])
  with goto_ok [OF m assms(3) t] assms(1) show ?thesis by (simp add: mem_inv_def)
qed

lemma store_inv:
  assumes inv: "mem_inv mx s" and m: "mpc g s = Some (Called k n)" and free: "mkeys s k = None"
  shows "mem_inv mx (goto g (Counting k n) (s\<lparr>mkeys := (mkeys s)(k \<mapsto> n)\<rparr>))"
proof -
  let ?s = "s\<lparr>mkeys := (mkeys s)(k \<mapsto> n)\<rparr>"
  have m': "mpc g ?s = Some (Called k n)" using m by simp
  have "counts_ok mx (goto g (Counting k n) ?s)"
    using inv free by (auto simp: mem_inv_def counts_ok_def weight_goto [OF m'] card_insert_if domIff w_stored_def w_over_def)
  moreover have other: "owner h s \<noteq> Some (k, b)" for h b using inv free unfolding mem_inv_def owners_ok_def by fastforce
  have "owners_ok (goto g (Counting k n) ?s)"
    using inv other by (auto simp: mem_inv_def owners_ok_def owner_goto [OF m'] staleThreshold_def split: if_splits)
  moreover have "sweep_ok (goto g (Counting k n) ?s)"
    using inv free by (auto simp: mem_inv_def sweep_ok_def owner_goto [OF m'] split: sweep_pc.splits if_splits)
  moreover have "times_ok (goto g (Counting k n) ?s)" using inv mpc_owner(2) [OF m] by (auto simp: mem_inv_def times_ok_def since_goto [OF m'])
  ultimately show ?thesis using inv by (simp add: mem_inv_def)
qed

lemma touch_inv:
  assumes inv: "mem_inv mx s" and m: "mpc g s = Some (Touching k n)" and there: "mkeys s k \<noteq> None"
  shows "mem_inv mx (s\<lparr>mkeys := (mkeys s)(k \<mapsto> n)\<rparr>)"
proof -
  let ?s = "s\<lparr>mkeys := (mkeys s)(k \<mapsto> n)\<rparr>"
  have "dom (mkeys ?s) = dom (mkeys s)" using there by auto
  then have "counts_ok mx ?s" using inv by (simp add: mem_inv_def counts_ok_def)
  moreover have "b - staleThreshold div 2 \<le> n" if "owner h s = Some (k, b)" for h b
  proof -
    have "since h s = Some b" "since g s = Some n" using owner_since [OF that] m by (simp_all add: mpc_owner)
    with inv have "b \<le> mclock s" "mclock s \<le> n + staleThreshold div 2" unfolding mem_inv_def times_ok_def by blast+
    then show ?thesis by simp
  qed
  then have "owners_ok ?s" using inv by (fastforce simp: mem_inv_def owners_ok_def)
  moreover have "sweep_ok ?s" using inv by (auto simp: mem_inv_def sweep_ok_def split: sweep_pc.splits)
  ultimately show ?thesis using inv by (simp add: mem_inv_def)
qed

lemma evict_inv:
  assumes inv: "mem_inv mx s" and m: "mpc g s = Some (Evicting k n)"
  shows "mem_inv mx (goto g Uncounting (s\<lparr>mkeys := (mkeys s)(k := None)\<rparr>))"
proof -
  let ?s = "s\<lparr>mkeys := (mkeys s)(k := None)\<rparr>"
  have m': "mpc g ?s = Some (Evicting k n)" and own: "owner g s = Some (k, n)" using m by (simp_all add: mpc_owner)
  then have there: "mkeys s k \<noteq> None" using inv by (force simp: mem_inv_def owners_ok_def)
  have mine: "h = g" if "owner h s = Some (k, b)" for h b using inv own that unfolding mem_inv_def owners_ok_def by blast
  have "counts_ok mx (goto g Uncounting ?s)"
    using inv card_drop [of "mkeys s" k, OF _ there] by (simp add: mem_inv_def counts_ok_def weight_goto [OF m'] w_stored_def w_over_def)
  moreover have "owners_ok (goto g Uncounting ?s)"
    using inv mine by (auto simp: mem_inv_def owners_ok_def owner_goto [OF m'] split: if_splits)
  moreover have "sweep_ok (goto g Uncounting ?s)"
    using inv own by (auto simp: mem_inv_def sweep_ok_def owner_goto [OF m'] split: sweep_pc.splits if_splits)
  moreover have "times_ok (goto g Uncounting ?s)" using inv goto_ok(3) [OF m', of Uncounting] by (simp add: mem_inv_def)
  ultimately show ?thesis using inv by (simp add: mem_inv_def)
qed

lemma check_inv:
  assumes inv: "mem_inv mx s" and sw: "msweep s = Sweeping c" "mkeys s k = Some a" "a < c"
  shows "mem_inv mx (s\<lparr>msweep := Dropping c k\<rparr>)"
proof -
  have "owner g s \<noteq> Some (k, b)" for g b
  proof
    assume own: "owner g s = Some (k, b)"
    then have "since g s = Some b" by (rule owner_since)
    then have "mclock s \<le> b + 300" using inv by (simp add: mem_inv_def times_ok_def staleThreshold_def)
    moreover have "b - 300 \<le> a" using inv own sw(2) by (fastforce simp: mem_inv_def owners_ok_def staleThreshold_def)
    moreover have "c \<le> mclock s - 600" using inv sw(1) by (simp add: mem_inv_def sweep_ok_def staleThreshold_def)
    ultimately show False using sw(3) by linarith
  qed
  with inv sw show ?thesis by (auto simp: mem_inv_def counts_ok_def sweep_ok_def)
qed

lemma drop_inv:
  assumes inv: "mem_inv mx s" and sw: "msweep s = Dropping c k"
  shows "mem_inv mx (s\<lparr>mkeys := (mkeys s)(k := None), msweep := Dropped c\<rparr>)"
proof -
  let ?s = "s\<lparr>mkeys := (mkeys s)(k := None), msweep := Dropped c\<rparr>"
  have there: "mkeys s k \<noteq> None" and free: "owner g s \<noteq> Some (k, b)" for g b using inv sw by (auto simp: mem_inv_def sweep_ok_def)
  have "counts_ok mx ?s" using inv sw card_drop [of "mkeys s" k, OF _ there] by (simp add: mem_inv_def counts_ok_def)
  moreover have "owners_ok ?s" using inv free by (auto simp: mem_inv_def owners_ok_def)
  moreover have "sweep_ok ?s" using inv sw by (simp add: mem_inv_def sweep_ok_def)
  ultimately show ?thesis using inv by (simp add: mem_inv_def)
qed

lemma tick_inv:
  assumes inv: "mem_inv mx s" and "may_tick (int d) s"
  shows "mem_inv mx (s\<lparr>mclock := mclock s + int d\<rparr>)"
proof -
  have "mclock s + int d \<le> n + staleThreshold div 2" if "since g s = Some n" for g n
    using that assms(2) by (auto simp: since_def mpc_def may_tick_def list_all_length split: option.splits if_splits)
  with inv have "times_ok (s\<lparr>mclock := mclock s + int d\<rparr>)" by (fastforce simp: mem_inv_def times_ok_def)
  moreover have "sweep_ok (s\<lparr>mclock := mclock s + int d\<rparr>)" using inv by (auto simp: mem_inv_def sweep_ok_def split: sweep_pc.splits)
  ultimately show ?thesis using inv by (simp add: mem_inv_def counts_ok_def owners_ok_def)
qed

lemma step_inv:
  assumes inv: "mem_inv mx s" and "mem_exec mx a s = Some t"
  shows "mem_inv mx t"
proof (cases a)
  case (MCall g k)
  with assms(2) have m: "mpc g s = Some At_rest" "t = goto g (Called k (mclock s)) (s\<lparr>mcount := mcount s + 0\<rparr>)" by (auto split: if_splits)
  have "mcount s \<le> mx + weight w_over s" using inv by (simp add: mem_inv_def counts_ok_def)
  then show ?thesis unfolding m(2) by (intro move_inv [OF inv m(1)]) (simp_all add: w_stored_def w_over_def)
next
  case (MLoadOrStore g)
  with assms(2) obtain k n where m: "mpc g s = Some (Called k n)" by (auto split: option.splits mem_pc.splits)
  have "mcount s \<le> mx + weight w_over s" using inv by (simp add: mem_inv_def counts_ok_def)
  then have "mem_inv mx (goto g (Touching k n) (s\<lparr>mcount := mcount s + 0\<rparr>))"
    by (intro move_inv [OF inv m]) (simp_all add: w_stored_def w_over_def)
  with store_inv [OF inv m] assms(2) MLoadOrStore m show ?thesis by (auto split: if_splits)
next
  case (MTouch g hit)
  with assms(2) obtain k n where m: "mpc g s = Some (Touching k n)" by (auto split: option.splits mem_pc.splits)
  let ?s = "if hit \<and> mkeys s k \<noteq> None then s\<lparr>mkeys := (mkeys s)(k \<mapsto> n)\<rparr> else s"
  have i: "mem_inv mx ?s" and m': "mpc g ?s = Some (Touching k n)" using inv touch_inv [OF inv m] m by auto
  have "mcount ?s \<le> mx + weight w_over ?s" using i by (simp add: mem_inv_def counts_ok_def split del: if_split)
  then have "mem_inv mx (goto g At_rest (?s\<lparr>mcount := mcount ?s + 0\<rparr>))"
    by (intro move_inv [OF i m']) (simp_all add: w_stored_def w_over_def)
  with assms(2) MTouch m show ?thesis by auto
next
  case (MCount g)
  with assms(2) obtain k n where m: "mpc g s = Some (Counting k n)" by (auto split: option.splits mem_pc.splits)
  let ?p = "if mx > 0 \<and> mcount s + 1 > mx then Evicting k n else At_rest"
  have "0 \<le> weight w_over s" by (auto simp: weight_def w_over_def intro!: sum_list_nonneg split: mem_pc.splits)
  moreover have "mcount s \<le> mx + weight w_over s" using inv by (simp add: mem_inv_def counts_ok_def)
  moreover have "0 < mx" using inv by (simp add: mem_inv_def)
  ultimately have "mem_inv mx (goto g ?p (s\<lparr>mcount := mcount s + 1\<rparr>))"
    by (intro move_inv [OF inv m]) (auto simp: w_stored_def w_over_def)
  with assms(2) MCount m show ?thesis by auto
next
  case (MEvict g)
  with assms(2) obtain k n where m: "mpc g s = Some (Evicting k n)" by (auto split: option.splits mem_pc.splits)
  with evict_inv [OF inv m] assms(2) MEvict show ?thesis by auto
next
  case (MUncount g)
  with assms(2) have m: "mpc g s = Some Uncounting" "t = goto g At_rest (s\<lparr>mcount := mcount s + - 1\<rparr>)" by (auto split: if_splits)
  have "mcount s \<le> mx + weight w_over s" using inv by (simp add: mem_inv_def counts_ok_def)
  then show ?thesis unfolding m(2) by (intro move_inv [OF inv m(1)]) (simp_all add: w_stored_def w_over_def)
next
  case (MTick d)
  with assms tick_inv show ?thesis by (auto split: if_splits)
next
  case MSweep
  with assms show ?thesis by (auto simp: mem_inv_def counts_ok_def sweep_ok_def split: if_splits)
next
  case (MCheck k)
  with assms check_inv [OF inv] show ?thesis by (auto split: sweep_pc.splits option.splits if_splits)
next
  case MDrop
  with assms drop_inv [OF inv] show ?thesis by (auto split: sweep_pc.splits)
next
  case MDropCount
  with assms show ?thesis by (auto simp: mem_inv_def counts_ok_def sweep_ok_def split: sweep_pc.splits)
next
  case MSweepEnd
  with assms show ?thesis by (auto simp: mem_inv_def counts_ok_def sweep_ok_def split: sweep_pc.splits)
qed

lemma all_at_rest:
  assumes "list_all (\<lambda>p. p = At_rest) (mpcs s)"
  shows "weight w_stored s = 0" and "weight w_over s = 0" and "owner g s = None" and "since g s = None"
proof -
  have "list_all (\<lambda>p. p = At_rest) ps \<Longrightarrow> sum_list (map w_stored ps) = 0 \<and> sum_list (map w_over ps) = 0" for ps
    by (induction ps) (simp_all add: w_stored_def w_over_def)
  with assms show "weight w_stored s = 0" "weight w_over s = 0" by (simp_all add: weight_def)
  have "mpc g s = Some p \<Longrightarrow> p = At_rest" for p using assms by (auto simp: mpc_def list_all_length split: if_splits)
  then show "owner g s = None" "since g s = None" by (auto simp: owner_def since_def split: option.splits)
qed

interpretation keys: invariant "\<lambda>s. mem_init s \<and> 0 < mx" "mem_step mx" "mem_inv mx" for mx
proof
  show "mem_inv mx s" if "mem_init s \<and> 0 < mx" for s
    using that all_at_rest [of s] by (simp add: mem_init_def mem_inv_def counts_ok_def owners_ok_def sweep_ok_def times_ok_def)
next
  show "mem_inv mx s \<Longrightarrow> mem_step mx s t \<Longrightarrow> mem_inv mx t" for s t using step_inv by (auto simp: mem_step_def)
qed

text \<open>The number of calls that are between storing a key and its being counted or deleted.\<close>

definition unsettled :: "mem_sys \<Rightarrow> nat" where
  "unsettled s = length (filter (\<lambda>p. owned p \<noteq> None) (mpcs s))"

lemma weight_unsettled: "weight w_stored s + weight w_over s = int (unsettled s)"
proof -
  have "w_stored p + w_over p = (if owned p \<noteq> None then 1 else 0)" for p by (cases p) (simp_all add: w_stored_def w_over_def)
  then have "sum_list (map w_stored ps) + sum_list (map w_over ps) = int (length (filter (\<lambda>p. owned p \<noteq> None) ps))" for ps
    by (induction ps) (auto simp: algebra_simps)
  then show ?thesis by (simp add: weight_def unsettled_def)
qed

text \<open>
  C34. The store never keeps more keys than it should. Under any interleaving of calls and cleanups, none of
  which is delayed for five minutes, the number of keys exceeds the limit by no more than the number of
  calls that have just stored a key; and when nothing is in progress, the counter is the number of keys.
\<close>

theorem limiter_keys_bounded:
  assumes "reachable (\<lambda>s. mem_init s \<and> 0 < mx) (mem_step mx) s"
  shows "int (card (dom (mkeys s))) \<le> mx + int (unsettled s) \<and>
    (list_all (\<lambda>p. p = At_rest) (mpcs s) \<and> msweep s = Resting \<longrightarrow> mcount s = int (card (dom (mkeys s))) \<and> mcount s \<le> mx)"
proof (intro conjI impI)
  have i: "counts_ok mx s" using keys.reachable_inv [OF assms] by (simp add: mem_inv_def)
  then show "int (card (dom (mkeys s))) \<le> mx + int (unsettled s)"
    by (simp add: counts_ok_def weight_unsettled [symmetric] split: sweep_pc.splits)
  assume rest: "list_all (\<lambda>p. p = At_rest) (mpcs s) \<and> msweep s = Resting"
  with i all_at_rest(1,2) [of s] show "mcount s = int (card (dom (mkeys s)))" "mcount s \<le> mx" by (simp_all add: counts_ok_def)
qed

fun mem_run :: "int \<Rightarrow> mem_act list \<Rightarrow> mem_sys \<Rightarrow> mem_sys option" where
  "mem_run mx [] s = Some s"
| "mem_run mx (a # as) s = (case mem_exec mx a s of None \<Rightarrow> None | Some t \<Rightarrow> mem_run mx as t)"

lemma mem_run_reachable: "mem_run mx as s = Some t \<Longrightarrow> reachable init (mem_step mx) s \<Longrightarrow> reachable init (mem_step mx) t"
proof (induction mx as s rule: mem_run.induct)
  case (2 mx a as s)
  then obtain u where "mem_exec mx a s = Some u" "mem_run mx as u = Some t" by (auto split: option.splits)
  moreover from this have "reachable init (mem_step mx) u" using reachable_step [OF "2.prems"(2)] unfolding mem_step_def by blast
  ultimately show ?case using "2.IH" "2.prems" by simp
qed simp

text \<open>Two calls with different keys where one is allowed: the second key is stored, counted, deleted and forgotten.\<close>

theorem limiter_keys_bounded_witness:
  "\<exists>s. reachable (\<lambda>s. mem_init s \<and> 0 < (1 :: int)) (mem_step 1) s \<and> mkeys s ''a'' = Some 7 \<and> mkeys s ''b'' = None \<and>
     mcount s = 1 \<and> card (dom (mkeys s)) = 1"
proof -
  let ?s = "\<lparr>mkeys = Map.empty, mcount = 0, mclock = 7, mpcs = [At_rest, At_rest], msweep = Resting\<rparr>"
  let ?t = "\<lparr>mkeys = (Map.empty(''a'' \<mapsto> 7, ''b'' \<mapsto> 7))(''b'' := None), mcount = 1, mclock = 7, mpcs = [At_rest, At_rest], msweep = Resting\<rparr>"
  have "reachable (\<lambda>s. mem_init s \<and> 0 < (1 :: int)) (mem_step 1) ?s" by (rule reachable_init) (simp add: mem_init_def)
  moreover have "mem_run 1 [MCall 0 ''a'', MCall 1 ''b'', MLoadOrStore 0, MLoadOrStore 1, MCount 0, MCount 1, MEvict 1, MUncount 1] ?s = Some ?t"
    by (simp add: mpc_def goto_def)
  ultimately have r: "reachable (\<lambda>s. mem_init s \<and> 0 < (1 :: int)) (mem_step 1) ?t" using mem_run_reachable by blast
  from limiter_keys_bounded [OF r] have "mcount ?t = int (card (dom (mkeys ?t)))" by simp
  then have "card (dom (mkeys ?t)) = 1" by simp
  with r show ?thesis by (intro exI [of _ ?t]) simp
qed

section \<open>Refusals\<close>

lemma calculateSafeDelay_pos: "0 < calculateSafeDelay f"
  by (simp add: calculateSafeDelay_def maxDelay_def minDelay_def Millisecond_def nanos_def Let_def)

lemma mem_Allow_refused:
  assumes "mem_Allow ops key t m = ((False, d), m')"
  shows "0 < d \<and> (limiters m key \<noteq> None \<or> \<not> (maxKeys m > 0 \<and> keyCount m + 1 > maxKeys m))"
  using assms calculateSafeDelay_pos
  by (auto simp: mem_Allow_def Let_def split: option.splits if_splits prod.splits)

lemma retry_seconds_pos: "0 < d \<Longrightarrow> 1 \<le> retry_seconds d \<and> d \<le> retry_seconds d * nanos"
proof
  assume "0 < d"
  then have "0 < (of_int d / of_int nanos :: rat)" by (simp add: nanos_def)
  then show "1 \<le> retry_seconds d" by (simp add: retry_seconds_def)
  have "(of_int d / of_int nanos :: rat) \<le> of_int (retry_seconds d)" unfolding retry_seconds_def by (rule le_of_int_ceiling)
  then have "(of_int d :: rat) \<le> of_int (retry_seconds d * nanos)" by (simp add: nanos_def field_simps)
  then show "d \<le> retry_seconds d * nanos" by (simp only: of_int_le_iff)
qed

text \<open>The store in memory as the middleware calls it; it does not fail.\<close>

definition memory_store :: "'l limiter_ops \<Rightarrow> int \<Rightarrow> string \<Rightarrow> 'l memoryRateLimiterStore \<Rightarrow> (bool \<times> int) option \<times> 'l memoryRateLimiterStore" where
  "memory_store ops t key m = (case mem_Allow ops key t m of (a, m') \<Rightarrow> (Some a, m'))"

text \<open>
  A refusal is justified. A request is answered 429 only if the configuration is valid, it is not for a well-known
  path, its key is known or there is room for it, and the limiter of the key asks for a wait; the wait it is
  told is at least a second and at least that long. If proxies are not trusted, no header can change the key.
\<close>

lemma refusal_is_justified:
  assumes "RateLimiter_serve c (memory_store ops t) r m = (TooManyRequests w, counted, m')" and "maxKeys m > 0"
  shows "sl_Validate c = None \<and> \<not> isWellKnownPath (sr_Path r) \<and> counted \<and> 1 \<le> w \<and>
    (limiters m (limit_key c r) \<noteq> None \<or> keyCount m < maxKeys m) \<and>
    (\<exists>d. fst (mem_Allow ops (limit_key c r) t m) = (False, d) \<and> d \<le> w * nanos) \<and>
    (TrustedProxies c \<or> limit_key c (r\<lparr>sr_Header := h\<rparr>) = limit_key c r)"
proof -
  obtain d where d: "mem_Allow ops (limit_key c r) t m = ((False, d), m')" "w = retry_seconds d" "counted"
    and v: "sl_Validate c = None" "\<not> isWellKnownPath (sr_Path r)"
    using assms(1) by (auto simp: RateLimiter_serve_def memory_store_def split: if_splits prod.splits option.splits)
  have "TrustedProxies c \<or> limit_key c (r\<lparr>sr_Header := h\<rparr>) = limit_key c r"
    by (simp add: limit_key_def getIP_def getRemoteAddr_def split: option.split)
  with d v mem_Allow_refused [OF d(1)] retry_seconds_pos [of d] assms(2) show ?thesis by auto
qed

text \<open>A limiter that admits one call and then asks for a wait.\<close>

definition one_shot :: "bool limiter_ops" where
  "one_shot = \<lparr>NewLimiter = (\<lambda>_ _. False), Reserve = (\<lambda>used t. (Some (if used then 1500000000 else 0), True)), Cancel = (\<lambda>used t. used)\<rparr>"

definition per_client :: ServerLimiterConfig where
  "per_client = \<lparr>sl_RequestsPerSecond = Fin 5, sl_Burst = 10, PerIP = True, TrustedProxies = False, MaxKeys = 0\<rparr>"

definition loopback :: server_request where
  "loopback = \<lparr>sr_Method = ''GET'', sr_Path = ''/a'', sr_RemoteAddr = ''[::1]:80'', sr_Header = (\<lambda>_. ''10.0.0.1'')\<rparr>"

definition one_key :: "bool memoryRateLimiterStore" where
  "one_key = \<lparr>limiters = Map.empty(''::1'' \<mapsto> \<lparr>le_limiter = True, le_lastAccess = 0\<rparr>), keyCount = 1, maxKeys = 100000, st_config = per_client\<rparr>"

lemma refusal_is_justified_witness:
  "fst (RateLimiter_serve per_client (memory_store one_shot 0) loopback one_key) = TooManyRequests 2 \<and>
   limit_key per_client (loopback\<lparr>sr_Header := (\<lambda>_. ''10.0.0.2'')\<rparr>) = limit_key per_client loopback"
proof -
  have k: "limit_key per_client loopback = ''::1''" "sl_Validate per_client = None" "\<not> isWellKnownPath (sr_Path loopback)" by code_simp+
  have s: "retry_seconds 1500000000 = 2" by (simp add: retry_seconds_def nanos_def ceiling_eq_iff)
  obtain m' where m': "RateLimiter_serve per_client (memory_store one_shot 0) loopback one_key = (TooManyRequests 2, True, m')"
    using k s by (simp add: RateLimiter_serve_def memory_store_def mem_Allow_def one_shot_def one_key_def)
  have "maxKeys one_key > 0" "\<not> TrustedProxies per_client" by (simp_all add: one_key_def per_client_def)
  with refusal_is_justified [OF m', of "\<lambda>_. ''10.0.0.2''"] m' show ?thesis by auto
qed

end
