(* ===== verification/Rbac_Config.thy ===== *)
theory Rbac_Config
  imports Go_Prelude "HOL-Library.Product_Lexorder"
begin

text \<open>
  The configuration of role-based access control, \<^verbatim>\<open>pkg/gofr/rbac/config.go\<close>, \<^verbatim>\<open>resolver.go\<close> and
  \<^verbatim>\<open>endpoint_matcher.go\<close>: validation, the effective permissions of roles with inheritance, the lookup maps,
  the rules ordered by specificity and the resolution of a request to the endpoint that governs it.
  Compiling and matching a pattern is gorilla/mux's; it is the argument \<open>mux\<close>, a function of the pattern,
  the method and the path.
\<close>

section \<open>Data\<close>

record RoleDefinition =
  Name :: string
  Permissions :: "string list"
  InheritsFrom :: "string list"

record EndpointMapping =
  Path :: string
  Methods :: "string list"
  RequiredPermissions :: "string list"
  Public :: bool

type_synonym mux_match = "string \<Rightarrow> string \<Rightarrow> string \<Rightarrow> bool"

text \<open>A rule; \<^verbatim>\<open>route\<close> is the pattern to be matched by mux, \<open>None\<close> for a literal path.\<close>

record endpointRule =
  endpoint :: EndpointMapping
  pattern :: string
  route :: "string option"
  rmethod :: string
  isPublic :: bool
  pathScore :: "int list"
  methodScore :: int

record Config =
  Roles :: "RoleDefinition list"
  Endpoints :: "EndpointMapping list"
  RoleHeader :: string
  JWTClaimPath :: string
  PermissionsClaimPath :: string
  rolePermissionsMap :: "string \<Rightarrow> string list option"
  rolePermissionSet :: "string \<Rightarrow> string set option"
  endpointPermissionMap :: "string \<Rightarrow> string list option"
  publicEndpointsMap :: "string \<Rightarrow> bool option"
  endpointMap :: "string \<Rightarrow> EndpointMapping option"
  rules :: "endpointRule list"

datatype rbac_error =
    ErrEndpointMissingPermissions
  | ErrWildcardPattern
  | ErrRegexPattern
  | ErrRegexIndicator
  | ErrUnbalancedBraces
  | ErrBothClaimPaths
  | ErrInvalidPermissionsClaimPath
  | ErrInvalidArrayNotation
  | ErrInvalidArrayIndex

section \<open>Patterns\<close>

definition isMuxPattern :: "string \<Rightarrow> bool" where
  "isMuxPattern p \<longleftrightarrow> Contains p ''{'' \<and> Contains p ''}''"

definition compilePattern :: "string \<Rightarrow> string option" where
  "compilePattern p = (if p = '''' \<or> \<not> isMuxPattern p then None else Some p)"

definition validateMuxPattern :: "string \<Rightarrow> rbac_error + unit" where
  "validateMuxPattern p =
     (let openCount = count_list p (CHR ''{''); closeCount = count_list p (CHR ''}'') in
      if openCount \<noteq> closeCount then Inl ErrUnbalancedBraces
      else if closeCount > 0 \<and> openCount = 0 then Inl ErrUnbalancedBraces
      else Inr ())"

definition checkWildcardPattern :: "string \<Rightarrow> rbac_error + unit" where
  "checkWildcardPattern p = (if Contains p ''/*'' then Inl ErrWildcardPattern else Inr ())"

definition checkRegexPattern :: "string \<Rightarrow> rbac_error + unit" where
  "checkRegexPattern p = (if HasPrefix p ''^'' \<or> HasSuffix p ''$'' then Inl ErrRegexPattern else Inr ())"

definition backslash :: char where
  "backslash = char_of (92 :: nat)"

definition checkRegexIndicators :: "string \<Rightarrow> rbac_error + unit" where
  "checkRegexIndicators p =
     (if Contains p [backslash, CHR ''d''] \<or> Contains p [backslash, CHR ''w''] \<or> Contains p [backslash, CHR ''s''] then
        if \<not> Contains p ''{'' \<or> \<not> Contains p '':'' then Inl ErrRegexIndicator else Inr ()
      else Inr ())"

definition validateEndpointPath :: "string \<Rightarrow> rbac_error + unit" where
  "validateEndpointPath p =
     (if p = '''' then Inr ()
      else bind_sum (checkWildcardPattern p) (\<lambda>_.
           bind_sum (checkRegexPattern p) (\<lambda>_.
           bind_sum (checkRegexIndicators p) (\<lambda>_.
             if isMuxPattern p then validateMuxPattern p else Inr ()))))"

section \<open>Claim paths and modes\<close>

text \<open>\<^verbatim>\<open>fmt.Sscanf\<close> with the verb \<open>%d\<close>: leading blanks, an optional sign and digits; what follows them is
  not read. A number outside the 64-bit range is an error.\<close>

definition Sscanf_d :: "string \<Rightarrow> int option" where
  "Sscanf_d s0 =
     (let s = dropWhile (\<lambda>c. (of_char c :: nat) \<in> {9, 11, 12, 13, 32}) s0;
          neg = (s \<noteq> [] \<and> hd s = CHR ''-'');
          ds = takeWhile is_digit (if s \<noteq> [] \<and> (hd s = CHR ''-'' \<or> hd s = CHR ''+'') then tl s else s);
          v = (if neg then - digits_val ds else digits_val ds)
      in if ds = [] \<or> v > maxInt64 \<or> v < minInt64 then None else Some v)"

definition trim_brackets :: "string \<Rightarrow> string" where
  "trim_brackets s =
     (let b = (\<lambda>c. c = CHR ''['' \<or> c = CHR '']'') in rev (dropWhile b (rev (dropWhile b s))))"

definition parseArrayPath :: "string \<Rightarrow> nat \<Rightarrow> rbac_error + string \<times> int" where
  "parseArrayPath p i =
     (let arrayPath = drop i p in
      if \<not> HasPrefix arrayPath ''['' \<or> \<not> HasSuffix arrayPath '']'' then Inl ErrInvalidArrayNotation
      else (case Sscanf_d (trim_brackets arrayPath) of
              None \<Rightarrow> Inl ErrInvalidArrayIndex
            | Some n \<Rightarrow> Inr (take i p, n)))"

definition validateClaimPath :: "string \<Rightarrow> rbac_error + unit" where
  "validateClaimPath p =
     (case IndexByte p (CHR ''['') of
        Some i \<Rightarrow> (case parseArrayPath p i of Inl e \<Rightarrow> Inl e | Inr _ \<Rightarrow> Inr ())
      | None \<Rightarrow> Inr ())"

definition validateClaimModes :: "Config \<Rightarrow> rbac_error + unit" where
  "validateClaimModes c =
     (if JWTClaimPath c \<noteq> '''' \<and> PermissionsClaimPath c \<noteq> '''' then Inl ErrBothClaimPaths
      else (case validateClaimPath (PermissionsClaimPath c) of
              Inl _ \<Rightarrow> Inl ErrInvalidPermissionsClaimPath | Inr _ \<Rightarrow> Inr ()))"

fun validate_endpoints :: "EndpointMapping list \<Rightarrow> rbac_error + unit" where
  "validate_endpoints [] = Inr ()"
| "validate_endpoints (e # es) =
     (if \<not> Public e \<and> length (RequiredPermissions e) = 0 then Inl ErrEndpointMissingPermissions
      else bind_sum (validateEndpointPath (Path e)) (\<lambda>_. validate_endpoints es))"

definition validate :: "Config \<Rightarrow> rbac_error + unit" where
  "validate c = bind_sum (validateClaimModes c) (\<lambda>_. validate_endpoints (Endpoints c))"

datatype rbac_mode = modePermissions | modeRoles | modeHeader | modeNone

definition config_mode :: "Config \<Rightarrow> rbac_mode \<times> string" where
  "config_mode c =
     (if PermissionsClaimPath c \<noteq> '''' then (modePermissions, PermissionsClaimPath c)
      else if JWTClaimPath c \<noteq> '''' then (modeRoles, JWTClaimPath c)
      else if RoleHeader c \<noteq> '''' then (modeHeader, RoleHeader c)
      else (modeNone, ''''))"

section \<open>Roles\<close>

text \<open>The first definition of a name is the one that counts.\<close>

fun find_role :: "RoleDefinition list \<Rightarrow> string \<Rightarrow> RoleDefinition option" where
  "find_role [] name = None"
| "find_role (d # ds) name = (if Name d = name then Some d else find_role ds name)"

text \<open>The recursion of \<^verbatim>\<open>collectPermissions\<close> with its stack made explicit: the names still to be visited,
  in order. The set of visited names and the list of permissions are the variables it closes over.\<close>

function collectPermissions ::
    "RoleDefinition list \<Rightarrow> string list \<Rightarrow> string set \<Rightarrow> string list \<Rightarrow> string list" where
  "collectPermissions rs [] visited perms = perms"
| "collectPermissions rs (name # stack) visited perms =
     (if name \<in> visited then collectPermissions rs stack visited perms
      else (case find_role rs name of
              None \<Rightarrow> collectPermissions rs stack (insert name visited) perms
            | Some d \<Rightarrow> collectPermissions rs (InheritsFrom d @ stack) (insert name visited) (perms @ Permissions d)))"
  by pat_completeness auto

lemma find_role_name: "find_role rs name = Some d \<Longrightarrow> d \<in> set rs \<and> Name d = name"
  by (induction rs) (auto split: if_splits)

text \<open>Each step either visits a defined role for the first time or shortens the stack.\<close>

termination collectPermissions
proof (relation "(\<lambda>(rs, stack, visited, perms). card (Name ` set rs - visited)) <*mlex*>
    measure (\<lambda>(rs, stack, visited, perms). length stack)")
  show "wf ((\<lambda>(rs, stack, visited, perms). card (Name ` set rs - visited)) <*mlex*>
      measure (\<lambda>(rs, stack, visited, perms). length stack))" by (auto intro: wf_mlex)
next
  fix rs :: "RoleDefinition list" and name stack visited and perms :: "string list" and d
  assume nv: "name \<notin> visited" and f: "find_role rs name = Some d"
  have "name \<in> Name ` set rs" using find_role_name [OF f] by auto
  then have "Name ` set rs - insert name visited \<subset> Name ` set rs - visited" using nv by auto
  then have "card (Name ` set rs - insert name visited) < card (Name ` set rs - visited)"
    by (intro psubset_card_mono) auto
  then show "((rs, InheritsFrom d @ stack, insert name visited, perms @ Permissions d), rs, name # stack, visited, perms)
      \<in> (\<lambda>(rs, stack, visited, perms). card (Name ` set rs - visited)) <*mlex*>
        measure (\<lambda>(rs, stack, visited, perms). length stack)"
    by (intro mlex_less) simp
next
  fix rs :: "RoleDefinition list" and name stack visited and perms :: "string list"
  have "card (Name ` set rs - insert name visited) \<le> card (Name ` set rs - visited)"
    by (intro card_mono) auto
  then show "((rs, stack, insert name visited, perms), rs, name # stack, visited, perms)
      \<in> (\<lambda>(rs, stack, visited, perms). card (Name ` set rs - visited)) <*mlex*>
        measure (\<lambda>(rs, stack, visited, perms). length stack)"
    by (intro mlex_leq) auto
qed (auto intro: mlex_leq)

definition getEffectivePermissions :: "RoleDefinition list \<Rightarrow> string \<Rightarrow> string list" where
  "getEffectivePermissions rs name = collectPermissions rs [name] {} []"

fun build_roles :: "RoleDefinition list \<Rightarrow> RoleDefinition list \<Rightarrow> Config \<Rightarrow> Config" where
  "build_roles all [] c = c"
| "build_roles all (d # ds) c =
     (let permissions = getEffectivePermissions all (Name d) in
      build_roles all ds (c\<lparr>rolePermissionsMap := (rolePermissionsMap c)(Name d \<mapsto> permissions),
        rolePermissionSet := (rolePermissionSet c)(Name d \<mapsto> set permissions)\<rparr>))"

definition buildRolePermissionsMap :: "Config \<Rightarrow> Config" where
  "buildRolePermissionsMap c = build_roles (Roles c) (Roles c) c"

definition GetRolePermissions :: "Config \<Rightarrow> string \<Rightarrow> string list" where
  "GetRolePermissions c role = (case rolePermissionsMap c role of None \<Rightarrow> [] | Some ps \<Rightarrow> ps)"

section \<open>Specificity\<close>

definition segCatchAll :: int where "segCatchAll = 1"
definition segVariable :: int where "segVariable = 2"
definition segConstrained :: int where "segConstrained = 3"
definition segLiteral :: int where "segLiteral = 4"

fun split_segments :: "nat \<Rightarrow> string \<Rightarrow> string \<Rightarrow> string list" where
  "split_segments depth cur [] = [rev cur]"
| "split_segments depth cur (r # rest) =
     (if r = CHR ''{'' then split_segments (depth + 1) (r # cur) rest
      else if r = CHR ''}'' then split_segments (depth - 1) (r # cur) rest
      else if r = CHR ''/'' \<and> depth = 0 then rev cur # split_segments depth [] rest
      else split_segments depth (r # cur) rest)"

definition splitPatternSegments :: "string \<Rightarrow> string list" where
  "splitPatternSegments p = split_segments 0 [] p"

definition isCatchAllVariable :: "string \<Rightarrow> bool" where
  "isCatchAllVariable segment =
     (let inner = butlast (tl segment) in
      case IndexByte inner (CHR '':'') of
        None \<Rightarrow> False
      | Some i \<Rightarrow> let constraint = TrimSpace (drop (i + 1) inner)
                  in constraint = ''.*'' \<or> constraint = ''.+'' \<or> Contains constraint ''/'')"

definition segment_score :: "string \<Rightarrow> int" where
  "segment_score segment =
     (if \<not> HasPrefix segment ''{'' \<or> \<not> HasSuffix segment ''}'' then segLiteral
      else if isCatchAllVariable segment then segCatchAll
      else if Contains segment '':'' then segConstrained
      else segVariable)"

definition pathSpecificity :: "string \<Rightarrow> int list" where
  "pathSpecificity p = (if p = '''' then [] else map segment_score (splitPatternSegments (Trim p (CHR ''/''))))"

fun compareSpecificity :: "int list \<Rightarrow> int list \<Rightarrow> int" where
  "compareSpecificity (a # as) (b # bs) = (if a \<noteq> b then a - b else compareSpecificity as bs)"
| "compareSpecificity as bs = int (length as) - int (length bs)"

section \<open>Rules and lookup maps\<close>

definition buildEndpointKey :: "EndpointMapping \<Rightarrow> string \<Rightarrow> string" where
  "buildEndpointKey e methodUpper = methodUpper @ '':'' @ Path e"

definition declared_methods :: "EndpointMapping \<Rightarrow> string list" where
  "declared_methods e = (if length (Methods e) = 0 then [''*''] else Methods e)"

text \<open>Every declaration in order: an endpoint with one of its methods, in upper case.\<close>

definition declarations :: "EndpointMapping list \<Rightarrow> (EndpointMapping \<times> string) list" where
  "declarations es = concat (map (\<lambda>e. map (\<lambda>m. (e, ToUpper m)) (declared_methods e)) es)"

definition make_rule :: "EndpointMapping \<Rightarrow> string \<Rightarrow> endpointRule" where
  "make_rule e methodUpper =
     \<lparr>endpoint = e, pattern = Path e, route = compilePattern (Path e), rmethod = methodUpper, isPublic = Public e,
      pathScore = pathSpecificity (Path e), methodScore = (if methodUpper = ''*'' then 0 else 1)\<rparr>"

fun collect_rules ::
    "(EndpointMapping \<times> string) list \<Rightarrow> (string \<Rightarrow> endpointRule option) \<Rightarrow> string list \<Rightarrow> (string \<Rightarrow> endpointRule option) \<times> string list" where
  "collect_rules [] byKey order = (byKey, order)"
| "collect_rules ((e, m) # ds) byKey order =
     (let key = buildEndpointKey e m;
          order1 = (if byKey key = None then order @ [key] else order)
      in collect_rules ds (byKey(key \<mapsto> make_rule e m)) order1)"

definition rule_less :: "endpointRule \<Rightarrow> endpointRule \<Rightarrow> bool" where
  "rule_less a b =
     (let cmp = compareSpecificity (pathScore a) (pathScore b) in
      if cmp \<noteq> 0 then cmp > 0
      else if methodScore a \<noteq> methodScore b then methodScore a > methodScore b
      else \<not> isPublic a \<and> isPublic b)"

text \<open>\<^verbatim>\<open>sort.SliceStable\<close> with the given order.\<close>

fun insert_by :: "('a \<Rightarrow> 'a \<Rightarrow> bool) \<Rightarrow> 'a \<Rightarrow> 'a list \<Rightarrow> 'a list" where
  "insert_by lt x [] = [x]"
| "insert_by lt x (y # ys) = (if lt y x then y # insert_by lt x ys else x # y # ys)"

definition SliceStable :: "('a \<Rightarrow> 'a \<Rightarrow> bool) \<Rightarrow> 'a list \<Rightarrow> 'a list" where
  "SliceStable lt xs = foldr (insert_by lt) xs []"

definition buildEndpointRules :: "EndpointMapping list \<Rightarrow> endpointRule list" where
  "buildEndpointRules es =
     (let (byKey, order) = collect_rules (declarations es) (\<lambda>_. None) []
      in SliceStable rule_less (map (\<lambda>k. the (byKey k)) order))"

definition storeEndpointMapping :: "EndpointMapping \<Rightarrow> string \<Rightarrow> Config \<Rightarrow> rbac_error option \<times> Config" where
  "storeEndpointMapping e key c =
     (let c1 = c\<lparr>endpointMap := (endpointMap c)(key \<mapsto> e)\<rparr> in
      if Public e then
        (None, c1\<lparr>publicEndpointsMap := (publicEndpointsMap c1)(key \<mapsto> True),
                  endpointPermissionMap := (endpointPermissionMap c1)(key := None)\<rparr>)
      else let c2 = c1\<lparr>publicEndpointsMap := (publicEndpointsMap c1)(key := None)\<rparr> in
        if length (RequiredPermissions e) = 0 then (Some ErrEndpointMissingPermissions, c2)
        else (None, c2\<lparr>endpointPermissionMap := (endpointPermissionMap c2)(key \<mapsto> RequiredPermissions e)\<rparr>))"

fun process_declarations :: "(EndpointMapping \<times> string) list \<Rightarrow> Config \<Rightarrow> rbac_error option \<times> Config" where
  "process_declarations [] c = (None, c)"
| "process_declarations ((e, m) # ds) c =
     (case storeEndpointMapping e (buildEndpointKey e m) c of
        (Some err, c1) \<Rightarrow> (Some err, c1)
      | (None, c1) \<Rightarrow> process_declarations ds c1)"

definition buildEndpointPermissionMap :: "Config \<Rightarrow> rbac_error option \<times> Config" where
  "buildEndpointPermissionMap c =
     (case process_declarations (declarations (Endpoints c)) c of
        (Some err, c1) \<Rightarrow> (Some err, c1)
      | (None, c1) \<Rightarrow> (None, c1\<lparr>rules := buildEndpointRules (Endpoints c1)\<rparr>))"

definition initializeMaps :: "Config \<Rightarrow> Config" where
  "initializeMaps c = c\<lparr>rolePermissionsMap := (\<lambda>_. None), rolePermissionSet := (\<lambda>_. None),
     endpointPermissionMap := (\<lambda>_. None), publicEndpointsMap := (\<lambda>_. None), endpointMap := (\<lambda>_. None)\<rparr>"

definition processUnifiedConfig :: "Config \<Rightarrow> rbac_error option \<times> Config" where
  "processUnifiedConfig c = buildEndpointPermissionMap (buildRolePermissionsMap (initializeMaps c))"

text \<open>\<^verbatim>\<open>LoadPermissions\<close> after the file has been read and parsed.\<close>

definition load_config :: "Config \<Rightarrow> rbac_error + Config" where
  "load_config c =
     bind_sum (validate c) (\<lambda>_. case processUnifiedConfig c of (Some e, _) \<Rightarrow> Inl e | (None, c1) \<Rightarrow> Inr c1)"

section \<open>Resolving a request\<close>

definition matchesMethod :: "endpointRule \<Rightarrow> string \<Rightarrow> bool" where
  "matchesMethod r methodUpper \<longleftrightarrow> rmethod r = ''*'' \<or> EqualFold (rmethod r) methodUpper"

definition matchesPath :: "mux_match \<Rightarrow> endpointRule \<Rightarrow> string \<Rightarrow> string \<Rightarrow> bool" where
  "matchesPath mux r methodUpper p =
     (if pattern r = '''' then False
      else (case route r of None \<Rightarrow> pattern r = p | Some pat \<Rightarrow> mux pat methodUpper p))"

definition rule_matches :: "mux_match \<Rightarrow> string \<Rightarrow> string \<Rightarrow> endpointRule \<Rightarrow> bool" where
  "rule_matches mux methodUpper p r \<longleftrightarrow> matchesMethod r methodUpper \<and> matchesPath mux r methodUpper p"

fun resolveEndpoint :: "mux_match \<Rightarrow> string \<Rightarrow> string \<Rightarrow> endpointRule list \<Rightarrow> EndpointMapping option \<times> bool" where
  "resolveEndpoint mux methodUpper p [] = (None, False)"
| "resolveEndpoint mux methodUpper p (r # rs) =
     (if rule_matches mux methodUpper p r then (Some (endpoint r), isPublic r)
      else resolveEndpoint mux methodUpper p rs)"

definition getExactEndpoint :: "Config \<Rightarrow> string \<Rightarrow> EndpointMapping option \<times> bool" where
  "getExactEndpoint c key =
     (case endpointMap c key of
        Some e \<Rightarrow> (Some e, publicEndpointsMap c key = Some True)
      | None \<Rightarrow> (None, False))"

definition resolve :: "mux_match \<Rightarrow> Config \<Rightarrow> string \<Rightarrow> string \<Rightarrow> EndpointMapping option \<times> bool" where
  "resolve mux c methodUpper p =
     (case getExactEndpoint c (methodUpper @ '':'' @ p) of
        (Some e, pub) \<Rightarrow> (Some e, pub)
      | (None, _) \<Rightarrow>
          (case getExactEndpoint c (''*:'' @ p) of
             (Some e, pub) \<Rightarrow> (Some e, pub)
           | (None, _) \<Rightarrow> resolveEndpoint mux methodUpper p (rules c)))"

definition getEndpointForRequest :: "mux_match \<Rightarrow> Config \<Rightarrow> string \<Rightarrow> string \<Rightarrow> EndpointMapping option \<times> bool" where
  "getEndpointForRequest mux c meth p =
     (if length (Endpoints c) = 0 then (None, False) else resolve mux c (ToUpper meth) p)"

definition GetEndpointPermission :: "mux_match \<Rightarrow> Config \<Rightarrow> string \<Rightarrow> string \<Rightarrow> string list \<times> bool" where
  "GetEndpointPermission mux c meth p =
     (case resolve mux c (ToUpper meth) p of
        (None, pub) \<Rightarrow> ([], pub)
      | (Some e, pub) \<Rightarrow> if pub then ([], pub) else (RequiredPermissions e, False))"

section \<open>Lemmas: inheritance\<close>

definition inherits :: "RoleDefinition list \<Rightarrow> string \<Rightarrow> string \<Rightarrow> bool" where
  "inherits rs a b \<longleftrightarrow> (\<exists>d. find_role rs a = Some d \<and> b \<in> set (InheritsFrom d))"

definition own_permissions :: "RoleDefinition list \<Rightarrow> string \<Rightarrow> string set" where
  "own_permissions rs a = (case find_role rs a of None \<Rightarrow> {} | Some d \<Rightarrow> set (Permissions d))"

text \<open>The names reached from \<open>X\<close> without entering \<open>V\<close>.\<close>

inductive reach :: "RoleDefinition list \<Rightarrow> string set \<Rightarrow> string set \<Rightarrow> string \<Rightarrow> bool" for rs V X where
  reach_start: "x \<in> X \<Longrightarrow> x \<notin> V \<Longrightarrow> reach rs V X x"
| reach_next: "reach rs V X a \<Longrightarrow> inherits rs a b \<Longrightarrow> b \<notin> V \<Longrightarrow> reach rs V X b"

lemma reach_visited: "n \<in> V \<Longrightarrow> reach rs V (insert n X) m \<longleftrightarrow> reach rs V X m"
proof
  show "reach rs V (insert n X) m \<Longrightarrow> n \<in> V \<Longrightarrow> reach rs V X m"
    by (induction rule: reach.induct) (auto intro: reach.intros)
  show "reach rs V X m \<Longrightarrow> reach rs V (insert n X) m"
    by (induction rule: reach.induct) (auto intro: reach.intros)
qed

lemma reach_visit:
  assumes "n \<notin> V"
  shows "reach rs V (insert n X) m \<longleftrightarrow> m = n \<or> reach rs (insert n V) ({b. inherits rs n b} \<union> X) m"
proof
  assume "reach rs V (insert n X) m"
  then show "m = n \<or> reach rs (insert n V) ({b. inherits rs n b} \<union> X) m"
    by (induction rule: reach.induct) (auto intro: reach.intros)
next
  have n: "reach rs V (insert n X) n" using assms by (auto intro: reach_start)
  assume "m = n \<or> reach rs (insert n V) ({b. inherits rs n b} \<union> X) m"
  moreover have "reach rs (insert n V) ({b. inherits rs n b} \<union> X) m \<Longrightarrow> reach rs V (insert n X) m"
    by (induction rule: reach.induct) (use n in \<open>auto intro: reach.intros\<close>)
  ultimately show "reach rs V (insert n X) m" using n by blast
qed

lemma collectPermissions_set:
  "set (collectPermissions rs stack visited perms) =
     set perms \<union> {p. \<exists>n. reach rs visited (set stack) n \<and> p \<in> own_permissions rs n}"
proof (induction rs stack visited perms rule: collectPermissions.induct)
  case (1 rs visited perms)
  have "\<not> reach rs visited {} n" for n
  proof
    assume "reach rs visited {} n" then show False by (induction rule: reach.induct) auto
  qed
  then show ?case by simp
next
  case (2 rs name stack visited perms)
  show ?case
  proof (cases "name \<in> visited")
    case True
    with 2 show ?thesis by (simp add: reach_visited)
  next
    case False
    show ?thesis
    proof (cases "find_role rs name")
      case None
      then have "{b. inherits rs name b} = {}" "own_permissions rs name = {}"
        by (simp_all add: inherits_def own_permissions_def)
      with 2 None False show ?thesis by (auto simp: reach_visit [OF False])
    next
      case (Some d)
      then have "{b. inherits rs name b} = set (InheritsFrom d)" "own_permissions rs name = set (Permissions d)"
        by (simp_all add: inherits_def own_permissions_def)
      with 2 Some False show ?thesis by (auto simp: reach_visit [OF False])
    qed
  qed
qed

lemma reach_all: "reach rs {} {r} n \<longleftrightarrow> (inherits rs)\<^sup>*\<^sup>* r n"
proof
  show "reach rs {} {r} n \<Longrightarrow> (inherits rs)\<^sup>*\<^sup>* r n"
    by (induction rule: reach.induct) (auto intro: rtranclp.rtrancl_into_rtrancl)
  show "(inherits rs)\<^sup>*\<^sup>* r n \<Longrightarrow> reach rs {} {r} n"
    by (induction rule: rtranclp_induct) (auto intro: reach.intros)
qed

definition effective :: "RoleDefinition list \<Rightarrow> string \<Rightarrow> string set" where
  "effective rs r = {p. \<exists>n. (inherits rs)\<^sup>*\<^sup>* r n \<and> p \<in> own_permissions rs n}"

lemma getEffectivePermissions_set: "set (getEffectivePermissions rs r) = effective rs r"
  unfolding getEffectivePermissions_def collectPermissions_set by (simp add: reach_all effective_def)

lemma build_roles_set:
  "rolePermissionSet (build_roles all ds c) r =
     (if r \<in> Name ` set ds then Some (effective all r) else rolePermissionSet c r)"
  by (induction all ds c rule: build_roles.induct) (auto simp: getEffectivePermissions_set Let_def)

section \<open>Lemmas: the order of the rules\<close>

definition rule_key :: "endpointRule \<Rightarrow> int list \<times> int \<times> bool" where
  "rule_key r = (pathScore r, methodScore r, \<not> isPublic r)"

lemma compareSpecificity_order:
  "(0 < compareSpecificity a b \<longleftrightarrow> b < a) \<and> (compareSpecificity a b = 0 \<longleftrightarrow> a = b)"
proof (induction a arbitrary: b)
  case Nil
  show ?case by (cases b) auto
next
  case (Cons x a)
  then show ?case by (cases b) auto
qed

lemma rule_less_key: "rule_less a b \<longleftrightarrow> rule_key b < rule_key a"
  using compareSpecificity_order [of "pathScore a" "pathScore b"]
  by (auto simp: rule_less_def rule_key_def Let_def less_prod_def less_eq_prod_def)

lemma insert_by_set: "set (insert_by lt x ys) = insert x (set ys)"
  by (induction ys) auto

lemma SliceStable_set: "set (SliceStable lt xs) = set xs"
  by (induction xs) (simp_all add: SliceStable_def insert_by_set)

lemma insert_by_sorted:
  "sorted_wrt (\<lambda>a b. rule_key b \<le> rule_key a) ys \<Longrightarrow>
   sorted_wrt (\<lambda>a b. rule_key b \<le> rule_key a) (insert_by rule_less x ys)"
  by (induction ys) (fastforce simp: insert_by_set rule_less_key)+

lemma SliceStable_sorted: "sorted_wrt (\<lambda>a b. rule_key b \<le> rule_key a) (SliceStable rule_less xs)"
  by (induction xs) (simp_all add: SliceStable_def insert_by_sorted)

lemma resolveEndpoint_first:
  assumes "sorted_wrt (\<lambda>a b. rule_key b \<le> rule_key a) rs"
  shows "case resolveEndpoint mux M p rs of
      (Some e, pub) \<Rightarrow> \<exists>r \<in> set rs. rule_matches mux M p r \<and> endpoint r = e \<and> isPublic r = pub \<and>
        (\<forall>r' \<in> set rs. rule_matches mux M p r' \<longrightarrow> rule_key r' \<le> rule_key r)
    | (None, pub) \<Rightarrow> \<not> pub \<and> (\<forall>r' \<in> set rs. \<not> rule_matches mux M p r')"
  using assms
  by (induction rs) (auto split: prod.splits option.splits)

section \<open>Lemmas: the maps and the rules hold the last declarations\<close>

text \<open>The last declaration of every key.\<close>

definition decl_map ::
    "(EndpointMapping \<times> string) list \<Rightarrow> (string \<Rightarrow> (EndpointMapping \<times> string) option) \<Rightarrow> string \<Rightarrow> (EndpointMapping \<times> string) option" where
  "decl_map ds m = fold (\<lambda>(e, M) m. m(buildEndpointKey e M \<mapsto> (e, M))) ds m"

abbreviation last_decl :: "EndpointMapping list \<Rightarrow> string \<Rightarrow> (EndpointMapping \<times> string) option" where
  "last_decl es \<equiv> decl_map (declarations es) (\<lambda>_. None)"

lemma decl_map_Cons: "decl_map ((e, M) # ds) m = decl_map ds (m(buildEndpointKey e M \<mapsto> (e, M)))"
  by (simp add: decl_map_def)

lemma decl_map_key:
  "decl_map ds m k = Some (e, M) \<Longrightarrow> (e, M) \<in> set ds \<and> k = buildEndpointKey e M \<or> m k = Some (e, M)"
proof (induction ds arbitrary: m)
  case Nil
  then show ?case by (simp add: decl_map_def)
next
  case (Cons d ds)
  obtain e' M' where d: "d = (e', M')" by (rule prod.exhaust)
  let ?m = "m(buildEndpointKey e' M' \<mapsto> (e', M'))"
  have "decl_map ds ?m k = Some (e, M)" using Cons.prems by (simp only: d decl_map_Cons)
  from Cons.IH [OF this] show ?case by (auto simp: d split: if_splits)
qed

lemma collect_rules_map:
  assumes "byKey = (\<lambda>k. map_option (\<lambda>(e, M). make_rule e M) (m k))" and "set order = dom byKey"
  shows "fst (collect_rules ds byKey order) = (\<lambda>k. map_option (\<lambda>(e, M). make_rule e M) (decl_map ds m k)) \<and>
    set (snd (collect_rules ds byKey order)) = dom (fst (collect_rules ds byKey order))"
  using assms
proof (induction ds byKey order arbitrary: m rule: collect_rules.induct)
  case (1 byKey order)
  then show ?case by (simp add: decl_map_def)
next
  case (2 e M ds byKey order)
  let ?key = "buildEndpointKey e M"
  have "byKey(?key \<mapsto> make_rule e M) = (\<lambda>k. map_option (\<lambda>(e, M). make_rule e M) ((m(?key \<mapsto> (e, M))) k))"
    using "2.prems"(1) by auto
  moreover have "set (if byKey ?key = None then order @ [?key] else order) = dom (byKey(?key \<mapsto> make_rule e M))"
    using "2.prems"(2) by auto
  ultimately show ?case
    using "2.IH" [OF refl refl, of "m(?key \<mapsto> (e, M))"] unfolding decl_map_Cons
    by (simp only: collect_rules.simps Let_def)
qed

lemma buildEndpointRules_set:
  "set (buildEndpointRules es) = {make_rule e M | e M. (e, M) \<in> ran (last_decl es)}"
proof -
  obtain byKey order where c: "collect_rules (declarations es) (\<lambda>_. None) [] = (byKey, order)" by (rule prod.exhaust)
  have "byKey = (\<lambda>k. map_option (\<lambda>(e, M). make_rule e M) (last_decl es k)) \<and> set order = dom byKey"
    using collect_rules_map [of "\<lambda>_. None" "\<lambda>_. None" "[]" "declarations es"] c by simp
  then show ?thesis
    by (force simp: buildEndpointRules_def c SliceStable_set ran_def dom_def)
qed

lemma buildEndpointRules_sorted: "sorted_wrt (\<lambda>a b. rule_key b \<le> rule_key a) (buildEndpointRules es)"
  by (simp add: buildEndpointRules_def SliceStable_sorted split: prod.splits)

definition maps_agree :: "(string \<Rightarrow> (EndpointMapping \<times> string) option) \<Rightarrow> Config \<Rightarrow> bool" where
  "maps_agree m c \<longleftrightarrow>
     endpointMap c = (\<lambda>k. map_option fst (m k)) \<and>
     publicEndpointsMap c = (\<lambda>k. case m k of Some (e, _) \<Rightarrow> if Public e then Some True else None | None \<Rightarrow> None) \<and>
     endpointPermissionMap c =
       (\<lambda>k. case m k of Some (e, _) \<Rightarrow> if Public e then None else Some (RequiredPermissions e) | None \<Rightarrow> None)"

lemma store_maps:
  assumes "maps_agree m c" and "storeEndpointMapping e (buildEndpointKey e M) c = (None, c')"
  shows "maps_agree (m(buildEndpointKey e M \<mapsto> (e, M))) c' \<and> Endpoints c' = Endpoints c \<and>
    rolePermissionSet c' = rolePermissionSet c"
  using assms by (auto simp: maps_agree_def storeEndpointMapping_def Let_def fun_eq_iff split: if_splits)

lemma process_maps:
  "process_declarations ds c = (None, c') \<Longrightarrow> maps_agree m c \<Longrightarrow>
   maps_agree (decl_map ds m) c' \<and> Endpoints c' = Endpoints c \<and> rolePermissionSet c' = rolePermissionSet c"
proof (induction ds c arbitrary: m rule: process_declarations.induct)
  case (1 c)
  then show ?case by (simp add: decl_map_def)
next
  case (2 e M ds c)
  obtain c1 where s: "storeEndpointMapping e (buildEndpointKey e M) c = (None, c1)"
    and p: "process_declarations ds c1 = (None, c')"
    using "2.prems"(1) by (auto split: prod.splits option.splits)
  from store_maps [OF "2.prems"(2) s] "2.IH" [OF s [symmetric] refl p] show ?case
    by (auto simp: decl_map_Cons)
qed

lemma build_roles_rest: "Endpoints (build_roles all ds c) = Endpoints c \<and> endpointMap (build_roles all ds c) = endpointMap c \<and>
   publicEndpointsMap (build_roles all ds c) = publicEndpointsMap c \<and>
   endpointPermissionMap (build_roles all ds c) = endpointPermissionMap c"
  by (induction all ds c rule: build_roles.induct) (auto simp: Let_def)

lemma process_config:
  assumes "processUnifiedConfig c0 = (None, c)"
  shows "maps_agree (last_decl (Endpoints c0)) c \<and> rules c = buildEndpointRules (Endpoints c0) \<and>
    Endpoints c = Endpoints c0 \<and>
    rolePermissionSet c = (\<lambda>r. if r \<in> Name ` set (Roles c0) then Some (effective (Roles c0) r) else None)"
proof -
  let ?c1 = "buildRolePermissionsMap (initializeMaps c0)"
  have c1: "Endpoints ?c1 = Endpoints c0" "maps_agree (\<lambda>_. None) ?c1"
    "rolePermissionSet ?c1 = (\<lambda>r. if r \<in> Name ` set (Roles c0) then Some (effective (Roles c0) r) else None)"
    by (auto simp: buildRolePermissionsMap_def build_roles_rest build_roles_set initializeMaps_def maps_agree_def)
  obtain c2 where p: "process_declarations (declarations (Endpoints c0)) ?c1 = (None, c2)"
    and c: "c = c2\<lparr>rules := buildEndpointRules (Endpoints c2)\<rparr>"
    using assms c1(1) by (auto simp: processUnifiedConfig_def buildEndpointPermissionMap_def split: prod.splits option.splits)
  from process_maps [OF p c1(2)] c c1 show ?thesis by (simp add: maps_agree_def)
qed

section \<open>Lemmas: literal paths\<close>

lemma split_segments_chars: "s \<in> set (split_segments depth cur p) \<Longrightarrow> set s \<subseteq> set cur \<union> set p"
proof (induction depth cur p rule: split_segments.induct)
  case (2 depth cur r rest)
  then show ?case by (auto split: if_splits)
qed auto

lemma Trim_chars: "set (Trim p c) \<subseteq> set p"
  by (auto simp: Trim_def TrimRight_def TrimLeft_def dest!: set_dropWhileD)

lemma segment_score_max: "segment_score s \<le> segLiteral"
  by (simp add: segment_score_def segLiteral_def segCatchAll_def segConstrained_def segVariable_def)

lemma literal_scores:
  assumes "\<not> isMuxPattern p" and "x \<in> set (pathSpecificity p)"
  shows "x = segLiteral"
proof -
  obtain s where s: "s \<in> set (splitPatternSegments (Trim p (CHR ''/'')))" "x = segment_score s"
    using assms(2) by (auto simp: pathSpecificity_def split: if_splits)
  then have "set s \<subseteq> set p"
    using split_segments_chars [of s 0 "[]" "Trim p (CHR ''/'')"] Trim_chars [of p "CHR ''/''"]
    by (auto simp: splitPatternSegments_def)
  moreover have "CHR ''{'' \<notin> set p \<or> CHR ''}'' \<notin> set p" using assms(1) by (simp add: isMuxPattern_def Contains_char)
  moreover have "HasPrefix s ''{'' \<Longrightarrow> CHR ''{'' \<in> set s" and "HasSuffix s ''}'' \<Longrightarrow> CHR ''}'' \<in> set s"
    by (auto simp: HasPrefix_iff HasSuffix_iff)
  ultimately have "\<not> HasPrefix s ''{'' \<or> \<not> HasSuffix s ''}''" by blast
  then show ?thesis using s(2) by (simp add: segment_score_def)
qed

text \<open>A score vector with an entry below the maximum is less than a vector of maxima at least as far as that.\<close>

lemma below_literals:
  assumes "\<forall>x \<in> set ls. x = segLiteral" and "\<forall>x \<in> set xs. x \<le> segLiteral"
    and "i < length ls" and "i < length xs" and "xs ! i \<noteq> segLiteral"
  shows "xs < ls"
  using assms
proof (induction xs arbitrary: ls i)
  case (Cons x xs)
  obtain l ls' where ls: "ls = l # ls'" using Cons.prems(3) by (cases ls) auto
  show ?case
  proof (cases i)
    case 0
    with Cons.prems ls show ?thesis by auto
  next
    case (Suc j)
    with Cons.IH [of ls' j] Cons.prems ls show ?thesis by (cases "x = segLiteral") auto
  qed
qed simp

lemma key_split:
  assumes "CHR '':'' \<notin> set m" and "CHR '':'' \<notin> set n" and "m @ '':'' @ p = n @ '':'' @ q"
  shows "m = n \<and> p = q"
proof -
  have "takeWhile (\<lambda>c. c \<noteq> CHR '':'') (m @ '':'' @ p) = m" using assms(1) by (induction m) auto
  moreover have "takeWhile (\<lambda>c. c \<noteq> CHR '':'') (n @ '':'' @ q) = n" using assms(2) by (induction n) auto
  ultimately have "m = n" using assms(3) by metis
  with assms(3) show ?thesis by simp
qed

lemma upper_colon: "CHR '':'' \<notin> set m \<Longrightarrow> CHR '':'' \<notin> set (ToUpper m)"
  by (rule ToUpper_free) simp_all

definition plain_methods :: "EndpointMapping list \<Rightarrow> bool" where
  "plain_methods es \<longleftrightarrow> (\<forall>e \<in> set es. \<forall>m \<in> set (Methods e). CHR '':'' \<notin> set m)"

lemma declared_upper:
  assumes "(e, M) \<in> set (declarations es)" and "plain_methods es"
  shows "ToUpper M = M \<and> CHR '':'' \<notin> set M"
proof -
  obtain m where m: "M = ToUpper m" "m \<in> set (declared_methods e)" "e \<in> set es"
    using assms(1) by (auto simp: declarations_def)
  then have "CHR '':'' \<notin> set m" using assms(2) by (auto simp: declared_methods_def plain_methods_def split: if_splits)
  with m(1) show ?thesis by (simp add: ToUpper_idem upper_colon)
qed

lemma last_decl_rule:
  assumes "plain_methods es" and "last_decl es k = Some (e, M)"
  shows "make_rule e M \<in> set (buildEndpointRules es) \<and> k = M @ '':'' @ Path e \<and> ToUpper M = M \<and> CHR '':'' \<notin> set M"
  using assms decl_map_key [OF assms(2)] declared_upper [of e M es]
  by (auto simp: buildEndpointRules_set ran_def buildEndpointKey_def)

lemma rule_last_decl:
  assumes "plain_methods es" and "r \<in> set (buildEndpointRules es)"
  shows "\<exists>e M. r = make_rule e M \<and> last_decl es (M @ '':'' @ Path e) = Some (e, M) \<and> ToUpper M = M \<and> CHR '':'' \<notin> set M"
proof -
  obtain e M k where r: "r = make_rule e M" "last_decl es k = Some (e, M)"
    using assms(2) by (auto simp: buildEndpointRules_set ran_def)
  with last_decl_rule [OF assms(1) r(2)] show ?thesis by auto
qed

section \<open>Lemmas: the exact lookups and the scan\<close>

text \<open>A pattern that covers the path has a whole-segment variable among the path's segments.\<close>

definition var_within :: "string \<Rightarrow> endpointRule \<Rightarrow> bool" where
  "var_within p r \<longleftrightarrow> (\<exists>i < length (pathSpecificity p). i < length (pathScore r) \<and> pathScore r ! i \<noteq> segLiteral)"

lemma EqualFold_upper: "ToUpper a = a \<Longrightarrow> ToUpper b = b \<Longrightarrow> EqualFold a b \<longleftrightarrow> a = b"
  by (simp add: EqualFold_def)

lemma make_rule_path: "pathScore (make_rule e M) = pathSpecificity (Path e)"
  by (simp add: make_rule_def)

lemma pattern_below:
  assumes "\<not> isMuxPattern p" and "var_within p (make_rule e M)"
  shows "pathScore (make_rule e M) < pathSpecificity p"
proof -
  obtain i where i: "i < length (pathSpecificity p)" "i < length (pathScore (make_rule e M))"
    "pathScore (make_rule e M) ! i \<noteq> segLiteral" using assms(2) by (auto simp: var_within_def)
  have "\<forall>x \<in> set (pathScore (make_rule e M)). x \<le> segLiteral"
    by (auto simp: make_rule_path pathSpecificity_def segment_score_max)
  with i literal_scores [OF assms(1)] show ?thesis by (intro below_literals [of _ _ i]) auto
qed

text \<open>An exact declaration for the request, with its method or, failing that, with the wildcard, is the
  greatest among the rules that match.\<close>

lemma scan_finds_exact:
  assumes pm: "plain_methods es" and up: "ToUpper M = M" and nc: "CHR '':'' \<notin> set M"
    and lit: "\<not> isMuxPattern p" and ne: "p \<noteq> ''''"
    and vars: "\<forall>r \<in> set (buildEndpointRules es). route r \<noteq> None \<longrightarrow> rule_matches mux M p r \<longrightarrow> var_within p r"
    and ld: "last_decl es (D @ '':'' @ p) = Some (e, D)"
    and D: "D = M \<or> D = ''*'' \<and> last_decl es (M @ '':'' @ p) = None"
  shows "resolveEndpoint mux M p (buildEndpointRules es) = (Some e, Public e)"
proof -
  note ruld = last_decl_rule [OF pm ld]
  then have pe: "Path e = p" using key_split [of D D p "Path e"] by auto
  let ?r0 = "make_rule e D"
  have r0: "?r0 \<in> set (buildEndpointRules es)" using ruld by simp
  have m0: "rule_matches mux M p ?r0"
    using D pe lit ne
    by (auto simp: rule_matches_def matchesMethod_def matchesPath_def make_rule_def compilePattern_def EqualFold_def)
  obtain oe pub where res: "resolveEndpoint mux M p (buildEndpointRules es) = (oe, pub)" by (rule prod.exhaust)
  from resolveEndpoint_first [OF buildEndpointRules_sorted, of es mux M p] res m0 r0
  obtain e1 r1 where r1: "oe = Some e1" "r1 \<in> set (buildEndpointRules es)" "rule_matches mux M p r1"
    "endpoint r1 = e1" "isPublic r1 = pub" "rule_key ?r0 \<le> rule_key r1"
    by (auto split: option.splits)
  obtain e' N where n: "r1 = make_rule e' N" "last_decl es (N @ '':'' @ Path e') = Some (e', N)" "ToUpper N = N" "CHR '':'' \<notin> set N"
    using rule_last_decl [OF pm r1(2)] by auto
  have nm: "N = ''*'' \<or> N = M"
    using r1(3) n(1,3) up by (auto simp: rule_matches_def matchesMethod_def make_rule_def EqualFold_upper)
  have "route r1 = None"
  proof (rule ccontr)
    assume "route r1 \<noteq> None"
    then have "var_within p (make_rule e' N)" using vars r1(2,3) n(1) by auto
    from pattern_below [OF lit this] pe n(1) have "pathScore r1 < pathScore ?r0" by (simp add: make_rule_path)
    with r1(6) show False by (auto simp: rule_key_def less_eq_prod_def)
  qed
  with r1(3) n(1) have pp: "Path e' = p"
    by (auto simp: rule_matches_def matchesPath_def make_rule_def split: if_splits)
  have "N = D"
  proof (rule ccontr)
    assume nd: "N \<noteq> D"
    from D show False
    proof
      assume "D = M"
      with nd nm have "N = ''*''" "D \<noteq> ''*''" by auto
      with r1(6) n(1) pp pe show False by (auto simp: rule_key_def make_rule_def less_eq_prod_def)
    next
      assume "D = ''*'' \<and> last_decl es (M @ '':'' @ p) = None"
      with nd nm n(2) pp show False by auto
    qed
  qed
  with n pp ld have "e' = e" by simp
  with r1 res n show ?thesis by (simp add: make_rule_def)
qed

lemma resolve_scan:
  assumes "processUnifiedConfig c0 = (None, c)" and "plain_methods (Endpoints c0)"
    and "ToUpper M = M" and "CHR '':'' \<notin> set M" and "\<not> isMuxPattern p" and "p \<noteq> ''''"
    and "\<forall>r \<in> set (rules c). route r \<noteq> None \<longrightarrow> rule_matches mux M p r \<longrightarrow> var_within p r"
  shows "resolve mux c M p = resolveEndpoint mux M p (rules c)"
proof -
  let ?es = "Endpoints c0"
  note pc = process_config [OF assms(1)]
  have ex: "getExactEndpoint c k =
      (case last_decl ?es k of Some (e, _) \<Rightarrow> (Some e, Public e) | None \<Rightarrow> (None, False))" for k
    using pc by (auto simp: getExactEndpoint_def maps_agree_def split: option.splits prod.splits)
  have key: "last_decl ?es (N @ '':'' @ p) = Some (e, D) \<Longrightarrow> CHR '':'' \<notin> set N \<Longrightarrow> D = N" for N e D
    using last_decl_rule [OF assms(2), of "N @ '':'' @ p" e D] key_split [of N D p "Path e"] by auto
  note found = scan_finds_exact [OF assms(2-6), where mux = mux]
  show ?thesis
  proof (cases "last_decl ?es (M @ '':'' @ p)")
    case (Some d)
    obtain e D where d: "d = (e, D)" by (rule prod.exhaust)
    with Some key [of M e D] assms(4) have "D = M" by simp
    with found [of M e] Some d pc assms(7) show ?thesis by (simp add: resolve_def ex)
  next
    case None
    show ?thesis
    proof (cases "last_decl ?es (''*'' @ '':'' @ p)")
      case (Some d)
      obtain e D where d: "d = (e, D)" by (rule prod.exhaust)
      with Some key [of "''*''" e D] have "D = ''*''" by simp
      with found [of "''*''" e] Some None d pc assms(7) show ?thesis by (simp add: resolve_def ex)
    next
      case n: None
      with None show ?thesis by (simp add: resolve_def ex)
    qed
  qed
qed

lemma process_no_error:
  "\<forall>(e, M) \<in> set ds. Public e \<or> RequiredPermissions e \<noteq> [] \<Longrightarrow> fst (process_declarations ds c) = None"
proof (induction ds c rule: process_declarations.induct)
  case (2 e M ds c)
  have "fst (storeEndpointMapping e (buildEndpointKey e M) c) = None"
    using "2.prems" by (auto simp: storeEndpointMapping_def Let_def)
  with 2 show ?case by (cases "storeEndpointMapping e (buildEndpointKey e M) c") auto
qed simp

lemma validate_endpoints_ok:
  "validate_endpoints es = Inr () \<Longrightarrow> e \<in> set es \<Longrightarrow> Public e \<or> RequiredPermissions e \<noteq> []"
  by (induction es) (auto simp: bind_sum_eq_Inr split: if_splits)

lemma process_valid:
  assumes "validate c0 = Inr ()"
  shows "fst (processUnifiedConfig c0) = None"
proof -
  have "validate_endpoints (Endpoints c0) = Inr ()" using assms by (simp add: validate_def bind_sum_eq_Inr)
  then have ok: "\<forall>(e, M) \<in> set (declarations (Endpoints c0)). Public e \<or> RequiredPermissions e \<noteq> []"
    using validate_endpoints_ok by (fastforce simp: declarations_def)
  let ?c1 = "buildRolePermissionsMap (initializeMaps c0)"
  have "Endpoints ?c1 = Endpoints c0"
    by (simp add: buildRolePermissionsMap_def build_roles_rest initializeMaps_def)
  with process_no_error [OF ok, of ?c1] show ?thesis
    by (auto simp: processUnifiedConfig_def buildEndpointPermissionMap_def split: prod.splits option.splits)
qed

section \<open>Properties\<close>

text \<open>
  C25. A role's effective permissions are exactly those it inherits. For any role definitions, also with
  cycles, undefined parents and repeated names, the traversal ends and collects the permissions of
  precisely the roles that can be reached over \<^verbatim>\<open>inheritsFrom\<close>, the role itself included; the first
  definition of a name is the one that counts.
\<close>

theorem effective_permissions_are_inherited:
  "set (getEffectivePermissions rs r) =
     {p. \<exists>n d. (inherits rs)\<^sup>*\<^sup>* r n \<and> find_role rs n = Some d \<and> p \<in> set (Permissions d)}"
  by (auto simp: getEffectivePermissions_set effective_def own_permissions_def split: option.splits)

text \<open>
  The most specific rule governs, and a tie is resolved towards enforcement. If the scan over the
  rules of a configuration finds an endpoint, some declared rule for it covers the request, no other
  rule that covers the request has a more specific path, nor an equally specific path with a more
  specific method; and if the endpoint is served as public, every rule that ties with it on both is
  public. If it finds none, no rule covers the request.
\<close>

lemma most_specific_rule_governs:
  "case resolveEndpoint mux M p (buildEndpointRules es) of
     (Some e, pub) \<Rightarrow> \<exists>r \<in> set (buildEndpointRules es). rule_matches mux M p r \<and> endpoint r = e \<and> isPublic r = pub \<and>
       (\<forall>r' \<in> set (buildEndpointRules es). rule_matches mux M p r' \<longrightarrow>
          compareSpecificity (pathScore r') (pathScore r) \<le> 0 \<and>
          (pathScore r' = pathScore r \<longrightarrow> methodScore r' \<le> methodScore r) \<and>
          (pathScore r' = pathScore r \<and> methodScore r' = methodScore r \<and> pub \<longrightarrow> isPublic r'))
   | (None, pub) \<Rightarrow> \<not> pub \<and> (\<forall>r' \<in> set (buildEndpointRules es). \<not> rule_matches mux M p r')"
proof -
  have "compareSpecificity (pathScore r') (pathScore r) \<le> 0 \<and>
      (pathScore r' = pathScore r \<longrightarrow> methodScore r' \<le> methodScore r) \<and>
      (pathScore r' = pathScore r \<and> methodScore r' = methodScore r \<and> isPublic r \<longrightarrow> isPublic r')"
    if "rule_key r' \<le> rule_key r" for r r'
    using that compareSpecificity_order [of "pathScore r'" "pathScore r"]
    by (auto simp: rule_key_def less_eq_prod_def not_less)
  with resolveEndpoint_first [OF buildEndpointRules_sorted, of es mux M p] show ?thesis
    by (fastforce split: prod.splits option.splits)
qed

text \<open>A configuration and a concrete matcher for the witnesses: a pattern covers the paths that agree with
  it segment by segment, a variable standing for digits if it has a constraint, otherwise for anything.\<close>

definition demo_match :: mux_match where
  "demo_match pat M p = list_all2
     (\<lambda>t s. if HasPrefix t ''{'' then Contains t '':'' \<longrightarrow> list_all is_digit s else t = s)
     (Split pat (CHR ''/'')) (Split p (CHR ''/''))"

abbreviation demo_endpoint :: "string \<Rightarrow> string list \<Rightarrow> bool \<Rightarrow> EndpointMapping" where
  "demo_endpoint p perms pub \<equiv> \<lparr>Path = p, Methods = [''get''], RequiredPermissions = perms, Public = pub\<rparr>"

definition demo_rbac :: "EndpointMapping list \<Rightarrow> Config" where
  "demo_rbac es = \<lparr>Roles = [], Endpoints = es, RoleHeader = ''X-Role'', JWTClaimPath = '''', PermissionsClaimPath = '''',
     rolePermissionsMap = (\<lambda>_. None), rolePermissionSet = (\<lambda>_. None), endpointPermissionMap = (\<lambda>_. None),
     publicEndpointsMap = (\<lambda>_. None), endpointMap = (\<lambda>_. None), rules = []\<rparr>"

definition demo_endpoints :: "EndpointMapping list" where
  "demo_endpoints = [demo_endpoint ''/users/{id}'' [''users:read''] False, demo_endpoint ''/users/me'' [] True]"

lemma most_specific_rule_governs_witness:
  "\<exists>r \<in> set (buildEndpointRules demo_endpoints).
     rule_matches demo_match ''GET'' ''/users/me'' r \<and> endpoint r = demo_endpoint ''/users/me'' [] True \<and>
     compareSpecificity (pathSpecificity ''/users/{id}'') (pathScore r) \<le> 0"
proof -
  let ?r1 = "make_rule (demo_endpoint ''/users/{id}'' [''users:read''] False) ''GET''"
  have "resolveEndpoint demo_match ''GET'' ''/users/me'' (buildEndpointRules demo_endpoints) =
      (Some (demo_endpoint ''/users/me'' [] True), True)"
    and m: "rule_matches demo_match ''GET'' ''/users/me'' ?r1" and i: "?r1 \<in> set (buildEndpointRules demo_endpoints)"
    and s: "pathScore ?r1 = pathSpecificity ''/users/{id}''"
    by code_simp+
  with most_specific_rule_governs [where mux = demo_match and M = "''GET''" and p = "''/users/me''" and es = demo_endpoints] obtain r where
    "r \<in> set (buildEndpointRules demo_endpoints)" "rule_matches demo_match ''GET'' ''/users/me'' r"
    "endpoint r = demo_endpoint ''/users/me'' [] True"
    "\<forall>r' \<in> set (buildEndpointRules demo_endpoints). rule_matches demo_match ''GET'' ''/users/me'' r' \<longrightarrow>
       compareSpecificity (pathScore r') (pathScore r) \<le> 0" by auto
  with m i s show ?thesis by metis
qed

text \<open>
  C27. The exact lookups agree with the ordered scan, on configurations of the intended shape. For a request
  path that is not itself written like a pattern, suppose every pattern that covers it has a variable
  that is a whole segment, among the segments of the path; without that condition the two can disagree, as
  \<open>mixed_segments_disagree\<close> shows. Then the constant-time lookups by
  \<^verbatim>\<open>METHOD:path\<close> and \<^verbatim>\<open>*:path\<close> return the endpoint and the public flag of the scan, duplicate declarations,
  wildcard methods and unmatched requests included.
\<close>

theorem resolve_agrees_with_scan:
  assumes "load_config c0 = Inr c" and "plain_methods (Endpoints c0)"
    and "CHR '':'' \<notin> set meth" and "\<not> isMuxPattern p" and "p \<noteq> ''''"
    and "\<forall>r \<in> set (rules c). route r \<noteq> None \<longrightarrow> rule_matches mux (ToUpper meth) p r \<longrightarrow> var_within p r"
  shows "resolve mux c (ToUpper meth) p = resolveEndpoint mux (ToUpper meth) p (rules c)"
proof -
  have "processUnifiedConfig c0 = (None, c)"
    using assms(1) by (auto simp: load_config_def bind_sum_eq_Inr split: prod.splits option.splits)
  from resolve_scan [OF this assms(2) ToUpper_idem upper_colon [OF assms(3)] assms(4-6)] show ?thesis .
qed

theorem resolve_agrees_with_scan_witness:
  "case load_config (demo_rbac demo_endpoints) of Inl _ \<Rightarrow> False
   | Inr c \<Rightarrow> resolve demo_match c ''GET'' ''/users/me'' = resolveEndpoint demo_match ''GET'' ''/users/me'' (rules c)"
proof -
  have "\<not> isl (load_config (demo_rbac demo_endpoints))" by code_simp
  then obtain c where c: "load_config (demo_rbac demo_endpoints) = Inr c"
    by (cases "load_config (demo_rbac demo_endpoints)") auto
  have rc: "rules (projr (load_config (demo_rbac demo_endpoints))) = buildEndpointRules demo_endpoints" by code_simp
  let ?me = "make_rule (demo_endpoint ''/users/me'' [] True) ''GET''"
    and ?id = "make_rule (demo_endpoint ''/users/{id}'' [''users:read''] False) ''GET''"
  have rs: "buildEndpointRules demo_endpoints = [?me, ?id]" and "route ?me = None" by code_simp+
  have "pathSpecificity ''/users/me'' = [4, 4]" and "pathScore ?id = [4, 2]" by code_simp+
  then have "var_within ''/users/me'' ?id"
    unfolding var_within_def by (intro exI [of _ 1]) (simp add: segLiteral_def)
  with \<open>route ?me = None\<close> have "\<forall>r \<in> set (buildEndpointRules demo_endpoints). route r \<noteq> None \<longrightarrow>
      rule_matches demo_match (ToUpper ''get'') ''/users/me'' r \<longrightarrow> var_within ''/users/me'' r"
    unfolding rs by auto
  moreover have "plain_methods (Endpoints (demo_rbac demo_endpoints))" and "\<not> isMuxPattern ''/users/me''"
    and "ToUpper ''get'' = ''GET''"
    by code_simp+
  moreover have "rules c = buildEndpointRules demo_endpoints" using rc unfolding c sum.sel(2) .
  ultimately have "resolve demo_match c (ToUpper ''get'') ''/users/me'' =
      resolveEndpoint demo_match (ToUpper ''get'') ''/users/me'' (rules c)"
    by (intro resolve_agrees_with_scan [OF c]) simp_all
  then show ?thesis unfolding c sum.case \<open>ToUpper ''get'' = ''GET''\<close> .
qed

text \<open>
  Outside that shape the two disagree, and the disagreement can open a protected endpoint. With a
  public rule for numeric identifiers and a protected rule for all others, a request whose path is the
  text of the public pattern is not covered by that pattern, and the scan finds the protected rule;
  the exact lookup takes the pattern's text for a literal path and reports the endpoint as public.
\<close>

lemma exact_lookup_bypasses_protection:
  "let es = [demo_endpoint ''/users/{id:[0-9]+}'' [] True, demo_endpoint ''/users/{name}'' [''users:read''] False];
       c = projr (load_config (demo_rbac es))
   in resolveEndpoint demo_match ''GET'' ''/users/{id:[0-9]+}'' (rules c) =
        (Some (demo_endpoint ''/users/{name}'' [''users:read''] False), False) \<and>
      resolve demo_match c ''GET'' ''/users/{id:[0-9]+}'' = (Some (demo_endpoint ''/users/{id:[0-9]+}'' [] True), True)"
  by code_simp

text \<open>
  So does a pattern whose only variable is a part of a segment: it scores like a literal path. With \<^verbatim>\<open>/users/me\<close> public and
  \<^verbatim>\<open>/users/m{x}\<close> protected, the scan finds the protected rule for \<^verbatim>\<open>/users/me\<close> and the exact lookup the public one.
\<close>

definition mixed_match :: mux_match where
  "mixed_match pat M p \<longleftrightarrow> pat = ''/users/m{x}'' \<and> HasPrefix p ''/users/m'' \<and> length p > 8 \<and> CHR ''/'' \<notin> set (drop 8 p)"

lemma mixed_segments_disagree:
  "let es = [demo_endpoint ''/users/me'' [] True, demo_endpoint ''/users/m{x}'' [''users:read''] False];
       c = projr (load_config (demo_rbac es))
   in resolveEndpoint mixed_match ''GET'' ''/users/me'' (rules c) = (Some (demo_endpoint ''/users/m{x}'' [''users:read''] False), False) \<and>
      resolve mixed_match c ''GET'' ''/users/me'' = (Some (demo_endpoint ''/users/me'' [] True), True)"
  by code_simp

text \<open>
  Loading fails only in validation, and the lookup maps then hold the last declaration of every key. A
  configuration that validates always loads; in the loaded configuration the maps of endpoints, public
  flags and permissions agree for every key, so a later protected declaration leaves nothing of an
  earlier public one behind, and the role sets hold the effective permissions of every defined role.
\<close>

lemma load_config_consistent:
  assumes "validate c0 = Inr ()"
  shows "\<exists>c. load_config c0 = Inr c \<and>
    (\<forall>k. case endpointMap c k of
       None \<Rightarrow> publicEndpointsMap c k = None \<and> endpointPermissionMap c k = None
     | Some e \<Rightarrow> e \<in> set (Endpoints c0) \<and> publicEndpointsMap c k = (if Public e then Some True else None) \<and>
         endpointPermissionMap c k = (if Public e then None else Some (RequiredPermissions e))) \<and>
    (\<forall>r. rolePermissionSet c r = (if r \<in> Name ` set (Roles c0) then Some (effective (Roles c0) r) else None))"
proof -
  obtain c where p: "processUnifiedConfig c0 = (None, c)"
    using process_valid [OF assms] by (metis prod.collapse)
  note pc = process_config [OF p]
  have mem: "e \<in> set (Endpoints c0)" if "last_decl (Endpoints c0) k = Some (e, M)" for k e M
    using decl_map_key [OF that] by (auto simp: declarations_def)
  have "case endpointMap c k of
       None \<Rightarrow> publicEndpointsMap c k = None \<and> endpointPermissionMap c k = None
     | Some e \<Rightarrow> e \<in> set (Endpoints c0) \<and> publicEndpointsMap c k = (if Public e then Some True else None) \<and>
         endpointPermissionMap c k = (if Public e then None else Some (RequiredPermissions e))" for k
    using pc mem [of k] by (cases "last_decl (Endpoints c0) k") (auto simp: maps_agree_def)
  moreover have "load_config c0 = Inr c" using assms p by (simp add: load_config_def)
  ultimately show ?thesis using pc by auto
qed

lemma load_config_consistent_witness:
  "\<exists>c. load_config (demo_rbac [demo_endpoint ''/a'' [] True, demo_endpoint ''/a'' [''p''] False]) = Inr c \<and>
     publicEndpointsMap c ''GET:/a'' = None"
proof -
  let ?c0 = "demo_rbac [demo_endpoint ''/a'' [] True, demo_endpoint ''/a'' [''p''] False]"
  have v: "validate ?c0 = Inr ()" by code_simp
  have e: "endpointMap (projr (load_config ?c0)) ''GET:/a'' = Some (demo_endpoint ''/a'' [''p''] False)" by code_simp
  from load_config_consistent [OF v] obtain c where c: "load_config ?c0 = Inr c" and
    all: "\<forall>k. case endpointMap c k of
       None \<Rightarrow> publicEndpointsMap c k = None \<and> endpointPermissionMap c k = None
     | Some e \<Rightarrow> e \<in> set (Endpoints ?c0) \<and> publicEndpointsMap c k = (if Public e then Some True else None) \<and>
         endpointPermissionMap c k = (if Public e then None else Some (RequiredPermissions e))" by blast
  have "endpointMap c ''GET:/a'' = Some (demo_endpoint ''/a'' [''p''] False)" using e unfolding c sum.sel(2) .
  with all [THEN spec, of "''GET:/a''"] have "publicEndpointsMap c ''GET:/a'' = None" by simp
  with c show ?thesis by blast
qed

end
