(* ===== verification/Rbac_Middleware.thy ===== *)
theory Rbac_Middleware
  imports Rbac_Config
begin

text \<open>
  The authorization decision, \<^verbatim>\<open>pkg/gofr/rbac/claims.go\<close> and \<^verbatim>\<open>middleware.go\<close>: what a request holds (a role
  header, a role claim or a permissions claim), reading a claim by its path, what grants access, and
  the middleware with its answers, audit entries, metrics and one-shot warnings. The claims of a
  verified token are JSON values; traces are not modelled.
\<close>

section \<open>Claims\<close>

text \<open>A number is carried as the text \<^verbatim>\<open>fmt.Sprint\<close> gives it; an object is its list of members.\<close>

datatype jval =
    JString string
  | JNum string
  | JBool bool
  | JNull
  | JArray "jval list"
  | JObject "(string \<times> jval) list"

definition sprint_bool :: "bool \<Rightarrow> string" where
  "sprint_bool b = (if b then ''true'' else ''false'')"

record held =
  hlist :: "jval list option"
  hstr :: string
  permissionsMode :: bool

datatype claim_err =
    ErrRoleNotFound
  | ErrUnreadableClaim
  | ErrEmptyClaimPath
  | ErrClaimPathNotFound
  | ErrBadArrayPath rbac_error
  | ErrClaimKeyNotFound
  | ErrClaimValueNotArray
  | ErrArrayIndexOutOfBounds
  | ErrInvalidClaimStructure

definition heldFromClaim :: "jval \<Rightarrow> bool \<Rightarrow> claim_err + held" where
  "heldFromClaim v pm =
     (case v of
        JString s \<Rightarrow> if s = '''' \<and> \<not> pm then Inl ErrRoleNotFound
                     else Inr \<lparr>hlist = None, hstr = s, permissionsMode = pm\<rparr>
      | JArray vs \<Rightarrow> Inr \<lparr>hlist = Some vs, hstr = '''', permissionsMode = pm\<rparr>
      | JNull \<Rightarrow> Inr \<lparr>hlist = None, hstr = '''', permissionsMode = pm\<rparr>
      | JObject _ \<Rightarrow> Inl ErrUnreadableClaim
      | JNum t \<Rightarrow> if pm then Inl ErrUnreadableClaim else Inr \<lparr>hlist = None, hstr = t, permissionsMode = False\<rparr>
      | JBool b \<Rightarrow> if pm then Inl ErrUnreadableClaim
                   else Inr \<lparr>hlist = None, hstr = sprint_bool b, permissionsMode = False\<rparr>)"

definition multi :: "held \<Rightarrow> bool" where
  "multi h \<longleftrightarrow> permissionsMode h \<or> hlist h \<noteq> None"

definition entryName :: "jval \<Rightarrow> bool \<Rightarrow> string" where
  "entryName entry pm =
     (case entry of
        JString s \<Rightarrow> s
      | JNum t \<Rightarrow> if \<not> pm then t else ''''
      | JBool b \<Rightarrow> if \<not> pm then sprint_bool b else ''''
      | _ \<Rightarrow> '''')"

definition roleGrants :: "string set option \<Rightarrow> string list \<Rightarrow> bool" where
  "roleGrants perms required = list_ex (\<lambda>p. case perms of None \<Rightarrow> False | Some S \<Rightarrow> p \<in> S) required"

type_synonym role_sets = "string \<Rightarrow> string set option"

text \<open>The result of a check is the role or permission that grants access, if one does.\<close>

definition grantFromString :: "held \<Rightarrow> string list \<Rightarrow> role_sets \<Rightarrow> string option" where
  "grantFromString h required roles =
     (if \<not> permissionsMode h then
        if hstr h \<noteq> '''' \<and> roleGrants (roles (hstr h)) required then Some (hstr h) else None
      else find (\<lambda>p. p \<in> set required) (Fields (hstr h)))"

fun grant_list :: "bool \<Rightarrow> string list \<Rightarrow> role_sets \<Rightarrow> jval list \<Rightarrow> string option" where
  "grant_list pm required roles [] = None"
| "grant_list pm required roles (entry # es) =
     (let name = entryName entry pm in
      if name = '''' then grant_list pm required roles es
      else if pm then
        if name \<in> set required then Some name else grant_list pm required roles es
      else if roleGrants (roles name) required then Some name
      else grant_list pm required roles es)"

definition grantFromList :: "held \<Rightarrow> string list \<Rightarrow> role_sets \<Rightarrow> string option" where
  "grantFromList h required roles =
     (case hlist h of None \<Rightarrow> None | Some vs \<Rightarrow> grant_list (permissionsMode h) required roles vs)"

definition grant :: "held \<Rightarrow> string list \<Rightarrow> role_sets \<Rightarrow> string option" where
  "grant h required roles =
     (if hlist h = None then grantFromString h required roles else grantFromList h required roles)"

definition held_count :: "held \<Rightarrow> nat" where
  "held_count h =
     (case hlist h of
        None \<Rightarrow>
          if \<not> permissionsMode h then (if hstr h = '''' then 0 else 1) else length (Fields (hstr h))
      | Some vs \<Rightarrow> length (filter (\<lambda>e. entryName e (permissionsMode h) \<noteq> '''') vs))"

section \<open>Reading a claim\<close>

type_synonym claims = "(string \<times> jval) list"

definition extractArrayClaim :: "claims \<Rightarrow> string \<Rightarrow> nat \<Rightarrow> claim_err + jval" where
  "extractArrayClaim cl p i =
     (case parseArrayPath p i of
        Inl e \<Rightarrow> Inl (ErrBadArrayPath e)
      | Inr (key, index) \<Rightarrow>
          (case map_of cl key of
             None \<Rightarrow> Inl ErrClaimKeyNotFound
           | Some (JArray arr) \<Rightarrow>
               if index < 0 \<or> index \<ge> int (length arr) then Inl ErrArrayIndexOutOfBounds
               else Inr (arr ! nat index)
           | Some _ \<Rightarrow> Inl ErrClaimValueNotArray))"

fun nested_loop :: "jval \<Rightarrow> string list \<Rightarrow> claim_err + jval" where
  "nested_loop cur [] = Inl ErrClaimPathNotFound"
| "nested_loop cur (part # parts) =
     (case cur of
        JObject m \<Rightarrow>
          (case map_of m part of
             None \<Rightarrow> Inl ErrClaimPathNotFound
           | Some v \<Rightarrow>
               if parts = [] then Inr v
               else if v = JNull then Inl ErrClaimPathNotFound
               else nested_loop v parts)
      | _ \<Rightarrow> if parts = [] then Inl ErrInvalidClaimStructure else Inl ErrClaimPathNotFound)"

definition extractNestedClaim :: "claims \<Rightarrow> string \<Rightarrow> claim_err + jval" where
  "extractNestedClaim cl p = nested_loop (JObject cl) (Split p (CHR ''.''))"

definition walkClaimPath :: "claims \<Rightarrow> string \<Rightarrow> claim_err + jval" where
  "walkClaimPath cl p =
     (case IndexByte p (CHR ''['') of
        Some i \<Rightarrow> extractArrayClaim cl p i
      | None \<Rightarrow>
          if Contains p ''.'' then extractNestedClaim cl p
          else (case map_of cl p of None \<Rightarrow> Inl ErrClaimPathNotFound | Some v \<Rightarrow> Inr v))"

definition extractClaimValue :: "claims \<Rightarrow> string \<Rightarrow> claim_err + jval" where
  "extractClaimValue cl p =
     (if p = '''' then Inl ErrEmptyClaimPath
      else (case walkClaimPath cl p of
              Inr v \<Rightarrow> Inr v
            | Inl e \<Rightarrow> (case map_of cl p of Some v \<Rightarrow> Inr v | None \<Rightarrow> Inl e)))"

section \<open>Extraction\<close>

record rbac_request =
  qMethod :: string
  qPath :: string
  qHeader :: "string \<Rightarrow> string"
  qClaims :: "claims option"

datatype sentinel = SRoleNotFound | SAccessDenied

datatype reason = reasonNoJWTClaims | reasonUnreadableClaim | reasonMissingRole

type_synonym extractionFailure = "sentinel \<times> reason"

definition extractHeldFromJWT :: "rbac_request \<Rightarrow> Config \<Rightarrow> extractionFailure + held" where
  "extractHeldFromJWT r c =
     (case config_mode c of
        (md, claimPath) \<Rightarrow>
          let pm = (md = modePermissions) in
          (case qClaims r of
             None \<Rightarrow> Inl (SRoleNotFound, reasonNoJWTClaims)
           | Some cl \<Rightarrow>
               (case extractClaimValue cl claimPath of
                  Inl _ \<Rightarrow> if pm then Inr \<lparr>hlist = None, hstr = '''', permissionsMode = True\<rparr>
                           else Inl (SRoleNotFound, reasonMissingRole)
                | Inr v \<Rightarrow>
                    (case heldFromClaim v pm of
                       Inr h \<Rightarrow> Inr h
                     | Inl ErrUnreadableClaim \<Rightarrow> Inl (SAccessDenied, reasonUnreadableClaim)
                     | Inl _ \<Rightarrow> Inl (SRoleNotFound, reasonMissingRole)))))"

definition extractHeld :: "rbac_request \<Rightarrow> Config \<Rightarrow> extractionFailure + held" where
  "extractHeld r c =
     (case fst (config_mode c) of
        modePermissions \<Rightarrow> extractHeldFromJWT r c
      | modeRoles \<Rightarrow> extractHeldFromJWT r c
      | modeHeader \<Rightarrow>
          (let role = qHeader r (RoleHeader c) in
           if role \<noteq> '''' then Inr \<lparr>hlist = None, hstr = role, permissionsMode = False\<rparr>
           else Inl (SRoleNotFound, reasonMissingRole))
      | modeNone \<Rightarrow> Inl (SRoleNotFound, reasonMissingRole))"

section \<open>The middleware\<close>

datatype mw_event =
    ExtractionFailed reason
  | WarnUnreadable string
  | WarnCallOrder
  | Audit bool string string string nat

text \<open>\<open>Audit allowed route role permission heldCount\<close>. The record \<open>deps\<close> says which of the optional
  dependencies of the configuration are set.\<close>

record deps =
  withMetrics :: bool
  withLogger :: bool
  withErrorHandler :: bool

record mw_state =
  callOrderWarned :: bool
  unreadableWarned :: bool
  mw_log :: "mw_event list"

definition mw_note :: "mw_event list \<Rightarrow> mw_state \<Rightarrow> mw_state" where
  "mw_note es st = st\<lparr>mw_log := mw_log st @ es\<rparr>"

text \<open>The handler runs, with the granting role or permission in its context if one was checked; or the
  request is answered with a status; or the custom error handler is called.\<close>

datatype mw_answer =
    RunHandler "string option"
  | HttpError nat
  | CustomHandler string string sentinel

definition isWellKnown :: "string \<Rightarrow> bool" where
  "isWellKnown p \<longleftrightarrow> p = ''/.well-known'' \<or> HasPrefix p ''/.well-known/''"

definition reportExtractionFailure :: "deps \<Rightarrow> Config \<Rightarrow> rbac_request \<Rightarrow> reason \<Rightarrow> mw_state \<Rightarrow> mw_state" where
  "reportExtractionFailure d c r rs st =
     (let st1 = (if withMetrics d then mw_note [ExtractionFailed rs] st else st) in
      if \<not> withLogger d then st1
      else if rs = reasonUnreadableClaim then
        if unreadableWarned st1 then st1
        else mw_note [WarnUnreadable (snd (config_mode c))] (st1\<lparr>unreadableWarned := True\<rparr>)
      else if rs = reasonNoJWTClaims \<and> \<not> isWellKnown (qPath r) then
        if callOrderWarned st1 then st1 else mw_note [WarnCallOrder] (st1\<lparr>callOrderWarned := True\<rparr>)
      else st1)"

record denial =
  d_role :: string
  d_route :: string
  d_heldCount :: nat
  d_err :: sentinel

definition handleAuthError :: "deps \<Rightarrow> denial \<Rightarrow> mw_state \<Rightarrow> mw_answer \<times> mw_state" where
  "handleAuthError d dn st =
     (let st1 = (if withLogger d then mw_note [Audit False (d_route dn) (d_role dn) '''' (d_heldCount dn)] st else st) in
      if withErrorHandler d then (CustomHandler (d_role dn) (d_route dn) (d_err dn), st1)
      else if d_err dn = SRoleNotFound then (HttpError 401, st1)
      else (HttpError 403, st1))"

definition checkEndpointAuthorization :: "held \<Rightarrow> EndpointMapping \<Rightarrow> Config \<Rightarrow> bool \<times> string" where
  "checkEndpointAuthorization h e c =
     (if Public e then (True, '''')
      else if length (RequiredPermissions e) = 0 then (False, '''')
      else (case grant h (RequiredPermissions e) (rolePermissionSet c) of
              Some g \<Rightarrow> (True, g) | None \<Rightarrow> (False, '''')))"

definition unknownRouteLabel :: string where
  "unknownRouteLabel = ''<unmatched>''"

definition Middleware :: "mux_match \<Rightarrow> deps \<Rightarrow> Config option \<Rightarrow> rbac_request \<Rightarrow> mw_state \<Rightarrow> mw_answer \<times> mw_state" where
  "Middleware mux d config r st =
     (case config of
        None \<Rightarrow> (RunHandler None, st)
      | Some c \<Rightarrow>
          (case getEndpointForRequest mux c (qMethod r) (qPath r) of
             (ep, isPub) \<Rightarrow>
               let routeLabel = (case ep of Some e \<Rightarrow> if Path e \<noteq> '''' then Path e else unknownRouteLabel
                                 | None \<Rightarrow> unknownRouteLabel) in
               if isPub then (RunHandler None, st)
               else (case ep of
                       None \<Rightarrow> (RunHandler None, st)
                     | Some e \<Rightarrow>
                         (case extractHeld r c of
                            Inl (sent, rs) \<Rightarrow>
                              handleAuthError d \<lparr>d_role = '''', d_route = routeLabel, d_heldCount = 0, d_err = sent\<rparr>
                                (reportExtractionFailure d c r rs st)
                          | Inr h \<Rightarrow>
                              (case checkEndpointAuthorization h e c of
                                 (False, _) \<Rightarrow>
                                   handleAuthError d
                                     (if multi h
                                      then \<lparr>d_role = '''', d_route = routeLabel, d_heldCount = held_count h, d_err = SAccessDenied\<rparr>
                                      else \<lparr>d_role = hstr h, d_route = routeLabel, d_heldCount = 0, d_err = SAccessDenied\<rparr>) st
                               | (True, granted) \<Rightarrow>
                                   (RunHandler (Some granted),
                                    if withLogger d
                                    then mw_note [if permissionsMode h then Audit True routeLabel '''' granted 0
                                                  else Audit True routeLabel granted '''' 0] st
                                    else st))))))"

section \<open>Lemmas: what grants access\<close>

text \<open>The role names or permissions a request holds.\<close>

definition names_held :: "held \<Rightarrow> string set" where
  "names_held h =
     (case hlist h of
        None \<Rightarrow> if permissionsMode h then set (Fields (hstr h)) else {hstr h} - {''''}
      | Some vs \<Rightarrow> (\<lambda>e. entryName e (permissionsMode h)) ` set vs - {''''})"

definition entitles :: "bool \<Rightarrow> role_sets \<Rightarrow> string list \<Rightarrow> string \<Rightarrow> bool" where
  "entitles pm roles required n \<longleftrightarrow>
     (if pm then n \<in> set required else \<exists>S. roles n = Some S \<and> S \<inter> set required \<noteq> {})"

lemma roleGrants_iff: "roleGrants perms required \<longleftrightarrow> (\<exists>S. perms = Some S \<and> S \<inter> set required \<noteq> {})"
  by (auto simp: roleGrants_def list_ex_iff split: option.splits)

lemma grant_list_Some:
  "grant_list pm required roles vs = Some g \<Longrightarrow>
   g \<in> (\<lambda>e. entryName e pm) ` set vs - {''''} \<and> entitles pm roles required g"
  by (induction vs) (auto simp: entitles_def roleGrants_iff Let_def split: if_splits)

lemma grant_list_None:
  "grant_list pm required roles vs = None \<Longrightarrow> n \<in> (\<lambda>e. entryName e pm) ` set vs - {''''} \<Longrightarrow> \<not> entitles pm roles required n"
  by (induction vs) (auto simp: entitles_def roleGrants_iff Let_def split: if_splits)

lemma grant_iff:
  "case grant h required roles of
     Some g \<Rightarrow> g \<in> names_held h \<and> entitles (permissionsMode h) roles required g
   | None \<Rightarrow> \<forall>n \<in> names_held h. \<not> entitles (permissionsMode h) roles required n"
proof (cases "hlist h")
  case None
  then show ?thesis
    by (auto simp: grant_def grantFromString_def names_held_def entitles_def roleGrants_iff
        find_Some_iff find_None_iff split: option.splits)
next
  case (Some vs)
  then show ?thesis
    using grant_list_Some [of "permissionsMode h" required roles vs] grant_list_None [of "permissionsMode h" required roles vs]
    by (auto simp: grant_def grantFromList_def names_held_def split: option.splits)
qed

lemma handleAuthError_rejects: "fst (handleAuthError d dn st) \<noteq> RunHandler g"
  by (simp add: handleAuthError_def Let_def)

lemma handleAuthError_status:
  "\<not> withErrorHandler d \<Longrightarrow> fst (handleAuthError d dn st) = HttpError (if d_err dn = SRoleNotFound then 401 else 403)"
  by (simp add: handleAuthError_def Let_def)

lemma scan_public:
  "\<forall>r \<in> set rs. isPublic r = Public (endpoint r) \<Longrightarrow> resolveEndpoint mux M p rs = (Some e, pub) \<Longrightarrow> pub = Public e"
  by (induction rs) (auto split: if_splits)

lemma load_processed: "load_config c0 = Inr c \<Longrightarrow> processUnifiedConfig c0 = (None, c)"
  by (auto simp: load_config_def bind_sum_eq_Inr split: prod.splits option.splits)

lemma public_flag:
  assumes "load_config c0 = Inr c" and "getEndpointForRequest mux c meth p = (Some e, pub)"
  shows "pub = Public e"
proof -
  note pc = process_config [OF load_processed [OF assms(1)]]
  have exact: "getExactEndpoint c k = (Some e, pub) \<Longrightarrow> pub = Public e" for k
    using pc by (auto simp: getExactEndpoint_def maps_agree_def split: option.splits if_splits)
  have "\<forall>r \<in> set (rules c). isPublic r = Public (endpoint r)"
    using pc by (auto simp: buildEndpointRules_set make_rule_def)
  from scan_public [OF this] exact assms(2) show ?thesis
    by (auto simp: getEndpointForRequest_def resolve_def split: if_splits prod.splits option.splits)
qed

lemma effective_undefined: "find_role rs n = None \<Longrightarrow> effective rs n = {}"
proof -
  assume none: "find_role rs n = None"
  have "m = n" if "(inherits rs)\<^sup>*\<^sup>* n m" for m
    using that none by (induction rule: rtranclp_induct) (auto simp: inherits_def)
  with none show ?thesis by (fastforce simp: effective_def own_permissions_def)
qed

lemma find_role_defined: "find_role rs n = None \<longleftrightarrow> n \<notin> Name ` set rs"
  by (induction rs) auto

lemma entitles_loaded:
  assumes "load_config c0 = Inr c"
  shows "entitles False (rolePermissionSet c) required n \<longleftrightarrow> effective (Roles c0) n \<inter> set required \<noteq> {}"
  using process_config [OF load_processed [OF assms]] effective_undefined [of "Roles c0" n] find_role_defined [of "Roles c0" n]
  by (auto simp: entitles_def)

text \<open>What a request must hold for an endpoint: in permissions mode one of the required permissions itself,
  otherwise a role that has one, possibly by inheritance.\<close>

definition sufficient :: "RoleDefinition list \<Rightarrow> EndpointMapping \<Rightarrow> held \<Rightarrow> bool" where
  "sufficient rs e h \<longleftrightarrow>
     (\<exists>n \<in> names_held h. \<exists>p \<in> set (RequiredPermissions e).
        if permissionsMode h then n = p else (\<exists>m. (inherits rs)\<^sup>*\<^sup>* n m \<and> p \<in> own_permissions rs m))"

lemma sufficient_iff:
  assumes "load_config c0 = Inr c"
  shows "sufficient (Roles c0) e h \<longleftrightarrow>
    (\<exists>n \<in> names_held h. entitles (permissionsMode h) (rolePermissionSet c) (RequiredPermissions e) n)"
proof (cases "permissionsMode h")
  case True
  then show ?thesis by (auto simp: sufficient_def entitles_def)
next
  case False
  then show ?thesis
    using entitles_loaded [OF assms, of "RequiredPermissions e"]
    by (fastforce simp: sufficient_def effective_def)
qed

lemma checkEndpointAuthorization_iff:
  assumes "load_config c0 = Inr c" and "\<not> Public e"
  shows "fst (checkEndpointAuthorization h e c) \<longleftrightarrow> sufficient (Roles c0) e h"
  using grant_iff [of h "rolePermissionSet c" "RequiredPermissions e"] sufficient_iff [OF assms(1), of e h] assms(2)
  by (auto simp: checkEndpointAuthorization_def sufficient_def split: option.splits)

text \<open>The handler of a protected endpoint runs only for a request that holds enough.\<close>

lemma Middleware_runs:
  assumes "load_config c0 = Inr c" and "getEndpointForRequest mux c (qMethod r) (qPath r) = (Some e, False)"
    and "fst (Middleware mux d (Some c) r st) = RunHandler g"
  shows "\<exists>h. extractHeld r c = Inr h \<and> sufficient (Roles c0) e h"
proof (cases "extractHeld r c")
  case (Inl f)
  with assms(2,3) handleAuthError_rejects show ?thesis by (cases f) (simp add: Middleware_def Let_def)
next
  case (Inr h)
  have "\<not> Public e" using public_flag [OF assms(1,2)] by simp
  note ok = checkEndpointAuthorization_iff [OF assms(1) this, of h]
  obtain a g' where a: "checkEndpointAuthorization h e c = (a, g')" by (rule prod.exhaust)
  have "a" using assms(2,3) Inr a handleAuthError_rejects by (cases a) (simp_all add: Middleware_def Let_def)
  with a ok Inr show ?thesis by simp
qed

section \<open>Properties\<close>

text \<open>
  C5. Protected endpoints are enforced. Let a configuration be loaded and the endpoint that governs a request
  be not public. Then the handler runs exactly if the request's role or permissions could be read and
  one of the held roles has, possibly by inheritance, one of the required permissions (in permissions
  mode: one of the held permissions is required). Otherwise, without a custom error handler, the answer
  is 401 if no usable credential was presented and 403 if it grants nothing or cannot be read.
\<close>

theorem rbac_enforced:
  assumes "load_config c0 = Inr c"
    and "getEndpointForRequest mux c (qMethod r) (qPath r) = (Some e, False)" and "\<not> withErrorHandler d"
  shows "case extractHeld r c of
      Inl (s, _) \<Rightarrow> fst (Middleware mux d (Some c) r st) = HttpError (if s = SRoleNotFound then 401 else 403)
    | Inr h \<Rightarrow> if sufficient (Roles c0) e h then \<exists>g \<in> names_held h. fst (Middleware mux d (Some c) r st) = RunHandler (Some g)
               else fst (Middleware mux d (Some c) r st) = HttpError 403"
proof (cases "extractHeld r c")
  case (Inl f)
  then show ?thesis
    using assms(2) handleAuthError_status [OF assms(3)] by (cases f) (simp add: Middleware_def Let_def)
next
  case (Inr h)
  have np: "\<not> Public e" using public_flag [OF assms(1,2)] by simp
  note ok = checkEndpointAuthorization_iff [OF assms(1) np, of h]
  show ?thesis
  proof (cases "sufficient (Roles c0) e h")
    case True
    then obtain g where g: "checkEndpointAuthorization h e c = (True, g)" using ok by (metis prod.collapse)
    have "g \<in> names_held h"
      using g np grant_iff [of h "rolePermissionSet c" "RequiredPermissions e"]
      by (auto simp: checkEndpointAuthorization_def split: if_splits option.splits)
    with Inr True g assms(2) show ?thesis by (simp add: Middleware_def Let_def)
  next
    case False
    then obtain g where "checkEndpointAuthorization h e c = (False, g)" using ok by (metis prod.collapse)
    with Inr False assms(2) handleAuthError_status [OF assms(3)] show ?thesis
      by (simp add: Middleware_def Let_def)
  qed
qed

definition demo_auth :: "string \<Rightarrow> string \<Rightarrow> Config" where
  "demo_auth rolePath permPath = (demo_rbac demo_endpoints)\<lparr>
     Roles := [\<lparr>Name = ''reader'', Permissions = [''users:read''], InheritsFrom = []\<rparr>,
               \<lparr>Name = ''admin'', Permissions = [], InheritsFrom = [''reader'']\<rparr>],
     JWTClaimPath := rolePath, PermissionsClaimPath := permPath\<rparr>"

definition demo_deps :: deps where
  "demo_deps = \<lparr>withMetrics = True, withLogger = True, withErrorHandler = False\<rparr>"

definition demo_start :: mw_state where
  "demo_start = \<lparr>callOrderWarned = False, unreadableWarned = False, mw_log = []\<rparr>"

definition demo_user :: "string \<Rightarrow> claims option \<Rightarrow> rbac_request" where
  "demo_user role cl = \<lparr>qMethod = ''GET'', qPath = ''/users/7'', qHeader = (\<lambda>_. role), qClaims = cl\<rparr>"

abbreviation demo_loaded :: "string \<Rightarrow> string \<Rightarrow> Config" where
  "demo_loaded rolePath permPath \<equiv> projr (load_config (demo_auth rolePath permPath))"

theorem rbac_enforced_witness:
  "\<exists>g. fst (Middleware demo_match demo_deps (Some (demo_loaded '''' '''')) (demo_user ''admin'' None) demo_start) =
     RunHandler (Some g)"
proof -
  let ?r = "demo_user ''admin'' None" and ?e = "demo_endpoint ''/users/{id}'' [''users:read''] False"
    and ?h = "\<lparr>hlist = None, hstr = ''admin'', permissionsMode = False\<rparr>" and ?c0 = "demo_auth '''' ''''"
  have "\<not> isl (load_config ?c0)" by code_simp
  then have c: "load_config ?c0 = Inr (demo_loaded '''' '''')" by (simp add: sum.collapse(2))
  have g: "getEndpointForRequest demo_match (demo_loaded '''' '''') (qMethod ?r) (qPath ?r) = (Some ?e, False)"
    and h: "extractHeld ?r (demo_loaded '''' '''') = Inr ?h"
    and a: "fst (checkEndpointAuthorization ?h ?e (demo_loaded '''' ''''))" and d: "\<not> withErrorHandler demo_deps"
    by code_simp+
  have "sufficient (Roles ?c0) ?e ?h" using a checkEndpointAuthorization_iff [OF c] by simp
  with rbac_enforced [OF c g d, of demo_start] h show ?thesis by auto
qed

text \<open>
  With a claim path configured the role header cannot influence the decision: whatever header the
  request carries, the answer, the log and the warnings are the same.
\<close>

lemma claim_modes_ignore_header:
  assumes "fst (config_mode c) \<in> {modePermissions, modeRoles}"
  shows "Middleware mux d (Some c) (r\<lparr>qHeader := hdr\<rparr>) st = Middleware mux d (Some c) r st"
proof -
  have "extractHeld (r\<lparr>qHeader := hdr\<rparr>) c = extractHeld r c"
    using assms by (auto simp: extractHeld_def extractHeldFromJWT_def)
  moreover have "reportExtractionFailure d c (r\<lparr>qHeader := hdr\<rparr>) rs st = reportExtractionFailure d c r rs st" for rs
    by (simp add: reportExtractionFailure_def)
  ultimately show ?thesis by (simp add: Middleware_def Let_def split: prod.split option.split sum.split)
qed

lemma claim_modes_ignore_header_witness:
  "Middleware demo_match demo_deps (Some (demo_loaded ''role'' '''')) ((demo_user '''' None)\<lparr>qHeader := (\<lambda>_. ''admin'')\<rparr>) demo_start =
   Middleware demo_match demo_deps (Some (demo_loaded ''role'' '''')) (demo_user '''' None) demo_start"
proof (rule claim_modes_ignore_header)
  have "fst (config_mode (demo_loaded ''role'' '''')) = modeRoles" by code_simp
  then show "fst (config_mode (demo_loaded ''role'' '''')) \<in> {modePermissions, modeRoles}" by simp
qed

section \<open>Sequences of requests\<close>

text \<open>The requests served by one configuration, one after the other; the guards of the warnings are
  \<^verbatim>\<open>sync.Once\<close> values, so their flags change atomically.\<close>

definition serve_all :: "mux_match \<Rightarrow> deps \<Rightarrow> Config \<Rightarrow> rbac_request list \<Rightarrow> mw_state \<Rightarrow> mw_state" where
  "serve_all mux d c = fold (\<lambda>r st. snd (Middleware mux d (Some c) r st))"

definition is_unreadable :: "mw_event \<Rightarrow> bool" where
  "is_unreadable ev = (case ev of WarnUnreadable _ \<Rightarrow> True | _ \<Rightarrow> False)"

definition warned_once :: "mw_state \<Rightarrow> bool" where
  "warned_once st \<longleftrightarrow>
     length (filter (\<lambda>ev. ev = WarnCallOrder) (mw_log st)) = (if callOrderWarned st then 1 else 0) \<and>
     length (filter is_unreadable (mw_log st)) = (if unreadableWarned st then 1 else 0)"

text \<open>The requests whose credential is looked for and cannot be read.\<close>

definition unreadable_request :: "mux_match \<Rightarrow> Config \<Rightarrow> rbac_request \<Rightarrow> bool" where
  "unreadable_request mux c r =
     (case getEndpointForRequest mux c (qMethod r) (qPath r) of
        (ep, isPub) \<Rightarrow> \<not> isPub \<and> ep \<noteq> None \<and> isl (extractHeld r c))"

definition is_failure :: "mw_event \<Rightarrow> bool" where
  "is_failure ev = (case ev of ExtractionFailed _ \<Rightarrow> True | _ \<Rightarrow> False)"

lemmas event_tests = is_failure_def is_unreadable_def mw_note_def

lemma handleAuthError_log:
  "mw_log (snd (handleAuthError d dn st)) =
     mw_log st @ (if withLogger d then [Audit False (d_route dn) (d_role dn) '''' (d_heldCount dn)] else [])"
  "callOrderWarned (snd (handleAuthError d dn st)) = callOrderWarned st"
  "unreadableWarned (snd (handleAuthError d dn st)) = unreadableWarned st"
  by (simp_all add: handleAuthError_def Let_def mw_note_def)

lemma report_warned_once: "warned_once st \<Longrightarrow> warned_once (reportExtractionFailure d c r rs st)"
  by (auto simp: warned_once_def reportExtractionFailure_def Let_def event_tests)

lemma report_failures:
  "length (filter is_failure (mw_log (reportExtractionFailure d c r rs st))) =
     length (filter is_failure (mw_log st)) + (if withMetrics d then 1 else 0)"
  by (auto simp: reportExtractionFailure_def Let_def event_tests)

lemma handleAuthError_warned_once: "warned_once st \<Longrightarrow> warned_once (snd (handleAuthError d dn st))"
  by (simp add: warned_once_def handleAuthError_log is_unreadable_def)

lemma Middleware_warned_once:
  assumes "warned_once st" shows "warned_once (snd (Middleware mux d (Some c) r st))"
proof -
  have "warned_once (mw_note [Audit True x y z n] st)" for x y z n
    using assms by (simp add: warned_once_def event_tests)
  with assms show ?thesis
    by (auto simp: Middleware_def Let_def report_warned_once handleAuthError_warned_once
        split: prod.split option.split sum.split bool.split)
qed

lemma Middleware_failures:
  "length (filter is_failure (mw_log (snd (Middleware mux d (Some c) r st)))) =
     length (filter is_failure (mw_log st)) + (if withMetrics d \<and> unreadable_request mux c r then 1 else 0)"
  by (auto simp: Middleware_def Let_def unreadable_request_def report_failures handleAuthError_log event_tests
      split: prod.split option.split sum.split bool.split)

text \<open>
  Over any sequence of requests each operator warning is logged at most once, while the metric still
  counts every request whose credential could not be read.
\<close>

lemma warnings_once_failures_counted:
  "let log = mw_log (serve_all mux d c rs demo_start)
   in length (filter (\<lambda>ev. ev = WarnCallOrder) log) \<le> 1 \<and> length (filter is_unreadable log) \<le> 1 \<and>
      length (filter is_failure log) = (if withMetrics d then length (filter (unreadable_request mux c) rs) else 0)"
proof -
  have "warned_once (serve_all mux d c rs st)" if "warned_once st" for st
    using that by (induction rs arbitrary: st) (simp_all add: serve_all_def Middleware_warned_once)
  moreover have "warned_once demo_start" by (simp add: warned_once_def demo_start_def)
  ultimately have "warned_once (serve_all mux d c rs demo_start)" by blast
  moreover have "length (filter is_failure (mw_log (serve_all mux d c rs st))) =
      length (filter is_failure (mw_log st)) + (if withMetrics d then length (filter (unreadable_request mux c) rs) else 0)" for st
    by (induction rs arbitrary: st) (auto simp: serve_all_def Middleware_failures)
  ultimately show ?thesis by (simp add: warned_once_def demo_start_def)
qed

text \<open>
  A refusal does not disclose what a request with several roles or permissions holds: the audit entry
  carries only their number, a custom error handler receives an empty role, and nothing else is logged.
\<close>

lemma refusal_hides_holdings:
  assumes "getEndpointForRequest mux c (qMethod r) (qPath r) = (Some e, False)"
    and "extractHeld r c = Inr h" and "multi h" and "\<not> fst (checkEndpointAuthorization h e c)"
  shows "\<exists>label. mw_log (snd (Middleware mux d (Some c) r st)) =
      mw_log st @ (if withLogger d then [Audit False label '''' '''' (held_count h)] else []) \<and>
    fst (Middleware mux d (Some c) r st) = (if withErrorHandler d then CustomHandler '''' label SAccessDenied else HttpError 403)"
proof -
  obtain g where "checkEndpointAuthorization h e c = (False, g)" using assms(4) by (metis prod.collapse)
  with assms show ?thesis by (simp add: Middleware_def Let_def handleAuthError_log) (simp add: handleAuthError_def Let_def)
qed

lemma refusal_hides_holdings_witness:
  "\<exists>label. mw_log (snd (Middleware demo_match demo_deps (Some (demo_loaded '''' ''scope''))
      (demo_user '''' (Some [(''scope'', JString ''a b'')])) demo_start)) = [Audit False label '''' '''' 2]"
proof -
  let ?r = "demo_user '''' (Some [(''scope'', JString ''a b'')])" and ?c = "demo_loaded '''' ''scope''"
    and ?h = "\<lparr>hlist = None, hstr = ''a b'', permissionsMode = True\<rparr>" and ?e = "demo_endpoint ''/users/{id}'' [''users:read''] False"
  have "getEndpointForRequest demo_match ?c (qMethod ?r) (qPath ?r) = (Some ?e, False)"
    and "extractHeld ?r ?c = Inr ?h" and "multi ?h" and "\<not> fst (checkEndpointAuthorization ?h ?e ?c)"
    by code_simp+
  from refusal_hides_holdings [OF this, of demo_deps demo_start]
  have "\<exists>label. mw_log (snd (Middleware demo_match demo_deps (Some ?c) ?r demo_start)) =
      mw_log demo_start @ (if withLogger demo_deps then [Audit False label '''' '''' (held_count ?h)] else [])" by blast
  moreover have "mw_log demo_start = []" and "withLogger demo_deps" and "held_count ?h = 2" by code_simp+
  ultimately show ?thesis by simp
qed

end
