(* ===== verification/Rbac_Check.thy ===== *)
theory Rbac_Check
  imports Trie_Router Rbac_Middleware
begin

text \<open>
  The startup check of an access configuration against the route table, \<^verbatim>\<open>pkg/gofr/internal/rbaccheck\<close>:
  templates as lists of segments, when a rule overlaps or covers a route (\<^verbatim>\<open>match.go\<close>), and the report of
  dead rules and unguarded routes for one or several configurations (\<^verbatim>\<open>check.go\<close>). The package \<^verbatim>\<open>regexp\<close>
  is a parameter: its parser, and the test of a whole segment against a pattern. The checker's cache of
  compiled constraints is not visible, since compiling is a function of the text.
\<close>

section \<open>Segments\<close>

text \<open>\<open>rxCompile c\<close> is \<^verbatim>\<open>MatchString\<close> of the pattern \<open>c\<close> anchored at both ends, if it compiles; \<open>rxRunes\<close> decodes
  a string into runes and \<open>rxFold\<close> relates the runes a literal may match.\<close>

record go_regexp =
  rxParse :: "string \<Rightarrow> regexp option"
  rxCompile :: "string \<Rightarrow> (string \<Rightarrow> bool) option"
  rxRunes :: "string \<Rightarrow> int list"
  rxFold :: "int \<Rightarrow> int \<Rightarrow> bool"

definition anyMethod :: string where "anyMethod = ''*''"
definition freeVariablePattern :: string where "freeVariablePattern = ''[^/]+''"
definition invalidPattern :: string where "invalidPattern = ''[''"

record compiledConstraint =
  c_re :: "(string \<Rightarrow> bool) option"
  c_spans :: bool

record pathSegment =
  s_text :: string
  s_variable :: bool
  s_catchAll :: bool
  s_constraint :: string
  s_re :: "(string \<Rightarrow> bool) option"

record checkEntry =
  e_method :: string
  e_label :: string
  e_segments :: "pathSegment list"

text \<open>The braces of each outermost group, by index; \<open>None\<close> if they do not balance or there are none.\<close>

fun brace_loop :: "nat \<Rightarrow> nat \<Rightarrow> nat \<Rightarrow> (nat \<times> nat) list \<Rightarrow> string \<Rightarrow> (nat \<times> nat) list option" where
  "brace_loop i depth start groups [] = (if depth \<noteq> 0 \<or> groups = [] then None else Some groups)"
| "brace_loop i depth start groups (r # rest) =
     (if r = CHR ''{'' then brace_loop (Suc i) (Suc depth) (if depth = 0 then i else start) groups rest
      else if r = CHR ''}'' then
        if depth = 0 then None
        else brace_loop (Suc i) (depth - 1) start (if depth = 1 then groups @ [(start, i)] else groups) rest
      else brace_loop (Suc i) depth start groups rest)"

definition braceGroups :: "string \<Rightarrow> (nat \<times> nat) list option" where
  "braceGroups t = brace_loop 0 0 0 [] t"

definition Cut :: "string \<Rightarrow> char \<Rightarrow> string \<times> string \<times> bool" where
  "Cut s c = (case IndexByte s c of None \<Rightarrow> (s, [], False) | Some i \<Rightarrow> (take i s, drop (i + 1) s, True))"

definition QuoteMeta :: "string \<Rightarrow> string" where
  "QuoteMeta s = concat (map (\<lambda>c. if c = backslash \<or> c \<in> set ''.+*?()|[]{}^$'' then [backslash, c] else [c]) s)"

text \<open>\<open>slice t i j\<close> is \<^verbatim>\<open>t[i:j]\<close>.\<close>

definition slice :: "string \<Rightarrow> nat \<Rightarrow> nat \<Rightarrow> string" where
  "slice t i j = take (j - i) (drop i t)"

fun pattern_loop :: "string \<Rightarrow> nat \<Rightarrow> (nat \<times> nat) list \<Rightarrow> string \<Rightarrow> nat \<Rightarrow> string" where
  "pattern_loop t n [] acc fin = acc @ QuoteMeta (drop fin t)"
| "pattern_loop t n ((i, j) # groups) acc fin =
     (case Cut (slice t (i + 1) j) (CHR '':'') of
        (name, constraint, hasConstraint) \<Rightarrow>
          if name = '''' \<or> (hasConstraint \<and> constraint = '''') then invalidPattern
          else if n = 1 \<and> i = 0 \<and> j = length t - 1 then constraint
          else pattern_loop t n groups
                 (acc @ QuoteMeta (slice t fin i) @ ''(?:'' @ (if hasConstraint then constraint else freeVariablePattern) @ '')'')
                 (j + 1))"

definition segmentPattern :: "string \<Rightarrow> string" where
  "segmentPattern t =
     (case braceGroups t of None \<Rightarrow> invalidPattern | Some groups \<Rightarrow> pattern_loop t (length groups) groups '''' 0)"

fun regexpAdmits :: "regexp \<Rightarrow> int \<Rightarrow> bool" where
  "regexpAdmits re r =
     (if re = OpAnyChar \<or> re = OpAnyCharNotNL then True
      else (case re of
              OpLiteral rs \<Rightarrow> r \<in> set rs
            | OpCharClass rs \<Rightarrow> class_pair rs r
            | _ \<Rightarrow> list_ex (\<lambda>s. regexpAdmits s r) (Sub re)))"

declare regexpAdmits.simps [simp del]

definition admitsSlash :: "go_regexp \<Rightarrow> string \<Rightarrow> bool" where
  "admitsSlash rx pat = (case rxParse rx pat of None \<Rightarrow> False | Some re \<Rightarrow> regexpAdmits re slash)"

definition compile_constraint :: "go_regexp \<Rightarrow> string \<Rightarrow> compiledConstraint" where
  "compile_constraint rx c =
     (case rxCompile rx c of
        None \<Rightarrow> \<lparr>c_re = None, c_spans = False\<rparr>
      | Some m \<Rightarrow> \<lparr>c_re = Some m, c_spans = admitsSlash rx c\<rparr>)"

definition newSegment :: "go_regexp \<Rightarrow> string \<Rightarrow> pathSegment" where
  "newSegment rx t =
     (if \<not> Contains t ''{'' then \<lparr>s_text = t, s_variable = False, s_catchAll = False, s_constraint = '''', s_re = None\<rparr>
      else let c = segmentPattern t in
           if c \<noteq> '''' then
             (let k = compile_constraint rx c
              in \<lparr>s_text = t, s_variable = True, s_catchAll = (c_re k \<noteq> None \<and> c_spans k), s_constraint = c, s_re = c_re k\<rparr>)
           else \<lparr>s_text = t, s_variable = True, s_catchAll = False, s_constraint = '''', s_re = None\<rparr>)"

text \<open>A nil list of segments, of the empty path, is the empty list; a path that is not empty has segments.\<close>

definition newEntry :: "go_regexp \<Rightarrow> string \<Rightarrow> string \<Rightarrow> checkEntry" where
  "newEntry rx M p =
     \<lparr>e_method = M, e_label = M @ '' '' @ p,
      e_segments = (if p = '''' then [] else map (newSegment rx) (splitPatternSegments p))\<rparr>"

section \<open>Overlapping and covering\<close>

definition matchesLiteral :: "pathSegment \<Rightarrow> string \<Rightarrow> bool \<Rightarrow> bool" where
  "matchesLiteral s literal ifUnknown =
     (if s_constraint s = '''' then literal \<noteq> '''' \<and> \<not> Contains literal ''/''
      else (case s_re s of None \<Rightarrow> ifUnknown | Some m \<Rightarrow> m literal))"

definition mayMatch :: "pathSegment \<Rightarrow> pathSegment \<Rightarrow> bool" where
  "mayMatch s other =
     (if s_variable s \<and> s_variable other then True
      else if s_variable s then matchesLiteral s (s_text other) True
      else if s_variable other then matchesLiteral other (s_text s) True
      else s_text s = s_text other)"

fun overlap_loop :: "pathSegment list \<Rightarrow> pathSegment list \<Rightarrow> bool" where
  "overlap_loop (a # as) (b # bs) =
     (if s_catchAll a \<or> s_catchAll b then True
      else if \<not> mayMatch a b then False
      else overlap_loop as bs)"
| "overlap_loop as bs = (length as = length bs)"

definition segmentsOverlap :: "pathSegment list \<Rightarrow> pathSegment list \<Rightarrow> bool" where
  "segmentsOverlap a b = (if a = [] \<or> b = [] then False else overlap_loop a b)"

definition overlaps :: "checkEntry \<Rightarrow> checkEntry \<Rightarrow> bool" where
  "overlaps e rt \<longleftrightarrow>
     (e_method e = anyMethod \<or> e_method rt = anyMethod \<or> e_method e = e_method rt) \<and>
     segmentsOverlap (e_segments e) (e_segments rt)"

definition seg_covers :: "pathSegment \<Rightarrow> pathSegment \<Rightarrow> bool" where
  "seg_covers s other =
     (if s_catchAll other then False
      else if \<not> s_variable other then s_text s = s_text other \<or> s_variable s \<and> matchesLiteral s (s_text other) False
      else if \<not> s_variable s then False
      else if s_constraint s = '''' then
        s_constraint other = '''' \<or> (case s_re other of None \<Rightarrow> False | Some m \<Rightarrow> \<not> m '''')
      else s_re s \<noteq> None \<and> s_constraint s = s_constraint other)"

definition mayBeEmpty :: "pathSegment \<Rightarrow> bool" where
  "mayBeEmpty s =
     (if \<not> s_variable s then s_text s = ''''
      else if s_constraint s = '''' then False
      else (case s_re s of None \<Rightarrow> True | Some m \<Rightarrow> m ''''))"

definition coversTail :: "pathSegment \<Rightarrow> pathSegment list \<Rightarrow> bool" where
  "coversTail s tail =
     (if s_constraint s = ''.*'' then True
      else if s_constraint s = ''.+'' then \<not> (length tail = 1 \<and> mayBeEmpty (tail ! 0))
      else (case s_re s of
              None \<Rightarrow> False
            | Some m \<Rightarrow>
                if length tail = 1 \<and> s_catchAll (tail ! 0) then s_constraint s = s_constraint (tail ! 0)
                else if list_ex s_variable tail then False
                else m (Join (map s_text tail) ''/'')))"

fun cover_loop :: "pathSegment list \<Rightarrow> pathSegment list \<Rightarrow> bool" where
  "cover_loop (a # as) (b # bs) =
     (if s_catchAll a then as = [] \<and> coversTail a (b # bs)
      else if \<not> seg_covers a b then False
      else cover_loop as bs)"
| "cover_loop as bs = (length as = length bs)"

definition segmentsCover :: "pathSegment list \<Rightarrow> pathSegment list \<Rightarrow> bool" where
  "segmentsCover a b = (if a = [] \<or> b = [] then False else cover_loop a b)"

definition covers :: "checkEntry \<Rightarrow> checkEntry \<Rightarrow> bool" where
  "covers e rt \<longleftrightarrow>
     (e_method e = anyMethod \<or> e_method e = e_method rt) \<and> segmentsCover (e_segments e) (e_segments rt)"

section \<open>The report\<close>

record Route =
  r_Method :: string
  r_Path :: string
  r_BuiltIn :: bool

record PartialCoverage =
  pc_Route :: string
  pc_Rules :: "string list"

record Mismatches =
  DeadRules :: "string list"
  DeadPublicRules :: "string list"
  Uncovered :: "string list"
  PartlyCovered :: "PartialCoverage list"

record check_rule =
  cr_entry :: checkEntry
  cr_public :: bool

definition Failed :: "Mismatches \<Rightarrow> bool" where
  "Failed m \<longleftrightarrow> length (DeadRules m) + length (Uncovered m) + length (PartlyCovered m) > 0"

definition PartialCoverage_String :: "PartialCoverage \<Rightarrow> string" where
  "PartialCoverage_String p = pc_Route p @ '' (by '' @ Join (pc_Rules p) '' and '' @ '')''"

definition sortedUnique :: "string list \<Rightarrow> string list" where
  "sortedUnique xs = remdups_adj (sort xs)"

fun compact_by :: "('a \<Rightarrow> 'b) \<Rightarrow> 'a list \<Rightarrow> 'a list" where
  "compact_by f [] = []"
| "compact_by f [x] = [x]"
| "compact_by f (x # y # xs) = (if f x = f y then compact_by f (x # xs) else x # compact_by f (y # xs))"

definition sortedByRoute :: "PartialCoverage list \<Rightarrow> PartialCoverage list" where
  "sortedByRoute ps = compact_by pc_Route (sort_key pc_Route ps)"

text \<open>The loops over the endpoints and their methods, as one over the list of declarations.\<close>

fun rules_loop :: "go_regexp \<Rightarrow> (EndpointMapping \<times> string) list \<Rightarrow> check_rule list \<Rightarrow> (string \<Rightarrow> nat option) \<Rightarrow> check_rule list" where
  "rules_loop rx [] rs index = rs"
| "rules_loop rx ((e, M) # ds) rs index =
     (let r = \<lparr>cr_entry = newEntry rx M (Path e), cr_public = Public e\<rparr>; l = e_label (cr_entry r) in
      case index l of
        Some at \<Rightarrow> rules_loop rx ds (rs[at := r]) index
      | None \<Rightarrow> rules_loop rx ds (rs @ [r]) (index(l \<mapsto> length rs)))"

definition buildRules :: "go_regexp \<Rightarrow> EndpointMapping list \<Rightarrow> check_rule list" where
  "buildRules rx es = rules_loop rx (declarations es) [] (\<lambda>_. None)"

text \<open>The flags of the live rules are a list of the same length as the rules.\<close>

fun markLiveRules :: "check_rule list \<Rightarrow> checkEntry \<Rightarrow> bool list \<Rightarrow> bool list" where
  "markLiveRules (r # rs) rt (l # ls) =
     (if \<not> l \<and> overlaps (cr_entry r) rt then True else l) # markLiveRules rs rt ls"
| "markLiveRules _ rt ls = ls"

fun classify_loop :: "check_rule list \<Rightarrow> checkEntry \<Rightarrow> bool list \<Rightarrow> bool \<Rightarrow> string list \<Rightarrow> bool list \<times> bool \<times> string list" where
  "classify_loop (r # rs) rt (l # ls) covered overlapping =
     (if \<not> overlaps (cr_entry r) rt then
        (case classify_loop rs rt ls covered overlapping of (ls', res) \<Rightarrow> (l # ls', res))
      else
        (case classify_loop rs rt ls (covered \<or> covers (cr_entry r) rt)
                (if covered \<or> covers (cr_entry r) rt then overlapping else overlapping @ [e_label (cr_entry r)]) of
           (ls', res) \<Rightarrow> (True # ls', res)))"
| "classify_loop _ rt ls covered overlapping = (ls, covered, overlapping)"

definition classifyRoute :: "check_rule list \<Rightarrow> checkEntry \<Rightarrow> bool list \<Rightarrow> string list option \<times> bool list" where
  "classifyRoute rs rt live =
     (case classify_loop rs rt live False [] of
        (live', covered, overlapping) \<Rightarrow>
          (if covered then Some [] else if overlapping = [] then None else Some overlapping, live'))"

fun check_routes ::
    "go_regexp \<Rightarrow> check_rule list \<Rightarrow> Route list \<Rightarrow> bool list \<Rightarrow> string list \<Rightarrow> PartialCoverage list \<Rightarrow>
     bool list \<times> string list \<times> PartialCoverage list" where
  "check_routes rx rs [] live unc part = (live, unc, part)"
| "check_routes rx rs (rt # rts) live unc part =
     (let entry = newEntry rx (ToUpper (r_Method rt)) (r_Path rt) in
      if r_BuiltIn rt then check_routes rx rs rts (markLiveRules rs entry live) unc part
      else (case classifyRoute rs entry live of
              (None, live') \<Rightarrow> check_routes rx rs rts live' (unc @ [e_label entry]) part
            | (Some [], live') \<Rightarrow> check_routes rx rs rts live' unc part
            | (Some (c # cs), live') \<Rightarrow>
                check_routes rx rs rts live' unc (part @ [\<lparr>pc_Route = e_label entry, pc_Rules = sortedUnique (c # cs)\<rparr>])))"

definition dead_labels :: "bool \<Rightarrow> check_rule list \<Rightarrow> bool list \<Rightarrow> string list" where
  "dead_labels public rs live =
     map (\<lambda>(r, l). e_label (cr_entry r)) (filter (\<lambda>(r, l). \<not> l \<and> cr_public r = public) (zip rs live))"

definition Check :: "go_regexp \<Rightarrow> EndpointMapping list \<Rightarrow> Route list \<Rightarrow> Mismatches" where
  "Check rx endpoints rts =
     (let rs = buildRules rx endpoints in
      case check_routes rx rs rts (replicate (length rs) False) [] [] of
        (live, unc, part) \<Rightarrow>
          \<lparr>DeadRules = sortedUnique (dead_labels False rs live),
           DeadPublicRules = sortedUnique (dead_labels True rs live),
           Uncovered = sortedUnique unc,
           PartlyCovered = sortedByRoute part\<rparr>)"

section \<open>Several configurations\<close>

definition config_prefix :: "nat \<Rightarrow> string \<Rightarrow> string" where
  "config_prefix i d = ''config '' @ show_nat (i + 1) @ '': '' @ d"

text \<open>The maps of \<^verbatim>\<open>commonGaps\<close>: how many results leave a route not fully covered or uncovered, and the rules that
  partly cover it.\<close>

record gap_maps =
  g_gaps :: "string \<Rightarrow> nat"
  g_partly :: "string \<Rightarrow> string list"
  g_unc :: "string \<Rightarrow> nat"
  g_keys :: "string list"

definition gap_key :: "string \<Rightarrow> gap_maps \<Rightarrow> gap_maps" where
  "gap_key k g = g\<lparr>g_gaps := (g_gaps g)(k := g_gaps g k + 1), g_keys := (if g_gaps g k = 0 then g_keys g @ [k] else g_keys g)\<rparr>"

definition gap_uncovered :: "string \<Rightarrow> gap_maps \<Rightarrow> gap_maps" where
  "gap_uncovered u g = (gap_key u g)\<lparr>g_unc := (g_unc g)(u := g_unc g u + 1)\<rparr>"

definition gap_partly :: "nat \<Rightarrow> PartialCoverage \<Rightarrow> gap_maps \<Rightarrow> gap_maps" where
  "gap_partly i p g =
     (gap_key (pc_Route p) g)
       \<lparr>g_partly := (g_partly g)(pc_Route p := g_partly g (pc_Route p) @ map (config_prefix i) (pc_Rules p))\<rparr>"

fun gap_results :: "nat \<Rightarrow> Mismatches list \<Rightarrow> gap_maps \<Rightarrow> gap_maps" where
  "gap_results i [] g = g"
| "gap_results i (m # ms) g = gap_results (Suc i) ms (fold (gap_partly i) (PartlyCovered m) (fold gap_uncovered (Uncovered m) g))"

text \<open>The loop over the map \<^verbatim>\<open>gaps\<close> visits its keys in some order; both results are sorted afterwards.\<close>

definition commonGaps :: "Mismatches list \<Rightarrow> string list \<times> PartialCoverage list" where
  "commonGaps results =
     (let n = length results;
          g = gap_results 0 results \<lparr>g_gaps = (\<lambda>_. 0), g_partly = (\<lambda>_. []), g_unc = (\<lambda>_. 0), g_keys = []\<rparr>;
          full = filter (\<lambda>k. \<not> g_gaps g k < n) (g_keys g)
      in (sortedUnique (filter (\<lambda>k. g_unc g k = n) full),
          sortedByRoute (map (\<lambda>k. \<lparr>pc_Route = k, pc_Rules = remdups_adj (g_partly g k)\<rparr>) (filter (\<lambda>k. g_unc g k \<noteq> n) full))))"

fun prefixed :: "nat \<Rightarrow> string list list \<Rightarrow> string list" where
  "prefixed i [] = []"
| "prefixed i (ds # dss) = map (config_prefix i) ds @ prefixed (Suc i) dss"

definition CheckAll :: "go_regexp \<Rightarrow> EndpointMapping list list \<Rightarrow> Route list \<Rightarrow> Mismatches" where
  "CheckAll rx configs rts =
     (let results = map (\<lambda>es. Check rx es rts) configs in
      if length results = 1 then hd results
      else (case commonGaps results of
              (unc, part) \<Rightarrow>
                \<lparr>DeadRules = remdups_adj (prefixed 0 (map DeadRules results)),
                 DeadPublicRules = remdups_adj (prefixed 0 (map DeadPublicRules results)),
                 Uncovered = unc, PartlyCovered = part\<rparr>))"

section \<open>What a template matches\<close>

text \<open>
  The reference: mux matches a path against the template as a whole, so a path matches if it splits at
  slashes into parts that match the segments one by one; the part of a catch-all may contain slashes.
  A pattern that does not parse on its own is refused by mux and matches nothing.
\<close>

definition seg_matches :: "go_regexp \<Rightarrow> pathSegment \<Rightarrow> string \<Rightarrow> bool" where
  "seg_matches rx s w =
     (if \<not> s_variable s then w = s_text s
      else if s_constraint s = '''' then w \<noteq> '''' \<and> CHR ''/'' \<notin> set w
      else rxParse rx (s_constraint s) \<noteq> None \<and> (case rxCompile rx (s_constraint s) of None \<Rightarrow> False | Some m \<Rightarrow> m w))"

definition template_matches :: "go_regexp \<Rightarrow> string \<Rightarrow> string \<Rightarrow> bool" where
  "template_matches rx tpl p \<longleftrightarrow>
     tpl \<noteq> '''' \<and> (\<exists>ws. list_all2 (seg_matches rx) (map (newSegment rx) (splitPatternSegments tpl)) ws \<and> p = Join ws ''/'')"

text \<open>The documented behaviour of the regexp package that the check relies on: a matched string is one of the
  syntax tree's strings; only a slash matches a slash, and it is a rune of its own; an open bracket alone
  is no pattern; the dot matches every character but a newline.\<close>

definition newline :: char where "newline = char_of (10 :: nat)"

definition regexp_laws :: "go_regexp \<Rightarrow> bool" where
  "regexp_laws rx \<longleftrightarrow>
     (\<forall>c m re w. rxCompile rx c = Some m \<and> rxParse rx c = Some re \<and> m w \<longrightarrow> re_matches (rxFold rx) re (rxRunes rx w)) \<and>
     (\<forall>a. rxFold rx a slash \<longrightarrow> a = slash) \<and>
     (\<forall>w. CHR ''/'' \<in> set w \<longrightarrow> slash \<in> set (rxRunes rx w)) \<and>
     rxParse rx invalidPattern = None \<and> rxParse rx ''.*'' \<noteq> None \<and> rxParse rx ''.+'' \<noteq> None \<and>
     (\<exists>m. rxCompile rx ''.*'' = Some m \<and> (\<forall>w. m w \<longleftrightarrow> newline \<notin> set w)) \<and>
     (\<exists>m. rxCompile rx ''.+'' = Some m \<and> (\<forall>w. m w \<longleftrightarrow> w \<noteq> [] \<and> newline \<notin> set w))"

text \<open>A pattern without anchors, word boundaries and capture groups: what it matches does not depend on the text
  around, and mux accepts it inside a template.\<close>

fun unanchored :: "regexp \<Rightarrow> bool" where
  "unanchored re \<longleftrightarrow>
     (case re of OpBeginLine \<Rightarrow> False | OpEndLine \<Rightarrow> False | OpBeginText \<Rightarrow> False | OpEndText \<Rightarrow> False
       | OpWordBoundary \<Rightarrow> False | OpNoWordBoundary \<Rightarrow> False | OpCapture r \<Rightarrow> False
       | _ \<Rightarrow> list_all unanchored (Sub re))"

declare unanchored.simps [simp del]

text \<open>The constraints of a template are such patterns, on their own and not only between the anchors put around them.\<close>

definition own_patterns :: "go_regexp \<Rightarrow> string \<Rightarrow> bool" where
  "own_patterns rx tpl \<longleftrightarrow>
     (\<forall>t \<in> set (splitPatternSegments tpl). rxCompile rx (segmentPattern t) \<noteq> None \<longrightarrow>
        (case rxParse rx (segmentPattern t) of None \<Rightarrow> False | Some re \<Rightarrow> unanchored re))"

text \<open>What mux documents of the patterns of rules: a template that does not begin with a slash is refused, and a
  refused template matches nothing; another one matches a path as a whole, segment by segment. Nothing is
  assumed of templates whose constraints are anchored.\<close>

definition mux_documented :: "go_regexp \<Rightarrow> mux_match \<Rightarrow> bool" where
  "mux_documented rx mux \<longleftrightarrow>
     (\<forall>tpl meth p. isMuxPattern tpl \<longrightarrow> own_patterns rx tpl \<longrightarrow>
        mux tpl meth p = (HasPrefix tpl ''/'' \<and> template_matches rx tpl p))"

section \<open>Lemmas: segments\<close>

lemma regexp_laws_match:
  "regexp_laws rx \<Longrightarrow> rxCompile rx c = Some m \<Longrightarrow> rxParse rx c = Some re \<Longrightarrow> m w \<Longrightarrow> re_matches (rxFold rx) re (rxRunes rx w)"
  by (simp add: regexp_laws_def)

lemma regexp_laws_slash:
  "regexp_laws rx \<Longrightarrow> rxFold rx a slash \<Longrightarrow> a = slash"
  "regexp_laws rx \<Longrightarrow> CHR ''/'' \<in> set w \<Longrightarrow> slash \<in> set (rxRunes rx w)"
  by (simp_all add: regexp_laws_def)

lemma regexp_laws_dot:
  assumes "regexp_laws rx" and "newline \<notin> set w"
  shows "rxParse rx ''.*'' \<noteq> None \<and> (\<exists>m. rxCompile rx ''.*'' = Some m \<and> m w)"
    and "w \<noteq> [] \<Longrightarrow> rxParse rx ''.+'' \<noteq> None \<and> (\<exists>m. rxCompile rx ''.+'' = Some m \<and> m w)"
  using assms unfolding regexp_laws_def by metis+

lemma regexpAdmits_slash: "regexpAdmits re slash = reNodeMayMatchSlash re"
proof (induction re rule: measure_induct_rule [of size])
  case (less re)
  have sub: "list_ex (\<lambda>s. regexpAdmits s slash) (Sub re) = list_ex reNodeMayMatchSlash (Sub re)"
    using less Sub_size by (auto simp: list_ex_iff)
  show ?case by (subst regexpAdmits.simps, subst reNodeMayMatchSlash.simps, use sub in \<open>cases re; simp\<close>)
qed

text \<open>What \<open>newSegment\<close> guarantees of the fields of a segment.\<close>

definition seg_ok :: "go_regexp \<Rightarrow> pathSegment \<Rightarrow> bool" where
  "seg_ok rx s \<longleftrightarrow>
     (\<not> s_variable s \<longrightarrow> \<not> s_catchAll s \<and> CHR ''/'' \<notin> set (s_text s)) \<and>
     (s_variable s \<and> s_constraint s = '''' \<longrightarrow> \<not> s_catchAll s) \<and>
     (s_variable s \<and> s_constraint s \<noteq> '''' \<longrightarrow> s_re s = rxCompile rx (s_constraint s) \<and>
        s_catchAll s = (s_re s \<noteq> None \<and> admitsSlash rx (s_constraint s)))"

lemma split_literal:
  "t \<in> set (split_segments depth cur p) \<Longrightarrow> (CHR ''{'' \<notin> set cur \<Longrightarrow> depth = 0 \<and> CHR ''/'' \<notin> set cur) \<Longrightarrow>
   CHR ''{'' \<notin> set t \<Longrightarrow> CHR ''/'' \<notin> set t"
proof (induction depth cur p rule: split_segments.induct)
  case (2 depth cur r rest)
  then show ?case by (auto split: if_splits)
qed auto

lemma newSegment_ok: "t \<in> set (splitPatternSegments p) \<Longrightarrow> seg_ok rx (newSegment rx t)"
proof -
  assume "t \<in> set (splitPatternSegments p)"
  then have "CHR ''{'' \<notin> set t \<Longrightarrow> CHR ''/'' \<notin> set t"
    using split_literal [of t 0 "[]" p] by (simp add: splitPatternSegments_def)
  then show ?thesis
    by (cases "rxCompile rx (segmentPattern t)")
      (simp_all add: seg_ok_def newSegment_def Let_def compile_constraint_def Contains_char)
qed

lemma no_slash:
  assumes "regexp_laws rx" and "seg_ok rx s" and "seg_matches rx s w" and "\<not> s_catchAll s"
  shows "CHR ''/'' \<notin> set w"
proof (cases "s_variable s \<and> s_constraint s \<noteq> ''''")
  case True
  then obtain m re where m: "rxCompile rx (s_constraint s) = Some m" "rxParse rx (s_constraint s) = Some re" "m w"
    using assms(3) by (auto simp: seg_matches_def split: option.splits)
  with True assms(2,4) have "\<not> regexpAdmits re slash" by (auto simp: seg_ok_def admitsSlash_def)
  with mayMatchSlash_complete [OF regexp_laws_match [OF assms(1) m]] regexp_laws_slash [OF assms(1)]
  show ?thesis by (metis regexpAdmits_slash)
next
  case False
  with assms(2,3) show ?thesis by (auto simp: seg_matches_def seg_ok_def split: if_splits)
qed

lemma seg_covers_sound:
  assumes "regexp_laws rx" and "seg_ok rx a" and "seg_ok rx b" and "seg_covers a b" and "seg_matches rx b w"
    and "s_re a \<noteq> None \<Longrightarrow> rxParse rx (s_constraint a) \<noteq> None" and "s_text a = s_text b \<Longrightarrow> s_variable a = s_variable b"
  shows "seg_matches rx a w"
proof -
  have nb: "\<not> s_catchAll b" using assms(4) by (simp add: seg_covers_def split: if_splits)
  note ns = no_slash [OF assms(1,3,5) nb]
  consider "\<not> s_variable b" | "s_variable b" "s_variable a" "s_constraint a = ''''" | "s_variable b" "s_variable a" "s_constraint a \<noteq> ''''"
    | "s_variable b" "\<not> s_variable a" by blast
  then show ?thesis
  proof cases
    case 1
    then have w: "w = s_text b" using assms(5) by (simp add: seg_matches_def)
    show ?thesis
    proof (cases "s_text a = s_text b")
      case True
      with 1 w assms(7) show ?thesis by (simp add: seg_matches_def)
    next
      case False
      with 1 nb assms(4) have "s_variable a" "matchesLiteral a w False" by (simp_all add: seg_covers_def w)
      with assms(2,6) show ?thesis
        by (cases "s_re a") (simp_all add: seg_matches_def matchesLiteral_def seg_ok_def Contains_char split: if_splits)
    qed
  next
    case 2
    with assms(3,4,5) nb have "w \<noteq> ''''"
      by (cases "rxCompile rx (s_constraint b)") (auto simp: seg_covers_def seg_matches_def seg_ok_def split: if_splits)
    with 2 ns show ?thesis by (simp add: seg_matches_def)
  next
    case 3
    with assms(4) nb have "s_constraint a = s_constraint b" by (simp add: seg_covers_def)
    with 3 assms(5) show ?thesis by (simp add: seg_matches_def)
  next
    case 4
    with assms(4) nb show ?thesis by (simp add: seg_covers_def)
  qed
qed

lemma mayBeEmpty_sound: "seg_ok rx s \<Longrightarrow> seg_matches rx s '''' \<Longrightarrow> mayBeEmpty s"
  by (cases "rxCompile rx (s_constraint s)") (auto simp: mayBeEmpty_def seg_matches_def seg_ok_def split: if_splits)

lemma Join_nonempty: "2 \<le> length ws \<Longrightarrow> Join ws ''/'' \<noteq> ''''"
  by (cases "(ws, ''/'')" rule: Join.cases) auto

lemma literal_parts:
  "\<not> list_ex s_variable tail \<Longrightarrow> list_all2 (seg_matches rx) tail ws \<Longrightarrow> ws = map s_text tail"
proof (induction tail arbitrary: ws)
  case (Cons a tail)
  then show ?case by (cases ws) (auto simp: seg_matches_def)
qed simp

lemma list_all2_single: "list_all2 P xs ys \<Longrightarrow> length xs = 1 \<Longrightarrow> \<exists>y. ys = [y] \<and> P (xs ! 0) y"
  by (cases xs; cases ys) auto

lemma coversTail_sound:
  assumes laws: "regexp_laws rx" and ok: "seg_ok rx s" "\<forall>b \<in> set tail. seg_ok rx b"
    and c: "s_catchAll s" "coversTail s tail"
    and m: "list_all2 (seg_matches rx) tail ws" "tail \<noteq> []" and nl: "newline \<notin> set (Join ws ''/'')"
  shows "seg_matches rx s (Join ws ''/'')"
proof -
  have v: "s_variable s" "s_constraint s \<noteq> ''''" "s_re s = rxCompile rx (s_constraint s)" "rxParse rx (s_constraint s) \<noteq> None"
    using ok(1) c(1) by (auto simp: seg_ok_def admitsSlash_def split: option.splits)
  consider "s_constraint s = ''.*''" | "s_constraint s = ''.+''" | "s_constraint s \<noteq> ''.*''" "s_constraint s \<noteq> ''.+''" by blast
  then show ?thesis
  proof cases
    case 1
    with v regexp_laws_dot(1) [OF laws nl] show ?thesis by (auto simp: seg_matches_def)
  next
    case 2
    have "Join ws ''/'' \<noteq> ''''"
    proof (cases "length tail = 1")
      case True
      with list_all2_single [OF m(1)] obtain w where w: "ws = [w]" "seg_matches rx (tail ! 0) w" by blast
      have "tail ! 0 \<in> set tail" using True by simp
      with 2 c(2) True w ok(2) mayBeEmpty_sound [of rx "tail ! 0"] show ?thesis by (auto simp: coversTail_def)
    next
      case False
      moreover have "length ws = length tail" and "0 < length tail" using m by (auto dest: list_all2_lengthD)
      ultimately have "2 \<le> length ws" by linarith
      then show ?thesis by (rule Join_nonempty)
    qed
    with 2 v regexp_laws_dot(2) [OF laws nl] show ?thesis by (auto simp: seg_matches_def)
  next
    case 3
    with c(2) v(3) obtain f where f: "s_re s = Some f" "rxCompile rx (s_constraint s) = Some f"
      by (cases "rxCompile rx (s_constraint s)") (simp_all add: coversTail_def)
    show ?thesis
    proof (cases "length tail = 1 \<and> s_catchAll (tail ! 0)")
      case True
      with list_all2_single [OF m(1)] obtain w where w: "ws = [w]" "seg_matches rx (tail ! 0) w" by blast
      have "tail ! 0 \<in> set tail" using True by simp
      with True ok(2) have "s_variable (tail ! 0)" by (auto simp: seg_ok_def)
      with True 3 c(2) f w v(1,2,4) show ?thesis by (simp add: coversTail_def seg_matches_def)
    next
      case False
      with 3 c(2) f have l: "\<not> list_ex s_variable tail" "f (Join (map s_text tail) ''/'')"
        by (simp_all add: coversTail_def split: if_splits)
      with literal_parts [OF l(1) m(1)] v(1,2,4) f(2) show ?thesis by (simp add: seg_matches_def)
    qed
  qed
qed

text \<open>The segments of a rule: well-formed, and with patterns of their own.\<close>

definition rule_segs :: "go_regexp \<Rightarrow> pathSegment list \<Rightarrow> bool" where
  "rule_segs rx as \<longleftrightarrow> (\<forall>a \<in> set as. seg_ok rx a \<and> (s_re a \<noteq> None \<longrightarrow> rxParse rx (s_constraint a) \<noteq> None) \<and>
     (s_variable a \<longleftrightarrow> CHR ''{'' \<in> set (s_text a)))"

definition route_segs :: "go_regexp \<Rightarrow> pathSegment list \<Rightarrow> bool" where
  "route_segs rx bs \<longleftrightarrow> (\<forall>b \<in> set bs. seg_ok rx b \<and> (s_variable b \<longleftrightarrow> CHR ''{'' \<in> set (s_text b)))"

lemma Join_Cons: "ws \<noteq> [] \<Longrightarrow> Join (w # ws) sep = w @ sep @ Join ws sep"
  by (cases ws) auto

lemma cover_loop_sound:
  assumes "regexp_laws rx"
  shows "cover_loop as bs \<Longrightarrow> rule_segs rx as \<Longrightarrow> route_segs rx bs \<Longrightarrow> list_all2 (seg_matches rx) bs ws \<Longrightarrow>
    newline \<notin> set (Join ws ''/'') \<Longrightarrow> \<exists>vs. list_all2 (seg_matches rx) as vs \<and> Join vs ''/'' = Join ws ''/''"
proof (induction as bs arbitrary: ws rule: cover_loop.induct)
  case (1 a as b bs)
  obtain w ws' where ws: "ws = w # ws'" "seg_matches rx b w" "list_all2 (seg_matches rx) bs ws'"
    using "1.prems"(4) by (cases ws) auto
  show ?case
  proof (cases "s_catchAll a")
    case True
    with "1.prems" have "as = []" "seg_matches rx a (Join ws ''/'')"
      using coversTail_sound [OF assms _ _ True, of "b # bs" ws] by (auto simp: rule_segs_def route_segs_def)
    then show ?thesis by (intro exI [of _ "[Join ws ''/'']"]) simp
  next
    case False
    with "1.prems" have c: "seg_covers a b" "cover_loop as bs" by (simp_all split: if_splits)
    have "seg_matches rx a w"
      using "1.prems"(2,3) ws(2) by (intro seg_covers_sound [OF assms _ _ c(1)]) (auto simp: rule_segs_def route_segs_def)
    moreover have "newline \<notin> set (Join ws' ''/'')" using "1.prems"(5) ws(1) by (cases ws') auto
    then obtain vs where vs: "list_all2 (seg_matches rx) as vs" "Join vs ''/'' = Join ws' ''/''"
      using "1.IH" [OF False _ c(2) _ _ ws(3)] c(1) "1.prems"(2,3) by (auto simp: rule_segs_def route_segs_def)
    moreover have "vs = [] \<longleftrightarrow> ws' = []"
      using c(2) vs(1) ws(3) by (cases as; cases bs; cases vs; cases ws') (auto split: if_splits)
    ultimately show ?thesis
      unfolding ws(1) by (intro exI [of _ "w # vs"]) (cases "ws' = []"; simp add: Join_Cons)
  qed
qed auto

lemma Join_no_slash_eq:
  assumes "Join (w # ws) ''/'' = Join (v # vs) ''/''" and "CHR ''/'' \<notin> set w" and "CHR ''/'' \<notin> set v"
  shows "w = v \<and> (ws = [] \<longleftrightarrow> vs = []) \<and> Join ws ''/'' = Join vs ''/''"
proof -
  have cut: "takeWhile (\<lambda>c. c \<noteq> CHR ''/'') (Join (x # xs) ''/'') = x" if "CHR ''/'' \<notin> set x" for x xs
  proof -
    have "takeWhile (\<lambda>c. c \<noteq> CHR ''/'') (x @ CHR ''/'' # r) = x" "takeWhile (\<lambda>c. c \<noteq> CHR ''/'') x = x" for r
      using that by (induction x) auto
    then show ?thesis by (cases xs) auto
  qed
  from cut [OF assms(2), of ws] cut [OF assms(3), of vs] assms(1) have wv: "w = v" by simp
  with assms(1) show ?thesis by (cases ws; cases vs) auto
qed

lemma mayMatch_sound:
  assumes "seg_ok rx a" "seg_ok rx b" "seg_matches rx a w" "seg_matches rx b w"
  shows "mayMatch a b"
  using assms
  by (cases "rxCompile rx (s_constraint a)"; cases "rxCompile rx (s_constraint b)")
    (auto simp: mayMatch_def seg_matches_def matchesLiteral_def seg_ok_def Contains_char split: if_splits)

lemma overlap_loop_sound:
  assumes "regexp_laws rx"
  shows "route_segs rx as \<Longrightarrow> route_segs rx bs \<Longrightarrow> list_all2 (seg_matches rx) as vs \<Longrightarrow> list_all2 (seg_matches rx) bs ws \<Longrightarrow>
    Join vs ''/'' = Join ws ''/'' \<Longrightarrow> (vs = [] \<longleftrightarrow> ws = []) \<Longrightarrow> overlap_loop as bs"
proof (induction as bs arbitrary: vs ws rule: overlap_loop.induct)
  case (1 a as b bs)
  obtain v vs' where v: "vs = v # vs'" "seg_matches rx a v" "list_all2 (seg_matches rx) as vs'"
    using "1.prems"(3) by (cases vs) auto
  obtain w ws' where w: "ws = w # ws'" "seg_matches rx b w" "list_all2 (seg_matches rx) bs ws'"
    using "1.prems"(4) by (cases ws) auto
  have ok: "seg_ok rx a" "seg_ok rx b" using "1.prems"(1,2) by (simp_all add: route_segs_def)
  show ?case
  proof (cases "s_catchAll a \<or> s_catchAll b")
    case False
    then have "CHR ''/'' \<notin> set v" "CHR ''/'' \<notin> set w"
      using no_slash [OF assms ok(1) v(2)] no_slash [OF assms ok(2) w(2)] by simp_all
    with Join_no_slash_eq [of v vs' w ws'] "1.prems"(5) v(1) w(1)
    have e: "v = w" "vs' = [] \<longleftrightarrow> ws' = []" "Join vs' ''/'' = Join ws' ''/''" by auto
    have mm: "mayMatch a b" using mayMatch_sound [OF ok v(2)] w(2) e(1) by simp
    moreover have "overlap_loop as bs"
      using "1.IH" [OF False _ _ _ v(3) w(3) e(3,2)] "1.prems"(1,2) mm by (simp add: route_segs_def)
    ultimately show ?thesis by simp
  qed simp
qed auto

section \<open>Lemmas: rules and routes\<close>

text \<open>A request, by method and path, is matched by a rule or served by a route.\<close>

definition entry_matches :: "go_regexp \<Rightarrow> string \<Rightarrow> string \<Rightarrow> string \<Rightarrow> string \<Rightarrow> bool" where
  "entry_matches rx M tpl meth p \<longleftrightarrow> (M = anyMethod \<or> M = meth) \<and> template_matches rx tpl p"

lemma entry_route_segs: "route_segs rx (e_segments (newEntry rx M tpl))"
proof -
  have "s_variable (newSegment rx t) = (CHR ''{'' \<in> set (s_text (newSegment rx t)))" for t
    by (simp add: newSegment_def Let_def Contains_char)
  then show ?thesis by (auto simp: route_segs_def newEntry_def newSegment_ok)
qed

lemma own_patterns_parse:
  "own_patterns rx tpl \<Longrightarrow> \<forall>t \<in> set (splitPatternSegments tpl). rxCompile rx (segmentPattern t) \<noteq> None \<longrightarrow> rxParse rx (segmentPattern t) \<noteq> None"
  by (auto simp: own_patterns_def split: option.splits)

lemma entry_rule_segs: "own_patterns rx tpl \<Longrightarrow> rule_segs rx (e_segments (newEntry rx M tpl))"
proof -
  have "s_re (newSegment rx t) \<noteq> None \<Longrightarrow> s_constraint (newSegment rx t) = segmentPattern t \<and> rxCompile rx (segmentPattern t) \<noteq> None" for t
    by (auto simp: newSegment_def Let_def compile_constraint_def split: if_splits option.splits)
  then show "own_patterns rx tpl \<Longrightarrow> ?thesis"
    using entry_route_segs [of rx M tpl] own_patterns_parse [of rx tpl]
    by (fastforce simp: rule_segs_def route_segs_def newEntry_def split: if_splits)
qed

lemma split_segments_not_Nil [simp]: "split_segments d c t \<noteq> []"
  by (induction d c t rule: split_segments.induct) auto

lemma entry_segments: "e_segments (newEntry rx M tpl) = [] \<longleftrightarrow> tpl = ''''"
  by (simp add: newEntry_def splitPatternSegments_def)

lemma template_matches_entry:
  "template_matches rx tpl p \<longleftrightarrow> e_segments (newEntry rx M tpl) \<noteq> [] \<and>
     (\<exists>ws. list_all2 (seg_matches rx) (e_segments (newEntry rx M tpl)) ws \<and> p = Join ws ''/'')"
  using entry_segments [of rx M tpl] by (auto simp: template_matches_def newEntry_def)

lemma covers_sound:
  assumes "regexp_laws rx" and "own_patterns rx tpl" and "covers (newEntry rx M tpl) (newEntry rx N tpl')"
    and "entry_matches rx N tpl' meth p" and "newline \<notin> set p"
  shows "entry_matches rx M tpl meth p"
proof -
  have M: "M = anyMethod \<or> M = N" and c: "cover_loop (e_segments (newEntry rx M tpl)) (e_segments (newEntry rx N tpl'))"
    "e_segments (newEntry rx M tpl) \<noteq> []"
    using assms(3) by (auto simp: covers_def segmentsCover_def newEntry_def split: if_splits)
  obtain ws where ws: "list_all2 (seg_matches rx) (e_segments (newEntry rx N tpl')) ws" "p = Join ws ''/''"
    using assms(4) template_matches_entry [of rx tpl' p N] by (auto simp: entry_matches_def)
  from cover_loop_sound [OF assms(1) c(1) entry_rule_segs [OF assms(2)] entry_route_segs ws(1)] ws(2) assms(5) c(2)
  have "template_matches rx tpl p" unfolding template_matches_entry [of rx tpl p M] by metis
  with M assms(4) show ?thesis by (auto simp: entry_matches_def)
qed

lemma overlaps_sound:
  assumes "regexp_laws rx" and "entry_matches rx M tpl meth p" and "entry_matches rx N tpl' meth p"
  shows "overlaps (newEntry rx M tpl) (newEntry rx N tpl')"
proof -
  let ?a = "e_segments (newEntry rx M tpl)" and ?b = "e_segments (newEntry rx N tpl')"
  obtain vs ws where "?a \<noteq> []" "?b \<noteq> []" and m: "list_all2 (seg_matches rx) ?a vs" "list_all2 (seg_matches rx) ?b ws"
    "Join vs ''/'' = Join ws ''/''"
    using assms(2,3) template_matches_entry [of rx tpl p M] template_matches_entry [of rx tpl' p N]
    by (auto simp: entry_matches_def)
  moreover from this have "vs = [] \<longleftrightarrow> ws = []" by auto
  ultimately have "segmentsOverlap ?a ?b"
    using overlap_loop_sound [OF assms(1) entry_route_segs entry_route_segs m] by (simp add: segmentsOverlap_def)
  with assms(2,3) show ?thesis by (auto simp: overlaps_def newEntry_def entry_matches_def)
qed

section \<open>Lemmas: the report\<close>

definition route_entry :: "go_regexp \<Rightarrow> Route \<Rightarrow> checkEntry" where
  "route_entry rx rt = newEntry rx (ToUpper (r_Method rt)) (r_Path rt)"

definition overlapping_labels :: "check_rule list \<Rightarrow> checkEntry \<Rightarrow> string list" where
  "overlapping_labels rs en = map (\<lambda>r. e_label (cr_entry r)) (filter (\<lambda>r. overlaps (cr_entry r) en) rs)"

lemma markLiveRules_eq:
  "length ls = length rs \<Longrightarrow> markLiveRules rs en ls = map2 (\<lambda>r l. l \<or> overlaps (cr_entry r) en) rs ls"
  by (induction rs en ls rule: markLiveRules.induct) auto

lemma classify_loop_live:
  "length ls = length rs \<Longrightarrow> fst (classify_loop rs en ls cov ov) = map2 (\<lambda>r l. l \<or> overlaps (cr_entry r) en) rs ls"
  by (induction rs en ls cov ov rule: classify_loop.induct) (auto split: prod.splits)

lemma classify_loop_covered:
  "length ls = length rs \<Longrightarrow> classify_loop rs en ls cov ov = (ls', cov', ov') \<Longrightarrow>
   (cov' \<longleftrightarrow> cov \<or> (\<exists>r \<in> set rs. overlaps (cr_entry r) en \<and> covers (cr_entry r) en)) \<and>
   (\<not> cov' \<longrightarrow> ov' = ov @ overlapping_labels rs en)"
proof (induction rs en ls cov ov arbitrary: ls' cov' ov' rule: classify_loop.induct)
  case (1 r rs en l ls cov ov)
  show ?case
  proof (cases "overlaps (cr_entry r) en")
    case True
    let ?cov = "cov \<or> covers (cr_entry r) en" and ?ov = "if cov \<or> covers (cr_entry r) en then ov else ov @ [e_label (cr_entry r)]"
    obtain ls'' where "classify_loop rs en ls ?cov ?ov = (ls'', cov', ov')"
      using "1.prems"(2) True by (auto split: prod.splits)
    from "1.IH"(2) [OF _ _ this] "1.prems"(1) True show ?thesis by (auto simp: overlapping_labels_def)
  next
    case False
    then obtain ls'' where "classify_loop rs en ls cov ov = (ls'', cov', ov')"
      using "1.prems"(2) by (auto split: prod.splits)
    from "1.IH"(1) [OF False _ this] "1.prems"(1) False show ?thesis by (auto simp: overlapping_labels_def)
  qed
qed (auto simp: overlapping_labels_def)

lemma classifyRoute_eq:
  assumes "length live = length rs"
  shows "classifyRoute rs en live =
    (if \<exists>r \<in> set rs. overlaps (cr_entry r) en \<and> covers (cr_entry r) en then Some []
     else if overlapping_labels rs en = [] then None else Some (overlapping_labels rs en),
     map2 (\<lambda>r l. l \<or> overlaps (cr_entry r) en) rs live)"
proof -
  obtain ls cov ov where c: "classify_loop rs en live False [] = (ls, cov, ov)" by (metis prod.collapse)
  from classify_loop_covered [OF assms c] classify_loop_live [OF assms, of en False "[]"] c show ?thesis
    by (auto simp: classifyRoute_def)
qed

definition fully_covered :: "check_rule list \<Rightarrow> checkEntry \<Rightarrow> bool" where
  "fully_covered rs en \<longleftrightarrow> (\<exists>r \<in> set rs. overlaps (cr_entry r) en \<and> covers (cr_entry r) en)"

definition partial_entry :: "check_rule list \<Rightarrow> checkEntry \<Rightarrow> PartialCoverage" where
  "partial_entry rs en = \<lparr>pc_Route = e_label en, pc_Rules = sortedUnique (overlapping_labels rs en)\<rparr>"

lemma map2_or_twice:
  "length ls = length rs \<Longrightarrow>
   map2 (\<lambda>r l. l \<or> Q r) rs (map2 (\<lambda>r l. l \<or> P r) rs ls) = map2 (\<lambda>r l. l \<or> P r \<or> Q r) rs ls"
proof (induction rs arbitrary: ls)
  case (Cons r rs)
  then show ?case by (cases ls) auto
qed simp

lemma check_routes_eq:
  assumes "length live = length rs"
  shows "check_routes rx rs rts live unc part =
    (map2 (\<lambda>r l. l \<or> (\<exists>rt \<in> set rts. overlaps (cr_entry r) (route_entry rx rt))) rs live,
     unc @ map (\<lambda>rt. e_label (route_entry rx rt))
       (filter (\<lambda>rt. \<not> r_BuiltIn rt \<and> \<not> fully_covered rs (route_entry rx rt) \<and> overlapping_labels rs (route_entry rx rt) = []) rts),
     part @ map (\<lambda>rt. partial_entry rs (route_entry rx rt))
       (filter (\<lambda>rt. \<not> r_BuiltIn rt \<and> \<not> fully_covered rs (route_entry rx rt) \<and> overlapping_labels rs (route_entry rx rt) \<noteq> []) rts))"
  using assms
proof (induction rts arbitrary: live unc part)
  case Nil
  then have "map2 (\<lambda>r l. l) rs live = live"
    by (induction rs arbitrary: live) (auto simp: length_Suc_conv split: list.splits)
  then show ?case by simp
next
  case (Cons rt rts)
  let ?en = "route_entry rx rt"
  let ?live = "map2 (\<lambda>r l. l \<or> overlaps (cr_entry r) ?en) rs live"
  have len: "length ?live = length rs" using Cons.prems by simp
  have live: "map2 (\<lambda>r l. l \<or> (\<exists>rt' \<in> set rts. overlaps (cr_entry r) (route_entry rx rt'))) rs ?live =
      map2 (\<lambda>r l. l \<or> (\<exists>rt' \<in> set (rt # rts). overlaps (cr_entry r) (route_entry rx rt'))) rs live"
    using map2_or_twice [OF Cons.prems] by simp
  note ih = Cons.IH [OF len, unfolded live]
  show ?case
  proof (cases "r_BuiltIn rt")
    case True
    then show ?thesis
      using ih markLiveRules_eq [OF Cons.prems, of ?en] by (simp add: Let_def flip: route_entry_def)
  next
    case False
    consider "fully_covered rs ?en" | "\<not> fully_covered rs ?en" "overlapping_labels rs ?en = []"
      | x xs where "\<not> fully_covered rs ?en" "overlapping_labels rs ?en = x # xs" by (meson list.exhaust)
    then show ?thesis
    proof cases
      case 1
      then show ?thesis
        using False ih classifyRoute_eq [OF Cons.prems, of ?en, folded fully_covered_def] by (simp add: Let_def flip: route_entry_def)
    next
      case 2
      then show ?thesis
        using False ih classifyRoute_eq [OF Cons.prems, of ?en, folded fully_covered_def] by (simp add: Let_def flip: route_entry_def)
    next
      case 3
      then show ?thesis
        using False ih classifyRoute_eq [OF Cons.prems, of ?en, folded fully_covered_def]
        by (simp add: Let_def partial_entry_def flip: route_entry_def)
    qed
  qed
qed

lemma sortedUnique_set [simp]: "set (sortedUnique xs) = set xs"
  by (simp add: sortedUnique_def)

lemma sorted_remdups_adj_distinct: "sorted (xs :: 'a :: linorder list) \<Longrightarrow> distinct (remdups_adj xs)"
proof (induction xs rule: remdups_adj.induct)
  case (3 x y xs)
  then show ?case by (auto simp: order.antisym)
qed auto

lemma sortedUnique_distinct [simp]: "distinct (sortedUnique xs)"
  by (simp add: sortedUnique_def sorted_remdups_adj_distinct)

lemma compact_by_image: "f ` set (compact_by f xs) = f ` set xs"
  by (induction f xs rule: compact_by.induct) auto

lemma compact_by_set: "set (compact_by f xs) \<subseteq> set xs"
  by (induction f xs rule: compact_by.induct) auto

lemma compact_by_distinct: "sorted (map f xs) \<Longrightarrow> distinct (map f (compact_by f xs))"
proof (induction f xs rule: compact_by.induct)
  case (3 f x y xs)
  have "f ` set (compact_by f (y # xs)) = f ` set (y # xs)" by (rule compact_by_image)
  with 3 show ?case by (auto simp: order.antisym)
qed auto

lemma sortedByRoute_routes [simp]: "pc_Route ` set (sortedByRoute ps) = pc_Route ` set ps"
  by (simp add: sortedByRoute_def compact_by_image)

lemma sortedByRoute_distinct [simp]: "distinct (map pc_Route (sortedByRoute ps))"
  by (simp add: sortedByRoute_def compact_by_distinct)

lemma buildRules_declared:
  assumes "r \<in> set (buildRules rx es)"
  shows "\<exists>(e, M) \<in> set (declarations es). r = \<lparr>cr_entry = newEntry rx M (Path e), cr_public = Public e\<rparr>"
proof -
  have "r \<in> set (rules_loop rx ds rs index) \<Longrightarrow>
    r \<in> set rs \<or> (\<exists>(e, M) \<in> set ds. r = \<lparr>cr_entry = newEntry rx M (Path e), cr_public = Public e\<rparr>)" for ds rs index
    by (induction rx ds rs index rule: rules_loop.induct)
      (auto simp: Let_def split: option.splits dest: subsetD [OF set_update_subset_insert])
  from this [of "declarations es" "[]"] assms show ?thesis by (simp add: buildRules_def)
qed

text \<open>The report of one configuration, as sets.\<close>

lemma Check_Uncovered:
  "k \<in> set (Uncovered (Check rx es rts)) \<longleftrightarrow>
    (\<exists>rt \<in> set rts. \<not> r_BuiltIn rt \<and> k = e_label (route_entry rx rt) \<and> \<not> fully_covered (buildRules rx es) (route_entry rx rt) \<and>
      overlapping_labels (buildRules rx es) (route_entry rx rt) = [])"
  by (auto simp: Check_def Let_def check_routes_eq)

lemma Check_PartlyCovered:
  "k \<in> pc_Route ` set (PartlyCovered (Check rx es rts)) \<longleftrightarrow>
    (\<exists>rt \<in> set rts. \<not> r_BuiltIn rt \<and> k = e_label (route_entry rx rt) \<and> \<not> fully_covered (buildRules rx es) (route_entry rx rt) \<and>
      overlapping_labels (buildRules rx es) (route_entry rx rt) \<noteq> [])"
  by (force simp: Check_def Let_def check_routes_eq partial_entry_def)

lemma dead_labels_set:
  assumes "length live = length rs"
  shows "k \<in> set (dead_labels pub rs (map2 (\<lambda>r l. l \<or> P r) rs live)) \<Longrightarrow>
    \<exists>r \<in> set rs. \<not> P r \<and> cr_public r = pub \<and> k = e_label (cr_entry r)"
  using assms by (auto simp: dead_labels_def in_set_zip intro!: bexI [of _ "rs ! _"])

lemma Check_dead:
  assumes "k \<in> set (if pub then DeadPublicRules (Check rx es rts) else DeadRules (Check rx es rts))"
  shows "\<exists>r \<in> set (buildRules rx es). (\<forall>rt \<in> set rts. \<not> overlaps (cr_entry r) (route_entry rx rt)) \<and>
    cr_public r = pub \<and> k = e_label (cr_entry r)"
proof -
  let ?rs = "buildRules rx es"
  have "k \<in> set (dead_labels pub ?rs (map2 (\<lambda>r l. l \<or> (\<exists>rt \<in> set rts. overlaps (cr_entry r) (route_entry rx rt))) ?rs (replicate (length ?rs) False)))"
    using assms by (cases pub) (simp_all add: Check_def Let_def check_routes_eq)
  from dead_labels_set [OF _ this] show ?thesis by simp
qed

text \<open>Routes with the same label are the same route, if no method has a space in it.\<close>

lemma label_entry:
  assumes "CHR '' '' \<notin> set (r_Method rt)" "CHR '' '' \<notin> set (r_Method rt')" "e_label (route_entry rx rt) = e_label (route_entry rx rt')"
  shows "route_entry rx rt = route_entry rx rt'"
proof -
  have up: "CHR '' '' \<notin> set (ToUpper m)" if "CHR '' '' \<notin> set m" for m
    using that by (rule ToUpper_free) simp
  have "takeWhile (\<lambda>c. c \<noteq> CHR '' '') (m @ '' '' @ p) = m" if "CHR '' '' \<notin> set m" for m p
    using that by (induction m) auto
  with assms up have "ToUpper (r_Method rt) = ToUpper (r_Method rt')" "r_Path rt = r_Path rt'"
    by (auto simp: route_entry_def newEntry_def) (metis append_Cons append_Nil same_append_eq list.inject)+
  then show ?thesis by (simp add: route_entry_def)
qed

section \<open>Lemmas: several configurations\<close>

definition gaps_ok :: "gap_maps \<Rightarrow> bool" where
  "gaps_ok g \<longleftrightarrow> set (g_keys g) = {k. 0 < g_gaps g k}"

lemma gap_key_ok: "gaps_ok g \<Longrightarrow> gaps_ok (gap_key k g)"
  by (auto simp: gaps_ok_def gap_key_def)

lemma gap_uncovered_fold:
  "gaps_ok g \<Longrightarrow> gaps_ok (fold gap_uncovered us g) \<and> g_gaps (fold gap_uncovered us g) k = g_gaps g k + count_list us k \<and>
   g_unc (fold gap_uncovered us g) k = g_unc g k + count_list us k"
proof (induction us arbitrary: g)
  case (Cons u us)
  have "gaps_ok (gap_uncovered u g)" using gap_key_ok [OF Cons.prems, of u] by (simp add: gaps_ok_def gap_uncovered_def)
  from Cons.IH [OF this] show ?case by (auto simp: gap_uncovered_def gap_key_def)
qed simp

lemma gap_partly_fold:
  "gaps_ok g \<Longrightarrow> gaps_ok (fold (gap_partly i) ps g) \<and>
   g_gaps (fold (gap_partly i) ps g) k = g_gaps g k + count_list (map pc_Route ps) k \<and>
   g_unc (fold (gap_partly i) ps g) k = g_unc g k"
proof (induction ps arbitrary: g)
  case (Cons p ps)
  have "gaps_ok (gap_partly i p g)" using gap_key_ok [OF Cons.prems, of "pc_Route p"] by (simp add: gaps_ok_def gap_partly_def)
  from Cons.IH [OF this] show ?case by (auto simp: gap_partly_def gap_key_def)
qed simp

lemma count_list_distinct: "distinct xs \<Longrightarrow> count_list xs k = (if k \<in> set xs then 1 else 0)"
  by (induction xs) auto

text \<open>In a well-formed report a route occurs once.\<close>

definition report_ok :: "Mismatches \<Rightarrow> bool" where
  "report_ok m \<longleftrightarrow> distinct (Uncovered m) \<and> distinct (map pc_Route (PartlyCovered m)) \<and>
     set (Uncovered m) \<inter> pc_Route ` set (PartlyCovered m) = {}"

definition has_gap :: "string \<Rightarrow> Mismatches \<Rightarrow> bool" where
  "has_gap k m \<longleftrightarrow> k \<in> set (Uncovered m) \<or> k \<in> pc_Route ` set (PartlyCovered m)"

lemma gap_results_count:
  "\<forall>m \<in> set ms. report_ok m \<Longrightarrow> gaps_ok g \<Longrightarrow> gaps_ok (gap_results i ms g) \<and>
   g_gaps (gap_results i ms g) k = g_gaps g k + length (filter (has_gap k) ms) \<and>
   g_unc (gap_results i ms g) k = g_unc g k + length (filter (\<lambda>m. k \<in> set (Uncovered m)) ms)"
proof (induction i ms g rule: gap_results.induct)
  case (2 i m ms g)
  let ?g1 = "fold gap_uncovered (Uncovered m) g" and ?g2 = "fold (gap_partly i) (PartlyCovered m) (fold gap_uncovered (Uncovered m) g)"
  note u = gap_uncovered_fold [OF "2.prems"(2), of "Uncovered m"]
  note p = gap_partly_fold [of ?g1 i "PartlyCovered m", OF conjunct1 [OF u]]
  have m: "report_ok m" using "2.prems"(1) by simp
  have "count_list (Uncovered m) k + count_list (map pc_Route (PartlyCovered m)) k = (if has_gap k m then 1 else 0)"
    "count_list (Uncovered m) k = (if k \<in> set (Uncovered m) then 1 else 0)"
    using m by (auto simp: report_ok_def has_gap_def count_list_distinct)
  with u p "2.IH" "2.prems"(1) show ?case by (auto simp: add.assoc)
qed simp

lemma filter_all: "length (filter P xs) = length xs \<longleftrightarrow> (\<forall>x \<in> set xs. P x)"
  by (metis filter_id_conv filter_True length_filter_less less_irrefl)

lemma commonGaps_sets:
  assumes "\<forall>m \<in> set results. report_ok m" and "results \<noteq> []"
  shows "k \<in> set (fst (commonGaps results)) \<longleftrightarrow> (\<forall>m \<in> set results. k \<in> set (Uncovered m))"
    and "k \<in> pc_Route ` set (snd (commonGaps results)) \<longleftrightarrow>
      (\<forall>m \<in> set results. has_gap k m) \<and> (\<exists>m \<in> set results. k \<notin> set (Uncovered m))"
proof -
  let ?start = "\<lparr>g_gaps = (\<lambda>_. 0), g_partly = (\<lambda>_. []), g_unc = (\<lambda>_. 0), g_keys = []\<rparr>"
  let ?g = "gap_results 0 results ?start" and ?n = "length results"
  have "gaps_ok ?start" by (simp add: gaps_ok_def)
  note c = gap_results_count [OF assms(1) this, of 0]
  have ge: "\<not> g_gaps ?g k < ?n \<longleftrightarrow> (\<forall>m \<in> set results. has_gap k m)" for k
  proof -
    have "g_gaps ?g k = length (filter (has_gap k) results)" using c [of k] by simp
    then have "\<not> g_gaps ?g k < ?n \<longleftrightarrow> length (filter (has_gap k) results) = ?n"
      using length_filter_le [of "has_gap k" results] by (metis antisym_conv1 less_irrefl)
    then show ?thesis by (simp only: filter_all)
  qed
  have un: "g_unc ?g k = ?n \<longleftrightarrow> (\<forall>m \<in> set results. k \<in> set (Uncovered m))" for k
    using c [of k] filter_all [of "\<lambda>m. k \<in> set (Uncovered m)" results] by simp
  have keys: "\<not> g_gaps ?g k < ?n \<Longrightarrow> k \<in> set (g_keys ?g)" for k
    using c [of k] assms(2) by (cases results) (auto simp: gaps_ok_def)
  show "k \<in> set (fst (commonGaps results)) \<longleftrightarrow> (\<forall>m \<in> set results. k \<in> set (Uncovered m))"
    using ge [of k] un [of k] keys [of k] by (auto simp: commonGaps_def Let_def has_gap_def)
  show "k \<in> pc_Route ` set (snd (commonGaps results)) \<longleftrightarrow>
      (\<forall>m \<in> set results. has_gap k m) \<and> (\<exists>m \<in> set results. k \<notin> set (Uncovered m))"
    using ge [of k] un [of k] keys [of k] by (auto simp: commonGaps_def Let_def image_image simp del: not_less)
qed

text \<open>No method of a route has a space, so that a label stands for one route.\<close>

definition plain_routes :: "Route list \<Rightarrow> bool" where
  "plain_routes rts \<longleftrightarrow> (\<forall>rt \<in> set rts. CHR '' '' \<notin> set (r_Method rt))"

lemma Check_report_ok:
  assumes "plain_routes rts" shows "report_ok (Check rx es rts)"
proof -
  have "distinct (Uncovered (Check rx es rts))" "distinct (map pc_Route (PartlyCovered (Check rx es rts)))"
    by (simp_all add: Check_def Let_def split: prod.splits)
  moreover have "set (Uncovered (Check rx es rts)) \<inter> pc_Route ` set (PartlyCovered (Check rx es rts)) = {}"
  proof (intro equals0I, elim IntE)
    fix k assume "k \<in> set (Uncovered (Check rx es rts))" "k \<in> pc_Route ` set (PartlyCovered (Check rx es rts))"
    then obtain rt rt' where "rt \<in> set rts" "rt' \<in> set rts" "e_label (route_entry rx rt) = e_label (route_entry rx rt')"
      "overlapping_labels (buildRules rx es) (route_entry rx rt) = []" "overlapping_labels (buildRules rx es) (route_entry rx rt') \<noteq> []"
      unfolding Check_Uncovered Check_PartlyCovered by blast
    moreover from this have "route_entry rx rt = route_entry rx rt'"
      using assms by (intro label_entry) (simp_all add: plain_routes_def)
    ultimately show False by simp
  qed
  ultimately show ?thesis by (simp add: report_ok_def)
qed

lemma Check_has_gap:
  "has_gap k (Check rx es rts) \<longleftrightarrow>
    (\<exists>rt \<in> set rts. \<not> r_BuiltIn rt \<and> k = e_label (route_entry rx rt) \<and> \<not> fully_covered (buildRules rx es) (route_entry rx rt))"
  unfolding has_gap_def Check_Uncovered Check_PartlyCovered by blast

lemma CheckAll_has_gap:
  assumes "plain_routes rts" and "configs \<noteq> []"
  shows "has_gap k (CheckAll rx configs rts) \<longleftrightarrow> (\<forall>es \<in> set configs. has_gap k (Check rx es rts))"
proof (cases "length configs = 1")
  case True
  then obtain es where "configs = [es]" by (cases configs) auto
  then show ?thesis by (simp add: CheckAll_def Let_def)
next
  case False
  let ?rs = "map (\<lambda>es. Check rx es rts) configs"
  have "\<forall>m \<in> set ?rs. report_ok m" using Check_report_ok [OF assms(1)] by simp
  note s = commonGaps_sets [OF this, of k]
  have "has_gap k (CheckAll rx configs rts) \<longleftrightarrow> k \<in> set (fst (commonGaps ?rs)) \<or> k \<in> pc_Route ` set (snd (commonGaps ?rs))"
    using False by (simp add: CheckAll_def Let_def has_gap_def split: prod.splits)
  with s assms(2) show ?thesis by (auto simp: has_gap_def)
qed

lemma rules_loop_labels:
  assumes "\<forall>l i. index l = Some i \<longleftrightarrow> i < length rs \<and> e_label (cr_entry (rs ! i)) = l"
  shows "distinct (map (\<lambda>r. e_label (cr_entry r)) (rules_loop rx ds rs index))"
  using assms
proof (induction rx ds rs index rule: rules_loop.induct)
  case (1 rx rs index)
  have "i = j" if "i < length rs" "j < length rs" "e_label (cr_entry (rs ! i)) = e_label (cr_entry (rs ! j))" for i j
    using that 1 by (metis option.inject)
  then show ?case by (auto simp: distinct_conv_nth)
next
  case (2 rx e M ds rs index)
  let ?r = "\<lparr>cr_entry = newEntry rx M (Path e), cr_public = Public e\<rparr>"
  show ?case
  proof (cases "index (e_label (cr_entry ?r))")
    case None
    have "\<forall>l i. (index(e_label (cr_entry ?r) \<mapsto> length rs)) l = Some i \<longleftrightarrow>
        i < length (rs @ [?r]) \<and> e_label (cr_entry ((rs @ [?r]) ! i)) = l"
      using "2.prems" None by (auto simp: nth_append less_Suc_eq) (metis option.distinct(1))
    from "2.IH"(1) [OF refl refl None this] None show ?thesis by (simp add: Let_def fun_upd_def)
  next
    case (Some at)
    have "\<forall>l i. index l = Some i \<longleftrightarrow> i < length (rs[at := ?r]) \<and> e_label (cr_entry (rs[at := ?r] ! i)) = l"
      using "2.prems" Some by (auto simp: nth_list_update)
    from "2.IH"(2) [OF refl refl Some this] Some show ?thesis by (simp add: Let_def)
  qed
qed

lemma buildRules_labels [simp]: "distinct (map (\<lambda>r. e_label (cr_entry r)) (buildRules rx es))"
  by (simp add: buildRules_def rules_loop_labels)

lemma dead_labels_disjoint: "set (dead_labels False (buildRules rx es) live) \<inter> set (dead_labels True (buildRules rx es) live) = {}"
proof -
  have "r = r'" if "(r, l) \<in> set (zip (buildRules rx es) live)" "(r', l') \<in> set (zip (buildRules rx es) live)"
    "e_label (cr_entry r) = e_label (cr_entry r')" for r r' l l'
    using that buildRules_labels [of rx es] by (auto simp: distinct_map dest!: set_zip_leftD inj_onD)
  then show ?thesis by (fastforce simp: dead_labels_def)
qed

lemma sortedUnique_sorted [simp]: "sorted_wrt (<) (sortedUnique xs)"
  using sortedUnique_distinct [of xs] by (simp add: strict_sorted_iff sortedUnique_def)

lemma compact_by_sorted: "sorted (map f xs) \<Longrightarrow> sorted (map f (compact_by f xs))"
proof (induction f xs rule: compact_by.induct)
  case (3 f x y xs)
  moreover have "set (compact_by f (y # xs)) \<subseteq> set (y # xs)" by (rule compact_by_set)
  ultimately show ?case by auto
qed simp_all

lemma sortedByRoute_sorted [simp]: "sorted_wrt (<) (map pc_Route (sortedByRoute ps))"
  using sortedByRoute_distinct [of ps] by (simp add: strict_sorted_iff sortedByRoute_def compact_by_sorted)

lemma check_routes_rules:
  "check_routes rx rs rts live unc part = (live', unc', part') \<Longrightarrow>
   \<forall>p \<in> set part. pc_Rules p \<noteq> [] \<and> sorted_wrt (<) (pc_Rules p) \<Longrightarrow> p \<in> set part' \<Longrightarrow> pc_Rules p \<noteq> [] \<and> sorted_wrt (<) (pc_Rules p)"
proof (induction rx rs rts live unc part rule: check_routes.induct)
  case (2 rx rs rt rts live unc part)
  have "sortedUnique (c # cs) \<noteq> []" for c cs by (simp add: sortedUnique_def)
  with 2 show ?case by (auto simp: Let_def split: if_splits prod.splits option.splits list.splits)
qed simp

section \<open>Lemmas: the rules of the resolver\<close>

lemma Join_split_segments: "Join (split_segments d cur p) ''/'' = rev cur @ p"
proof (induction d cur p rule: split_segments.induct)
  case (2 depth cur r rest)
  then show ?case by (auto simp: Join_Cons)
qed simp

lemma brace_loop_open: "CHR ''}'' \<notin> set t \<Longrightarrow> CHR ''{'' \<in> set t \<or> 0 < depth \<Longrightarrow> brace_loop i depth start groups t = None"
  by (induction i depth start groups t rule: brace_loop.induct) auto

lemma literal_template:
  assumes "regexp_laws rx" and "\<not> isMuxPattern tpl" and "template_matches rx tpl p"
  shows "p = tpl"
proof -
  let ?ts = "splitPatternSegments tpl"
  obtain ws where ws: "list_all2 (seg_matches rx) (map (newSegment rx) ?ts) ws" "p = Join ws ''/''"
    using assms(3) by (auto simp: template_matches_def)
  have chars: "set t \<subseteq> set tpl" if "t \<in> set ?ts" for t
    using split_segments_chars [of t 0 "[]" tpl] that by (simp add: splitPatternSegments_def)
  have lit: "CHR ''{'' \<notin> set t" if t: "t \<in> set ?ts" for t
  proof
    assume o: "CHR ''{'' \<in> set t"
    with chars [OF t] assms(2) have "CHR ''}'' \<notin> set t" by (auto simp: isMuxPattern_def Contains_char)
    with o have "segmentPattern t = invalidPattern"
      by (simp add: segmentPattern_def braceGroups_def brace_loop_open)
    with o assms(1) have "\<not> seg_matches rx (newSegment rx t) w" for w
      by (auto simp: seg_matches_def newSegment_def Contains_char Let_def invalidPattern_def regexp_laws_def)
    with ws(1) t show False by (metis in_set_conv_nth length_map list_all2_conv_all_nth nth_map)
  qed
  then have "\<not> list_ex s_variable (map (newSegment rx) ?ts)" "map s_text (map (newSegment rx) ?ts) = ?ts"
    by (auto simp: list_ex_iff newSegment_def Contains_char Let_def intro!: map_idI)
  with literal_parts [OF _ ws(1)] have "ws = ?ts" by simp
  with ws(2) Join_split_segments [of 0 "[]" tpl] show ?thesis by (simp add: splitPatternSegments_def)
qed

text \<open>A declaration that matches a request makes the scan find a rule.\<close>

lemma scan_finds_declared:
  assumes laws: "regexp_laws rx" and mux: "isMuxPattern (Path e) \<Longrightarrow> template_matches rx (Path e) p \<Longrightarrow> mux (Path e) meth p"
    and pm: "plain_methods es" and up: "ToUpper meth = meth"
    and d: "(e, M) \<in> set (declarations es)" and m: "entry_matches rx M (Path e) meth p"
  shows "\<exists>e' pub. resolveEndpoint mux meth p (buildEndpointRules es) = (Some e', pub)"
proof -
  have "decl_map ds m k \<noteq> None" if "m k \<noteq> None \<or> (\<exists>(e, M) \<in> set ds. k = buildEndpointKey e M)" for ds m k
    using that
  proof (induction ds arbitrary: m)
    case (Cons a ds)
    obtain e M where a: "a = (e, M)" by (rule prod.exhaust)
    show ?case unfolding a decl_map_Cons by (rule Cons.IH) (use Cons.prems a in auto)
  qed (simp add: decl_map_def)
  with d obtain e' N where l: "last_decl es (buildEndpointKey e M) = Some (e', N)" by (metis (mono_tags, lifting) case_prodI not_None_eq prod.collapse)
  note r = last_decl_rule [OF pm l]
  have "N = M" "Path e' = Path e"
    using r declared_upper [OF d pm] key_split [of M N "Path e" "Path e'"] by (auto simp: buildEndpointKey_def)
  then have "rule_matches mux meth p (make_rule e' N)"
    using m mux literal_template [OF laws, of "Path e" p]
    by (auto simp: rule_matches_def matchesMethod_def matchesPath_def make_rule_def entry_matches_def anyMethod_def
        EqualFold_def compilePattern_def template_matches_def)
  with r resolveEndpoint_first [OF buildEndpointRules_sorted, of es mux meth p] show ?thesis
    by (cases "resolveEndpoint mux meth p (buildEndpointRules es)") (auto split: option.splits)
qed

section \<open>Properties\<close>

text \<open>
  A rule reported as dead guards nothing. Every label in the two lists of dead rules is that of a declared
  rule, public or not as the list says, such that no request is both matched by the rule and served by a
  route of the table, the built-in routes included.
\<close>

lemma dead_rules_match_nothing:
  assumes "regexp_laws rx" and "k \<in> set (if pub then DeadPublicRules (Check rx es rts) else DeadRules (Check rx es rts))"
  shows "\<exists>(e, M) \<in> set (declarations es). k = M @ '' '' @ Path e \<and> Public e = pub \<and>
    (\<forall>rt \<in> set rts. \<forall>meth p. \<not> (entry_matches rx M (Path e) meth p \<and> entry_matches rx (ToUpper (r_Method rt)) (r_Path rt) meth p))"
proof -
  obtain r where r: "r \<in> set (buildRules rx es)" "\<forall>rt \<in> set rts. \<not> overlaps (cr_entry r) (route_entry rx rt)"
    "cr_public r = pub" "k = e_label (cr_entry r)" using Check_dead [OF assms(2)] by blast
  obtain e M where e: "(e, M) \<in> set (declarations es)" "r = \<lparr>cr_entry = newEntry rx M (Path e), cr_public = Public e\<rparr>"
    using buildRules_declared [OF r(1)] by blast
  have "\<forall>rt \<in> set rts. \<forall>meth p. \<not> (entry_matches rx M (Path e) meth p \<and> entry_matches rx (ToUpper (r_Method rt)) (r_Path rt) meth p)"
    using overlaps_sound [OF assms(1)] r(2) e(2) by (auto simp: route_entry_def)
  with e r show ?thesis by (auto simp: newEntry_def)
qed

text \<open>
  A route that is not reported is guarded. If the check of the installed configurations lists a route of
  the application neither as uncovered nor as partly covered, then every request the route serves, unless
  its path contains a newline, is matched by a rule of one of the configurations.
\<close>

lemma unreported_routes_are_guarded:
  assumes "regexp_laws rx" and "configs \<noteq> []" and "\<forall>es \<in> set configs. \<forall>e \<in> set es. own_patterns rx (Path e)"
    and "plain_routes rts" and "rt \<in> set rts" and "\<not> r_BuiltIn rt"
    and "\<not> has_gap (e_label (route_entry rx rt)) (CheckAll rx configs rts)"
    and "entry_matches rx (ToUpper (r_Method rt)) (r_Path rt) meth p" and "newline \<notin> set p"
  shows "\<exists>es \<in> set configs. \<exists>(e, M) \<in> set (declarations es). entry_matches rx M (Path e) meth p"
proof -
  obtain es where es: "es \<in> set configs" "fully_covered (buildRules rx es) (route_entry rx rt)"
    using assms(5-7) CheckAll_has_gap [OF assms(4,2)] Check_has_gap by metis
  then obtain r where r: "r \<in> set (buildRules rx es)" "covers (cr_entry r) (route_entry rx rt)"
    by (auto simp: fully_covered_def)
  obtain e M where e: "(e, M) \<in> set (declarations es)" "r = \<lparr>cr_entry = newEntry rx M (Path e), cr_public = Public e\<rparr>"
    using buildRules_declared [OF r(1)] by blast
  have "own_patterns rx (Path e)" using assms(3) es(1) e(1) by (auto simp: declarations_def)
  from covers_sound [OF assms(1) this _ assms(8,9)] r(2) e show ?thesis using es(1) by (auto simp: route_entry_def)
qed

section \<open>Examples\<close>

text \<open>A regexp package that knows three patterns.\<close>

definition demo_rx :: go_regexp where
  "demo_rx =
     \<lparr>rxParse = map_of [(''.*'', OpStar OpAnyCharNotNL), (''.+'', OpPlus OpAnyCharNotNL), (''[0-9]+'', OpPlus (OpCharClass [48, 57]))],
      rxCompile = map_of [(''.*'', \<lambda>w. newline \<notin> set w), (''.+'', \<lambda>w. w \<noteq> [] \<and> newline \<notin> set w),
                          (''[0-9]+'', \<lambda>w. w \<noteq> [] \<and> list_all is_digit w)],
      rxRunes = map (\<lambda>c. int (of_char c)), rxFold = (=)\<rparr>"

lemma concat_singletons: "concat (map (\<lambda>x. [x]) xs) = xs"
  by (induction xs) auto

lemma re_star: "\<forall>r \<in> set w. re_matches eqv re [r] \<Longrightarrow> re_matches eqv (OpStar re) w"
  using m_star [of "map (\<lambda>x. [x]) w" eqv re] by (auto simp: concat_singletons)

lemma re_plus: "w \<noteq> [] \<Longrightarrow> \<forall>r \<in> set w. re_matches eqv re [r] \<Longrightarrow> re_matches eqv (OpPlus re) w"
  using m_plus [of "map (\<lambda>x. [x]) w" eqv re] by (auto simp: concat_singletons)

lemma demo_rx_laws: "regexp_laws demo_rx"
proof -
  have nl: "c = newline" if "of_char c = (10 :: nat)" for c
  proof -
    from that have "char_of (of_char c :: nat) = newline" by (simp only: newline_def)
    then show ?thesis by simp
  qed
  have m: "re_matches (rxFold demo_rx) re (rxRunes demo_rx w)"
    if "rxCompile demo_rx c = Some m" "rxParse demo_rx c = Some re" "m w" for c m re w
    using that
    by (auto simp: demo_rx_def is_digit_def list_all_iff Let_def split: if_splits
        intro!: re_star re_plus m_any_nl m_class dest!: nl)
  have "rxFold demo_rx a slash \<longrightarrow> a = slash" "CHR ''/'' \<in> set w \<longrightarrow> slash \<in> set (rxRunes demo_rx w)" for a w
    by (force simp: demo_rx_def slash_def)+
  moreover have "rxParse demo_rx invalidPattern = None" "rxParse demo_rx ''.*'' \<noteq> None" "rxParse demo_rx ''.+'' \<noteq> None"
    "rxCompile demo_rx ''.*'' = Some (\<lambda>w. newline \<notin> set w)" "rxCompile demo_rx ''.+'' = Some (\<lambda>w. w \<noteq> [] \<and> newline \<notin> set w)"
    by (simp_all add: demo_rx_def invalidPattern_def)
  ultimately show ?thesis unfolding regexp_laws_def using m by (intro conjI) (simp_all, blast+)?
qed

definition demo_routes :: "Route list" where
  "demo_routes = [\<lparr>r_Method = ''get'', r_Path = ''/files/{id}'', r_BuiltIn = False\<rparr>]"

definition demo_guard :: "EndpointMapping list" where
  "demo_guard = [demo_endpoint ''/files/{path:.*}'' [''files:read''] False]"

lemma demo_guard_patterns: "e \<in> set demo_guard \<Longrightarrow> own_patterns demo_rx (Path e)"
proof -
  have "own_patterns demo_rx ''/files/{path:.*}''" unfolding own_patterns_def by code_simp
  then show "e \<in> set demo_guard \<Longrightarrow> own_patterns demo_rx (Path e)" by (simp add: demo_guard_def)
qed

lemma demo_no_gap: "\<not> has_gap (e_label (route_entry demo_rx (hd demo_routes))) (CheckAll demo_rx [demo_guard] demo_routes)"
  by code_simp

lemma demo_route_segments:
  "map (newSegment demo_rx) (splitPatternSegments ''/files/{id}'') =
     [newSegment demo_rx '''', newSegment demo_rx ''files'', newSegment demo_rx ''{id}'']"
  "map (newSegment demo_rx) (splitPatternSegments ''/files/{path:.*}'') =
     [newSegment demo_rx '''', newSegment demo_rx ''files'', newSegment demo_rx ''{path:.*}'']"
proof -
  have "splitPatternSegments ''/files/{id}'' = ['''', ''files'', ''{id}'']"
    "splitPatternSegments ''/files/{path:.*}'' = ['''', ''files'', ''{path:.*}'']" by code_simp+
  then show "map (newSegment demo_rx) (splitPatternSegments ''/files/{id}'') =
     [newSegment demo_rx '''', newSegment demo_rx ''files'', newSegment demo_rx ''{id}'']"
  "map (newSegment demo_rx) (splitPatternSegments ''/files/{path:.*}'') =
     [newSegment demo_rx '''', newSegment demo_rx ''files'', newSegment demo_rx ''{path:.*}'']" by simp_all
qed

lemma demo_route_serves:
  assumes "w \<noteq> ''''" and "CHR ''/'' \<notin> set w"
  shows "entry_matches demo_rx ''GET'' ''/files/{id}'' ''GET'' (''/files/'' @ w)"
proof -
  have id: "s_variable (newSegment demo_rx ''{id}'')" "s_constraint (newSegment demo_rx ''{id}'') = ''''" by code_simp+
  have "list_all2 (seg_matches demo_rx) [newSegment demo_rx '''', newSegment demo_rx ''files'', newSegment demo_rx ''{id}''] ['''', ''files'', w]"
    using assms id by (simp add: seg_matches_def) (simp add: newSegment_def HasPrefix_def)
  then show ?thesis
    unfolding entry_matches_def template_matches_def demo_route_segments by (intro conjI exI [of _ "['''', ''files'', w]"]) simp_all
qed

lemma dead_rules_match_nothing_witness:
  "\<exists>(e, M) \<in> set (declarations demo_endpoints). ''GET /users/{id}'' = M @ '' '' @ Path e \<and>
     (\<forall>meth p. \<not> (entry_matches demo_rx M (Path e) meth p \<and> entry_matches demo_rx ''GET'' ''/files/{id}'' meth p))"
proof -
  have "''GET /users/{id}'' \<in> set (if False then DeadPublicRules (Check demo_rx demo_endpoints demo_routes) else DeadRules (Check demo_rx demo_endpoints demo_routes))"
    by code_simp
  from dead_rules_match_nothing [OF demo_rx_laws this] have "\<exists>(e, M) \<in> set (declarations demo_endpoints). ''GET /users/{id}'' = M @ '' '' @ Path e \<and>
    (\<forall>rt \<in> set demo_routes. \<forall>meth p. \<not> (entry_matches demo_rx M (Path e) meth p \<and> entry_matches demo_rx (ToUpper (r_Method rt)) (r_Path rt) meth p))"
    by blast
  moreover have "ToUpper ''get'' = ''GET''" by code_simp
  ultimately show ?thesis by (simp add: demo_routes_def)
qed

lemma demo_serves_a: "entry_matches demo_rx (ToUpper (r_Method (hd demo_routes))) (r_Path (hd demo_routes)) ''GET'' ''/files/a''"
proof -
  have "ToUpper ''get'' = ''GET''" by code_simp
  with demo_route_serves [of "''a''"] show ?thesis by (simp add: demo_routes_def)
qed

lemma unreported_routes_are_guarded_witness:
  "\<exists>(e, M) \<in> set (declarations demo_guard). entry_matches demo_rx M (Path e) ''GET'' ''/files/a''"
proof -
  have "plain_routes demo_routes" "hd demo_routes \<in> set demo_routes" "\<not> r_BuiltIn (hd demo_routes)" "newline \<notin> set ''/files/a''"
    by (code_simp, code_simp, code_simp, code_simp)
  with unreported_routes_are_guarded [OF demo_rx_laws _ _ _ _ _ demo_no_gap demo_serves_a] demo_guard_patterns
  show ?thesis by auto
qed

definition newline_request :: rbac_request where
  "newline_request = \<lparr>qMethod = ''GET'', qPath = ''/files/'' @ [newline], qHeader = (\<lambda>_. ''''), qClaims = None\<rparr>"

definition template_mux :: mux_match where
  "template_mux tpl meth p \<longleftrightarrow> HasPrefix tpl ''/'' \<and> template_matches demo_rx tpl p"

lemma template_mux_documented: "mux_documented demo_rx template_mux"
  by (simp add: mux_documented_def template_mux_def)

lemma demo_rule_misses: "\<not> template_matches demo_rx ''/files/{path:.*}'' (''/files/'' @ [newline])"
proof
  let ?s = "newSegment demo_rx ''{path:.*}''"
  assume "template_matches demo_rx ''/files/{path:.*}'' (''/files/'' @ [newline])"
  then obtain a b w where "seg_matches demo_rx (newSegment demo_rx '''') a" "seg_matches demo_rx (newSegment demo_rx ''files'') b"
    and w: "seg_matches demo_rx ?s w" and j: "''/files/'' @ [newline] = Join [a, b, w] ''/''"
    unfolding template_matches_def demo_route_segments by (auto simp: list_all2_Cons1)
  moreover have "\<not> s_variable (newSegment demo_rx '''')" "\<not> s_variable (newSegment demo_rx ''files'')"
    "s_text (newSegment demo_rx '''') = ''''" "s_text (newSegment demo_rx ''files'') = ''files''" by code_simp+
  ultimately have "w = [newline]" by (simp add: seg_matches_def)
  moreover have "s_variable ?s" "s_constraint ?s = ''.*''" by code_simp+
  ultimately show False using w by (simp add: seg_matches_def demo_rx_def)
qed

lemma demo_rule_matches: "template_matches demo_rx ''/files/{path:.*}'' ''/files/a''"
proof -
  let ?s = "newSegment demo_rx ''{path:.*}''"
  have "s_variable ?s" "s_constraint ?s = ''.*''" "newline \<noteq> CHR ''a''" by code_simp+
  then have "list_all2 (seg_matches demo_rx) [newSegment demo_rx '''', newSegment demo_rx ''files'', ?s] ['''', ''files'', ''a'']"
    by (simp add: seg_matches_def demo_rx_def) (simp add: newSegment_def HasPrefix_def)
  then show ?thesis
    unfolding template_matches_def demo_route_segments by (intro conjI exI [of _ "['''', ''files'', ''a'']"]) simp_all
qed

text \<open>
  The exception for newlines is needed, and it leaves requests unguarded: the pattern \<^verbatim>\<open>.*\<close> does not match a
  newline, a free variable does. With a protected rule for all paths below \<^verbatim>\<open>/files\<close> the check reports the
  route \<^verbatim>\<open>/files/{id}\<close> as covered; a request for it whose identifier contains an encoded newline is served by
  the route, matched by no rule, and passed to the handler without any role.
\<close>

lemma newline_path_is_unguarded:
  "\<not> Failed (CheckAll demo_rx [demo_guard] demo_routes) \<and>
   entry_matches demo_rx ''GET'' ''/files/{id}'' (qMethod newline_request) (qPath newline_request) \<and>
   fst (Middleware template_mux demo_deps (Some (projr (load_config (demo_rbac demo_guard)))) newline_request demo_start) = RunHandler None"
proof (intro conjI)
  let ?c = "projr (load_config (demo_rbac demo_guard))" and ?p = "''/files/'' @ [newline]"
  show "\<not> Failed (CheckAll demo_rx [demo_guard] demo_routes)" by code_simp
  show "entry_matches demo_rx ''GET'' ''/files/{id}'' (qMethod newline_request) (qPath newline_request)"
  proof -
    have "newline \<noteq> CHR ''/''" by code_simp
    with demo_route_serves [of "[newline]"] show ?thesis by (simp add: newline_request_def)
  qed
  have r: "rules ?c = [make_rule (demo_endpoint ''/files/{path:.*}'' [''files:read''] False) ''GET'']" by code_simp
  have "endpointMap ?c (''GET:'' @ ?p) = None" "endpointMap ?c (''*:'' @ ?p) = None" "ToUpper ''GET'' = ''GET''"
    "length (Endpoints ?c) \<noteq> 0" and "isMuxPattern ''/files/{path:.*}''" by code_simp+
  moreover from this have "resolveEndpoint template_mux ''GET'' ?p (rules ?c) = (None, False)"
    using demo_rule_misses unfolding r
    by (simp add: rule_matches_def matchesPath_def make_rule_def compilePattern_def template_mux_def)
  ultimately have "getEndpointForRequest template_mux ?c ''GET'' ?p = (None, False)"
    by (simp add: getEndpointForRequest_def resolve_def getExactEndpoint_def)
  then show "fst (Middleware template_mux demo_deps (Some ?c) newline_request demo_start) = RunHandler None"
    by (simp add: Middleware_def newline_request_def Let_def)
qed



section \<open>Property: the shape of a report\<close>

text \<open>
  C37. A report is well formed. Its four lists are in strictly ascending order, without repetition; no rule is
  reported both as dead and as dead and public; no route is reported both as uncovered and as partly
  covered, and a partly covered route names at least one rule, in strictly ascending order.
\<close>

theorem report_well_formed:
  assumes "\<forall>rt \<in> set rts. CHR '' '' \<notin> set (r_Method rt)" and "m = Check rx es rts"
  shows "sorted_wrt (<) (DeadRules m) \<and> sorted_wrt (<) (DeadPublicRules m) \<and> sorted_wrt (<) (Uncovered m) \<and>
    sorted_wrt (<) (map pc_Route (PartlyCovered m)) \<and> set (DeadRules m) \<inter> set (DeadPublicRules m) = {} \<and>
    set (Uncovered m) \<inter> pc_Route ` set (PartlyCovered m) = {} \<and>
    (\<forall>p \<in> set (PartlyCovered m). pc_Rules p \<noteq> [] \<and> sorted_wrt (<) (pc_Rules p))"
proof -
  obtain live unc part where c: "check_routes rx (buildRules rx es) rts (replicate (length (buildRules rx es)) False) [] [] = (live, unc, part)"
    by (metis prod.exhaust)
  have "report_ok m" using Check_report_ok assms by (simp add: plain_routes_def)
  moreover have "\<forall>p \<in> set (PartlyCovered m). pc_Rules p \<noteq> [] \<and> sorted_wrt (<) (pc_Rules p)"
    using check_routes_rules [OF c] c subsetD [OF compact_by_set]
    by (fastforce simp: assms(2) Check_def Let_def sortedByRoute_def)
  ultimately show ?thesis using c dead_labels_disjoint [of rx es live] by (simp add: assms(2) Check_def Let_def report_ok_def)
qed

theorem report_well_formed_witness:
  "sorted_wrt (<) (DeadRules (Check demo_rx demo_endpoints demo_routes)) \<and>
   ''GET /users/{id}'' \<in> set (DeadRules (Check demo_rx demo_endpoints demo_routes))"
proof -
  have "\<forall>rt \<in> set demo_routes. CHR '' '' \<notin> set (r_Method rt)" by code_simp
  from report_well_formed [OF this refl, of demo_rx demo_endpoints]
  show ?thesis by (intro conjI) (simp, code_simp)
qed

end
