(* ===== verification/Migration_Stores.thy ===== *)
theory Migration_Stores
  imports Go_Prelude "HOL-Library.AList"
begin

text \<open>
  The migrators of the thirteen datasources, \<^verbatim>\<open>pkg/gofr/migration\<close>: every one of them wraps the next one of the
  chain, adds its own work to a call and passes it on. A migrator is therefore modelled as a function of the
  operation it wraps: \<open>arangoMigrator_commitMigration env inner\<close> is what \<^verbatim>\<open>arango.go\<close> does around \<open>inner\<close>. What
  the databases, their drivers and the user's migrations do is a parameter, the record \<open>mig_env\<close>: which calls
  fail, how a driver renders a number, what a search returns, what other processes do to the shared rows,
  the clocks, and the outcome of each migration. A call of \<^verbatim>\<open>Fatalf\<close> ends the process, so deferred calls do
  not run. Times are in milliseconds.
\<close>

section \<open>State\<close>

datatype store =
    SArangoDB | SCassandra | SClickhouse | SDGraph | SElasticsearch | SMongo | SOpenTSDB | SOracle | SPubSub
  | SRedis | SSQL | SScyllaDB | SSurrealDB

definition store_name :: "store \<Rightarrow> string" where
  "store_name s =
     (case s of
        SArangoDB \<Rightarrow> ''ArangoDB'' | SCassandra \<Rightarrow> ''Cassandra'' | SClickhouse \<Rightarrow> ''Clickhouse'' | SDGraph \<Rightarrow> ''DGraph''
      | SElasticsearch \<Rightarrow> ''Elasticsearch'' | SMongo \<Rightarrow> ''Mongo'' | SOpenTSDB \<Rightarrow> ''OpenTSDB'' | SOracle \<Rightarrow> ''Oracle''
      | SPubSub \<Rightarrow> ''PubSub'' | SRedis \<Rightarrow> ''Redis'' | SSQL \<Rightarrow> ''SQL'' | SScyllaDB \<Rightarrow> ''ScyllaDB'' | SSurrealDB \<Rightarrow> ''SurrealDB'')"

text \<open>A value of the Redis hash either decodes as a migration record or does not.\<close>

datatype redis_value = RedisData | Malformed

text \<open>The file \<^verbatim>\<open>gofr_migrations.json\<close> of the OpenTSDB migrator.\<close>

datatype tsdb_file = NoFile | Corrupted | TsdbRecords "int list"

type_synonym lockrow = "(string \<times> int) option"

text \<open>\<open>Committed s k\<close>: the transaction of migration \<open>k\<close> in the store \<open>s\<close> became durable. \<open>Succeeded k\<close> is the log line
  of the base migrator; \<open>Finished k\<close> marks that the commit of the whole chain returned without an error.\<close>

datatype mig_event =
    Skipping int
  | Ran int
  | Committed store int
  | Succeeded int
  | Finished int
  | RolledBack store
  | ReportSkipped "int list" int
  | Fatal

text \<open>\<open>rows\<close> holds the versions recorded in the table, collection or index \<^verbatim>\<open>gofr_migrations\<close> of a store, \<open>hasTable\<close>
  whether it exists; Redis has a hash, OpenTSDB a file and its temporary copy instead.\<close>

record mig_world =
  rows :: "store \<Rightarrow> int list"
  hasTable :: "store \<Rightarrow> bool"
  redisRows :: "(string \<times> redis_value) list"
  tsdbFile :: tsdb_file
  tsdbTmp :: bool
  locks :: "store \<Rightarrow> lockrow"
  mlog :: "mig_event list"

record transactionData =
  hasSQLTx :: bool
  hasRedisTx :: bool
  hasOracleTx :: bool
  MigrationNumber :: int
  UsedDatasources :: "store set"

text \<open>A migration ends with or without an error, after calls to some of the datasources it was given; or it panics.\<close>

datatype up_result = UpReturns "store list" bool | UpPanics

text \<open>A number as a driver returns it: the Go types the code tells apart, a \<^verbatim>\<open>float64\<close> by its integral part, and any
  other value by its printed form. A row may also be no map, or have no such column.\<close>

datatype go_number = VInt64 int | VInt int | VUint64 int | VFloat int | VOther string

datatype fetched = NotARow | NoField | Field go_number

datatype es_result = NoHits | Hits "fetched list"

record mig_env =
  dialect :: string
  nodgraph :: bool
  createError :: "store \<Rightarrow> nat \<Rightarrow> bool \<Rightarrow> string option"
  queryFails :: "nat \<Rightarrow> store \<Rightarrow> bool \<Rightarrow> bool"
  driverValue :: "store \<Rightarrow> int \<Rightarrow> fetched"
  dgraphAnswers :: "nat \<Rightarrow> bool"
  esSearch :: "nat \<Rightarrow> bool \<Rightarrow> int list \<Rightarrow> int option \<Rightarrow> es_result option"
  beginFails :: "store \<Rightarrow> int \<Rightarrow> bool"
  recordFails :: "store \<Rightarrow> int \<Rightarrow> bool"
  durableFails :: "store \<Rightarrow> int \<Rightarrow> bool"
  tmpLeft :: "int \<Rightarrow> bool"
  tmpStays :: bool
  refreshLost :: "int \<Rightarrow> nat \<Rightarrow> bool"
  up :: "int \<Rightarrow> transactionData \<Rightarrow> up_result"
  meanwhile :: "mig_world \<Rightarrow> mig_world"
  lockClock :: "store \<Rightarrow> nat \<Rightarrow> int"
  expiryClock :: "store \<Rightarrow> nat \<Rightarrow> int"
  lockOthers :: "store \<Rightarrow> nat \<Rightarrow> lockrow \<Rightarrow> lockrow"
  cleanupFails :: "store \<Rightarrow> nat \<Rightarrow> bool"
  insertError :: "store \<Rightarrow> nat \<Rightarrow> string option"
  duplicateError :: "store \<Rightarrow> string"
  lockCanceled :: "store \<Rightarrow> nat \<Rightarrow> bool"
  unlockFails :: "store \<Rightarrow> bool"
  beforeUnlock :: "store \<Rightarrow> lockrow \<Rightarrow> lockrow"

definition mig_note :: "mig_event list \<Rightarrow> mig_world \<Rightarrow> mig_world" where
  "mig_note es w = w\<lparr>mlog := mlog w @ es\<rparr>"

definition make_table :: "store \<Rightarrow> mig_world \<Rightarrow> mig_world" where
  "make_table s w = w\<lparr>hasTable := (hasTable w)(s := True)\<rparr>"

text \<open>A record is added to a table without a unique key, or replaces the one with the same key.\<close>

definition insert_row :: "store \<Rightarrow> int \<Rightarrow> mig_world \<Rightarrow> mig_world" where
  "insert_row s k w = w\<lparr>rows := (rows w)(s := rows w s @ [k])\<rparr>"

definition upsert_row :: "store \<Rightarrow> int \<Rightarrow> mig_world \<Rightarrow> mig_world" where
  "upsert_row s k w = (if k \<in> set (rows w s) then w else insert_row s k w)"

section \<open>Creating the tables\<close>

text \<open>The result tells whether there was no error. The number of a statement tells apart those of one migrator.\<close>

type_synonym check_op = "mig_world \<Rightarrow> bool \<times> mig_world"

abbreviation creates :: "mig_env \<Rightarrow> store \<Rightarrow> nat \<Rightarrow> mig_world \<Rightarrow> string option" where
  "creates env s i w \<equiv> createError env s i (hasTable w s)"

definition arangoMigrator_checkAndCreateMigrationTable :: "mig_env \<Rightarrow> check_op \<Rightarrow> check_op" where
  "arangoMigrator_checkAndCreateMigrationTable env inner w =
     inner (if creates env SArangoDB 0 w = None then make_table SArangoDB w else w)"

definition cassandraMigrator_checkAndCreateMigrationTable :: "mig_env \<Rightarrow> check_op \<Rightarrow> check_op" where
  "cassandraMigrator_checkAndCreateMigrationTable env inner w =
     (if creates env SCassandra 0 w \<noteq> None then (False, w) else inner (make_table SCassandra w))"

definition clickHouseMigrator_checkAndCreateMigrationTable :: "mig_env \<Rightarrow> check_op \<Rightarrow> check_op" where
  "clickHouseMigrator_checkAndCreateMigrationTable env inner w =
     (if creates env SClickhouse 0 w \<noteq> None then (False, w) else inner (make_table SClickhouse w))"

text \<open>A build with the tag \<^verbatim>\<open>gofr_nodgraph\<close> refuses instead.\<close>

definition dgraphMigrator_checkAndCreateMigrationTable :: "mig_env \<Rightarrow> check_op \<Rightarrow> check_op" where
  "dgraphMigrator_checkAndCreateMigrationTable env inner w =
     (if nodgraph env then (False, w)
      else inner (if creates env SDGraph 0 w = None then make_table SDGraph w else w))"

text \<open>A search of the index fails when it does not exist, and then it is created.\<close>

definition elasticsearchMigrator_checkAndCreateMigrationTable :: "mig_env \<Rightarrow> check_op \<Rightarrow> check_op" where
  "elasticsearchMigrator_checkAndCreateMigrationTable env inner w =
     (if creates env SElasticsearch 0 w \<noteq> None
      then if creates env SElasticsearch 1 w \<noteq> None then (False, w) else inner (make_table SElasticsearch w)
      else inner w)"

definition isMongoCollectionExistsError :: "string \<Rightarrow> bool" where
  "isMongoCollectionExistsError err =
     (let msg = map lower_char err in Contains msg ''already exists'' \<or> Contains msg ''namespaceexists'')"

definition mongo_tolerates :: "string option \<Rightarrow> bool" where
  "mongo_tolerates err = (case err of None \<Rightarrow> True | Some msg \<Rightarrow> isMongoCollectionExistsError msg)"

definition mongoMigrator_checkAndCreateMigrationTable :: "mig_env \<Rightarrow> check_op \<Rightarrow> check_op" where
  "mongoMigrator_checkAndCreateMigrationTable env inner w =
     (if \<not> mongo_tolerates (creates env SMongo 0 w) then (False, w)
      else let w1 = make_table SMongo w in
        if \<not> mongo_tolerates (creates env SMongo 1 w1) then (False, w1) else inner w1)"

text \<open>An existing file is decoded; a new one gets an empty list. The call is not passed on.\<close>

definition openTSDBMigrator_validateExistingFile :: "mig_env \<Rightarrow> check_op" where
  "openTSDBMigrator_validateExistingFile env w =
     (if createError env SOpenTSDB 1 True \<noteq> None then (False, w) else (tsdbFile w \<noteq> Corrupted, w))"

definition openTSDBMigrator_createEmptyMigrationFile :: "mig_env \<Rightarrow> check_op" where
  "openTSDBMigrator_createEmptyMigrationFile env w =
     (if createError env SOpenTSDB 1 False \<noteq> None then (False, w)
      else if createError env SOpenTSDB 2 False \<noteq> None then (False, w\<lparr>tsdbFile := Corrupted\<rparr>)
      else (True, w\<lparr>tsdbFile := TsdbRecords []\<rparr>))"

definition openTSDBMigrator_checkAndCreateMigrationTable :: "mig_env \<Rightarrow> check_op \<Rightarrow> check_op" where
  "openTSDBMigrator_checkAndCreateMigrationTable env inner w =
     (let exists = (tsdbFile w \<noteq> NoFile) in
      if createError env SOpenTSDB 0 exists \<noteq> None then (False, w)
      else if exists then openTSDBMigrator_validateExistingFile env w
      else openTSDBMigrator_createEmptyMigrationFile env w)"

text \<open>The second statement creates the table of locks.\<close>

definition oracleMigrator_checkAndCreateMigrationTable :: "mig_env \<Rightarrow> check_op \<Rightarrow> check_op" where
  "oracleMigrator_checkAndCreateMigrationTable env inner w =
     (if creates env SOracle 0 w \<noteq> None then (False, w)
      else let w1 = make_table SOracle w in
        if creates env SOracle 1 w1 \<noteq> None then (False, w1) else inner w1)"

definition sqlMigrator_checkAndCreateMigrationTable :: "mig_env \<Rightarrow> check_op \<Rightarrow> check_op" where
  "sqlMigrator_checkAndCreateMigrationTable env inner w =
     (if creates env SSQL 0 w \<noteq> None then (False, w)
      else let w1 = make_table SSQL w in
        if creates env SSQL 1 w1 \<noteq> None then (False, w1) else inner w1)"

definition scyllaMigrator_checkAndCreateMigrationTable :: "mig_env \<Rightarrow> check_op \<Rightarrow> check_op" where
  "scyllaMigrator_checkAndCreateMigrationTable env inner w =
     (if creates env SScyllaDB 0 w \<noteq> None then (False, w) else inner (make_table SScyllaDB w))"

text \<open>Seven statements, of which the first defines the table.\<close>

definition getMigrationTableQueries :: "nat list" where
  "getMigrationTableQueries = [0..<7]"

fun surreal_queries :: "mig_env \<Rightarrow> nat list \<Rightarrow> check_op \<Rightarrow> check_op" where
  "surreal_queries env [] inner w = inner w"
| "surreal_queries env (q # qs) inner w =
     (if creates env SSurrealDB q w \<noteq> None then (False, w)
      else surreal_queries env qs inner (make_table SSurrealDB w))"

definition surrealMigrator_checkAndCreateMigrationTable :: "mig_env \<Rightarrow> check_op \<Rightarrow> check_op" where
  "surrealMigrator_checkAndCreateMigrationTable env inner = surreal_queries env getMigrationTableQueries inner"

text \<open>Redis has no such method of its own: the embedded migrator's is promoted.\<close>

definition store_check :: "mig_env \<Rightarrow> store \<Rightarrow> check_op \<Rightarrow> check_op" where
  "store_check env s =
     (case s of
        SArangoDB \<Rightarrow> arangoMigrator_checkAndCreateMigrationTable env
      | SCassandra \<Rightarrow> cassandraMigrator_checkAndCreateMigrationTable env
      | SClickhouse \<Rightarrow> clickHouseMigrator_checkAndCreateMigrationTable env
      | SDGraph \<Rightarrow> dgraphMigrator_checkAndCreateMigrationTable env
      | SElasticsearch \<Rightarrow> elasticsearchMigrator_checkAndCreateMigrationTable env
      | SMongo \<Rightarrow> mongoMigrator_checkAndCreateMigrationTable env
      | SOpenTSDB \<Rightarrow> openTSDBMigrator_checkAndCreateMigrationTable env
      | SOracle \<Rightarrow> oracleMigrator_checkAndCreateMigrationTable env
      | SPubSub \<Rightarrow> (\<lambda>inner. inner)
      | SRedis \<Rightarrow> (\<lambda>inner. inner)
      | SSQL \<Rightarrow> sqlMigrator_checkAndCreateMigrationTable env
      | SScyllaDB \<Rightarrow> scyllaMigrator_checkAndCreateMigrationTable env
      | SSurrealDB \<Rightarrow> surrealMigrator_checkAndCreateMigrationTable env)"

section \<open>Reading the applied versions\<close>

text \<open>The result is \<open>None\<close> when the call does not return, \<open>Some None\<close> when it returns an error. The number \<open>n\<close> tells
  the fetch before the lock from the one under it.\<close>

type_synonym applied = "int set option option"

type_synonym applied_op = "mig_world \<Rightarrow> applied"

text \<open>The common end of these methods: the versions read are added to those of the wrapped migrator.\<close>

definition add_versions :: "int list option \<Rightarrow> applied \<Rightarrow> applied" where
  "add_versions fetch inner =
     (case fetch of
        None \<Rightarrow> Some None
      | Some vs \<Rightarrow> (case inner of Some (Some applied) \<Rightarrow> Some (Some (applied \<union> set vs)) | r \<Rightarrow> r))"

abbreviation query_rows :: "mig_env \<Rightarrow> nat \<Rightarrow> store \<Rightarrow> mig_world \<Rightarrow> int list option" where
  "query_rows env n s w \<equiv> (if queryFails env n s (hasTable w s) then None else Some (rows w s))"

definition arangoMigrator_getAppliedMigrations :: "mig_env \<Rightarrow> nat \<Rightarrow> applied_op \<Rightarrow> applied_op" where
  "arangoMigrator_getAppliedMigrations env n inner w = add_versions (query_rows env n SArangoDB w) (inner w)"

definition cassandraMigrator_getAppliedMigrations :: "mig_env \<Rightarrow> nat \<Rightarrow> applied_op \<Rightarrow> applied_op" where
  "cassandraMigrator_getAppliedMigrations env n inner w = add_versions (query_rows env n SCassandra w) (inner w)"

definition clickHouseMigrator_getAppliedMigrations :: "mig_env \<Rightarrow> nat \<Rightarrow> applied_op \<Rightarrow> applied_op" where
  "clickHouseMigrator_getAppliedMigrations env n inner w = add_versions (map_option remdups (query_rows env n SClickhouse w)) (inner w)"

text \<open>An answer that is not a response with a body counts as empty.\<close>

definition dgraphMigrator_getAppliedMigrations :: "mig_env \<Rightarrow> nat \<Rightarrow> applied_op \<Rightarrow> applied_op" where
  "dgraphMigrator_getAppliedMigrations env n inner w =
     (if nodgraph env then Some None
      else add_versions (map_option (\<lambda>vs. if dgraphAnswers env n then vs else []) (query_rows env n SDGraph w)) (inner w))"

definition elasticsearchMigrationPageSize :: nat where
  "elasticsearchMigrationPageSize = 1000"

text \<open>Hits that have no version of the expected type are passed over, but counted.\<close>

definition hit_version :: "fetched \<Rightarrow> int list" where
  "hit_version h = (case h of Field (VFloat version) \<Rightarrow> [version] | _ \<Rightarrow> [])"

definition extractMigrationVersions :: "es_result \<Rightarrow> int list \<times> nat" where
  "extractMigrationVersions result =
     (case result of NoHits \<Rightarrow> ([], 0) | Hits hitsList \<Rightarrow> (concat (map hit_version hitsList), length hitsList))"

text \<open>The loop over the pages; the argument of a search is the last version read so far.\<close>

partial_function (option) es_pages ::
    "(int option \<Rightarrow> es_result option) \<Rightarrow> int list \<Rightarrow> int option \<Rightarrow> int list option option" where
  "es_pages search versions after =
     (case search after of
        None \<Rightarrow> Some None
      | Some result \<Rightarrow>
          (case extractMigrationVersions result of
             (page, hitCount) \<Rightarrow>
               if hitCount < elasticsearchMigrationPageSize \<or> length page = 0 then Some (Some (versions @ page))
               else es_pages search (versions @ page) (Some (last page))))"

definition getElasticsearchMigrationVersions :: "mig_env \<Rightarrow> nat \<Rightarrow> mig_world \<Rightarrow> int list option option" where
  "getElasticsearchMigrationVersions env n w =
     es_pages (esSearch env n (hasTable w SElasticsearch) (rows w SElasticsearch)) [] None"

definition elasticsearchMigrator_getAppliedMigrations :: "mig_env \<Rightarrow> nat \<Rightarrow> applied_op \<Rightarrow> applied_op" where
  "elasticsearchMigrator_getAppliedMigrations env n inner w =
     (case getElasticsearchMigrationVersions env n w of None \<Rightarrow> None | Some fetch \<Rightarrow> add_versions fetch (inner w))"

definition mongoMigrator_getAppliedMigrations :: "mig_env \<Rightarrow> nat \<Rightarrow> applied_op \<Rightarrow> applied_op" where
  "mongoMigrator_getAppliedMigrations env n inner w = add_versions (query_rows env n SMongo w) (inner w)"

text \<open>A file that does not exist holds no records.\<close>

definition openTSDBMigrator_loadMigrationsUnsafe :: "bool \<Rightarrow> mig_world \<Rightarrow> int list option" where
  "openTSDBMigrator_loadMigrationsUnsafe fails w =
     (case tsdbFile w of
        NoFile \<Rightarrow> Some []
      | Corrupted \<Rightarrow> None
      | TsdbRecords vs \<Rightarrow> if fails then None else Some vs)"

definition openTSDBMigrator_getAppliedMigrations :: "mig_env \<Rightarrow> nat \<Rightarrow> applied_op \<Rightarrow> applied_op" where
  "openTSDBMigrator_getAppliedMigrations env n inner w =
     add_versions (openTSDBMigrator_loadMigrationsUnsafe (queryFails env n SOpenTSDB True) w) (inner w)"

definition FormatInt :: "int \<Rightarrow> string" where
  "FormatInt k = (if k < 0 then ''-'' @ show_nat (nat (- k)) else show_nat (nat k))"

text \<open>The argument is the printed form of the value.\<close>

definition oracleMigrator_parseStringValue :: "string \<Rightarrow> int" where
  "oracleMigrator_parseStringValue str =
     (if str = [] \<or> str = ''<nil>'' then 0 else (case Atoi str of (parsed, None) \<Rightarrow> parsed | _ \<Rightarrow> 0))"

definition oracleMigrator_convertToInt64 :: "go_number \<Rightarrow> int" where
  "oracleMigrator_convertToInt64 value =
     (case value of
        VFloat v \<Rightarrow> v
      | VInt64 v \<Rightarrow> v
      | VInt v \<Rightarrow> v
      | VUint64 v \<Rightarrow> oracleMigrator_parseStringValue (FormatInt v)
      | VOther str \<Rightarrow> oracleMigrator_parseStringValue str)"

definition oracle_row :: "fetched \<Rightarrow> int list" where
  "oracle_row r = (case r of Field v \<Rightarrow> [oracleMigrator_convertToInt64 v] | _ \<Rightarrow> [])"

definition oracleMigrator_getAppliedMigrations :: "mig_env \<Rightarrow> nat \<Rightarrow> applied_op \<Rightarrow> applied_op" where
  "oracleMigrator_getAppliedMigrations env n inner w =
     add_versions
       (map_option (\<lambda>vs. concat (map (\<lambda>v. oracle_row (driverValue env SOracle v)) (remdups vs))) (query_rows env n SOracle w))
       (inner w)"

definition pubsubMigrator_getAppliedMigrations :: "applied_op \<Rightarrow> applied_op" where
  "pubsubMigrator_getAppliedMigrations inner = inner"

text \<open>The error of \<^verbatim>\<open>ParseInt\<close> on a key of the hash is ignored, a value that does not decode is an error.\<close>

definition redisMigrator_getAppliedMigrations :: "mig_env \<Rightarrow> nat \<Rightarrow> applied_op \<Rightarrow> applied_op" where
  "redisMigrator_getAppliedMigrations env n inner w =
     add_versions
       (if queryFails env n SRedis True \<or> list_ex (\<lambda>(key, v). v = Malformed) (redisRows w) then None
        else Some (map (\<lambda>(key, v). fst (Atoi key)) (redisRows w)))
       (inner w)"

definition sqlMigrator_getAppliedMigrations :: "mig_env \<Rightarrow> nat \<Rightarrow> applied_op \<Rightarrow> applied_op" where
  "sqlMigrator_getAppliedMigrations env n inner w = add_versions (query_rows env n SSQL w) (inner w)"

definition scyllaMigrator_getAppliedMigrations :: "mig_env \<Rightarrow> nat \<Rightarrow> applied_op \<Rightarrow> applied_op" where
  "scyllaMigrator_getAppliedMigrations env n inner w = add_versions (query_rows env n SScyllaDB w) (inner w)"

definition surrealVersionToInt64 :: "go_number \<Rightarrow> int" where
  "surrealVersionToInt64 v =
     (case v of
        VInt64 n \<Rightarrow> n
      | VInt n \<Rightarrow> n
      | VUint64 n \<Rightarrow> if n > maxInt64 then 0 else n
      | VFloat n \<Rightarrow> n
      | VOther _ \<Rightarrow> 0)"

text \<open>An absent field is the nil value, which converts to 0.\<close>

definition surreal_row :: "fetched \<Rightarrow> int list" where
  "surreal_row r = (case r of NotARow \<Rightarrow> [] | NoField \<Rightarrow> [0] | Field v \<Rightarrow> [surrealVersionToInt64 v])"

definition surrealMigrator_getAppliedMigrations :: "mig_env \<Rightarrow> nat \<Rightarrow> applied_op \<Rightarrow> applied_op" where
  "surrealMigrator_getAppliedMigrations env n inner w =
     add_versions
       (map_option (\<lambda>vs. concat (map (\<lambda>v. surreal_row (driverValue env SSurrealDB v)) vs)) (query_rows env n SSurrealDB w))
       (inner w)"

definition store_applied :: "mig_env \<Rightarrow> nat \<Rightarrow> store \<Rightarrow> applied_op \<Rightarrow> applied_op" where
  "store_applied env n s =
     (case s of
        SArangoDB \<Rightarrow> arangoMigrator_getAppliedMigrations env n
      | SCassandra \<Rightarrow> cassandraMigrator_getAppliedMigrations env n
      | SClickhouse \<Rightarrow> clickHouseMigrator_getAppliedMigrations env n
      | SDGraph \<Rightarrow> dgraphMigrator_getAppliedMigrations env n
      | SElasticsearch \<Rightarrow> elasticsearchMigrator_getAppliedMigrations env n
      | SMongo \<Rightarrow> mongoMigrator_getAppliedMigrations env n
      | SOpenTSDB \<Rightarrow> openTSDBMigrator_getAppliedMigrations env n
      | SOracle \<Rightarrow> oracleMigrator_getAppliedMigrations env n
      | SPubSub \<Rightarrow> pubsubMigrator_getAppliedMigrations
      | SRedis \<Rightarrow> redisMigrator_getAppliedMigrations env n
      | SSQL \<Rightarrow> sqlMigrator_getAppliedMigrations env n
      | SScyllaDB \<Rightarrow> scyllaMigrator_getAppliedMigrations env n
      | SSurrealDB \<Rightarrow> surrealMigrator_getAppliedMigrations env n)"

section \<open>Transactions\<close>

definition no_transaction :: transactionData where
  "no_transaction = \<lparr>hasSQLTx = False, hasRedisTx = False, hasOracleTx = False, MigrationNumber = 0, UsedDatasources = {}\<rparr>"

definition oracleMigrator_beginTransaction :: "mig_env \<Rightarrow> int \<Rightarrow> transactionData \<Rightarrow> transactionData" where
  "oracleMigrator_beginTransaction env k inner =
     (if beginFails env SOracle k then no_transaction else inner\<lparr>hasOracleTx := True\<rparr>)"

definition redisMigrator_beginTransaction :: "transactionData \<Rightarrow> transactionData" where
  "redisMigrator_beginTransaction inner = inner\<lparr>hasRedisTx := True\<rparr>"

definition sqlMigrator_beginTransaction :: "mig_env \<Rightarrow> int \<Rightarrow> transactionData \<Rightarrow> transactionData" where
  "sqlMigrator_beginTransaction env k inner =
     (if beginFails env SSQL k then no_transaction else inner\<lparr>hasSQLTx := True\<rparr>)"

text \<open>The other migrators have no transaction and return that of the wrapped one.\<close>

definition store_begin :: "mig_env \<Rightarrow> int \<Rightarrow> store \<Rightarrow> transactionData \<Rightarrow> transactionData" where
  "store_begin env k s =
     (case s of
        SOracle \<Rightarrow> oracleMigrator_beginTransaction env k
      | SRedis \<Rightarrow> redisMigrator_beginTransaction
      | SSQL \<Rightarrow> sqlMigrator_beginTransaction env k
      | _ \<Rightarrow> (\<lambda>inner. inner))"

section \<open>Committing\<close>

datatype mig_result = Ok | Err | Exit | Panic

type_synonym commit_op = "mig_world \<Rightarrow> mig_result \<times> mig_world"

definition arangoMigrator_commitMigration :: "mig_env \<Rightarrow> transactionData \<Rightarrow> commit_op \<Rightarrow> commit_op" where
  "arangoMigrator_commitMigration env tx inner w =
     (let k = MigrationNumber tx in
      if SArangoDB \<in> UsedDatasources tx
      then if recordFails env SArangoDB k then (Err, w) else inner (insert_row SArangoDB k w)
      else inner w)"

text \<open>In Cassandra and ScyllaDB an insertion replaces the row with the same key.\<close>

definition cassandraMigrator_commitMigration :: "mig_env \<Rightarrow> transactionData \<Rightarrow> commit_op \<Rightarrow> commit_op" where
  "cassandraMigrator_commitMigration env tx inner w =
     (let k = MigrationNumber tx in
      if SCassandra \<in> UsedDatasources tx
      then if recordFails env SCassandra k then (Err, w) else inner (upsert_row SCassandra k w)
      else inner w)"

definition clickHouseMigrator_commitMigration :: "mig_env \<Rightarrow> transactionData \<Rightarrow> commit_op \<Rightarrow> commit_op" where
  "clickHouseMigrator_commitMigration env tx inner w =
     (let k = MigrationNumber tx in
      if SClickhouse \<in> UsedDatasources tx
      then if recordFails env SClickhouse k then (Err, w) else inner (insert_row SClickhouse k w)
      else inner w)"

text \<open>The record is written in a transaction of its own, whose mutation or commit may fail.\<close>

definition dgraphMigrator_commitMigration :: "mig_env \<Rightarrow> transactionData \<Rightarrow> commit_op \<Rightarrow> commit_op" where
  "dgraphMigrator_commitMigration env tx inner w =
     (let k = MigrationNumber tx in
      if nodgraph env then (Err, w)
      else if SDGraph \<notin> UsedDatasources tx then inner w
      else if recordFails env SDGraph k then (Err, w)
      else if durableFails env SDGraph k then (Err, w)
      else inner (insert_row SDGraph k w))"

text \<open>The version is the identifier of the document.\<close>

definition elasticsearchMigrator_commitMigration :: "mig_env \<Rightarrow> transactionData \<Rightarrow> commit_op \<Rightarrow> commit_op" where
  "elasticsearchMigrator_commitMigration env tx inner w =
     (let k = MigrationNumber tx in
      if SElasticsearch \<in> UsedDatasources tx
      then if recordFails env SElasticsearch k then (Err, w) else inner (upsert_row SElasticsearch k w)
      else inner w)"

definition mongoMigrator_commitMigration :: "mig_env \<Rightarrow> transactionData \<Rightarrow> commit_op \<Rightarrow> commit_op" where
  "mongoMigrator_commitMigration env tx inner w =
     (let k = MigrationNumber tx in
      if SMongo \<in> UsedDatasources tx
      then if recordFails env SMongo k then (Err, w) else inner (insert_row SMongo k w)
      else inner w)"

definition migrationExists :: "int list \<Rightarrow> int \<Rightarrow> bool" where
  "migrationExists migrations version = list_ex (\<lambda>existing. existing = version) migrations"

text \<open>The temporary file replaces the old one at once. A failed write leaves the old one, and possibly the temporary file.\<close>

definition openTSDBMigrator_writeMigrationsAtomically :: "mig_env \<Rightarrow> int \<Rightarrow> int list \<Rightarrow> mig_world \<Rightarrow> bool \<times> mig_world" where
  "openTSDBMigrator_writeMigrationsAtomically env k migrations w =
     (if durableFails env SOpenTSDB k then (False, w\<lparr>tsdbTmp := tmpLeft env k\<rparr>)
      else (True, w\<lparr>tsdbFile := TsdbRecords migrations, tsdbTmp := False\<rparr>))"

text \<open>Here the wrapped migrator commits first.\<close>

definition openTSDBMigrator_commitMigration :: "mig_env \<Rightarrow> transactionData \<Rightarrow> commit_op \<Rightarrow> commit_op" where
  "openTSDBMigrator_commitMigration env tx inner w =
     (case inner w of
        (Ok, w1) \<Rightarrow>
          (let k = MigrationNumber tx in
           if SOpenTSDB \<notin> UsedDatasources tx then (Ok, w1)
           else (case openTSDBMigrator_loadMigrationsUnsafe (recordFails env SOpenTSDB k) w1 of
                   None \<Rightarrow> (Err, w1)
                 | Some migrations \<Rightarrow>
                     if migrationExists migrations k then (Ok, w1)
                     else (case openTSDBMigrator_writeMigrationsAtomically env k (migrations @ [k]) w1 of
                             (False, w2) \<Rightarrow> (Err, w2)
                           | (True, w2) \<Rightarrow> (Ok, w2))))
      | r \<Rightarrow> r)"

text \<open>The record is part of the transaction; the primary key rejects a second one.\<close>

definition oracleMigrator_commitMigration :: "mig_env \<Rightarrow> transactionData \<Rightarrow> commit_op \<Rightarrow> commit_op" where
  "oracleMigrator_commitMigration env tx inner w =
     (let k = MigrationNumber tx; used = (SOracle \<in> UsedDatasources tx) in
      if \<not> hasOracleTx tx then (Err, w)
      else if used \<and> (recordFails env SOracle k \<or> k \<in> set (rows w SOracle)) then (Err, w)
      else if durableFails env SOracle k then (Err, w)
      else inner (mig_note [Committed SOracle k] (if used then insert_row SOracle k w else w)))"

definition pubsubMigrator_commitMigration :: "commit_op \<Rightarrow> commit_op" where
  "pubsubMigrator_commitMigration inner = inner"

text \<open>A nil transaction panics. The hash field in Redis is set by the same pipeline.\<close>

definition redisMigrator_commitMigration :: "mig_env \<Rightarrow> transactionData \<Rightarrow> commit_op \<Rightarrow> commit_op" where
  "redisMigrator_commitMigration env tx inner w =
     (let k = MigrationNumber tx; used = (SRedis \<in> UsedDatasources tx) in
      if \<not> hasRedisTx tx then (Panic, w)
      else if used \<and> recordFails env SRedis k then (Err, w)
      else if durableFails env SRedis k then (Err, w)
      else inner
             (mig_note [Committed SRedis k]
               (if used then w\<lparr>redisRows := AList.update (FormatInt k) RedisData (redisRows w)\<rparr> else w)))"

definition recordsDialect :: "string \<Rightarrow> bool" where
  "recordsDialect d \<longleftrightarrow> d = ''mysql'' \<or> d = ''sqlite'' \<or> d = ''postgres''"

definition sqlMigrator_commitMigration :: "mig_env \<Rightarrow> transactionData \<Rightarrow> commit_op \<Rightarrow> commit_op" where
  "sqlMigrator_commitMigration env tx inner w =
     (let k = MigrationNumber tx; used = (SSQL \<in> UsedDatasources tx \<and> recordsDialect (dialect env)) in
      if \<not> hasSQLTx tx then (Panic, w)
      else if used \<and> (recordFails env SSQL k \<or> k \<in> set (rows w SSQL)) then (Err, w)
      else if durableFails env SSQL k then (Err, w)
      else inner (mig_note [Committed SSQL k] (if used then insert_row SSQL k w else w)))"

definition scyllaMigrator_commitMigration :: "mig_env \<Rightarrow> transactionData \<Rightarrow> commit_op \<Rightarrow> commit_op" where
  "scyllaMigrator_commitMigration env tx inner w =
     (let k = MigrationNumber tx in
      if SScyllaDB \<in> UsedDatasources tx
      then if recordFails env SScyllaDB k then (Err, w) else inner (upsert_row SScyllaDB k w)
      else inner w)"

text \<open>The index over version and method is unique.\<close>

definition surrealMigrator_commitMigration :: "mig_env \<Rightarrow> transactionData \<Rightarrow> commit_op \<Rightarrow> commit_op" where
  "surrealMigrator_commitMigration env tx inner w =
     (let k = MigrationNumber tx in
      if SSurrealDB \<in> UsedDatasources tx
      then if recordFails env SSurrealDB k \<or> k \<in> set (rows w SSurrealDB) then (Err, w) else inner (insert_row SSurrealDB k w)
      else inner w)"

definition store_commit :: "mig_env \<Rightarrow> transactionData \<Rightarrow> store \<Rightarrow> commit_op \<Rightarrow> commit_op" where
  "store_commit env tx s =
     (case s of
        SArangoDB \<Rightarrow> arangoMigrator_commitMigration env tx
      | SCassandra \<Rightarrow> cassandraMigrator_commitMigration env tx
      | SClickhouse \<Rightarrow> clickHouseMigrator_commitMigration env tx
      | SDGraph \<Rightarrow> dgraphMigrator_commitMigration env tx
      | SElasticsearch \<Rightarrow> elasticsearchMigrator_commitMigration env tx
      | SMongo \<Rightarrow> mongoMigrator_commitMigration env tx
      | SOpenTSDB \<Rightarrow> openTSDBMigrator_commitMigration env tx
      | SOracle \<Rightarrow> oracleMigrator_commitMigration env tx
      | SPubSub \<Rightarrow> pubsubMigrator_commitMigration
      | SRedis \<Rightarrow> redisMigrator_commitMigration env tx
      | SSQL \<Rightarrow> sqlMigrator_commitMigration env tx
      | SScyllaDB \<Rightarrow> scyllaMigrator_commitMigration env tx
      | SSurrealDB \<Rightarrow> surrealMigrator_commitMigration env tx)"

section \<open>Rolling back\<close>

definition then_fatal :: "commit_op \<Rightarrow> commit_op" where
  "then_fatal inner w = (case inner w of (Ok, w1) \<Rightarrow> (Exit, mig_note [Fatal] w1) | r \<Rightarrow> r)"

definition arangoMigrator_rollback :: "commit_op \<Rightarrow> commit_op" where
  "arangoMigrator_rollback inner = then_fatal inner"

definition cassandraMigrator_rollback :: "commit_op \<Rightarrow> commit_op" where
  "cassandraMigrator_rollback inner = then_fatal inner"

definition clickHouseMigrator_rollback :: "commit_op \<Rightarrow> commit_op" where
  "clickHouseMigrator_rollback inner = then_fatal inner"

definition dgraphMigrator_rollback :: "mig_env \<Rightarrow> commit_op \<Rightarrow> commit_op" where
  "dgraphMigrator_rollback env inner w = (if nodgraph env then (Ok, w) else then_fatal inner w)"

definition elasticsearchMigrator_rollback :: "commit_op \<Rightarrow> commit_op" where
  "elasticsearchMigrator_rollback inner = then_fatal inner"

definition mongoMigrator_rollback :: "commit_op \<Rightarrow> commit_op" where
  "mongoMigrator_rollback inner = then_fatal inner"

definition openTSDBMigrator_rollback :: "mig_env \<Rightarrow> commit_op \<Rightarrow> commit_op" where
  "openTSDBMigrator_rollback env inner w = then_fatal inner (if tmpStays env then w else w\<lparr>tsdbTmp := False\<rparr>)"

text \<open>The process ends before the call reaches the wrapped migrators.\<close>

definition oracleMigrator_rollback :: "transactionData \<Rightarrow> commit_op \<Rightarrow> commit_op" where
  "oracleMigrator_rollback tx inner w =
     (if hasOracleTx tx then (Exit, mig_note [RolledBack SOracle, Fatal] w) else inner w)"

definition pubsubMigrator_rollback :: "commit_op \<Rightarrow> commit_op" where
  "pubsubMigrator_rollback inner = inner"

definition redisMigrator_rollback :: "transactionData \<Rightarrow> commit_op \<Rightarrow> commit_op" where
  "redisMigrator_rollback tx inner w =
     (if \<not> hasRedisTx tx then (Panic, w) else then_fatal inner (mig_note [RolledBack SRedis] w))"

definition sqlMigrator_rollback :: "transactionData \<Rightarrow> commit_op \<Rightarrow> commit_op" where
  "sqlMigrator_rollback tx inner w =
     (if \<not> hasSQLTx tx then (Ok, w) else then_fatal inner (mig_note [RolledBack SSQL] w))"

definition scyllaMigrator_rollback :: "commit_op \<Rightarrow> commit_op" where
  "scyllaMigrator_rollback inner = then_fatal inner"

definition surrealMigrator_rollback :: "commit_op \<Rightarrow> commit_op" where
  "surrealMigrator_rollback inner = then_fatal inner"

definition store_rollback :: "mig_env \<Rightarrow> transactionData \<Rightarrow> store \<Rightarrow> commit_op \<Rightarrow> commit_op" where
  "store_rollback env tx s =
     (case s of
        SArangoDB \<Rightarrow> arangoMigrator_rollback
      | SCassandra \<Rightarrow> cassandraMigrator_rollback
      | SClickhouse \<Rightarrow> clickHouseMigrator_rollback
      | SDGraph \<Rightarrow> dgraphMigrator_rollback env
      | SElasticsearch \<Rightarrow> elasticsearchMigrator_rollback
      | SMongo \<Rightarrow> mongoMigrator_rollback
      | SOpenTSDB \<Rightarrow> openTSDBMigrator_rollback env
      | SOracle \<Rightarrow> oracleMigrator_rollback tx
      | SPubSub \<Rightarrow> pubsubMigrator_rollback
      | SRedis \<Rightarrow> redisMigrator_rollback tx
      | SSQL \<Rightarrow> sqlMigrator_rollback tx
      | SScyllaDB \<Rightarrow> scyllaMigrator_rollback
      | SSurrealDB \<Rightarrow> surrealMigrator_rollback)"

section \<open>The end of the chain\<close>

text \<open>The base implementation, \<^verbatim>\<open>datasource.go\<close>.\<close>

definition Datasource_checkAndCreateMigrationTable :: check_op where
  "Datasource_checkAndCreateMigrationTable w = (True, w)"

definition Datasource_getAppliedMigrations :: applied_op where
  "Datasource_getAppliedMigrations w = Some (Some {})"

definition Datasource_commitMigration :: "transactionData \<Rightarrow> commit_op" where
  "Datasource_commitMigration tx w = (Ok, mig_note [Succeeded (MigrationNumber tx)] w)"

definition Datasource_rollback :: commit_op where
  "Datasource_rollback w = (Ok, w)"

lemmas base_layers = Datasource_checkAndCreateMigrationTable_def Datasource_getAppliedMigrations_def
  Datasource_commitMigration_def Datasource_rollback_def

end
