(* ===== verification/Migration_Contracts.thy ===== *)
theory Migration_Contracts
  imports Migration_Stores
begin

text \<open>
  What the layers of the migrator chain keep: the locale \<open>wrapped\<close> lifts a contract from the layers to every chain,
  and its interpretations show that the operations run no migration and lose no record, that reading
  returns what is on record, and what a commit adds. The paging loop over the Elasticsearch index is shown to
  end with all versions.
\<close>

section \<open>The chain\<close>

text \<open>
  A chain of migrators is a list of stores, the outermost first, folded over the base implementation. What holds of
  the base and is kept by every layer holds of every chain.
\<close>

locale wrapped =
  fixes layer :: "'s \<Rightarrow> 'a \<Rightarrow> 'a" and base :: 'a and contract :: "'a \<Rightarrow> bool"
  assumes base_contract: "contract base" and layer_contract: "contract inner \<Longrightarrow> contract (layer s inner)"
begin

lemma chain_contract: "contract (foldr layer ch base)"
  by (induction ch) (simp_all add: base_contract layer_contract)

end

definition ran_of :: "mig_event list \<Rightarrow> int list" where
  "ran_of es = concat (map (\<lambda>e. case e of Ran k \<Rightarrow> [k] | _ \<Rightarrow> []) es)"

definition done_of :: "mig_event list \<Rightarrow> int list" where
  "done_of es = concat (map (\<lambda>e. case e of Finished k \<Rightarrow> [k] | _ \<Rightarrow> []) es)"

text \<open>The versions a store has on record.\<close>

definition recorded :: "mig_world \<Rightarrow> store \<Rightarrow> int set" where
  "recorded w s =
     (case s of
        SRedis \<Rightarrow> (\<lambda>key. fst (Atoi key)) ` fst ` set (redisRows w)
      | SOpenTSDB \<Rightarrow> (case tsdbFile w of TsdbRecords vs \<Rightarrow> set vs | _ \<Rightarrow> {})
      | SPubSub \<Rightarrow> {}
      | _ \<Rightarrow> set (rows w s))"

definition versions :: "store list \<Rightarrow> mig_world \<Rightarrow> int set" where
  "versions ch w = (\<Union>s \<in> set ch. recorded w s)"

text \<open>No migration is run or finished, no record is lost.\<close>

definition quiet :: "mig_world \<Rightarrow> mig_world \<Rightarrow> bool" where
  "quiet w w' \<longleftrightarrow> ran_of (mlog w') = ran_of (mlog w) \<and> done_of (mlog w') = done_of (mlog w) \<and>
     (\<forall>s. recorded w s \<subseteq> recorded w' s)"

named_theorems mig_simps \<open>projections of the updated state\<close>

lemma of_append [mig_simps]: "ran_of (xs @ ys) = ran_of xs @ ran_of ys" "done_of (xs @ ys) = done_of xs @ done_of ys"
  by (simp_all add: ran_of_def done_of_def)

lemma of_single [mig_simps]:
  "ran_of [] = []" "done_of [] = []"
  "ran_of (e # es) = (case e of Ran k \<Rightarrow> [k] | _ \<Rightarrow> []) @ ran_of es"
  "done_of (e # es) = (case e of Finished k \<Rightarrow> [k] | _ \<Rightarrow> []) @ done_of es"
  by (simp_all add: ran_of_def done_of_def)

lemma note_proj [mig_simps]:
  "mlog (mig_note es w) = mlog w @ es" "rows (mig_note es w) = rows w" "redisRows (mig_note es w) = redisRows w"
  "hasTable (mig_note es w) = hasTable w" "tsdbFile (mig_note es w) = tsdbFile w" "locks (mig_note es w) = locks w"
  by (simp_all add: mig_note_def)

lemma table_proj [mig_simps]:
  "mlog (make_table s w) = mlog w" "rows (make_table s w) = rows w" "redisRows (make_table s w) = redisRows w"
  "hasTable (make_table s w) = (hasTable w)(s := True)" "tsdbFile (make_table s w) = tsdbFile w"
  by (simp_all add: make_table_def)

lemma row_proj [mig_simps]:
  "mlog (insert_row s k w) = mlog w" "redisRows (insert_row s k w) = redisRows w" "hasTable (insert_row s k w) = hasTable w"
  "tsdbFile (insert_row s k w) = tsdbFile w" "rows (insert_row s k w) = (rows w)(s := rows w s @ [k])"
  "mlog (upsert_row s k w) = mlog w" "redisRows (upsert_row s k w) = redisRows w" "hasTable (upsert_row s k w) = hasTable w"
  "tsdbFile (upsert_row s k w) = tsdbFile w"
  by (simp_all add: insert_row_def upsert_row_def)

lemma upsert_rows [mig_simps]: "set (rows (upsert_row s k w) t) = (if t = s then insert k (set (rows w t)) else set (rows w t))"
  by (auto simp: upsert_row_def insert_row_def)

lemma recorded_same [mig_simps]:
  "recorded (mig_note es w) = recorded w" "recorded (make_table s w) = recorded w"
  "recorded (w\<lparr>tsdbTmp := b\<rparr>) = recorded w" "recorded (w\<lparr>locks := l\<rparr>) = recorded w" "recorded (w\<lparr>mlog := es\<rparr>) = recorded w"
  by (rule ext, case_tac x; simp add: recorded_def mig_simps)+

text \<open>The stores with a table of their own.\<close>

definition tabled :: "store \<Rightarrow> bool" where
  "tabled s \<longleftrightarrow> s \<notin> {SOpenTSDB, SPubSub, SRedis}"

lemma recorded_rows: "tabled s \<Longrightarrow> recorded w s = set (rows w s)"
  by (cases s) (simp_all add: recorded_def tabled_def)

lemma recorded_insert [mig_simps]:
  "tabled s \<Longrightarrow> recorded (insert_row s k w) t = (if t = s then insert k (recorded w t) else recorded w t)"
  "tabled s \<Longrightarrow> recorded (upsert_row s k w) t = (if t = s then insert k (recorded w t) else recorded w t)"
  by (cases t; auto simp: recorded_def tabled_def mig_simps)+

lemma recorded_redis [mig_simps]:
  "recorded (w\<lparr>redisRows := AList.update key v (redisRows w)\<rparr>) t =
     (if t = SRedis then insert (fst (Atoi key)) (recorded w t) else recorded w t)"
  by (cases t) (simp_all add: recorded_def AList.dom_update)

lemma recorded_tsdb [mig_simps]:
  "recorded (w\<lparr>tsdbFile := f\<rparr>) t = (if t = SOpenTSDB then (case f of TsdbRecords vs \<Rightarrow> set vs | _ \<Rightarrow> {}) else recorded w t)"
  by (cases t) (simp_all add: recorded_def)

lemma tabled_simps [simp]:
  "tabled SArangoDB" "tabled SCassandra" "tabled SClickhouse" "tabled SDGraph" "tabled SElasticsearch" "tabled SMongo"
  "tabled SOracle" "tabled SSQL" "tabled SScyllaDB" "tabled SSurrealDB" "\<not> tabled SOpenTSDB" "\<not> tabled SPubSub" "\<not> tabled SRedis"
  by (simp_all add: tabled_def)

lemma quiet_refl [simp]: "quiet w w" by (simp add: quiet_def)

lemma quiet_trans [trans]: "quiet w1 w2 \<Longrightarrow> quiet w2 w3 \<Longrightarrow> quiet w1 w3"
  by (fastforce simp: quiet_def)

lemma quiet_note [mig_simps]:
  "ran_of es = [] \<Longrightarrow> done_of es = [] \<Longrightarrow> quiet w (mig_note es w') = quiet w w'"
  "ran_of es = [] \<Longrightarrow> done_of es = [] \<Longrightarrow> quiet (mig_note es w) w' = quiet w w'"
  by (simp_all add: quiet_def mig_simps)

lemma quiet_step [mig_simps]:
  "quiet w (make_table s w)" "tabled s \<Longrightarrow> quiet w (insert_row s k w)" "tabled s \<Longrightarrow> quiet w (upsert_row s k w)"
  "quiet w (w\<lparr>redisRows := AList.update key v (redisRows w)\<rparr>)" "quiet w (w\<lparr>tsdbTmp := b\<rparr>)" "quiet w (w\<lparr>locks := l\<rparr>)"
  by (auto simp: quiet_def mig_simps)

text \<open>Definitions of the layers, operation by operation.\<close>

lemmas check_layers =
  arangoMigrator_checkAndCreateMigrationTable_def cassandraMigrator_checkAndCreateMigrationTable_def
  clickHouseMigrator_checkAndCreateMigrationTable_def dgraphMigrator_checkAndCreateMigrationTable_def
  elasticsearchMigrator_checkAndCreateMigrationTable_def mongoMigrator_checkAndCreateMigrationTable_def
  openTSDBMigrator_checkAndCreateMigrationTable_def openTSDBMigrator_validateExistingFile_def
  openTSDBMigrator_createEmptyMigrationFile_def oracleMigrator_checkAndCreateMigrationTable_def
  sqlMigrator_checkAndCreateMigrationTable_def scyllaMigrator_checkAndCreateMigrationTable_def

lemmas applied_layers =
  arangoMigrator_getAppliedMigrations_def cassandraMigrator_getAppliedMigrations_def clickHouseMigrator_getAppliedMigrations_def
  dgraphMigrator_getAppliedMigrations_def elasticsearchMigrator_getAppliedMigrations_def mongoMigrator_getAppliedMigrations_def
  openTSDBMigrator_getAppliedMigrations_def oracleMigrator_getAppliedMigrations_def pubsubMigrator_getAppliedMigrations_def
  redisMigrator_getAppliedMigrations_def sqlMigrator_getAppliedMigrations_def scyllaMigrator_getAppliedMigrations_def
  surrealMigrator_getAppliedMigrations_def

lemmas plain_commit_layers =
  arangoMigrator_commitMigration_def cassandraMigrator_commitMigration_def clickHouseMigrator_commitMigration_def
  dgraphMigrator_commitMigration_def elasticsearchMigrator_commitMigration_def mongoMigrator_commitMigration_def
  pubsubMigrator_commitMigration_def scyllaMigrator_commitMigration_def surrealMigrator_commitMigration_def

lemmas commit_layers = plain_commit_layers
  oracleMigrator_commitMigration_def redisMigrator_commitMigration_def sqlMigrator_commitMigration_def

lemmas rollback_layers =
  arangoMigrator_rollback_def cassandraMigrator_rollback_def clickHouseMigrator_rollback_def dgraphMigrator_rollback_def
  elasticsearchMigrator_rollback_def mongoMigrator_rollback_def openTSDBMigrator_rollback_def oracleMigrator_rollback_def
  pubsubMigrator_rollback_def redisMigrator_rollback_def sqlMigrator_rollback_def scyllaMigrator_rollback_def surrealMigrator_rollback_def

section \<open>Contracts of the layers\<close>

text \<open>An operation runs no migration and loses no record.\<close>

definition quiet_op :: "(mig_world \<Rightarrow> 'r \<times> mig_world) \<Rightarrow> bool" where
  "quiet_op f \<longleftrightarrow> (\<forall>w. quiet w (snd (f w)))"

lemma quiet_opD: "quiet_op f \<Longrightarrow> quiet w w1 \<Longrightarrow> quiet w (snd (f w1))"
  unfolding quiet_op_def using quiet_trans by blast

lemma quiet_opI: "(\<And>w. quiet w (snd (f w))) \<Longrightarrow> quiet_op f"
  by (simp add: quiet_op_def)

lemma quiet_prod: "quiet w (snd p) \<Longrightarrow> p = (r, w') \<Longrightarrow> quiet w w'"
  by simp

lemma quiet_note_step: "tabled s \<Longrightarrow> quiet w (mig_note [Committed t j] (if b then insert_row s k w else w))"
  "quiet w (mig_note [Committed t j] (if b then w\<lparr>redisRows := AList.update key v (redisRows w)\<rparr> else w))"
  by (simp_all add: mig_simps)

lemma surreal_quiet: "quiet_op inner \<Longrightarrow> quiet_op (surreal_queries env qs inner)"
proof (induction qs)
  case Nil
  then show ?case by (simp add: quiet_op_def)
next
  case (Cons q qs)
  then have "quiet_op (surreal_queries env qs inner)" by blast
  from quiet_opD [OF this] show ?case by (simp add: quiet_opI mig_simps)
qed

lemma tsdb_commit_quiet:
  assumes "quiet_op inner"
  shows "quiet_op (openTSDBMigrator_commitMigration env tx inner)"
proof (rule quiet_opI)
  fix w
  obtain r w1 where i: "inner w = (r, w1)" by (rule prod.exhaust)
  then have q: "quiet w w1" using quiet_opD [OF assms quiet_refl [of w]] by simp
  let ?k = "MigrationNumber tx"
  have f: "quiet w1 (snd (openTSDBMigrator_writeMigrationsAtomically env ?k (ms @ [?k]) w1))"
    if "openTSDBMigrator_loadMigrationsUnsafe b w1 = Some ms" for b ms
  proof -
    have "recorded w1 SOpenTSDB \<subseteq> set (ms @ [?k])"
      using that by (auto simp: openTSDBMigrator_loadMigrationsUnsafe_def recorded_def split: tsdb_file.splits if_splits)
    then show ?thesis by (auto simp: openTSDBMigrator_writeMigrationsAtomically_def quiet_def mig_simps)
  qed
  show "quiet w (snd (openTSDBMigrator_commitMigration env tx inner w))"
    using q quiet_prod [OF quiet_trans [OF q f]]
    by (auto simp: openTSDBMigrator_commitMigration_def i Let_def split: mig_result.split option.split prod.splits bool.split)
qed

lemma check_quiet:
  assumes "quiet_op inner"
  shows "quiet_op (store_check env s inner)"
proof (rule quiet_opI)
  fix w
  have f: "quiet w (w\<lparr>tsdbFile := f\<rparr>)" if "tsdbFile w = NoFile" for f
    using that by (simp add: quiet_def mig_simps) (simp add: recorded_def)
  note q = quiet_opD [OF assms] and sq = quiet_opD [OF surreal_quiet [OF assms] quiet_refl]
  show "quiet w (snd (store_check env s inner w))"
    by (cases s)
      (simp_all add: store_check_def check_layers surrealMigrator_checkAndCreateMigrationTable_def Let_def q sq f mig_simps)
qed

lemma commit_quiet:
  assumes "quiet_op inner"
  shows "quiet_op (store_commit env tx s inner)"
proof (rule quiet_opI)
  fix w
  note q = quiet_opD [OF assms] and tq = quiet_opD [OF tsdb_commit_quiet [OF assms] quiet_refl]
  show "quiet w (snd (store_commit env tx s inner w))"
    by (cases s) (simp_all add: store_commit_def commit_layers Let_def q tq mig_simps)
qed

lemma then_fatal_quiet:
  assumes "quiet_op inner"
  shows "quiet_op (then_fatal inner)"
proof (rule quiet_opI)
  fix w
  obtain r w1 where i: "inner w = (r, w1)" by (rule prod.exhaust)
  then have "quiet w w1" using quiet_opD [OF assms quiet_refl [of w]] by simp
  then show "quiet w (snd (then_fatal inner w))" by (cases r) (simp_all add: then_fatal_def i mig_simps)
qed

lemma rollback_quiet:
  assumes "quiet_op inner"
  shows "quiet_op (store_rollback env tx s inner)"
proof (rule quiet_opI)
  fix w
  note q = quiet_opD [OF assms] quiet_opD [OF then_fatal_quiet [OF assms]]
  show "quiet w (snd (store_rollback env tx s inner w))"
    by (cases s) (simp_all add: store_rollback_def rollback_layers q mig_simps)
qed

interpretation quiet_check: wrapped "store_check env" Datasource_checkAndCreateMigrationTable quiet_op for env
  by unfold_locales (simp_all add: quiet_op_def [of Datasource_checkAndCreateMigrationTable] base_layers check_quiet)

interpretation quiet_commit: wrapped "store_commit env tx" "Datasource_commitMigration tx" quiet_op for env tx
  by unfold_locales (simp_all add: quiet_op_def [of "Datasource_commitMigration _"] base_layers commit_quiet mig_simps)

interpretation quiet_rollback: wrapped "store_rollback env tx" Datasource_rollback quiet_op for env tx
  by unfold_locales (simp_all add: quiet_op_def [of Datasource_rollback] base_layers rollback_quiet)

section \<open>Paging through the Elasticsearch index\<close>

text \<open>The documented answer to a search sorted by descending version: the first hits below the version to search after.
  A search may still fail.\<close>

definition below :: "int option \<Rightarrow> int \<Rightarrow> bool" where
  "below after v \<longleftrightarrow> (case after of None \<Rightarrow> True | Some l \<Rightarrow> v < l)"

definition es_page :: "int list \<Rightarrow> int option \<Rightarrow> int list" where
  "es_page idx after = take elasticsearchMigrationPageSize (filter (below after) (rev (sort idx)))"

definition es_documented :: "mig_env \<Rightarrow> bool" where
  "es_documented env \<longleftrightarrow>
     (\<forall>n b idx after r. esSearch env n b idx after = Some r \<longrightarrow> r = Hits (map (\<lambda>v. Field (VFloat v)) (es_page idx after)))"

lemma page_versions: "extractMigrationVersions (Hits (map (\<lambda>v. Field (VFloat v)) vs)) = (vs, length vs)"
  by (simp add: extractMigrationVersions_def hit_version_def comp_def)

lemma below_last:
  fixes D :: "int list"
  assumes "sorted_wrt (\<ge>) D" and "n < length D"
  shows "set D \<subseteq> set (take (Suc n) D) \<union> {v. v < D ! n}"
proof
  fix v assume "v \<in> set D"
  then obtain i where i: "i < length D" "D ! i = v" by (auto simp: in_set_conv_nth)
  show "v \<in> set (take (Suc n) D) \<union> {v. v < D ! n}"
  proof (cases "i \<le> n")
    case True
    with i have "v = take (Suc n) D ! i" "i < length (take (Suc n) D)" by simp_all
    then show ?thesis by (metis UnI1 nth_mem)
  next
    case False
    then have "v \<le> D ! n" using sorted_wrt_nth_less [OF assms(1), of n i] i by simp
    moreover have "D ! n \<in> set (take (Suc n) D)" using assms(2) by (simp add: take_Suc_conv_app_nth)
    ultimately show ?thesis by (cases "v = D ! n") auto
  qed
qed

text \<open>The loop ends, with an error or with all versions below the one it starts after.\<close>

lemma es_pages_complete:
  assumes search: "\<And>after r. search after = Some r \<Longrightarrow> r = Hits (map (\<lambda>v. Field (VFloat v)) (es_page idx after))"
  shows "es_pages search acc after = Some None \<and> (\<exists>a. search a = None) \<or>
    (\<exists>vs. es_pages search acc after = Some (Some (acc @ vs)) \<and> set vs = {v \<in> set idx. below after v})"
proof (induction "card {v \<in> set idx. below after v}" arbitrary: acc after rule: less_induct)
  case less
  let ?D = "filter (below after) (rev (sort idx))" and ?N = elasticsearchMigrationPageSize
  have D: "set ?D = {v \<in> set idx. below after v}" by auto
  show ?case
  proof (cases "search after")
    case None
    then show ?thesis by (subst (1 2) es_pages.simps) auto
  next
    case (Some r)
    then have x: "extractMigrationVersions r = (take ?N ?D, length (take ?N ?D))"
      using search [OF Some] by (simp add: page_versions es_page_def)
    show ?thesis
    proof (cases "length ?D < ?N")
      case True
      then have "es_pages search acc after = Some (Some (acc @ ?D))"
        using x Some by (subst es_pages.simps) simp
      then show ?thesis using D by blast
    next
      case False
      define l where "l = ?D ! (?N - 1)"
      have N: "?N = Suc (?N - 1)" "?N - 1 < length ?D" using False by (simp_all add: elasticsearchMigrationPageSize_def)
      have "take ?N ?D = take (?N - 1) ?D @ [l]" unfolding l_def using take_Suc_conv_app_nth [OF N(2)] N(1) by simp
      then have "take ?N ?D \<noteq> []" "last (take ?N ?D) = l" by simp_all
      then have step: "es_pages search acc after = es_pages search (acc @ take ?N ?D) (Some l)"
        using x Some False by (subst es_pages.simps) simp
      have lin: "l \<in> set ?D" unfolding l_def using N(2) by (rule nth_mem)
      have "sorted_wrt (\<ge>) (rev (sort idx))" by (simp add: sorted_wrt_rev)
      then have "sorted_wrt (\<ge>) ?D" by (rule sorted_wrt_filter)
      from below_last [OF this N(2)] have cover: "set ?D \<subseteq> set (take ?N ?D) \<union> {v. v < l}" unfolding l_def using N(1) by simp
      have sub: "{v \<in> set idx. below (Some l) v} \<subseteq> set ?D"
        using lin by (auto simp: below_def split: option.splits)
      moreover have "l \<notin> {v \<in> set idx. below (Some l) v}" by (simp add: below_def)
      ultimately have "{v \<in> set idx. below (Some l) v} \<subset> set ?D" using lin by blast
      then have "card {v \<in> set idx. below (Some l) v} < card {v \<in> set idx. below after v}"
        unfolding D by (intro psubset_card_mono) auto
      from less [OF this, of "acc @ take ?N ?D"] show ?thesis
      proof
        assume "es_pages search (acc @ take ?N ?D) (Some l) = Some None \<and> (\<exists>a. search a = None)"
        then show ?thesis using step by simp
      next
        assume "\<exists>vs. es_pages search (acc @ take ?N ?D) (Some l) = Some (Some ((acc @ take ?N ?D) @ vs)) \<and>
          set vs = {v \<in> set idx. below (Some l) v}"
        then obtain vs where vs: "es_pages search (acc @ take ?N ?D) (Some l) = Some (Some ((acc @ take ?N ?D) @ vs))"
          "set vs = {v \<in> set idx. below (Some l) v}" by blast
        have "set (take ?N ?D @ vs) = set ?D"
          using cover sub vs(2) set_take_subset [of ?N ?D] by (auto simp: below_def)
        then show ?thesis using step vs(1) D by auto
      qed
    qed
  qed
qed

section \<open>Reading is exact\<close>

text \<open>The drivers return the numbers that were stored.\<close>

definition reads_back :: "mig_env \<Rightarrow> bool" where
  "reads_back env \<longleftrightarrow> es_documented env \<and> (\<forall>n. dgraphAnswers env n) \<and>
     (\<forall>v. oracle_row (driverValue env SOracle v) = [v] \<and> surreal_row (driverValue env SSurrealDB v) = [v])"

text \<open>The call to a store that reads its records succeeds.\<close>

definition readable :: "mig_env \<Rightarrow> nat \<Rightarrow> mig_world \<Rightarrow> store \<Rightarrow> bool" where
  "readable env n w s \<longleftrightarrow>
     (case s of
        SPubSub \<Rightarrow> True
      | SRedis \<Rightarrow> \<not> queryFails env n SRedis True \<and> \<not> list_ex (\<lambda>(key, v). v = Malformed) (redisRows w)
      | SOpenTSDB \<Rightarrow> \<not> queryFails env n SOpenTSDB True \<and> tsdbFile w \<noteq> Corrupted
      | SElasticsearch \<Rightarrow> (\<forall>after. esSearch env n (hasTable w SElasticsearch) (rows w SElasticsearch) after \<noteq> None)
      | SDGraph \<Rightarrow> \<not> nodgraph env \<and> \<not> queryFails env n SDGraph (hasTable w SDGraph)
      | _ \<Rightarrow> \<not> queryFails env n s (hasTable w s))"

lemma elastic_fetch:
  assumes "es_documented env"
  shows "\<exists>f. getElasticsearchMigrationVersions env n w = Some f \<and> (\<forall>vs. f = Some vs \<longrightarrow> set vs = recorded w SElasticsearch) \<and>
    (readable env n w SElasticsearch \<longrightarrow> f \<noteq> None)"
proof -
  let ?s = "esSearch env n (hasTable w SElasticsearch) (rows w SElasticsearch)"
  have "r = Hits (map (\<lambda>v. Field (VFloat v)) (es_page (rows w SElasticsearch) a))" if "?s a = Some r" for a r
    using assms that unfolding es_documented_def by blast
  from es_pages_complete [of ?s, OF this, of "[]" None] show ?thesis
    by (auto simp: getElasticsearchMigrationVersions_def recorded_def readable_def below_def)
qed

lemma store_applied_fetch:
  assumes "reads_back env"
  shows "\<exists>f. store_applied env n s inner w = add_versions f (inner w) \<and> (\<forall>vs. f = Some vs \<longrightarrow> set vs = recorded w s) \<and>
    (readable env n w s \<longrightarrow> f \<noteq> None)"
proof -
  have d: "oracle_row (driverValue env SOracle v) = [v]" "surreal_row (driverValue env SSurrealDB v) = [v]" "dgraphAnswers env m" for v m
    using assms by (simp_all add: reads_back_def)
  have "es_documented env" using assms by (simp add: reads_back_def)
  from elastic_fetch [OF this, of n w] obtain fe
    where fe: "getElasticsearchMigrationVersions env n w = Some fe" "\<forall>vs. fe = Some vs \<longrightarrow> set vs = recorded w SElasticsearch"
      "readable env n w SElasticsearch \<longrightarrow> fe \<noteq> None" by blast
  have keep: "add_versions (Some []) r = r" for r by (simp add: add_versions_def split: option.split)
  show ?thesis
  proof (cases s)
    case SElasticsearch
    then show ?thesis using fe by (intro exI [of _ fe]) (simp add: store_applied_def applied_layers)
  next
    case SPubSub
    then show ?thesis by (intro exI [of _ "Some []"]) (simp add: store_applied_def applied_layers keep recorded_def)
  next
    case SDGraph
    show ?thesis
    proof (cases "nodgraph env")
      case True
      with SDGraph show ?thesis by (intro exI [of _ None]) (simp add: store_applied_def applied_layers add_versions_def readable_def)
    next
      case False
      with SDGraph show ?thesis
        by (intro exI [of _ "query_rows env n SDGraph w"]) (simp add: store_applied_def applied_layers readable_def recorded_def d)
    qed
  next
    case SRedis
    then show ?thesis
      by (intro exI [of _ "if queryFails env n SRedis True \<or> list_ex (\<lambda>(key, v). v = Malformed) (redisRows w) then None
          else Some (map (\<lambda>(key, v). fst (Atoi key)) (redisRows w))"] conjI)
        (auto simp: store_applied_def applied_layers readable_def recorded_def image_image case_prod_beta')
  next
    case SOpenTSDB
    then show ?thesis
      by (intro exI [of _ "openTSDBMigrator_loadMigrationsUnsafe (queryFails env n SOpenTSDB True) w"] conjI)
        (auto simp: store_applied_def applied_layers readable_def recorded_def openTSDBMigrator_loadMigrationsUnsafe_def
          split: tsdb_file.splits)
  qed (rule exI [of _ "query_rows env n s w"], simp add: store_applied_def applied_layers add_versions_def readable_def recorded_def d split: option.split)+
qed

lemma applied_exact:
  assumes "reads_back env"
  shows "(foldr (store_applied env n) ch Datasource_getAppliedMigrations w = Some None \<and> \<not> (\<forall>s \<in> set ch. readable env n w s)) \<or>
    foldr (store_applied env n) ch Datasource_getAppliedMigrations w = Some (Some (versions ch w))"
proof (induction ch)
  case Nil
  then show ?case by (simp add: base_layers versions_def)
next
  case (Cons s ch)
  let ?inner = "foldr (store_applied env n) ch Datasource_getAppliedMigrations"
  obtain f where f: "store_applied env n s ?inner w = add_versions f (?inner w)" "\<forall>vs. f = Some vs \<longrightarrow> set vs = recorded w s"
    "readable env n w s \<longrightarrow> f \<noteq> None" using store_applied_fetch [OF assms, of n s ?inner w] by blast
  show ?case
  proof (cases f)
    case None
    then show ?thesis using f by (simp add: add_versions_def)
  next
    case (Some vs)
    then have r: "set vs = recorded w s" using f(2) by blast
    from Cons show ?thesis
    proof
      assume "?inner w = Some None \<and> \<not> (\<forall>s \<in> set ch. readable env n w s)"
      then show ?thesis using f(1) Some by (simp add: add_versions_def)
    next
      assume "?inner w = Some (Some (versions ch w))"
      then show ?thesis using f(1) Some r by (simp add: add_versions_def versions_def Un_commute)
    qed
  qed
qed

section \<open>What a commit adds\<close>

text \<open>An operation for the migration \<open>k\<close> adds no other record, and damages neither tables nor the file.\<close>

definition frame_op :: "int \<Rightarrow> commit_op \<Rightarrow> bool" where
  "frame_op k f \<longleftrightarrow> (\<forall>w. (\<forall>s. set (rows (snd (f w)) s) \<subseteq> insert k (set (rows w s))) \<and>
     hasTable (snd (f w)) = hasTable w \<and> (tsdbFile w \<noteq> Corrupted \<longrightarrow> tsdbFile (snd (f w)) \<noteq> Corrupted))"

lemma frame_opD:
  assumes "frame_op k f"
  shows "set (rows w1 s) \<subseteq> insert k R \<Longrightarrow> set (rows (snd (f w1)) s) \<subseteq> insert k R"
    and "hasTable (snd (f w)) = hasTable w" and "tsdbFile w \<noteq> Corrupted \<Longrightarrow> tsdbFile (snd (f w)) \<noteq> Corrupted"
  using assms unfolding frame_op_def by blast+

lemma frame_opI:
  assumes "\<And>w s. set (rows (snd (f w)) s) \<subseteq> insert k (set (rows w s))" and "\<And>w. hasTable (snd (f w)) = hasTable w"
    and "\<And>w. tsdbFile w \<noteq> Corrupted \<Longrightarrow> tsdbFile (snd (f w)) \<noteq> Corrupted"
  shows "frame_op k f"
  using assms by (simp add: frame_op_def)

lemma tsdb_commit_cases:
  assumes "openTSDBMigrator_commitMigration env tx inner w = (r, w')"
  shows "inner w = (r, w') \<or> (\<exists>w1. inner w = (Ok, w1) \<and>
    (w' = w1 \<or> w' = w1\<lparr>tsdbTmp := tmpLeft env (MigrationNumber tx)\<rparr> \<or> (\<exists>vs. w' = w1\<lparr>tsdbFile := TsdbRecords vs, tsdbTmp := False\<rparr>)))"
  using assms
  by (auto simp: openTSDBMigrator_commitMigration_def openTSDBMigrator_writeMigrationsAtomically_def Let_def
      split: prod.splits mig_result.splits option.splits if_splits)

lemma tsdb_commit_frame:
  assumes "frame_op k inner"
  shows "frame_op k (openTSDBMigrator_commitMigration env tx inner)"
proof -
  have "rows w' = rows (snd (inner w)) \<and> hasTable w' = hasTable (snd (inner w)) \<and>
      (tsdbFile (snd (inner w)) \<noteq> Corrupted \<longrightarrow> tsdbFile w' \<noteq> Corrupted)"
    if "openTSDBMigrator_commitMigration env tx inner w = (r, w')" for w r w'
    using tsdb_commit_cases [OF that] by auto
  then have "rows (snd (openTSDBMigrator_commitMigration env tx inner w)) = rows (snd (inner w)) \<and>
      hasTable (snd (openTSDBMigrator_commitMigration env tx inner w)) = hasTable (snd (inner w)) \<and>
      (tsdbFile (snd (inner w)) \<noteq> Corrupted \<longrightarrow> tsdbFile (snd (openTSDBMigrator_commitMigration env tx inner w)) \<noteq> Corrupted)" for w
    by (metis prod.collapse)
  with assms show ?thesis unfolding frame_op_def by simp
qed

lemma commit_frame:
  assumes "frame_op (MigrationNumber tx) inner"
  shows "frame_op (MigrationNumber tx) (store_commit env tx s inner)"
proof -
  note f = frame_opD [OF assms]
  show ?thesis
  proof (cases "s = SOpenTSDB")
    case True
    then show ?thesis using tsdb_commit_frame [OF assms] by (simp add: store_commit_def)
  next
    case False
    show ?thesis
    proof (rule frame_opI)
      show "set (rows (snd (store_commit env tx s inner w)) t) \<subseteq> insert (MigrationNumber tx) (set (rows w t))" for w t
        by (cases s) (use False in \<open>simp_all add: store_commit_def commit_layers Let_def f mig_simps subset_insertI\<close>)
      show "hasTable (snd (store_commit env tx s inner w)) = hasTable w" for w
        by (cases s) (use False in \<open>simp_all add: store_commit_def commit_layers Let_def f mig_simps\<close>)
      show "tsdbFile (snd (store_commit env tx s inner w)) \<noteq> Corrupted" if "tsdbFile w \<noteq> Corrupted" for w
        by (cases s) (use False that in \<open>simp_all add: store_commit_def commit_layers Let_def f mig_simps\<close>)
    qed
  qed
qed

interpretation frame_commit: wrapped "store_commit env tx" "Datasource_commitMigration tx" "frame_op (MigrationNumber tx)" for env tx
  by unfold_locales (auto simp: frame_op_def [of _ "Datasource_commitMigration _"] base_layers commit_frame mig_simps)

lemma store_commit_simps:
  "store_commit env tx SArangoDB = arangoMigrator_commitMigration env tx"
  "store_commit env tx SCassandra = cassandraMigrator_commitMigration env tx"
  "store_commit env tx SClickhouse = clickHouseMigrator_commitMigration env tx"
  "store_commit env tx SDGraph = dgraphMigrator_commitMigration env tx"
  "store_commit env tx SElasticsearch = elasticsearchMigrator_commitMigration env tx"
  "store_commit env tx SMongo = mongoMigrator_commitMigration env tx"
  "store_commit env tx SOpenTSDB = openTSDBMigrator_commitMigration env tx"
  "store_commit env tx SOracle = oracleMigrator_commitMigration env tx"
  "store_commit env tx SPubSub = pubsubMigrator_commitMigration"
  "store_commit env tx SRedis = redisMigrator_commitMigration env tx"
  "store_commit env tx SSQL = sqlMigrator_commitMigration env tx"
  "store_commit env tx SScyllaDB = scyllaMigrator_commitMigration env tx"
  "store_commit env tx SSurrealDB = surrealMigrator_commitMigration env tx"
  by (simp_all add: store_commit_def)

abbreviation chain_commit :: "mig_env \<Rightarrow> transactionData \<Rightarrow> store list \<Rightarrow> commit_op" where
  "chain_commit env tx ch \<equiv> foldr (store_commit env tx) ch (Datasource_commitMigration tx)"

text \<open>A commit for which no call fails succeeds.\<close>

definition commit_ready :: "mig_env \<Rightarrow> transactionData \<Rightarrow> store list \<Rightarrow> mig_world \<Rightarrow> bool" where
  "commit_ready env tx ch w \<longleftrightarrow>
     (\<forall>s. \<not> recordFails env s (MigrationNumber tx) \<and> \<not> durableFails env s (MigrationNumber tx)) \<and>
     (SSQL \<in> set ch \<longrightarrow> hasSQLTx tx) \<and> (SRedis \<in> set ch \<longrightarrow> hasRedisTx tx) \<and> (SOracle \<in> set ch \<longrightarrow> hasOracleTx tx) \<and>
     (SDGraph \<in> set ch \<longrightarrow> \<not> nodgraph env) \<and> (\<forall>s \<in> set ch. tabled s \<longrightarrow> MigrationNumber tx \<notin> set (rows w s)) \<and> tsdbFile w \<noteq> Corrupted"

lemma ready_step:
  assumes "commit_ready env tx (s # ch) w" and "s \<notin> set ch" and "\<And>t. t \<noteq> s \<Longrightarrow> set (rows w1 t) = set (rows w t)" and "tsdbFile w1 = tsdbFile w"
  shows "commit_ready env tx ch w1"
proof -
  have "MigrationNumber tx \<notin> set (rows w1 t)" if "t \<in> set ch" "tabled t" for t
  proof -
    have "t \<noteq> s" using that assms(2) by blast
    then show ?thesis using that assms(1,3) by (simp add: commit_ready_def)
  qed
  with assms(1,4) show ?thesis by (simp add: commit_ready_def)
qed

lemma commit_succeeds: "commit_ready env tx ch w \<Longrightarrow> distinct ch \<Longrightarrow> fst (chain_commit env tx ch w) = Ok"
proof (induction ch arbitrary: w)
  case Nil
  then show ?case by (simp add: base_layers)
next
  case (Cons s ch)
  have ready: "commit_ready env tx ch w1" if "\<And>t. t \<noteq> s \<Longrightarrow> set (rows w1 t) = set (rows w t)" "tsdbFile w1 = tsdbFile w" for w1
    using ready_step [OF Cons.prems(1) _ that] Cons.prems(2) by simp
  have inner: "fst (chain_commit env tx ch w1) = Ok" if "\<forall>t. t \<noteq> s \<longrightarrow> set (rows w1 t) = set (rows w t)" "tsdbFile w1 = tsdbFile w" for w1
    using Cons.IH [OF ready] that Cons.prems(2) by simp
  show ?case
  proof (cases "s = SOpenTSDB")
    case True
    obtain w1 where w1: "chain_commit env tx ch w = (Ok, w1)" using inner [of w] by (metis prod.collapse)
    have "tsdbFile w1 \<noteq> Corrupted"
      using frame_opD(3) [OF frame_commit.chain_contract [of tx env ch], of w] w1 Cons.prems(1) by (simp add: commit_ready_def)
    then obtain vs where "openTSDBMigrator_loadMigrationsUnsafe False w1 = Some vs"
      by (cases "tsdbFile w1") (simp_all add: openTSDBMigrator_loadMigrationsUnsafe_def)
    with True w1 Cons.prems(1) show ?thesis
      by (simp add: store_commit_simps openTSDBMigrator_commitMigration_def commit_ready_def Let_def
          openTSDBMigrator_writeMigrationsAtomically_def)
  next
    case False
    then show ?thesis
      using Cons.prems(1)
      by (cases s) (simp_all add: store_commit_simps commit_layers commit_ready_def Let_def inner mig_simps)
  qed
qed

text \<open>The stores that keep a record of the migrations that used them.\<close>

definition records_in :: "mig_env \<Rightarrow> store \<Rightarrow> bool" where
  "records_in env s \<longleftrightarrow> s \<noteq> SPubSub \<and> (s = SSQL \<longrightarrow> recordsDialect (dialect env))"

lemma Atoi_FormatInt:
  assumes "minInt64 \<le> k" and "k \<le> maxInt64"
  shows "Atoi (FormatInt k) = (k, None)"
proof (cases "k < 0")
  case True
  then have "list_all is_digit (show_nat (nat (- k)))" by (simp add: show_nat_digits)
  with True assms show ?thesis by (simp add: FormatInt_def Atoi_def Let_def atoi_range_def int64_num)
next
  case False
  then show ?thesis using Atoi_show_nat [of "nat k"] assms(2) by (simp add: FormatInt_def)
qed

text \<open>A commit that succeeds has recorded the migration in every store it used.\<close>

lemma commit_records:
  assumes "chain_commit env tx ch w = (Ok, w')" and "s \<in> set ch" and "s \<in> UsedDatasources tx" and "records_in env s"
    and "minInt64 \<le> MigrationNumber tx" and "MigrationNumber tx \<le> maxInt64"
  shows "MigrationNumber tx \<in> recorded w' s"
  using assms(1,2)
proof (induction ch arbitrary: w w')
  case (Cons t ch)
  let ?k = "MigrationNumber tx" and ?inner = "chain_commit env tx ch"
  have k: "fst (Atoi (FormatInt ?k)) = ?k" using Atoi_FormatInt [OF assms(5,6)] by simp
  have q: "quiet w1 w2" if "?inner w1 = (r, w2)" for w1 r w2
    using quiet_opD [OF quiet_commit.chain_contract [of env tx ch] quiet_refl [of w1]] that by simp
  have later: "?k \<in> recorded w2 s" if "?inner w1 = (Ok, w2)" "?k \<in> recorded w1 s" for w1 w2
    using q [OF that(1)] that(2) by (auto simp: quiet_def)
  show ?case
  proof (cases "t = s")
    case False
    then have s: "s \<in> set ch" using Cons.prems(2) by simp
    obtain w1 w2 where i: "?inner w1 = (Ok, w2)" and w2: "w' = w2 \<or> t = SOpenTSDB \<and> recorded w' s = recorded w2 s"
    proof (cases "t = SOpenTSDB")
      case True
      have "recorded (w1\<lparr>tsdbFile := f, tsdbTmp := b\<rparr>) s = recorded w1 s" for w1 :: mig_world and f b
        using False True by (cases s) (simp_all add: recorded_def)
      moreover have "openTSDBMigrator_commitMigration env tx ?inner w = (Ok, w')"
        using Cons.prems(1) True by (simp add: store_commit_simps)
      ultimately show ?thesis using that True tsdb_commit_cases [of env tx ?inner w Ok w'] by (auto simp: recorded_same)
    next
      case nt: False
      from Cons.prems(1) nt show ?thesis
        by (cases t) (auto simp: store_commit_simps commit_layers Let_def split: if_splits intro: that)
    qed
    from Cons.IH [OF i s] w2 show ?thesis by auto
  next
    case True
    show ?thesis
    proof (cases "t = SOpenTSDB")
      case o: True
      show ?thesis
        using Cons.prems(1) True o assms(3)
        by (auto simp: store_commit_simps openTSDBMigrator_commitMigration_def openTSDBMigrator_loadMigrationsUnsafe_def
            openTSDBMigrator_writeMigrationsAtomically_def Let_def recorded_def migrationExists_def list_ex_iff
            split: prod.splits mig_result.splits option.splits if_splits tsdb_file.splits)
    next
      case nt: False
      have "\<exists>w1. ?inner w1 = (Ok, w') \<and> ?k \<in> recorded w1 s"
        using Cons.prems(1) True nt assms(3,4)
        by (cases s) (simp_all add: store_commit_simps commit_layers Let_def records_in_def split: if_splits,
            (rule exI, erule conjI, simp add: mig_simps k)+)
      then show ?thesis using later by blast
    qed
  qed
qed simp

section \<open>What the creation of the tables changes\<close>

definition kept :: "mig_world \<Rightarrow> mig_world \<Rightarrow> bool" where
  "kept w w' \<longleftrightarrow> mlog w' = mlog w \<and> rows w' = rows w \<and> redisRows w' = redisRows w \<and> recorded w' = recorded w \<and>
     (\<forall>s. hasTable w s \<longrightarrow> hasTable w' s)"

definition kept_op :: "check_op \<Rightarrow> bool" where
  "kept_op f \<longleftrightarrow> (\<forall>w. kept w (snd (f w)))"

lemma kept_opD: "kept_op f \<Longrightarrow> kept w w1 \<Longrightarrow> kept w (snd (f w1))"
  unfolding kept_op_def kept_def by metis

lemma kept_opI: "(\<And>w. kept w (snd (f w))) \<Longrightarrow> kept_op f"
  by (simp add: kept_op_def)

lemma kept_step [mig_simps]: "kept w w" "kept w (make_table s w)"
  by (simp_all add: kept_def mig_simps)

lemma kept_file: "tsdbFile w = NoFile \<Longrightarrow> f = Corrupted \<or> f = TsdbRecords [] \<Longrightarrow> kept w (w\<lparr>tsdbFile := f\<rparr>)"
  by (auto simp: kept_def recorded_def fun_eq_iff split: store.splits)

lemma surreal_kept: "kept_op inner \<Longrightarrow> kept_op (surreal_queries env qs inner)"
proof (induction qs)
  case (Cons q qs)
  then have "kept_op (surreal_queries env qs inner)" by blast
  from kept_opD [OF this] show ?case by (simp add: kept_opI mig_simps)
qed (simp add: kept_op_def)

lemma check_kept:
  assumes "kept_op inner"
  shows "kept_op (store_check env s inner)"
proof -
  note q = kept_opD [OF assms] and sq = kept_opD [OF surreal_kept [OF assms] kept_step(1)]
  have "kept w (snd (store_check env s inner w))" for w
    by (cases s)
      (simp_all add: store_check_def check_layers surrealMigrator_checkAndCreateMigrationTable_def Let_def q sq kept_file mig_simps)
  then show ?thesis by (simp add: kept_op_def)
qed

interpretation kept_check: wrapped "store_check env" Datasource_checkAndCreateMigrationTable kept_op for env
  by unfold_locales (simp_all add: kept_op_def [of Datasource_checkAndCreateMigrationTable] base_layers check_kept mig_simps)

abbreviation chain_check :: "mig_env \<Rightarrow> store list \<Rightarrow> check_op" where
  "chain_check env ch \<equiv> foldr (store_check env) ch Datasource_checkAndCreateMigrationTable"

text \<open>No statement fails, apart from the creation of what exists, and the search of an index that does not.\<close>

definition creation_works :: "mig_env \<Rightarrow> bool" where
  "creation_works env \<longleftrightarrow>
     (\<forall>s i b. s \<notin> {SArangoDB, SDGraph, SElasticsearch, SMongo} \<longrightarrow> createError env s i b = None) \<and>
     createError env SArangoDB 0 False = None \<and> createError env SDGraph 0 False = None \<and>
     (\<forall>i b. mongo_tolerates (createError env SMongo i b)) \<and>
     createError env SElasticsearch 0 True = None \<and> createError env SElasticsearch 0 False \<noteq> None \<and>
     createError env SElasticsearch 1 False = None"

lemma surreal_works:
  assumes "creation_works env"
  shows "surreal_queries env qs inner w = inner (if qs = [] then w else make_table SSurrealDB w)"
proof (induction qs arbitrary: w)
  case (Cons q qs)
  have "make_table SSurrealDB (make_table SSurrealDB w) = make_table SSurrealDB w" by (simp add: make_table_def)
  with assms Cons show ?case by (simp add: creation_works_def)
qed simp

lemma store_check_simps:
  "store_check env SArangoDB = arangoMigrator_checkAndCreateMigrationTable env"
  "store_check env SCassandra = cassandraMigrator_checkAndCreateMigrationTable env"
  "store_check env SClickhouse = clickHouseMigrator_checkAndCreateMigrationTable env"
  "store_check env SDGraph = dgraphMigrator_checkAndCreateMigrationTable env"
  "store_check env SElasticsearch = elasticsearchMigrator_checkAndCreateMigrationTable env"
  "store_check env SMongo = mongoMigrator_checkAndCreateMigrationTable env"
  "store_check env SOpenTSDB = openTSDBMigrator_checkAndCreateMigrationTable env"
  "store_check env SOracle = oracleMigrator_checkAndCreateMigrationTable env"
  "store_check env SPubSub = (\<lambda>inner. inner)"
  "store_check env SRedis = (\<lambda>inner. inner)"
  "store_check env SSQL = sqlMigrator_checkAndCreateMigrationTable env"
  "store_check env SScyllaDB = scyllaMigrator_checkAndCreateMigrationTable env"
  "store_check env SSurrealDB = surrealMigrator_checkAndCreateMigrationTable env"
  by (simp_all add: store_check_def)

lemma check_passes:
  assumes "creation_works env" and "s \<noteq> SOpenTSDB" and "s = SDGraph \<Longrightarrow> \<not> nodgraph env"
  shows "\<exists>w1 \<in> {w, make_table s w}. store_check env s inner w = inner w1 \<and> (tabled s \<longrightarrow> hasTable w1 s)"
proof -
  note c = assms(1) [unfolded creation_works_def]
  show ?thesis
  proof (cases "hasTable w s")
    case True
    then show ?thesis
      using c assms(2,3)
      by (cases s) (simp_all add: store_check_simps check_layers surrealMigrator_checkAndCreateMigrationTable_def
          surreal_works [OF assms(1)] getMigrationTableQueries_def Let_def mig_simps)
  next
    case False
    then show ?thesis
      using c assms(2,3)
      by (cases s) (simp_all add: store_check_simps check_layers surrealMigrator_checkAndCreateMigrationTable_def
          surreal_works [OF assms(1)] getMigrationTableQueries_def Let_def mig_simps)
  qed
qed

lemma check_works:
  assumes "creation_works env" and "SDGraph \<in> set ch \<Longrightarrow> \<not> nodgraph env" and "tsdbFile w \<noteq> Corrupted"
  shows "\<exists>w'. chain_check env ch w = (True, w') \<and> kept w w' \<and> tsdbFile w' \<noteq> Corrupted \<and>
    (SOpenTSDB \<in> set ch \<or> (\<forall>s \<in> set ch. tabled s \<longrightarrow> hasTable w' s))"
  using assms(2,3)
proof (induction ch arbitrary: w)
  case Nil
  then show ?case by (simp add: base_layers mig_simps)
next
  case (Cons s ch)
  note c = assms(1) [unfolded creation_works_def]
  have dg: "SDGraph \<in> set ch \<Longrightarrow> \<not> nodgraph env" using Cons.prems(1) by simp
  have pass: ?case if w1: "store_check env s (chain_check env ch) w = chain_check env ch w1" "kept w w1" "tsdbFile w1 = tsdbFile w"
    and t: "tabled s \<Longrightarrow> hasTable w1 s" for w1
  proof -
    from w1(3) Cons.prems(2) have f: "tsdbFile w1 \<noteq> Corrupted" by simp
    from Cons.IH [OF dg f] obtain w' where w': "chain_check env ch w1 = (True, w')" "kept w1 w'" "tsdbFile w' \<noteq> Corrupted"
      "SOpenTSDB \<in> set ch \<or> (\<forall>s \<in> set ch. tabled s \<longrightarrow> hasTable w' s)" by blast
    have "kept w w'" using w'(2) w1(2) by (auto simp: kept_def)
    moreover have "tabled s \<longrightarrow> hasTable w' s" using t w'(2) by (auto simp: kept_def)
    ultimately show ?thesis using w' w1(1) by auto
  qed
  show ?case
  proof (cases "s = SOpenTSDB")
    case True
    then show ?thesis using Cons.prems(2) c
      by (cases "tsdbFile w") (simp_all add: store_check_simps check_layers Let_def kept_file mig_simps)
  next
    case False
    have "s = SDGraph \<Longrightarrow> \<not> nodgraph env" using Cons.prems(1) by simp
    from check_passes [OF assms(1) False this, of w "chain_check env ch"] obtain w1
      where "w1 \<in> {w, make_table s w}" "store_check env s (chain_check env ch) w = chain_check env ch w1" "tabled s \<longrightarrow> hasTable w1 s"
      by blast
    then show ?thesis by (intro pass [of w1]) (auto simp: mig_simps)
  qed
qed

section \<open>Transactions that begin\<close>

abbreviation chain_begin :: "mig_env \<Rightarrow> int \<Rightarrow> store list \<Rightarrow> transactionData" where
  "chain_begin env k ch \<equiv> foldr (store_begin env k) ch no_transaction"

lemma begin_handles:
  assumes "\<not> beginFails env SSQL k" and "\<not> beginFails env SOracle k"
  shows "hasSQLTx (chain_begin env k ch) = (SSQL \<in> set ch) \<and> hasRedisTx (chain_begin env k ch) = (SRedis \<in> set ch) \<and>
    hasOracleTx (chain_begin env k ch) = (SOracle \<in> set ch)"
proof (induction ch)
  case (Cons s ch)
  then show ?case
    using assms
    by (cases s) (simp_all add: store_begin_def sqlMigrator_beginTransaction_def redisMigrator_beginTransaction_def oracleMigrator_beginTransaction_def)
qed (simp add: no_transaction_def)

end
