(* ===== verification/Migration_Lock.thy ===== *)
theory Migration_Lock
  imports Migration_Contracts
begin

text \<open>
  The lock of the migrations: the lock methods of the SQL, Redis, Mongo and Oracle migrators, with the attempt to
  take an expired lock over, the retry loop, the refresh and the release by the owner. The other migrators
  pass the calls on. The loop is shown to end once nobody else keeps the lock, and the lease it gives is
  exclusive under every interleaving of processes.
\<close>

section \<open>One attempt\<close>

definition defaultRetry :: int where "defaultRetry = 500"
definition defaultLockTTL :: int where "defaultLockTTL = 15000"
definition defaultRefresh :: int where "defaultRefresh = 5000"

definition isDuplicateKeyError :: "string \<Rightarrow> bool" where
  "isDuplicateKeyError err =
     (let msg = map lower_char err in
      Contains msg ''duplicate'' \<or> Contains msg ''unique constraint'' \<or> Contains msg ''integrity constraint'' \<or>
      Contains msg ''primary key constraint'' \<or> Contains msg ''constraint failed'')"

definition isOracleDuplicateKeyError :: "string \<Rightarrow> bool" where
  "isOracleDuplicateKeyError err = (Contains (map lower_char err) ''ora-00001'' \<or> isDuplicateKeyError err)"

datatype attempt = Acquired | Held | Failed_attempt

text \<open>The lock that is older than now is deleted; the insertion then fails on a row that is left. Mongo also deletes
  a lock that expires at this instant.\<close>

definition expired :: "store \<Rightarrow> int \<Rightarrow> int \<Rightarrow> bool" where
  "expired s now e = (if s = SMongo then e \<le> now else e < now)"

definition deleteExpired :: "store \<Rightarrow> int \<Rightarrow> lockrow \<Rightarrow> lockrow" where
  "deleteExpired s now row = (case row of None \<Rightarrow> None | Some (own, e) \<Rightarrow> if expired s now e then None else Some (own, e))"

definition insertLock :: "string \<Rightarrow> int \<Rightarrow> lockrow \<Rightarrow> lockrow option" where
  "insertLock ownerID now row = (case row of None \<Rightarrow> Some (Some (ownerID, now + defaultLockTTL)) | Some _ \<Rightarrow> None)"

text \<open>The clock is read once for each of the two statements. A failure of the first is only logged.\<close>

definition sql_attempt :: "mig_env \<Rightarrow> string \<Rightarrow> nat \<Rightarrow> lockrow \<Rightarrow> attempt \<times> lockrow" where
  "sql_attempt env ownerID i row =
     (let row0 = lockOthers env SSQL i row;
          row1 = (if cleanupFails env SSQL i then row0 else deleteExpired SSQL (lockClock env SSQL i) row0) in
      case insertError env SSQL i of
        Some msg \<Rightarrow> (if isDuplicateKeyError msg then Held else Failed_attempt, row1)
      | None \<Rightarrow>
          (case insertLock ownerID (expiryClock env SSQL i) row1 of
             Some row2 \<Rightarrow> (Acquired, row2)
           | None \<Rightarrow> (if isDuplicateKeyError (duplicateError env SSQL) then Held else Failed_attempt, row1)))"

definition oracle_attempt :: "mig_env \<Rightarrow> string \<Rightarrow> nat \<Rightarrow> lockrow \<Rightarrow> attempt \<times> lockrow" where
  "oracle_attempt env ownerID i row =
     (let row0 = lockOthers env SOracle i row;
          row1 = (if cleanupFails env SOracle i then row0 else deleteExpired SOracle (lockClock env SOracle i) row0) in
      case insertError env SOracle i of
        Some msg \<Rightarrow> (if isOracleDuplicateKeyError msg then Held else Failed_attempt, row1)
      | None \<Rightarrow>
          (case insertLock ownerID (expiryClock env SOracle i) row1 of
             Some row2 \<Rightarrow> (Acquired, row2)
           | None \<Rightarrow> (if isOracleDuplicateKeyError (duplicateError env SOracle) then Held else Failed_attempt, row1)))"

text \<open>The Mongo migrator reads the clock once.\<close>

definition mongo_attempt :: "mig_env \<Rightarrow> string \<Rightarrow> nat \<Rightarrow> lockrow \<Rightarrow> attempt \<times> lockrow" where
  "mongo_attempt env ownerID i row =
     (let now = lockClock env SMongo i; row0 = lockOthers env SMongo i row;
          row1 = (if cleanupFails env SMongo i then row0 else deleteExpired SMongo now row0) in
      case insertError env SMongo i of
        Some msg \<Rightarrow> (if isDuplicateKeyError msg then Held else Failed_attempt, row1)
      | None \<Rightarrow>
          (case insertLock ownerID now row1 of
             Some row2 \<Rightarrow> (Acquired, row2)
           | None \<Rightarrow> (if isDuplicateKeyError (duplicateError env SMongo) then Held else Failed_attempt, row1)))"

text \<open>\<^verbatim>\<open>SET NX\<close> with an expiry: Redis drops an expired key by itself.\<close>

definition redis_attempt :: "mig_env \<Rightarrow> string \<Rightarrow> nat \<Rightarrow> lockrow \<Rightarrow> attempt \<times> lockrow" where
  "redis_attempt env ownerID i row =
     (let now = lockClock env SRedis i; row1 = deleteExpired SRedis now (lockOthers env SRedis i row) in
      if insertError env SRedis i \<noteq> None then (Failed_attempt, row1)
      else (case insertLock ownerID now row1 of Some row2 \<Rightarrow> (Acquired, row2) | None \<Rightarrow> (Held, row1)))"

section \<open>The loop, the refresh and the release\<close>

text \<open>The retry loop; it may wait for as long as another process keeps the lock.\<close>

partial_function (option) lock_loop ::
    "(nat \<Rightarrow> lockrow \<Rightarrow> attempt \<times> lockrow) \<Rightarrow> (nat \<Rightarrow> bool) \<Rightarrow> nat \<Rightarrow> lockrow \<Rightarrow> (bool \<times> lockrow) option" where
  "lock_loop att canceled i row =
     (case att i row of
        (Acquired, row1) \<Rightarrow> Some (True, row1)
      | (Failed_attempt, row1) \<Rightarrow> Some (False, row1)
      | (Held, row1) \<Rightarrow> if canceled i then Some (False, row1) else lock_loop att canceled (Suc i) row1)"

type_synonym lock_op = "mig_world \<Rightarrow> (bool \<times> mig_world) option"

text \<open>The loop of one store, then the wrapped migrator's lock.\<close>

definition lock_then :: "(nat \<Rightarrow> lockrow \<Rightarrow> attempt \<times> lockrow) \<Rightarrow> mig_env \<Rightarrow> store \<Rightarrow> lock_op \<Rightarrow> lock_op" where
  "lock_then att env s inner w =
     (case lock_loop att (lockCanceled env s) 0 (locks w s) of
        None \<Rightarrow> None
      | Some (False, row) \<Rightarrow> Some (False, w\<lparr>locks := (locks w)(s := row)\<rparr>)
      | Some (True, row) \<Rightarrow> inner (w\<lparr>locks := (locks w)(s := row)\<rparr>))"

definition mongoMigrator_lock :: "mig_env \<Rightarrow> string \<Rightarrow> lock_op \<Rightarrow> lock_op" where
  "mongoMigrator_lock env ownerID = lock_then (mongo_attempt env ownerID) env SMongo"

definition oracleMigrator_lock :: "mig_env \<Rightarrow> string \<Rightarrow> lock_op \<Rightarrow> lock_op" where
  "oracleMigrator_lock env ownerID = lock_then (oracle_attempt env ownerID) env SOracle"

definition redisMigrator_lock :: "mig_env \<Rightarrow> string \<Rightarrow> lock_op \<Rightarrow> lock_op" where
  "redisMigrator_lock env ownerID = lock_then (redis_attempt env ownerID) env SRedis"

definition sqlMigrator_lock :: "mig_env \<Rightarrow> string \<Rightarrow> lock_op \<Rightarrow> lock_op" where
  "sqlMigrator_lock env ownerID = lock_then (sql_attempt env ownerID) env SSQL"

text \<open>The other migrators pass the call on.\<close>

definition store_lock :: "mig_env \<Rightarrow> string \<Rightarrow> store \<Rightarrow> lock_op \<Rightarrow> lock_op" where
  "store_lock env ownerID s =
     (case s of
        SMongo \<Rightarrow> mongoMigrator_lock env ownerID
      | SOracle \<Rightarrow> oracleMigrator_lock env ownerID
      | SRedis \<Rightarrow> redisMigrator_lock env ownerID
      | SSQL \<Rightarrow> sqlMigrator_lock env ownerID
      | _ \<Rightarrow> (\<lambda>inner. inner))"

text \<open>The lock is refreshed and released only by its owner: the statements and scripts name it.\<close>

definition refreshLock :: "string \<Rightarrow> int \<Rightarrow> lockrow \<Rightarrow> bool \<times> lockrow" where
  "refreshLock ownerID now row =
     (case row of
        Some (own, e) \<Rightarrow> if own = ownerID then (True, Some (own, now + defaultLockTTL)) else (False, row)
      | None \<Rightarrow> (False, None))"

definition releaseLock :: "string \<Rightarrow> lockrow \<Rightarrow> bool \<times> lockrow" where
  "releaseLock ownerID row =
     (case row of Some (own, e) \<Rightarrow> if own = ownerID then (True, None) else (False, row) | None \<Rightarrow> (False, None))"

definition unlock_then :: "mig_env \<Rightarrow> string \<Rightarrow> store \<Rightarrow> check_op \<Rightarrow> check_op" where
  "unlock_then env ownerID s inner w =
     (if unlockFails env s then (False, w)
      else (case releaseLock ownerID (beforeUnlock env s (locks w s)) of
              (False, row) \<Rightarrow> (False, w\<lparr>locks := (locks w)(s := row)\<rparr>)
            | (True, row) \<Rightarrow> inner (w\<lparr>locks := (locks w)(s := row)\<rparr>)))"

definition mongoMigrator_unlock :: "mig_env \<Rightarrow> string \<Rightarrow> check_op \<Rightarrow> check_op" where
  "mongoMigrator_unlock env ownerID = unlock_then env ownerID SMongo"

definition oracleMigrator_unlock :: "mig_env \<Rightarrow> string \<Rightarrow> check_op \<Rightarrow> check_op" where
  "oracleMigrator_unlock env ownerID = unlock_then env ownerID SOracle"

definition redisMigrator_unlock :: "mig_env \<Rightarrow> string \<Rightarrow> check_op \<Rightarrow> check_op" where
  "redisMigrator_unlock env ownerID = unlock_then env ownerID SRedis"

definition sqlMigrator_unlock :: "mig_env \<Rightarrow> string \<Rightarrow> check_op \<Rightarrow> check_op" where
  "sqlMigrator_unlock env ownerID = unlock_then env ownerID SSQL"

definition store_unlock :: "mig_env \<Rightarrow> string \<Rightarrow> store \<Rightarrow> check_op \<Rightarrow> check_op" where
  "store_unlock env ownerID s =
     (case s of
        SMongo \<Rightarrow> mongoMigrator_unlock env ownerID
      | SOracle \<Rightarrow> oracleMigrator_unlock env ownerID
      | SRedis \<Rightarrow> redisMigrator_unlock env ownerID
      | SSQL \<Rightarrow> sqlMigrator_unlock env ownerID
      | _ \<Rightarrow> (\<lambda>inner. inner))"

section \<open>The locks leave the rest of the state alone\<close>

definition same_but_locks :: "mig_world \<Rightarrow> mig_world \<Rightarrow> bool" where
  "same_but_locks w w' \<longleftrightarrow> (\<exists>l. w' = w\<lparr>locks := l\<rparr>)"

lemma same_but_locks_refl [simp]: "same_but_locks w w"
  unfolding same_but_locks_def by (rule exI [of _ "locks w"]) simp

lemma same_but_locks_step: "same_but_locks (w\<lparr>locks := l\<rparr>) w' \<Longrightarrow> same_but_locks w w'"
  by (auto simp: same_but_locks_def)

lemma same_but_locks_quiet: "same_but_locks w w' \<Longrightarrow> quiet w w'"
  by (auto simp: same_but_locks_def quiet_def mig_simps)

definition lock_frame :: "lock_op \<Rightarrow> bool" where
  "lock_frame f \<longleftrightarrow> (\<forall>w b w'. f w = Some (b, w') \<longrightarrow> same_but_locks w w')"

definition unlock_frame :: "check_op \<Rightarrow> bool" where
  "unlock_frame f \<longleftrightarrow> (\<forall>w. same_but_locks w (snd (f w)))"

lemma lock_then_frame:
  assumes "lock_frame inner"
  shows "lock_frame (lock_then att env s inner)"
  unfolding lock_frame_def
proof (intro allI impI)
  fix w b w' assume "lock_then att env s inner w = Some (b, w')"
  then consider l where "w' = w\<lparr>locks := l\<rparr>" | l where "inner (w\<lparr>locks := l\<rparr>) = Some (b, w')"
    by (auto simp: lock_then_def split: option.splits prod.splits bool.splits)
  then show "same_but_locks w w'"
    using assms by cases (auto simp: same_but_locks_def lock_frame_def dest!: spec)
qed

lemma unlock_then_frame:
  assumes "unlock_frame inner"
  shows "unlock_frame (unlock_then env own s inner)"
proof -
  have i: "same_but_locks w (snd (inner (w\<lparr>locks := l\<rparr>)))" for w l
    using assms same_but_locks_step unfolding unlock_frame_def by blast
  have o: "same_but_locks w (w\<lparr>locks := l\<rparr>)" for w l by (auto simp: same_but_locks_def)
  show ?thesis unfolding unlock_frame_def by (auto simp: unlock_then_def i o split: prod.split bool.split)
qed

interpretation lock_layers: wrapped "store_lock env own" "\<lambda>w. Some (True, w)" lock_frame for env own
proof
  show "lock_frame (\<lambda>w. Some (True, w))" by (auto simp: lock_frame_def)
  show "lock_frame (store_lock env own s inner)" if "lock_frame inner" for s inner
    using that by (cases s) (simp_all add: store_lock_def mongoMigrator_lock_def oracleMigrator_lock_def redisMigrator_lock_def
        sqlMigrator_lock_def lock_then_frame)
qed

interpretation unlock_layers: wrapped "store_unlock env own" "\<lambda>w. (True, w)" unlock_frame for env own
proof
  show "unlock_frame (\<lambda>w. (True, w))" by (simp add: unlock_frame_def)
  show "unlock_frame (store_unlock env own s inner)" if "unlock_frame inner" for s inner
    using that by (cases s) (simp_all add: store_unlock_def mongoMigrator_unlock_def oracleMigrator_unlock_def redisMigrator_unlock_def
        sqlMigrator_unlock_def unlock_then_frame)
qed

section \<open>The lock is obtained\<close>

lemma lock_loop_acquires:
  assumes "\<And>j. i \<le> j \<Longrightarrow> j < n \<Longrightarrow> att j row = (Held, row) \<and> \<not> canceled j" and "att n row = (Acquired, row')" and "i \<le> n"
  shows "lock_loop att canceled i row = Some (True, row')"
  using assms
proof (induction "n - i" arbitrary: i)
  case 0
  then show ?case by (subst lock_loop.simps) simp
next
  case (Suc d)
  then have "lock_loop att canceled (Suc i) row = Some (True, row')" by simp
  with Suc.prems Suc.hyps(2) show ?case by (subst lock_loop.simps) simp
qed

text \<open>The holder of a lock is gone: nobody touches the row any more, the calls to the database succeed, and the
  clock advances by the retry interval from one attempt to the next.\<close>

definition undisturbed :: "mig_env \<Rightarrow> store \<Rightarrow> int \<Rightarrow> bool" where
  "undisturbed env s t \<longleftrightarrow>
     (\<forall>i. lockOthers env s i = id \<and> insertError env s i = None \<and> \<not> lockCanceled env s i \<and> \<not> cleanupFails env s i \<and>
        lockClock env s i = t + int i * defaultRetry \<and> expiryClock env s i = lockClock env s i) \<and> isDuplicateKeyError (duplicateError env s)"

lemmas attempt_defs = sql_attempt_def oracle_attempt_def mongo_attempt_def redis_attempt_def deleteExpired_def insertLock_def
  isOracleDuplicateKeyError_def Let_def

definition store_attempt :: "mig_env \<Rightarrow> string \<Rightarrow> store \<Rightarrow> nat \<Rightarrow> lockrow \<Rightarrow> attempt \<times> lockrow" where
  "store_attempt env own s =
     (case s of
        SMongo \<Rightarrow> mongo_attempt env own
      | SOracle \<Rightarrow> oracle_attempt env own
      | SRedis \<Rightarrow> redis_attempt env own
      | _ \<Rightarrow> sql_attempt env own)"

definition locking :: "store \<Rightarrow> bool" where
  "locking s \<longleftrightarrow> s \<in> {SMongo, SOracle, SRedis, SSQL}"

lemma store_lock_loop:
  "store_lock env own s = (if locking s then lock_then (store_attempt env own s) env s else (\<lambda>inner. inner))"
  by (cases s) (simp_all add: store_lock_def store_attempt_def locking_def mongoMigrator_lock_def oracleMigrator_lock_def
      redisMigrator_lock_def sqlMigrator_lock_def)

lemma attempt_undisturbed:
  assumes "undisturbed env s t" and "locking s"
  shows "store_attempt env own s i (Some (other, e)) =
    (if expired s (t + int i * defaultRetry) e then (Acquired, Some (own, t + int i * defaultRetry + defaultLockTTL)) else (Held, Some (other, e)))"
    and "store_attempt env own s i None = (Acquired, Some (own, t + int i * defaultRetry + defaultLockTTL))"
  using assms by (auto simp: locking_def undisturbed_def store_attempt_def attempt_defs)

lemma lock_loop_undisturbed:
  assumes "undisturbed env s t" and "locking s"
  shows "\<exists>row. lock_loop (store_attempt env own s) (lockCanceled env s) 0 r = Some (True, row)"
proof (cases r)
  case None
  with attempt_undisturbed(2) [OF assms, of own 0] show ?thesis by (simp add: lock_loop_acquires [of 0 0])
next
  case (Some p)
  obtain other e where p: "p = (other, e)" by (rule prod.exhaust)
  define n where "n = (LEAST n. expired s (t + int n * defaultRetry) e)"
  have "expired s (t + int (nat (e - t + 1)) * defaultRetry) e" by (simp add: expired_def defaultRetry_def)
  then have n: "expired s (t + int n * defaultRetry) e" unfolding n_def by (rule LeastI)
  have least: "\<not> expired s (t + int j * defaultRetry) e" if "j < n" for j using that not_less_Least unfolding n_def by blast
  have "lock_loop (store_attempt env own s) (lockCanceled env s) 0 r = Some (True, Some (own, t + int n * defaultRetry + defaultLockTTL))"
    unfolding Some p
    by (rule lock_loop_acquires [where n = n])
      (use n least assms in \<open>auto simp: attempt_undisturbed [OF assms] undisturbed_def\<close>)
  then show ?thesis by blast
qed

lemma lock_obtained:
  "\<forall>s \<in> set ch. \<exists>t. undisturbed env s t \<Longrightarrow> \<exists>w'. foldr (store_lock env own) ch (\<lambda>w. Some (True, w)) w = Some (True, w')"
proof (induction ch arbitrary: w)
  case (Cons s ch)
  then obtain t where "undisturbed env s t" by auto
  from lock_loop_undisturbed [OF this, of own "locks w s"] obtain row
    where "locking s \<Longrightarrow> lock_loop (store_attempt env own s) (lockCanceled env s) 0 (locks w s) = Some (True, row)" by blast
  with Cons show ?case by (cases "locking s") (simp_all add: store_lock_loop lock_then_def)
qed simp

section \<open>The lease\<close>

text \<open>
  The lock of one store, shared by any number of processes. A process that acquired or refreshed the lock has a
  lease until the expiry it wrote; it gives the lease up when it releases the lock, when a refresh fails or
  finds the row gone, and when it crashes. Owners are unique identifiers and the clocks agree: \<open>t\<close> is the
  time a process read before its statement took effect.
\<close>

record lease_sys =
  now :: int
  row :: lockrow
  lease :: "string \<Rightarrow> int option"

inductive lease_step :: "store \<Rightarrow> lease_sys \<Rightarrow> lease_sys \<Rightarrow> bool" for st where
  tick: "0 \<le> d \<Longrightarrow> lease_step st s (s\<lparr>now := now s + d\<rparr>)"
| cleanup: "t \<le> now s \<Longrightarrow> lease_step st s (s\<lparr>row := deleteExpired st t (row s)\<rparr>)"
| acquire: "t \<le> now s \<Longrightarrow> insertLock p t (row s) = Some row' \<Longrightarrow>
    lease_step st s (s\<lparr>row := row', lease := (lease s)(p := Some (t + defaultLockTTL))\<rparr>)"
| refreshed: "t \<le> now s \<Longrightarrow> lease s p \<noteq> None \<Longrightarrow> refreshLock p t (row s) = (True, row') \<Longrightarrow>
    lease_step st s (s\<lparr>row := row', lease := (lease s)(p := Some (t + defaultLockTTL))\<rparr>)"
| refresh_lost: "refreshLock p t (row s) = (False, row') \<Longrightarrow> lease_step st s (s\<lparr>row := row', lease := (lease s)(p := None)\<rparr>)"
| give_up: "lease_step st s (s\<lparr>lease := (lease s)(p := None)\<rparr>)"
| release: "releaseLock p (row s) = (b, row') \<Longrightarrow> lease_step st s (s\<lparr>row := row', lease := (lease s)(p := None)\<rparr>)"

definition lease_init :: "lease_sys \<Rightarrow> bool" where
  "lease_init s \<longleftrightarrow> lease s = (\<lambda>_. None)"

definition lease_inv :: "store \<Rightarrow> lease_sys \<Rightarrow> bool" where
  "lease_inv st s \<longleftrightarrow> (\<forall>p e. lease s p = Some e \<longrightarrow> \<not> expired st (now s) e \<longrightarrow> row s = Some (p, e))"

lemma expired_mono: "expired st t e \<Longrightarrow> t \<le> t' \<Longrightarrow> expired st t' e"
  by (auto simp: expired_def split: if_splits)

interpretation leases: invariant lease_init "lease_step st" "lease_inv st" for st
proof
  show "lease_inv st s" if "lease_init s" for s using that by (simp add: lease_init_def lease_inv_def)
next
  fix s t assume "lease_inv st s" "lease_step st s t"
  from \<open>lease_step st s t\<close> show "lease_inv st t"
  proof (cases rule: lease_step.cases)
    case (tick d)
    show ?thesis unfolding lease_inv_def
    proof (intro allI impI)
      fix p e assume "lease t p = Some e" "\<not> expired st (now t) e"
      then have "lease s p = Some e" "\<not> expired st (now s) e" using tick expired_mono [of st "now s" e "now s + d"] by auto
      then show "row t = Some (p, e)" using \<open>lease_inv st s\<close> tick by (simp add: lease_inv_def)
    qed
  next
    case (cleanup u)
    then show ?thesis using \<open>lease_inv st s\<close> expired_mono [of st u _ "now s"]
      by (auto simp: lease_inv_def deleteExpired_def split: option.splits prod.splits)
  qed (use \<open>lease_inv st s\<close> in \<open>auto simp: lease_inv_def insertLock_def refreshLock_def releaseLock_def
        split: option.splits if_splits prod.splits\<close>)
qed

text \<open>
  C32. Two processes never hold the migration lock at the same time. In every reachable state of the lock, under
  any interleaving of attempts, refreshes, releases, crashes and the passing of time, at most one process has
  a lease that has not expired, and the lock row is its own. In Mongo a lock is expired at its last
  instant, in the other stores only after it.
\<close>

theorem lease_exclusive:
  assumes "reachable lease_init (lease_step st) s" and "lease s p = Some e" and "\<not> expired st (now s) e"
  shows "row s = Some (p, e) \<and> (\<forall>q f. lease s q = Some f \<and> \<not> expired st (now s) f \<longrightarrow> q = p)"
proof -
  have "lease_inv st s" using leases.reachable_inv [OF assms(1)] .
  then have own: "row s = Some (q, f)" if "lease s q = Some f" "\<not> expired st (now s) f" for q f
    using that by (simp add: lease_inv_def)
  from own [OF assms(2,3)] show ?thesis by (auto dest: own)
qed

theorem lease_exclusive_witness:
  "\<exists>s. reachable lease_init (lease_step SMongo) s \<and> lease s ''me'' = Some 15000 \<and> row s = Some (''me'', 15000)"
proof -
  let ?s = "\<lparr>now = 0, row = None, lease = (\<lambda>_. None)\<rparr>"
  let ?t = "\<lparr>now = 0, row = Some (''me'', 15000), lease = (\<lambda>_. None)(''me'' := Some 15000)\<rparr>"
  have "reachable lease_init (lease_step SMongo) ?s" by (rule reachable_init) (simp add: lease_init_def)
  moreover have "lease_step SMongo ?s ?t"
    using acquire [of 0 ?s "''me''" "Some (''me'', 15000)" SMongo] by (simp add: insertLock_def defaultLockTTL_def)
  ultimately have r: "reachable lease_init (lease_step SMongo) ?t" by (rule reachable_step)
  have "lease ?t ''me'' = Some 15000" "\<not> expired SMongo (now ?t) 15000" by (simp_all add: expired_def)
  with lease_exclusive [OF r this] r show ?thesis by blast
qed

end
