(* ===== verification/Migration.thy ===== *)
theory Migration
  imports Migration_Lock
begin

text \<open>
  The run of the pending migrations, \<^verbatim>\<open>pkg/gofr/migration/migration.go\<close>, over the chain of the migrators of the active
  datasources, and the tracking of the datasources a migration touches (\<^verbatim>\<open>tracker.go\<close>). A run applies pending
  migrations in order, a recorded migration never runs again, a finished one is on record in every store it used,
  and a run without failures returns. Two ways in which the chain goes wrong are stated as well.
\<close>

section \<open>The chain of migrators\<close>

text \<open>The active datasources in the order of their names; the first is the outermost migrator, each passes
  the call on to the next, and the end of the chain is the base implementation.\<close>

definition getInitializers :: "store list" where
  "getInitializers =
     [SSQL, SRedis, SDGraph, SClickhouse, SOracle, SPubSub, SCassandra, SMongo, SArangoDB, SSurrealDB, SElasticsearch,
      SOpenTSDB, SScyllaDB]"

definition initializeDatasources :: "(store \<Rightarrow> bool) \<Rightarrow> store list option" where
  "initializeDatasources present =
     (let active = filter present getInitializers in
      if active = [] then None else Some (sort_key store_name active))"

definition checkAndCreateMigrationTable :: "mig_env \<Rightarrow> store list \<Rightarrow> check_op" where
  "checkAndCreateMigrationTable env ch = foldr (store_check env) ch Datasource_checkAndCreateMigrationTable"

definition getAppliedMigrations :: "mig_env \<Rightarrow> nat \<Rightarrow> store list \<Rightarrow> applied_op" where
  "getAppliedMigrations env n ch = foldr (store_applied env n) ch Datasource_getAppliedMigrations"

definition beginTransaction :: "mig_env \<Rightarrow> int \<Rightarrow> store list \<Rightarrow> transactionData" where
  "beginTransaction env k ch = foldr (store_begin env k) ch no_transaction"

definition commitMigration :: "mig_env \<Rightarrow> store list \<Rightarrow> transactionData \<Rightarrow> commit_op" where
  "commitMigration env ch tx = foldr (store_commit env tx) ch (Datasource_commitMigration tx)"

definition rollback :: "mig_env \<Rightarrow> store list \<Rightarrow> transactionData \<Rightarrow> commit_op" where
  "rollback env ch tx = foldr (store_rollback env tx) ch Datasource_rollback"

definition mg_lock :: "mig_env \<Rightarrow> string \<Rightarrow> store list \<Rightarrow> lock_op" where
  "mg_lock env ownerID ch = foldr (store_lock env ownerID) ch (\<lambda>w. Some (True, w))"

definition mg_unlock :: "mig_env \<Rightarrow> string \<Rightarrow> store list \<Rightarrow> check_op" where
  "mg_unlock env ownerID ch = foldr (store_unlock env ownerID) ch (\<lambda>w. (True, w))"

text \<open>The proxies record the datasources that are called, for those whose handle is set. For SQL and Redis that is
  the transaction, for the others the client; there is no proxy for a message broker.\<close>

definition markUsed :: "store \<Rightarrow> store set \<Rightarrow> store set" where
  "markUsed key used = insert key used"

definition installTrackers :: "store list \<Rightarrow> transactionData \<Rightarrow> store \<Rightarrow> bool" where
  "installTrackers ch tx s =
     (case s of SSQL \<Rightarrow> hasSQLTx tx | SRedis \<Rightarrow> hasRedisTx tx | SPubSub \<Rightarrow> False | _ \<Rightarrow> s \<in> set ch)"

definition track_calls :: "store list \<Rightarrow> transactionData \<Rightarrow> store list \<Rightarrow> store set" where
  "track_calls ch tx calls = fold markUsed (filter (installTrackers ch tx) calls) {}"

section \<open>Running the migrations\<close>

definition getKeys :: "(int \<times> bool) list \<Rightarrow> int list \<times> int list" where
  "getKeys m = (map fst (filter (\<lambda>(k, hasUP). \<not> hasUP) m), map fst (filter (\<lambda>(k, hasUP). hasUP) m))"

definition hasNewMigrations :: "int list \<Rightarrow> int \<Rightarrow> bool" where
  "hasNewMigrations ks lastMigration = list_ex (\<lambda>k. k > lastMigration) ks"

definition lastAppliedMigration :: "int set \<Rightarrow> int" where
  "lastAppliedMigration applied = Max (insert 0 applied)"

definition skippedMigrations :: "int list \<Rightarrow> int set \<Rightarrow> int list" where
  "skippedMigrations ks applied = filter (\<lambda>k. k \<notin> applied \<and> k < lastAppliedMigration applied) ks"

definition reportSkippedMigrations :: "int list \<Rightarrow> int set \<Rightarrow> mig_world \<Rightarrow> mig_world" where
  "reportSkippedMigrations ks applied w =
     (let skipped = skippedMigrations ks applied in
      if length skipped = 0 then w else mig_note [ReportSkipped skipped (lastAppliedMigration applied)] w)"

text \<open>Rolling back and then giving up with a fatal log line, or with a return.\<close>

definition abort_with :: "bool \<Rightarrow> mig_env \<Rightarrow> store list \<Rightarrow> transactionData \<Rightarrow> commit_op" where
  "abort_with fatal env ch tx w =
     (case rollback env ch tx w of
        (Ok, w1) \<Rightarrow> if fatal then (Exit, mig_note [Fatal] w1) else (Ok, w1)
      | r \<Rightarrow> r)"

fun runMigrations :: "mig_env \<Rightarrow> store list \<Rightarrow> int list \<Rightarrow> int \<Rightarrow> mig_world \<Rightarrow> mig_result \<times> mig_world" where
  "runMigrations env ch [] lastMigration w = (Ok, w)"
| "runMigrations env ch (k # ks) lastMigration w =
     (if k \<le> lastMigration then runMigrations env ch ks lastMigration (mig_note [Skipping k] w)
      else if refreshLost env k 0 then (Exit, mig_note [Fatal] w)
      else let tx = beginTransaction env k ch in
        if refreshLost env k 1 then abort_with True env ch tx w
        else (case up env k tx of
                UpPanics \<Rightarrow> (Panic, mig_note [Ran k] w)
              | UpReturns calls err \<Rightarrow>
                  let tx1 = tx\<lparr>MigrationNumber := k, UsedDatasources := track_calls ch tx calls\<rparr>; w1 = mig_note [Ran k] w in
                  if refreshLost env k 2 then abort_with True env ch tx1 w1
                  else if err then abort_with False env ch tx1 w1
                  else (case commitMigration env ch tx1 w1 of
                          (Ok, w2) \<Rightarrow> runMigrations env ch ks lastMigration (mig_note [Finished k] w2)
                        | (Err, w2) \<Rightarrow> abort_with False env ch tx1 w2
                        | (r, w2) \<Rightarrow> (r, w2))))"

text \<open>The deferred release of the lock runs on a return and on a panic, not when the process exits.\<close>

definition acquireLockAndRun :: "mig_env \<Rightarrow> string \<Rightarrow> store list \<Rightarrow> int list \<Rightarrow> mig_world \<Rightarrow> (mig_result \<times> mig_world) option" where
  "acquireLockAndRun env ownerID ch ks w =
     (case mg_lock env ownerID ch w of
        None \<Rightarrow> None
      | Some (False, w1) \<Rightarrow> Some (Exit, mig_note [Fatal] (snd (mg_unlock env ownerID ch w1)))
      | Some (True, w1) \<Rightarrow>
          (let w2 = meanwhile env w1 in
           case getAppliedMigrations env 1 ch w2 of
             None \<Rightarrow> None
           | Some None \<Rightarrow> Some (Exit, mig_note [Fatal] w2)
           | Some (Some applied) \<Rightarrow>
               let w3 = reportSkippedMigrations ks applied w2; lastMigration = lastAppliedMigration applied;
                   (res, w4) = (if \<not> hasNewMigrations ks lastMigration then (Ok, w3)
                                else runMigrations env ch ks lastMigration w3)
               in Some (res, if res = Exit then w4 else snd (mg_unlock env ownerID ch w4))))"

definition Run :: "mig_env \<Rightarrow> string \<Rightarrow> (store \<Rightarrow> bool) \<Rightarrow> (int \<times> bool) list \<Rightarrow> mig_world \<Rightarrow> (mig_result \<times> mig_world) option" where
  "Run env ownerID present m w =
     (case getKeys m of
        (invalidKeys, ks0) \<Rightarrow>
          if length invalidKeys > 0 then Some (Ok, w)
          else let ks = sort ks0 in
            (case initializeDatasources present of
               None \<Rightarrow> Some (Ok, w)
             | Some ch \<Rightarrow>
                 (case checkAndCreateMigrationTable env ch w of
                    (False, w1) \<Rightarrow> Some (Exit, mig_note [Fatal] w1)
                  | (True, w1) \<Rightarrow>
                      (case getAppliedMigrations env 0 ch w1 of
                         None \<Rightarrow> None
                       | Some None \<Rightarrow> Some (Exit, mig_note [Fatal] w1)
                       | Some (Some applied) \<Rightarrow>
                           if \<not> hasNewMigrations ks (lastAppliedMigration applied)
                           then Some (Ok, reportSkippedMigrations ks applied w1)
                           else acquireLockAndRun env ownerID ch ks w1))))"

section \<open>Lemmas: what the operations leave of the state\<close>

lemma commit_quiet_chain: "commitMigration env ch tx w = (r, w') \<Longrightarrow> quiet w w'"
  using quiet_opD [OF quiet_commit.chain_contract [of env tx ch] quiet_refl [of w]] by (simp add: commitMigration_def)

lemma abort_quiet: "quiet w (snd (abort_with fatal env ch tx w))"
proof -
  obtain r w1 where r: "rollback env ch tx w = (r, w1)" by (rule prod.exhaust)
  then have "quiet w w1" using quiet_opD [OF quiet_rollback.chain_contract [of env tx ch] quiet_refl [of w]] by (simp add: rollback_def)
  with r show ?thesis by (cases r) (simp_all add: abort_with_def mig_simps)
qed

lemma unlock_frame_chain: "same_but_locks w (snd (mg_unlock env own ch w))"
  using unlock_layers.chain_contract [of env own ch] by (simp add: mg_unlock_def unlock_frame_def)

lemma lock_frame_chain: "mg_lock env own ch w = Some (b, w') \<Longrightarrow> same_but_locks w w'"
  using lock_layers.chain_contract [of env own ch] by (simp add: mg_lock_def lock_frame_def)

lemmas unlock_quiet = same_but_locks_quiet [OF unlock_frame_chain]
lemmas lock_quiet = same_but_locks_quiet [OF lock_frame_chain]

lemma report_quiet: "quiet w (reportSkippedMigrations ks applied w)"
  by (simp add: reportSkippedMigrations_def Let_def quiet_note mig_simps)

lemma check_quiet_chain: "checkAndCreateMigrationTable env ch w = (b, w') \<Longrightarrow> quiet w w'"
  using quiet_opD [OF quiet_check.chain_contract [of env ch] quiet_refl [of w]] by (simp add: checkAndCreateMigrationTable_def)

lemma getApplied_versions: "reads_back env \<Longrightarrow> getAppliedMigrations env n ch w = Some (Some A) \<Longrightarrow> A = versions ch w"
  using applied_exact [of env n ch w] by (auto simp: getAppliedMigrations_def)

lemma getApplied_returns: "reads_back env \<Longrightarrow> \<exists>r. getAppliedMigrations env n ch w = Some r"
  using applied_exact [of env n ch w] by (auto simp: getAppliedMigrations_def)

lemma last_bounds: "finite A \<Longrightarrow> v \<in> A \<Longrightarrow> v \<le> lastAppliedMigration A" "finite A \<Longrightarrow> 0 \<le> lastAppliedMigration A"
  by (simp_all add: lastAppliedMigration_def)

lemma recorded_finite [simp]: "finite (recorded w s)"
  by (cases s) (simp_all add: recorded_def split: tsdb_file.split)

lemma versions_finite [simp]: "finite (versions ch w)"
  by (simp add: versions_def)

text \<open>How far a run got: \<open>fin\<close> is finished, in order, and at most the next one was tried.\<close>

definition progress :: "mig_result \<Rightarrow> mig_world \<Rightarrow> mig_world \<Rightarrow> int list \<Rightarrow> int list \<Rightarrow> bool" where
  "progress res w w' fin rest \<longleftrightarrow>
     done_of (mlog w') = done_of (mlog w) @ fin \<and>
     (ran_of (mlog w') = ran_of (mlog w) @ fin \<and> (rest = [] \<or> res \<noteq> Ok) \<or>
      rest \<noteq> [] \<and> ran_of (mlog w') = ran_of (mlog w) @ fin @ [hd rest]) \<and>
     (\<forall>s. recorded w s \<subseteq> recorded w' s)"

lemma progress_quiet: "progress res w w' fin rest \<Longrightarrow> quiet w' w'' \<Longrightarrow> progress res w w'' fin rest"
  unfolding progress_def quiet_def by (metis order_trans)

lemma quiet_progress: "quiet w w' \<Longrightarrow> progress res w' w'' fin rest \<Longrightarrow> progress res w w'' fin rest"
  unfolding progress_def quiet_def by (metis order_trans)

lemma tried: "quiet (mig_note [Ran k] w) w' \<Longrightarrow> progress res w w' [] (k # ks)"
  unfolding progress_def quiet_def by (simp add: mig_simps)

lemma untried: "quiet w w' \<Longrightarrow> rest = [] \<or> res \<noteq> Ok \<Longrightarrow> progress res w w' [] rest"
  unfolding progress_def quiet_def by auto

lemma abort_fatal: "fst (abort_with True env ch tx w) \<noteq> Ok"
  by (auto simp: abort_with_def split: prod.splits mig_result.splits)

text \<open>One migration of the loop either finishes, and the loop goes on, or ends the run.\<close>

lemma run_step_cases:
  assumes "runMigrations env ch (k # ks) lm w = (res, w')" and "\<not> k \<le> lm"
  obtains (finished) calls tx1 w2 where "up env k (beginTransaction env k ch) = UpReturns calls False"
      "tx1 = (beginTransaction env k ch)\<lparr>MigrationNumber := k, UsedDatasources := track_calls ch (beginTransaction env k ch) calls\<rparr>"
      "commitMigration env ch tx1 (mig_note [Ran k] w) = (Ok, w2)"
      "runMigrations env ch ks lm (mig_note [Finished k] w2) = (res, w')"
  | (stopped) "progress res w w' [] (k # ks)"
proof -
  let ?tx = "beginTransaction env k ch" and ?w1 = "mig_note [Ran k] w"
  show thesis
  proof (cases "refreshLost env k 0 \<or> refreshLost env k 1")
    case True
    with assms abort_fatal [of env ch ?tx w] abort_quiet [of w True env ch ?tx]
    have "progress res w w' [] (k # ks)" by (intro untried) (auto simp: Let_def mig_simps split: if_splits)
    then show thesis by (rule stopped)
  next
    case l: False
    show thesis
    proof (cases "up env k ?tx")
      case UpPanics
      with assms l have "progress res w w' [] (k # ks)" by (intro tried) (auto simp: Let_def)
      then show thesis by (rule stopped)
    next
      case (UpReturns calls err)
      let ?tx1 = "?tx\<lparr>MigrationNumber := k, UsedDatasources := track_calls ch ?tx calls\<rparr>"
      obtain r w2 where r: "commitMigration env ch ?tx1 ?w1 = (r, w2)" by (rule prod.exhaust)
      have ab: "quiet ?w1 (snd (abort_with fatal env ch ?tx1 ?w1))" for fatal by (rule abort_quiet)
      have ab2: "quiet ?w1 (snd (abort_with False env ch ?tx1 w2))" using quiet_trans [OF commit_quiet_chain [OF r] abort_quiet] .
      show thesis
      proof (cases "\<not> refreshLost env k 2 \<and> \<not> err \<and> r = Ok")
        case True
        with assms l UpReturns r have "runMigrations env ch ks lm (mig_note [Finished k] w2) = (res, w')" by (simp add: Let_def)
        with finished [OF _ refl, of calls w2] UpReturns r True show thesis by simp
      next
        case False
        then have "quiet ?w1 w'"
          using assms l UpReturns r ab [of True] ab [of False] ab2 commit_quiet_chain [OF r]
          by (cases r) (auto simp: Let_def split: if_splits)
        then have "progress res w w' [] (k # ks)" by (rule tried)
        then show thesis by (rule stopped)
      qed
    qed
  qed
qed

lemma stopped_filter: "progress res w w' [] (k # ks) \<Longrightarrow> progress res w w' [] (k # ks')"
  by (simp add: progress_def)

lemma finished_progress:
  assumes "commitMigration env ch tx1 (mig_note [Ran k] w) = (Ok, w2)" and "progress res (mig_note [Finished k] w2) w' fin rest"
  shows "progress res w w' (k # fin) rest"
  using assms(2) commit_quiet_chain [OF assms(1)] unfolding progress_def quiet_def by (auto simp: mig_simps)

lemma runMigrations_progress:
  assumes "runMigrations env ch ks lm w = (res, w')"
  shows "\<exists>fin rest. filter (\<lambda>k. lm < k) ks = fin @ rest \<and> progress res w w' fin rest"
  using assms
proof (induction ks arbitrary: w)
  case Nil
  then show ?case by (auto intro: untried)
next
  case (Cons k ks)
  show ?case
  proof (cases "k \<le> lm")
    case True
    have "quiet w (mig_note [Skipping k] w)" by (simp add: mig_simps)
    from Cons.IH [of "mig_note [Skipping k] w"] Cons.prems True quiet_progress [OF this]
    show ?thesis by simp blast
  next
    case False
    show ?thesis using Cons.prems False
    proof (cases rule: run_step_cases)
      case (finished calls tx1 w2)
      from Cons.IH [OF finished(4)] obtain fin rest
        where "filter (\<lambda>k. lm < k) ks = fin @ rest" "progress res (mig_note [Finished k] w2) w' fin rest" by blast
      with finished_progress [OF finished(3)] False show ?thesis by (intro exI [of _ "k # fin"] exI [of _ rest]) simp
    next
      case stopped
      with False show ?thesis
        by (intro exI [of _ "[]"] exI [of _ "k # filter (\<lambda>k. lm < k) ks"]) (simp add: stopped_filter)
    qed
  qed
qed

text \<open>The active datasources.\<close>

abbreviation active_stores :: "(store \<Rightarrow> bool) \<Rightarrow> store list" where
  "active_stores present \<equiv> filter present getInitializers"

lemma initialize_chain:
  assumes "initializeDatasources present = Some ch"
  shows "set ch = set (active_stores present)" and "distinct ch" and "sorted (map store_name ch)"
proof -
  have "distinct (active_stores present)" by (rule distinct_filter) (simp add: getInitializers_def)
  with assms show "set ch = set (active_stores present)" "distinct ch" "sorted (map store_name ch)"
    by (auto simp: initializeDatasources_def Let_def sorted_sort_key split: if_splits)
qed

lemma all_initializers: "s \<in> set getInitializers"
  by (cases s) (simp_all add: getInitializers_def)

lemma versions_cong: "set ch = set ch' \<Longrightarrow> versions ch w = versions ch' w"
  by (simp add: versions_def)

lemma versions_quiet: "quiet w w' \<Longrightarrow> versions ch w \<subseteq> versions ch w'"
  by (fastforce simp: versions_def quiet_def)

text \<open>The pending migrations: declared with an UP function, positive and above all the versions \<open>V\<close>.\<close>

definition pending :: "int set \<Rightarrow> (int \<times> bool) list \<Rightarrow> int set" where
  "pending V m = {k. (k, True) \<in> set m \<and> 0 < k \<and> (\<forall>v \<in> V. v < k)}"

lemma pending_finite: "finite (pending V m)"
  by (rule finite_subset [of _ "fst ` set m"]) (force simp: pending_def)+

lemma above_last: "finite V \<Longrightarrow> lastAppliedMigration V < k \<longleftrightarrow> 0 < k \<and> (\<forall>v \<in> V. v < k)"
  by (auto simp: lastAppliedMigration_def)

lemma pending_last:
  "finite V \<Longrightarrow> set ks = {k. (k, True) \<in> set m} \<Longrightarrow> set (filter (\<lambda>k. lastAppliedMigration V < k) ks) = pending V m"
  by (auto simp: pending_def above_last)

text \<open>What is known of a run: with the versions \<open>V\<close> found under the lock, which are those recorded before it and those
  other processes have recorded meanwhile, it finishes the pending ones in strict order up to some point.\<close>

definition run_ok :: "mig_env \<Rightarrow> (store \<Rightarrow> bool) \<Rightarrow> (int \<times> bool) list \<Rightarrow> mig_result \<Rightarrow> mig_world \<Rightarrow> mig_world \<Rightarrow> bool" where
  "run_ok env present m res w w' \<longleftrightarrow>
     (\<exists>V fin rest. versions (active_stores present) w \<subseteq> V \<and> V \<subseteq> versions (active_stores present) w' \<and>
        ((\<forall>u. meanwhile env u = u) \<longrightarrow> V = versions (active_stores present) w) \<and>
        progress res w w' fin rest \<and> sorted_wrt (<) (fin @ rest) \<and> set (fin @ rest) = pending V m)"

lemma stopped_run:
  assumes "quiet w w'" and "res \<noteq> Ok \<or> pending (versions (active_stores present) w) m = {}"
  shows "run_ok env present m res w w'"
proof -
  let ?V = "versions (active_stores present) w"
  let ?rest = "sorted_list_of_set (pending ?V m)"
  have "progress res w w' [] ?rest" using assms by (intro untried) auto
  moreover have "sorted_wrt (<) ([] @ ?rest)" "set ([] @ ?rest) = pending ?V m" by (simp_all add: pending_finite)
  ultimately show ?thesis using versions_quiet [OF assms(1)] unfolding run_ok_def by blast
qed

lemma kept_quiet: "kept w w' \<Longrightarrow> quiet w w'"
  by (simp add: kept_def quiet_def)

lemma kept_versions: "kept w w' \<Longrightarrow> versions ch w' = versions ch w"
  by (simp add: kept_def versions_def)

lemma kept_then_run:
  assumes "kept w w1" and "run_ok env present m res w1 w'"
  shows "run_ok env present m res w w'"
proof -
  from assms(2) obtain V fin rest where p: "progress res w1 w' fin rest" and
    o: "versions (active_stores present) w1 \<subseteq> V" "V \<subseteq> versions (active_stores present) w'"
      "(\<forall>u. meanwhile env u = u) \<longrightarrow> V = versions (active_stores present) w1"
      "sorted_wrt (<) (fin @ rest)" "set (fin @ rest) = pending V m"
    unfolding run_ok_def by blast
  show ?thesis using quiet_progress [OF kept_quiet [OF assms(1)] p] o unfolding run_ok_def kept_versions [OF assms(1)] by blast
qed

lemma check_kept_chain: "checkAndCreateMigrationTable env ch w = (b, w') \<Longrightarrow> kept w w'"
  using kept_opD [OF kept_check.chain_contract [of env ch] kept_step(1) [of w]] by (simp add: checkAndCreateMigrationTable_def)

lemma progress_versions: "progress res w w' fin rest \<Longrightarrow> versions ch w \<subseteq> versions ch w'"
  by (fastforce simp: progress_def versions_def)

text \<open>Other processes run no migration of this log and lose no record; drivers return what was stored.\<close>

definition fair_env :: "mig_env \<Rightarrow> bool" where
  "fair_env env \<longleftrightarrow> (\<forall>w. quiet w (meanwhile env w)) \<and> reads_back env"

lemma acquire_cases:
  assumes "acquireLockAndRun env own ch ks w = Some (res, w')"
  obtains (failed) w1 where "quiet w w1" "quiet w1 w' \<or> w' = mig_note [Fatal] (meanwhile env w1)" "res = Exit"
  | (fetched) w1 A w4 where "quiet w w1" "getAppliedMigrations env 1 ch (meanwhile env w1) = Some (Some A)"
      "(if \<not> hasNewMigrations ks (lastAppliedMigration A) then (Ok, reportSkippedMigrations ks A (meanwhile env w1))
        else runMigrations env ch ks (lastAppliedMigration A) (reportSkippedMigrations ks A (meanwhile env w1))) = (res, w4)"
      "quiet w4 w'" "same_but_locks w w1"
proof -
  obtain b w1 where l: "mg_lock env own ch w = Some (b, w1)" using assms by (auto simp: acquireLockAndRun_def split: option.splits)
  note q1 = lock_quiet [OF l]
  show thesis
  proof (cases b)
    case False
    with assms l have "w' = mig_note [Fatal] (snd (mg_unlock env own ch w1))" "res = Exit" by (simp_all add: acquireLockAndRun_def)
    then show thesis using failed [OF q1] unlock_quiet [of w1 env own ch] by (simp add: mig_simps)
  next
    case True
    let ?w2 = "meanwhile env w1"
    show thesis
    proof (cases "getAppliedMigrations env 1 ch ?w2")
      case None
      with assms l True show thesis by (simp add: acquireLockAndRun_def Let_def)
    next
      case (Some r)
      show thesis
      proof (cases r)
        case None
        with assms l True Some have "w' = mig_note [Fatal] ?w2" "res = Exit" by (simp_all add: acquireLockAndRun_def Let_def)
        then show thesis using failed [OF q1] by simp
      next
        case (Some A)
        with \<open>getAppliedMigrations env 1 ch ?w2 = Some r\<close> have A: "getAppliedMigrations env 1 ch ?w2 = Some (Some A)" by simp
        let ?r = "if \<not> hasNewMigrations ks (lastAppliedMigration A) then (Ok, reportSkippedMigrations ks A ?w2)
          else runMigrations env ch ks (lastAppliedMigration A) (reportSkippedMigrations ks A ?w2)"
        obtain res' w4 where r: "?r = (res', w4)" by (rule prod.exhaust)
        with assms l True A have "res' = res" "w' = (if res = Exit then w4 else snd (mg_unlock env own ch w4))"
          by (auto simp: acquireLockAndRun_def Let_def)
        then show thesis using fetched [OF q1 A] r unlock_quiet [of w4 env own ch] lock_frame_chain [OF l] by simp
      qed
    qed
  qed
qed

lemma acquire_run_ok:
  assumes run: "acquireLockAndRun env own ch ks w = Some (res, w')" and fair: "fair_env env"
    and ch: "set ch = set (active_stores present)" and ks: "sorted_wrt (<) ks" "set ks = {k. (k, True) \<in> set m}"
  shows "run_ok env present m res w w'"
  using run
proof (cases rule: acquire_cases)
  case (failed w1)
  have "quiet w1 (meanwhile env w1)" using fair by (simp add: fair_env_def)
  with failed quiet_trans show ?thesis by (intro stopped_run) (auto simp: mig_simps)
next
  case (fetched w1 A w4)
  let ?w2 = "meanwhile env w1" and ?V = "versions (active_stores present)"
  let ?w3 = "reportSkippedMigrations ks A ?w2" and ?l = "lastAppliedMigration A"
  have q2: "quiet w ?w2" using fetched(1) fair quiet_trans by (auto simp: fair_env_def)
  have q3: "quiet w ?w3" using quiet_trans [OF q2 report_quiet] .
  have A: "A = ?V ?w2"
    using getApplied_versions [OF _ fetched(2)] fair versions_cong [OF ch] by (simp add: fair_env_def)
  have alone: "(\<forall>u. meanwhile env u = u) \<longrightarrow> A = ?V w"
    using fetched(5) unfolding A by (auto simp: same_but_locks_def versions_def mig_simps)
  have pend: "set (filter (\<lambda>k. ?l < k) ks) = pending A m" using pending_last [OF _ ks(2)] by (simp add: A)
  obtain fin rest where f: "filter (\<lambda>k. ?l < k) ks = fin @ rest" "progress res ?w3 w4 fin rest"
  proof (cases "hasNewMigrations ks ?l")
    case True
    with fetched(3) runMigrations_progress that show thesis by (metis (full_types))
  next
    case False
    with fetched(3) have "res = Ok" "w4 = ?w3" by simp_all
    moreover from False have "filter (\<lambda>k. ?l < k) ks = [] @ []" by (auto simp: hasNewMigrations_def list_ex_iff filter_empty_conv)
    ultimately show thesis using that untried [OF quiet_refl, of "[]"] by blast
  qed
  have p: "progress res w w' fin rest" using quiet_progress [OF q3 progress_quiet [OF f(2) fetched(4)]] .
  have "A \<subseteq> ?V w'"
    using versions_quiet [OF report_quiet, of "active_stores present" ?w2 ks A] progress_versions [OF f(2), of "active_stores present"]
      versions_quiet [OF fetched(4), of "active_stores present"] unfolding A by blast
  moreover have "sorted_wrt (<) (fin @ rest)" using ks(1) sorted_wrt_filter by (metis f(1))
  moreover have "set (fin @ rest) = pending A m" using pend by (simp add: f(1))
  moreover have "?V w \<subseteq> A" using versions_quiet [OF q2] by (simp add: A)
  ultimately show ?thesis using alone p unfolding run_ok_def by blast
qed

text \<open>A set of migrations with one that lacks its UP function, or without any datasource, is not run at all.\<close>

definition refused_set :: "(store \<Rightarrow> bool) \<Rightarrow> (int \<times> bool) list \<Rightarrow> bool" where
  "refused_set present m \<longleftrightarrow> (\<exists>k. (k, False) \<in> set m) \<or> (\<forall>s. \<not> present s)"

lemma refused_iff: "refused_set present m \<longleftrightarrow> length (fst (getKeys m)) > 0 \<or> initializeDatasources present = None"
proof -
  have "length (fst (getKeys m)) > 0 \<longleftrightarrow> (\<exists>k. (k, False) \<in> set m)" by (force simp: getKeys_def filter_empty_conv)
  moreover have "initializeDatasources present = None \<longleftrightarrow> (\<forall>s. \<not> present s)"
    using all_initializers by (auto simp: initializeDatasources_def Let_def filter_empty_conv)
  ultimately show ?thesis by (simp add: refused_set_def)
qed

lemma Run_cases:
  assumes "Run env own present m w = Some (res, w')"
  obtains (refused) "refused_set present m" "w' = w" "res = Ok"
  | (failed) "\<not> refused_set present m" "quiet w w'" "res = Exit"
  | (idle) ch w1 A where "\<not> refused_set present m" "initializeDatasources present = Some ch"
      "checkAndCreateMigrationTable env ch w = (True, w1)" "getAppliedMigrations env 0 ch w1 = Some (Some A)"
      "\<not> hasNewMigrations (sort (snd (getKeys m))) (lastAppliedMigration A)" "quiet w w'" "res = Ok"
  | (acquired) ch w1 where "\<not> refused_set present m" "initializeDatasources present = Some ch"
      "checkAndCreateMigrationTable env ch w = (True, w1)"
      "acquireLockAndRun env own ch (sort (snd (getKeys m))) w1 = Some (res, w')"
proof (cases "refused_set present m")
  case True
  with assms have "w' = w" "res = Ok" by (auto simp: refused_iff Run_def Let_def split: prod.splits if_splits)
  with True refused show thesis by blast
next
  case False
  let ?ks = "sort (snd (getKeys m))"
  obtain ch where ch: "initializeDatasources present = Some ch" and inv: "\<not> length (fst (getKeys m)) > 0"
    using False by (auto simp: refused_iff)
  obtain b w1 where c: "checkAndCreateMigrationTable env ch w = (b, w1)" by (rule prod.exhaust)
  note q = check_quiet_chain [OF c]
  obtain bad good where g: "getKeys m = (bad, good)" by (rule prod.exhaust)
  show thesis
  proof (cases b)
    case False
    with assms ch c g inv have "res = Exit" "w' = mig_note [Fatal] w1" by (simp_all add: Run_def Let_def)
    then show thesis using failed [OF \<open>\<not> refused_set present m\<close>] q by (simp add: mig_simps)
  next
    case True
    consider "getAppliedMigrations env 0 ch w1 = Some None"
      | A where "getAppliedMigrations env 0 ch w1 = Some (Some A)" "\<not> hasNewMigrations ?ks (lastAppliedMigration A)"
      | A where "getAppliedMigrations env 0 ch w1 = Some (Some A)" "hasNewMigrations ?ks (lastAppliedMigration A)"
      using assms ch c g inv True by (auto simp: Run_def Let_def split: option.splits)
    then show thesis
    proof cases
      case 1
      with assms ch c g inv True have "res = Exit" "w' = mig_note [Fatal] w1" by (simp_all add: Run_def Let_def)
      then show thesis using failed [OF \<open>\<not> refused_set present m\<close>] q by (simp add: mig_simps)
    next
      case (2 A)
      with assms ch c g inv True have "res = Ok" "w' = reportSkippedMigrations ?ks A w1" by (simp_all add: Run_def Let_def)
      then show thesis using idle [OF \<open>\<not> refused_set present m\<close> ch _ 2] c True quiet_trans [OF q report_quiet] by simp
    next
      case (3 A)
      with assms ch c g inv True have "acquireLockAndRun env own ch ?ks w1 = Some (res, w')" by (simp add: Run_def Let_def)
      then show thesis using acquired [OF \<open>\<not> refused_set present m\<close> ch] c True by simp
    qed
  qed
qed

lemma Run_ok:
  assumes "Run env own present m w = Some (res, w')" and "fair_env env" and "distinct (map fst m)"
  shows "if refused_set present m then res = Ok \<and> w' = w else run_ok env present m res w w'"
proof -
  have "distinct (map fst (filter (\<lambda>(k, hasUP). hasUP) m))" using assms(3) by (rule distinct_map_filter)
  then have ks: "sorted_wrt (<) (sort (snd (getKeys m)))" by (simp add: getKeys_def strict_sorted_iff)
  have kset: "set (sort (snd (getKeys m))) = {k. (k, True) \<in> set m}" by (force simp: getKeys_def)
  show ?thesis using assms(1)
  proof (cases rule: Run_cases)
    case refused
    then show ?thesis by simp
  next
    case failed
    then show ?thesis using stopped_run [of w w' res] by simp
  next
    case (idle ch w1 A)
    have "versions ch w1 = versions (active_stores present) w"
      using kept_versions [OF check_kept_chain [OF idle(3)]] versions_cong [OF initialize_chain(1) [OF idle(2)]] by simp
    then have A: "A = versions (active_stores present) w"
      using getApplied_versions [OF _ idle(4)] assms(2) by (simp add: fair_env_def)
    have "pending A m = {}"
      using idle(5) pending_last [OF _ kset, of A] A by (auto simp: hasNewMigrations_def list_ex_iff)
    then show ?thesis using idle(1) stopped_run [OF idle(6)] A by simp
  next
    case (acquired ch w1)
    then show ?thesis
      using kept_then_run [OF check_kept_chain [OF acquired(3)]
        acquire_run_ok [OF acquired(4) assms(2) initialize_chain(1) [OF acquired(2)] ks kset]] by simp
  qed
qed

text \<open>A sequence of starts of the application, each with its own environment, owner and set of migrations.\<close>

fun deploys :: "(store \<Rightarrow> bool) \<Rightarrow> (mig_env \<times> string \<times> (int \<times> bool) list) list \<Rightarrow> mig_world \<Rightarrow> mig_world option" where
  "deploys present [] w = Some w"
| "deploys present ((env, own, m) # ds) w =
     (case Run env own present m w of None \<Rightarrow> None | Some (res, w1) \<Rightarrow> deploys present ds w1)"

lemma deploys_never_rerun:
  assumes "deploys present ds w = Some w'" and "\<forall>(env, own, m) \<in> set ds. fair_env env \<and> distinct (map fst m)"
    and "v \<in> versions (active_stores present) w" and "k \<le> v"
  shows "count_list (ran_of (mlog w')) k = count_list (ran_of (mlog w)) k"
  using assms
proof (induction present ds w rule: deploys.induct)
  case (2 present env own m ds w)
  obtain res w1 where r: "Run env own present m w = Some (res, w1)" "deploys present ds w1 = Some w'"
    using "2.prems"(1) by (auto split: option.splits)
  have "fair_env env" and d: "distinct (map fst m)" using "2.prems"(2) by auto
  then have ok: "if refused_set present m then res = Ok \<and> w1 = w else run_ok env present m res w w1" using Run_ok [OF r(1) _ d] by simp
  have "count_list (ran_of (mlog w1)) k = count_list (ran_of (mlog w)) k \<and> v \<in> versions (active_stores present) w1"
  proof (cases "refused_set present m")
    case True
    then show ?thesis using ok "2.prems"(3) by simp
  next
    case False
    with ok obtain V fin rest where p: "progress res w w1 fin rest" "versions (active_stores present) w \<subseteq> V" "set (fin @ rest) = pending V m"
      unfolding run_ok_def by auto
    have "v \<in> V" using p(2) "2.prems"(3) by blast
    then have "k \<notin> set (fin @ rest)" using p(3) "2.prems"(4) unfolding pending_def by force
    then have "count_list (ran_of (mlog w1)) k = count_list (ran_of (mlog w)) k"
      using p(1) unfolding progress_def by (cases rest) auto
    then show ?thesis using "2.prems"(3) progress_versions [OF p(1)] by blast
  qed
  then show ?case using "2.IH" [OF r(1) refl r(2)] "2.prems"(2,4) by auto
qed simp

section \<open>A finished migration is on record\<close>

text \<open>What a commit that succeeds says of the transaction.\<close>

lemma commit_handles:
  "chain_commit env tx ch w = (Ok, w') \<Longrightarrow> (SSQL \<in> set ch \<longrightarrow> hasSQLTx tx) \<and> (SRedis \<in> set ch \<longrightarrow> hasRedisTx tx)"
proof (induction ch arbitrary: w w')
  case (Cons s ch)
  then obtain w1 w2 where "chain_commit env tx ch w1 = (Ok, w2)" "s = SSQL \<longrightarrow> hasSQLTx tx" "s = SRedis \<longrightarrow> hasRedisTx tx"
  proof (cases "s = SOpenTSDB")
    case True
    then show ?thesis using that tsdb_commit_cases [of env tx "chain_commit env tx ch" w Ok w'] Cons.prems
      by (auto simp: store_commit_simps)
  next
    case False
    then show ?thesis using Cons.prems
      by (cases s) (auto simp: store_commit_simps commit_layers Let_def split: if_splits intro: that)
  qed
  with Cons.IH show ?case by auto
qed simp

lemma track_calls_mem: "s \<in> track_calls ch tx calls \<longleftrightarrow> s \<in> set calls \<and> installTrackers ch tx s"
proof -
  have "fold markUsed xs A = A \<union> set xs" for xs A by (induction xs arbitrary: A) (simp_all add: markUsed_def)
  then show ?thesis by (auto simp: track_calls_def)
qed

text \<open>The migration \<open>k\<close> calls the store \<open>s\<close> whenever it succeeds.\<close>

definition uses :: "mig_env \<Rightarrow> int \<Rightarrow> store \<Rightarrow> bool" where
  "uses env k s \<longleftrightarrow> (\<forall>tx calls. up env k tx = UpReturns calls False \<longrightarrow> s \<in> set calls)"

lemma finished_recorded:
  assumes "up env k tx0 = UpReturns calls False" and "tx1 = tx0\<lparr>MigrationNumber := k, UsedDatasources := track_calls ch tx0 calls\<rparr>"
    and "commitMigration env ch tx1 w = (Ok, w')" and "s \<in> set ch" and "records_in env s" and "uses env k s"
    and "minInt64 \<le> k" and "k \<le> maxInt64"
  shows "k \<in> recorded w' s"
proof -
  have c: "chain_commit env tx1 ch w = (Ok, w')" using assms(3) by (simp add: commitMigration_def)
  have "installTrackers ch tx0 s"
    using commit_handles [OF c] assms(2,4,5) by (cases s) (auto simp: installTrackers_def records_in_def)
  then have "s \<in> UsedDatasources tx1" using assms(1,2,6) by (simp add: track_calls_mem uses_def)
  from commit_records [OF c assms(4) this assms(5)] assms(2,7,8) show ?thesis by simp
qed

lemma run_records:
  assumes "runMigrations env ch ks lm w = (res, w')" and "s \<in> set ch" and "records_in env s"
  shows "\<exists>fin. done_of (mlog w') = done_of (mlog w) @ fin \<and>
    (\<forall>k \<in> set fin. uses env k s \<longrightarrow> minInt64 \<le> k \<longrightarrow> k \<le> maxInt64 \<longrightarrow> k \<in> recorded w' s)"
  using assms(1)
proof (induction ks arbitrary: w)
  case (Cons k ks)
  show ?case
  proof (cases "k \<le> lm")
    case True
    with Cons.IH [of "mig_note [Skipping k] w"] Cons.prems show ?thesis by (simp add: mig_simps)
  next
    case False
    show ?thesis using Cons.prems False
    proof (cases rule: run_step_cases)
      case (finished calls tx1 w2)
      let ?w2 = "mig_note [Finished k] w2"
      from Cons.IH [OF finished(4)] obtain fin where fin: "done_of (mlog w') = done_of (mlog ?w2) @ fin"
        "\<forall>j \<in> set fin. uses env j s \<longrightarrow> minInt64 \<le> j \<longrightarrow> j \<le> maxInt64 \<longrightarrow> j \<in> recorded w' s" by blast
      have "done_of (mlog ?w2) = done_of (mlog w) @ [k]"
        using commit_quiet_chain [OF finished(3)] by (simp add: quiet_def mig_simps)
      moreover have "recorded w2 s \<subseteq> recorded w' s"
        using runMigrations_progress [OF finished(4)] by (auto simp: progress_def mig_simps)
      then have "k \<in> recorded w' s" if "uses env k s" "minInt64 \<le> k" "k \<le> maxInt64"
        using finished_recorded [OF finished(1,2,3) assms(2,3) that] by blast
      ultimately show ?thesis using fin by (intro exI [of _ "k # fin"]) auto
    next
      case stopped
      then show ?thesis by (intro exI [of _ "[]"]) (simp add: progress_def)
    qed
  qed
qed simp

lemma Run_records:
  assumes "Run env own present m w = Some (res, w')" and "fair_env env" and "present s" and "records_in env s"
  shows "\<exists>fin. done_of (mlog w') = done_of (mlog w) @ fin \<and>
    (\<forall>k \<in> set fin. uses env k s \<longrightarrow> minInt64 \<le> k \<longrightarrow> k \<le> maxInt64 \<longrightarrow> k \<in> recorded w' s)"
  using assms(1)
proof (cases rule: Run_cases)
  case refused
  then show ?thesis by (intro exI [of _ "[]"]) simp
next
  case failed
  then show ?thesis by (intro exI [of _ "[]"]) (simp add: quiet_def)
next
  case (idle ch w1 A)
  then show ?thesis by (intro exI [of _ "[]"]) (simp add: quiet_def)
next
  case (acquired ch w1)
  have s: "s \<in> set ch" using initialize_chain(1) [OF acquired(2)] assms(3) all_initializers by simp
  have q: "quiet w w1" using check_quiet_chain [OF acquired(3)] .
  have m: "quiet v (meanwhile env v)" for v using assms(2) by (simp add: fair_env_def)
  show ?thesis using acquired(4)
  proof (cases rule: acquire_cases)
    case (failed w2)
    have "quiet w2 w'" using failed(2) m [of w2] by (auto simp: mig_simps)
    then have "quiet w w'" using quiet_trans [OF quiet_trans [OF q failed(1)]] by blast
    then show ?thesis by (intro exI [of _ "[]"]) (simp add: quiet_def)
  next
    case (fetched w2 A w4)
    let ?w3 = "reportSkippedMigrations (sort (snd (getKeys m))) A (meanwhile env w2)"
    have q3: "quiet w ?w3" using quiet_trans [OF quiet_trans [OF quiet_trans [OF q fetched(1)] m] report_quiet] .
    have "\<exists>fin. done_of (mlog w4) = done_of (mlog ?w3) @ fin \<and>
        (\<forall>k \<in> set fin. uses env k s \<longrightarrow> minInt64 \<le> k \<longrightarrow> k \<le> maxInt64 \<longrightarrow> k \<in> recorded w4 s)"
      using fetched(3) run_records [OF _ s assms(4)] by (auto split: if_splits)
    then obtain fin where "done_of (mlog w4) = done_of (mlog ?w3) @ fin"
        "\<forall>k \<in> set fin. uses env k s \<longrightarrow> minInt64 \<le> k \<longrightarrow> k \<le> maxInt64 \<longrightarrow> k \<in> recorded w4 s" by blast
    moreover have "recorded w4 s \<subseteq> recorded w' s" using fetched(4) by (simp add: quiet_def)
    moreover have "done_of (mlog ?w3) = done_of (mlog w)" "done_of (mlog w') = done_of (mlog w4)"
      using q3 fetched(4) by (simp_all add: quiet_def)
    ultimately show ?thesis by (intro exI [of _ fin]) auto
  qed
qed

section \<open>Properties: order\<close>

text \<open>
  C17. A run applies the pending migrations in order, one at a time, and skips none. Unless the set has a migration
  without UP function or no datasource is present, in which case nothing is done: let \<open>V\<close> be the versions
  found once the lock is held, which are those recorded in the active datasources before the run and what other
  processes have recorded since (so exactly those before the run if there are none). The declared migrations
  above all of \<open>V\<close>, in strictly ascending order, fall into those that finish during the run and the rest. Beyond those
  finished at most the next one is tried, and if the run returns normally without trying another, nothing is
  left over. Records are never lost.
\<close>

theorem run_applies_in_order:
  assumes "Run env own present m w = Some (res, w')" and "fair_env env" and "distinct (map fst m)"
  shows "if (\<exists>k. (k, False) \<in> set m) \<or> (\<forall>s. \<not> present s) then res = Ok \<and> w' = w
    else \<exists>V fin rest.
      versions (active_stores present) w \<subseteq> V \<and> V \<subseteq> versions (active_stores present) w' \<and>
      ((\<forall>u. meanwhile env u = u) \<longrightarrow> V = versions (active_stores present) w) \<and>
      sorted_wrt (<) (fin @ rest) \<and> set (fin @ rest) = {k. (k, True) \<in> set m \<and> 0 < k \<and> (\<forall>v \<in> V. v < k)} \<and>
      done_of (mlog w') = done_of (mlog w) @ fin \<and>
      (ran_of (mlog w') = ran_of (mlog w) @ fin \<and> (rest = [] \<or> res \<noteq> Ok) \<or>
       rest \<noteq> [] \<and> ran_of (mlog w') = ran_of (mlog w) @ fin @ [hd rest]) \<and>
      (\<forall>s. recorded w s \<subseteq> recorded w' s)"
proof (cases "refused_set present m")
  case True
  then have no: "(\<exists>k. (k, False) \<in> set m) \<or> (\<forall>s. \<not> present s)" by (simp only: refused_set_def)
  show ?thesis unfolding if_P [OF no] using Run_ok [OF assms] True by simp
next
  case False
  then have no: "\<not> ((\<exists>k. (k, False) \<in> set m) \<or> (\<forall>s. \<not> present s))" by (simp only: refused_set_def simp_thms)
  from Run_ok [OF assms] False have "run_ok env present m res w w'" by simp
  then show ?thesis unfolding if_not_P [OF no] run_ok_def progress_def pending_def by blast
qed

text \<open>
  Recorded migrations never run again. Once a version is recorded in an active datasource, no later start
  runs it or any migration below it, however many starts follow and whatever fails during them.
\<close>

lemma recorded_never_reruns:
  assumes "deploys present ds w = Some w'" and "\<forall>(env, own, m) \<in> set ds. fair_env env \<and> distinct (map fst m)"
    and "v \<in> versions (active_stores present) w" and "k \<le> v"
  shows "count_list (ran_of (mlog w')) k = count_list (ran_of (mlog w)) k"
  by (rule deploys_never_rerun [OF assms])

text \<open>
  C13. A migration that finished never runs again. If a migration finishes in a run and calls at least one active
  datasource that keeps records, which is any but a message broker and an SQL database of an unknown
  dialect, then the version is on record there after the run, and no later start runs it again. This holds for
  every combination of the datasources.
\<close>

theorem finished_runs_once:
  assumes "Run env own present m w = Some (res, w1)" and "fair_env env"
    and "length (done_of (mlog w)) \<le> i" and "i < length (done_of (mlog w1))" and "done_of (mlog w1) ! i = k"
    and "present s" and "records_in env s" and "uses env k s" and "minInt64 \<le> k" and "k \<le> maxInt64"
    and "deploys present ds w1 = Some w'" and "\<forall>(env, own, m) \<in> set ds. fair_env env \<and> distinct (map fst m)"
  shows "k \<in> recorded w1 s \<and> count_list (ran_of (mlog w')) k = count_list (ran_of (mlog w1)) k"
proof -
  from Run_records [OF assms(1,2,6,7)] obtain fin where fin: "done_of (mlog w1) = done_of (mlog w) @ fin"
    "\<forall>k \<in> set fin. uses env k s \<longrightarrow> minInt64 \<le> k \<longrightarrow> k \<le> maxInt64 \<longrightarrow> k \<in> recorded w1 s" by blast
  have "k \<in> set fin" using fin(1) assms(3-5) by (auto simp: nth_append)
  then have r: "k \<in> recorded w1 s" using fin(2) assms(8-10) by blast
  then have "k \<in> versions (active_stores present) w1" using assms(6) all_initializers by (auto simp: versions_def)
  from deploys_never_rerun [OF assms(11,12) this] r show ?thesis by simp
qed

section \<open>Properties: dialects\<close>

definition sql_same :: "commit_op \<Rightarrow> bool" where
  "sql_same f \<longleftrightarrow> (\<forall>w. rows (snd (f w)) SSQL = rows w SSQL)"

lemma sql_sameD: "sql_same f \<Longrightarrow> rows (snd (f w)) SSQL = rows w SSQL"
  by (simp add: sql_same_def)

lemma sql_sameI: "(\<And>w. rows (snd (f w)) SSQL = rows w SSQL) \<Longrightarrow> sql_same f"
  by (simp add: sql_same_def)

lemma upsert_other [mig_simps]: "s \<noteq> t \<Longrightarrow> rows (upsert_row s k w) t = rows w t"
  by (simp add: upsert_row_def insert_row_def)

lemma tsdb_sql_same:
  assumes "sql_same inner"
  shows "sql_same (openTSDBMigrator_commitMigration env tx inner)"
proof (rule sql_sameI)
  fix w
  obtain r w' where r: "openTSDBMigrator_commitMigration env tx inner w = (r, w')" by (rule prod.exhaust)
  from tsdb_commit_cases [OF r] have "rows w' = rows (snd (inner w))" by auto
  with r sql_sameD [OF assms, of w] show "rows (snd (openTSDBMigrator_commitMigration env tx inner w)) SSQL = rows w SSQL" by simp
qed

lemma commit_sql_same:
  assumes "\<not> recordsDialect (dialect env)" and "sql_same inner"
  shows "sql_same (store_commit env tx s inner)"
proof (cases "s = SOpenTSDB")
  case True
  then show ?thesis using tsdb_sql_same [OF assms(2)] by (simp add: store_commit_simps)
next
  case False
  have "rows (snd (store_commit env tx s inner w)) SSQL = rows w SSQL" for w
    using False assms(1) by (cases s) (simp_all add: store_commit_simps commit_layers Let_def sql_sameD [OF assms(2)] mig_simps)
  then show ?thesis by (rule sql_sameI)
qed

lemma then_fatal_sql_same:
  assumes "sql_same inner"
  shows "rows (snd (then_fatal inner w)) SSQL = rows w SSQL"
proof -
  obtain r w1 where i: "inner w = (r, w1)" by (rule prod.exhaust)
  then show ?thesis using sql_sameD [OF assms, of w] by (cases r) (simp_all add: then_fatal_def mig_simps)
qed

interpretation sql_commit: wrapped "store_commit env tx" "Datasource_commitMigration tx" "\<lambda>f. \<not> recordsDialect (dialect env) \<longrightarrow> sql_same f" for env tx
  by unfold_locales (simp_all add: sql_same_def [of "Datasource_commitMigration _"] base_layers commit_sql_same mig_simps)

interpretation sql_rollback: wrapped "store_rollback env tx" Datasource_rollback sql_same for env tx
proof
  show "sql_same Datasource_rollback" by (simp add: sql_same_def base_layers)
  show "sql_same (store_rollback env tx s inner)" if "sql_same inner" for s inner
  proof (rule sql_sameI)
    fix w
    note q = sql_sameD [OF that] then_fatal_sql_same [OF that]
    show "rows (snd (store_rollback env tx s inner w)) SSQL = rows w SSQL"
      by (cases s) (simp_all add: store_rollback_def rollback_layers q mig_simps)
  qed
qed

lemma abort_sql_same: "rows (snd (abort_with f env ch tx w)) SSQL = rows w SSQL"
proof -
  obtain r w1 where r: "rollback env ch tx w = (r, w1)" by (rule prod.exhaust)
  then have "rows w1 SSQL = rows w SSQL" using sql_sameD [OF sql_rollback.chain_contract [of env tx ch], of w] by (simp add: rollback_def)
  with r show ?thesis by (cases r) (simp_all add: abort_with_def mig_simps)
qed

lemma run_sql_same:
  assumes "\<not> recordsDialect (dialect env)"
  shows "rows (snd (runMigrations env ch ks lm w)) SSQL = rows w SSQL"
proof (induction ks arbitrary: w)
  case (Cons k ks)
  have c: "commitMigration env ch tx w1 = (r, w2) \<Longrightarrow> rows w2 SSQL = rows w1 SSQL" for tx w1 r w2
    using sql_commit.chain_contract [of env tx ch] assms sql_sameD [of "commitMigration env ch tx" w1] by (simp add: commitMigration_def)
  show ?case
    by (simp add: Let_def Cons.IH abort_sql_same mig_simps split: up_result.split prod.split mig_result.split)
      (auto dest!: c simp: mig_simps Cons.IH abort_sql_same)
qed simp

lemma same_but_locks_rows: "same_but_locks w w' \<Longrightarrow> rows w' = rows w"
  by (auto simp: same_but_locks_def)

lemma report_rows: "rows (reportSkippedMigrations ks A w) = rows w"
  by (simp add: reportSkippedMigrations_def Let_def mig_simps)

lemma acquire_sql_same:
  assumes "\<not> recordsDialect (dialect env)" and "\<And>w. rows (meanwhile env w) SSQL = rows w SSQL"
    and "acquireLockAndRun env own ch ks w = Some (res, w')"
  shows "rows w' SSQL = rows w SSQL"
proof -
  obtain b w1 where l: "mg_lock env own ch w = Some (b, w1)" using assms(3) by (auto simp: acquireLockAndRun_def split: option.splits)
  have run: "runMigrations env ch ks lm w1 = (r, w2) \<Longrightarrow> rows w2 SSQL = rows w1 SSQL" for lm w1 r w2
    using run_sql_same [OF assms(1), of ch ks lm w1] by simp
  note u = same_but_locks_rows [OF unlock_frame_chain]
  show ?thesis
    using assms(3) same_but_locks_rows [OF lock_frame_chain [OF l]] l
    by (cases b) (auto simp: acquireLockAndRun_def Let_def mig_simps u report_rows assms(2)
        split: option.splits prod.splits if_splits dest!: run)
qed

text \<open>
  For two of the supported dialects nothing is ever recorded. With the dialect \<^verbatim>\<open>cockroachdb\<close> or \<^verbatim>\<open>supabase\<close> a run
  leaves the table of applied SQL migrations as it was, also when migrations of the run finish and are committed.
\<close>

lemma postgres_variants_record_nothing:
  assumes "dialect env \<in> {''cockroachdb'', ''supabase''}" and "\<forall>w. rows (meanwhile env w) SSQL = rows w SSQL"
    and "Run env own present m w = Some (res, w')"
  shows "rows w' SSQL = rows w SSQL"
proof -
  have d: "\<not> recordsDialect (dialect env)" using assms(1) by (auto simp: recordsDialect_def)
  have c: "rows w1 = rows w" if "checkAndCreateMigrationTable env ch w = (b, w1)" for ch b w1
    using kept_opD [OF kept_check.chain_contract [of env ch] kept_step(1) [of w]] that
    by (simp add: checkAndCreateMigrationTable_def kept_def)
  from acquire_sql_same [OF d] assms(2,3) show ?thesis
    by (auto simp: Run_def Let_def mig_simps report_rows dest: c split: prod.splits if_splits option.splits bool.splits)
qed

section \<open>A run without failures\<close>

text \<open>Nothing goes wrong in the migration \<open>k\<close>.\<close>

definition smooth :: "mig_env \<Rightarrow> int \<Rightarrow> bool" where
  "smooth env k \<longleftrightarrow> (\<forall>n. \<not> refreshLost env k n) \<and> (\<forall>s. \<not> beginFails env s k \<and> \<not> recordFails env s k \<and> \<not> durableFails env s k) \<and>
     (\<forall>tx. \<exists>calls. up env k tx = UpReturns calls False)"

text \<open>Every migration above the last applied one has fresh rows, and the file is intact.\<close>

definition run_ready :: "mig_env \<Rightarrow> store list \<Rightarrow> int list \<Rightarrow> int \<Rightarrow> mig_world \<Rightarrow> bool" where
  "run_ready env ch ks lm w \<longleftrightarrow> sorted_wrt (<) ks \<and> (\<forall>k \<in> set ks. lm < k \<longrightarrow> smooth env k) \<and> distinct ch \<and>
     (SDGraph \<in> set ch \<longrightarrow> \<not> nodgraph env) \<and> tsdbFile w \<noteq> Corrupted \<and>
     (\<forall>k \<in> set ks. lm < k \<longrightarrow> (\<forall>s \<in> set ch. tabled s \<longrightarrow> (\<forall>v \<in> set (rows w s). v < k)))"

lemma run_ready_commit:
  assumes "run_ready env ch (k # ks) lm w" and "\<not> k \<le> lm" and "up env k (beginTransaction env k ch) = UpReturns calls False"
    and "tx1 = (beginTransaction env k ch)\<lparr>MigrationNumber := k, UsedDatasources := U\<rparr>"
  shows "\<exists>w2. commitMigration env ch tx1 (mig_note [Ran k] w) = (Ok, w2) \<and> run_ready env ch ks lm (mig_note [Finished k] w2)"
proof -
  let ?w1 = "mig_note [Ran k] w"
  have k: "smooth env k" "distinct ch" using assms(1,2) by (simp_all add: run_ready_def)
  have h: "hasSQLTx tx1 = (SSQL \<in> set ch) \<and> hasRedisTx tx1 = (SRedis \<in> set ch) \<and> hasOracleTx tx1 = (SOracle \<in> set ch)"
    using begin_handles [of env k ch] k(1) assms(4) by (simp add: smooth_def beginTransaction_def)
  have "k \<notin> set (rows w s)" if "s \<in> set ch" "tabled s" for s
    using assms(1,2) that unfolding run_ready_def by (metis less_irrefl list.set_intros(1) not_le)
  then have ready: "commit_ready env tx1 ch ?w1"
    using h assms(1,4) k(1) by (simp add: commit_ready_def run_ready_def smooth_def mig_simps)
  then obtain w2 where w2: "commitMigration env ch tx1 ?w1 = (Ok, w2)"
    using commit_succeeds [OF ready k(2)] by (metis commitMigration_def prod.collapse)
  note fr = frame_commit.chain_contract [of tx1 env ch, unfolded frame_op_def, rule_format]
  have rows: "set (rows w2 s) \<subseteq> insert k (set (rows w s))" and intact: "tsdbFile w2 \<noteq> Corrupted" for s
    using fr [of ?w1] w2 assms(1,4) by (auto simp: commitMigration_def mig_simps run_ready_def)
  have fresh: "\<forall>s \<in> set ch. tabled s \<longrightarrow> (\<forall>v \<in> set (rows w2 s). v < j)" if "j \<in> set ks" "lm < j" for j
  proof (intro ballI impI)
    fix s v assume s: "s \<in> set ch" "tabled s" and "v \<in> set (rows w2 s)"
    with rows have "v = k \<or> v \<in> set (rows w s)" by blast
    moreover have "k < j" and "\<forall>u \<in> set (rows w s). u < j" using assms(1) that s by (simp_all add: run_ready_def)
    ultimately show "v < j" by blast
  qed
  have "sorted_wrt (<) ks \<and> (\<forall>k \<in> set ks. lm < k \<longrightarrow> smooth env k) \<and> distinct ch \<and> (SDGraph \<in> set ch \<longrightarrow> \<not> nodgraph env)"
    using assms(1) by (simp add: run_ready_def)
  with fresh intact have "run_ready env ch ks lm (mig_note [Finished k] w2)" unfolding run_ready_def note_proj by blast
  with w2 show ?thesis by blast
qed

lemma run_smooth:
  assumes "run_ready env ch ks lm w"
  shows "\<exists>w'. runMigrations env ch ks lm w = (Ok, w') \<and> done_of (mlog w') = done_of (mlog w) @ filter (\<lambda>k. lm < k) ks"
  using assms
proof (induction ks arbitrary: w)
  case (Cons k ks)
  show ?case
  proof (cases "k \<le> lm")
    case True
    have "run_ready env ch ks lm (mig_note [Skipping k] w)" using Cons.prems by (simp add: run_ready_def mig_simps)
    from Cons.IH [OF this] True show ?thesis by (simp add: mig_simps not_less)
  next
    case False
    then have k: "smooth env k" using Cons.prems by (simp add: run_ready_def)
    let ?tx = "beginTransaction env k ch"
    from k obtain calls where u: "up env k ?tx = UpReturns calls False" unfolding smooth_def by blast
    from run_ready_commit [OF Cons.prems False u refl] obtain w2
      where w2: "commitMigration env ch (?tx\<lparr>MigrationNumber := k, UsedDatasources := track_calls ch ?tx calls\<rparr>) (mig_note [Ran k] w) = (Ok, w2)"
        "run_ready env ch ks lm (mig_note [Finished k] w2)" by blast
    from Cons.IH [OF w2(2)] obtain w' where w': "runMigrations env ch ks lm (mig_note [Finished k] w2) = (Ok, w')"
      "done_of (mlog w') = done_of (mlog (mig_note [Finished k] w2)) @ filter (\<lambda>k. lm < k) ks" by blast
    have "runMigrations env ch (k # ks) lm w = (Ok, w')"
      using k False u w2(1) w'(1) by (simp add: smooth_def Let_def)
    moreover have "done_of (mlog (mig_note [Finished k] w2)) = done_of (mlog w) @ [k]"
      using commit_quiet_chain [OF w2(1)] by (simp add: quiet_def mig_simps)
    ultimately show ?thesis using w'(2) False by simp
  qed
qed simp

text \<open>The stores answer, and every table exists, or will when the migrators create theirs: the OpenTSDB migrator does
  not pass the creation on, so with it the tables have to exist.\<close>

definition stores_answer :: "mig_env \<Rightarrow> (store \<Rightarrow> bool) \<Rightarrow> mig_world \<Rightarrow> bool" where
  "stores_answer env present w \<longleftrightarrow> creation_works env \<and> reads_back env \<and> (present SDGraph \<longrightarrow> \<not> nodgraph env) \<and>
     tsdbFile w \<noteq> Corrupted \<and> \<not> list_ex (\<lambda>(key, v). v = Malformed) (redisRows w) \<and>
     (\<forall>n s. \<not> queryFails env n s True) \<and> (\<forall>n idx after. esSearch env n True idx after \<noteq> None) \<and>
     (present SOpenTSDB \<longrightarrow> (\<forall>s. present s \<and> tabled s \<longrightarrow> hasTable w s))"

lemma all_readable:
  assumes "stores_answer env present w0" and "\<forall>s \<in> set ch. present s" and "\<forall>s \<in> set ch. tabled s \<longrightarrow> hasTable w s"
    and "redisRows w = redisRows w0" and "tsdbFile w \<noteq> Corrupted"
  shows "\<forall>s \<in> set ch. readable env n w s"
proof
  fix s assume "s \<in> set ch"
  then have "present s" "tabled s \<longrightarrow> hasTable w s" using assms(2,3) by auto
  with assms(1,4,5) show "readable env n w s" by (cases s) (auto simp: readable_def stores_answer_def)
qed

lemma applied_now:
  assumes "stores_answer env present w0" and "\<forall>s \<in> set ch. present s" and "\<forall>s \<in> set ch. tabled s \<longrightarrow> hasTable w s"
    and "redisRows w = redisRows w0" and "tsdbFile w \<noteq> Corrupted"
  shows "getAppliedMigrations env n ch w = Some (Some (versions ch w))"
  using applied_exact [of env n ch w] all_readable [OF assms, of n] assms(1) by (auto simp: getAppliedMigrations_def stores_answer_def)

lemma tables_created:
  assumes "stores_answer env present w" and "set ch = {s. present s}"
  shows "\<exists>w1. checkAndCreateMigrationTable env ch w = (True, w1) \<and> kept w w1 \<and> tsdbFile w1 \<noteq> Corrupted \<and>
    (\<forall>s \<in> set ch. tabled s \<longrightarrow> hasTable w1 s)"
proof -
  have a: "creation_works env" "SDGraph \<in> set ch \<Longrightarrow> \<not> nodgraph env" "tsdbFile w \<noteq> Corrupted"
    using assms by (simp_all add: stores_answer_def)
  from check_works [OF a] obtain w1 where w1: "chain_check env ch w = (True, w1)" "kept w w1" "tsdbFile w1 \<noteq> Corrupted"
    "SOpenTSDB \<in> set ch \<or> (\<forall>s \<in> set ch. tabled s \<longrightarrow> hasTable w1 s)" by blast
  have "\<forall>s \<in> set ch. tabled s \<longrightarrow> hasTable w1 s"
    using w1(2,4) assms unfolding stores_answer_def kept_def by blast
  with w1 show ?thesis by (auto simp: checkAndCreateMigrationTable_def)
qed

lemma initialize_some:
  assumes "present s"
  shows "\<exists>ch. initializeDatasources present = Some ch"
proof -
  have "s \<in> set (active_stores present)" using assms all_initializers by simp
  then have "active_stores present \<noteq> []" by force
  then show ?thesis by (simp add: initializeDatasources_def Let_def)
qed

lemma all_keys:
  assumes "list_all snd m"
  shows "getKeys m = ([], map fst m)"
proof -
  have "filter (\<lambda>(k, hasUP). hasUP) m = m" "filter (\<lambda>(k, hasUP). \<not> hasUP) m = []"
    using assms by (auto simp: list_all_iff filter_empty_conv intro!: filter_True)
  then show ?thesis by (simp add: getKeys_def)
qed

lemma run_total:
  assumes "\<exists>s. present s" and "\<forall>s. \<exists>t. undisturbed env s t" and "\<forall>w. meanwhile env w = w"
    and "stores_answer env present w" and "\<forall>k. smooth env k" and "distinct (map fst m)" and "list_all snd m"
  shows "\<exists>w'. Run env own present m w = Some (Ok, w') \<and>
    done_of (mlog w') = done_of (mlog w) @
      sort (filter (\<lambda>k. lastAppliedMigration (versions (active_stores present) w) < k) (map fst m))"
proof -
  let ?ks = "sort (map fst m)" and ?V = "versions (active_stores present) w"
  let ?l = "lastAppliedMigration ?V"
  note keys = all_keys [OF assms(7)]
  obtain ch where ch: "initializeDatasources present = Some ch" using assms(1) initialize_some by blast
  have chset: "set ch = {s. present s}" using initialize_chain(1) [OF ch] all_initializers by auto
  then have pr: "\<forall>s \<in> set ch. present s" by simp
  from tables_created [OF assms(4) chset] obtain w1
    where w1: "checkAndCreateMigrationTable env ch w = (True, w1)" "kept w w1" "tsdbFile w1 \<noteq> Corrupted"
      "\<forall>s \<in> set ch. tabled s \<longrightarrow> hasTable w1 s" by blast
  have V1: "versions ch w1 = ?V" using w1(2) versions_cong [OF initialize_chain(1) [OF ch], of w] by (simp add: versions_def kept_def)
  have red: "redisRows w1 = redisRows w" "mlog w1 = mlog w" using w1(2) by (simp_all add: kept_def)
  have app: "getAppliedMigrations env 0 ch w1 = Some (Some ?V)"
    using applied_now [OF assms(4) pr w1(4) red(1) w1(3), of 0] V1 by simp
  have fl: "filter (\<lambda>k. ?l < k) ?ks = sort (filter (\<lambda>k. ?l < k) (map fst m))" by (simp add: filter_sort)
  show ?thesis
  proof (cases "hasNewMigrations ?ks ?l")
    case False
    then have "filter (\<lambda>k. ?l < k) ?ks = []" by (auto simp: hasNewMigrations_def list_ex_iff filter_empty_conv)
    moreover have "Run env own present m w = Some (Ok, reportSkippedMigrations ?ks ?V w1)"
      using False keys ch app w1(1) by (simp add: Run_def Let_def)
    ultimately show ?thesis using report_quiet [of w1 ?ks ?V] red(2) unfolding fl by (simp add: quiet_def)
  next
    case True
    obtain w2 where l: "mg_lock env own ch w1 = Some (True, w2)"
      using lock_obtained [of ch env own w1] assms(2) by (auto simp: mg_lock_def)
    obtain lk where w2: "w2 = w1\<lparr>locks := lk\<rparr>" using lock_frame_chain [OF l] by (auto simp: same_but_locks_def)
    have V2: "versions ch w2 = ?V" using V1 by (simp add: w2 versions_def mig_simps)
    have app1: "getAppliedMigrations env 1 ch w2 = Some (Some ?V)"
      using applied_now [OF assms(4) pr, of w2 1] w1(3,4) red V2 by (simp add: w2)
    let ?w3 = "reportSkippedMigrations ?ks ?V w2"
    have w3: "rows ?w3 = rows w2" "tsdbFile ?w3 = tsdbFile w2"
      by (simp_all add: reportSkippedMigrations_def Let_def mig_simps)
    have le: "v \<le> ?l" if "s \<in> set ch" "tabled s" "v \<in> set (rows ?w3 s)" for s v
    proof -
      have "v \<in> recorded w2 s" using that by (simp add: w3 recorded_rows)
      then have "v \<in> versions ch w2" using that(1) by (auto simp: versions_def)
      then show ?thesis using last_bounds(1) [of ?V v] V2 by simp
    qed
    have fresh: "\<forall>k \<in> set ?ks. ?l < k \<longrightarrow> (\<forall>s \<in> set ch. tabled s \<longrightarrow> (\<forall>v \<in> set (rows ?w3 s). v < k))"
    proof (intro ballI impI)
      fix k s v assume "?l < k" "s \<in> set ch" "tabled s" "v \<in> set (rows ?w3 s)"
      then show "v < k" using le [of s v] by simp
    qed
    have "sorted_wrt (<) ?ks" using assms(6) by (simp add: strict_sorted_iff)
    moreover have "SDGraph \<in> set ch \<longrightarrow> \<not> nodgraph env" using assms(4) pr by (auto simp: stores_answer_def)
    moreover have "tsdbFile ?w3 \<noteq> Corrupted" using w1(3) unfolding w3(2) by (simp add: w2)
    ultimately have "run_ready env ch ?ks ?l ?w3"
      using assms(5) initialize_chain(2) [OF ch] fresh unfolding run_ready_def by blast
    from run_smooth [OF this] obtain w4 where r: "runMigrations env ch ?ks ?l ?w3 = (Ok, w4)"
      and d: "done_of (mlog w4) = done_of (mlog ?w3) @ filter (\<lambda>k. ?l < k) ?ks" by blast
    have "Run env own present m w = Some (Ok, snd (mg_unlock env own ch w4))"
      using True keys ch app w1(1) assms(3) l app1 r by (simp add: Run_def acquireLockAndRun_def Let_def)
    moreover have "done_of (mlog ?w3) = done_of (mlog w)"
      using report_quiet [of w2 ?ks ?V] red(2) by (simp add: quiet_def w2)
    moreover have "done_of (mlog (snd (mg_unlock env own ch w4))) = done_of (mlog w4)"
      using unlock_quiet [of w4 env own ch] by (simp add: quiet_def)
    ultimately show ?thesis using d unfolding fl by simp
  qed
qed

section \<open>Where the chain goes wrong\<close>

text \<open>The OpenTSDB migrator comes before SQL, and creates no table of the migrators after it.\<close>

lemma check_other_table:
  "(\<forall>w. hasTable (snd (inner w)) t = hasTable w t) \<Longrightarrow> s \<noteq> t \<Longrightarrow> hasTable (snd (store_check env s inner w)) t = hasTable w t"
proof -
  assume i: "\<forall>w. hasTable (snd (inner w)) t = hasTable w t" and "s \<noteq> t"
  have "hasTable (snd (surreal_queries env qs inner w)) t = hasTable w t" if "SSurrealDB \<noteq> t" for qs w
    using that i by (induction qs arbitrary: w) (simp_all add: mig_simps)
  with i \<open>s \<noteq> t\<close> show ?thesis
    by (cases s) (simp_all add: store_check_simps check_layers surrealMigrator_checkAndCreateMigrationTable_def Let_def mig_simps)
qed

lemma check_stops_at_tsdb:
  "t \<notin> set a \<Longrightarrow> t \<noteq> SOpenTSDB \<Longrightarrow> hasTable (snd (chain_check env (a @ SOpenTSDB # b) w)) t = hasTable w t"
proof (induction a arbitrary: w)
  case Nil
  then show ?case by (simp add: store_check_simps check_layers Let_def)
next
  case (Cons s a)
  then show ?case using check_other_table [of "chain_check env (a @ SOpenTSDB # b)" t s env w] by auto
qed

lemma unreadable_chain:
  assumes "reads_back env" and "SSQL \<in> set ch" and "queryFails env n SSQL (hasTable w SSQL)"
  shows "getAppliedMigrations env n ch w = Some None"
proof -
  have "foldr (store_applied env n) ch Datasource_getAppliedMigrations w = Some None" using assms(2)
  proof (induction ch)
    case (Cons s ch)
    show ?case
    proof (cases "s = SSQL")
      case True
      then show ?thesis using assms(3) by (simp add: store_applied_def [of env n SSQL] sqlMigrator_getAppliedMigrations_def add_versions_def)
    next
      case False
      then have "foldr (store_applied env n) ch Datasource_getAppliedMigrations w = Some None" using Cons by simp
      moreover obtain f where "store_applied env n s (foldr (store_applied env n) ch Datasource_getAppliedMigrations) w =
          add_versions f (foldr (store_applied env n) ch Datasource_getAppliedMigrations w)"
        using store_applied_fetch [OF assms(1)] by blast
      ultimately show ?thesis by (simp add: add_versions_def split: option.split)
    qed
  qed simp
  then show ?thesis by (simp add: getAppliedMigrations_def)
qed

text \<open>
  With OpenTSDB and SQL together a fresh database can not be migrated. The OpenTSDB migrator does not pass the
  creation of the tables on to the migrators after it. If the migration table of the SQL database does not
  exist, and a query of it fails then, every start ends the process without running any migration, and the
  table is still missing for the next start.
\<close>

lemma opentsdb_blocks_fresh_sql:
  assumes "present SOpenTSDB" and "present SSQL" and "\<not> hasTable w SSQL" and "\<forall>n. queryFails env n SSQL False"
    and "reads_back env" and "list_all snd m"
  shows "\<exists>w'. Run env own present m w = Some (Exit, w') \<and> ran_of (mlog w') = ran_of (mlog w) \<and> \<not> hasTable w' SSQL"
proof -
  have mem: "SOpenTSDB \<in> set (active_stores present)" "SSQL \<in> set (active_stores present)" using assms(1,2) all_initializers by simp_all
  obtain ch where ch: "initializeDatasources present = Some ch" using assms(1) initialize_some by blast
  then have in_ch: "SOpenTSDB \<in> set ch" "SSQL \<in> set ch" using mem initialize_chain(1) [OF ch] by simp_all
  then obtain a b where ab: "ch = a @ SOpenTSDB # b" by (auto dest: split_list)
  have "SSQL \<notin> set a"
  proof
    assume "SSQL \<in> set a"
    with initialize_chain(3) [OF ch] ab have "store_name SSQL \<le> store_name SOpenTSDB" by (auto simp: sorted_append)
    moreover have "\<not> store_name SSQL \<le> store_name SOpenTSDB" by (simp add: store_name_def less_eq_char_def)
    ultimately show False by blast
  qed
  obtain ok w1 where c: "checkAndCreateMigrationTable env ch w = (ok, w1)" by (rule prod.exhaust)
  then have t: "\<not> hasTable w1 SSQL"
    using check_stops_at_tsdb [OF \<open>SSQL \<notin> set a\<close>, of env b w] assms(3) by (simp add: checkAndCreateMigrationTable_def ab)
  have "getAppliedMigrations env 0 ch w1 = Some None" using unreadable_chain [OF assms(5) in_ch(2), of 0 w1] assms(4) t by simp
  then have "Run env own present m w = Some (Exit, mig_note [Fatal] w1)"
    using ch c all_keys [OF assms(6)] by (cases ok) (simp_all add: Run_def Let_def)
  moreover have "ran_of (mlog (mig_note [Fatal] w1)) = ran_of (mlog w)"
    using check_quiet_chain [OF c] by (simp add: quiet_def mig_simps)
  ultimately show ?thesis using t by (simp add: mig_simps)
qed

text \<open>
  A commit over several datasources is not atomic. If a migration used Cassandra and SQL, the record in
  Cassandra is written first. When the SQL transaction then fails to commit, the commit returns an error and
  SQL has neither the record nor the changes, but the version counts as applied: no later start runs it.
\<close>

lemma half_commit_counts_as_applied:
  assumes "commitMigration env [SCassandra, SSQL] tx w = (res, w1)" and "SCassandra \<in> UsedDatasources tx" and "hasSQLTx tx"
    and "\<not> recordFails env SCassandra (MigrationNumber tx)" and "durableFails env SSQL (MigrationNumber tx)"
    and "present = (\<lambda>s. s = SCassandra \<or> s = SSQL)"
    and "deploys present ds w1 = Some w'" and "\<forall>(env, own, m) \<in> set ds. fair_env env \<and> distinct (map fst m)"
  shows "res = Err \<and> rows w1 SSQL = rows w SSQL \<and> MigrationNumber tx \<in> recorded w1 SCassandra \<and>
    count_list (ran_of (mlog w')) (MigrationNumber tx) = count_list (ran_of (mlog w1)) (MigrationNumber tx)"
proof -
  let ?k = "MigrationNumber tx"
  have c: "res = Err \<and> w1 = upsert_row SCassandra ?k w"
    using assms(1-5) by (auto simp: commitMigration_def store_commit_simps commit_layers Let_def split: if_splits)
  then have r: "?k \<in> recorded w1 SCassandra" by (simp add: mig_simps)
  then have "?k \<in> versions (active_stores present) w1" using all_initializers by (auto simp: versions_def assms(6))
  from deploys_never_rerun [OF assms(7,8) this] c r show ?thesis by (simp add: mig_simps)
qed

section \<open>An example environment\<close>

text \<open>Every call succeeds and every migration uses SQL; a crashed process left the locks behind.\<close>

definition demo_env :: "string \<Rightarrow> mig_env" where
  "demo_env d =
     \<lparr>dialect = d, nodgraph = False,
      createError = (\<lambda>s i b. if s = SElasticsearch \<and> i = 0 \<and> \<not> b then Some ''missing'' else None),
      queryFails = (\<lambda>n s b. \<not> b), driverValue = (\<lambda>s v. Field (VInt64 v)), dgraphAnswers = (\<lambda>_. True),
      esSearch = (\<lambda>n b idx after. if b then Some (Hits (map (\<lambda>v. Field (VFloat v)) (es_page idx after))) else None),
      beginFails = (\<lambda>_ _. False), recordFails = (\<lambda>_ _. False), durableFails = (\<lambda>_ _. False),
      tmpLeft = (\<lambda>_. False), tmpStays = False, refreshLost = (\<lambda>_ _. False),
      up = (\<lambda>_ _. UpReturns [SSQL] False), meanwhile = id,
      lockClock = (\<lambda>s i. int i * defaultRetry), expiryClock = (\<lambda>s i. int i * defaultRetry),
      lockOthers = (\<lambda>_ _. id), cleanupFails = (\<lambda>_ _. False), insertError = (\<lambda>_ _. None),
      duplicateError = (\<lambda>_. ''UNIQUE constraint failed''), lockCanceled = (\<lambda>_ _. False), unlockFails = (\<lambda>_. False),
      beforeUnlock = (\<lambda>_. id)\<rparr>"

definition demo_world :: mig_world where
  "demo_world =
     \<lparr>rows = (\<lambda>s. if s = SSQL then [1] else []), hasTable = (\<lambda>_. True), redisRows = [], tsdbFile = TsdbRecords [], tsdbTmp = False,
      locks = (\<lambda>_. Some (''crashed'', 9000)), mlog = []\<rparr>"

definition demo_migrations :: "(int \<times> bool) list" where
  "demo_migrations = [(3, True), (1, True), (2, True)]"

lemma demo_reads_back: "reads_back (demo_env d)"
  by (simp add: reads_back_def demo_env_def es_documented_def oracle_row_def oracleMigrator_convertToInt64_def surreal_row_def
      surrealVersionToInt64_def)

lemma demo_env_facts:
  "\<exists>t. undisturbed (demo_env d) s t" "meanwhile (demo_env d) w = w" "smooth (demo_env d) k" "fair_env (demo_env d)"
  "dialect (demo_env d) = d" "uses (demo_env d) k SSQL" "records_in (demo_env ''mysql'') SSQL"
proof -
  have "isDuplicateKeyError ''UNIQUE constraint failed''" by code_simp
  then show "\<exists>t. undisturbed (demo_env d) s t" by (intro exI [of _ 0]) (simp add: undisturbed_def demo_env_def)
  show "fair_env (demo_env d)" using demo_reads_back by (simp add: fair_env_def) (simp add: demo_env_def)
qed (simp_all add: demo_env_def smooth_def uses_def records_in_def recordsDialect_def)

lemma demo_answers: "stores_answer (demo_env d) present demo_world"
  using demo_reads_back [of d]
  by (simp add: stores_answer_def) (simp add: demo_env_def demo_world_def creation_works_def mongo_tolerates_def)

lemma demo_pending:
  "sort (filter (\<lambda>k. lastAppliedMigration (versions (active_stores (\<lambda>_. True)) demo_world) < k) (map fst demo_migrations)) = [2, 3]"
proof -
  have "versions (active_stores (\<lambda>_. True)) demo_world = {1}"
    by (simp add: versions_def getInitializers_def recorded_def demo_world_def)
  then show ?thesis by (simp add: lastAppliedMigration_def demo_migrations_def)
qed

lemma demo_keys: "distinct (map fst demo_migrations)" "list_all snd demo_migrations"
  by (simp_all add: demo_migrations_def)

lemma demo_run:
  "\<exists>w'. Run (demo_env d) own (\<lambda>_. True) demo_migrations demo_world = Some (Ok, w') \<and> done_of (mlog w') = [2, 3]"
proof -
  from run_total [of "\<lambda>_. True" "demo_env d" demo_world demo_migrations own] demo_env_facts demo_answers demo_keys
  have "\<exists>w'. Run (demo_env d) own (\<lambda>_. True) demo_migrations demo_world = Some (Ok, w') \<and>
      done_of (mlog w') = done_of (mlog demo_world) @ [2, 3]" unfolding demo_pending by blast
  then show ?thesis by (simp add: demo_world_def done_of_def)
qed

text \<open>
  C22. A run completes even if the previous holder of the lock crashed. Suppose no call fails, no migration fails,
  drivers return what was stored, and nobody else touches the locks any more. Then whatever lock rows are left, the
  run obtains the locks after they expire and returns, having finished all migrations above the last applied
  version, in order. This holds for every combination of the datasources; next to OpenTSDB the tables have to exist.
\<close>

theorem run_completes:
  assumes "\<exists>s. present s" and "\<forall>s. \<exists>t. undisturbed env s t" and "\<forall>w. meanwhile env w = w"
    and "stores_answer env present w" and "\<forall>k. smooth env k" and "distinct (map fst m)" and "list_all snd m"
  shows "\<exists>w'. Run env own present m w = Some (Ok, w') \<and>
    done_of (mlog w') = done_of (mlog w) @
      sort (filter (\<lambda>k. lastAppliedMigration (versions (active_stores present) w) < k) (map fst m))"
  by (rule run_total [OF assms])

text \<open>
  Reading the migration index of Elasticsearch ends and misses nothing. The loop over the pages returns, for an
  index of any size; unless a search fails, it returns exactly the versions of the index, although a page holds
  a thousand hits at most.
\<close>

lemma elastic_reads_all_versions:
  assumes "es_documented env"
  shows "\<exists>r. getElasticsearchMigrationVersions env n w = Some r \<and> (\<forall>vs. r = Some vs \<longrightarrow> set vs = set (rows w SElasticsearch)) \<and>
    ((\<forall>after. esSearch env n (hasTable w SElasticsearch) (rows w SElasticsearch) after \<noteq> None) \<longrightarrow> r \<noteq> None)"
  using elastic_fetch [OF assms, of n w] by (simp add: recorded_rows readable_def)

section \<open>Witnesses\<close>

theorem run_completes_witness:
  "\<exists>w'. Run (demo_env ''mysql'') ''me'' (\<lambda>_. True) demo_migrations demo_world = Some (Ok, w') \<and> done_of (mlog w') = [2, 3]"
proof -
  from run_completes [of "\<lambda>_. True" "demo_env ''mysql''" demo_world demo_migrations "''me''"] demo_env_facts demo_answers demo_keys
  have "\<exists>w'. Run (demo_env ''mysql'') ''me'' (\<lambda>_. True) demo_migrations demo_world = Some (Ok, w') \<and>
      done_of (mlog w') = done_of (mlog demo_world) @ [2, 3]" unfolding demo_pending by blast
  then show ?thesis by (simp add: demo_world_def done_of_def)
qed

theorem run_applies_in_order_witness:
  "\<exists>w' V rest. Run (demo_env ''mysql'') ''me'' (\<lambda>_. True) demo_migrations demo_world = Some (Ok, w') \<and>
     done_of (mlog w') = [2, 3] \<and> set ([2, 3] @ rest) = {k. (k, True) \<in> set demo_migrations \<and> 0 < k \<and> (\<forall>v \<in> V. v < k)}"
proof -
  obtain w' where w': "Run (demo_env ''mysql'') ''me'' (\<lambda>_. True) demo_migrations demo_world = Some (Ok, w')" "done_of (mlog w') = [2, 3]"
    using demo_run by blast
  have ok: "\<not> ((\<exists>k. (k, False) \<in> set demo_migrations) \<or> (\<forall>s :: store. \<not> True))" by (simp add: demo_migrations_def)
  obtain V fin rest where f: "done_of (mlog w') = done_of (mlog demo_world) @ fin"
      "set (fin @ rest) = {k. (k, True) \<in> set demo_migrations \<and> 0 < k \<and> (\<forall>v \<in> V. v < k)}"
    using run_applies_in_order [OF w'(1) demo_env_facts(4) demo_keys(1)] unfolding if_not_P [OF ok] by blast
  have "done_of (mlog demo_world) = []" by (simp add: demo_world_def done_of_def)
  with f(1) w'(2) have "fin = [2, 3]" by simp
  with f(2) w' show ?thesis by blast
qed

lemma recorded_never_reruns_witness:
  "\<exists>w'. deploys (\<lambda>_. True) [(demo_env ''mysql'', ''me'', demo_migrations)] demo_world = Some w' \<and>
     count_list (ran_of (mlog w')) 1 = count_list (ran_of (mlog demo_world)) 1"
proof -
  obtain w' where w': "Run (demo_env ''mysql'') ''me'' (\<lambda>_. True) demo_migrations demo_world = Some (Ok, w')" using demo_run by blast
  then have d: "deploys (\<lambda>_. True) [(demo_env ''mysql'', ''me'', demo_migrations)] demo_world = Some w'" by simp
  have "\<forall>(env, own, m) \<in> set [(demo_env ''mysql'', ''me'', demo_migrations)]. fair_env env \<and> distinct (map fst m)"
    by (simp add: demo_env_facts(4) demo_migrations_def)
  moreover have "1 \<in> versions (active_stores (\<lambda>_. True)) demo_world"
    using all_initializers [of SSQL] by (auto simp: versions_def recorded_def demo_world_def intro!: bexI [of _ SSQL])
  ultimately show ?thesis using recorded_never_reruns [OF d, of 1 1] d by auto
qed

theorem finished_runs_once_witness:
  "\<exists>w1. Run (demo_env ''mysql'') ''me'' (\<lambda>_. True) demo_migrations demo_world = Some (Ok, w1) \<and> 3 \<in> recorded w1 SSQL"
proof -
  obtain w1 where w1: "Run (demo_env ''mysql'') ''me'' (\<lambda>_. True) demo_migrations demo_world = Some (Ok, w1)" "done_of (mlog w1) = [2, 3]"
    using demo_run by blast
  have i: "length (done_of (mlog demo_world)) \<le> 1" "1 < length (done_of (mlog w1))" "done_of (mlog w1) ! 1 = 3"
    "minInt64 \<le> 3" "3 \<le> maxInt64" using w1(2) by (simp_all add: demo_world_def done_of_def int64_num)
  from finished_runs_once [OF w1(1) demo_env_facts(4) i(1-3) _ demo_env_facts(7,6) i(4,5), of "[]" w1] w1(1) show ?thesis by auto
qed

lemma opentsdb_blocks_fresh_sql_witness:
  "\<exists>w'. Run (demo_env ''mysql'') ''me'' (\<lambda>_. True) demo_migrations (demo_world\<lparr>hasTable := (\<lambda>_. False)\<rparr>) = Some (Exit, w') \<and>
     ran_of (mlog w') = [] \<and> \<not> hasTable w' SSQL"
proof -
  have "\<not> hasTable (demo_world\<lparr>hasTable := (\<lambda>_. False)\<rparr>) SSQL" "\<forall>n. queryFails (demo_env ''mysql'') n SSQL False"
    "ran_of (mlog (demo_world\<lparr>hasTable := (\<lambda>_. False)\<rparr>)) = []"
    by (simp_all add: demo_env_def demo_world_def ran_of_def)
  with opentsdb_blocks_fresh_sql [of "\<lambda>_. True", OF _ _ this(1,2) demo_reads_back demo_keys(2), of "''me''"] show ?thesis by auto
qed

text \<open>A migration over Cassandra and SQL whose SQL transaction fails.\<close>

definition demo_tx :: transactionData where
  "demo_tx = \<lparr>hasSQLTx = True, hasRedisTx = False, hasOracleTx = False, MigrationNumber = 2, UsedDatasources = {SCassandra, SSQL}\<rparr>"

definition demo_failing :: mig_env where
  "demo_failing = (demo_env ''mysql'')\<lparr>durableFails := (\<lambda>s k. s = SSQL)\<rparr>"

lemma half_commit_counts_as_applied_witness:
  "\<exists>w1. commitMigration demo_failing [SCassandra, SSQL] demo_tx demo_world = (Err, w1) \<and> rows w1 SSQL = [1] \<and> 2 \<in> recorded w1 SCassandra"
proof -
  obtain res w1 where c: "commitMigration demo_failing [SCassandra, SSQL] demo_tx demo_world = (res, w1)" by (rule prod.exhaust)
  have "SCassandra \<in> UsedDatasources demo_tx" "hasSQLTx demo_tx" "\<not> recordFails demo_failing SCassandra (MigrationNumber demo_tx)"
    "durableFails demo_failing SSQL (MigrationNumber demo_tx)"
    by (simp_all add: demo_tx_def demo_failing_def demo_env_def)
  from half_commit_counts_as_applied [OF c this refl, of "[]" w1]
  have "res = Err" "rows w1 SSQL = rows demo_world SSQL" "MigrationNumber demo_tx \<in> recorded w1 SCassandra" by simp_all
  with c show ?thesis by (simp add: demo_world_def demo_tx_def)
qed

lemma elastic_reads_all_versions_witness:
  "\<exists>vs. getElasticsearchMigrationVersions (demo_env ''mysql'') 0 (insert_row SElasticsearch 7 demo_world) = Some (Some vs) \<and> set vs = {7}"
proof -
  let ?w = "insert_row SElasticsearch 7 demo_world"
  have "es_documented (demo_env ''mysql'')" using demo_reads_back by (simp add: reads_back_def)
  from elastic_reads_all_versions [OF this, of 0 ?w] obtain r
    where r: "getElasticsearchMigrationVersions (demo_env ''mysql'') 0 ?w = Some r" "\<forall>vs. r = Some vs \<longrightarrow> set vs = set (rows ?w SElasticsearch)"
      "(\<forall>after. esSearch (demo_env ''mysql'') 0 (hasTable ?w SElasticsearch) (rows ?w SElasticsearch) after \<noteq> None) \<longrightarrow> r \<noteq> None" by blast
  have "hasTable ?w SElasticsearch" "rows ?w SElasticsearch = [7]" by (simp_all add: mig_simps demo_world_def)
  then have "r \<noteq> None" using r(3) by (simp add: demo_env_def)
  with r \<open>rows ?w SElasticsearch = [7]\<close> show ?thesis by auto
qed

lemma postgres_variants_record_nothing_witness:
  "\<exists>w'. Run (demo_env ''cockroachdb'') ''me'' (\<lambda>_. True) demo_migrations demo_world = Some (Ok, w') \<and>
     done_of (mlog w') = [2, 3] \<and> rows w' SSQL = [1]"
proof -
  obtain w' where w': "Run (demo_env ''cockroachdb'') ''me'' (\<lambda>_. True) demo_migrations demo_world = Some (Ok, w')" "done_of (mlog w') = [2, 3]"
    using demo_run by blast
  from postgres_variants_record_nothing [OF _ _ w'(1)] have "rows w' SSQL = rows demo_world SSQL" by (simp add: demo_env_facts)
  with w' show ?thesis by (simp add: demo_world_def)
qed

end
