(* ===== verification/Db_Resolver.thy ===== *)
theory Db_Resolver
  imports Go_Prelude "HOL-Library.Word"
begin

text \<open>
  The database resolver of \<^verbatim>\<open>pkg/gofr/datasource/dbresolver\<close>, which sends reads to replicas and everything else to
  the primary: the circuit breaker of a replica (\<^verbatim>\<open>circuit_breaker.go\<close>), the choice of a replica
  (\<^verbatim>\<open>strategy.go\<close>), the operations of the resolver (\<^verbatim>\<open>resolver.go\<close>) and its construction from the configuration
  (\<^verbatim>\<open>factory.go\<close>). What the databases answer and the clock are parameters. The locale \<open>balancer\<close> states what
  the resolver needs of a strategy; both strategies interpret it.
\<close>

section \<open>The circuit breaker of a replica\<close>

datatype circuitBreakerState = circuitStateClosed | circuitStateOpen | circuitStateHalfOpen

text \<open>The state is held through a pointer, and a compare-and-swap compares pointers: \<open>stateRef\<close> is the address
  stored, \<open>stateVal\<close> what is found there, \<open>nextRef\<close> the next address to be allocated.\<close>

record replicaBreaker =
  failures :: int
  lastFailure :: "int option"
  stateRef :: nat
  stateVal :: circuitBreakerState
  nextRef :: nat
  maxFailures :: int
  breakerTimeout :: int

definition wrap32 :: "int \<Rightarrow> int" where
  "wrap32 x = (x + 2 ^ 31) mod 2 ^ 32 - 2 ^ 31"

definition newCircuitBreaker :: "int \<Rightarrow> int \<Rightarrow> replicaBreaker" where
  "newCircuitBreaker mx to =
     \<lparr>failures = 0, lastFailure = None, stateRef = 0, stateVal = circuitStateClosed, nextRef = 1, maxFailures = mx, breakerTimeout = to\<rparr>"

text \<open>Storing the address of a new variable.\<close>

definition store_state :: "circuitBreakerState \<Rightarrow> replicaBreaker \<Rightarrow> replicaBreaker" where
  "store_state st cb = cb\<lparr>stateRef := nextRef cb, stateVal := st, nextRef := Suc (nextRef cb)\<rparr>"

definition CompareAndSwap :: "nat \<Rightarrow> nat \<Rightarrow> circuitBreakerState \<Rightarrow> replicaBreaker \<Rightarrow> bool \<times> replicaBreaker" where
  "CompareAndSwap old new st cb = (if stateRef cb = old then (True, cb\<lparr>stateRef := new, stateVal := st\<rparr>) else (False, cb))"

definition allowRequest :: "int \<Rightarrow> replicaBreaker \<Rightarrow> bool \<times> replicaBreaker" where
  "allowRequest now cb =
     (if stateVal cb \<noteq> circuitStateOpen then (True, cb)
      else (case lastFailure cb of
              None \<Rightarrow> (True, cb)
            | Some t \<Rightarrow>
                if now - t \<le> breakerTimeout cb then (False, cb)
                else let openState = nextRef cb; halfOpenState = Suc (nextRef cb) in
                  CompareAndSwap openState halfOpenState circuitStateHalfOpen (cb\<lparr>nextRef := Suc (Suc (nextRef cb))\<rparr>)))"

definition recordSuccess :: "replicaBreaker \<Rightarrow> replicaBreaker" where
  "recordSuccess cb = store_state circuitStateClosed (cb\<lparr>failures := 0, lastFailure := None\<rparr>)"

definition recordFailure :: "int \<Rightarrow> replicaBreaker \<Rightarrow> replicaBreaker" where
  "recordFailure now cb =
     (let n = wrap32 (failures cb + 1); cb1 = cb\<lparr>failures := n, lastFailure := Some now\<rparr> in
      if n \<ge> maxFailures cb then store_state circuitStateOpen cb1 else cb1)"

section \<open>Strategies\<close>

text \<open>The counter of the round robin wraps around.\<close>

definition RoundRobin_Next :: "int \<Rightarrow> 64 word \<Rightarrow> int \<times> 64 word" where
  "RoundRobin_Next count current =
     (if count \<le> 0 then (- 1, current)
      else let nxt = current + 1 in (uint (nxt - 1) mod count, nxt))"

text \<open>The random source is a sequence of numbers, reduced to the range asked for.\<close>

definition Random_Next :: "int \<Rightarrow> nat \<times> (nat \<Rightarrow> nat) \<Rightarrow> int \<times> nat \<times> (nat \<Rightarrow> nat)" where
  "Random_Next count src =
     (case src of (i, draw) \<Rightarrow> if count = 0 then (- 1, i, draw) else (int (draw i) mod count, Suc i, draw))"

section \<open>The resolver\<close>

record statistics =
  primaryReads :: "64 word"
  primaryWrites :: "64 word"
  replicaReads :: "64 word"
  primaryFallbacks :: "64 word"
  replicaFailures :: "64 word"
  totalQueries :: "64 word"

record 's resolver =
  replicas :: "replicaBreaker list"
  strategy :: 's
  readFallback :: bool
  primaryRoutes :: "string set"
  primaryPrefixes :: "string list"
  stats :: statistics

definition defaultMaxFailures :: int where "defaultMaxFailures = 5"
definition defaultTimeout :: int where "defaultTimeout = 30 * 1000000000"

definition TrimSuffixStar :: "string \<Rightarrow> string" where
  "TrimSuffixStar route = (if HasSuffix route ''*'' then butlast route else route)"

text \<open>The options are applied before the prefixes are taken from the routes; the routes are the keys of a map.\<close>

definition NewResolver :: "nat \<Rightarrow> 's \<Rightarrow> bool \<Rightarrow> string list \<Rightarrow> 's resolver" where
  "NewResolver n strat fallback routes =
     \<lparr>replicas = replicate n (newCircuitBreaker defaultMaxFailures defaultTimeout), strategy = strat, readFallback = fallback,
      primaryRoutes = set routes, primaryPrefixes = map TrimSuffixStar (filter (\<lambda>r. HasSuffix r ''*'') routes),
      stats = \<lparr>primaryReads = 0, primaryWrites = 0, replicaReads = 0, primaryFallbacks = 0, replicaFailures = 0, totalQueries = 0\<rparr>\<rparr>"

text \<open>The values of the request in the context, if they are set.\<close>

record db_context =
  ctxMethod :: "string option"
  ctxPath :: "string option"

definition background :: db_context where
  "background = \<lparr>ctxMethod = None, ctxPath = None\<rparr>"

definition isPrimaryRoute :: "'s resolver \<Rightarrow> string \<Rightarrow> bool" where
  "isPrimaryRoute r path = (if path \<in> primaryRoutes r then True else list_ex (\<lambda>prefix. HasPrefix path prefix) (primaryPrefixes r))"

definition shouldUseReplica :: "'s resolver \<Rightarrow> db_context \<Rightarrow> bool" where
  "shouldUseReplica r ctx =
     (if length (replicas r) = 0 then False
      else if (case ctxPath ctx of Some path \<Rightarrow> isPrimaryRoute r path | None \<Rightarrow> False) then False
      else (case ctxMethod ctx of None \<Rightarrow> False | Some m \<Rightarrow> m = ''GET''))"

text \<open>What happens around one call: the clock when replica \<open>i\<close> is asked and when a failure is recorded, and which
  databases fail.\<close>

record db_env =
  askedAt :: "nat \<Rightarrow> int"
  failedAt :: int
  replicaFails :: "nat \<Rightarrow> bool"
  primaryFails :: bool

text \<open>The loop over the replicas asks every breaker and keeps what asking left of it.\<close>

fun ask_replicas :: "(nat \<Rightarrow> int) \<Rightarrow> nat \<Rightarrow> replicaBreaker list \<Rightarrow> nat list \<times> replicaBreaker list" where
  "ask_replicas t i [] = ([], [])"
| "ask_replicas t i (b # bs) =
     (case (allowRequest (t i) b, ask_replicas t (Suc i) bs) of
        ((ok, b'), (healthy, bs')) \<Rightarrow> (if ok then i # healthy else healthy, b' # bs'))"

definition selectHealthyReplica :: "(int \<Rightarrow> 's \<Rightarrow> int \<times> 's) \<Rightarrow> db_env \<Rightarrow> 's resolver \<Rightarrow> nat option \<times> 's resolver" where
  "selectHealthyReplica nxt env r =
     (if length (replicas r) = 0 then (None, r)
      else (case ask_replicas (askedAt env) 0 (replicas r) of
              (healthy, bs) \<Rightarrow>
                let r1 = r\<lparr>replicas := bs\<rparr> in
                if length healthy = 0 then (None, r1)
                else (case nxt (int (length healthy)) (strategy r) of
                        (idx, st) \<Rightarrow>
                          let r2 = r1\<lparr>strategy := st\<rparr> in
                          if idx < 0 \<or> idx \<ge> int (length healthy) then (None, r2) else (Some (healthy ! nat idx), r2))))"

datatype target = Primary | Replica nat

text \<open>The statement was sent to a database, which failed or not; or it was sent nowhere.\<close>

datatype db_result = Sent target bool | errReplicaFailedNoFallback

definition upd_breaker :: "nat \<Rightarrow> (replicaBreaker \<Rightarrow> replicaBreaker) \<Rightarrow> 's resolver \<Rightarrow> 's resolver" where
  "upd_breaker i f r = r\<lparr>replicas := (replicas r)[i := f (replicas r ! i)]\<rparr>"

definition count_stat :: "((64 word \<Rightarrow> 64 word) \<Rightarrow> statistics \<Rightarrow> statistics) \<Rightarrow> 's resolver \<Rightarrow> 's resolver" where
  "count_stat field r = r\<lparr>stats := field (\<lambda>n. n + 1) (stats r)\<rparr>"

definition fallbackToPrimary :: "db_env \<Rightarrow> 's resolver \<Rightarrow> (target list \<times> db_result) \<times> 's resolver" where
  "fallbackToPrimary env r =
     (if \<not> readFallback r then (([], errReplicaFailedNoFallback), r)
      else (([Primary], Sent Primary (primaryFails env)), count_stat primaryReads_update (count_stat primaryFallbacks_update r)))"

text \<open>With the result come the databases the statement was sent to, in order.\<close>

definition executeReplicaQuery ::
    "(int \<Rightarrow> 's \<Rightarrow> int \<times> 's) \<Rightarrow> db_env \<Rightarrow> 's resolver \<Rightarrow> (target list \<times> db_result) \<times> 's resolver" where
  "executeReplicaQuery nxt env r =
     (case selectHealthyReplica nxt env r of
        (None, r1) \<Rightarrow> fallbackToPrimary env r1
      | (Some i, r1) \<Rightarrow>
          if \<not> replicaFails env i
          then (([Replica i], Sent (Replica i) False), upd_breaker i recordSuccess (count_stat replicaReads_update r1))
          else (case fallbackToPrimary env (count_stat replicaFailures_update (upd_breaker i (recordFailure (failedAt env)) r1)) of
                  ((sent, res), r2) \<Rightarrow> ((Replica i # sent, res), r2)))"

definition QueryContext ::
    "(int \<Rightarrow> 's \<Rightarrow> int \<times> 's) \<Rightarrow> db_env \<Rightarrow> db_context \<Rightarrow> 's resolver \<Rightarrow> (target list \<times> db_result) \<times> 's resolver" where
  "QueryContext nxt env ctx r =
     (let r1 = count_stat totalQueries_update r in
      if shouldUseReplica r1 ctx \<and> length (replicas r1) > 0 then executeReplicaQuery nxt env r1
      else (([Primary], Sent Primary (primaryFails env)), count_stat primaryWrites_update r1))"

text \<open>\<^verbatim>\<open>QueryRowContext\<close> and \<^verbatim>\<open>Select\<close> count a success before the statement runs and do not look at its outcome.\<close>

definition QueryRowContext ::
    "(int \<Rightarrow> 's \<Rightarrow> int \<times> 's) \<Rightarrow> db_env \<Rightarrow> db_context \<Rightarrow> 's resolver \<Rightarrow> (target list \<times> db_result) \<times> 's resolver" where
  "QueryRowContext nxt env ctx r =
     (let r1 = count_stat totalQueries_update r;
          primary = (\<lambda>r'. (([Primary], Sent Primary (primaryFails env)), count_stat primaryWrites_update r')) in
      if shouldUseReplica r1 ctx \<and> length (replicas r1) > 0
      then (case selectHealthyReplica nxt env r1 of
              (Some i, r2) \<Rightarrow>
                (([Replica i], Sent (Replica i) (replicaFails env i)), upd_breaker i recordSuccess (count_stat replicaReads_update r2))
            | (None, r2) \<Rightarrow> primary (count_stat replicaFailures_update r2))
      else primary r1)"

definition ExecContext :: "db_env \<Rightarrow> 's resolver \<Rightarrow> (target list \<times> db_result) \<times> 's resolver" where
  "ExecContext env r =
     (([Primary], Sent Primary (primaryFails env)), count_stat totalQueries_update (count_stat primaryWrites_update r))"

definition Prepare :: "db_env \<Rightarrow> 's resolver \<Rightarrow> (target list \<times> db_result) \<times> 's resolver" where
  "Prepare env r = (([Primary], Sent Primary (primaryFails env)), count_stat totalQueries_update r)"

definition Begin :: "db_env \<Rightarrow> 's resolver \<Rightarrow> (target list \<times> db_result) \<times> 's resolver" where
  "Begin env r = (([Primary], Sent Primary (primaryFails env)), count_stat totalQueries_update r)"

datatype db_op = OpQuery db_context | OpQueryRow db_context | OpSelect db_context | OpExec | OpPrepare | OpBegin

definition Select :: "(int \<Rightarrow> 's \<Rightarrow> int \<times> 's) \<Rightarrow> db_env \<Rightarrow> db_context \<Rightarrow> 's resolver \<Rightarrow> (target list \<times> db_result) \<times> 's resolver" where
  "Select nxt env ctx r =
     (let r1 = count_stat totalQueries_update r in
      if shouldUseReplica r1 ctx \<and> length (replicas r1) > 0
      then (case selectHealthyReplica nxt env r1 of
              (Some i, r2) \<Rightarrow>
                (([Replica i], Sent (Replica i) (replicaFails env i)), upd_breaker i recordSuccess (count_stat replicaReads_update r2))
            | (None, r2) \<Rightarrow>
                (([Primary], Sent Primary (primaryFails env)), count_stat primaryWrites_update (count_stat replicaFailures_update r2)))
      else (([Primary], Sent Primary (primaryFails env)), count_stat primaryWrites_update r1))"

fun db_do :: "(int \<Rightarrow> 's \<Rightarrow> int \<times> 's) \<Rightarrow> db_env \<Rightarrow> db_op \<Rightarrow> 's resolver \<Rightarrow> (target list \<times> db_result) \<times> 's resolver" where
  "db_do nxt env (OpQuery ctx) r = QueryContext nxt env ctx r"
| "db_do nxt env (OpQueryRow ctx) r = QueryRowContext nxt env ctx r"
| "db_do nxt env (OpSelect ctx) r = Select nxt env ctx r"
| "db_do nxt env OpExec r = ExecContext env r"
| "db_do nxt env OpPrepare r = Prepare env r"
| "db_do nxt env OpBegin r = Begin env r"

fun db_session :: "(int \<Rightarrow> 's \<Rightarrow> int \<times> 's) \<Rightarrow> (db_env \<times> db_op) list \<Rightarrow> 's resolver \<Rightarrow> (target list \<times> db_result) list \<times> 's resolver" where
  "db_session nxt [] r = ([], r)"
| "db_session nxt ((env, op) # ops) r =
     (case db_do nxt env op r of (x, r1) \<Rightarrow> (case db_session nxt ops r1 of (xs, r2) \<Rightarrow> (x # xs, r2)))"

text \<open>The last error of closing the databases is returned.\<close>

definition Close :: "string option \<Rightarrow> string option list \<Rightarrow> string option" where
  "Close primaryErr replicaErrs = fold (\<lambda>e err. if e \<noteq> None then e else err) replicaErrs primaryErr"

section \<open>Construction from the configuration\<close>

record ReplicaCredential =
  Host :: string
  User :: string
  Password :: string

datatype db_error =
    errInvalidReplicaHostFormat nat string
  | errDBNameRequired
  | errEmptyCredentials nat
  | errInvalidPort nat string
  | errAllReplicasFailed nat
  | errReplicaNotInitialized

definition validateReplicaCredentials :: "ReplicaCredential \<Rightarrow> nat \<Rightarrow> db_error option" where
  "validateReplicaCredentials cred index =
     (if Host cred = '''' \<or> User cred = '''' \<or> Password cred = '''' then Some (errEmptyCredentials index) else None)"

definition parseReplicaHost :: "string \<Rightarrow> nat \<Rightarrow> db_error + string \<times> string" where
  "parseReplicaHost host index =
     (case Split host (CHR '':'') of
        [a, b] \<Rightarrow>
          let hostname = TrimSpace a; port = TrimSpace b in
          if snd (Atoi port) \<noteq> None then Inl (errInvalidPort index port) else Inr (hostname, port)
      | _ \<Rightarrow> Inl (errInvalidReplicaHostFormat index host))"

text \<open>A configuration is what \<^verbatim>\<open>Get\<close> returns for a key, empty if it is not set.\<close>

type_synonym config = "string \<Rightarrow> string"

definition getReplicaConfigInt :: "config \<Rightarrow> string \<Rightarrow> int \<Rightarrow> int" where
  "getReplicaConfigInt cfg key fallback =
     (let valStr = cfg key in
      if valStr = '''' then fallback
      else (case Atoi valStr of (val, None) \<Rightarrow> val | (_, Some _) \<Rightarrow> fallback))"

definition optimizedConnections :: "config \<Rightarrow> string \<Rightarrow> int \<Rightarrow> int \<Rightarrow> int \<Rightarrow> int \<Rightarrow> int" where
  "optimizedConnections cfg key minDefault maxDefault defaultVal multiplier =
     (let val = getReplicaConfigInt cfg key defaultVal in
      if val \<le> 0 then defaultVal
      else let optimized = wrap64 (val * multiplier);
               optimized1 = (if optimized < minDefault then minDefault else optimized)
           in if optimized1 > maxDefault then maxDefault else optimized1)"

definition optimizedIdleConnections :: "config \<Rightarrow> int" where
  "optimizedIdleConnections cfg = optimizedConnections cfg ''DB_REPLICA_MAX_IDLE_CONNECTIONS'' 2 10 2 1"

definition optimizedOpenConnections :: "config \<Rightarrow> int" where
  "optimizedOpenConnections cfg = optimizedConnections cfg ''DB_REPLICA_MAX_OPEN_CONNECTIONS'' 5 20 5 1"

definition replicaOverrides :: "string \<Rightarrow> string \<Rightarrow> string \<Rightarrow> string \<Rightarrow> string \<rightharpoonup> string" where
  "replicaOverrides host port user password =
     Map.empty(''DB_HOST'' \<mapsto> host, ''DB_PORT'' \<mapsto> port, ''DB_USER'' \<mapsto> user, ''DB_PASSWORD'' \<mapsto> password)"

text \<open>The numbers are written in decimal; they are not negative.\<close>

definition replicaConfig_Get :: "config \<Rightarrow> (string \<rightharpoonup> string) \<Rightarrow> config" where
  "replicaConfig_Get base overrides key =
     (case overrides key of
        Some val \<Rightarrow> val
      | None \<Rightarrow>
          if key = ''DB_MAX_IDLE_CONNECTIONS'' then show_nat (nat (optimizedIdleConnections base))
          else if key = ''DB_MAX_OPEN_CONNECTIONS'' then show_nat (nat (optimizedOpenConnections base))
          else base key)"

definition replicaConfig_GetOrDefault :: "config \<Rightarrow> (string \<rightharpoonup> string) \<Rightarrow> string \<Rightarrow> string \<Rightarrow> string" where
  "replicaConfig_GetOrDefault base overrides key defaultValue =
     (let val = replicaConfig_Get base overrides key in if val = '''' then defaultValue else val)"

text \<open>\<open>connect\<close> makes a connection for a configuration, if it can.\<close>

definition createReplicaConnection ::
    "(config \<Rightarrow> 'd option) \<Rightarrow> config \<Rightarrow> string \<Rightarrow> string \<Rightarrow> string \<Rightarrow> string \<Rightarrow> db_error + 'd" where
  "createReplicaConnection connect cfg host port user password =
     (if cfg ''DB_NAME'' = '''' then Inl errDBNameRequired
      else (case connect (replicaConfig_Get cfg (replicaOverrides host port user password)) of
              None \<Rightarrow> Inl errReplicaNotInitialized
            | Some db \<Rightarrow> Inr db))"

fun connect_loop :: "(config \<Rightarrow> 'd option) \<Rightarrow> config \<Rightarrow> nat \<Rightarrow> ReplicaCredential list \<Rightarrow> db_error + 'd list" where
  "connect_loop connect cfg i [] = Inr []"
| "connect_loop connect cfg i (cred # creds) =
     (case validateReplicaCredentials cred i of
        Some e \<Rightarrow> Inl e
      | None \<Rightarrow>
          bind_sum (parseReplicaHost (Host cred) i) (\<lambda>(host, port).
            bind_sum (connect_loop connect cfg (Suc i) creds) (\<lambda>dbs.
              Inr (case createReplicaConnection connect cfg host port (User cred) (Password cred) of Inl _ \<Rightarrow> dbs | Inr db \<Rightarrow> db # dbs))))"

definition connectReplicas :: "(config \<Rightarrow> 'd option) \<Rightarrow> config \<Rightarrow> ReplicaCredential list \<Rightarrow> db_error + 'd list" where
  "connectReplicas connect cfg creds =
     (if length creds = 0 then Inr []
      else bind_sum (connect_loop connect cfg 0 creds) (\<lambda>dbs.
        if length dbs = 0 then Inl (errAllReplicasFailed (length creds)) else Inr dbs))"

section \<open>The contract of a strategy\<close>

locale balancer =
  fixes nxt :: "int \<Rightarrow> 's \<Rightarrow> int \<times> 's"
  assumes next_range: "0 < count \<Longrightarrow> 0 \<le> fst (nxt count s) \<and> fst (nxt count s) < count"
begin

text \<open>If a replica is healthy, one of the healthy ones is selected.\<close>

lemma select_some:
  assumes "ask_replicas (askedAt env) 0 (replicas r) = (healthy, bs)" and "healthy \<noteq> []"
  shows "\<exists>i \<in> set healthy. fst (selectHealthyReplica nxt env r) = Some i"
proof -
  obtain idx st where n: "nxt (int (length healthy)) (strategy r) = (idx, st)" by (rule prod.exhaust)
  have "0 < int (length healthy)" using assms(2) by simp
  from next_range [OF this, of "strategy r"] n have idx: "0 \<le> idx" "idx < int (length healthy)" by simp_all
  have "replicas r \<noteq> []" using assms by auto
  with assms n idx have "fst (selectHealthyReplica nxt env r) = Some (healthy ! nat idx)" by (simp add: selectHealthyReplica_def Let_def)
  moreover have "healthy ! nat idx \<in> set healthy" using idx by (intro nth_mem) simp
  ultimately show ?thesis by blast
qed

end

interpretation round_robin: balancer RoundRobin_Next
  by unfold_locales (simp add: RoundRobin_Next_def Let_def)

interpretation random: balancer Random_Next
  by unfold_locales (simp add: Random_Next_def split: prod.splits)

section \<open>Lemmas: selecting a replica\<close>

lemma ask_Cons:
  "fst (ask_replicas t i (b # bs)) =
     (if fst (allowRequest (t i) b) then i # fst (ask_replicas t (Suc i) bs) else fst (ask_replicas t (Suc i) bs))"
  "snd (ask_replicas t i (b # bs)) = snd (allowRequest (t i) b) # snd (ask_replicas t (Suc i) bs)"
  by (simp_all split: prod.splits)

lemma ask_length [simp]: "length (snd (ask_replicas t i bs)) = length bs"
  by (induction bs arbitrary: i) (simp_all add: ask_Cons del: ask_replicas.simps(2))

lemma ask_nth: "j < length bs \<Longrightarrow> snd (ask_replicas t i bs) ! j = snd (allowRequest (t (i + j)) (bs ! j))"
  by (induction bs arbitrary: i j) (auto simp: ask_Cons nth_Cons' simp del: ask_replicas.simps(2))

lemma ask_healthy:
  "k \<in> set (fst (ask_replicas t i bs)) \<longleftrightarrow> (\<exists>j < length bs. k = i + j \<and> fst (allowRequest (t (i + j)) (bs ! j)))"
  by (induction bs arbitrary: i) (auto simp: ask_Cons Ex_less_Suc2 simp del: ask_replicas.simps(2))

lemma select_replica:
  assumes "selectHealthyReplica nxt env r = (sel, r1)"
  shows "length (replicas r1) = length (replicas r)"
    and "j < length (replicas r) \<Longrightarrow> replicas r1 ! j = snd (allowRequest (askedAt env j) (replicas r ! j))"
    and "sel = Some i \<Longrightarrow> i < length (replicas r) \<and> fst (allowRequest (askedAt env i) (replicas r ! i))"
    and "stats r1 = stats r" and "readFallback r1 = readFallback r" and "primaryRoutes r1 = primaryRoutes r"
    and "primaryPrefixes r1 = primaryPrefixes r"
proof -
  obtain healthy bs where a: "ask_replicas (askedAt env) 0 (replicas r) = (healthy, bs)" by (rule prod.exhaust)
  have bs: "length bs = length (replicas r)" "\<And>j. j < length (replicas r) \<Longrightarrow> bs ! j = snd (allowRequest (askedAt env j) (replicas r ! j))"
    using ask_length [of "askedAt env" 0 "replicas r"] ask_nth [of _ "replicas r" "askedAt env" 0] a by simp_all
  have r1: "replicas r1 = (if replicas r = [] then [] else bs)" "stats r1 = stats r" "readFallback r1 = readFallback r"
    "primaryRoutes r1 = primaryRoutes r" "primaryPrefixes r1 = primaryPrefixes r"
    using assms a by (auto simp: selectHealthyReplica_def Let_def split: if_splits prod.splits)
  then show "length (replicas r1) = length (replicas r)" "stats r1 = stats r" "readFallback r1 = readFallback r"
    "primaryRoutes r1 = primaryRoutes r" "primaryPrefixes r1 = primaryPrefixes r"
    and "j < length (replicas r) \<Longrightarrow> replicas r1 ! j = snd (allowRequest (askedAt env j) (replicas r ! j))"
    using bs by auto
  assume "sel = Some i"
  then have "i \<in> set healthy" using assms a by (auto simp: selectHealthyReplica_def Let_def split: if_splits prod.splits)
  with a ask_healthy [of i "askedAt env" 0 "replicas r"] show "i < length (replicas r) \<and> fst (allowRequest (askedAt env i) (replicas r ! i))" by simp
qed

lemma count_stat_proj [simp]:
  "replicas (count_stat f r) = replicas r" "strategy (count_stat f r) = strategy r" "readFallback (count_stat f r) = readFallback r"
  "primaryRoutes (count_stat f r) = primaryRoutes r" "primaryPrefixes (count_stat f r) = primaryPrefixes r"
  by (simp_all add: count_stat_def)

lemma upd_breaker_proj [simp]:
  "strategy (upd_breaker i g r) = strategy r" "readFallback (upd_breaker i g r) = readFallback r"
  "primaryRoutes (upd_breaker i g r) = primaryRoutes r" "primaryPrefixes (upd_breaker i g r) = primaryPrefixes r"
  "replicas (upd_breaker i g r) = (replicas r)[i := g (replicas r ! i)]"
  by (simp_all add: upd_breaker_def)

lemma isPrimaryRoute_count [simp]: "isPrimaryRoute (count_stat f r) = isPrimaryRoute r"
  by (simp add: isPrimaryRoute_def fun_eq_iff)

lemma shouldUseReplica_count [simp]: "shouldUseReplica (count_stat f r) ctx = shouldUseReplica r ctx"
  by (simp add: shouldUseReplica_def split: option.split)

section \<open>Lemmas: an open breaker stays open\<close>

definition breaker_ok :: "replicaBreaker \<Rightarrow> bool" where
  "breaker_ok b \<longleftrightarrow> stateRef b < nextRef b \<and> (stateVal b = circuitStateOpen \<longrightarrow> lastFailure b \<noteq> None)"

definition dead :: "replicaBreaker \<Rightarrow> bool" where
  "dead b \<longleftrightarrow> breaker_ok b \<and> stateVal b = circuitStateOpen"

lemma breaker_ok_ops:
  assumes "breaker_ok b"
  shows "breaker_ok (snd (allowRequest t b))" and "breaker_ok (recordSuccess b)" and "breaker_ok (recordFailure t b)"
  using assms
  by (auto simp: breaker_ok_def allowRequest_def CompareAndSwap_def recordSuccess_def recordFailure_def store_state_def Let_def
      split: option.splits)

text \<open>The variable whose address is compared is new, so the swap never succeeds.\<close>

lemma dead_allow: "dead b \<Longrightarrow> \<not> fst (allowRequest t b) \<and> dead (snd (allowRequest t b))"
  by (auto simp: dead_def breaker_ok_def allowRequest_def CompareAndSwap_def Let_def split: option.splits)

text \<open>What an operation leaves of the replica \<open>j\<close>.\<close>

definition keeps :: "nat \<Rightarrow> 's resolver \<Rightarrow> target list \<Rightarrow> 's resolver \<Rightarrow> bool" where
  "keeps j r sent r' \<longleftrightarrow> length (replicas r') = length (replicas r) \<and>
     (breaker_ok (replicas r ! j) \<longrightarrow> breaker_ok (replicas r' ! j)) \<and>
     (dead (replicas r ! j) \<longrightarrow> dead (replicas r' ! j) \<and> Replica j \<notin> set sent)"

lemma keeps_refl: "Replica j \<notin> set sent \<Longrightarrow> replicas r' = replicas r \<Longrightarrow> keeps j r sent r'"
  by (simp add: keeps_def)

lemma select_keeps:
  assumes "selectHealthyReplica nxt env r = (sel, r1)" and "j < length (replicas r)"
  shows "keeps j r (case sel of None \<Rightarrow> [] | Some i \<Rightarrow> [Replica i]) r1"
  using select_replica(1) [OF assms(1)] select_replica(2) [OF assms] select_replica(3) [OF assms(1)] breaker_ok_ops(1) dead_allow assms(2)
  by (auto simp: keeps_def split: option.splits)

lemma record_keeps:
  assumes "selectHealthyReplica nxt env r = (Some i, r1)" and "j < length (replicas r)" and "\<And>b. breaker_ok b \<Longrightarrow> breaker_ok (f b)"
    and "replicas r2 = (replicas r1)[i := f (replicas r1 ! i)]" and "set sent \<subseteq> {Replica i, Primary}"
  shows "keeps j r sent r2"
proof -
  have k: "keeps j r [Replica i] r1" using select_keeps [OF assms(1,2)] by simp
  then show ?thesis using assms(2-5) by (cases "j = i") (auto simp: keeps_def)
qed

lemma fallback_keeps:
  assumes "fallbackToPrimary env r = ((sent, res), r')"
  shows "replicas r' = replicas r \<and> set sent \<subseteq> {Primary}"
  using assms by (auto simp: fallbackToPrimary_def split: if_splits)

lemma executeReplicaQuery_keeps:
  assumes "executeReplicaQuery nxt env r = ((sent, res), r')" and "j < length (replicas r)"
  shows "keeps j r sent r'"
proof -
  obtain sel r1 where s: "selectHealthyReplica nxt env r = (sel, r1)" by (rule prod.exhaust)
  show ?thesis
  proof (cases sel)
    case None
    then have "fallbackToPrimary env r1 = ((sent, res), r')" using assms(1) s by (simp add: executeReplicaQuery_def)
    from fallback_keeps [OF this] select_keeps [OF s assms(2)] None show ?thesis by (auto simp: keeps_def)
  next
    case (Some i)
    note s' = s [unfolded Some]
    show ?thesis
    proof (cases "replicaFails env i")
      case False
      then have "replicas r' = (replicas r1)[i := recordSuccess (replicas r1 ! i)]" "sent = [Replica i]"
        using assms(1) s' by (auto simp: executeReplicaQuery_def)
      then show ?thesis by (intro record_keeps [OF s' assms(2) breaker_ok_ops(2)]) auto
    next
      case True
      let ?r2 = "count_stat replicaFailures_update (upd_breaker i (recordFailure (failedAt env)) r1)"
      obtain sent' where f: "fallbackToPrimary env ?r2 = ((sent', res), r')" "sent = Replica i # sent'"
        using assms(1) s' True by (auto simp: executeReplicaQuery_def split: prod.splits)
      from fallback_keeps [OF f(1)] f(2) show ?thesis by (intro record_keeps [OF s' assms(2) breaker_ok_ops(3)]) auto
    qed
  qed
qed

lemma row_keeps:
  assumes "db_do nxt env op r = ((sent, res), r')" and "op = OpQueryRow ctx \<or> op = OpSelect ctx" and "j < length (replicas r)"
  shows "keeps j r sent r'"
proof (cases "shouldUseReplica r ctx \<and> replicas r \<noteq> []")
  case False
  with assms(1,2) show ?thesis by (intro keeps_refl) (auto simp: QueryRowContext_def Select_def Let_def)
next
  case True
  let ?r = "count_stat totalQueries_update r"
  obtain sel r1 where s: "selectHealthyReplica nxt env ?r = (sel, r1)" by (rule prod.exhaust)
  have j: "j < length (replicas ?r)" using assms(3) by simp
  have "keeps j ?r sent r'"
  proof (cases sel)
    case None
    then have "replicas r' = replicas r1" "sent = [Primary]" using assms(1,2) s True by (auto simp: QueryRowContext_def Select_def Let_def)
    with select_keeps [OF s j] None show ?thesis by (simp add: keeps_def)
  next
    case (Some i)
    then have "replicas r' = (replicas r1)[i := recordSuccess (replicas r1 ! i)]" "sent = [Replica i]"
      using assms(1,2) s True by (auto simp: QueryRowContext_def Select_def Let_def)
    then show ?thesis by (intro record_keeps [OF s [unfolded Some] j breaker_ok_ops(2)]) auto
  qed
  then show ?thesis by (simp add: keeps_def)
qed

lemma db_do_keeps:
  assumes "db_do nxt env op r = ((sent, res), r')" and "j < length (replicas r)"
  shows "keeps j r sent r'"
proof (cases op)
  case (OpQuery ctx)
  show ?thesis
  proof (cases "shouldUseReplica r ctx \<and> replicas r \<noteq> []")
    case True
    then have "executeReplicaQuery nxt env (count_stat totalQueries_update r) = ((sent, res), r')"
      using assms(1) OpQuery by (simp add: QueryContext_def Let_def)
    from executeReplicaQuery_keeps [OF this] assms(2) show ?thesis by (simp add: keeps_def)
  next
    case False
    with assms(1) OpQuery show ?thesis by (intro keeps_refl) (auto simp: QueryContext_def Let_def)
  qed
next
  case (OpQueryRow ctx)
  with row_keeps [OF assms(1) _ assms(2)] show ?thesis by blast
next
  case (OpSelect ctx)
  with row_keeps [OF assms(1) _ assms(2)] show ?thesis by blast
qed (use assms in \<open>auto simp: ExecContext_def Prepare_def Begin_def intro: keeps_refl\<close>)

lemma session_keeps:
  assumes "db_session nxt ops r = (xs, r')" and "j < length (replicas r)"
  shows "length (replicas r') = length (replicas r)" and "breaker_ok (replicas r ! j) \<Longrightarrow> breaker_ok (replicas r' ! j)"
    and "dead (replicas r ! j) \<Longrightarrow> dead (replicas r' ! j) \<and> (\<forall>(sent, res) \<in> set xs. Replica j \<notin> set sent)"
proof -
  have "length (replicas r') = length (replicas r) \<and> (breaker_ok (replicas r ! j) \<longrightarrow> breaker_ok (replicas r' ! j)) \<and>
    (dead (replicas r ! j) \<longrightarrow> dead (replicas r' ! j) \<and> (\<forall>(sent, res) \<in> set xs. Replica j \<notin> set sent))"
    using assms
  proof (induction nxt ops r arbitrary: xs rule: db_session.induct)
    case (2 nxt env op ops r)
    obtain sent res r1 ys where d: "db_do nxt env op r = ((sent, res), r1)" "db_session nxt ops r1 = (ys, r')" "xs = (sent, res) # ys"
      using "2.prems"(1) by (auto split: prod.splits)
    have k: "keeps j r sent r1" by (rule db_do_keeps [OF d(1) "2.prems"(2)])
    then have j: "j < length (replicas r1)" using "2.prems"(2) by (simp add: keeps_def)
    from "2.IH" [OF d(1) [symmetric] d(2) j] k d(3) show ?case by (simp add: keeps_def)
  qed simp
  then show "length (replicas r') = length (replicas r)" "breaker_ok (replicas r ! j) \<Longrightarrow> breaker_ok (replicas r' ! j)"
    "dead (replicas r ! j) \<Longrightarrow> dead (replicas r' ! j) \<and> (\<forall>(sent, res) \<in> set xs. Replica j \<notin> set sent)" by blast+
qed

section \<open>Lemmas: where statements go\<close>

fun read_context :: "db_op \<Rightarrow> db_context option" where
  "read_context (OpQuery ctx) = Some ctx"
| "read_context (OpQueryRow ctx) = Some ctx"
| "read_context (OpSelect ctx) = Some ctx"
| "read_context _ = None"

lemma should_get:
  "shouldUseReplica r ctx \<Longrightarrow> ctxMethod ctx = Some ''GET'' \<and> (case ctxPath ctx of None \<Rightarrow> True | Some p \<Rightarrow> \<not> isPrimaryRoute r p)"
  by (auto simp: shouldUseReplica_def split: if_splits option.splits)

lemma no_should:
  "db_do nxt env op r = ((sent, res), r') \<Longrightarrow> (\<forall>ctx. read_context op = Some ctx \<longrightarrow> \<not> shouldUseReplica r ctx) \<Longrightarrow>
   sent = [Primary] \<and> res = Sent Primary (primaryFails env)"
  by (cases op) (auto simp: QueryContext_def QueryRowContext_def Select_def ExecContext_def Prepare_def Begin_def Let_def)

lemma executeReplicaQuery_sent:
  assumes "executeReplicaQuery nxt env r = ((sent, res), r')"
  shows "(Replica i \<in> set sent \<longrightarrow> i < length (replicas r)) \<and>
    (readFallback r \<longrightarrow> sent = [Primary] \<and> res = Sent Primary (primaryFails env) \<or>
      (\<exists>i. sent = [Replica i] \<and> res = Sent (Replica i) False \<or> sent = [Replica i, Primary] \<and> res = Sent Primary (primaryFails env)))"
proof -
  obtain sel r1 where s: "selectHealthyReplica nxt env r = (sel, r1)" by (rule prod.exhaust)
  note select_replica(3,5) [OF s]
  with assms s show ?thesis
    by (cases sel) (auto simp: executeReplicaQuery_def fallbackToPrimary_def split: if_splits prod.splits)
qed

lemma row_sent:
  assumes "db_do nxt env op r = ((sent, res), r')" and "op = OpQueryRow ctx \<or> op = OpSelect ctx"
  shows "sent = [Primary] \<and> res = Sent Primary (primaryFails env) \<or> (\<exists>i < length (replicas r). sent = [Replica i])"
proof -
  let ?r = "count_stat totalQueries_update r"
  obtain sel r1 where s: "selectHealthyReplica nxt env ?r = (sel, r1)" by (rule prod.exhaust)
  note select_replica(3) [OF s]
  with assms s show ?thesis by (cases sel) (auto simp: QueryRowContext_def Select_def Let_def split: if_splits)
qed

lemma query_sent:
  "QueryContext nxt env ctx r = ((sent, res), r') \<Longrightarrow>
   sent = [Primary] \<and> res = Sent Primary (primaryFails env) \<or> executeReplicaQuery nxt env (count_stat totalQueries_update r) = ((sent, res), r')"
  by (auto simp: QueryContext_def Let_def split: if_splits)

lemma query_falls_back:
  assumes "db_do nxt env (OpQuery ctx) r = ((sent, res), r')" and "readFallback r"
  shows "res = Sent Primary (primaryFails env) \<or> (\<exists>i. sent = [Replica i] \<and> res = Sent (Replica i) False)"
  using query_sent [of nxt env ctx r] executeReplicaQuery_sent [of nxt env "count_stat totalQueries_update r" sent res r'] assms by auto

lemma no_replica_primary:
  assumes "db_do nxt env op r = ((sent, res), r')" and "\<forall>i. Replica i \<notin> set sent"
  shows "sent = [Primary] \<and> res = Sent Primary (primaryFails env) \<or> \<not> readFallback r"
proof (cases op)
  case (OpQuery ctx)
  with assms query_sent [of nxt env ctx r] executeReplicaQuery_sent [of nxt env "count_stat totalQueries_update r" sent res r']
  show ?thesis by auto
next
  case (OpQueryRow ctx)
  with row_sent [OF assms(1)] assms(2) show ?thesis by auto
next
  case (OpSelect ctx)
  with row_sent [OF assms(1)] assms(2) show ?thesis by auto
qed (use no_should [OF assms(1)] in auto)

lemma read_targets:
  assumes "db_do nxt env op r = ((sent, res), r')" and "Replica i \<in> set sent"
  shows "i < length (replicas r) \<and> (\<exists>ctx. read_context op = Some ctx \<and> ctxMethod ctx = Some ''GET'' \<and>
    (case ctxPath ctx of None \<Rightarrow> True | Some p \<Rightarrow> \<not> isPrimaryRoute r p))"
proof -
  have "sent \<noteq> [Primary]" using assms(2) by auto
  then obtain ctx where c: "read_context op = Some ctx" "shouldUseReplica r ctx" using no_should [OF assms(1)] by blast
  moreover have "i < length (replicas r)"
  proof (cases op)
    case (OpQuery ctx')
    with assms query_sent [of nxt env ctx' r] executeReplicaQuery_sent [of nxt env "count_stat totalQueries_update r" sent res r' i]
    show ?thesis by auto
  next
    case (OpQueryRow ctx')
    with row_sent [OF assms(1)] assms(2) show ?thesis by auto
  next
    case (OpSelect ctx')
    with row_sent [OF assms(1)] assms(2) show ?thesis by auto
  qed (use c in auto)
  ultimately show ?thesis using should_get by blast
qed

section \<open>Properties\<close>

text \<open>
  A replica that failed too often is lost for good. Whatever operations were performed, one after the other,
  since the resolver was made, once the breaker of a replica is open, no later statement is sent to that replica, however much time
  passes and although it may be healthy again: the breaker never becomes half open.
\<close>

lemma open_replica_never_returns:
  assumes "db_session nxt ops (NewResolver n st fallback routes) = (xs, r)" and "i < n"
    and "stateVal (replicas r ! i) = circuitStateOpen" and "db_session nxt later r = (ys, r')"
  shows "stateVal (replicas r' ! i) = circuitStateOpen \<and> (\<forall>(sent, res) \<in> set ys. Replica i \<notin> set sent)"
proof -
  let ?r = "NewResolver n st fallback routes"
  have i: "i < length (replicas ?r)" and "breaker_ok (replicas ?r ! i)"
    using assms(2) by (simp_all add: NewResolver_def newCircuitBreaker_def breaker_ok_def)
  with session_keeps(1,2) [OF assms(1)] have "i < length (replicas r)" "dead (replicas r ! i)" using assms(3) by (simp_all add: dead_def)
  from session_keeps(3) [OF assms(4) this] show ?thesis by (simp add: dead_def)
qed

text \<open>
  C19. Replicas serve reads only. A statement is sent to a replica only by a query that belongs to a GET request whose
  path is not reserved for the primary; everything else goes to the primary and nowhere else, also the queries of HEAD and
  OPTIONS requests, for which the documentation promises replicas. A query that a
  replica or its breaker fails is sent to the primary when that is allowed, so it fails only if the primary does.
\<close>

theorem replicas_serve_reads_only:
  assumes "db_do nxt env op r = ((sent, res), r')"
  shows "(\<forall>i. Replica i \<in> set sent \<longrightarrow> i < length (replicas r) \<and>
      (\<exists>ctx. read_context op = Some ctx \<and> ctxMethod ctx = Some ''GET'' \<and> (case ctxPath ctx of None \<Rightarrow> True | Some p \<Rightarrow> \<not> isPrimaryRoute r p))) \<and>
    ((\<forall>i. Replica i \<notin> set sent) \<longrightarrow> sent = [Primary] \<and> res = Sent Primary (primaryFails env) \<or> \<not> readFallback r) \<and>
    (\<forall>ctx. op = OpQuery ctx \<and> readFallback r \<longrightarrow> res = Sent Primary (primaryFails env) \<or> (\<exists>i. sent = [Replica i] \<and> res = Sent (Replica i) False))"
  using read_targets [OF assms] no_replica_primary [OF assms] query_falls_back [of nxt env _ r sent res r'] assms by blast

section \<open>Fairness\<close>

definition all_closed :: "'s resolver \<Rightarrow> bool" where
  "all_closed r \<longleftrightarrow> (\<forall>b \<in> set (replicas r). stateVal b \<noteq> circuitStateOpen)"

lemma ask_all_closed: "\<forall>b \<in> set bs. stateVal b \<noteq> circuitStateOpen \<Longrightarrow> ask_replicas t i bs = ([i..<i + length bs], bs)"
proof (induction bs arbitrary: i)
  case (Cons b bs)
  have "[i..<i + length (b # bs)] = i # [Suc i..<Suc i + length bs]" by (subst upt_conv_Cons) simp_all
  with Cons show ?case by (simp add: allowRequest_def)
qed simp

lemma round_robin_query:
  assumes "all_closed r" and "shouldUseReplica r ctx" and "\<And>i. \<not> replicaFails env i"
  shows "\<exists>r'. QueryContext RoundRobin_Next env ctx r =
      (([Replica (nat (uint (strategy r) mod int (length (replicas r))))], Sent (Replica (nat (uint (strategy r) mod int (length (replicas r))))) False), r') \<and>
    all_closed r' \<and> strategy r' = strategy r + 1 \<and> length (replicas r') = length (replicas r) \<and> (\<forall>c. shouldUseReplica r' c = shouldUseReplica r c)"
proof -
  let ?n = "length (replicas r)" and ?r = "count_stat totalQueries_update r"
  let ?i = "uint (strategy r) mod int ?n"
  have n: "0 < ?n" "replicas r \<noteq> []" using assms(2) by (auto simp: shouldUseReplica_def split: if_splits)
  have i: "0 \<le> ?i" "?i < int ?n" using n(1) by simp_all
  have a: "ask_replicas (askedAt env) 0 (replicas r) = ([0..<?n], replicas r)"
    using assms(1) ask_all_closed [of "replicas r" "askedAt env" 0] by (simp add: all_closed_def)
  define m where "m = ?i"
  have "RoundRobin_Next (int ?n) (strategy r) = (m, strategy r + 1)" using n(1) by (simp add: RoundRobin_Next_def m_def)
  moreover have "\<not> m < 0" "\<not> int ?n \<le> m" "[0..<?n] ! nat m = nat m" using i by (auto simp: m_def [symmetric])
  ultimately have "selectHealthyReplica RoundRobin_Next env ?r = (Some (nat ?i), ?r\<lparr>strategy := strategy r + 1\<rparr>)"
    unfolding m_def [symmetric] using a n by (simp add: selectHealthyReplica_def Let_def)
  with assms(2,3) n(2) have q: "QueryContext RoundRobin_Next env ctx r =
      (([Replica (nat ?i)], Sent (Replica (nat ?i)) False), upd_breaker (nat ?i) recordSuccess (count_stat replicaReads_update (?r\<lparr>strategy := strategy r + 1\<rparr>)))"
    by (simp add: QueryContext_def executeReplicaQuery_def Let_def)
  let ?r' = "upd_breaker (nat ?i) recordSuccess (count_stat replicaReads_update (?r\<lparr>strategy := strategy r + 1\<rparr>))"
  have "all_closed ?r'"
    using assms(1) by (auto simp: all_closed_def recordSuccess_def store_state_def dest!: subsetD [OF set_update_subset_insert])
  moreover have "isPrimaryRoute ?r' = isPrimaryRoute r" by (simp add: isPrimaryRoute_def fun_eq_iff)
  then have "shouldUseReplica ?r' c = shouldUseReplica r c" for c by (simp add: shouldUseReplica_def split: option.split)
  ultimately show ?thesis using q by (intro exI [of _ ?r']) simp
qed

lemma round_robin_session:
  assumes "db_session RoundRobin_Next ops r = (xs, r')" and "all_closed r" and "strategy r = of_nat c" and "c + length ops \<le> 2 ^ 64"
    and "\<forall>(env, op) \<in> set ops. (\<forall>i. \<not> replicaFails env i) \<and> (\<exists>ctx. op = OpQuery ctx \<and> shouldUseReplica r ctx)"
  shows "map fst xs = map (\<lambda>j. [Replica (j mod length (replicas r))]) [c..<c + length ops]"
  using assms
proof (induction ops arbitrary: r c xs)
  case (Cons e ops)
  obtain env op where e: "e = (env, op)" by (rule prod.exhaust)
  with Cons.prems(5) obtain ctx where op: "op = OpQuery ctx" "shouldUseReplica r ctx" "\<And>i. \<not> replicaFails env i" by auto
  from round_robin_query [OF Cons.prems(2) op(2,3)] obtain r1 where q:
    "QueryContext RoundRobin_Next env ctx r =
      (([Replica (nat (uint (strategy r) mod int (length (replicas r))))], Sent (Replica (nat (uint (strategy r) mod int (length (replicas r))))) False), r1)"
    "all_closed r1" "strategy r1 = strategy r + 1" "length (replicas r1) = length (replicas r)" "\<And>c. shouldUseReplica r1 c = shouldUseReplica r c"
    by blast
  have "c < 2 ^ 64" using Cons.prems(4) by simp
  then have u: "uint (strategy r) = int c" unfolding Cons.prems(3) by (simp add: unsigned_of_nat take_bit_nat_eq_self)
  obtain ys where ys: "db_session RoundRobin_Next ops r1 = (ys, r')" "map fst xs = [Replica (c mod length (replicas r))] # map fst ys"
    using Cons.prems(1) e op(1) q(1) u by (auto simp: nat_mod_as_int split: prod.splits)
  have s1: "strategy r1 = of_nat (Suc c)" using q(3) Cons.prems(3) by simp
  have "map fst ys = map (\<lambda>j. [Replica (j mod length (replicas r1))]) [Suc c..<Suc c + length ops]"
    using Cons.prems(4,5) q(5) by (intro Cons.IH [OF ys(1) q(2) s1]) auto
  moreover have "[c..<c + length (e # ops)] = c # [Suc c..<Suc c + length ops]" by (subst upt_conv_Cons) simp_all
  ultimately show ?case using ys(2) q(4) by (simp only: list.map)
qed simp

lemma count_residues: "i < n \<Longrightarrow> length (filter (\<lambda>j. j mod n = i) [0..<n * k]) = k"
proof (induction k)
  case (Suc k)
  have "filter (\<lambda>j. j mod n = i) [n * k..<n * k + n] = [n * k + i]"
  proof -
    have "[n * k..<n * k + n] = map (\<lambda>d. d + n * k) [0..<n]" by (simp only: map_add_upt add.commute)
    moreover have "filter (\<lambda>d. d mod n = i) [0..<n] = [i]"
    proof -
      have "filter (\<lambda>d. d mod n = i) [0..<n] = filter (\<lambda>d. d = i) [0..<n]" by (intro filter_cong) auto
      also have "\<dots> = [i]" using Suc.prems
      proof -
        have "[0..<n] = [0..<i] @ i # [Suc i..<n]" using Suc.prems upt_add_eq_append [of 0 i "n - i"] by (simp add: upt_conv_Cons)
        then show ?thesis by simp
      qed
      finally show ?thesis .
    qed
    ultimately show ?thesis by (simp add: filter_map comp_def)
  qed
  moreover have "[0..<n * Suc k] = [0..<n * k] @ [n * k..<n * k + n]" using upt_add_eq_append [of 0 "n * k" n] by (simp add: add.commute)
  ultimately show ?case using Suc by simp
qed simp

text \<open>
  The round robin is fair. While no replica fails, of any number of rounds of queries that may use a replica every
  replica gets one per round, until the counter wraps around.
\<close>

lemma round_robin_is_fair:
  assumes "db_session RoundRobin_Next ops (NewResolver n 0 fallback routes) = (xs, r')" and "length ops = n * k" and "n * k \<le> 2 ^ 64"
    and "\<forall>(env, op) \<in> set ops. (\<forall>i. \<not> replicaFails env i) \<and>
      (\<exists>ctx. op = OpQuery ctx \<and> shouldUseReplica (NewResolver n (0 :: 64 word) fallback routes) ctx)"
    and "i < n"
  shows "length (filter (\<lambda>(sent, res). sent = [Replica i]) xs) = k"
proof -
  let ?r = "NewResolver n (0 :: 64 word) fallback routes"
  have "all_closed ?r" "strategy ?r = of_nat 0" "length (replicas ?r) = n"
    by (auto simp: all_closed_def NewResolver_def newCircuitBreaker_def)
  with round_robin_session [OF assms(1) this(1,2) _ assms(4)] assms(2,3)
  have f: "map fst xs = map (\<lambda>j. [Replica (j mod n)]) [0..<n * k]" by simp
  have "length (filter (\<lambda>(sent, res). sent = [Replica i]) xs) = length (filter (\<lambda>sent. sent = [Replica i]) (map fst xs))"
    by (simp add: filter_map comp_def case_prod_unfold)
  also have "\<dots> = length (filter (\<lambda>j. j mod n = i) [0..<n * k])" unfolding f by (simp add: filter_map comp_def)
  finally show ?thesis using count_residues [OF assms(5)] by simp
qed

section \<open>The configuration of a replica\<close>

lemma optimizedConnections_range:
  "mn \<le> d \<Longrightarrow> d \<le> mx \<Longrightarrow> mn \<le> optimizedConnections cfg key mn mx d k \<and> optimizedConnections cfg key mn mx d k \<le> mx"
  by (simp add: optimizedConnections_def Let_def)

text \<open>A replica never sees the credentials of the primary, and the sizes of its pools are within their bounds.\<close>

lemma replica_config_separate:
  assumes "key \<in> {''DB_HOST'', ''DB_PORT'', ''DB_USER'', ''DB_PASSWORD''}"
  shows "replicaConfig_Get base (replicaOverrides h p u pw) key = replicaConfig_Get base' (replicaOverrides h p u pw) key"
  using assms by (auto simp: replicaConfig_Get_def replicaOverrides_def)

section \<open>Witnesses\<close>

text \<open>Every database fails, or none; the clock stands at the given time.\<close>

definition at_time :: "int \<Rightarrow> bool \<Rightarrow> db_env" where
  "at_time t down = \<lparr>askedAt = (\<lambda>_. t), failedAt = t, replicaFails = (\<lambda>_. down), primaryFails = False\<rparr>"

definition get_request :: db_context where
  "get_request = \<lparr>ctxMethod = Some ''GET'', ctxPath = Some ''/users''\<rparr>"

abbreviation five_failures :: "(db_env \<times> db_op) list" where
  "five_failures \<equiv> replicate 5 (at_time 0 True, OpQuery get_request)"

lemma breaker_opens: "stateVal (replicas (snd (db_session RoundRobin_Next five_failures (NewResolver 1 0 True []))) ! 0) = circuitStateOpen"
  by code_simp

text \<open>An hour later the replica works again, and the query still goes to the primary.\<close>

lemma open_replica_never_returns_witness:
  "\<exists>r sent res r'. db_session RoundRobin_Next five_failures (NewResolver 1 0 True []) = (replicate 5 ([Replica 0, Primary], Sent Primary False), r) \<and>
     db_session RoundRobin_Next [(at_time 3600000000000 False, OpQuery get_request)] r = ([(sent, res)], r') \<and> Replica 0 \<notin> set sent"
proof -
  obtain xs r where s: "db_session RoundRobin_Next five_failures (NewResolver 1 0 True []) = (xs, r)" by (rule prod.exhaust)
  moreover have "fst (db_session RoundRobin_Next five_failures (NewResolver 1 0 True [])) = replicate 5 ([Replica 0, Primary], Sent Primary False)"
    by code_simp
  ultimately have xs: "xs = replicate 5 ([Replica 0, Primary], Sent Primary False)" by simp
  obtain sent res r' where l: "db_session RoundRobin_Next [(at_time 3600000000000 False, OpQuery get_request)] r = ([(sent, res)], r')"
    by (cases "QueryContext RoundRobin_Next (at_time 3600000000000 False) get_request r") auto
  have "stateVal (replicas r ! 0) = circuitStateOpen" using breaker_opens s by simp
  from open_replica_never_returns [OF s _ this l] have "Replica 0 \<notin> set sent" by simp
  with s xs l show ?thesis by blast
qed

theorem replicas_serve_reads_only_witness:
  "fst (db_do RoundRobin_Next (at_time 0 True) (OpQuery get_request) (NewResolver 2 (1 :: 64 word) True [''/admin*''])) =
     ([Replica 1, Primary], Sent Primary False) \<and> \<not> isPrimaryRoute (NewResolver 2 (1 :: 64 word) True [''/admin*'']) ''/users''"
proof -
  let ?r = "NewResolver 2 (1 :: 64 word) True [''/admin*'']"
  have d: "fst (db_do RoundRobin_Next (at_time 0 True) (OpQuery get_request) ?r) = ([Replica 1, Primary], Sent Primary False)" by code_simp
  then obtain r' where "db_do RoundRobin_Next (at_time 0 True) (OpQuery get_request) ?r = (([Replica 1, Primary], Sent Primary False), r')"
    by (metis prod.collapse)
  from replicas_serve_reads_only [OF this] have "\<not> isPrimaryRoute ?r ''/users''" by (simp add: get_request_def)
  with d show ?thesis by simp
qed

lemma round_robin_is_fair_witness:
  "\<exists>xs r'. db_session RoundRobin_Next (replicate 4 (at_time 0 False, OpQuery get_request)) (NewResolver 2 0 True []) = (xs, r') \<and>
     length (filter (\<lambda>(sent, res). sent = [Replica 1]) xs) = 2"
proof -
  let ?ops = "replicate 4 (at_time 0 False, OpQuery get_request)"
  obtain xs r' where s: "db_session RoundRobin_Next ?ops (NewResolver 2 0 True []) = (xs, r')" by (rule prod.exhaust)
  have "shouldUseReplica (NewResolver 2 (0 :: 64 word) True []) get_request" by code_simp
  moreover have "\<not> replicaFails (at_time 0 False) i" for i by (simp add: at_time_def)
  ultimately have "\<forall>(env, op) \<in> set ?ops. (\<forall>i. \<not> replicaFails env i) \<and>
      (\<exists>ctx. op = OpQuery ctx \<and> shouldUseReplica (NewResolver 2 (0 :: 64 word) True []) ctx)" by simp
  from round_robin_is_fair [OF s, of 2, OF _ _ this, of 1] have "length (filter (\<lambda>(sent, res). sent = [Replica 1]) xs) = 2" by simp
  with s show ?thesis by blast
qed

end
