(* ===== verification/Snake_Case.thy ===== *)
theory Snake_Case
  imports Go_Prelude
begin

text \<open>
  The two conversions of Go identifiers to names of tables and columns: the loop of \<^verbatim>\<open>crud_helpers.go\<close>, used by the
  generated REST handlers, and the two regular expressions of \<^verbatim>\<open>datasource/sql/db.go\<close>, by which the database package
  matches the columns of a result with the fields of a structure. They agree on identifiers of ASCII letters.
\<close>

section \<open>Names\<close>

definition isLowerOrDigit :: "char \<Rightarrow> bool" where
  "isLowerOrDigit r = (is_lower r \<or> is_digit r)"

text \<open>The loop over the name; the first argument is the character before.\<close>

fun snake_loop :: "char option \<Rightarrow> string \<Rightarrow> string" where
  "snake_loop prev [] = []"
| "snake_loop prev (c # cs) =
     (if \<not> is_upper c then c # snake_loop (Some c) cs
      else let prevStartsWord = (case prev of None \<Rightarrow> False | Some p \<Rightarrow> isLowerOrDigit p);
               nextStartsWord = (cs \<noteq> [] \<and> is_lower (hd cs))
           in (if prev \<noteq> None \<and> (prevStartsWord \<or> nextStartsWord) then ''_'' else []) @ lower_char c # snake_loop (Some c) cs)"

definition toSnakeCase :: "string \<Rightarrow> string" where
  "toSnakeCase str = snake_loop None str"

text \<open>\<^verbatim>\<open>ToSnakeCase\<close> of the database package: the replacement of all leftmost matches of \<^verbatim>\<open>(.)([A-Z][a-z]+)\<close>, then of
  \<^verbatim>\<open>([a-z0-9])([A-Z])\<close>, with an underscore between the groups. The dot matches any character but a newline.\<close>

function matchFirstCap :: "string \<Rightarrow> string" where
  "matchFirstCap [] = []"
| "matchFirstCap [x] = [x]"
| "matchFirstCap (x # c # cs) =
     (if x \<noteq> CHR 0x0A \<and> is_upper c \<and> cs \<noteq> [] \<and> is_lower (hd cs)
      then x # CHR ''_'' # c # takeWhile is_lower cs @ matchFirstCap (dropWhile is_lower cs)
      else x # matchFirstCap (c # cs))"
  by pat_completeness auto
termination
  by (relation "measure length") (auto simp: less_Suc_eq_le intro: le_SucI length_dropWhile_le)

fun matchAllCap :: "string \<Rightarrow> string" where
  "matchAllCap (x # c # cs) =
     (if isLowerOrDigit x \<and> is_upper c then x # CHR ''_'' # c # matchAllCap cs else x # matchAllCap (c # cs))"
| "matchAllCap s = s"

definition ToSnakeCase :: "string \<Rightarrow> string" where
  "ToSnakeCase str = map lower_char (matchAllCap (matchFirstCap str))"

section \<open>The two converters agree\<close>

text \<open>Where the underscores go, before the letters are lowered.\<close>

fun snake_mark :: "char \<Rightarrow> string \<Rightarrow> string" where
  "snake_mark p [] = []"
| "snake_mark p (c # cs) =
     (if is_upper c \<and> (isLowerOrDigit p \<or> cs \<noteq> [] \<and> is_lower (hd cs)) then ''_'' else []) @ c # snake_mark c cs"

lemma upper_excl: "is_upper c \<Longrightarrow> \<not> isLowerOrDigit c \<and> \<not> is_lower c"
  by (auto simp: is_upper_def is_lower_def is_digit_def isLowerOrDigit_def Let_def)

lemma lower_char_keeps: "\<not> is_upper c \<Longrightarrow> lower_char c = c" "lower_char CHR ''_'' = CHR ''_''"
  by (simp_all add: lower_char_def is_upper_def)

lemma snake_loop_mark: "snake_loop (Some p) s = map lower_char (snake_mark p s)"
  by (induction s arbitrary: p) (auto simp: Let_def lower_char_keeps)

lemma underscore_plain: "\<not> is_upper CHR ''_''" "\<not> isLowerOrDigit CHR ''_''"
  by (simp_all add: is_upper_def isLowerOrDigit_def is_lower_def is_digit_def)

lemma first_cap_head: "\<exists>R. matchFirstCap (x # s) = x # R"
  by (cases s) auto

lemma all_cap_pass: "\<not> isLowerOrDigit x \<Longrightarrow> matchAllCap (x # s) = x # matchAllCap s"
  by (cases s) auto

lemma all_cap_step:
  "matchAllCap (x # c # s) = (if isLowerOrDigit x \<and> is_upper c then x # CHR ''_'' # matchAllCap (c # s) else x # matchAllCap (c # s))"
  by (auto simp: all_cap_pass dest: upper_excl)

text \<open>Through a run of lower-case letters; the next letter decides.\<close>

lemma all_cap_run:
  "list_all is_lower (l # ls) \<Longrightarrow> matchAllCap ((l # ls) @ r # R) = (l # ls) @ (if is_upper r then ''_'' else []) @ matchAllCap (r # R)"
proof (induction ls arbitrary: l)
  case Nil
  then have "isLowerOrDigit l" by (simp add: isLowerOrDigit_def)
  then show ?case using all_cap_step [of l r R] by simp
next
  case (Cons m ls)
  then have "\<not> is_upper m" by (auto dest: upper_excl)
  with Cons show ?case using all_cap_step [of l m "ls @ r # R"] by simp
qed

lemma all_cap_lower: "list_all is_lower ls \<Longrightarrow> matchAllCap ls = ls"
proof (induction ls rule: matchAllCap.induct)
  case (1 x c cs)
  then show ?case by (auto simp: all_cap_pass dest: upper_excl)
qed auto

lemma mark_run: "list_all is_lower (l # ls) \<Longrightarrow> snake_mark c ((l # ls) @ s) = (l # ls) @ snake_mark (last (l # ls)) s"
proof (induction ls arbitrary: c l)
  case Nil
  then show ?case by (auto dest: upper_excl)
next
  case (Cons m ls)
  then show ?case using upper_excl [of l] by auto
qed

lemma converters_mark:
  "CHR 0x0A \<notin> set s \<Longrightarrow> matchAllCap (matchFirstCap (x # s)) = x # snake_mark x s" if "x \<noteq> CHR 0x0A"
  using that
proof (induction "length s" arbitrary: x s rule: less_induct)
  case less
  show ?case
  proof (cases s)
    case Nil
    then show ?thesis by simp
  next
    case (Cons c cs)
    show ?thesis
    proof (cases "is_upper c \<and> cs \<noteq> [] \<and> is_lower (hd cs)")
      case True
      then obtain l ls where low: "takeWhile is_lower cs = l # ls" by (cases cs) auto
      have all: "list_all is_lower (l # ls)" using low set_takeWhileD [of _ is_lower cs] by (auto simp: list_all_iff)
      let ?rest = "dropWhile is_lower cs"
      have cs: "cs = (l # ls) @ ?rest" using low takeWhile_dropWhile_id [of is_lower cs] by simp
      have "matchAllCap (matchFirstCap (x # s)) = x # CHR ''_'' # c # matchAllCap ((l # ls) @ matchFirstCap ?rest)"
        using True less.prems(2) low Cons underscore_plain upper_excl [of c]
        by (simp add: all_cap_step all_cap_pass del: append_Cons)
      also have "matchAllCap ((l # ls) @ matchFirstCap ?rest) = snake_mark c cs"
      proof (cases ?rest)
        case Nil
        then have "cs = l # ls" using cs by (simp only: append_Nil2)
        moreover have "snake_mark c (l # ls) = l # ls" using mark_run [OF all, of c "[]"] by (simp only: append_Nil2 snake_mark.simps)
        ultimately show ?thesis using all_cap_lower [OF all] Nil by (simp only: matchFirstCap.simps append_Nil2)
      next
        case r: (Cons r rs)
        obtain R where R: "matchFirstCap (r # rs) = r # R" using first_cap_head by blast
        have sub: "set ?rest \<subseteq> set cs" using set_dropWhileD by fast
        have "length rs < length s" using length_dropWhile_le [of is_lower cs] r Cons by simp
        moreover have "CHR 0x0A \<notin> set rs" "r \<noteq> CHR 0x0A" using sub less.prems(1) Cons r by auto
        ultimately have IH: "matchAllCap (r # R) = r # snake_mark r rs" using less.hyps [of rs r] R by simp
        have "isLowerOrDigit (last (l # ls))" using all by (auto simp: isLowerOrDigit_def list_all_iff)
        then have "snake_mark (last (l # ls)) (r # rs) = (if is_upper r then ''_'' else []) @ r # snake_mark r rs" by simp
        then show ?thesis using mark_run [OF all, of c "r # rs"] all_cap_run [OF all, of r R] cs r R IH by simp
      qed
      finally show ?thesis using True Cons by simp
    next
      case False
      obtain R where R: "matchFirstCap (c # cs) = c # R" using first_cap_head by blast
      have IH: "matchAllCap (c # R) = c # snake_mark c cs" using less.hyps [of cs c] less.prems R Cons by auto
      have "matchFirstCap (x # c # cs) = x # c # R" using False R by auto
      then show ?thesis using IH False Cons all_cap_step [of x c R] by auto
    qed
  qed
qed

text \<open>Go identifiers over ASCII.\<close>

definition is_ident :: "char \<Rightarrow> bool" where
  "is_ident c = (is_upper c \<or> is_lower c \<or> is_digit c \<or> c = CHR ''_'')"

lemma ident_no_newline: "list_all is_ident s \<Longrightarrow> CHR 0x0A \<notin> set s"
proof
  assume "list_all is_ident s" "CHR 0x0A \<in> set s"
  then have "is_ident CHR 0x0A" by (auto simp: list_all_iff)
  then show False by (simp add: is_ident_def is_upper_def is_lower_def is_digit_def)
qed

text \<open>
  C38. The column names of the generated handlers are those of the database package. For every ASCII identifier
  the loop over the letters gives what the two regular expressions give.
\<close>

theorem snake_case_converters_agree:
  assumes "list_all is_ident str"
  shows "toSnakeCase str = ToSnakeCase str"
proof (cases str)
  case Nil
  then show ?thesis by (simp add: toSnakeCase_def ToSnakeCase_def)
next
  case (Cons x s)
  have "x \<noteq> CHR 0x0A" "CHR 0x0A \<notin> set s" using ident_no_newline [OF assms] Cons by auto
  then have "matchAllCap (matchFirstCap (x # s)) = x # snake_mark x s" using converters_mark by blast
  then show ?thesis using Cons by (simp add: toSnakeCase_def ToSnakeCase_def snake_loop_mark lower_char_keeps Let_def)
qed

theorem snake_case_converters_agree_witness:
  "toSnakeCase ''IDCard'' = ToSnakeCase ''IDCard'' \<and> toSnakeCase ''IDCard'' = ''id_card''"
proof -
  have "list_all is_ident ''IDCard''" by code_simp
  moreover have "toSnakeCase ''IDCard'' = ''id_card''" by code_simp
  ultimately show ?thesis using snake_case_converters_agree by blast
qed

end
