(* ===== verification/Crud.thy ===== *)
theory Crud
  imports Snake_Case "HOL-Library.Word" "HOL-Library.AList"
begin

text \<open>
  The generated REST handlers, \<^verbatim>\<open>crud_handlers.go\<close> and \<^verbatim>\<open>crud_helpers.go\<close>, with the statements they send,
  \<^verbatim>\<open>datasource/sql/query_builder.go\<close> and \<^verbatim>\<open>bind.go\<close>. Reflection is represented by data: a structure type is the list of its
  fields with their names, \<^verbatim>\<open>sql\<close> tags and whether they are exported, an entity is the list of its field values, a
  value carries its kind. The database and the decoding of a request body are parameters; the texts returned by the
  handlers are represented by their arguments.
\<close>

section \<open>Bind variables and quoting\<close>

datatype BindVarType = UNKNOWN | QUESTION | DOLLAR

definition bindType :: "string \<Rightarrow> BindVarType" where
  "bindType dialect =
     (if dialect = ''mysql'' then QUESTION else if dialect = ''postgres'' then DOLLAR else UNKNOWN)"

definition bindVar :: "string \<Rightarrow> nat \<Rightarrow> string" where
  "bindVar dialect position = (if bindType dialect = DOLLAR then ''$'' @ show_nat position else ''?'')"

definition quote :: "string \<Rightarrow> string" where
  "quote dialect = (if dialect = ''postgres'' then [CHR 0x22] else [CHR 0x60])"

definition quotedString :: "string \<Rightarrow> string \<Rightarrow> string" where
  "quotedString q s = q @ s @ q"

section \<open>Values and constraints\<close>

text \<open>The kinds of a value. The widths of a numeric kind are treated alike by the code; a floating-point value is its
  64-bit pattern, \<open>KOther\<close> is a boolean, a structure, an array, a complex number or a \<^verbatim>\<open>uintptr\<close>, and \<open>VNil\<close> is the nil
  interface, whose reflected value is invalid.\<close>

datatype ref_kind = KChan | KFunc | KInterface | KMap | KPointer | KSlice | KUnsafePointer

datatype kind = KString | KInt | KUint | KFloat | KOther | KRef ref_kind | KInvalid

datatype goval = VString string | VInt int | VUint nat | VFloat "64 word" | VOther string | VRef ref_kind "goval option" | VNil

fun val_kind :: "goval \<Rightarrow> kind" where
  "val_kind (VString s) = KString"
| "val_kind (VInt n) = KInt"
| "val_kind (VUint n) = KUint"
| "val_kind (VFloat w) = KFloat"
| "val_kind (VOther s) = KOther"
| "val_kind (VRef k r) = KRef k"
| "val_kind VNil = KInvalid"

record FieldConstraints =
  AutoIncrement :: bool
  NotNull :: bool

datatype crud_error = ErrObjectIsNil | ErrNonPointerObject string | ErrInvalidObject | ErrInvalidSQLTag string
  | ErrFieldCannotBeNull string | ErrFieldCannotBeEmpty string | ErrFieldCannotBeZero string
  | ErrEntityNotFound | ErrBind string | ErrDatabase string

datatype 'a outcome = Ret 'a | Fail crud_error | Panic

fun bind_out :: "'a outcome \<Rightarrow> ('a \<Rightarrow> 'b outcome) \<Rightarrow> 'b outcome" where
  "bind_out (Ret x) f = f x"
| "bind_out (Fail err) f = Fail err"
| "bind_out Panic f = Panic"

definition validateStringNotNull :: "string \<Rightarrow> goval \<Rightarrow> crud_error option" where
  "validateStringNotNull fieldName value = (if value = VString '''' then Some (ErrFieldCannotBeEmpty fieldName) else None)"

definition validateIntNotNull :: "string \<Rightarrow> goval \<Rightarrow> crud_error option" where
  "validateIntNotNull fieldName value = (if value = VInt 0 then Some (ErrFieldCannotBeZero fieldName) else None)"

definition validateUintNotNull :: "string \<Rightarrow> goval \<Rightarrow> crud_error option" where
  "validateUintNotNull fieldName value = (if value = VUint 0 then Some (ErrFieldCannotBeZero fieldName) else None)"

text \<open>Both zeros are equal to \<^verbatim>\<open>0.0\<close>.\<close>

definition float_zero :: "64 word \<Rightarrow> bool" where
  "float_zero w = (take_bit 63 w = 0)"

definition validateFloatNotNull :: "string \<Rightarrow> goval \<Rightarrow> crud_error option" where
  "validateFloatNotNull fieldName value =
     (case value of VFloat w \<Rightarrow> if float_zero w then Some (ErrFieldCannotBeZero fieldName) else None | _ \<Rightarrow> None)"

definition isNillableKind :: "kind \<Rightarrow> bool" where
  "isNillableKind k = (k \<in> set (map KRef [KChan, KFunc, KInterface, KMap, KPointer, KSlice, KUnsafePointer]))"

definition val_isNil :: "goval \<Rightarrow> bool" where
  "val_isNil value = (case value of VRef k None \<Rightarrow> True | _ \<Rightarrow> False)"

definition validateDefaultNotNull :: "string \<Rightarrow> goval \<Rightarrow> crud_error option" where
  "validateDefaultNotNull fieldName value =
     (if val_kind value = KInvalid then Some (ErrFieldCannotBeNull fieldName)
      else if isNillableKind (val_kind value) \<and> val_isNil value then Some (ErrFieldCannotBeNull fieldName)
      else None)"

definition validateNotNull :: "string \<Rightarrow> goval \<Rightarrow> bool \<Rightarrow> crud_error option" where
  "validateNotNull fieldName value isNotNull =
     (if \<not> isNotNull then None
      else case val_kind value of
             KString \<Rightarrow> validateStringNotNull fieldName value
           | KInt \<Rightarrow> validateIntNotNull fieldName value
           | KUint \<Rightarrow> validateUintNotNull fieldName value
           | KFloat \<Rightarrow> validateFloatNotNull fieldName value
           | _ \<Rightarrow> validateDefaultNotNull fieldName value)"

section \<open>Statements\<close>

text \<open>The map of constraints; a missing key reads as no constraints.\<close>

type_synonym constraint_map = "(string \<times> FieldConstraints) list"

definition no_constraints :: FieldConstraints where
  "no_constraints = \<lparr>AutoIncrement = False, NotNull = False\<rparr>"

definition constraint :: "constraint_map \<Rightarrow> string \<Rightarrow> FieldConstraints" where
  "constraint cs fieldName = (case map_of cs fieldName of None \<Rightarrow> no_constraints | Some c \<Rightarrow> c)"

text \<open>The loop of \<^verbatim>\<open>InsertQuery\<close>, which returns the columns and the bind variables; \<^verbatim>\<open>values[i]\<close> panics out of range.\<close>

fun insert_loop :: "string \<Rightarrow> constraint_map \<Rightarrow> goval list \<Rightarrow> nat \<Rightarrow> string list \<Rightarrow> string list \<Rightarrow> string list
  \<Rightarrow> (string list \<times> string list) outcome" where
  "insert_loop dialect cs vals i [] columns bindVars = Ret (columns, bindVars)"
| "insert_loop dialect cs vals i (fieldName # rest) columns bindVars =
     (if AutoIncrement (constraint cs fieldName) then insert_loop dialect cs vals (Suc i) rest columns bindVars
      else if i \<ge> length vals then Panic
      else case validateNotNull fieldName (vals ! i) (NotNull (constraint cs fieldName)) of
             Some err \<Rightarrow> Fail err
           | None \<Rightarrow> insert_loop dialect cs vals (Suc i) rest
                       (columns @ [quotedString (quote dialect) fieldName]) (bindVars @ [bindVar dialect (i + 1)]))"

definition InsertQuery :: "string \<Rightarrow> string \<Rightarrow> string list \<Rightarrow> goval list \<Rightarrow> constraint_map \<Rightarrow> string outcome" where
  "InsertQuery dialect tableName fieldNames vals cs =
     bind_out (insert_loop dialect cs vals 0 fieldNames [] [])
       (\<lambda>(columns, bindVars).
          Ret (''INSERT INTO '' @ quotedString (quote dialect) tableName @ '' ('' @ Join columns '', '' @ '') VALUES (''
               @ Join bindVars '', '' @ '')''))"

definition SelectQuery :: "string \<Rightarrow> string \<Rightarrow> string" where
  "SelectQuery dialect tableName = ''SELECT * FROM '' @ quotedString (quote dialect) tableName"

definition SelectByQuery :: "string \<Rightarrow> string \<Rightarrow> string \<Rightarrow> string" where
  "SelectByQuery dialect tableName fieldName =
     ''SELECT * FROM '' @ quotedString (quote dialect) tableName @ '' WHERE '' @ quotedString (quote dialect) fieldName
     @ ''='' @ bindVar dialect 1"

fun update_params :: "string \<Rightarrow> nat \<Rightarrow> string list \<Rightarrow> string list" where
  "update_params dialect i [] = []"
| "update_params dialect i (fieldName # rest) =
     (quotedString (quote dialect) fieldName @ ''='' @ bindVar dialect (i + 1)) # update_params dialect (Suc i) rest"

definition UpdateByQuery :: "string \<Rightarrow> string \<Rightarrow> string list \<Rightarrow> string \<Rightarrow> string" where
  "UpdateByQuery dialect tableName fieldNames fieldName =
     ''UPDATE '' @ quotedString (quote dialect) tableName @ '' SET '' @ Join (update_params dialect 0 fieldNames) '', ''
     @ '' WHERE '' @ quotedString (quote dialect) fieldName @ ''='' @ bindVar dialect (length fieldNames + 1)"

definition DeleteByQuery :: "string \<Rightarrow> string \<Rightarrow> string \<Rightarrow> string" where
  "DeleteByQuery dialect tableName fieldName =
     ''DELETE FROM '' @ quotedString (quote dialect) tableName @ '' WHERE '' @ quotedString (quote dialect) fieldName
     @ ''='' @ bindVar dialect 1"

section \<open>Entities\<close>

record struct_field =
  fd_name :: string
  fd_sql :: string
  fd_exported :: bool

datatype crud_op = OpCreate | OpGetAll | OpGet | OpUpdate | OpDelete

text \<open>The type of the object: its name, its fields, what \<^verbatim>\<open>TableName\<close> and \<^verbatim>\<open>RestPath\<close> return when it has these methods, and
  the handlers it has itself.\<close>

record struct_type =
  st_name :: string
  st_fields :: "struct_field list"
  st_table :: "string option"
  st_path :: "string option"
  st_ops :: "crud_op list"

datatype object = NilObject | PlainValue string | PointerToOther | PointerToStruct struct_type

record entity =
  ent_name :: string
  ent_fields :: "struct_field list"
  primaryKey :: string
  tableName :: string
  restPath :: string
  constraints :: constraint_map

definition getTableName :: "struct_type \<Rightarrow> string" where
  "getTableName st = (case st_table st of Some t \<Rightarrow> t | None \<Rightarrow> toSnakeCase (st_name st))"

definition getRestPath :: "struct_type \<Rightarrow> string" where
  "getRestPath st = (case st_path st of Some p \<Rightarrow> p | None \<Rightarrow> map lower_char (st_name st))"

definition hasAutoIncrementID :: "constraint_map \<Rightarrow> bool" where
  "hasAutoIncrementID cs = (\<exists>c \<in> set (map snd cs). AutoIncrement c)"

fun parse_tags :: "string list \<Rightarrow> FieldConstraints \<Rightarrow> FieldConstraints outcome" where
  "parse_tags [] c = Ret c"
| "parse_tags (t # tags) c =
     (let tag = map lower_char t in
      if tag = ''auto_increment'' then parse_tags tags (c\<lparr>AutoIncrement := True\<rparr>)
      else if tag = ''not_null'' then parse_tags tags (c\<lparr>NotNull := True\<rparr>)
      else Fail (ErrInvalidSQLTag tag))"

definition parseSQLTag :: "string \<Rightarrow> FieldConstraints outcome" where
  "parseSQLTag sqlTag = (if sqlTag = '''' then Ret no_constraints else parse_tags (Split sqlTag CHR '','') no_constraints)"

fun scan_constraints :: "struct_field list \<Rightarrow> constraint_map \<Rightarrow> constraint_map outcome" where
  "scan_constraints [] cs = Ret cs"
| "scan_constraints (f # fs) cs =
     bind_out (parseSQLTag (fd_sql f)) (\<lambda>c. scan_constraints fs (AList.update (toSnakeCase (fd_name f)) c cs))"

definition scanEntity :: "object \<Rightarrow> entity outcome" where
  "scanEntity obj =
     (case obj of
        NilObject \<Rightarrow> Fail ErrObjectIsNil
      | PlainValue n \<Rightarrow> Fail (ErrNonPointerObject n)
      | PointerToOther \<Rightarrow> Fail ErrInvalidObject
      | PointerToStruct st \<Rightarrow>
          (case st_fields st of
             [] \<Rightarrow> Panic
           | f # fs \<Rightarrow>
               bind_out (scan_constraints (st_fields st) [])
                 (\<lambda>cs. Ret \<lparr>ent_name = st_name st, ent_fields = st_fields st, primaryKey = toSnakeCase (fd_name f),
                            tableName = getTableName st, restPath = getRestPath st, constraints = cs\<rparr>)))"

text \<open>Who serves a route: the object's own method or the generated one.\<close>

datatype crud_handler = OwnHandler crud_op | Generated crud_op

definition pick_handler :: "struct_type \<Rightarrow> crud_op \<Rightarrow> crud_handler" where
  "pick_handler st opn = (if opn \<in> set (st_ops st) then OwnHandler opn else Generated opn)"

definition registerCRUDHandlers :: "entity \<Rightarrow> struct_type \<Rightarrow> (string \<times> string \<times> crud_handler) list" where
  "registerCRUDHandlers e st =
     (let basePath = ''/'' @ restPath e;
          idPath = ''/'' @ restPath e @ ''/{'' @ primaryKey e @ ''}''
      in [(''POST'', basePath, pick_handler st OpCreate), (''GET'', basePath, pick_handler st OpGetAll),
          (''GET'', idPath, pick_handler st OpGet), (''PUT'', idPath, pick_handler st OpUpdate),
          (''DELETE'', idPath, pick_handler st OpDelete)])"

definition AddRESTHandlers :: "object \<Rightarrow> (string \<times> string \<times> crud_handler) list outcome" where
  "AddRESTHandlers obj =
     bind_out (scanEntity obj)
       (\<lambda>e. case obj of PointerToStruct st \<Rightarrow> Ret (registerCRUDHandlers e st) | _ \<Rightarrow> Ret [])"

section \<open>Handlers\<close>

text \<open>What the handlers use of \<^verbatim>\<open>database/sql\<close>: the outcome of an \<^verbatim>\<open>Exec\<close>, and the rows of a query with the error found before the
  first row and the result of scanning each row into the fields of the entity.\<close>

record db_result =
  LastInsertId :: "string + int"
  RowsAffected :: "string + int"

record db_rows =
  rows_err :: "string option"
  rows_scans :: "(string + goval list) list"

record 'd sql_db =
  db_dialect :: string
  db_exec :: "string \<Rightarrow> goval list \<Rightarrow> 'd \<Rightarrow> (string + db_result) \<times> 'd"
  db_query :: "string \<Rightarrow> 'd \<Rightarrow> string + db_rows"
  db_queryRow :: "string \<Rightarrow> goval list \<Rightarrow> 'd \<Rightarrow> string + goval list"

text \<open>What they use of the context: the path parameters and the decoding of the body into a new entity.\<close>

record crud_context =
  ctx_params :: "string \<rightharpoonup> string"
  ctx_bind :: "string + goval list"

definition crud_param :: "crud_context \<Rightarrow> string \<Rightarrow> string" where
  "crud_param c key = (case ctx_params c key of None \<Rightarrow> '''' | Some v \<Rightarrow> v)"

text \<open>A response: \<open>RNil\<close> is the value nil, the others are the formatted texts and the entities.\<close>

datatype crud_reply = Created string goval | RNil | Entities "goval list list" | Entity "goval list" | Updated string string
  | Deleted string string

fun validate_bound :: "constraint_map \<Rightarrow> (struct_field \<times> goval) list \<Rightarrow> unit outcome" where
  "validate_bound cs [] = Ret ()"
| "validate_bound cs ((f, v) # rest) =
     (if NotNull (constraint cs (toSnakeCase (fd_name f))) then
        if \<not> fd_exported f then Panic
        else if v = VNil then Fail (ErrFieldCannotBeNull (toSnakeCase (fd_name f)))
        else validate_bound cs rest
      else validate_bound cs rest)"

definition bindAndValidateEntity :: "entity \<Rightarrow> crud_context \<Rightarrow> goval list outcome" where
  "bindAndValidateEntity e c =
     (case ctx_bind c of
        Inl err \<Rightarrow> Fail (ErrBind err)
      | Inr vals \<Rightarrow> bind_out (validate_bound (constraints e) (zip (ent_fields e) vals)) (\<lambda>_. Ret vals))"

fun extract_loop :: "constraint_map \<Rightarrow> (struct_field \<times> goval) list \<Rightarrow> (string list \<times> goval list) outcome" where
  "extract_loop cs [] = Ret ([], [])"
| "extract_loop cs ((f, v) # rest) =
     (if AutoIncrement (constraint cs (toSnakeCase (fd_name f))) then extract_loop cs rest
      else if \<not> fd_exported f then Panic
      else bind_out (extract_loop cs rest) (\<lambda>(names, vals). Ret (toSnakeCase (fd_name f) # names, v # vals)))"

definition extractFields :: "entity \<Rightarrow> goval list \<Rightarrow> (string list \<times> goval list) outcome" where
  "extractFields e vals = extract_loop (constraints e) (zip (ent_fields e) vals)"

definition created :: "entity \<Rightarrow> goval list \<Rightarrow> db_result \<Rightarrow> crud_reply outcome" where
  "created e fieldValues result =
     (if hasAutoIncrementID (constraints e) then
        (case LastInsertId result of Inl err \<Rightarrow> Fail (ErrDatabase err) | Inr n \<Rightarrow> Ret (Created (ent_name e) (VInt n)))
      else case fieldValues of [] \<Rightarrow> Panic | v # vs \<Rightarrow> Ret (Created (ent_name e) v))"

definition crud_Create :: "'d sql_db \<Rightarrow> entity \<Rightarrow> crud_context \<Rightarrow> 'd \<Rightarrow> crud_reply outcome \<times> 'd" where
  "crud_Create db e c d =
     (case bind_out (bindAndValidateEntity e c) (\<lambda>newEntity.
             bind_out (extractFields e newEntity) (\<lambda>(fieldNames, fieldValues).
               bind_out (InsertQuery (db_dialect db) (tableName e) fieldNames fieldValues (constraints e)) (\<lambda>stmt.
                 Ret (stmt, fieldValues)))) of
        Fail err \<Rightarrow> (Fail err, d)
      | Panic \<Rightarrow> (Panic, d)
      | Ret (stmt, fieldValues) \<Rightarrow>
          (case db_exec db stmt fieldValues d of
             (Inl err, d') \<Rightarrow> (Fail (ErrDatabase err), d')
           | (Inr result, d') \<Rightarrow> (created e fieldValues result, d')))"

text \<open>The loop over the rows: a scan error ends it, and setting a field to a nil interface panics.\<close>

fun rows_loop :: "(string + goval list) list \<Rightarrow> goval list list outcome" where
  "rows_loop [] = Ret []"
| "rows_loop (Inl err # rest) = Fail (ErrDatabase err)"
| "rows_loop (Inr vals # rest) =
     (if VNil \<in> set vals then Panic else bind_out (rows_loop rest) (\<lambda>es. Ret (vals # es)))"

definition crud_GetAll :: "'d sql_db \<Rightarrow> entity \<Rightarrow> 'd \<Rightarrow> crud_reply outcome" where
  "crud_GetAll db e d =
     (case db_query db (SelectQuery (db_dialect db) (tableName e)) d of
        Inl err \<Rightarrow> Fail (ErrDatabase err)
      | Inr rows \<Rightarrow>
          if rows_err rows \<noteq> None then Ret RNil
          else if \<exists>f \<in> set (ent_fields e). \<not> fd_exported f then Panic
          else bind_out (rows_loop (rows_scans rows)) (\<lambda>es. Ret (Entities es)))"

definition crud_Get :: "'d sql_db \<Rightarrow> entity \<Rightarrow> crud_context \<Rightarrow> 'd \<Rightarrow> crud_reply outcome" where
  "crud_Get db e c d =
     (let row = db_queryRow db (SelectByQuery (db_dialect db) (tableName e) (primaryKey e)) [VString (crud_param c ''id'')] d in
      if \<exists>f \<in> set (ent_fields e). \<not> fd_exported f then Panic
      else case row of Inl err \<Rightarrow> Fail (ErrDatabase err) | Inr vals \<Rightarrow> Ret (Entity vals))"

definition crud_Update :: "'d sql_db \<Rightarrow> entity \<Rightarrow> crud_context \<Rightarrow> 'd \<Rightarrow> crud_reply outcome \<times> 'd" where
  "crud_Update db e c d =
     (let i = crud_param c (primaryKey e) in
      case ctx_bind c of
        Inl err \<Rightarrow> (Fail (ErrBind err), d)
      | Inr vals \<Rightarrow>
          if \<exists>f \<in> set (ent_fields e). \<not> fd_exported f then (Panic, d)
          else let fieldNames = map (toSnakeCase \<circ> fd_name) (ent_fields e);
                   stmt = UpdateByQuery (db_dialect db) (tableName e) (tl fieldNames) (primaryKey e)
               in case db_exec db stmt (tl vals @ [VString i]) d of
                    (Inl err, d') \<Rightarrow> (Fail (ErrDatabase err), d')
                  | (Inr result, d') \<Rightarrow> (Ret (Updated (ent_name e) i), d'))"

definition crud_Delete :: "'d sql_db \<Rightarrow> entity \<Rightarrow> crud_context \<Rightarrow> 'd \<Rightarrow> crud_reply outcome \<times> 'd" where
  "crud_Delete db e c d =
     (let i = crud_param c ''id'' in
      case db_exec db (DeleteByQuery (db_dialect db) (tableName e) (primaryKey e)) [VString i] d of
        (Inl err, d') \<Rightarrow> (Fail (ErrDatabase err), d')
      | (Inr result, d') \<Rightarrow>
          (case RowsAffected result of
             Inl err \<Rightarrow> (Fail (ErrDatabase err), d')
           | Inr n \<Rightarrow> if n = 0 then (Fail ErrEntityNotFound, d') else (Ret (Deleted (ent_name e) i), d')))"

end
