(* ===== verification/Crud_Table.thy ===== *)
theory Crud_Table
  imports Crud "HOL-Library.Multiset"
begin

text \<open>
  The generated handlers as a table. A database that executes the four kinds of statements as SQL documents them is a
  hypothesis on the parameters of the handlers, stated on the texts of the statements. Over such a database the
  handlers of an entity with a key called \<open>id\<close> implement a table of rows indexed by the key; with a key of another
  name two of the five handlers never find a row.
\<close>

section \<open>What the database promises\<close>

definition columns :: "entity \<Rightarrow> string list" where
  "columns e = map (toSnakeCase \<circ> fd_name) (ent_fields e)"

text \<open>Statements as a user of the dialect writes them.\<close>

definition placeholder :: "string \<Rightarrow> nat \<Rightarrow> string" where
  "placeholder dialect n = (if dialect = ''postgres'' then ''$'' @ show_nat n else ''?'')"

definition name_text :: "string \<Rightarrow> string \<Rightarrow> string" where
  "name_text dialect s = (if dialect = ''postgres'' then [CHR 0x22] @ s @ [CHR 0x22] else [CHR 0x60] @ s @ [CHR 0x60])"

definition insert_text :: "string \<Rightarrow> string \<Rightarrow> string list \<Rightarrow> string" where
  "insert_text dialect t cs =
     ''INSERT INTO '' @ name_text dialect t @ '' ('' @ Join (map (name_text dialect) cs) '', '' @ '') VALUES (''
     @ Join (map (placeholder dialect) [1..<length cs + 1]) '', '' @ '')''"

definition select_text :: "string \<Rightarrow> string \<Rightarrow> string" where
  "select_text dialect t = ''SELECT * FROM '' @ name_text dialect t"

definition where_text :: "string \<Rightarrow> string \<Rightarrow> nat \<Rightarrow> string" where
  "where_text dialect pk n = '' WHERE '' @ name_text dialect pk @ ''='' @ placeholder dialect n"

definition update_text :: "string \<Rightarrow> string \<Rightarrow> string list \<Rightarrow> string \<Rightarrow> string" where
  "update_text dialect t cs pk =
     ''UPDATE '' @ name_text dialect t @ '' SET ''
     @ Join (map (\<lambda>(c, n). name_text dialect c @ ''='' @ placeholder dialect n) (zip cs [1..<length cs + 1])) '', ''
     @ where_text dialect pk (length cs + 1)"

definition delete_text :: "string \<Rightarrow> string \<Rightarrow> string \<Rightarrow> string" where
  "delete_text dialect t pk = ''DELETE FROM '' @ name_text dialect t @ where_text dialect pk 1"

text \<open>Rows are lists of values in the order of the columns of the table.\<close>

definition cell :: "string list \<Rightarrow> goval list \<Rightarrow> string \<Rightarrow> goval" where
  "cell cols r c = (case map_of (zip cols r) c of None \<Rightarrow> VNil | Some v \<Rightarrow> v)"

definition new_row :: "string list \<Rightarrow> (string \<Rightarrow> goval) \<Rightarrow> string list \<Rightarrow> goval list \<Rightarrow> goval list" where
  "new_row cols dflt cs vs = map (\<lambda>c. case map_of (zip cs vs) c of None \<Rightarrow> dflt c | Some v \<Rightarrow> v) cols"

definition changed_row :: "string list \<Rightarrow> string list \<Rightarrow> goval list \<Rightarrow> goval list \<Rightarrow> goval list" where
  "changed_row cols cs vs r = map (\<lambda>(c, v). case map_of (zip cs vs) c of None \<Rightarrow> v | Some w \<Rightarrow> w) (zip cols r)"

text \<open>How the database compares: \<open>key\<close> is what it takes a value of the key column for, \<open>parse\<close> what it takes a text parameter for,
  nothing if it refuses the text. For a column of texts both are the text; for a column of integers \<open>07\<close> stands for 7, and
  a text that is no number is refused (PostgreSQL) or stands for some number (MySQL).\<close>

definition with_key :: "string list \<Rightarrow> string \<Rightarrow> (goval \<Rightarrow> 'k) \<Rightarrow> 'k \<Rightarrow> goval list \<Rightarrow> bool" where
  "with_key cols pk key k r = (key (cell cols r pk) = k)"

definition matching :: "(goval list \<Rightarrow> 'k \<Rightarrow> bool) \<Rightarrow> (string \<Rightarrow> 'k option) \<Rightarrow> string \<Rightarrow> goval list multiset \<Rightarrow> goval list multiset" where
  "matching has parse i T = (case parse i of None \<Rightarrow> {#} | Some k \<Rightarrow> filter_mset (\<lambda>r. has r k) T)"

text \<open>The database holds the table \<open>t\<close> with the columns \<open>cols\<close> and the primary key \<open>pk\<close>: rows of the table have a value for each
  column and no two have the same key, and the statements do what they say. A column an insertion does not name gets a
  value the database chooses. A statement fails, and changes nothing, if its key is taken, if its parameter is refused, or
  for any other reason (a lost connection, another constraint of the table): \<open>fails\<close> says when it does so.\<close>

type_synonym 'd failures = "'d \<Rightarrow> string \<Rightarrow> goval list \<Rightarrow> bool"

definition table_shape :: "string list \<Rightarrow> string \<Rightarrow> (goval \<Rightarrow> 'k) \<Rightarrow> goval list multiset \<Rightarrow> bool" where
  "table_shape cols pk key T = ((\<forall>r \<in># T. length r = length cols) \<and> (\<forall>i. size (filter_mset (with_key cols pk key i) T) \<le> 1))"

definition selects :: "'d sql_db \<Rightarrow> string \<Rightarrow> string list \<Rightarrow> string \<Rightarrow> (goval \<Rightarrow> 'k) \<Rightarrow> (string \<Rightarrow> 'k option) \<Rightarrow> 'd failures
  \<Rightarrow> ('d \<Rightarrow> goval list multiset) \<Rightarrow> bool" where
  "selects db t cols pk key parse fails rows =
     (\<forall>d. (if fails d (select_text (db_dialect db) t) [] then \<exists>m. db_query db (select_text (db_dialect db) t) d = Inl m
           else \<exists>rs. mset rs = rows d \<and> db_query db (select_text (db_dialect db) t) d = Inr \<lparr>rows_err = None, rows_scans = map Inr rs\<rparr>) \<and>
          (\<forall>i. let stmt = select_text (db_dialect db) t @ where_text (db_dialect db) pk 1;
                   found = matching (\<lambda>r k. with_key cols pk key k r) parse i (rows d);
                   res = db_queryRow db stmt [VString i] d
               in if found = {#} \<or> fails d stmt [VString i] then (\<exists>m. res = Inl m) else (\<exists>r. r \<in># found \<and> res = Inr r)))"

definition inserts :: "'d sql_db \<Rightarrow> string \<Rightarrow> string list \<Rightarrow> string \<Rightarrow> (goval \<Rightarrow> 'k) \<Rightarrow> 'd failures \<Rightarrow> ('d \<Rightarrow> goval list multiset) \<Rightarrow> bool" where
  "inserts db t cols pk key fails rows =
     (\<forall>d. \<forall>cs \<in> set (subseqs cols). \<forall>vs. cs \<noteq> [] \<and> length vs = length cs \<longrightarrow>
        (\<exists>dflt. let r = new_row cols dflt cs vs;
                    taken = filter_mset (with_key cols pk key (key (cell cols r pk))) (rows d) \<noteq> {#};
                    (res, d') = db_exec db (insert_text (db_dialect db) t cs) vs d
                in if taken \<or> fails d (insert_text (db_dialect db) t cs) vs then (\<exists>m. res = Inl m) \<and> rows d' = rows d
                   else (\<exists>out. res = Inr out) \<and> rows d' = add_mset r (rows d)))"

definition updates :: "'d sql_db \<Rightarrow> string \<Rightarrow> string list \<Rightarrow> string \<Rightarrow> (goval \<Rightarrow> 'k) \<Rightarrow> (string \<Rightarrow> 'k option) \<Rightarrow> 'd failures
  \<Rightarrow> ('d \<Rightarrow> goval list multiset) \<Rightarrow> bool" where
  "updates db t cols pk key parse fails rows =
     (\<forall>d i. \<forall>cs \<in> set (subseqs cols). \<forall>vs. cs \<noteq> [] \<and> pk \<notin> set cs \<and> length vs = length cs \<longrightarrow>
        (let stmt = update_text (db_dialect db) t cs pk;
             (res, d') = db_exec db stmt (vs @ [VString i]) d
         in case parse i of
              None \<Rightarrow> (\<exists>m. res = Inl m) \<and> rows d' = rows d
            | Some k \<Rightarrow>
                if fails d stmt (vs @ [VString i]) then (\<exists>m. res = Inl m) \<and> rows d' = rows d
                else (\<exists>out. res = Inr out) \<and>
                     rows d' = image_mset (\<lambda>r. if with_key cols pk key k r then changed_row cols cs vs r else r) (rows d)))"

definition deletes :: "'d sql_db \<Rightarrow> string \<Rightarrow> string list \<Rightarrow> string \<Rightarrow> (goval \<Rightarrow> 'k) \<Rightarrow> (string \<Rightarrow> 'k option) \<Rightarrow> 'd failures
  \<Rightarrow> ('d \<Rightarrow> goval list multiset) \<Rightarrow> bool" where
  "deletes db t cols pk key parse fails rows =
     (\<forall>d i. let stmt = delete_text (db_dialect db) t pk;
                (res, d') = db_exec db stmt [VString i] d
            in case parse i of
                 None \<Rightarrow> (\<exists>m. res = Inl m) \<and> rows d' = rows d
               | Some k \<Rightarrow>
                   if fails d stmt [VString i] then (\<exists>m. res = Inl m) \<and> rows d' = rows d
                   else (\<exists>out. res = Inr out \<and> RowsAffected out = Inr (int (size (filter_mset (with_key cols pk key k) (rows d))))) \<and>
                        rows d' = filter_mset (\<lambda>r. \<not> with_key cols pk key k r) (rows d))"

definition sql_table :: "'d sql_db \<Rightarrow> string \<Rightarrow> string list \<Rightarrow> string \<Rightarrow> (goval \<Rightarrow> 'k) \<Rightarrow> (string \<Rightarrow> 'k option) \<Rightarrow> 'd failures
  \<Rightarrow> ('d \<Rightarrow> goval list multiset) \<Rightarrow> bool" where
  "sql_table db t cols pk key parse fails rows =
     ((\<forall>d. table_shape cols pk key (rows d)) \<and> selects db t cols pk key parse fails rows \<and> inserts db t cols pk key fails rows \<and>
      updates db t cols pk key parse fails rows \<and> deletes db t cols pk key parse fails rows)"

section \<open>The table the handlers implement\<close>

datatype crud_req = CreateReq "goval list" | GetAllReq | GetReq string | UpdateReq string "goval list" | DeleteReq string

text \<open>A request reaches the handler of its route: the segment after the base path is bound to the name in the route.\<close>

definition key_context :: "entity \<Rightarrow> string \<Rightarrow> string + goval list \<Rightarrow> crud_context" where
  "key_context e i body = \<lparr>ctx_params = [primaryKey e \<mapsto> i], ctx_bind = body\<rparr>"

fun serve_crud :: "'d sql_db \<Rightarrow> entity \<Rightarrow> crud_req \<Rightarrow> 'd \<Rightarrow> crud_reply outcome \<times> 'd" where
  "serve_crud db e (CreateReq vs) d = crud_Create db e \<lparr>ctx_params = Map.empty, ctx_bind = Inr vs\<rparr> d"
| "serve_crud db e GetAllReq d = (crud_GetAll db e d, d)"
| "serve_crud db e (GetReq i) d = (crud_Get db e (key_context e i (Inl '''')) d, d)"
| "serve_crud db e (UpdateReq i vs) d = crud_Update db e (key_context e i (Inr vs)) d"
| "serve_crud db e (DeleteReq i) d = crud_Delete db e (key_context e i (Inl '''')) d"

fun serve_requests :: "'d sql_db \<Rightarrow> entity \<Rightarrow> crud_req list \<Rightarrow> 'd \<Rightarrow> crud_reply outcome list \<times> 'd" where
  "serve_requests db e [] d = ([], d)"
| "serve_requests db e (q # qs) d =
     (let (a, d') = serve_crud db e q d; (as, d'') = serve_requests db e qs d' in (a # as, d''))"

datatype answer = ACreated goval | AAll "goval list multiset" | AOne "goval list multiset" | AUpdated string | ADeleted string
  | ARejected | ARefused | ANotFound | AOther

fun answer_of :: "crud_reply outcome \<Rightarrow> answer" where
  "answer_of (Ret (Created n v)) = ACreated v"
| "answer_of (Ret (Entities es)) = AAll (mset es)"
| "answer_of (Ret (Entity r)) = AOne {#r#}"
| "answer_of (Ret (Updated n i)) = AUpdated i"
| "answer_of (Ret (Deleted n i)) = ADeleted i"
| "answer_of (Fail (ErrFieldCannotBeNull n)) = ARejected"
| "answer_of (Fail (ErrFieldCannotBeEmpty n)) = ARejected"
| "answer_of (Fail (ErrFieldCannotBeZero n)) = ARejected"
| "answer_of (Fail (ErrDatabase m)) = ARefused"
| "answer_of (Fail ErrEntityNotFound) = ANotFound"
| "answer_of _ = AOther"

fun blank :: "goval \<Rightarrow> bool" where
  "blank (VString s) = (s = '''')"
| "blank (VInt n) = (n = 0)"
| "blank (VUint n) = (n = 0)"
| "blank (VFloat w) = float_zero w"
| "blank (VOther s) = False"
| "blank (VRef k r) = (r = None)"
| "blank VNil = True"

definition must_fill :: "struct_field \<Rightarrow> bool" where
  "must_fill f = (''not_null'' \<in> set (map (map lower_char) (Split (fd_sql f) CHR '','')))"

definition complete_row :: "entity \<Rightarrow> goval list \<Rightarrow> bool" where
  "complete_row e vs = (\<forall>(f, v) \<in> set (zip (ent_fields e) vs). must_fill f \<longrightarrow> \<not> blank v)"

definition keyed :: "(goval \<Rightarrow> 'k) \<Rightarrow> 'k \<Rightarrow> goval list \<Rightarrow> bool" where
  "keyed key k r = (key (hd r) = k)"

text \<open>The table is told whether the statement of a request fails for reasons of its own.\<close>

fun table_step :: "entity \<Rightarrow> (goval \<Rightarrow> 'k) \<Rightarrow> (string \<Rightarrow> 'k option) \<Rightarrow> bool \<Rightarrow> crud_req \<Rightarrow> goval list multiset \<Rightarrow> answer \<times> goval list multiset" where
  "table_step e key parse failed (CreateReq vs) T =
     (if \<not> complete_row e vs then (ARejected, T)
      else if filter_mset (keyed key (key (hd vs))) T \<noteq> {#} \<or> failed then (ARefused, T)
      else (ACreated (hd vs), add_mset vs T))"
| "table_step e key parse failed GetAllReq T = (if failed then ARefused else AAll T, T)"
| "table_step e key parse failed (GetReq i) T =
     (let found = matching (\<lambda>r k. keyed key k r) parse i T in (if found = {#} \<or> failed then ARefused else AOne found, T))"
| "table_step e key parse failed (UpdateReq i vs) T =
     (case parse i of
        None \<Rightarrow> (ARefused, T)
      | Some k \<Rightarrow> if failed then (ARefused, T) else (AUpdated i, image_mset (\<lambda>r. if keyed key k r then hd r # tl vs else r) T))"
| "table_step e key parse failed (DeleteReq i) T =
     (case parse i of
        None \<Rightarrow> (ARefused, T)
      | Some k \<Rightarrow>
          if failed then (ARefused, T)
          else (if filter_mset (keyed key k) T = {#} then ANotFound else ADeleted i, filter_mset (\<lambda>r. \<not> keyed key k r) T))"

fun table_run :: "entity \<Rightarrow> (goval \<Rightarrow> 'k) \<Rightarrow> (string \<Rightarrow> 'k option) \<Rightarrow> (crud_req \<times> bool) list \<Rightarrow> goval list multiset
  \<Rightarrow> answer list \<times> goval list multiset" where
  "table_run e key parse [] T = ([], T)"
| "table_run e key parse ((q, failed) # qs) T =
     (let (a, T') = table_step e key parse failed q T; (as, T'') = table_run e key parse qs T' in (a # as, T''))"

text \<open>Whether the database fails the statement of a request, and so for each request of a sequence.\<close>

fun request_fails :: "'d sql_db \<Rightarrow> entity \<Rightarrow> 'd failures \<Rightarrow> crud_req \<Rightarrow> 'd \<Rightarrow> bool" where
  "request_fails db e fails (CreateReq vs) d = fails d (insert_text (db_dialect db) (tableName e) (columns e)) vs"
| "request_fails db e fails GetAllReq d = fails d (select_text (db_dialect db) (tableName e)) []"
| "request_fails db e fails (GetReq i) d =
     fails d (select_text (db_dialect db) (tableName e) @ where_text (db_dialect db) (primaryKey e) 1) [VString i]"
| "request_fails db e fails (UpdateReq i vs) d =
     fails d (update_text (db_dialect db) (tableName e) (tl (columns e)) (primaryKey e)) (tl vs @ [VString i])"
| "request_fails db e fails (DeleteReq i) d = fails d (delete_text (db_dialect db) (tableName e) (primaryKey e)) [VString i]"

fun with_failures :: "'d sql_db \<Rightarrow> entity \<Rightarrow> 'd failures \<Rightarrow> crud_req list \<Rightarrow> 'd \<Rightarrow> (crud_req \<times> bool) list" where
  "with_failures db e fails [] d = []"
| "with_failures db e fails (q # qs) d = (q, request_fails db e fails q d) # with_failures db e fails qs (snd (serve_crud db e q d))"

text \<open>A body has a value for each field, none of them the nil interface; fields of other types than interfaces never hold it.\<close>

fun body_ok :: "entity \<Rightarrow> crud_req \<Rightarrow> bool" where
  "body_ok e (CreateReq vs) = (length vs = length (ent_fields e) \<and> VNil \<notin> set vs)"
| "body_ok e (UpdateReq i vs) = (length vs = length (ent_fields e) \<and> VNil \<notin> set vs)"
| "body_ok e q = True"

definition plain_entity :: "entity \<Rightarrow> bool" where
  "plain_entity e = (length (ent_fields e) \<ge> 2 \<and> distinct (columns e) \<and> list_all fd_exported (ent_fields e))"

definition crud_over :: "'d sql_db \<Rightarrow> struct_type \<Rightarrow> entity \<Rightarrow> (goval \<Rightarrow> 'k) \<Rightarrow> (string \<Rightarrow> 'k option) \<Rightarrow> 'd failures
  \<Rightarrow> ('d \<Rightarrow> goval list multiset) \<Rightarrow> bool" where
  "crud_over db st e key parse fails rows =
     (scanEntity (PointerToStruct st) = Ret e \<and> plain_entity e \<and> \<not> hasAutoIncrementID (constraints e) \<and>
      sql_table db (tableName e) (columns e) (primaryKey e) key parse fails rows)"

definition no_nil :: "goval list multiset \<Rightarrow> bool" where
  "no_nil T = (\<forall>r \<in># T. VNil \<notin> set r)"

section \<open>A database in memory\<close>

text \<open>A database that keeps one table, for which the promises hold: it recognizes the statements by their texts.\<close>

definition mem_rows :: "string list \<Rightarrow> string \<Rightarrow> (goval \<Rightarrow> 'k) \<Rightarrow> goval list list \<Rightarrow> goval list list" where
  "mem_rows cols pk key d =
     (if list_all (\<lambda>r. length r = length cols) d \<and> distinct (map (\<lambda>r. key (cell cols r pk)) d) then d else [])"

definition key_arg :: "goval list \<Rightarrow> string" where
  "key_arg vs = (case last vs of VString s \<Rightarrow> s | _ \<Rightarrow> '''')"

definition memdb_exec :: "string \<Rightarrow> string \<Rightarrow> string list \<Rightarrow> string \<Rightarrow> (goval \<Rightarrow> 'k) \<Rightarrow> (string \<Rightarrow> 'k option) \<Rightarrow> string \<Rightarrow> goval list
  \<Rightarrow> goval list list \<Rightarrow> (string + db_result) \<times> goval list list" where
  "memdb_exec dialect t cols pk key parse stmt vs d0 =
     (let d = mem_rows cols pk key d0;
          affected = (\<lambda>hit. Inr \<lparr>LastInsertId = Inr 0, RowsAffected = Inr (int (length (filter hit d)))\<rparr>)
      in case find (\<lambda>cs. stmt = insert_text dialect t cs) (subseqs cols) of
           Some cs \<Rightarrow>
             let r = new_row cols (\<lambda>_. VString ''default'') cs vs
             in if \<exists>s \<in> set d. with_key cols pk key (key (cell cols r pk)) s then (Inl ''duplicate key'', d) else (affected (\<lambda>_. False), r # d)
         | None \<Rightarrow>
             (case parse (key_arg vs) of
                None \<Rightarrow> (Inl ''invalid input syntax'', d)
              | Some k \<Rightarrow>
                  let hit = with_key cols pk key k in
                  (case find (\<lambda>cs. stmt = update_text dialect t cs pk) (subseqs cols) of
                     Some cs \<Rightarrow> (affected hit, map (\<lambda>r. if hit r then changed_row cols cs (butlast vs) r else r) d)
                   | None \<Rightarrow>
                       if stmt = delete_text dialect t pk then (affected hit, filter (\<lambda>r. \<not> hit r) d)
                       else (Inl ''syntax error'', d))))"

definition mem_db :: "string \<Rightarrow> string \<Rightarrow> string list \<Rightarrow> string \<Rightarrow> (goval \<Rightarrow> 'k) \<Rightarrow> (string \<Rightarrow> 'k option) \<Rightarrow> goval list list sql_db" where
  "mem_db dialect t cols pk key parse =
     \<lparr>db_dialect = dialect, db_exec = memdb_exec dialect t cols pk key parse,
      db_query = (\<lambda>stmt d. if stmt = select_text dialect t then Inr \<lparr>rows_err = None, rows_scans = map Inr (mem_rows cols pk key d)\<rparr>
                          else Inl ''syntax error''),
      db_queryRow = (\<lambda>stmt vs d. if stmt = select_text dialect t @ where_text dialect pk 1
                          then (case parse (key_arg vs) of
                                  None \<Rightarrow> Inl ''invalid input syntax''
                                | Some k \<Rightarrow> (case find (with_key cols pk key k) (mem_rows cols pk key d) of
                                    Some r \<Rightarrow> Inr r | None \<Rightarrow> Inl ''no rows''))
                          else Inl ''syntax error'')\<rparr>"

abbreviation no_failures :: "'d failures" where
  "no_failures \<equiv> \<lambda>d stmt vs. False"

text \<open>Two structures: one whose key is called \<open>id\<close>, and one whose key is not.\<close>

definition user_struct :: struct_type where
  "user_struct = \<lparr>st_name = ''User'', st_fields = [\<lparr>fd_name = ''ID'', fd_sql = '''', fd_exported = True\<rparr>,
     \<lparr>fd_name = ''Name'', fd_sql = ''not_null'', fd_exported = True\<rparr>], st_table = None, st_path = None, st_ops = []\<rparr>"

definition user_entity :: entity where
  "user_entity = \<lparr>ent_name = ''User'', ent_fields = st_fields user_struct, primaryKey = ''id'', tableName = ''user'', restPath = ''user'',
     constraints = [(''id'', no_constraints), (''name'', no_constraints\<lparr>NotNull := True\<rparr>)]\<rparr>"

definition product_struct :: struct_type where
  "product_struct = \<lparr>st_name = ''Product'', st_fields = [\<lparr>fd_name = ''SKU'', fd_sql = '''', fd_exported = True\<rparr>,
     \<lparr>fd_name = ''Price'', fd_sql = '''', fd_exported = True\<rparr>], st_table = None, st_path = None, st_ops = []\<rparr>"

definition product_entity :: entity where
  "product_entity = \<lparr>ent_name = ''Product'', ent_fields = st_fields product_struct, primaryKey = ''sku'', tableName = ''product'',
     restPath = ''product'', constraints = [(''sku'', no_constraints), (''price'', no_constraints)]\<rparr>"

text \<open>Keys of a column of texts, and of one of integers as PostgreSQL compares them.\<close>

definition text_key :: "goval \<Rightarrow> string" where
  "text_key v = (case v of VString s \<Rightarrow> s | _ \<Rightarrow> '''')"

definition int_key :: "goval \<Rightarrow> int option" where
  "int_key v = (case v of VInt n \<Rightarrow> Some n | _ \<Rightarrow> None)"

definition int_param :: "string \<Rightarrow> int option option" where
  "int_param i = (case Atoi i of (n, None) \<Rightarrow> Some (Some n) | _ \<Rightarrow> None)"

section \<open>The statements sent\<close>

lemma sent_names: "quotedString (quote dialect) s = name_text dialect s" "bindVar dialect n = placeholder dialect n"
  by (simp_all add: quotedString_def quote_def name_text_def bindVar_def bindType_def placeholder_def)

lemma update_params_text:
  "update_params dialect i cs = map (\<lambda>(c, n). name_text dialect c @ ''='' @ placeholder dialect n) (zip cs [i + 1..<i + length cs + 1])"
proof (induction cs arbitrary: i)
  case (Cons c cs)
  have "[i + 1..<i + length (c # cs) + 1] = (i + 1) # [Suc i + 1..<Suc i + length cs + 1]" by (subst upt_conv_Cons) simp_all
  then show ?case using Cons [of "Suc i"] by (simp add: sent_names)
qed simp

lemma sent_statements:
  "SelectQuery dialect t = select_text dialect t"
  "SelectByQuery dialect t pk = select_text dialect t @ where_text dialect pk 1"
  "DeleteByQuery dialect t pk = delete_text dialect t pk"
  "UpdateByQuery dialect t cs pk = update_text dialect t cs pk"
  by (simp_all add: SelectQuery_def select_text_def SelectByQuery_def where_text_def DeleteByQuery_def delete_text_def
      UpdateByQuery_def update_text_def update_params_text sent_names)

lemma nillable_refs: "isNillableKind (KRef k)"
  by (cases k) (simp_all add: isNillableKind_def)

lemma validateNotNull_blank: "validateNotNull n v b \<noteq> None \<longleftrightarrow> b \<and> blank v"
  by (cases v) (auto simp: validateNotNull_def validateStringNotNull_def validateIntNotNull_def validateUintNotNull_def
      validateFloatNotNull_def validateDefaultNotNull_def nillable_refs val_isNil_def split: option.splits)

lemma validateNotNull_rejects: "validateNotNull n v b = Some err \<Longrightarrow> answer_of (Fail err) = ARejected"
  by (cases v) (auto simp: validateNotNull_def validateStringNotNull_def validateIntNotNull_def validateUintNotNull_def
      validateFloatNotNull_def validateDefaultNotNull_def nillable_refs val_isNil_def split: option.splits if_splits)

text \<open>The loop of an insertion of all columns.\<close>

lemma insert_loop_all:
  assumes "\<forall>n \<in> set names. \<not> AutoIncrement (constraint cs n)" "length vals = i + length names"
  shows "(\<forall>(n, v) \<in> set (zip names (drop i vals)). NotNull (constraint cs n) \<longrightarrow> \<not> blank v) \<Longrightarrow>
           insert_loop dialect cs vals i names cols bvs =
             Ret (cols @ map (name_text dialect) names, bvs @ map (placeholder dialect) [i + 1..<i + length names + 1])"
    and "\<not> (\<forall>(n, v) \<in> set (zip names (drop i vals)). NotNull (constraint cs n) \<longrightarrow> \<not> blank v) \<Longrightarrow>
           \<exists>err. insert_loop dialect cs vals i names cols bvs = Fail err \<and> answer_of (Fail err) = ARejected"
  using assms
proof (induction names arbitrary: i cols bvs)
  case Nil
  { case 1 then show ?case by simp }
  { case 2 then show ?case by simp }
next
  case (Cons n names)
  have drop: "drop i vals = vals ! i # drop (Suc i) vals" if "length vals = i + length (n # names)" for i
    using that by (simp add: Cons_nth_drop_Suc)
  have upt: "[i + 1..<i + length (n # names) + 1] = (i + 1) # [Suc i + 1..<Suc i + length names + 1]" for i by (subst upt_conv_Cons) simp_all
  {
    case 1
    have eq: "drop i vals = vals ! i # drop (Suc i) vals" by (rule drop) fact
    have "\<not> (NotNull (constraint cs n) \<and> blank (vals ! i))" using 1(1) eq by simp
    then have "validateNotNull n (vals ! i) (NotNull (constraint cs n)) = None" using validateNotNull_blank by blast
    then show ?case using 1 Cons.IH(1) [of "Suc i"] eq upt [of i] by (simp add: sent_names del: upt_Suc)
  }
  {
    case 2
    have eq: "drop i vals = vals ! i # drop (Suc i) vals" by (rule drop) fact
    show ?case
    proof (cases "validateNotNull n (vals ! i) (NotNull (constraint cs n))")
      case None
      then have "\<not> (NotNull (constraint cs n) \<and> blank (vals ! i))" using validateNotNull_blank by blast
      then show ?thesis using 2 Cons.IH(2) [of "Suc i"] None eq by (auto simp: sent_names)
    next
      case (Some err)
      then show ?thesis using 2 validateNotNull_rejects by auto
    qed
  }
qed

lemma InsertQuery_all:
  assumes "\<forall>n \<in> set names. \<not> AutoIncrement (constraint cs n)" "length vals = length names"
  shows "(\<forall>(n, v) \<in> set (zip names vals). NotNull (constraint cs n) \<longrightarrow> \<not> blank v) \<Longrightarrow>
           InsertQuery dialect t names vals cs = Ret (insert_text dialect t names)"
    and "\<not> (\<forall>(n, v) \<in> set (zip names vals). NotNull (constraint cs n) \<longrightarrow> \<not> blank v) \<Longrightarrow>
           \<exists>err. InsertQuery dialect t names vals cs = Fail err \<and> answer_of (Fail err) = ARejected"
  using insert_loop_all [of names cs vals 0 dialect "[]" "[]"] assms
  by (auto simp: InsertQuery_def insert_text_def sent_names)

lemma extract_all:
  assumes "\<forall>f \<in> set fs. fd_exported f \<and> \<not> AutoIncrement (constraint cs (toSnakeCase (fd_name f)))" "length vs = length fs"
  shows "extract_loop cs (zip fs vs) = Ret (map (toSnakeCase \<circ> fd_name) fs, vs)"
  using assms(2,1) by (induction vs fs rule: list_induct2) auto

lemma validate_all:
  assumes "\<forall>f \<in> set fs. fd_exported f" "VNil \<notin> set vs" "length vs = length fs"
  shows "validate_bound cs (zip fs vs) = Ret ()"
  using assms(3,1,2) by (induction vs fs rule: list_induct2) auto

section \<open>Constraints of the fields\<close>

lemma parse_tags_fields:
  "parse_tags tags c = Ret c' \<Longrightarrow> NotNull c' = (NotNull c \<or> ''not_null'' \<in> set (map (map lower_char) tags))"
  by (induction tags arbitrary: c) (auto simp: Let_def split: if_splits)

lemma parseSQLTag_not_null: "parseSQLTag (fd_sql f) = Ret c \<Longrightarrow> NotNull c = must_fill f"
  using parse_tags_fields [of "Split (fd_sql f) CHR '',''" no_constraints c]
  by (auto simp: parseSQLTag_def must_fill_def no_constraints_def split: if_splits)

lemma scan_constraints_lookup:
  assumes "scan_constraints fs cs = Ret cs'" "distinct (map (toSnakeCase \<circ> fd_name) fs)"
  shows "(\<forall>f \<in> set fs. parseSQLTag (fd_sql f) = Ret (constraint cs' (toSnakeCase (fd_name f)))) \<and>
         (\<forall>n. n \<notin> set (map (toSnakeCase \<circ> fd_name) fs) \<longrightarrow> constraint cs' n = constraint cs n)"
  using assms
proof (induction fs arbitrary: cs)
  case (Cons f fs)
  obtain c where c: "parseSQLTag (fd_sql f) = Ret c" using Cons.prems(1) by (cases "parseSQLTag (fd_sql f)") auto
  let ?cs = "AList.update (toSnakeCase (fd_name f)) c cs"
  have IH: "(\<forall>g \<in> set fs. parseSQLTag (fd_sql g) = Ret (constraint cs' (toSnakeCase (fd_name g)))) \<and>
            (\<forall>n. n \<notin> set (map (toSnakeCase \<circ> fd_name) fs) \<longrightarrow> constraint cs' n = constraint ?cs n)"
    using Cons.IH [of ?cs] Cons.prems c by simp
  have "constraint ?cs n = (if n = toSnakeCase (fd_name f) then c else constraint cs n)" for n
    by (simp add: constraint_def update_conv)
  then show ?case using IH c Cons.prems(2) by auto
qed (auto simp: constraint_def)

section \<open>The handlers implement the table\<close>

lemma new_row_all: "distinct cols \<Longrightarrow> length vs = length cols \<Longrightarrow> new_row cols dflt cols vs = vs"
  by (rule nth_equalityI) (auto simp: new_row_def map_of_zip_nth)

lemma changed_row_tail:
  assumes "distinct (c # cols)" "length r = length (c # cols)" "length vs = length cols"
  shows "changed_row (c # cols) cols vs r = hd r # vs"
proof -
  obtain v r' where r: "r = v # r'" using assms(2) by (cases r) auto
  have c: "map_of (zip cols vs) c = None" using assms(1,3) by simp
  have "map (\<lambda>(c, v). case map_of (zip cols vs) c of None \<Rightarrow> v | Some w \<Rightarrow> w) (zip cols r') = vs"
    using assms r by (intro nth_equalityI) (auto simp: map_of_zip_nth)
  then show ?thesis using r c by (simp add: changed_row_def)
qed

lemma with_key_head: "r \<noteq> [] \<Longrightarrow> with_key (pk # cols) pk key i r = keyed key i r"
  by (cases r) (simp_all add: with_key_def cell_def keyed_def)


lemma scanned_entity:
  assumes "scanEntity (PointerToStruct st) = Ret e" "plain_entity e" "\<not> hasAutoIncrementID (constraints e)"
  shows "\<exists>cs. columns e = primaryKey e # cs \<and> cs \<noteq> []"
    and "\<forall>f \<in> set (ent_fields e). NotNull (constraint (constraints e) (toSnakeCase (fd_name f))) = must_fill f"
    and "\<not> AutoIncrement (constraint (constraints e) n)"
proof -
  obtain f fs where f: "st_fields st = f # fs" using assms(1) by (cases "st_fields st") (auto simp: scanEntity_def)
  obtain cs where cs: "scan_constraints (f # fs) [] = Ret cs" using assms(1) f
    by (cases "scan_constraints (f # fs) []") (simp_all add: scanEntity_def)
  have e: "ent_fields e = f # fs" "primaryKey e = toSnakeCase (fd_name f)" "constraints e = cs"
    using assms(1) f cs by (auto simp: scanEntity_def simp del: scan_constraints.simps)
  show "\<exists>cs. columns e = primaryKey e # cs \<and> cs \<noteq> []" using e assms(2) by (cases fs) (auto simp: columns_def plain_entity_def)
  have "distinct (map (toSnakeCase \<circ> fd_name) (f # fs))" using assms(2) e by (simp add: plain_entity_def columns_def)
  from scan_constraints_lookup [OF cs this]
  show "\<forall>f \<in> set (ent_fields e). NotNull (constraint (constraints e) (toSnakeCase (fd_name f))) = must_fill f"
    using e parseSQLTag_not_null by auto
  show "\<not> AutoIncrement (constraint (constraints e) n)"
    using assms(3) by (fastforce simp: constraint_def no_constraints_def hasAutoIncrementID_def dest: map_of_SomeD split: option.splits)
qed

lemma rows_keyed:
  assumes "\<forall>d. table_shape (pk # cs) pk key (rows d)"
  shows "r \<in># rows d \<Longrightarrow> length r = Suc (length cs)"
    and "r \<in># rows d \<Longrightarrow> with_key (pk # cs) pk key i r = keyed key i r"
    and "filter_mset (with_key (pk # cs) pk key i) (rows d) = filter_mset (keyed key i) (rows d)"
    and "filter_mset (\<lambda>r. \<not> with_key (pk # cs) pk key i r) (rows d) = filter_mset (\<lambda>r. \<not> keyed key i r) (rows d)"
    and "size (filter_mset (keyed key i) (rows d)) \<le> 1"
proof -
  have shape: "table_shape (pk # cs) pk key (rows d)" using assms by simp
  show len: "length r = Suc (length cs)" if "r \<in># rows d" for r using shape that by (simp add: table_shape_def)
  show head: "with_key (pk # cs) pk key i r = keyed key i r" if "r \<in># rows d" for r
    using with_key_head [of r pk cs key i] len [OF that] by (cases r) auto
  show found: "filter_mset (with_key (pk # cs) pk key i) (rows d) = filter_mset (keyed key i) (rows d)"
    by (rule filter_mset_cong) (use head in auto)
  show "filter_mset (\<lambda>r. \<not> with_key (pk # cs) pk key i r) (rows d) = filter_mset (\<lambda>r. \<not> keyed key i r) (rows d)"
    by (rule filter_mset_cong) (use head in auto)
  show "size (filter_mset (keyed key i) (rows d)) \<le> 1" using shape found unfolding table_shape_def by metis
qed

lemma create_implements:
  assumes "crud_over db st e key parse fails rows" "length vs = length (ent_fields e)" "VNil \<notin> set vs"
    and "crud_Create db e \<lparr>ctx_params = ps, ctx_bind = Inr vs\<rparr> d = (a, d')"
  shows "(answer_of a, rows d') = table_step e key parse (request_fails db e fails (CreateReq vs) d) (CreateReq vs) (rows d)"
proof -
  note facts = scanned_entity [of st e]
  have over: "scanEntity (PointerToStruct st) = Ret e" "plain_entity e" "\<not> hasAutoIncrementID (constraints e)"
    and tab: "sql_table db (tableName e) (columns e) (primaryKey e) key parse fails rows" using assms(1) by (auto simp: crud_over_def)
  obtain cs where cols: "columns e = primaryKey e # cs" using facts(1) over by blast
  have len: "length vs = length (columns e)" using assms(2) by (simp add: columns_def)
  have ne: "vs \<noteq> []" using len cols by auto
  have exported: "\<forall>f \<in> set (ent_fields e). fd_exported f" using over(2) by (simp add: plain_entity_def list_all_iff)
  have bound: "bindAndValidateEntity e \<lparr>ctx_params = ps, ctx_bind = Inr vs\<rparr> = Ret vs"
    using validate_all [OF exported assms(3,2)] by (simp add: bindAndValidateEntity_def)
  have fields: "extractFields e vs = Ret (columns e, vs)"
    using extract_all [of "ent_fields e" "constraints e" vs] exported facts(3) over assms(2) by (simp add: extractFields_def columns_def)
  have complete: "(\<forall>(n, v) \<in> set (zip (columns e) vs). NotNull (constraint (constraints e) n) \<longrightarrow> \<not> blank v) = complete_row e vs"
    using facts(2) over by (fastforce simp: columns_def complete_row_def zip_map1 dest: set_zip_leftD)
  note query = InsertQuery_all [of "columns e" "constraints e" vs "db_dialect db" "tableName e", OF _ len, unfolded complete]
  show ?thesis
  proof (cases "complete_row e vs")
    case False
    then obtain err where "InsertQuery (db_dialect db) (tableName e) (columns e) vs (constraints e) = Fail err" "answer_of (Fail err) = ARejected"
      using query(2) facts(3) over by blast
    then show ?thesis using assms(4) bound fields False by (simp add: crud_Create_def)
  next
    case True
    then have stmt: "InsertQuery (db_dialect db) (tableName e) (columns e) vs (constraints e) = Ret (insert_text (db_dialect db) (tableName e) (columns e))"
      using query(1) facts(3) over by blast
    obtain res d1 where run: "db_exec db (insert_text (db_dialect db) (tableName e) (columns e)) vs d = (res, d1)" by fastforce
    have row: "new_row (columns e) dflt (columns e) vs = vs" for dflt
      using new_row_all over(2) len by (simp add: plain_entity_def)
    have key: "key (cell (columns e) vs (primaryKey e)) = key (hd vs)" using cols ne by (cases vs) (simp_all add: cell_def)
    have same: "filter_mset (with_key (columns e) (primaryKey e) key (key (hd vs))) (rows d) = filter_mset (keyed key (key (hd vs))) (rows d)"
      using rows_keyed(3) [of "primaryKey e" cs key rows] tab cols by (simp add: sql_table_def)
    have ins: "inserts db (tableName e) (columns e) (primaryKey e) key fails rows" using tab by (simp add: sql_table_def)
    have "columns e \<noteq> []" using cols by simp
    then have law: "if filter_mset (keyed key (key (hd vs))) (rows d) \<noteq> {#} \<or> fails d (insert_text (db_dialect db) (tableName e) (columns e)) vs
                    then (\<exists>m. res = Inl m) \<and> rows d1 = rows d
                    else (\<exists>out. res = Inr out) \<and> rows d1 = add_mset vs (rows d)"
      using ins [unfolded inserts_def, THEN spec, of d, THEN bspec, OF subseqs_refl, THEN spec, of vs] len
      by (simp only: row key same run Let_def case_prod_conv simp_thms)
    show ?thesis using assms(4) bound fields stmt run law True over(3) ne
      by (auto simp: crud_Create_def created_def split: if_splits list.splits)
  qed
qed


lemma rows_loop_all: "\<forall>r \<in> set rs. VNil \<notin> set r \<Longrightarrow> rows_loop (map Inr rs) = Ret rs"
  by (induction rs) auto

lemma getall_implements:
  assumes "crud_over db st e key parse fails rows" "no_nil (rows d)"
  shows "(answer_of (crud_GetAll db e d), rows d) = table_step e key parse (request_fails db e fails GetAllReq d) GetAllReq (rows d)"
proof (cases "request_fails db e fails GetAllReq d")
  case True
  then obtain m where "db_query db (select_text (db_dialect db) (tableName e)) d = Inl m"
    using assms(1) unfolding crud_over_def sql_table_def selects_def by (metis request_fails.simps(2))
  then show ?thesis using True by (simp add: crud_GetAll_def sent_statements)
next
  case False
  then obtain rs where rs: "mset rs = rows d"
    "db_query db (select_text (db_dialect db) (tableName e)) d = Inr \<lparr>rows_err = None, rows_scans = map Inr rs\<rparr>"
    using assms(1) unfolding crud_over_def sql_table_def selects_def by (metis request_fails.simps(2))
  have "rows_loop (map Inr rs) = Ret rs" using assms(2) rs(1) by (intro rows_loop_all) (metis no_nil_def set_mset_mset)
  moreover have "\<forall>f \<in> set (ent_fields e). fd_exported f"
    using assms(1) by (simp add: crud_over_def plain_entity_def list_all_iff)
  ultimately show ?thesis using rs False by (simp add: crud_GetAll_def sent_statements)
qed

text \<open>The lookup of a key, whatever the handler takes for the key.\<close>

lemma get_finds:
  assumes "crud_over db st e key parse fails rows" "crud_param c ''id'' = i"
  shows "answer_of (crud_Get db e c d) =
           (if matching (\<lambda>r k. keyed key k r) parse i (rows d) = {#} \<or> request_fails db e fails (GetReq i) d then ARefused
            else AOne (matching (\<lambda>r k. keyed key k r) parse i (rows d)))"
proof -
  have tab: "sql_table db (tableName e) (columns e) (primaryKey e) key parse fails rows" using assms(1) by (simp add: crud_over_def)
  obtain cs where cols: "columns e = primaryKey e # cs" using scanned_entity(1) assms(1) by (auto simp: crud_over_def)
  have shape: "\<forall>d. table_shape (primaryKey e # cs) (primaryKey e) key (rows d)" using tab cols by (simp add: sql_table_def)
  let ?found = "matching (\<lambda>r k. keyed key k r) parse i (rows d)"
  have same: "matching (\<lambda>r k. with_key (primaryKey e # cs) (primaryKey e) key k r) parse i (rows d) = ?found"
    using rows_keyed(3) [OF shape] by (simp add: matching_def split: option.split)
  let ?res = "db_queryRow db (select_text (db_dialect db) (tableName e) @ where_text (db_dialect db) (primaryKey e) 1) [VString i] d"
  have sel: "selects db (tableName e) (primaryKey e # cs) (primaryKey e) key parse fails rows" using tab cols by (simp add: sql_table_def)
  have law: "if ?found = {#} \<or> request_fails db e fails (GetReq i) d then \<exists>m. ?res = Inl m else \<exists>r. r \<in># ?found \<and> ?res = Inr r"
    using sel [unfolded selects_def, THEN spec, of d, THEN conjunct2, THEN spec, of i] by (simp only: Let_def same request_fails.simps)
  have one: "?found = {#r#}" if "r \<in># ?found" for r
  proof -
    obtain M where M: "?found = add_mset r M" using multi_member_split [OF \<open>r \<in># ?found\<close>] by blast
    have "size ?found \<le> 1" using rows_keyed(5) [OF shape] by (simp add: matching_def split: option.split)
    then show ?thesis unfolding M by simp
  qed
  have "\<forall>f \<in> set (ent_fields e). fd_exported f" using assms(1) by (simp add: crud_over_def plain_entity_def list_all_iff)
  then have get: "crud_Get db e c d = (case ?res of Inl err \<Rightarrow> Fail (ErrDatabase err) | Inr vals \<Rightarrow> Ret (Entity vals))"
    using assms(2) by (simp add: crud_Get_def sent_statements Let_def)
  show ?thesis
  proof (cases "?found = {#} \<or> request_fails db e fails (GetReq i) d")
    case True
    with law have "\<exists>m. ?res = Inl m" by (simp only: if_True)
    then obtain m where "?res = Inl m" by blast
    then show ?thesis using get True by auto
  next
    case False
    with law have "\<exists>r. r \<in># ?found \<and> ?res = Inr r" by (simp only: if_False)
    then obtain r where "r \<in># ?found" "?res = Inr r" by blast
    then show ?thesis using get one False by auto
  qed
qed

lemma delete_removes:
  assumes "crud_over db st e key parse fails rows" "crud_param c ''id'' = i" "crud_Delete db e c d = (a, d')"
  shows "(answer_of a, rows d') = table_step e key parse (request_fails db e fails (DeleteReq i) d) (DeleteReq i) (rows d)"
proof -
  have tab: "sql_table db (tableName e) (columns e) (primaryKey e) key parse fails rows" using assms(1) by (simp add: crud_over_def)
  obtain cs where cols: "columns e = primaryKey e # cs" using scanned_entity(1) assms(1) by (auto simp: crud_over_def)
  have shape: "\<forall>d. table_shape (primaryKey e # cs) (primaryKey e) key (rows d)" using tab cols by (simp add: sql_table_def)
  obtain res d1 where run: "db_exec db (delete_text (db_dialect db) (tableName e) (primaryKey e)) [VString i] d = (res, d1)" by fastforce
  have del: "deletes db (tableName e) (primaryKey e # cs) (primaryKey e) key parse fails rows" using tab cols by (simp add: sql_table_def)
  note law = del [unfolded deletes_def, THEN spec, of d, THEN spec, of i, unfolded run Let_def case_prod_conv]
  note sent = crud_Delete_def [of db e c d, unfolded sent_statements Let_def assms(2) run assms(3)]
  show ?thesis
  proof (cases "parse i")
    case None
    with law obtain m where "res = Inl m" "rows d1 = rows d" by auto
    with sent None show ?thesis by simp
  next
    case (Some k)
    show ?thesis
    proof (cases "request_fails db e fails (DeleteReq i) d")
      case True
      with law Some obtain m where "res = Inl m" "rows d1 = rows d" by auto
      with sent Some True show ?thesis by simp
    next
      case False
      with law Some obtain out where "res = Inr out" "RowsAffected out = Inr (int (size (filter_mset (keyed key k) (rows d))))"
        "rows d1 = filter_mset (\<lambda>r. \<not> keyed key k r) (rows d)" by (auto simp: rows_keyed(3,4) [OF shape])
      with sent Some False show ?thesis by (auto split: if_splits)
    qed
  qed
qed

lemma update_implements:
  assumes "crud_over db st e key parse fails rows" "length vs = length (ent_fields e)"
    and "crud_Update db e (key_context e i (Inr vs)) d = (a, d')"
  shows "(answer_of a, rows d') = table_step e key parse (request_fails db e fails (UpdateReq i vs) d) (UpdateReq i vs) (rows d)"
proof -
  have tab: "sql_table db (tableName e) (columns e) (primaryKey e) key parse fails rows" and plain: "plain_entity e"
    using assms(1) by (simp_all add: crud_over_def)
  obtain cs where cols: "columns e = primaryKey e # cs" "cs \<noteq> []" using scanned_entity(1) assms(1) by (auto simp: crud_over_def)
  have shape: "\<forall>d. table_shape (primaryKey e # cs) (primaryKey e) key (rows d)" using tab cols by (simp add: sql_table_def)
  have dist: "distinct (primaryKey e # cs)" using plain cols by (simp add: plain_entity_def)
  have len: "length (tl vs) = length cs" using assms(2) cols length_map [of "toSnakeCase \<circ> fd_name" "ent_fields e"] by (simp add: columns_def)
  obtain res d1 where run: "db_exec db (update_text (db_dialect db) (tableName e) cs (primaryKey e)) (tl vs @ [VString i]) d = (res, d1)"
    by fastforce
  have upd: "updates db (tableName e) (primaryKey e # cs) (primaryKey e) key parse fails rows" using tab cols by (simp add: sql_table_def)
  have "cs \<in> set (subseqs (primaryKey e # cs))" using subseqs_refl [of cs] by (simp add: Let_def)
  note law = upd [unfolded updates_def, THEN spec, of d, THEN spec, of i, THEN bspec, OF this, THEN spec, of "tl vs",
      unfolded run Let_def case_prod_conv, rule_format]
  have tail: "tl (columns e) = cs" using cols by simp
  have exported: "\<forall>f \<in> set (ent_fields e). fd_exported f" using plain by (simp add: plain_entity_def list_all_iff)
  have sent: "(a, d') = (case res of Inl err \<Rightarrow> (Fail (ErrDatabase err), d1) | Inr r \<Rightarrow> (Ret (Updated (ent_name e) i), d1))"
    using assms(3) run cols exported
    by (auto simp: crud_Update_def key_context_def crud_param_def sent_statements columns_def [symmetric] Let_def split: sum.split)
  have pre: "cs \<noteq> [] \<and> primaryKey e \<notin> set cs \<and> length (tl vs) = length cs" using cols(2) dist len by simp
  show ?thesis
  proof (cases "parse i")
    case None
    with law [OF pre] obtain m where "res = Inl m" "rows d1 = rows d" by auto
    with sent None show ?thesis by simp
  next
    case (Some k)
    show ?thesis
    proof (cases "request_fails db e fails (UpdateReq i vs) d")
      case True
      with law [OF pre] Some tail obtain m where "res = Inl m" "rows d1 = rows d" by auto
      with sent Some True show ?thesis by simp
    next
      case False
      with law [OF pre] Some tail obtain out where ok: "res = Inr out" and eff: "rows d1 = image_mset
          (\<lambda>r. if with_key (primaryKey e # cs) (primaryKey e) key k r then changed_row (primaryKey e # cs) cs (tl vs) r else r) (rows d)" by auto
      have "rows d1 = image_mset (\<lambda>r. if keyed key k r then hd r # tl vs else r) (rows d)"
        unfolding eff by (rule image_mset_cong) (use rows_keyed(1,2) [OF shape] changed_row_tail [OF dist _ len] in auto)
      with sent ok Some False show ?thesis by simp
    qed
  qed
qed

section \<open>The database in memory keeps the promises\<close>

lemma mem_shape: "table_shape cols pk key (mset (mem_rows cols pk key d))"
proof -
  have one: "length (filter (with_key cols pk key i) rs) \<le> 1" if "distinct (map (\<lambda>r. key (cell cols r pk)) rs)" for i rs
    using that
  proof (induction rs)
    case (Cons r rs)
    have "filter (with_key cols pk key i) rs = []" if "with_key cols pk key i r"
      using Cons.prems that by (auto simp: with_key_def filter_empty_conv image_iff)
    then show ?case using Cons by auto
  qed simp
  show ?thesis using one by (simp add: table_shape_def mem_rows_def list_all_iff mset_filter [symmetric] del: mset_filter)
qed

lemma mem_rows_id:
  assumes "\<forall>r \<in> set d. length r = length cols" "distinct (map (\<lambda>r. key (cell cols r pk)) d)"
  shows "mem_rows cols pk key d = d"
  using assms by (simp add: mem_rows_def list_all_iff)

lemma mem_rows_good:
  "\<forall>r \<in> set (mem_rows cols pk key d). length r = length cols" "distinct (map (\<lambda>r. key (cell cols r pk)) (mem_rows cols pk key d))"
  by (auto simp: mem_rows_def list_all_iff)

lemma find_text: "inj_on f (set xs) \<Longrightarrow> x \<in> set xs \<Longrightarrow> find (\<lambda>y. f x = f y) xs = Some x"
  by (induction xs) (auto simp: inj_on_def)

lemma statements_differ:
  "insert_text dialect t cs \<noteq> update_text dialect t' cs' pk" "insert_text dialect t cs \<noteq> delete_text dialect t' pk"
  "update_text dialect t cs pk \<noteq> delete_text dialect t' pk'"
  by (simp_all add: insert_text_def update_text_def delete_text_def)

lemma find_none: "(\<And>x. x \<in> set xs \<Longrightarrow> \<not> P x) \<Longrightarrow> find P xs = None"
  by (induction xs) auto

lemma mem_selects: "selects (mem_db dialect t cols pk key parse) t cols pk key parse no_failures (\<lambda>d. mset (mem_rows cols pk key d))"
proof -
  have f: "if filter (with_key cols pk key i) rs = [] then find (with_key cols pk key i) rs = None
        else \<exists>r \<in> set (filter (with_key cols pk key i) rs). find (with_key cols pk key i) rs = Some r" for i rs
    by (induction rs) auto
  show ?thesis unfolding selects_def
  proof (intro allI conjI, goal_cases)
    case (1 d)
    show ?case by (auto simp: mem_db_def)
  next
    case (2 d i)
    show ?case
    proof (cases "parse i")
      case None
      then show ?thesis by (simp add: mem_db_def key_arg_def matching_def Let_def)
    next
      case (Some k)
      then show ?thesis using f [of k "mem_rows cols pk key d"]
        by (auto simp: mem_db_def key_arg_def matching_def Let_def mset_filter [symmetric] simp del: mset_filter split: if_splits)
    qed
  qed
qed

lemma mem_deletes: "deletes (mem_db dialect t cols pk key parse) t cols pk key parse no_failures (\<lambda>d. mset (mem_rows cols pk key d))"
proof -
  have run: "memdb_exec dialect t cols pk key parse (delete_text dialect t pk) [VString i] d =
     (case parse i of
        None \<Rightarrow> (Inl ''invalid input syntax'', mem_rows cols pk key d)
      | Some k \<Rightarrow> (Inr \<lparr>LastInsertId = Inr 0, RowsAffected = Inr (int (length (filter (with_key cols pk key k) (mem_rows cols pk key d))))\<rparr>,
          filter (\<lambda>r. \<not> with_key cols pk key k r) (mem_rows cols pk key d)))" for i d
    by (simp add: memdb_exec_def find_none statements_differ [symmetric] key_arg_def Let_def split: option.split)
  have keep: "mem_rows cols pk key (filter P (mem_rows cols pk key d)) = filter P (mem_rows cols pk key d)" for P d
    using mem_rows_good(1) [of cols pk key d] mem_rows_good(2) [of key cols pk d] by (intro mem_rows_id) (auto simp: distinct_map_filter)
  have same: "mem_rows cols pk key (mem_rows cols pk key d) = mem_rows cols pk key d" for d using mem_rows_good mem_rows_id by metis
  show ?thesis
    by (simp add: deletes_def mem_db_def run keep same mset_filter [symmetric] del: mset_filter split: option.split)
qed

lemma mem_inserts:
  assumes "inj_on (insert_text dialect t) (set (subseqs cols))"
  shows "inserts (mem_db dialect t cols pk key parse) t cols pk key no_failures (\<lambda>d. mset (mem_rows cols pk key d))"
  unfolding inserts_def
proof (intro allI ballI impI, goal_cases)
  case (1 d cs vs)
  let ?d = "mem_rows cols pk key d"
  let ?r = "new_row cols (\<lambda>_. VString ''default'') cs vs"
  let ?taken = "\<exists>s \<in> set ?d. with_key cols pk key (key (cell cols ?r pk)) s"
  have "find (\<lambda>cs'. insert_text dialect t cs = insert_text dialect t cs') (subseqs cols) = Some cs"
    using find_text [OF assms 1(1)] by simp
  then obtain out where run: "memdb_exec dialect t cols pk key parse (insert_text dialect t cs) vs d =
      (if ?taken then (Inl ''duplicate key'', ?d) else (Inr out, ?r # ?d))"
    by (simp add: memdb_exec_def Let_def)
  have taken: "(filter_mset (with_key cols pk key (key (cell cols ?r pk))) (mset ?d) \<noteq> {#}) = ?taken"
    by (auto simp: filter_mset_eq_conv)
  have same: "mem_rows cols pk key ?d = ?d" using mem_rows_good mem_rows_id by metis
  have added: "mem_rows cols pk key (?r # ?d) = ?r # ?d" if "\<not> ?taken"
    using mem_rows_good(1) [of cols pk key d] mem_rows_good(2) [of key cols pk d] that
    by (intro mem_rows_id) (auto simp: new_row_def with_key_def)
  show ?case
    unfolding mem_db_def sql_db.simps run
    by (rule exI [of _ "\<lambda>_. VString ''default''"], cases ?taken)
       (simp_all only: Let_def taken if_True if_False case_prod_conv same, auto simp: added)
qed

lemma mem_updates:
  assumes "inj_on (\<lambda>cs. update_text dialect t cs pk) (set (subseqs cols))"
  shows "updates (mem_db dialect t cols pk key parse) t cols pk key parse no_failures (\<lambda>d. mset (mem_rows cols pk key d))"
  unfolding updates_def
proof (intro allI ballI impI, goal_cases)
  case (1 d i cs vs)
  let ?d = "mem_rows cols pk key d"
  let ?f = "\<lambda>k r. if with_key cols pk key k r then changed_row cols cs vs r else r"
  have "find (\<lambda>cs'. update_text dialect t cs pk = update_text dialect t cs' pk) (subseqs cols) = Some cs"
    using find_text [OF assms 1(1)] by simp
  then have run: "\<exists>out. memdb_exec dialect t cols pk key parse (update_text dialect t cs pk) (vs @ [VString i]) d =
      (case parse i of None \<Rightarrow> (Inl ''invalid input syntax'', ?d) | Some k \<Rightarrow> (Inr (out k), map (?f k) ?d))"
    by (intro exI [of _ "\<lambda>k. \<lparr>LastInsertId = Inr 0, RowsAffected = Inr (int (length (filter (with_key cols pk key k) ?d)))\<rparr>"])
      (simp add: memdb_exec_def find_none statements_differ [symmetric] key_arg_def Let_def split: option.split)
  have none: "map_of (zip cs vs) pk = None" using 1(2) by simp
  have cell: "cell cols (changed_row cols cs vs r) pk = cell cols r pk" if "length r = length cols" for r
    using that
  proof (induction r cols rule: list_induct2)
    case (Cons v r c cols)
    then show ?case using none by (cases "c = pk") (simp_all add: cell_def changed_row_def)
  qed (simp add: changed_row_def cell_def)
  have moved: "mem_rows cols pk key (map (?f k) ?d) = map (?f k) ?d" for k
  proof (rule mem_rows_id)
    show "\<forall>r \<in> set (map (?f k) ?d). length r = length cols" using mem_rows_good(1) by (fastforce simp: changed_row_def)
    have "map (\<lambda>r. key (cell cols r pk)) (map (?f k) ?d) = map (\<lambda>r. key (cell cols r pk)) ?d"
      using mem_rows_good(1) [of cols pk key d] cell by auto
    then show "distinct (map (\<lambda>r. key (cell cols r pk)) (map (?f k) ?d))" using mem_rows_good(2) by metis
  qed
  have same: "mem_rows cols pk key ?d = ?d" using mem_rows_good mem_rows_id by metis
  show ?case
  proof (cases "parse i")
    case None
    then show ?thesis using run same by (auto simp: mem_db_def)
  next
    case (Some k)
    then show ?thesis using run moved by (auto simp: mem_db_def)
  qed
qed

lemma mem_sql_table:
  assumes "distinct (map (insert_text dialect t) (subseqs cols))" "distinct (map (\<lambda>cs. update_text dialect t cs pk) (subseqs cols))"
  shows "sql_table (mem_db dialect t cols pk key parse) t cols pk key parse no_failures (\<lambda>d. mset (mem_rows cols pk key d))"
  unfolding sql_table_def
proof (intro conjI allI)
  show "inserts (mem_db dialect t cols pk key parse) t cols pk key no_failures (\<lambda>d. mset (mem_rows cols pk key d))"
    using assms(1) by (intro mem_inserts) (simp add: distinct_map)
  show "updates (mem_db dialect t cols pk key parse) t cols pk key parse no_failures (\<lambda>d. mset (mem_rows cols pk key d))"
    using assms(2) by (intro mem_updates) (simp add: distinct_map)
qed (fact mem_shape mem_selects mem_deletes)+

section \<open>Sequences of requests\<close>

lemma table_step_no_nil:
  assumes "no_nil T" "body_ok e q" "\<forall>r \<in># T. r \<noteq> []"
  shows "no_nil (snd (table_step e key parse failed q T))"
proof (cases q)
  case (UpdateReq i vs)
  have "VNil \<notin> set (if keyed key k r then hd r # tl vs else r)" if "r \<in># T" for r k
  proof -
    have "VNil \<notin> set r" "r \<noteq> []" using assms(1,3) that by (auto simp: no_nil_def)
    moreover have "VNil \<notin> set (tl vs)" using assms(2) UpdateReq by (cases vs) auto
    ultimately show ?thesis by (cases r) auto
  qed
  then have "\<forall>r \<in># image_mset (\<lambda>r. if keyed key k r then hd r # tl vs else r) T. VNil \<notin> set r" for k
    by (simp only: set_image_mset ball_simps) blast
  then show ?thesis using UpdateReq assms(1) by (simp add: no_nil_def split: option.split)
qed (use assms in \<open>auto simp: no_nil_def Let_def split: option.split\<close>)

lemma serve_implements:
  assumes "crud_over db st e key parse fails rows" "primaryKey e = ''id''" "body_ok e q" "no_nil (rows d)" "serve_crud db e q d = (a, d')"
  shows "(answer_of a, rows d') = table_step e key parse (request_fails db e fails q d) q (rows d)"
proof (cases q)
  case (CreateReq vs)
  then show ?thesis using create_implements [OF assms(1)] assms(3,5) by simp
next
  case GetAllReq
  then show ?thesis using getall_implements [OF assms(1,4)] assms(5) by auto
next
  case (GetReq i)
  have "crud_param (key_context e i (Inl '''')) ''id'' = i" using assms(2) by (simp add: crud_param_def key_context_def)
  then show ?thesis using get_finds [OF assms(1)] GetReq assms(5) by (auto simp: Let_def)
next
  case (UpdateReq i vs)
  then have "length vs = length (ent_fields e)" "crud_Update db e (key_context e i (Inr vs)) d = (a, d')" using assms(3,5) by simp_all
  then show ?thesis using update_implements [OF assms(1)] UpdateReq by blast
next
  case (DeleteReq i)
  have "crud_param (key_context e i (Inl '''')) ''id'' = i" using assms(2) by (simp add: crud_param_def key_context_def)
  then show ?thesis using delete_removes [OF assms(1)] DeleteReq assms(5) by (metis serve_crud.simps(5))
qed

lemma over_rows_nonempty: "crud_over db st e key parse fails rows \<Longrightarrow> \<forall>r \<in># rows d. r \<noteq> []"
  using scanned_entity(1) rows_keyed(1) unfolding crud_over_def sql_table_def by (metis list.size(3) nat.distinct(1))

lemma requests_implement:
  assumes "crud_over db st e key parse fails rows" "primaryKey e = ''id''" "list_all (body_ok e) qs" "no_nil (rows d)"
    and "serve_requests db e qs d = (as, d')"
  shows "(map answer_of as, rows d') = table_run e key parse (with_failures db e fails qs d) (rows d)"
  using assms(3-5)
proof (induction qs arbitrary: d as)
  case (Cons q qs)
  obtain a d1 where a: "serve_crud db e q d = (a, d1)" by fastforce
  obtain as' where as: "serve_requests db e qs d1 = (as', d')" "as = a # as'" using Cons.prems(3) a by (auto split: prod.splits)
  have step: "table_step e key parse (request_fails db e fails q d) q (rows d) = (answer_of a, rows d1)"
    using serve_implements [OF assms(1,2) _ _ a] Cons.prems(1,2) by simp
  then have "no_nil (rows d1)"
    using table_step_no_nil [of "rows d" e q key parse "request_fails db e fails q d"] Cons.prems(1,2) over_rows_nonempty [OF assms(1)] by simp
  then have "(map answer_of as', rows d') = table_run e key parse (with_failures db e fails qs d1) (rows d1)" using Cons.IH as Cons.prems(1) by simp
  then show ?case using step as a by (auto split: prod.splits)
qed simp

text \<open>Two entities over the database in memory.\<close>

lemma user_over:
  "crud_over (mem_db ''postgres'' ''user'' [''id'', ''name''] ''id'' int_key int_param) user_struct user_entity int_key int_param no_failures
     (\<lambda>d. mset (mem_rows [''id'', ''name''] ''id'' int_key d))"
proof -
  have "scanEntity (PointerToStruct user_struct) = Ret user_entity" by code_simp
  moreover have "plain_entity user_entity" "\<not> hasAutoIncrementID (constraints user_entity)" by code_simp+
  moreover have "distinct (map (insert_text ''postgres'' ''user'') (subseqs [''id'', ''name'']))"
    "distinct (map (\<lambda>cs. update_text ''postgres'' ''user'' cs ''id'') (subseqs [''id'', ''name'']))" by code_simp+
  note mem_sql_table [OF this, of int_key int_param]
  moreover have "columns user_entity = [''id'', ''name'']" "tableName user_entity = ''user''" "primaryKey user_entity = ''id''" by code_simp+
  ultimately show ?thesis by (simp only: crud_over_def simp_thms)
qed

lemma product_over:
  "crud_over (mem_db ''postgres'' ''product'' [''sku'', ''price''] ''sku'' text_key Some) product_struct product_entity text_key Some no_failures
     (\<lambda>d. mset (mem_rows [''sku'', ''price''] ''sku'' text_key d))"
proof -
  have "scanEntity (PointerToStruct product_struct) = Ret product_entity" by code_simp
  moreover have "plain_entity product_entity" "\<not> hasAutoIncrementID (constraints product_entity)" by code_simp+
  moreover have "distinct (map (insert_text ''postgres'' ''product'') (subseqs [''sku'', ''price'']))"
    "distinct (map (\<lambda>cs. update_text ''postgres'' ''product'' cs ''sku'') (subseqs [''sku'', ''price'']))" by code_simp+
  note mem_sql_table [OF this, of text_key Some]
  moreover have "columns product_entity = [''sku'', ''price'']" "tableName product_entity = ''product''" "primaryKey product_entity = ''sku''"
    by code_simp+
  ultimately show ?thesis by (simp only: crud_over_def simp_thms)
qed

text \<open>
  C24. The generated handlers are a table. Scope: an entity with at least two fields, all exported, with distinct column
  names, none tagged \<^verbatim>\<open>auto_increment\<close>, and a first field, the key, called \<open>id\<close>; requests whose bodies decode, without nil
  interfaces; rows whose values the fields can hold. Over a database that executes the statements as documented,
  any sequence of requests to the handlers is answered as by a table of rows with unique keys: creation stores the row in the
  columns of its fields unless a required value is blank or the key is taken, a read returns the stored row, an update
  replaces all but the key of the row with the key of the path, a deletion removes it and reports an unknown key. The text of
  the path is compared with a key as the database converts it (\<open>07\<close> is 7 for integers), and a text the database refuses, like
  any other failure of the statement, is answered with an error and changes nothing.
\<close>

theorem crud_implements_table:
  assumes "crud_over db st e key parse fails rows" and "primaryKey e = ''id''"
    and "list_all (body_ok e) qs" and "no_nil (rows d)"
  shows "case serve_requests db e qs d of (as, d') \<Rightarrow>
    (map answer_of as, rows d') = table_run e key parse (with_failures db e fails qs d) (rows d)"
  using requests_implement [OF assms] by (cases "serve_requests db e qs d") simp

theorem crud_implements_table_witness:
  "case serve_requests (mem_db ''postgres'' ''user'' [''id'', ''name''] ''id'' int_key int_param) user_entity
          [CreateReq [VInt 7, VString ''Ann''], CreateReq [VInt 7, VString ''Bob''], CreateReq [VInt 8, VString ''''],
           UpdateReq ''07'' [VInt 9, VString ''Eve''], GetReq ''7'', DeleteReq ''8'', DeleteReq ''x''] [] of
     (as, d') \<Rightarrow> map answer_of as = [ACreated (VInt 7), ARefused, ARejected, AUpdated ''07'',
                                   AOne {#[VInt 7, VString ''Eve'']#}, ANotFound, ARefused] \<and>
                mset (mem_rows [''id'', ''name''] ''id'' int_key d') = {#[VInt 7, VString ''Eve'']#}"
proof -
  have pk: "primaryKey user_entity = ''id''" by code_simp
  let ?qs = "[CreateReq [VInt 7, VString ''Ann''], CreateReq [VInt 7, VString ''Bob''], CreateReq [VInt 8, VString ''''],
           UpdateReq ''07'' [VInt 9, VString ''Eve''], GetReq ''7'', DeleteReq ''8'', DeleteReq ''x'']"
  have ok: "list_all (body_ok user_entity) ?qs" by code_simp
  have rows: "mem_rows [''id'', ''name''] ''id'' int_key [] = []" by code_simp
  have complete: "complete_row user_entity [VInt 7, VString ''Ann'']" "complete_row user_entity [VInt 7, VString ''Bob'']"
    "\<not> complete_row user_entity [VInt 8, VString '''']" by code_simp+
  have parse: "int_param ''07'' = Some (Some 7)" "int_param ''7'' = Some (Some 7)" "int_param ''8'' = Some (Some 8)" "int_param ''x'' = None"
    by code_simp+
  have healthy: "with_failures db e no_failures qs d = map (\<lambda>q. (q, False)) qs" for db :: "goval list list sql_db" and e qs d
  proof (induction qs arbitrary: d)
    case (Cons q qs)
    then show ?case by (cases q) simp_all
  qed simp
  have "table_run user_entity int_key int_param (map (\<lambda>q. (q, False)) ?qs) {#} = ([ACreated (VInt 7), ARefused, ARejected, AUpdated ''07'',
           AOne {#[VInt 7, VString ''Eve'']#}, ANotFound, ARefused], {#[VInt 7, VString ''Eve'']#})"
    using complete parse by (simp add: keyed_def int_key_def matching_def)
  then show ?thesis
    using crud_implements_table [OF user_over pk ok, of "[]"] unfolding healthy by (auto simp: rows no_nil_def split: prod.splits)
qed

text \<open>
  C39. With a key of another name, reading and deleting by key never find a row: the two handlers take the path
  parameter \<open>id\<close>, which the route \<^verbatim>\<open>/path/{key}\<close> does not bind, and so look for the empty text. Whatever key is asked for, the read
  fails and the deletion reports an unknown entity, or fails if the database refuses the empty text or the statement, and
  removes nothing, unless a row has the key the empty text stands for.
\<close>

theorem other_key_never_found:
  assumes "crud_over db st e key parse fails rows" and "primaryKey e \<noteq> ''id''"
    and "\<forall>r \<in># rows d. parse '''' \<noteq> Some (key (hd r))"
  shows "answer_of (fst (serve_crud db e (GetReq i) d)) = ARefused \<and>
         (case serve_crud db e (DeleteReq i) d of (a, d') \<Rightarrow>
            answer_of a = (if parse '''' = None \<or> request_fails db e fails (DeleteReq '''') d then ARefused else ANotFound) \<and> rows d' = rows d)"
proof -
  have param: "crud_param (key_context e i (Inl '''')) ''id'' = ''''" using assms(2) by (simp add: crud_param_def key_context_def)
  have none: "filter_mset (keyed key k) (rows d) = {#}" "filter_mset (\<lambda>r. \<not> keyed key k r) (rows d) = rows d" if "parse '''' = Some k" for k
    using assms(3) that by (auto simp: filter_mset_eq_conv keyed_def)
  have "matching (\<lambda>r k. keyed key k r) parse '''' (rows d) = {#}" using none(1) by (simp add: matching_def split: option.split)
  then have get: "answer_of (fst (serve_crud db e (GetReq i) d)) = ARefused" using get_finds [OF assms(1) param] by simp
  obtain a d' where run: "crud_Delete db e (key_context e i (Inl '''')) d = (a, d')" by fastforce
  have "(answer_of a, rows d') = (if parse '''' = None \<or> request_fails db e fails (DeleteReq '''') d then ARefused else ANotFound, rows d)"
    using delete_removes [OF assms(1) param run] none by (cases "parse ''''") auto
  with get run show ?thesis by simp
qed

theorem other_key_never_found_witness:
  "answer_of (fst (serve_crud (mem_db ''postgres'' ''product'' [''sku'', ''price''] ''sku'' text_key Some) product_entity
     (GetReq ''A1'') [[VString ''A1'', VString ''12'']])) = ARefused"
proof -
  have pk: "primaryKey product_entity \<noteq> ''id''" by code_simp
  have rows: "mem_rows [''sku'', ''price''] ''sku'' text_key [[VString ''A1'', VString ''12'']] = [[VString ''A1'', VString ''12'']]" by code_simp
  show ?thesis
    using other_key_never_found [OF product_over pk, of "[[VString ''A1'', VString ''12'']]" "''A1''"] by (simp add: rows text_key_def)
qed

end
