(* ===== verification/Zip_Archive.thy ===== *)
theory Zip_Archive
  imports Static_Files "HOL-Library.AList"
begin

text \<open>
  Zip archives of uploads, \<^verbatim>\<open>file/zip.go\<close>: reading an archive into memory and writing its files below a directory. The parsed
  archive is a parameter, a list of entries whose readers deliver bytes and then end or fail; the operating system
  decides the outcome of each operation on files. No operation leaves the directory, every file of a parsed archive is written
  to its place, and no file in memory is longer than the limit.
\<close>

section \<open>Archives\<close>

record zip_file =
  zf_name :: string
  zf_content :: string
  zf_size :: nat
  zf_isDir :: bool

text \<open>A reader delivers its data, then end of file or an error. \<^verbatim>\<open>zip.File.Open\<close> may fail.\<close>

record zip_reader =
  rd_data :: string
  rd_err :: "string option"

record zip_entry =
  ze_name :: string
  ze_open :: "string + zip_reader"
  ze_size :: nat
  ze_isDir :: bool

datatype zip_error = ErrZip string | ErrMaxFileSize | ErrPathTraversal string

definition maxFileSize :: nat where
  "maxFileSize = 104857600"

definition isUnsafePath :: "string \<Rightarrow> string \<Rightarrow> bool" where
  "isUnsafePath cleanName originalName =
     (if HasPrefix cleanName ''/'' \<or> cleanName = ''.'' \<or> cleanName = ''..'' \<or> HasPrefix cleanName ''../'' then True
      else length originalName \<ge> 2 \<and> originalName ! 1 = CHR '':'' \<or> HasPrefix originalName [CHR 0x5C, CHR 0x5C])"

text \<open>\<^verbatim>\<open>io.CopyN\<close>: the bytes copied, and the error if fewer than the bound were delivered; \<open>None\<close> inside is the end of file.\<close>

definition CopyN :: "zip_reader \<Rightarrow> nat \<Rightarrow> string \<times> string option option" where
  "CopyN f n = (take n (rd_data f), if length (rd_data f) \<ge> n then None else Some (rd_err f))"

definition copyToBuffer :: "zip_reader \<Rightarrow> nat \<Rightarrow> zip_error + string" where
  "copyToBuffer f sz =
     (if sz > maxFileSize then Inl ErrMaxFileSize
      else case CopyN f maxFileSize of
             (buf, Some (Some err)) \<Rightarrow> if length buf < sz then Inl (ErrZip err) else Inr buf
           | (buf, _) \<Rightarrow> Inr buf)"

fun zip_loop :: "zip_entry list \<Rightarrow> (string \<times> zip_file) list \<Rightarrow> zip_error + (string \<times> zip_file) list" where
  "zip_loop [] files = Inr files"
| "zip_loop (zrf # rest) files =
     (let cleanName = Clean (ze_name zrf) in
      if isUnsafePath cleanName (ze_name zrf) then Inl (ErrPathTraversal (ze_name zrf))
      else case ze_open zrf of
             Inl err \<Rightarrow> Inl (ErrZip err)
           | Inr f \<Rightarrow>
               (case copyToBuffer f (ze_size zrf) of
                  Inl err \<Rightarrow> Inl err
                | Inr buf \<Rightarrow> zip_loop rest (AList.update cleanName
                    \<lparr>zf_name = cleanName, zf_content = buf, zf_size = ze_size zrf, zf_isDir = ze_isDir zrf\<rparr> files)))"

text \<open>The argument is what \<^verbatim>\<open>zip.NewReader\<close> makes of the content.\<close>

definition NewZip :: "string + zip_entry list \<Rightarrow> zip_error + (string \<times> zip_file) list" where
  "NewZip zipReader = (case zipReader of Inl err \<Rightarrow> Inl (ErrZip err) | Inr zfs \<Rightarrow> zip_loop zfs [])"

section \<open>Writing the files\<close>

datatype fs_op = MkdirAll string | CreateFile string | CopyTo string string

fun op_path :: "fs_op \<Rightarrow> string" where
  "op_path (MkdirAll p) = p"
| "op_path (CreateFile p) = p"
| "op_path (CopyTo p c) = p"

text \<open>The operating system: the error of an operation, if any, after the operations before it. A list of operations runs up to the
  first failure; the result is what was tried and the error.\<close>

type_synonym filesystem = "fs_op list \<Rightarrow> fs_op \<Rightarrow> string option"

fun run_ops :: "filesystem \<Rightarrow> fs_op list \<Rightarrow> fs_op list \<Rightarrow> fs_op list \<times> zip_error option" where
  "run_ops fs tried [] = (tried, None)"
| "run_ops fs tried (x # xs) =
     (case fs tried x of Some err \<Rightarrow> (tried @ [x], Some (ErrZip err)) | None \<Rightarrow> run_ops fs (tried @ [x]) xs)"

definition filepath_Dir :: "string \<Rightarrow> string" where
  "filepath_Dir p = Clean (rev (dropWhile (\<lambda>c. c \<noteq> sl) (rev p)))"

definition file_ops :: "string \<Rightarrow> zip_file \<Rightarrow> fs_op list" where
  "file_ops destPath zf =
     (if zf_isDir zf then [MkdirAll destPath]
      else [MkdirAll (filepath_Dir destPath), CreateFile destPath, CopyTo destPath (zf_content zf)])"

fun copies_loop :: "filesystem \<Rightarrow> string \<Rightarrow> string \<Rightarrow> fs_op list \<Rightarrow> zip_file list \<Rightarrow> fs_op list \<times> zip_error option" where
  "copies_loop fs dest destPrefix tried [] = (tried, None)"
| "copies_loop fs dest destPrefix tried (zf # rest) =
     (let destPath = Clean (filepath_Join [dest, zf_name zf]) in
      if \<not> HasPrefix destPath destPrefix \<and> destPath \<noteq> dest then (tried, Some (ErrPathTraversal (zf_name zf)))
      else case run_ops fs tried (file_ops destPath zf) of
             (tried', Some err) \<Rightarrow> (tried', Some err)
           | (tried', None) \<Rightarrow> copies_loop fs dest destPrefix tried' rest)"

text \<open>The files are visited in the zfs of an iteration over the map, which is an argument.\<close>

definition CreateLocalCopies :: "filesystem \<Rightarrow> zip_file list \<Rightarrow> string \<Rightarrow> fs_op list \<times> zip_error option" where
  "CreateLocalCopies fs files dest0 = (let dest = Clean dest0 in copies_loop fs dest (dest @ ''/'') [] files)"

text \<open>A path inside a directory: the directory itself, or plain segments below it.\<close>

definition inside_dir :: "string \<Rightarrow> string \<Rightarrow> bool" where
  "inside_dir dir p = (p = dir \<or> (\<exists>ws. ws \<noteq> [] \<and> list_all plain_seg ws \<and> p = dir @ ''/'' @ Join ws ''/''))"

section \<open>Relative canonical paths\<close>

text \<open>The segments \<^verbatim>\<open>Clean\<close> returns: double dots in front, if the path is relative, then plain segments.\<close>

definition canon_segs :: "bool \<Rightarrow> string list \<Rightarrow> bool" where
  "canon_segs rooted ss = (\<exists>k ps. ss = replicate k ''..'' @ ps \<and> list_all plain_seg ps \<and> (rooted \<longrightarrow> k = 0))"

lemma canon_append: "canon_segs b ss \<Longrightarrow> list_all plain_seg ws \<Longrightarrow> canon_segs b (ss @ ws)"
  by (fastforce simp: canon_segs_def)

lemma clean_segs_canon:
  "canon_segs b (rev out) \<Longrightarrow> \<forall>s \<in> set ss. sl \<notin> set s \<Longrightarrow> canon_segs b (clean_segs b out ss)"
proof (induction ss arbitrary: out)
  case (Cons s ss)
  obtain k ps where out: "rev out = replicate k ''..'' @ ps" "list_all plain_seg ps" "b \<longrightarrow> k = 0"
    using Cons.prems(1) by (auto simp: canon_segs_def)
  have rest: "\<forall>s \<in> set ss. sl \<notin> set s" "sl \<notin> set s" using Cons.prems(2) by auto
  consider "s = '''' \<or> s = ''.''" | "s = ''..''" "out = []" | t ts where "s = ''..''" "out = t # ts" | "plain_seg s"
    using rest by (cases out) (auto simp: plain_seg_def)
  then show ?case
  proof cases
    case 1
    then show ?thesis using Cons.IH [OF Cons.prems(1) rest(1)] by auto
  next
    case 2
    have "canon_segs b (rev (if b then [] else [''..'']))"
      by (auto simp: canon_segs_def intro: exI [of _ 0] exI [of _ 1] exI [of _ "[]"])
    from Cons.IH [OF this rest(1)] show ?thesis using 2 by simp
  next
    case (3 t ts)
    show ?thesis
    proof (cases "ps = []")
      case True
      then have dots: "rev out = replicate k ''..''" "\<not> b" using out 3 by auto
      have "t \<in> set (rev out)" using 3 by simp
      then have "t = ''..''" unfolding dots by simp
      have "rev (''..'' # out) = replicate (Suc k) ''..'' @ []" unfolding rev.simps dots using replicate_append_same by simp
      then have "canon_segs b (rev (''..'' # out))" unfolding canon_segs_def using dots(2) by (intro exI [of _ "Suc k"] exI [of _ "[]"]) simp
      from Cons.IH [OF this rest(1)] show ?thesis using 3 \<open>t = ''..''\<close> by simp
    next
      case False
      then obtain qs q where q: "ps = qs @ [q]" by (cases ps rule: rev_cases) auto
      then have "t = q" "rev ts = replicate k ''..'' @ qs" using out(1) 3(2) by auto
      moreover have "plain_seg q" "list_all plain_seg qs" using out(2) q by simp_all
      ultimately have t: "t \<noteq> ''..''" "canon_segs b (rev ts)" using out(3) by (auto simp: plain_seg_def canon_segs_def)
      from Cons.IH [OF t(2) rest(1)] show ?thesis using 3 t(1) by simp
    qed
  next
    case 4
    then have "canon_segs b (rev (s # out))" using canon_append [OF Cons.prems(1), of "[s]"] by simp
    from Cons.IH [OF this rest(1)] show ?thesis using 4 by (simp add: plain_seg_def)
  qed
qed simp

lemma clean_segs_dots: "clean_segs False (replicate k ''..'') (replicate n ''..'' @ ss) = clean_segs False (replicate (k + n) ''..'') ss"
proof (induction n arbitrary: k)
  case (Suc n)
  have "clean_segs False (replicate k ''..'') (''..'' # replicate n ''..'' @ ss) = clean_segs False (replicate (Suc k) ''..'') (replicate n ''..'' @ ss)"
    by (cases k) simp_all
  then show ?case using Suc [of "Suc k"] by simp
qed simp

lemma clean_segs_id: "canon_segs b ss \<Longrightarrow> clean_segs b [] ss = ss"
proof -
  assume "canon_segs b ss"
  then obtain k ps where ss: "ss = replicate k ''..'' @ ps" "list_all plain_seg ps" "b \<longrightarrow> k = 0" by (auto simp: canon_segs_def)
  show ?thesis
  proof (cases b)
    case True
    then show ?thesis using ss clean_segs_plain [of ss b "[]"] by simp
  next
    case False
    then show ?thesis using ss clean_segs_dots [of 0 k ps] clean_segs_plain [of ps False "replicate k ''..''"] by simp
  qed
qed


text \<open>The path with canonical segments: rooted or relative, with at least one segment.\<close>

definition path_of :: "bool \<Rightarrow> string list \<Rightarrow> string" where
  "path_of rooted ss = (if rooted then ''/'' else []) @ Join ss ''/''"

lemma canon_no_slash: "canon_segs b ss \<Longrightarrow> \<forall>s \<in> set ss. sl \<notin> set s \<and> s \<noteq> [] \<and> s \<noteq> ''.''"
proof
  fix s
  assume "canon_segs b ss" "s \<in> set ss"
  then have "s = ''..'' \<or> plain_seg s" by (auto simp: canon_segs_def list_all_iff)
  then show "sl \<notin> set s \<and> s \<noteq> [] \<and> s \<noteq> ''.''" by (auto simp: plain_seg_def)
qed

lemma Join_head: "ss \<noteq> [] \<Longrightarrow> hd ss \<noteq> [] \<Longrightarrow> Join ss sep \<noteq> [] \<and> hd (Join ss sep) = hd (hd ss)"
  by (cases "(ss, sep)" rule: Join.cases) auto

lemma relative_head:
  assumes "canon_segs b ss" "ss \<noteq> []"
  shows "Join ss ''/'' \<noteq> []" "hd (Join ss ''/'') \<noteq> sl"
proof -
  have h: "hd ss \<noteq> []" "sl \<notin> set (hd ss)" using canon_no_slash [OF assms(1)] assms(2) hd_in_set by blast+
  then show "Join ss ''/'' \<noteq> []" using Join_head assms(2) by blast
  show "hd (Join ss ''/'') \<noteq> sl" using h Join_head [of ss "''/''"] assms(2) by (metis hd_in_set)
qed

lemma Clean_shape: "\<exists>b ss. canon_segs b ss \<and> Clean p = (if \<not> b \<and> ss = [] then ''.'' else path_of b ss)"
proof (cases "p = []")
  case True
  then show ?thesis by (intro exI [of _ False] exI [of _ "[]"]) (auto simp: Clean_def canon_segs_def intro: exI [of _ 0])
next
  case False
  let ?b = "hd p = sl" and ?ss = "clean_segs (hd p = sl) [] (Split p sl)"
  have "canon_segs ?b (rev [])" by (auto simp: canon_segs_def intro: exI [of _ 0])
  then have c: "canon_segs ?b ?ss" by (rule clean_segs_canon) (auto dest: Split_no_sep)
  moreover have "Clean p = (if \<not> ?b \<and> ?ss = [] then ''.'' else path_of ?b ?ss)"
    using False relative_head(1) [OF c] by (cases ?b; cases "?ss = []") (auto simp: Clean_def Let_def path_of_def)
  ultimately show ?thesis by blast
qed

lemma Clean_path: "canon_segs b ss \<Longrightarrow> ss \<noteq> [] \<Longrightarrow> Clean (path_of b ss) = path_of b ss"
proof -
  assume c: "canon_segs b ss" and ne: "ss \<noteq> []"
  have split: "Split (Join ss ''/'') sl = ss" using canon_no_slash [OF c] ne by (intro Split_Join) auto
  note clean_segs_id [OF c] relative_head [OF c ne]
  then show ?thesis by (cases b) (auto simp: Clean_def path_of_def Let_def split)
qed

lemma path_of_append: "ss \<noteq> [] \<Longrightarrow> ws \<noteq> [] \<Longrightarrow> path_of b (ss @ ws) = path_of b ss @ ''/'' @ Join ws ''/''"
  by (simp add: path_of_def Join_append)

text \<open>A safe name is a sequence of plain segments.\<close>

lemma safe_name:
  assumes "\<not> isUnsafePath (Clean n) n"
  shows "\<exists>ws. ws \<noteq> [] \<and> list_all plain_seg ws \<and> Clean n = Join ws ''/''"
proof -
  obtain b ss where c: "canon_segs b ss" and e: "Clean n = (if \<not> b \<and> ss = [] then ''.'' else path_of b ss)" using Clean_shape by blast
  have b: "\<not> b" using assms e by (auto simp: isUnsafePath_def path_of_def HasPrefix_def split: if_splits)
  have ne: "ss \<noteq> []" using assms e b by (auto simp: isUnsafePath_def split: if_splits)
  obtain k ps where ss: "ss = replicate k ''..'' @ ps" "list_all plain_seg ps" using c by (auto simp: canon_segs_def)
  have join: "Clean n = Join ss ''/''" using e b ne by (simp add: path_of_def)
  have "k = 0"
  proof (rule ccontr)
    assume "k \<noteq> 0"
    then obtain us where us: "ss = ''..'' # us" using ss(1) by (cases k) auto
    then have "Join ss ''/'' = ''..'' \<or> (\<exists>t. Join ss ''/'' = ''../'' @ t)" by (cases us) auto
    then show False using assms join by (auto simp: isUnsafePath_def HasPrefix_def split: if_splits)
  qed
  then show ?thesis using ss ne join by auto
qed

section \<open>Where files go\<close>

lemma clean_segs_end: "clean_segs b out (ss @ ['''']) = clean_segs b out ss"
  by (induction b out ss rule: clean_segs.induct) (auto split: list.splits)

text \<open>The path of a file below a directory that is neither the working directory nor the root.\<close>

lemma place:
  assumes "canon_segs b ss" "ss \<noteq> []" "ws \<noteq> []" "list_all plain_seg ws"
  shows "Clean (filepath_Join [path_of b ss, Join ws ''/'']) = path_of b (ss @ ws)"
    and "filepath_Dir (path_of b (ss @ ws)) = path_of b (ss @ butlast ws)"
proof -
  have c: "canon_segs b (ss @ ws)" by (rule canon_append [OF assms(1,4)])
  have "path_of b ss \<noteq> []" using relative_head(1) [OF assms(1,2)] by (simp add: path_of_def)
  then have "filepath_Join [path_of b ss, Join ws ''/''] = Clean (path_of b (ss @ ws))"
    using path_of_append [OF assms(2,3), of b] by simp
  then show "Clean (filepath_Join [path_of b ss, Join ws ''/'']) = path_of b (ss @ ws)"
    using Clean_path [OF c] assms(2) by simp
  obtain vs w where w: "ws = vs @ [w]" using assms(3) by (cases ws rule: rev_cases) auto
  have v: "canon_segs b (ss @ vs)" using canon_append [OF assms(1)] assms(4) w by simp
  have "sl \<notin> set w" using assms(4) w by (simp add: plain_seg_def)
  then have "rev (dropWhile (\<lambda>c. c \<noteq> sl) (rev (path_of b (ss @ ws)))) = path_of b (ss @ vs) @ ''/''"
    using path_of_append [of "ss @ vs" "[w]" b] assms(2) w by (simp add: dropWhile_append)
  moreover have "Split (Join (ss @ vs) ''/'' @ ''/'') sl = (ss @ vs) @ ['''']"
    using Split_Join [of "(ss @ vs) @ ['''']" sl] canon_no_slash [OF v] assms(2) Join_append [of "ss @ vs" "['''']"] by simp
  then have "Clean (path_of b (ss @ vs) @ ''/'') = path_of b (ss @ vs)"
    using relative_head [OF v] assms(2) clean_segs_end [of b "[]" "ss @ vs"] clean_segs_id [OF v]
    by (cases b) (auto simp: Clean_def path_of_def Let_def)
  ultimately show "filepath_Dir (path_of b (ss @ ws)) = path_of b (ss @ butlast ws)" using w by (simp add: filepath_Dir_def)
qed

lemma run_ops_tried: "set (fst (run_ops fs tried xs)) \<subseteq> set tried \<union> set xs"
  by (induction xs arbitrary: tried) (fastforce split: option.splits)+

lemma run_ops_ok: "(\<And>h x. fs h x = None) \<Longrightarrow> run_ops fs tried xs = (tried @ xs, None)"
  by (induction xs arbitrary: tried) auto

lemma copies_loop_step:
  assumes "canon_segs b ss" "ss \<noteq> []" "ws \<noteq> []" "list_all plain_seg ws" "zf_name zf = Join ws ''/''"
  shows "copies_loop fs (path_of b ss) (path_of b ss @ ''/'') tried (zf # rest) =
           (case run_ops fs tried (file_ops (path_of b ss @ ''/'' @ zf_name zf) zf) of
              (tried', Some err) \<Rightarrow> (tried', Some err)
            | (tried', None) \<Rightarrow> copies_loop fs (path_of b ss) (path_of b ss @ ''/'') tried' rest)"
    and "\<forall>x \<in> set (file_ops (path_of b ss @ ''/'' @ zf_name zf) zf). inside_dir (path_of b ss) (op_path x)"
proof -
  have path: "path_of b ss @ ''/'' @ zf_name zf = path_of b (ss @ ws)" using path_of_append [OF assms(2,3)] assms(5) by simp
  have "Clean (filepath_Join [path_of b ss, zf_name zf]) = path_of b ss @ ''/'' @ zf_name zf"
    using place(1) [OF assms(1-4)] path assms(5) by simp
  moreover have "HasPrefix (path_of b ss @ ''/'' @ zf_name zf) (path_of b ss @ ''/'')" by (simp add: HasPrefix_def)
  ultimately show "copies_loop fs (path_of b ss) (path_of b ss @ ''/'') tried (zf # rest) =
           (case run_ops fs tried (file_ops (path_of b ss @ ''/'' @ zf_name zf) zf) of
              (tried', Some err) \<Rightarrow> (tried', Some err)
            | (tried', None) \<Rightarrow> copies_loop fs (path_of b ss) (path_of b ss @ ''/'') tried' rest)"
    by (simp only: copies_loop.simps Let_def simp_thms if_False)
  have "inside_dir (path_of b ss) (path_of b ss @ ''/'' @ zf_name zf)" using assms(3-5) by (auto simp: inside_dir_def)
  moreover have "inside_dir (path_of b ss) (path_of b (ss @ butlast ws))"
  proof (cases "butlast ws = []")
    case False
    moreover have "list_all plain_seg (butlast ws)" using assms(4) by (auto simp: list_all_iff dest: in_set_butlastD)
    ultimately show ?thesis using path_of_append [OF assms(2) False, of b] by (auto simp: inside_dir_def)
  qed (simp add: inside_dir_def)
  ultimately show "\<forall>x \<in> set (file_ops (path_of b ss @ ''/'' @ zf_name zf) zf). inside_dir (path_of b ss) (op_path x)"
    using place(2) [OF assms(1-4)] path by (simp add: file_ops_def)
qed

definition good_names :: "zip_file list \<Rightarrow> bool" where
  "good_names zfs = (\<forall>zf \<in> set zfs. \<exists>ws. ws \<noteq> [] \<and> list_all plain_seg ws \<and> zf_name zf = Join ws ''/'')"

lemma copies_inside:
  assumes "canon_segs b ss" "ss \<noteq> []"
  shows "good_names zfs \<Longrightarrow> \<forall>x \<in> set tried. inside_dir (path_of b ss) (op_path x) \<Longrightarrow>
           \<forall>x \<in> set (fst (copies_loop fs (path_of b ss) (path_of b ss @ ''/'') tried zfs)). inside_dir (path_of b ss) (op_path x)"
    and "good_names zfs \<Longrightarrow> (\<And>h x. fs h x = None) \<Longrightarrow>
           copies_loop fs (path_of b ss) (path_of b ss @ ''/'') tried zfs =
             (tried @ concat (map (\<lambda>zf. file_ops (path_of b ss @ ''/'' @ zf_name zf) zf) zfs), None)"
proof (induction zfs arbitrary: tried)
  case Nil
  { case 1 then show ?case by simp }
  { case 2 show ?case by simp }
next
  case (Cons zf zfs)
  {
    case 1
    then obtain ws where ws: "ws \<noteq> []" "list_all plain_seg ws" "zf_name zf = Join ws ''/''" and rest: "good_names zfs" by (auto simp: good_names_def)
    note step = copies_loop_step [OF assms ws]
    obtain tried' r where run: "run_ops fs tried (file_ops (path_of b ss @ ''/'' @ zf_name zf) zf) = (tried', r)" by fastforce
    have "\<forall>x \<in> set tried'. inside_dir (path_of b ss) (op_path x)"
      using run_ops_tried [of fs tried "file_ops (path_of b ss @ ''/'' @ zf_name zf) zf"] run 1(2) step(2) by auto
    then show ?case using Cons.IH(1) [OF rest, of tried'] step(1) [of fs tried zfs] run by (cases r) simp_all
  }
  {
    case 2
    then obtain ws where ws: "ws \<noteq> []" "list_all plain_seg ws" "zf_name zf = Join ws ''/''" and rest: "good_names zfs" by (auto simp: good_names_def)
    show ?case using copies_loop_step(1) [OF assms ws, of fs tried zfs] run_ops_ok [of fs, OF 2(2)] Cons.IH(2) [OF rest 2(2)] by simp
  }
qed

text \<open>The two directories in which nothing is ever written.\<close>

lemma copies_refused:
  assumes "dest = ''.'' \<or> dest = ''/''" "good_names (zf # zfs)"
  shows "copies_loop fs dest (dest @ ''/'') tried (zf # zfs) = (tried, Some (ErrPathTraversal (zf_name zf)))"
proof -
  obtain ws where ws: "ws \<noteq> []" "list_all plain_seg ws" "zf_name zf = Join ws ''/''" using assms(2) by (auto simp: good_names_def)
  have c: "canon_segs False ws" "canon_segs True ws" using ws(2) by (auto simp: canon_segs_def intro: exI [of _ 0])
  have split: "Split (Join ws ''/'') sl = ws" using canon_no_slash [OF c(1)] ws(1) by (intro Split_Join) auto
  note head = relative_head [OF c(1) ws(1)]
  have plain: "clean_segs b [] ws = ws" for b using clean_segs_plain [OF ws(2), of b "[]"] by simp
  have path: "Clean (filepath_Join [dest, zf_name zf]) = path_of (dest = ''/'') ws"
  proof (cases "dest = ''/''")
    case True
    have "Clean (''//'' @ Join ws ''/'') = path_of True ws" by (simp add: Clean_def Let_def split plain path_of_def)
    then show ?thesis using True ws(3) Clean_path [OF c(2) ws(1)] by simp
  next
    case False
    then have "dest = ''.''" using assms(1) by simp
    moreover have "Clean (''./'' @ Join ws ''/'') = path_of False ws" using head(1) by (simp add: Clean_def Let_def split plain path_of_def)
    ultimately show ?thesis using ws(3) Clean_path [OF c(1) ws(1)] by simp
  qed
  have "\<not> HasPrefix (path_of (dest = ''/'') ws) (dest @ ''/'') \<and> path_of (dest = ''/'') ws \<noteq> dest"
  proof (cases "dest = ''/''")
    case True
    then show ?thesis using head by (cases "Join ws ''/''") (auto simp: path_of_def HasPrefix_def)
  next
    case False
    then have "dest = ''.''" using assms(1) by simp
    moreover have "\<not> HasPrefix (Join ws ''/'') ''./''"
    proof
      assume "HasPrefix (Join ws ''/'') ''./''"
      then obtain t where "Join ws ''/'' = ''./'' @ t" by (metis HasPrefix_def append_take_drop_id)
      then have "ws = ''.'' # Split t sl" using split by simp
      then show False using ws(2) by (simp add: plain_seg_def)
    qed
    moreover have "Join ws ''/'' \<noteq> ''.''" using split ws(2) by (auto simp: plain_seg_def)
    ultimately show ?thesis by (simp add: path_of_def)
  qed
  then show ?thesis using path by (simp add: Let_def)
qed

section \<open>What is read\<close>

lemma copyToBuffer_takes: "copyToBuffer f sz = Inr buf \<Longrightarrow> buf = take maxFileSize (rd_data f)"
  by (auto simp: copyToBuffer_def CopyN_def split: if_splits option.splits)

text \<open>What a file of the archive in memory comes from.\<close>

definition read_from :: "zip_entry \<Rightarrow> zip_file \<Rightarrow> bool" where
  "read_from e zf =
     (\<exists>f. ze_open e = Inr f \<and> zf_name zf = Clean (ze_name e) \<and> \<not> isUnsafePath (Clean (ze_name e)) (ze_name e) \<and>
          zf_content zf = take maxFileSize (rd_data f) \<and> zf_isDir zf = ze_isDir e)"

lemma zip_loop_step:
  assumes "zip_loop (e # es) files = Inr files'"
  shows "\<exists>zf. read_from e zf \<and> zip_loop es (AList.update (Clean (ze_name e)) zf files) = Inr files'"
proof -
  have safe: "\<not> isUnsafePath (Clean (ze_name e)) (ze_name e)" using assms by (auto simp: Let_def)
  obtain f where f: "ze_open e = Inr f" using assms safe by (auto simp: Let_def split: sum.splits)
  obtain buf where buf: "copyToBuffer f (ze_size e) = Inr buf" using assms safe f by (auto simp: Let_def split: sum.splits)
  let ?zf = "\<lparr>zf_name = Clean (ze_name e), zf_content = buf, zf_size = ze_size e, zf_isDir = ze_isDir e\<rparr>"
  have "zip_loop es (AList.update (Clean (ze_name e)) ?zf files) = Inr files'" using assms safe f buf by (simp add: Let_def)
  moreover have "read_from e ?zf" using safe f copyToBuffer_takes [OF buf] by (simp add: read_from_def)
  ultimately show ?thesis by blast
qed

lemma zip_loop_reads:
  assumes "zip_loop es files = Inr files'" "distinct (map fst files)"
  shows "distinct (map fst files') \<and>
         (\<forall>k zf. map_of files' k = Some zf \<longrightarrow>
            (\<exists>es1 e es2. es = es1 @ e # es2 \<and> k = Clean (ze_name e) \<and> k \<notin> (Clean \<circ> ze_name) ` set es2 \<and> read_from e zf) \<or>
            map_of files k = Some zf \<and> k \<notin> (Clean \<circ> ze_name) ` set es)"
  using assms
proof (induction es arbitrary: files)
  case (Cons e es)
  obtain zf where zf: "read_from e zf" "zip_loop es (AList.update (Clean (ze_name e)) zf files) = Inr files'"
    using zip_loop_step [OF Cons.prems(1)] by blast
  have d: "distinct (map fst (AList.update (Clean (ze_name e)) zf files))" using Cons.prems(2) by (rule distinct_update)
  note IH = Cons.IH [OF zf(2) d]
  have "(\<exists>es1 e' es2. e # es = es1 @ e' # es2 \<and> k = Clean (ze_name e') \<and> k \<notin> (Clean \<circ> ze_name) ` set es2 \<and> read_from e' z) \<or>
        map_of files k = Some z \<and> k \<notin> (Clean \<circ> ze_name) ` set (e # es)" if "map_of files' k = Some z" for k z
  proof -
    from IH that consider es1 e' es2 where "es = es1 @ e' # es2" "k = Clean (ze_name e')" "k \<notin> (Clean \<circ> ze_name) ` set es2" "read_from e' z"
      | "map_of (AList.update (Clean (ze_name e)) zf files) k = Some z" "k \<notin> (Clean \<circ> ze_name) ` set es" by blast
    then show ?thesis
    proof cases
      case 1
      then have "e # es = (e # es1) @ e' # es2" by simp
      with 1 show ?thesis by blast
    next
      case 2
      show ?thesis
      proof (cases "k = Clean (ze_name e)")
        case True
        then have "z = zf" using 2(1) by (simp add: update_conv)
        then show ?thesis using True 2(2) zf(1) by (intro disjI1 exI [of _ "[]"] exI [of _ e] exI [of _ es]) simp
      next
        case False
        then show ?thesis using 2 by (simp add: update_conv)
      qed
    qed
  qed
  then show ?case using IH by blast
qed auto

text \<open>
  No file of an archive in memory is longer than the limit of 100 MiB, however long the data its reader would
  deliver: each file holds the data, up to the limit, of the last entry with its name, and its name is relative and
  leads to no parent directory.
\<close>

lemma zip_contents_bounded:
  assumes "NewZip (Inr es) = Inr files" and "map_of files k = Some zf"
  shows "length (zf_content zf) \<le> maxFileSize \<and>
         (\<exists>ws. ws \<noteq> [] \<and> list_all plain_seg ws \<and> zf_name zf = Join ws ''/'') \<and> zf_name zf = k \<and>
         (\<exists>es1 e es2 f. es = es1 @ e # es2 \<and> k = Clean (ze_name e) \<and> k \<notin> (Clean \<circ> ze_name) ` set es2 \<and>
            ze_open e = Inr f \<and> zf_content zf = take maxFileSize (rd_data f))"
proof -
  have "zip_loop es [] = Inr files" using assms(1) by (simp add: NewZip_def)
  then have "\<exists>es1 e es2. es = es1 @ e # es2 \<and> k = Clean (ze_name e) \<and> k \<notin> (Clean \<circ> ze_name) ` set es2 \<and> read_from e zf"
    using zip_loop_reads [of es "[]" files] assms(2) by simp
  then obtain es1 e es2
    where e: "es = es1 @ e # es2" "k = Clean (ze_name e)" "k \<notin> (Clean \<circ> ze_name) ` set es2" "read_from e zf" by blast
  from e(4) obtain f where f: "ze_open e = Inr f" "zf_content zf = take maxFileSize (rd_data f)" "zf_name zf = Clean (ze_name e)"
    "\<not> isUnsafePath (Clean (ze_name e)) (ze_name e)" by (auto simp: read_from_def)
  have "length (zf_content zf) \<le> maxFileSize" using f(2) by simp
  then show ?thesis using e f safe_name [OF f(4)] by metis
qed

text \<open>
  C10. Extracting an uploaded archive never leaves the directory. Whatever names its entries carry, and whatever fails, every
  directory made and file created is the target or plain segments below it, and when nothing fails each file is
  written to its name below the target. Into the working directory and the root nothing is ever written: the
  comparison of prefixes refuses every file there.
\<close>

theorem zip_extraction_confined:
  assumes "NewZip (Inr es) = Inr files" and "set zfs \<subseteq> set (map snd files)"
  shows "if Clean dest = ''.'' \<or> Clean dest = ''/''
         then fst (CreateLocalCopies fs zfs dest) = [] \<and> (zfs = [] \<or> snd (CreateLocalCopies fs zfs dest) \<noteq> None)
         else (\<forall>x \<in> set (fst (CreateLocalCopies fs zfs dest)). inside_dir (Clean dest) (op_path x)) \<and>
              ((\<forall>h x. fs h x = None) \<longrightarrow>
                 CreateLocalCopies fs zfs dest = (concat (map (\<lambda>zf. file_ops (Clean dest @ ''/'' @ zf_name zf) zf) zfs), None))"
proof -
  have loop: "zip_loop es [] = Inr files" using assms(1) by (simp add: NewZip_def)
  have good: "good_names zfs"
    unfolding good_names_def
  proof
    fix zf assume "zf \<in> set zfs"
    then obtain k where "(k, zf) \<in> set files" using assms(2) by auto
    then have "map_of files k = Some zf" using zip_loop_reads [OF loop] by simp
    then obtain e where "read_from e zf" using zip_loop_reads [OF loop] by fastforce
    then show "\<exists>ws. ws \<noteq> [] \<and> list_all plain_seg ws \<and> zf_name zf = Join ws ''/''" using safe_name by (auto simp: read_from_def)
  qed
  obtain b ss where c: "canon_segs b ss" and e: "Clean dest = (if \<not> b \<and> ss = [] then ''.'' else path_of b ss)" using Clean_shape by blast
  show ?thesis
  proof (cases "Clean dest = ''.'' \<or> Clean dest = ''/''")
    case True
    then show ?thesis using copies_refused [OF True] good by (cases zfs) (auto simp: CreateLocalCopies_def Let_def)
  next
    case False
    then have ne: "ss \<noteq> []" using e by (cases b) (auto simp: path_of_def)
    then have dest: "Clean dest = path_of b ss" using e by simp
    show ?thesis using copies_inside(1) [OF c ne good, of "[]" fs] copies_inside(2) [OF c ne good, of fs "[]"] False
      by (simp add: CreateLocalCopies_def dest Let_def)
  qed
qed

definition demo_archive :: "zip_entry list" where
  "demo_archive = [\<lparr>ze_name = ''a/../b.txt'', ze_open = Inr \<lparr>rd_data = ''hi'', rd_err = None\<rparr>, ze_size = 2, ze_isDir = False\<rparr>]"

lemma demo_archive_read:
  "NewZip (Inr demo_archive) = Inr [(''b.txt'', \<lparr>zf_name = ''b.txt'', zf_content = ''hi'', zf_size = 2, zf_isDir = False\<rparr>)]"
proof -
  have "Clean ''a/../b.txt'' = ''b.txt''" "\<not> isUnsafePath ''b.txt'' ''a/../b.txt''" by code_simp+
  then show ?thesis by (simp add: NewZip_def demo_archive_def copyToBuffer_def CopyN_def maxFileSize_def Let_def)
qed

lemma zip_contents_bounded_witness: "length ''hi'' \<le> maxFileSize"
  using zip_contents_bounded [OF demo_archive_read, of "''b.txt''"] by simp

theorem zip_extraction_confined_witness:
  "CreateLocalCopies (\<lambda>_ _. None) [\<lparr>zf_name = ''b.txt'', zf_content = ''hi'', zf_size = 2, zf_isDir = False\<rparr>] ''up/'' =
     ([MkdirAll ''up'', CreateFile ''up/b.txt'', CopyTo ''up/b.txt'' ''hi''], None) \<and>
   fst (CreateLocalCopies (\<lambda>_ _. None) [\<lparr>zf_name = ''b.txt'', zf_content = ''hi'', zf_size = 2, zf_isDir = False\<rparr>] ''.'') = []"
proof -
  have "Clean ''up/'' = ''up''" "Clean ''.'' = ''.''" "filepath_Dir ''up/b.txt'' = ''up''" by code_simp+
  then show ?thesis
    using zip_extraction_confined [OF demo_archive_read, of "[\<lparr>zf_name = ''b.txt'', zf_content = ''hi'', zf_size = 2, zf_isDir = False\<rparr>]" "''up/''" "\<lambda>_ _. None"]
      zip_extraction_confined [OF demo_archive_read, of "[\<lparr>zf_name = ''b.txt'', zf_content = ''hi'', zf_size = 2, zf_isDir = False\<rparr>]" "''.''" "\<lambda>_ _. None"]
    by (simp add: file_ops_def)
qed

text \<open>An error after the last byte, such as a wrong checksum, does not keep a file out of the archive.\<close>

lemma late_error_ignored:
  assumes "length d < maxFileSize"
  shows "copyToBuffer \<lparr>rd_data = d, rd_err = Some err\<rparr> (length d) = Inr d"
  using assms by (simp add: copyToBuffer_def CopyN_def)

end
