(* ===== verification/Container_Health.thy ===== *)
theory Container_Health
  imports Go_Prelude
begin

text \<open>
  The health endpoint of the container, \<^verbatim>\<open>container/health.go\<close> and \<^verbatim>\<open>health_probe.go\<close>: which backends are checked, the checks in
  their own goroutines, the collector, the round with its timeout, the cache and the calls collapsed into one.
  What a backend answers, and when, is left open, so a check may never finish. Callers, the leading call, the
  checks and the goroutine that waits for abandoned checks interleave in any order; a step is a section under a lock.
\<close>

section \<open>Backends\<close>

text \<open>The datasources a container may hold. Solr, ScyllaDB, SurrealDB, ArangoDB and the file system are among them, but
  the health endpoint does not look at these five.\<close>

record container =
  hasSQL :: bool
  hasRedis :: bool
  hasPubSub :: bool
  llmModels :: "string list"
  hasMongo :: bool
  hasCassandra :: bool
  hasClickhouse :: bool
  hasKVStore :: bool
  hasDGraph :: bool
  hasOpenTSDB :: bool
  hasElasticsearch :: bool
  hasOracle :: bool
  hasCouchbase :: bool
  hasInfluxDB :: bool
  hasSolr :: bool
  hasScyllaDB :: bool
  hasSurrealDB :: bool
  hasArangoDB :: bool
  hasFile :: bool
  serviceNames :: "string list"
  appName :: string
  appVersion :: string

definition checkPrimaryDatasources :: "container \<Rightarrow> string list" where
  "checkPrimaryDatasources c =
     (if hasSQL c then [''sql''] else []) @ (if hasRedis c then [''redis''] else []) @ (if hasPubSub c then [''pubsub''] else []) @
     map (\<lambda>name. if name \<noteq> '''' then ''llm_'' @ name else ''llm'') (llmModels c)"

definition checkExternalDatasources :: "container \<Rightarrow> string list" where
  "checkExternalDatasources c =
     map fst (filter snd
       [(''mongo'', hasMongo c), (''cassandra'', hasCassandra c), (''clickHouse'', hasClickhouse c), (''kv-store'', hasKVStore c),
        (''dgraph'', hasDGraph c), (''opentsdb'', hasOpenTSDB c), (''elasticsearch'', hasElasticsearch c), (''oracle'', hasOracle c),
        (''couchbase'', hasCouchbase c), (''influx'', hasInfluxDB c)])"

definition checkServices :: "container \<Rightarrow> string list" where
  "checkServices c = serviceNames c"

definition backends :: "container \<Rightarrow> string list" where
  "backends c = checkPrimaryDatasources c @ checkExternalDatasources c @ checkServices c"

lemma unchecked_backends:
  "backends (c\<lparr>hasSolr := so, hasScyllaDB := sc, hasSurrealDB := su, hasArangoDB := ar, hasFile := fi\<rparr>) = backends c"
  by (simp add: backends_def checkPrimaryDatasources_def checkExternalDatasources_def checkServices_def)

text \<open>What a check ends with: a health with a status, a value with or without an error, or a panic.\<close>

datatype 'v check_answer = HasStatus string 'v | HasError 'v bool | Panicked string

datatype 'v health_entry = HealthEntry string 'v | ValueEntry 'v | PanicEntry string | TextEntry string

type_synonym 'v health_map = "string \<rightharpoonup> 'v health_entry"

record 'v healthCollector =
  results :: "'v health_map"
  downCount :: nat

definition collector_record :: "string \<Rightarrow> 'v health_entry \<Rightarrow> bool \<Rightarrow> 'v healthCollector \<Rightarrow> 'v healthCollector" where
  "collector_record name res down h =
     h\<lparr>results := (results h)(name \<mapsto> res), downCount := (if down then downCount h + 1 else downCount h)\<rparr>"

fun runCheck :: "string \<Rightarrow> 'v check_answer \<Rightarrow> 'v healthCollector \<Rightarrow> 'v healthCollector" where
  "runCheck name (HasStatus st v) h = collector_record name (HealthEntry st v) (st = ''DOWN'') h"
| "runCheck name (HasError v failed) h = collector_record name (ValueEntry v) failed h"
| "runCheck name (Panicked r) h = collector_record name (PanicEntry r) True h"

definition newCollector :: "'v healthCollector" where
  "newCollector = \<lparr>results = Map.empty, downCount = 0\<rparr>"

definition appHealth :: "container \<Rightarrow> 'v health_map \<Rightarrow> nat \<Rightarrow> 'v health_map" where
  "appHealth c m n = m(''name'' \<mapsto> TextEntry (appName c), ''version'' \<mapsto> TextEntry (appVersion c),
                       ''status'' \<mapsto> TextEntry (if n = 0 then ''UP'' else ''DEGRADED''))"

definition stalledHealth :: "container \<Rightarrow> 'v health_map" where
  "stalledHealth c = appHealth c Map.empty 1"

text \<open>The report of a round from what its collector holds.\<close>

definition round_report :: "container \<Rightarrow> 'v healthCollector \<Rightarrow> bool \<Rightarrow> 'v health_map" where
  "round_report c h finished = appHealth c (results h) (if finished then downCount h else downCount h + 1)"

section \<open>The probe\<close>

record 'v healthProbe =
  timeout :: int
  ttl :: int
  result :: "'v health_map option"
  storedAt :: int
  running :: bool

definition newHealthProbe :: "int \<Rightarrow> int \<Rightarrow> 'v healthProbe" where
  "newHealthProbe t to = \<lparr>timeout = max 0 to, ttl = max 0 t, result = None, storedAt = 0, running = False\<rparr>"

definition beginRound :: "'v healthProbe \<Rightarrow> bool \<times> 'v healthProbe" where
  "beginRound p = (if running p then (False, p) else (True, p\<lparr>running := True\<rparr>))"

definition endRound :: "'v healthProbe \<Rightarrow> 'v healthProbe" where
  "endRound p = p\<lparr>running := False\<rparr>"

definition probe_get :: "int \<Rightarrow> 'v healthProbe \<Rightarrow> 'v health_map option" where
  "probe_get now p =
     (if ttl p = 0 then None
      else case result p of None \<Rightarrow> None | Some m \<Rightarrow> if now - storedAt p > ttl p then None else Some m)"

definition probe_set :: "int \<Rightarrow> 'v health_map \<Rightarrow> 'v healthProbe \<Rightarrow> 'v healthProbe" where
  "probe_set now m p = (if ttl p = 0 then p else p\<lparr>result := Some m, storedAt := now\<rparr>)"

definition probe_clear :: "'v healthProbe \<Rightarrow> 'v healthProbe" where
  "probe_clear p = p\<lparr>result := None\<rparr>"

text \<open>A setting of the probe; \<^verbatim>\<open>time.ParseDuration\<close> is an argument.\<close>

definition healthDuration :: "(string \<Rightarrow> int option) \<Rightarrow> string \<Rightarrow> int" where
  "healthDuration ParseDuration setting =
     (let value = TrimSpace setting in
      if value = [] \<or> value = ''0'' \<or> EqualFold value ''disabled'' then 0
      else case ParseDuration value of None \<Rightarrow> 0 | Some d \<Rightarrow> if d < 0 then 0 else d)"

section \<open>Rounds in progress\<close>

text \<open>A round: the checks that have not finished, its collector, and whether a goroutine waits for abandoned checks. Rounds are
  numbered in the order they start; the phases of the leading call name theirs.\<close>

record 'v health_round =
  pending :: "nat list"
  coll :: "'v healthCollector"
  waiter :: bool

datatype 'v flight_phase = At_get | At_begin | At_wait nat "int option" | At_end nat | At_snap nat bool | At_set "'v health_map" bool
  | At_done "'v health_map"

record 'v health_state =
  probe :: "'v healthProbe"
  clock :: int
  missed :: nat
  flight :: "('v flight_phase \<times> nat) option"
  rounds :: "'v health_round list"
  answers :: "(int \<times> 'v health_map) list"

definition health_init :: "int \<Rightarrow> int \<Rightarrow> 'v health_state \<Rightarrow> bool" where
  "health_init t to s = (probe s = newHealthProbe t to \<and> missed s = 0 \<and> flight s = None \<and> rounds s = [] \<and> answers s = [])"

definition new_round :: "container \<Rightarrow> 'v health_round" where
  "new_round c = \<lparr>pending = [0..<length (backends c)], coll = newCollector, waiter = False\<rparr>"

definition finish_check :: "container \<Rightarrow> nat \<Rightarrow> 'v check_answer \<Rightarrow> 'v health_round \<Rightarrow> 'v health_round" where
  "finish_check c i a r = r\<lparr>pending := remove1 i (pending r), coll := runCheck (backends c ! i) a (coll r)\<rparr>"

text \<open>The steps of callers, of the leading call (\<^verbatim>\<open>Health\<close>, \<^verbatim>\<open>runHealthChecks\<close>, \<^verbatim>\<open>waitForChecks\<close>) and of the waiting goroutine.\<close>

inductive probe_step :: "container \<Rightarrow> 'v health_state \<Rightarrow> 'v health_state \<Rightarrow> bool" for c where
  tick: "0 \<le> dt \<Longrightarrow> probe_step c s (s\<lparr>clock := clock s + dt\<rparr>)"
| hit: "probe_get (clock s) (probe s) = Some m \<Longrightarrow> probe_step c s (s\<lparr>answers := answers s @ [(clock s, m)]\<rparr>)"
| miss: "probe_get (clock s) (probe s) = None \<Longrightarrow> probe_step c s (s\<lparr>missed := missed s + 1\<rparr>)"
| lead: "missed s > 0 \<Longrightarrow> flight s = None \<Longrightarrow> probe_step c s (s\<lparr>missed := missed s - 1, flight := Some (At_get, 0)\<rparr>)"
| join: "missed s > 0 \<Longrightarrow> flight s = Some (ph, n) \<Longrightarrow> probe_step c s (s\<lparr>missed := missed s - 1, flight := Some (ph, n + 1)\<rparr>)"
| get_hit: "flight s = Some (At_get, n) \<Longrightarrow> probe_get (clock s) (probe s) = Some m \<Longrightarrow>
    probe_step c s (s\<lparr>flight := Some (At_done m, n)\<rparr>)"
| get_miss: "flight s = Some (At_get, n) \<Longrightarrow> probe_get (clock s) (probe s) = None \<Longrightarrow>
    probe_step c s (s\<lparr>flight := Some (At_begin, n)\<rparr>)"
| stalled: "flight s = Some (At_begin, n) \<Longrightarrow> beginRound (probe s) = (False, p) \<Longrightarrow>
    probe_step c s (s\<lparr>probe := p, flight := Some (At_done (stalledHealth c), n)\<rparr>)"
| begin_round: "flight s = Some (At_begin, n) \<Longrightarrow> beginRound (probe s) = (True, p) \<Longrightarrow>
    probe_step c s (s\<lparr>probe := p, rounds := rounds s @ [new_round c],
      flight := Some (At_wait (length (rounds s)) (if timeout p > 0 then Some (clock s + timeout p) else None), n)\<rparr>)"
| completed: "flight s = Some (At_wait k dl, n) \<Longrightarrow> pending (rounds s ! k) = [] \<Longrightarrow>
    probe_step c s (s\<lparr>flight := Some (At_end k, n)\<rparr>)"
| timed_out: "flight s = Some (At_wait k (Some dl), n) \<Longrightarrow> dl \<le> clock s \<Longrightarrow>
    probe_step c s (s\<lparr>rounds := (rounds s)[k := (rounds s ! k)\<lparr>waiter := True\<rparr>], flight := Some (At_snap k False, n)\<rparr>)"
| end_round: "flight s = Some (At_end k, n) \<Longrightarrow>
    probe_step c s (s\<lparr>probe := endRound (probe s), flight := Some (At_snap k True, n)\<rparr>)"
| snap: "flight s = Some (At_snap k finished, n) \<Longrightarrow>
    probe_step c s (s\<lparr>flight := Some (At_set (round_report c (coll (rounds s ! k)) finished) finished, n)\<rparr>)"
| store: "flight s = Some (At_set m finished, n) \<Longrightarrow>
    probe_step c s (s\<lparr>probe := (if finished then probe_set (clock s) m (probe s) else probe s), flight := Some (At_done m, n)\<rparr>)"
| deliver: "flight s = Some (At_done m, n) \<Longrightarrow>
    probe_step c s (s\<lparr>flight := None, answers := answers s @ replicate (n + 1) (clock s, m)\<rparr>)"
| late_end: "k < length (rounds s) \<Longrightarrow> waiter (rounds s ! k) \<Longrightarrow> pending (rounds s ! k) = [] \<Longrightarrow>
    probe_step c s (s\<lparr>probe := endRound (probe s), rounds := (rounds s)[k := (rounds s ! k)\<lparr>waiter := False\<rparr>]\<rparr>)"

text \<open>A check of any round finishes, with any answer.\<close>

inductive backend_step :: "container \<Rightarrow> 'v health_state \<Rightarrow> 'v health_state \<Rightarrow> bool" for c where
  check_done: "k < length (rounds s) \<Longrightarrow> i \<in> set (pending (rounds s ! k)) \<Longrightarrow>
    backend_step c s (s\<lparr>rounds := (rounds s)[k := finish_check c i a (rounds s ! k)]\<rparr>)"

definition health_step :: "container \<Rightarrow> 'v health_state \<Rightarrow> 'v health_state \<Rightarrow> bool" where
  "health_step c s t = (probe_step c s t \<or> backend_step c s t)"

text \<open>A container made without \<^verbatim>\<open>Create\<close> has no probe: the caller runs the checks to their end.\<close>

definition health_without_probe :: "container \<Rightarrow> (nat \<times> 'v check_answer) list \<Rightarrow> 'v health_map" where
  "health_without_probe c finished = round_report c (fold (\<lambda>(i, a). runCheck (backends c ! i) a) finished newCollector) True"

section \<open>At most one round holds the claim\<close>

definition holds_claim :: "'v flight_phase \<Rightarrow> bool" where
  "holds_claim ph = (case ph of At_wait k dl \<Rightarrow> True | At_end k \<Rightarrow> True | _ \<Rightarrow> False)"

definition flight_claims :: "('v flight_phase \<times> nat) option \<Rightarrow> nat" where
  "flight_claims fl = (case fl of None \<Rightarrow> 0 | Some (ph, n) \<Rightarrow> if holds_claim ph then 1 else 0)"

fun phase_ok :: "'v health_round list \<Rightarrow> 'v flight_phase \<Rightarrow> bool" where
  "phase_ok rs (At_wait k dl) = (k < length rs \<and> \<not> waiter (rs ! k))"
| "phase_ok rs (At_end k) = (k < length rs \<and> \<not> waiter (rs ! k) \<and> pending (rs ! k) = [])"
| "phase_ok rs (At_snap k finished) = (k < length rs \<and> (finished \<longrightarrow> pending (rs ! k) = []))"
| "phase_ok rs ph = True"

definition waits_for :: "('v flight_phase \<times> nat) option \<Rightarrow> nat \<Rightarrow> bool" where
  "waits_for fl k = (case fl of Some (At_wait j dl, n) \<Rightarrow> j = k | _ \<Rightarrow> False)"

definition flight_ok :: "'v health_round list \<Rightarrow> ('v flight_phase \<times> nat) option \<Rightarrow> bool" where
  "flight_ok rs fl = (case fl of None \<Rightarrow> True | Some (ph, n) \<Rightarrow> phase_ok rs ph)"

definition claim_ok :: "'v health_round list \<Rightarrow> bool \<Rightarrow> ('v flight_phase \<times> nat) option \<Rightarrow> bool" where
  "claim_ok rs rn fl =
     (length (filter waiter rs) + flight_claims fl = (if rn then 1 else 0) \<and>
      (\<forall>k < length rs. pending (rs ! k) \<noteq> [] \<longrightarrow> waiter (rs ! k) \<or> waits_for fl k) \<and>
      flight_ok rs fl \<and> (\<forall>r \<in> set rs. distinct (pending r)))"

definition claim_inv :: "'v health_state \<Rightarrow> bool" where
  "claim_inv s = claim_ok (rounds s) (running (probe s)) (flight s)"

lemma filter_update:
  "k < length xs \<Longrightarrow> length (filter P (xs[k := v])) + (if P (xs ! k) then 1 else 0) = length (filter P xs) + (if P v then 1 else 0)"
proof (induction xs arbitrary: k)
  case (Cons x xs)
  show ?case
  proof (cases k)
    case (Suc j)
    then show ?thesis using Cons.IH [of j] Cons.prems by (simp split: if_splits)
  qed simp
qed simp

lemma claim_init: "health_init t to s \<Longrightarrow> claim_inv s"
  by (simp add: health_init_def claim_inv_def claim_ok_def flight_claims_def flight_ok_def newHealthProbe_def)

lemmas flight_simps = flight_claims_def holds_claim_def waits_for_def flight_ok_def

text \<open>Steps of the leading call that change no round.\<close>

lemma claim_flight:
  assumes "claim_ok rs rn fl" "flight_claims fl' = flight_claims fl" "\<And>k. waits_for fl' k = waits_for fl k" "flight_ok rs fl \<Longrightarrow> flight_ok rs fl'"
  shows "claim_ok rs rn fl'"
  using assms by (simp add: claim_ok_def)

lemma claim_begin:
  assumes "claim_ok rs False (Some (At_begin, n))"
  shows "claim_ok (rs @ [new_round c]) True (Some (At_wait (length rs) dl, n))"
proof -
  have none: "pending (rs ! k) = []" "\<not> waiter (rs ! k)" if "k < length rs" for k
    using assms that by (auto simp: claim_ok_def flight_simps filter_empty_conv)
  then show ?thesis using assms by (auto simp: claim_ok_def flight_simps new_round_def nth_append)
qed

lemma claim_completed:
  assumes "claim_ok rs rn (Some (At_wait k dl, n))" "pending (rs ! k) = []"
  shows "claim_ok rs rn (Some (At_end k, n))"
  using assms by (auto simp: claim_ok_def flight_simps)

lemma claim_timed_out:
  assumes "claim_ok rs rn (Some (At_wait k dl, n))"
  shows "claim_ok (rs[k := (rs ! k)\<lparr>waiter := True\<rparr>]) rn (Some (At_snap k False, n))"
proof -
  have k: "k < length rs" "\<not> waiter (rs ! k)" using assms by (simp_all add: claim_ok_def flight_simps)
  have "distinct (pending r)" if "r \<in> set (rs[k := (rs ! k)\<lparr>waiter := True\<rparr>])" for r
  proof -
    have "r = (rs ! k)\<lparr>waiter := True\<rparr> \<or> r \<in> set rs" using that set_update_subset_insert by fastforce
    moreover have "rs ! k \<in> set rs" using k(1) by simp
    ultimately show ?thesis using assms by (auto simp: claim_ok_def)
  qed
  then show ?thesis using assms k filter_update [OF k(1), of waiter "(rs ! k)\<lparr>waiter := True\<rparr>"]
    by (auto simp: claim_ok_def flight_simps nth_list_update)
qed

lemma claim_end:
  assumes "claim_ok rs rn (Some (At_end k, n))"
  shows "claim_ok rs False (Some (At_snap k True, n))"
  using assms by (auto simp: claim_ok_def flight_simps split: if_splits)

lemma claim_late_end:
  assumes "claim_ok rs rn fl" "k < length rs" "waiter (rs ! k)" "pending (rs ! k) = []"
  shows "claim_ok (rs[k := (rs ! k)\<lparr>waiter := False\<rparr>]) False fl"
proof -
  have "rs ! k \<in> set (filter waiter rs)" using assms(2,3) by simp
  then have "length (filter waiter rs) > 0" by (metis length_pos_if_in_set)
  moreover have "length (filter waiter rs) + flight_claims fl \<le> 1" using assms(1) by (simp add: claim_ok_def)
  ultimately have cl: "length (filter waiter rs) = 1" "flight_claims fl = 0" by linarith+
  have count: "length (filter waiter (rs[k := (rs ! k)\<lparr>waiter := False\<rparr>])) = 0"
    using filter_update [OF assms(2), of waiter "(rs ! k)\<lparr>waiter := False\<rparr>"] assms(3) cl by simp
  have phase: "flight_ok (rs[k := (rs ! k)\<lparr>waiter := False\<rparr>]) fl"
  proof (cases fl)
    case (Some pn)
    then show ?thesis using assms(1,2,4) by (cases pn; cases "fst pn") (auto simp: claim_ok_def flight_simps nth_list_update)
  qed (simp add: flight_ok_def)
  have "distinct (pending r)" if "r \<in> set (rs[k := (rs ! k)\<lparr>waiter := False\<rparr>])" for r
  proof -
    have "r = (rs ! k)\<lparr>waiter := False\<rparr> \<or> r \<in> set rs" using that set_update_subset_insert by fastforce
    then show ?thesis using assms(1,4) by (auto simp: claim_ok_def)
  qed
  then show ?thesis using assms count cl phase by (auto simp: claim_ok_def nth_list_update)
qed

lemma claim_check:
  assumes "claim_ok rs rn fl" "k < length rs" "i \<in> set (pending (rs ! k))"
  shows "claim_ok (rs[k := finish_check c i a (rs ! k)]) rn fl"
proof -
  let ?r = "finish_check c i a (rs ! k)"
  have same: "waiter ?r = waiter (rs ! k)" by (simp add: finish_check_def)
  have ne: "pending (rs ! k) \<noteq> []" using assms(3) by auto
  have phase: "flight_ok (rs[k := ?r]) fl"
  proof (cases fl)
    case (Some pn)
    then show ?thesis using assms(1,2) ne same by (cases pn; cases "fst pn") (auto simp: claim_ok_def flight_simps nth_list_update)
  qed (simp add: flight_ok_def)
  have d: "distinct (pending ?r)" using assms(1,2) by (simp add: claim_ok_def finish_check_def)
  have "distinct (pending r)" if "r \<in> set (rs[k := ?r])" for r
    using that set_update_subset_insert [of rs k ?r] d assms(1) by (auto simp: claim_ok_def)
  then show ?thesis using assms filter_update [OF assms(2), of waiter ?r] same phase ne by (auto simp: claim_ok_def nth_list_update)
qed

lemma claim_probe_step:
  assumes "probe_step c s s'" "claim_inv s"
  shows "claim_inv s'"
proof -
  have inv: "claim_ok (rounds s) (running (probe s)) (flight s)" using assms(2) by (simp add: claim_inv_def)
  show ?thesis using assms(1)
  proof (cases rule: probe_step.cases)
    case (begin_round n p)
    then have "\<not> running (probe s)" "p = (probe s)\<lparr>running := True\<rparr>" by (auto simp: beginRound_def split: if_splits)
    moreover have "claim_ok (rounds s) False (Some (At_begin, n))" using inv begin_round calculation(1) by simp
    moreover obtain dl where "flight s' = Some (At_wait (length (rounds s)) dl, n)" using begin_round(1) by simp
    moreover have "rounds s' = rounds s @ [new_round c]" "probe s' = p" using begin_round(1) by simp_all
    ultimately show ?thesis using claim_begin by (simp add: claim_inv_def)
  next
    case (timed_out k dl n)
    then show ?thesis using claim_timed_out inv by (simp add: claim_inv_def)
  next
    case (late_end k)
    then show ?thesis using claim_late_end [OF inv] by (simp add: claim_inv_def endRound_def)
  next
    case (completed k dl n)
    then show ?thesis using claim_completed inv by (simp add: claim_inv_def)
  next
    case (end_round k n)
    then show ?thesis using claim_end inv by (simp add: claim_inv_def endRound_def)
  next
    case (join ph n)
    moreover have "waits_for (Some (ph, n + 1)) k = waits_for (Some (ph, n)) k" for k by (cases ph) (simp_all add: waits_for_def)
    ultimately show ?thesis using claim_flight [OF inv, of "Some (ph, n + 1)"] by (simp add: claim_inv_def flight_claims_def flight_ok_def)
  next
    case (stalled n p)
    then have "p = probe s" by (auto simp: beginRound_def split: if_splits)
    then show ?thesis using stalled claim_flight [OF inv, of "Some (At_done (stalledHealth c), n)"] by (simp add: claim_inv_def flight_simps)
  next
    case (store m finished n)
    then show ?thesis using claim_flight [OF inv, of "Some (At_done m, n)"] by (simp add: claim_inv_def flight_simps probe_set_def)
  next
    case (lead)
    then show ?thesis using claim_flight [OF inv, of "Some (At_get, 0)"] by (simp add: claim_inv_def flight_simps)
  next
    case (get_hit n m)
    then show ?thesis using claim_flight [OF inv, of "Some (At_done m, n)"] by (simp add: claim_inv_def flight_simps)
  next
    case (get_miss n)
    then show ?thesis using claim_flight [OF inv, of "Some (At_begin, n)"] by (simp add: claim_inv_def flight_simps)
  next
    case (snap k finished n)
    then show ?thesis using claim_flight [OF inv, of "Some (At_set (round_report c (coll (rounds s ! k)) finished) finished, n)"]
      by (simp add: claim_inv_def flight_simps)
  next
    case (deliver m n)
    then show ?thesis using claim_flight [OF inv, of None] by (simp add: claim_inv_def flight_simps)
  qed (use inv in \<open>simp_all add: claim_inv_def\<close>)
qed

lemma claim_step: "claim_inv s \<Longrightarrow> health_step c s s' \<Longrightarrow> claim_inv s'"
  using claim_probe_step claim_check by (fastforce simp: health_step_def claim_inv_def elim: backend_step.cases)

interpretation claims: invariant "health_init t to" "health_step c" claim_inv
  by unfold_locales (auto intro: claim_init claim_step)

section \<open>What a report is based on\<close>

fun answers_down :: "'v check_answer \<Rightarrow> bool" where
  "answers_down (HasStatus st v) = (st = ''DOWN'')"
| "answers_down (HasError v failed) = failed"
| "answers_down (Panicked r) = True"

fun entry_of :: "'v check_answer \<Rightarrow> 'v health_entry" where
  "entry_of (HasStatus st v) = HealthEntry st v"
| "entry_of (HasError v failed) = ValueEntry v"
| "entry_of (Panicked r) = PanicEntry r"

text \<open>The answers of a round, last one first.\<close>

definition collected :: "container \<Rightarrow> (nat \<times> 'v check_answer) list \<Rightarrow> 'v healthCollector" where
  "collected c log = \<lparr>results = map_of (map (\<lambda>(i, a). (backends c ! i, entry_of a)) log),
                     downCount = length (filter (answers_down \<circ> snd) log)\<rparr>"

lemma runCheck_collected: "runCheck (backends c ! i) a (collected c log) = collected c ((i, a) # log)"
  by (cases a) (simp_all add: collected_def collector_record_def)

definition round_ok :: "container \<Rightarrow> 'v health_round \<Rightarrow> bool" where
  "round_ok c r = (\<exists>log. coll r = collected c log \<and> distinct (map fst log) \<and> distinct (pending r) \<and>
     set (map fst log) \<inter> set (pending r) = {} \<and> set (map fst log) \<union> set (pending r) = {..<length (backends c)})"

text \<open>A report of a round in which every backend answered.\<close>

definition full_report :: "container \<Rightarrow> 'v health_map \<Rightarrow> bool" where
  "full_report c m = (\<exists>log. distinct (map fst log) \<and> set (map fst log) = {..<length (backends c)} \<and> m = round_report c (collected c log) True)"

definition report_ok :: "container \<Rightarrow> 'v health_map \<Rightarrow> bool" where
  "report_ok c m = (full_report c m \<or> m ''status'' = Some (TextEntry ''DEGRADED''))"

fun phase_reports :: "container \<Rightarrow> 'v flight_phase \<Rightarrow> bool" where
  "phase_reports c (At_set m finished) = (if finished then full_report c m else report_ok c m)"
| "phase_reports c (At_done m) = report_ok c m"
| "phase_reports c ph = True"

definition report_inv :: "container \<Rightarrow> 'v health_state \<Rightarrow> bool" where
  "report_inv c s = (claim_inv s \<and> (\<forall>r \<in> set (rounds s). round_ok c r) \<and> (\<forall>m. result (probe s) = Some m \<longrightarrow> full_report c m) \<and>
     (case flight s of None \<Rightarrow> True | Some (ph, n) \<Rightarrow> phase_reports c ph) \<and> (\<forall>(t, m) \<in> set (answers s). report_ok c m))"

lemma new_round_ok: "round_ok c (new_round c)"
  unfolding round_ok_def new_round_def
  by (rule exI [of _ "[]"]) (auto simp: collected_def newCollector_def)

lemma finish_check_ok:
  assumes "round_ok c r" "i \<in> set (pending r)"
  shows "round_ok c (finish_check c i a r)"
proof -
  obtain log where log: "coll r = collected c log" "distinct (map fst log)" "distinct (pending r)"
    "set (map fst log) \<inter> set (pending r) = {}" "set (map fst log) \<union> set (pending r) = {..<length (backends c)}"
    using assms(1) unfolding round_ok_def by blast
  have "set (remove1 i (pending r)) = set (pending r) - {i}" using log(3) by simp
  then show ?thesis
    using log assms(2) unfolding round_ok_def finish_check_def
    by (intro exI [of _ "(i, a) # log"]) (auto simp: runCheck_collected simp del: set_remove1_eq)
qed

lemma waiter_ok: "round_ok c r \<Longrightarrow> round_ok c (r\<lparr>waiter := b\<rparr>)"
  by (simp add: round_ok_def)

lemma set_update_all: "\<forall>x \<in> set xs. P x \<Longrightarrow> P v \<Longrightarrow> \<forall>x \<in> set (xs[k := v]). P x"
  using set_update_subset_insert by fastforce

lemma full_ok: "full_report c m \<Longrightarrow> report_ok c m"
  by (simp add: report_ok_def)

lemma degraded_ok: "report_ok c (stalledHealth c)" "report_ok c (round_report c h False)"
  by (simp_all add: report_ok_def stalledHealth_def round_report_def appHealth_def)

lemma finished_full:
  assumes "round_ok c r" "pending r = []"
  shows "full_report c (round_report c (coll r) True)"
  using assms unfolding round_ok_def full_report_def by auto

lemma report_probe_step:
  assumes "probe_step c s s'" "report_inv c s"
  shows "report_inv c s'"
proof -
  have claim: "claim_inv s'" "claim_inv s" using assms claim_probe_step by (auto simp: report_inv_def)
  have inv: "\<forall>r \<in> set (rounds s). round_ok c r" "\<forall>m. result (probe s) = Some m \<longrightarrow> full_report c m"
    "case flight s of None \<Rightarrow> True | Some (ph, n) \<Rightarrow> phase_reports c ph" "\<forall>(t, m) \<in> set (answers s). report_ok c m"
    using assms(2) by (auto simp: report_inv_def)
  have cached: "full_report c m" if "probe_get (clock s) (probe s) = Some m" for m
    using that inv(2) by (auto simp: probe_get_def split: if_splits option.splits)
  show ?thesis using assms(1)
  proof (cases rule: probe_step.cases)
    case (begin_round n p)
    moreover have "p = (probe s)\<lparr>running := True\<rparr>" using begin_round by (auto simp: beginRound_def split: if_splits)
    ultimately show ?thesis using claim inv new_round_ok by (auto simp: report_inv_def)
  next
    case (timed_out k dl n)
    have "k < length (rounds s)" using claim(2) timed_out by (simp add: claim_inv_def claim_ok_def flight_ok_def)
    then have "round_ok c ((rounds s ! k)\<lparr>waiter := True\<rparr>)" using inv(1) waiter_ok nth_mem by blast
    then show ?thesis using timed_out claim inv set_update_all [OF inv(1)] by (simp add: report_inv_def)
  next
    case (late_end k)
    then have "round_ok c ((rounds s ! k)\<lparr>waiter := False\<rparr>)" using inv(1) waiter_ok nth_mem by blast
    then show ?thesis using late_end claim inv set_update_all [OF inv(1)] by (simp add: report_inv_def endRound_def)
  next
    case (snap k finished n)
    have k: "k < length (rounds s)" "finished \<longrightarrow> pending (rounds s ! k) = []"
      using claim(2) snap by (simp_all add: claim_inv_def claim_ok_def flight_ok_def)
    then have "round_ok c (rounds s ! k)" using inv(1) by simp
    then have "phase_reports c (At_set (round_report c (coll (rounds s ! k)) finished) finished)"
      using k(2) finished_full [of c "rounds s ! k"] degraded_ok(2) by (cases finished) simp_all
    then show ?thesis using snap claim inv by (simp add: report_inv_def)
  next
    case (stalled n p)
    then have "p = probe s" by (auto simp: beginRound_def split: if_splits)
    then show ?thesis using stalled claim inv degraded_ok by (simp add: report_inv_def)
  next
    case (store m finished n)
    then show ?thesis using claim inv full_ok by (auto simp: report_inv_def probe_set_def)
  next
    case (hit m)
    then show ?thesis using claim inv full_ok [OF cached] by (auto simp: report_inv_def)
  next
    case (get_hit n m)
    then show ?thesis using claim inv full_ok [OF cached] by (auto simp: report_inv_def)
  next
    case (deliver m n)
    then show ?thesis using claim inv by (auto simp: report_inv_def)
  qed (use claim inv in \<open>auto simp: report_inv_def endRound_def\<close>)
qed

lemma report_step: "report_inv c s \<Longrightarrow> health_step c s s' \<Longrightarrow> report_inv c s'"
proof (unfold health_step_def, elim disjE)
  assume inv: "report_inv c s" and step: "backend_step c s s'"
  then obtain k i a where k: "k < length (rounds s)" "i \<in> set (pending (rounds s ! k))"
    "s' = s\<lparr>rounds := (rounds s)[k := finish_check c i a (rounds s ! k)]\<rparr>" by (auto elim: backend_step.cases)
  have "claim_inv s'" using inv claim_check [OF _ k(1,2)] k(3) by (simp add: report_inv_def claim_inv_def)
  moreover have "round_ok c (finish_check c i a (rounds s ! k))"
    using finish_check_ok [OF _ k(2)] inv nth_mem [OF k(1)] by (simp add: report_inv_def)
  ultimately show "report_inv c s'" using inv k(3) set_update_all [of "rounds s" "round_ok c" "finish_check c i a (rounds s ! k)" k]
    by (simp add: report_inv_def)
qed (rule report_probe_step)

interpretation reports: invariant "health_init t to" "health_step c" "report_inv c"
proof
  fix s :: "'a health_state"
  assume "health_init t to s"
  then show "report_inv c s" using claim_init by (auto simp: report_inv_def health_init_def newHealthProbe_def)
qed (rule report_step)

section \<open>A run with one backend\<close>

definition one_backend :: container where
  "one_backend = \<lparr>hasSQL = True, hasRedis = False, hasPubSub = False, llmModels = [], hasMongo = False, hasCassandra = False,
     hasClickhouse = False, hasKVStore = False, hasDGraph = False, hasOpenTSDB = False, hasElasticsearch = False, hasOracle = False,
     hasCouchbase = False, hasInfluxDB = False, hasSolr = False, hasScyllaDB = False, hasSurrealDB = False, hasArangoDB = False,
     hasFile = False, serviceNames = [], appName = ''app'', appVersion = ''1''\<rparr>"

definition one_state :: "bool \<Rightarrow> nat \<Rightarrow> (string flight_phase \<times> nat) option \<Rightarrow> string health_round list \<Rightarrow> (int \<times> string health_map) list
  \<Rightarrow> string health_state" where
  "one_state rn ms fl rs as = \<lparr>probe = (newHealthProbe 0 5)\<lparr>running := rn\<rparr>, clock = 0, missed = ms, flight = fl, rounds = rs, answers = as\<rparr>"

definition one_round :: "string health_round" where
  "one_round = finish_check one_backend 0 (HasStatus ''UP'' ''ok'') (new_round one_backend)"

definition one_report :: "string health_map" where
  "one_report = round_report one_backend (coll one_round) True"

lemma one_backends: "backends one_backend = [''sql'']"
  by (simp add: backends_def checkPrimaryDatasources_def checkExternalDatasources_def checkServices_def one_backend_def)

lemma one_waiting:
  "reachable (health_init 0 5) (health_step one_backend) (one_state True 0 (Some (At_wait 0 (Some 5), 0)) [new_round one_backend] [])"
proof -
  have get: "probe_get 0 ((newHealthProbe 0 5 :: string healthProbe)\<lparr>running := b\<rparr>) = None" for b by (simp add: probe_get_def newHealthProbe_def)
  have "reachable (health_init 0 5) (health_step one_backend) (one_state False 0 None [] [])"
    by (rule reachable_init) (simp add: health_init_def one_state_def newHealthProbe_def)
  moreover have "health_step one_backend (one_state False 0 None [] []) (one_state False 1 None [] [])"
    using probe_step.miss [of "one_state False 0 None [] []" one_backend] get by (simp add: health_step_def one_state_def)
  moreover have "health_step one_backend (one_state False 1 None [] []) (one_state False 0 (Some (At_get, 0)) [] [])"
    using probe_step.lead [of "one_state False 1 None [] []" one_backend] by (simp add: health_step_def one_state_def)
  moreover have "health_step one_backend (one_state False 0 (Some (At_get, 0)) [] []) (one_state False 0 (Some (At_begin, 0)) [] [])"
    using probe_step.get_miss [of "one_state False 0 (Some (At_get, 0)) [] []" 0 one_backend] get by (simp add: health_step_def one_state_def)
  moreover have "health_step one_backend (one_state False 0 (Some (At_begin, 0)) [] [])
      (one_state True 0 (Some (At_wait 0 (Some 5), 0)) [new_round one_backend] [])"
    using probe_step.begin_round [of "one_state False 0 (Some (At_begin, 0)) [] []" 0 "(newHealthProbe 0 5)\<lparr>running := True\<rparr>" one_backend]
    by (simp add: health_step_def one_state_def beginRound_def newHealthProbe_def)
  ultimately show ?thesis by (blast intro: reachable_step)
qed

lemma one_answered:
  "reachable (health_init 0 5) (health_step one_backend) (one_state False 0 None [one_round] [(0, one_report)])"
proof -
  have step: "reachable (health_init 0 5) (health_step one_backend) t" if "reachable (health_init 0 5) (health_step one_backend) s"
    "probe_step one_backend s t \<or> backend_step one_backend s t" for s t
    using reachable_step [OF that(1), of t] that(2) by (simp add: health_step_def)
  have empty: "pending one_round = []" by (simp add: one_round_def finish_check_def new_round_def one_backends)
  note 1 = step [OF one_waiting, of "one_state True 0 (Some (At_wait 0 (Some 5), 0)) [one_round] []"]
  have "backend_step one_backend (one_state True 0 (Some (At_wait 0 (Some 5), 0)) [new_round one_backend] [])
      (one_state True 0 (Some (At_wait 0 (Some 5), 0)) [one_round] [])"
    using backend_step.check_done [of 0 "one_state True 0 (Some (At_wait 0 (Some 5), 0)) [new_round one_backend] []" 0 one_backend "HasStatus ''UP'' ''ok''"]
    by (simp add: one_state_def one_round_def new_round_def one_backends)
  then have 2: "reachable (health_init 0 5) (health_step one_backend) (one_state True 0 (Some (At_wait 0 (Some 5), 0)) [one_round] [])" using 1 by blast
  have 3: "reachable (health_init 0 5) (health_step one_backend) (one_state True 0 (Some (At_end 0, 0)) [one_round] [])"
    using step [OF 2] probe_step.completed [of "one_state True 0 (Some (At_wait 0 (Some 5), 0)) [one_round] []" 0 "Some 5" 0 one_backend] empty
    by (simp add: one_state_def)
  have 4: "reachable (health_init 0 5) (health_step one_backend) (one_state False 0 (Some (At_snap 0 True, 0)) [one_round] [])"
    using step [OF 3] probe_step.end_round [of "one_state True 0 (Some (At_end 0, 0)) [one_round] []" 0 0 one_backend]
    by (simp add: one_state_def endRound_def)
  have 5: "reachable (health_init 0 5) (health_step one_backend) (one_state False 0 (Some (At_set one_report True, 0)) [one_round] [])"
    using step [OF 4] probe_step.snap [of "one_state False 0 (Some (At_snap 0 True, 0)) [one_round] []" 0 True 0 one_backend]
    by (simp add: one_state_def one_report_def)
  have 6: "reachable (health_init 0 5) (health_step one_backend) (one_state False 0 (Some (At_done one_report, 0)) [one_round] [])"
    using step [OF 5] probe_step.store [of "one_state False 0 (Some (At_set one_report True, 0)) [one_round] []" one_report True 0 one_backend]
    by (simp add: one_state_def probe_set_def newHealthProbe_def)
  show ?thesis
    using step [OF 6] probe_step.deliver [of "one_state False 0 (Some (At_done one_report, 0)) [one_round] []" one_report 0 one_backend]
    by (simp add: one_state_def)
qed

section \<open>Properties\<close>

lemma distinct_count: "distinct xs \<Longrightarrow> count_list xs i \<le> 1"
  by (induction xs) (auto simp: count_list_0_iff)

lemma waits_for_unique: "waits_for fl k \<Longrightarrow> waits_for fl j \<Longrightarrow> k = j"
  by (auto simp: waits_for_def split: option.splits flight_phase.splits)

lemma at_most_one_pending:
  assumes "claim_ok rs rn fl"
  shows "(\<Sum>r \<leftarrow> rs. count_list (pending r) i) \<le> 1"
proof -
  have one: "k = j" if "k < length rs" "j < length rs" "pending (rs ! k) \<noteq> []" "pending (rs ! j) \<noteq> []" for k j
  proof -
    have cl: "length (filter waiter rs) + flight_claims fl \<le> 1" using assms by (simp add: claim_ok_def)
    have wait: "waiter (rs ! k) \<or> waits_for fl k" "waiter (rs ! j) \<or> waits_for fl j" using assms that by (auto simp: claim_ok_def)
    have fl: "flight_claims fl = 1" if "waits_for fl l" for l
      using that by (auto simp: flight_simps split: option.splits flight_phase.splits)
    have none: "\<not> waiter (rs ! l)" if "flight_claims fl = 1" "l < length rs" for l
      using that cl by (auto simp: filter_empty_conv)
    have same: "k = j" if "waiter (rs ! k)" "waiter (rs ! j)" "k < length rs" "j < length rs"
      using that cl
    proof (induction rs arbitrary: k j)
      case (Cons r rs)
      show ?case
      proof (cases "waiter r")
        case True
        then have "\<forall>x \<in> set rs. \<not> waiter x" using Cons.prems(5) by (simp add: filter_empty_conv)
        then show ?thesis using Cons.prems by (cases k; cases j) auto
      next
        case False
        then show ?thesis using Cons by (cases k; cases j) auto
      qed
    qed simp
    show ?thesis using wait fl none same that by (metis waits_for_unique)
  qed
  have d: "\<forall>r \<in> set rs. distinct (pending r)" using assms by (simp add: claim_ok_def)
  from one d show ?thesis
  proof (induction rs)
    case (Cons r rs)
    have c: "count_list (pending r) i \<le> 1" using Cons.prems(2) distinct_count [of "pending r" i] by simp
    show ?case
    proof (cases "pending r = []")
      case True
      have "(\<Sum>r \<leftarrow> rs. count_list (pending r) i) \<le> 1" using Cons.IH Cons.prems by fastforce
      then show ?thesis using True by simp
    next
      case False
      have "pending (rs ! k) = []" if "k < length rs" for k using Cons.prems(1) [of 0 "Suc k"] that False by auto
      then have zero: "(\<Sum>r \<leftarrow> rs. count_list (pending r) i) = 0" by (auto simp: in_set_conv_nth)
      show ?thesis unfolding list.map sum_list.Cons zero using c by simp
    qed
  qed simp
qed

text \<open>
  C20. Health checks do not pile up. However many calls come in, and whichever backends never answer, at any time at
  most one check of each checked backend is running: a round whose checks were abandoned at the timeout keeps
  its claim until the last of them has finished.
\<close>

theorem health_checks_never_overlap:
  assumes "reachable (health_init t to) (health_step c) s"
  shows "(\<Sum>r \<leftarrow> rounds s. count_list (pending r) i) \<le> 1"
  using claims.reachable_inv [OF assms] at_most_one_pending by (auto simp: claim_inv_def)

theorem health_checks_never_overlap_witness:
  "(\<Sum>r \<leftarrow> rounds (one_state True 0 (Some (At_wait 0 (Some 5), 0)) [new_round one_backend] []). count_list (pending r) 0) \<le> 1 \<and>
   pending (new_round one_backend) = [0]"
  using health_checks_never_overlap [OF one_waiting, of 0] by (simp add: new_round_def one_backends)

text \<open>
  C23. A report is UP only if it is earned. Every report ever answered, from the cache or from a round, with the status
  UP stems from one round in which every checked backend answered and none was down or panicked, and it shows each
  backend's answer; an abandoned or a stalled round is DEGRADED. The checked backends are those of \<open>backends\<close>: the SQL
  database, Redis, the message broker, the language models, the ten other datasources of the health endpoint and the
  services. Solr, ScyllaDB, SurrealDB, ArangoDB and the file system are not checked, whether they are configured or not.
\<close>

theorem health_up_is_earned:
  assumes "reachable (health_init t to) (health_step c) s" and "(at, m) \<in> set (answers s)" and "m ''status'' = Some (TextEntry ''UP'')"
  shows "\<exists>log. distinct (map fst log) \<and> set (map fst log) = {..<length (backends c)} \<and>
               (\<forall>(i, a) \<in> set log. \<not> answers_down a) \<and> m = round_report c (collected c log) True \<and>
               (\<forall>i < length (backends c). backends c ! i \<notin> {''name'', ''version'', ''status''} \<longrightarrow> m (backends c ! i) \<noteq> None) \<and>
               (\<forall>so sc su ar fi. backends (c\<lparr>hasSolr := so, hasScyllaDB := sc, hasSurrealDB := su, hasArangoDB := ar, hasFile := fi\<rparr>) = backends c)"
proof -
  have "report_ok c m" using reports.reachable_inv [OF assms(1)] assms(2) by (auto simp: report_inv_def)
  then have "full_report c m" using assms(3) by (simp add: report_ok_def)
  then obtain log where log: "distinct (map fst log)" "set (map fst log) = {..<length (backends c)}" "m = round_report c (collected c log) True"
    by (auto simp: full_report_def)
  have "downCount (collected c log) = 0" using assms(3) log(3) by (simp add: round_report_def appHealth_def split: if_splits)
  then have up: "\<forall>(i, a) \<in> set log. \<not> answers_down a" by (auto simp: collected_def filter_empty_conv)
  have "m (backends c ! i) \<noteq> None" if "i < length (backends c)" "backends c ! i \<notin> {''name'', ''version'', ''status''}" for i
  proof -
    have "i \<in> fst ` set log" using that(1) log(2) by simp
    then obtain a where "(i, a) \<in> set log" by force
    then have "(backends c ! i, entry_of a) \<in> set (map (\<lambda>(i, a). (backends c ! i, entry_of a)) log)" by force
    then have "results (collected c log) (backends c ! i) \<noteq> None" by (auto simp: collected_def map_of_eq_None_iff rev_image_eqI)
    then show ?thesis using that(2) log(3) by (simp add: round_report_def appHealth_def)
  qed
  then show ?thesis using log up unchecked_backends by blast
qed

theorem health_up_is_earned_witness:
  "\<exists>log. set (map fst log) = {0} \<and> (\<forall>(i, a) \<in> set log. \<not> answers_down a) \<and> one_report = round_report one_backend (collected one_backend log) True"
proof -
  have "one_report ''status'' = Some (TextEntry ''UP'')"
    by (simp add: one_report_def round_report_def appHealth_def one_round_def finish_check_def new_round_def newCollector_def collector_record_def)
  moreover have "(0, one_report) \<in> set (answers (one_state False 0 None [one_round] [(0, one_report)]))" by (simp add: one_state_def)
  ultimately obtain log where "set (map fst log) = {..<length (backends one_backend)}" "\<forall>(i, a) \<in> set log. \<not> answers_down a"
    "one_report = round_report one_backend (collected one_backend log) True"
    using health_up_is_earned [OF one_answered] by blast
  moreover have "{..<length (backends one_backend)} = {0}" by (auto simp: one_backends)
  ultimately show ?thesis by blast
qed

text \<open>The timeout of the probe never changes, and a round that is waited for has a deadline if one is configured.\<close>

definition time_inv :: "int \<Rightarrow> 'v health_state \<Rightarrow> bool" where
  "time_inv to s = (timeout (probe s) = max 0 to \<and>
     (case flight s of Some (At_wait k dl, n) \<Rightarrow> 0 < to \<longrightarrow> dl \<noteq> None | _ \<Rightarrow> True))"

lemma time_step: "time_inv to s \<Longrightarrow> health_step c s s' \<Longrightarrow> time_inv to s'"
  unfolding health_step_def
proof (elim disjE)
  assume inv: "time_inv to s" and step: "probe_step c s s'"
  from step show "time_inv to s'"
  proof (cases rule: probe_step.cases)
    case (join ph n)
    then show ?thesis using inv by (cases ph) (simp_all add: time_inv_def)
  qed (use inv in \<open>auto simp: time_inv_def beginRound_def endRound_def probe_set_def split: if_splits\<close>)
qed (auto simp: time_inv_def elim!: backend_step.cases)

interpretation deadlines: invariant "health_init t to" "health_step c" "time_inv to"
proof
  fix s :: "'a health_state"
  assume "health_init t to s"
  then show "time_inv to s" by (simp add: time_inv_def health_init_def newHealthProbe_def)
qed (rule time_step)

text \<open>The leading call answers without any check finishing.\<close>

definition answers_alone :: "container \<Rightarrow> 'v health_state \<Rightarrow> nat \<Rightarrow> bool" where
  "answers_alone c s n = (\<exists>s' at m. (probe_step c)\<^sup>*\<^sup>* s s' \<and> flight s' = None \<and> answers s' = answers s @ replicate (n + 1) (at, m))"

lemma alone_step: "probe_step c s u \<Longrightarrow> answers u = answers s \<Longrightarrow> answers_alone c u n \<Longrightarrow> answers_alone c s n"
  unfolding answers_alone_def by (metis converse_rtranclp_into_rtranclp)

lemma alone_done: "flight s = Some (At_done m, n) \<Longrightarrow> answers_alone c s n"
  unfolding answers_alone_def
proof (rule exI [of _ "s\<lparr>flight := None, answers := answers s @ replicate (n + 1) (clock s, m)\<rparr>"], rule exI [of _ "clock s"], rule exI [of _ m], intro conjI)
  assume "flight s = Some (At_done m, n)"
  then show "(probe_step c)\<^sup>*\<^sup>* s (s\<lparr>flight := None, answers := answers s @ replicate (n + 1) (clock s, m)\<rparr>)"
    by (intro r_into_rtranclp probe_step.deliver)
qed simp_all

lemma alone_set: "flight s = Some (At_set m b, n) \<Longrightarrow> answers_alone c s n"
  by (rule alone_step [OF probe_step.store]) (auto intro: alone_done)

lemma alone_snap: "flight s = Some (At_snap k b, n) \<Longrightarrow> answers_alone c s n"
  by (rule alone_step [OF probe_step.snap]) (auto intro: alone_set)

lemma alone_end: "flight s = Some (At_end k, n) \<Longrightarrow> answers_alone c s n"
  by (rule alone_step [OF probe_step.end_round]) (auto intro: alone_snap)

lemma alone_wait: "flight s = Some (At_wait k (Some dl), n) \<Longrightarrow> answers_alone c s n"
proof (rule alone_step [OF probe_step.tick [of "max 0 (dl - clock s)"]])
  assume fl: "flight s = Some (At_wait k (Some dl), n)"
  show "answers_alone c (s\<lparr>clock := clock s + max 0 (dl - clock s)\<rparr>) n"
    by (rule alone_step [OF probe_step.timed_out]) (use fl in \<open>auto intro: alone_snap\<close>)
qed auto

lemma alone_begin:
  assumes "flight s = Some (At_begin, n)" "0 < timeout (probe s)"
  shows "answers_alone c s n"
proof (cases "running (probe s)")
  case True
  then have "beginRound (probe s) = (False, probe s)" by (simp add: beginRound_def)
  note step = probe_step.stalled [OF assms(1) this]
  show ?thesis by (rule alone_step [OF step]) (simp_all add: alone_done)
next
  case False
  then have "beginRound (probe s) = (True, (probe s)\<lparr>running := True\<rparr>)" by (simp add: beginRound_def)
  note step = probe_step.begin_round [OF assms(1) this]
  show ?thesis by (rule alone_step [OF step]) (simp_all add: assms(2) alone_wait)
qed

lemma alone_get:
  assumes "flight s = Some (At_get, n)" "0 < timeout (probe s)"
  shows "answers_alone c s n"
proof (cases "probe_get (clock s) (probe s)")
  case None
  show ?thesis by (rule alone_step [OF probe_step.get_miss [OF assms(1) None]]) (simp_all add: assms(2) alone_begin)
next
  case (Some m)
  show ?thesis by (rule alone_step [OF probe_step.get_hit [OF assms(1) Some]]) (simp_all add: alone_done)
qed

text \<open>
  C33. With a timeout configured every call is answered even if no backend ever answers. From any state with a call in
  progress, steps of the caller and the clock alone, without any check finishing, lead to an answer for the
  leading call and for all that joined it.
\<close>

theorem health_answers_without_backends:
  assumes "reachable (health_init t to) (health_step c) s" and "0 < to" and "flight s = Some (ph, n)"
  shows "\<exists>s' at m. (probe_step c)\<^sup>*\<^sup>* s s' \<and> flight s' = None \<and> answers s' = answers s @ replicate (n + 1) (at, m)"
proof -
  have inv: "time_inv to s" using deadlines.reachable_inv [OF assms(1)] .
  then have to: "0 < timeout (probe s)" using assms(2) by (simp add: time_inv_def)
  have "answers_alone c s n"
  proof (cases ph)
    case (At_wait k dl)
    then obtain d where "dl = Some d" using inv assms(2,3) by (auto simp: time_inv_def)
    then show ?thesis using alone_wait assms(3) At_wait by simp
  qed (use assms(3) to in \<open>auto intro: alone_get alone_begin alone_end alone_snap alone_set alone_done\<close>)
  then show ?thesis by (simp add: answers_alone_def)
qed

theorem health_answers_without_backends_witness:
  "\<exists>s' at m. (probe_step one_backend)\<^sup>*\<^sup>* (one_state True 0 (Some (At_wait 0 (Some 5), 0)) [new_round one_backend] []) s' \<and>
     flight s' = None \<and> answers s' = [(at, m)]"
  using health_answers_without_backends [OF one_waiting, of "At_wait 0 (Some 5)" 0] by (simp add: one_state_def)

end
