(* ===== verification/Subscriber.thy ===== *)
theory Subscriber
  imports Go_Prelude
begin

text \<open>
  Subscriptions, \<^verbatim>\<open>subscriber.go\<close>, with the registration in \<^verbatim>\<open>gofr.go\<close> and the Kafka consumer of
  \<^verbatim>\<open>datasource/pubsub/kafka\<close>: the loop that polls a topic, the call of the handler with recovery from panics, the commit and
  the delay after an error. The broker is a parameter of the loop; the reader of the Kafka library is a parameter of the
  consumer, with what its documentation says of offsets as a hypothesis. The messages that are consumed again are, on
  each partition, those after the last one whose handler and commit succeeded, and not those whose handler failed.
\<close>

section \<open>The loop\<close>

text \<open>What \<^verbatim>\<open>Subscribe\<close> returns: an error, no message, or a message with or without a committer.\<close>

datatype 'm received = ReadError string | NoMessage | Received 'm bool

datatype panic_value = PanicString string | PanicError string | PanicOther

datatype reaction = Returns | Errors string | Panics panic_value

definition panicRecovery :: "panic_value \<Rightarrow> string" where
  "panicRecovery re = (case re of PanicString t \<Rightarrow> t | PanicError t \<Rightarrow> t | PanicOther \<Rightarrow> ''Unknown panic type'')"

record ('m, 'k) broker =
  br_subscribe :: "'k \<Rightarrow> 'm received \<times> 'k"
  br_commit :: "'m \<Rightarrow> 'k \<Rightarrow> 'k"

text \<open>The error of one poll, the text logged for a panic, the message handed to the handler, and the new state of the broker.\<close>

record ('m, 'k) poll_result =
  pr_err :: "string option"
  pr_panic :: "string option"
  pr_handled :: "'m option"
  pr_state :: 'k

definition handleSubscription :: "('m, 'k) broker \<Rightarrow> ('m \<Rightarrow> reaction) \<Rightarrow> 'k \<Rightarrow> ('m, 'k) poll_result" where
  "handleSubscription b handler k =
     (case br_subscribe b k of
        (ReadError err, k1) \<Rightarrow> \<lparr>pr_err = Some err, pr_panic = None, pr_handled = None, pr_state = k1\<rparr>
      | (NoMessage, k1) \<Rightarrow> \<lparr>pr_err = None, pr_panic = None, pr_handled = None, pr_state = k1\<rparr>
      | (Received msg committer, k1) \<Rightarrow>
          (case handler msg of
             Panics re \<Rightarrow> \<lparr>pr_err = None, pr_panic = Some (panicRecovery re), pr_handled = Some msg, pr_state = k1\<rparr>
           | Errors err \<Rightarrow> \<lparr>pr_err = Some err, pr_panic = None, pr_handled = Some msg, pr_state = k1\<rparr>
           | Returns \<Rightarrow> \<lparr>pr_err = None, pr_panic = None, pr_handled = Some msg,
                          pr_state = (if committer then br_commit b msg k1 else k1)\<rparr>))"

text \<open>The loop as far as it has run: each event is the choice of the \<^verbatim>\<open>select\<close>, the end of the context or of the delay. The trace has
  the delay before each poll, in nanoseconds, with the message that was handled; the flag tells whether the loop has returned.\<close>

datatype sub_event = CtxDone | DelayOver

fun startSubscriber :: "('m, 'k) broker \<Rightarrow> ('m \<Rightarrow> reaction) \<Rightarrow> sub_event list \<Rightarrow> int \<Rightarrow> 'k \<Rightarrow> (int \<times> 'm option) list \<times> 'k \<times> bool" where
  "startSubscriber b handler [] delay k = ([], k, False)"
| "startSubscriber b handler (CtxDone # es) delay k = ([], k, True)"
| "startSubscriber b handler (DelayOver # es) delay k =
     (let r = handleSubscription b handler k;
          (tr, k', fin) = startSubscriber b handler es (if pr_err r \<noteq> None then 2000000000 else 0) (pr_state r)
      in ((delay, pr_handled r) # tr, k', fin))"

text \<open>\<^verbatim>\<open>App.Subscribe\<close>: the handlers by topic.\<close>

definition App_Subscribe :: "bool \<Rightarrow> string \<Rightarrow> 'h option \<Rightarrow> (string \<rightharpoonup> 'h) \<Rightarrow> (string \<rightharpoonup> 'h)" where
  "App_Subscribe hasSubscriber topic handler subs =
     (if topic = '''' \<or> handler = None then subs
      else if \<not> hasSubscriber then subs
      else subs(topic := handler))"

section \<open>The Kafka consumer\<close>

record 'r kafka_client =
  k_connected :: bool
  k_group :: string
  k_reader :: "string \<rightharpoonup> 'r"

text \<open>The reader of the library: a new reader of a topic, \<^verbatim>\<open>FetchMessage\<close> and \<^verbatim>\<open>CommitMessages\<close>.\<close>

record ('m, 'r) kafka_lib =
  getNewReader :: "string \<Rightarrow> 'r"
  FetchMessage :: "'r \<Rightarrow> (string + 'm) \<times> 'r"
  CommitMessages :: "'m \<Rightarrow> 'r \<Rightarrow> string option \<times> 'r"

definition kafka_Subscribe :: "('m, 'r) kafka_lib \<Rightarrow> string \<Rightarrow> 'r kafka_client \<Rightarrow> 'm received \<times> 'r kafka_client" where
  "kafka_Subscribe lib topic k =
     (if \<not> k_connected k then (ReadError ''kafka client not connected'', k)
      else if k_group k = '''' then (ReadError ''consumer group id not provided'', k)
      else let reader = (case k_reader k topic of None \<Rightarrow> getNewReader lib topic | Some r \<Rightarrow> r);
               (res, reader') = FetchMessage lib reader;
               k' = k\<lparr>k_reader := (k_reader k)(topic \<mapsto> reader')\<rparr>
           in (case res of Inl err \<Rightarrow> ReadError err | Inr msg \<Rightarrow> Received msg True, k'))"

text \<open>A failed commit is logged.\<close>

definition kafka_Commit :: "('m, 'r) kafka_lib \<Rightarrow> string \<Rightarrow> 'm \<Rightarrow> 'r kafka_client \<Rightarrow> 'r kafka_client" where
  "kafka_Commit lib topic msg k =
     (case k_reader k topic of
        None \<Rightarrow> k
      | Some reader \<Rightarrow> k\<lparr>k_reader := (k_reader k)(topic \<mapsto> snd (CommitMessages lib msg reader))\<rparr>)"

definition kafka_broker :: "('m, 'r) kafka_lib \<Rightarrow> string \<Rightarrow> ('m, 'r kafka_client) broker" where
  "kafka_broker lib topic = \<lparr>br_subscribe = kafka_Subscribe lib topic, br_commit = kafka_Commit lib topic\<rparr>"

section \<open>What is consumed again\<close>

text \<open>What the library documents of a reader in a consumer group. A message is a partition with an offset. A fetch returns the message at
  the position of the reader in some partition and moves on there, whether or not earlier messages were committed, or it
  fails. A commit of a message sets the committed offset of its partition behind it, or fails and changes nothing:
  \<open>refused\<close> says of which messages. A new reader starts at the committed offsets.\<close>

definition topic_reader :: "('p \<times> nat, 'r) kafka_lib \<Rightarrow> ('p \<times> nat \<Rightarrow> bool) \<Rightarrow> ('r \<Rightarrow> 'p \<Rightarrow> nat) \<Rightarrow> ('r \<Rightarrow> 'p \<Rightarrow> nat) \<Rightarrow> bool" where
  "topic_reader lib refused pos committed =
     ((\<forall>r. case FetchMessage lib r of (res, r') \<Rightarrow> committed r' = committed r \<and>
          (case res of Inl err \<Rightarrow> pos r' = pos r | Inr (q, i) \<Rightarrow> i = pos r q \<and> pos r' = (pos r)(q := i + 1))) \<and>
      (\<forall>q i r. case CommitMessages lib (q, i) r of (res, r') \<Rightarrow> (res \<noteq> None \<longleftrightarrow> refused (q, i)) \<and> pos r' = pos r \<and>
          committed r' = (if refused (q, i) then committed r else (committed r)(q := i + 1))) \<and>
      (\<forall>topic. pos (getNewReader lib topic) = committed (getNewReader lib topic)))"

text \<open>Messages read one after the other from the positions \<open>pos\<close> on.\<close>

fun in_order :: "('p \<Rightarrow> nat) \<Rightarrow> ('p \<times> nat) list \<Rightarrow> bool" where
  "in_order pos [] = True"
| "in_order pos ((q, i) # ms) = (i = pos q \<and> in_order (pos(q := i + 1)) ms)"

lemma in_order_partition:
  "in_order pos ms \<Longrightarrow> map snd (filter (\<lambda>m. fst m = q) ms) = [pos q..<pos q + length (filter (\<lambda>m. fst m = q) ms)]"
proof (induction pos ms rule: in_order.induct)
  case (2 pos q' i ms)
  note IH = "2.IH" [OF conjunct2 [OF "2.prems" [unfolded in_order.simps]]]
  show ?case
  proof (cases "q' = q")
    case True
    let ?n = "length (filter (\<lambda>m. fst m = q) ms)"
    have "[pos q..<pos q + Suc ?n] = pos q # [pos q + 1..<pos q + 1 + ?n]" by (subst upt_conv_Cons) simp_all
    then show ?thesis using True IH "2.prems" by (simp del: upt_Suc)
  next
    case False
    then show ?thesis using IH by simp
  qed
qed simp

lemma in_order_above: "in_order pos ms \<Longrightarrow> (q, i) \<in> set ms \<Longrightarrow> pos q \<le> i"
proof (induction pos ms rule: in_order.induct)
  case (2 pos q' i' ms)
  have i': "i' = pos q'" and ms: "in_order (pos(q' := i' + 1)) ms" using "2.prems"(1) unfolding in_order.simps by blast+
  show ?case
  proof (cases "(q, i) = (q', i')")
    case True
    then show ?thesis using i' by simp
  next
    case False
    then have "(q, i) \<in> set ms" using "2.prems"(2) by auto
    from "2.IH" [OF ms this] show ?thesis using i' by (cases "q = q'") auto
  qed
qed simp

text \<open>The committed offsets after the messages were handled in turn; \<open>good\<close> messages are committed.\<close>

definition commits :: "('p \<times> nat \<Rightarrow> bool) \<Rightarrow> ('p \<times> nat) list \<Rightarrow> ('p \<Rightarrow> nat) \<Rightarrow> 'p \<Rightarrow> nat" where
  "commits good ms c = fold (\<lambda>(q, i) c. if good (q, i) then c(q := i + 1) else c) ms c"

lemma commits_simps [simp]:
  "commits good [] c = c" "commits good ((q, i) # ms) c = commits good ms (if good (q, i) then c(q := i + 1) else c)"
  by (simp_all add: commits_def)

lemma commits_le:
  assumes "in_order pos ms" and "\<forall>q. c q \<le> pos q"
  shows "commits good ms c q \<le> i \<longleftrightarrow> c q \<le> i \<and> (\<forall>j \<ge> i. (q, j) \<in> set ms \<longrightarrow> \<not> good (q, j))"
  using assms
proof (induction pos ms arbitrary: c rule: in_order.induct)
  case (2 pos q' o' ms)
  let ?c = "if good (q', o') then c(q' := o' + 1) else c"
  have o: "o' = pos q'" "in_order (pos(q' := o' + 1)) ms" using "2.prems"(1) unfolding in_order.simps by blast+
  have "\<forall>q. ?c q \<le> (pos(q' := o' + 1)) q"
  proof
    fix q show "?c q \<le> (pos(q' := o' + 1)) q" using "2.prems"(2) [rule_format, of q] o(1) by (cases "q = q'") auto
  qed
  note IH = "2.IH" [OF o(2) this]
  have "c q' \<le> o'" using "2.prems"(2) o(1) by simp
  then have "?c q \<le> i \<longleftrightarrow> c q \<le> i \<and> (i \<le> o' \<and> q = q' \<longrightarrow> \<not> good (q', o'))"
    by (cases "q = q'"; cases "good (q', o')") auto
  then show ?case unfolding commits_simps IH by auto
qed simp

text \<open>The delay before a poll, from what became of the one before it: two seconds after a failed read or an error of the handler.\<close>

definition delay_after :: "('m \<Rightarrow> reaction) \<Rightarrow> 'm option \<Rightarrow> int" where
  "delay_after handler h =
     (case h of None \<Rightarrow> 2000000000 | Some m \<Rightarrow> (case handler m of Errors err \<Rightarrow> 2000000000 | _ \<Rightarrow> 0))"

fun delays_ok :: "('m \<Rightarrow> reaction) \<Rightarrow> int \<Rightarrow> (int \<times> 'm option) list \<Rightarrow> bool" where
  "delays_ok handler delay [] = True"
| "delays_ok handler delay ((d, h) # tr) = (d = delay \<and> delays_ok handler (delay_after handler h) tr)"

definition handled :: "(int \<times> 'm option) list \<Rightarrow> 'm list" where
  "handled tr = List.map_filter snd tr"

text \<open>One poll of a connected consumer.\<close>

lemma kafka_poll:
  assumes lib: "topic_reader lib refused pos committed" and "k_connected k" "k_group k \<noteq> ''''"
    and r: "(case k_reader k topic of None \<Rightarrow> getNewReader lib topic | Some r \<Rightarrow> r) = r"
    and res: "res = handleSubscription (kafka_broker lib topic) handler k"
  shows "\<exists>r'. k_connected (pr_state res) \<and> k_group (pr_state res) = k_group k \<and> k_reader (pr_state res) topic = Some r' \<and>
    (if pr_err res \<noteq> None then 2000000000 else 0) = delay_after handler (pr_handled res) \<and>
    (case pr_handled res of
       None \<Rightarrow> pos r' = pos r \<and> committed r' = committed r
     | Some (q, i) \<Rightarrow> i = pos r q \<and> pos r' = (pos r)(q := i + 1) \<and>
         committed r' = (if handler (q, i) = Returns \<and> \<not> refused (q, i) then (committed r)(q := i + 1) else committed r))"
proof -
  obtain got r1 where g: "FetchMessage lib r = (got, r1)" by (rule prod.exhaust)
  note fetch = lib [unfolded topic_reader_def, THEN conjunct1, THEN spec, of r, unfolded g prod.case]
  let ?k1 = "k\<lparr>k_reader := (k_reader k)(topic \<mapsto> r1)\<rparr>"
  show ?thesis
  proof (cases got)
    case (Inl err)
    then have "kafka_Subscribe lib topic k = (ReadError err, ?k1)" using assms(2,3) r g by (simp add: kafka_Subscribe_def)
    then show ?thesis using Inl fetch res assms(2)
      by (intro exI [of _ r1]) (simp add: handleSubscription_def kafka_broker_def delay_after_def)
  next
    case (Inr m)
    obtain q i where m: "m = (q, i)" by (rule prod.exhaust)
    have sub: "kafka_Subscribe lib topic k = (Received (q, i) True, ?k1)" using Inr m assms(2,3) r g by (simp add: kafka_Subscribe_def)
    obtain ans r2 where c: "CommitMessages lib (q, i) r1 = (ans, r2)" by (rule prod.exhaust)
    note commit = lib [unfolded topic_reader_def, THEN conjunct2, THEN conjunct1, THEN spec, of q, THEN spec, of i, THEN spec, of r1,
        unfolded c prod.case]
    have com: "kafka_Commit lib topic (q, i) ?k1 = ?k1\<lparr>k_reader := (k_reader ?k1)(topic \<mapsto> r2)\<rparr>" using c by (simp add: kafka_Commit_def)
    show ?thesis
    proof (cases "handler (q, i)")
      case Returns
      then show ?thesis using sub com fetch commit Inr m res assms(2)
        by (intro exI [of _ r2]) (simp add: handleSubscription_def kafka_broker_def delay_after_def)
    next
      case (Errors e)
      then show ?thesis using sub fetch Inr m res assms(2)
        by (intro exI [of _ r1]) (simp add: handleSubscription_def kafka_broker_def delay_after_def)
    next
      case (Panics v)
      then show ?thesis using sub fetch Inr m res assms(2)
        by (intro exI [of _ r1]) (simp add: handleSubscription_def kafka_broker_def delay_after_def)
    qed
  qed
qed

lemma kafka_run:
  assumes lib: "topic_reader lib refused pos committed"
  shows "k_connected k \<Longrightarrow> k_group k \<noteq> '''' \<Longrightarrow> (case k_reader k topic of None \<Rightarrow> getNewReader lib topic | Some r \<Rightarrow> r) = r \<Longrightarrow>
    \<exists>tr k' r'. startSubscriber (kafka_broker lib topic) handler (replicate n DelayOver) delay k = (tr, k', False) \<and> length tr = n \<and>
       (case k_reader k' topic of None \<Rightarrow> getNewReader lib topic | Some r \<Rightarrow> r) = r' \<and> (n > 0 \<longrightarrow> k_reader k' topic \<noteq> None) \<and>
       delays_ok handler delay tr \<and> in_order (pos r) (handled tr) \<and>
       committed r' = commits (\<lambda>m. handler m = Returns \<and> \<not> refused m) (handled tr) (committed r)"
proof (induction n arbitrary: k r delay)
  case 0
  then show ?case by (simp add: handled_def map_filter_simps)
next
  case (Suc n)
  let ?res = "handleSubscription (kafka_broker lib topic) handler k" and ?good = "\<lambda>m. handler m = Returns \<and> \<not> refused m"
  let ?d = "delay_after handler (pr_handled ?res)"
  obtain r1 where one: "k_connected (pr_state ?res)" "k_group (pr_state ?res) = k_group k" "k_reader (pr_state ?res) topic = Some r1"
    "(if pr_err ?res \<noteq> None then 2000000000 else 0) = ?d" and
    h: "case pr_handled ?res of
       None \<Rightarrow> pos r1 = pos r \<and> committed r1 = committed r
     | Some (q, i) \<Rightarrow> i = pos r q \<and> pos r1 = (pos r)(q := i + 1) \<and>
         committed r1 = (if handler (q, i) = Returns \<and> \<not> refused (q, i) then (committed r)(q := i + 1) else committed r)"
    using kafka_poll [OF lib Suc.prems(1-3) refl, of handler] by blast
  have "(case k_reader (pr_state ?res) topic of None \<Rightarrow> getNewReader lib topic | Some r \<Rightarrow> r) = r1" using one(3) by simp
  from Suc.IH [OF one(1) _ this, of ?d] one(2) Suc.prems(2) obtain tr k' r' where rest:
    "startSubscriber (kafka_broker lib topic) handler (replicate n DelayOver) ?d (pr_state ?res) = (tr, k', False)" "length tr = n"
    "(case k_reader k' topic of None \<Rightarrow> getNewReader lib topic | Some r \<Rightarrow> r) = r'" "n > 0 \<longrightarrow> k_reader k' topic \<noteq> None"
    "delays_ok handler ?d tr" "in_order (pos r1) (handled tr)" "committed r' = commits ?good (handled tr) (committed r1)" by auto
  let ?tr = "(delay, pr_handled ?res) # tr"
  have run: "startSubscriber (kafka_broker lib topic) handler (replicate (Suc n) DelayOver) delay k = (?tr, k', False)"
    using rest(1) one(4) by (simp add: Let_def)
  have "in_order (pos r) (handled ?tr) \<and> committed r' = commits ?good (handled ?tr) (committed r)"
  proof (cases "pr_handled ?res")
    case None
    then show ?thesis using h rest(6,7) by (simp add: handled_def map_filter_simps)
  next
    case (Some m)
    then obtain q i where "pr_handled ?res = Some (q, i)" by (cases m) simp
    then show ?thesis using h rest(6,7) by (simp add: handled_def map_filter_simps)
  qed
  moreover have "delays_ok handler delay ?tr" using rest(5) by simp
  moreover have "k_reader k' topic \<noteq> None"
  proof (cases n)
    case 0
    then show ?thesis using rest(1) one(3) by simp
  qed (use rest(4) in simp)
  ultimately show ?case using run rest(2,3) by (intro exI [of _ ?tr] exI [of _ k'] exI [of _ r']) simp
qed

lemma delays_nth: "delays_ok handler delay tr \<Longrightarrow> i < length tr \<Longrightarrow>
    fst (tr ! i) = (if i = 0 then delay else delay_after handler (snd (tr ! (i - 1))))"
proof (induction handler delay tr arbitrary: i rule: delays_ok.induct)
  case (2 handler delay d h tr)
  then show ?case by (cases i) (auto split: if_splits)
qed simp

text \<open>
  C31. Which messages a Kafka subscription consumes again, on a topic of any number of partitions, with reads and commits that may fail.
  While the loop polls from the committed offsets, the handler gets each message of a partition once, in the order of the
  offsets, and the poll after a failed read or an error of the handler waits two seconds. A message that was handed to the
  handler is consumed again after a restart exactly if on its partition no message was committed from it on: neither
  the message itself nor a later one that was handled had a handler that returned without error and a commit that
  succeeded. So a failed message followed on its partition by a handled and committed one is lost, and a handled message whose commit
  failed is consumed again unless a later commit covers it.
\<close>

theorem kafka_consumed_again:
  assumes "topic_reader lib refused pos committed" and "k_connected k" and "k_group k \<noteq> ''''" and "k_reader k topic = None" and "n > 0"
  shows "\<exists>tr k' r'. startSubscriber (kafka_broker lib topic) handler (replicate n DelayOver) 0 k = (tr, k', False) \<and>
    length tr = n \<and> k_reader k' topic = Some r' \<and>
    (\<forall>i < n. fst (tr ! i) = (if i = 0 then 0 else delay_after handler (snd (tr ! (i - 1))))) \<and>
    (\<forall>q. map snd (filter (\<lambda>m. fst m = q) (handled tr)) =
       [committed (getNewReader lib topic) q..<committed (getNewReader lib topic) q + length (filter (\<lambda>m. fst m = q) (handled tr))]) \<and>
    (\<forall>q i. (q, i) \<in> set (handled tr) \<longrightarrow>
       (committed r' q \<le> i \<longleftrightarrow> (\<forall>j \<ge> i. (q, j) \<in> set (handled tr) \<longrightarrow> handler (q, j) \<noteq> Returns \<or> refused (q, j))))"
proof -
  let ?r = "getNewReader lib topic" and ?good = "\<lambda>m. handler m = Returns \<and> \<not> refused m"
  have start: "(case k_reader k topic of None \<Rightarrow> getNewReader lib topic | Some r \<Rightarrow> r) = ?r" using assms(4) by simp
  have new: "pos ?r = committed ?r" using assms(1) by (simp add: topic_reader_def)
  from kafka_run [OF assms(1-3) start, of handler n 0] assms(5) obtain tr k' r' where run:
    "startSubscriber (kafka_broker lib topic) handler (replicate n DelayOver) 0 k = (tr, k', False)" "length tr = n"
    "k_reader k' topic = Some r'" "delays_ok handler 0 tr" "in_order (committed ?r) (handled tr)"
    "committed r' = commits ?good (handled tr) (committed ?r)" unfolding new by (auto split: option.splits)
  have "committed r' q \<le> i \<longleftrightarrow> (\<forall>j \<ge> i. (q, j) \<in> set (handled tr) \<longrightarrow> handler (q, j) \<noteq> Returns \<or> refused (q, j))"
    if "(q, i) \<in> set (handled tr)" for q i
    using commits_le [OF run(5), of "committed ?r" ?good q i] in_order_above [OF run(5) that] run(6) by auto
  then show ?thesis using run in_order_partition [OF run(5)] delays_nth [OF run(4)] by blast
qed

text \<open>A reader in memory, of a topic with the partitions \<open>False\<close> and \<open>True\<close>: its positions and its committed offsets. It reads the two in turn,
  and commits of the second message of the partition \<open>True\<close> fail.\<close>

definition memory_lib :: "(bool \<times> nat, (bool \<Rightarrow> nat) \<times> (bool \<Rightarrow> nat)) kafka_lib" where
  "memory_lib = \<lparr>getNewReader = (\<lambda>topic. (\<lambda>_. 0, \<lambda>_. 0)),
     FetchMessage = (\<lambda>(p, c). let q = (p True < p False) in (Inr (q, p q), (p(q := p q + 1), c))),
     CommitMessages = (\<lambda>m (p, c). if m = (True, 1) then (Some ''broken pipe'', (p, c)) else (None, (p, c(fst m := snd m + 1))))\<rparr>"

theorem kafka_consumed_again_witness:
  "\<exists>tr k' r'. startSubscriber (kafka_broker memory_lib ''orders'') (\<lambda>m. if m = (False, 0) then Errors ''boom'' else Returns) (replicate 4 DelayOver) 0
        \<lparr>k_connected = True, k_group = ''g'', k_reader = Map.empty\<rparr> = (tr, k', False) \<and>
      handled tr = [(False, 0), (True, 0), (False, 1), (True, 1)] \<and> k_reader k' ''orders'' = Some r' \<and>
      \<not> snd r' False \<le> 0 \<and> snd r' True \<le> 1"
proof -
  have lib: "topic_reader memory_lib (\<lambda>m. m = (True, 1)) fst snd"
    by (auto simp: topic_reader_def memory_lib_def Let_def fun_eq_iff)
  let ?h = "\<lambda>m :: bool \<times> nat. if m = (False, 0) then Errors ''boom'' else Returns"
  let ?k = "\<lparr>k_connected = True, k_group = ''g'', k_reader = Map.empty\<rparr> :: ((bool \<Rightarrow> nat) \<times> (bool \<Rightarrow> nat)) kafka_client"
  obtain tr k' r' where run: "startSubscriber (kafka_broker memory_lib ''orders'') ?h (replicate 4 DelayOver) 0 ?k = (tr, k', False)"
    "k_reader k' ''orders'' = Some r'"
    "\<forall>q i. (q, i) \<in> set (handled tr) \<longrightarrow>
       (snd r' q \<le> i \<longleftrightarrow> (\<forall>j \<ge> i. (q, j) \<in> set (handled tr) \<longrightarrow> ?h (q, j) \<noteq> Returns \<or> (q, j) = (True, 1)))"
    using kafka_consumed_again [OF lib, of ?k "''orders''" 4 ?h] by auto
  have "fst (startSubscriber (kafka_broker memory_lib ''orders'') ?h (replicate 4 DelayOver) 0 ?k) =
      [(0, Some (False, 0)), (2000000000, Some (True, 0)), (0, Some (False, 1)), (0, Some (True, 1))]"
    by (simp add: numeral_eq_Suc kafka_broker_def handleSubscription_def kafka_Subscribe_def kafka_Commit_def memory_lib_def Let_def)
  with run(1) have tr: "handled tr = [(False, 0), (True, 0), (False, 1), (True, 1)]" by (simp add: handled_def map_filter_simps)
  have "\<not> snd r' False \<le> 0"
  proof -
    have "(False, 1) \<in> set (handled tr)" "?h (False, 1) = Returns" by (simp_all add: tr)
    then show ?thesis using run(3) [rule_format, of False 0] by (fastforce simp: tr)
  qed
  moreover have "snd r' True \<le> 1" using run(3) [rule_format, of True 1] by (auto simp: tr)
  ultimately show ?thesis using run(1,2) tr by blast
qed

end
