(* ===== verification/Config_Files.thy ===== *)
theory Config_Files
  imports Go_Prelude "HOL-Library.AList"
begin

text \<open>
  The configuration of an application, \<^verbatim>\<open>config/godotenv.go\<close>: the default file, the file chosen by \<^verbatim>\<open>APP_ENV\<close>, and the
  environment the process was started with. Reading a file into the environment is a parameter, with what the library
  documents as a hypothesis. The environment wins over the chosen file, and that over the default file.
\<close>

section \<open>The environment of a process\<close>

type_synonym env = "(string \<times> string) list"

definition Getenv :: "env \<Rightarrow> string \<Rightarrow> string" where
  "Getenv env key = (case map_of env key of None \<Rightarrow> '''' | Some v \<Rightarrow> v)"

text \<open>Setting a variable fails for a name that is empty or has an equals sign, and for a zero byte.\<close>

definition settable :: "string \<Rightarrow> string \<Rightarrow> bool" where
  "settable key val = (key \<noteq> '''' \<and> CHR ''='' \<notin> set key \<and> CHR 0x00 \<notin> set key \<and> CHR 0x00 \<notin> set val)"

definition Setenv :: "string \<Rightarrow> string \<Rightarrow> env \<Rightarrow> env" where
  "Setenv key val env = (if settable key val then AList.update key val env else env)"

definition Environ :: "env \<Rightarrow> string list" where
  "Environ env = map (\<lambda>(k, v). k @ ''='' @ v) env"

section \<open>Reading the files\<close>

datatype load_result = Loaded | NotExist | LoadError string

record dotenv_lib =
  Load :: "string \<Rightarrow> env \<Rightarrow> load_result \<times> env"
  Overload :: "string \<Rightarrow> env \<Rightarrow> load_result \<times> env"

text \<open>The variables before the first equals sign, later ones replacing earlier ones.\<close>

fun capture :: "string list \<Rightarrow> env \<Rightarrow> env" where
  "capture [] initialEnv = initialEnv"
| "capture (envVar # rest) initialEnv =
     (case IndexByte envVar CHR ''='' of
        None \<Rightarrow> capture rest initialEnv
      | Some i \<Rightarrow> capture rest (AList.update (take i envVar) (drop (Suc i) envVar) initialEnv))"

definition captureInitialEnv :: "env \<Rightarrow> env" where
  "captureInitialEnv env = capture (Environ env) []"

definition overrideFile :: "string \<Rightarrow> string \<Rightarrow> string" where
  "overrideFile folder appEnv = (if appEnv \<noteq> '''' then folder @ ''/.'' @ appEnv @ ''.env'' else folder @ ''/.local.env'')"

fun restore :: "env \<Rightarrow> env \<Rightarrow> env" where
  "restore [] env = env"
| "restore ((key, envVar) # rest) env = restore rest (Setenv key envVar env)"

text \<open>\<^verbatim>\<open>EnvLoader.read\<close>; \<open>None\<close> is the end of the process after a file that cannot be loaded.\<close>

definition EnvLoader_read :: "dotenv_lib \<Rightarrow> string \<Rightarrow> env \<Rightarrow> env option" where
  "EnvLoader_read lib folder env =
     (let appEnv = Getenv env ''APP_ENV'';
          initialEnv = captureInitialEnv env
      in case Load lib (folder @ ''/.env'') env of
           (LoadError err, env1) \<Rightarrow> None
         | (_, env1) \<Rightarrow>
             (case Overload lib (overrideFile folder appEnv) env1 of
                (LoadError err, env2) \<Rightarrow> None
              | (_, env2) \<Rightarrow> Some (restore initialEnv env2)))"

definition GetOrDefault :: "env \<Rightarrow> string \<Rightarrow> string \<Rightarrow> string" where
  "GetOrDefault env key dflt = (if Getenv env key \<noteq> '''' then Getenv env key else dflt)"

section \<open>Precedence\<close>

text \<open>What the library documents: a file that exists and parses has variables; \<^verbatim>\<open>Load\<close> does not change a variable that is already
  set, \<^verbatim>\<open>Overload\<close> does.\<close>

datatype env_file = NoFile | BadFile string | EnvVars "string \<rightharpoonup> string"

fun file_vars :: "env_file \<Rightarrow> string \<rightharpoonup> string" where
  "file_vars (EnvVars vs) = vs"
| "file_vars _ = Map.empty"

fun file_result :: "env_file \<Rightarrow> load_result" where
  "file_result NoFile = NotExist"
| "file_result (BadFile err) = LoadError err"
| "file_result (EnvVars vs) = Loaded"

definition reads_files :: "dotenv_lib \<Rightarrow> (string \<Rightarrow> env_file) \<Rightarrow> bool" where
  "reads_files lib files =
     (\<forall>path env.
        fst (Load lib path env) = file_result (files path) \<and> map_of (snd (Load lib path env)) = file_vars (files path) ++ map_of env \<and>
        fst (Overload lib path env) = file_result (files path) \<and> map_of (snd (Overload lib path env)) = map_of env ++ file_vars (files path))"

definition process_env :: "env \<Rightarrow> bool" where
  "process_env env = (distinct (map fst env) \<and> list_all (\<lambda>(k, v). settable k v) env)"

lemma IndexByte_first: "c \<notin> set k \<Longrightarrow> IndexByte (k @ c # v) c = Some (length k)"
  by (induction k) auto

lemma capture_all:
  "list_all (\<lambda>(k, v). settable k v) env \<Longrightarrow> map_of (capture (map (\<lambda>(k, v). k @ ''='' @ v) env) acc) = map_of acc ++ map_of (rev env)"
proof (induction env arbitrary: acc)
  case (Cons kv env)
  obtain k v where kv: "kv = (k, v)" by fastforce
  then have "IndexByte (k @ ''='' @ v) CHR ''='' = Some (length k)" using Cons.prems IndexByte_first by (simp add: settable_def)
  then show ?case using Cons kv by (simp add: update_conv')
qed simp

lemma map_of_rev: "distinct (map fst xs) \<Longrightarrow> map_of (rev xs) = map_of xs"
proof
  fix k
  assume d: "distinct (map fst xs)"
  show "map_of (rev xs) k = map_of xs k"
  proof (cases "map_of xs k")
    case None
    then have "map_of (rev xs) k = None" by (simp add: map_of_eq_None_iff)
    then show ?thesis using None by simp
  next
    case (Some v)
    then have "(k, v) \<in> set (rev xs)" by (simp add: map_of_SomeD)
    then show ?thesis using Some d by (simp add: rev_map [symmetric])
  qed
qed

lemma capture_distinct: "distinct (map fst acc) \<Longrightarrow> distinct (map fst (capture vs acc))"
  by (induction vs acc rule: capture.induct) (auto simp: distinct_update split: option.splits)

lemma captured:
  assumes "process_env env"
  shows "map_of (captureInitialEnv env) = map_of env" "distinct (map fst (captureInitialEnv env))"
    and "list_all (\<lambda>(k, v). settable k v) (captureInitialEnv env)"
proof -
  have env: "distinct (map fst env)" "list_all (\<lambda>(k, v). settable k v) env" using assms by (simp_all add: process_env_def)
  show same: "map_of (captureInitialEnv env) = map_of env"
    using capture_all [OF env(2), of "[]"] map_of_rev [OF env(1)] by (simp add: captureInitialEnv_def Environ_def)
  show d: "distinct (map fst (captureInitialEnv env))" using capture_distinct by (simp add: captureInitialEnv_def)
  have "set (captureInitialEnv env) = set env"
    using same map_of_eq_Some_iff [OF d] map_of_eq_Some_iff [OF env(1)] by auto
  then show "list_all (\<lambda>(k, v). settable k v) (captureInitialEnv env)" using env(2) by (simp add: list_all_iff)
qed

lemma restored:
  "list_all (\<lambda>(k, v). settable k v) ini \<Longrightarrow> map_of (restore ini env) = map_of env ++ map_of (rev ini)"
proof (induction ini arbitrary: env)
  case (Cons kv ini)
  obtain k v where kv: "kv = (k, v)" by fastforce
  then show ?case using Cons by (simp add: Setenv_def update_conv')
qed simp

text \<open>
  C35. Where a setting comes from. When both files can be read or do not exist, every variable has its value from the environment the process
  was started with, else from the file that \<^verbatim>\<open>APP_ENV\<close> of that environment chooses, else from the default file; a
  file that cannot be parsed ends the process.
\<close>

theorem config_precedence:
  assumes "reads_files lib files" and "process_env env"
  shows "case (file_result (files (folder @ ''/.env'')), file_result (files (overrideFile folder (Getenv env ''APP_ENV'')))) of
           (LoadError err, _) \<Rightarrow> EnvLoader_read lib folder env = None
         | (_, LoadError err) \<Rightarrow> EnvLoader_read lib folder env = None
         | _ \<Rightarrow> \<exists>env'. EnvLoader_read lib folder env = Some env' \<and>
                 map_of env' = file_vars (files (folder @ ''/.env'')) ++ file_vars (files (overrideFile folder (Getenv env ''APP_ENV''))) ++ map_of env"
proof -
  obtain e1 where e1: "Load lib (folder @ ''/.env'') env = (file_result (files (folder @ ''/.env'')), e1)"
    "map_of e1 = file_vars (files (folder @ ''/.env'')) ++ map_of env"
    using assms(1) unfolding reads_files_def by (metis prod.collapse)
  let ?o = "overrideFile folder (Getenv env ''APP_ENV'')"
  obtain e2 where e2: "Overload lib ?o e1 = (file_result (files ?o), e2)" "map_of e2 = map_of e1 ++ file_vars (files ?o)"
    using assms(1) unfolding reads_files_def by (metis prod.collapse)
  note cap = captured [OF assms(2)]
  have "map_of (restore (captureInitialEnv env) e2) = map_of e2 ++ map_of env"
    using restored [OF cap(3)] map_of_rev [OF cap(2)] cap(1) by simp
  also have "\<dots> = file_vars (files (folder @ ''/.env'')) ++ file_vars (files ?o) ++ map_of env"
    unfolding e2(2) e1(2) by (rule ext) (auto simp: map_add_def split: option.splits)
  finally show ?thesis
    using e1(1) e2(1) by (auto simp: EnvLoader_read_def Let_def split: load_result.splits)
qed

text \<open>A library over two files, and a process with one variable of its own.\<close>

definition demo_files :: "string \<Rightarrow> (string \<times> string) list" where
  "demo_files path = (if path = ''c/.env'' then [(''A'', ''1''), (''B'', ''1''), (''C'', ''1'')]
                      else if path = ''c/.dev.env'' then [(''A'', ''2''), (''B'', ''2'')] else [])"

definition demo_dotenv :: dotenv_lib where
  "demo_dotenv = \<lparr>Load = (\<lambda>path env. (Loaded, env @ demo_files path)), Overload = (\<lambda>path env. (Loaded, demo_files path @ env))\<rparr>"

theorem config_precedence_witness:
  "\<exists>env'. EnvLoader_read demo_dotenv ''c'' [(''APP_ENV'', ''dev''), (''A'', ''3'')] = Some env' \<and>
     Getenv env' ''A'' = ''3'' \<and> Getenv env' ''B'' = ''2'' \<and> Getenv env' ''C'' = ''1''"
proof -
  let ?env = "[(''APP_ENV'', ''dev''), (''A'', ''3'')]"
  have lib: "reads_files demo_dotenv (\<lambda>path. EnvVars (map_of (demo_files path)))"
    by (simp add: reads_files_def demo_dotenv_def)
  have env: "process_env ?env" by (simp add: process_env_def settable_def)
  have chosen: "overrideFile ''c'' (Getenv ?env ''APP_ENV'') = ''c/.dev.env''" by code_simp
  from config_precedence [OF lib env, of "''c''"] obtain env' where "EnvLoader_read demo_dotenv ''c'' ?env = Some env'"
    "map_of env' = map_of (demo_files ''c/.env'') ++ map_of (demo_files ''c/.dev.env'') ++ map_of ?env" unfolding chosen by auto
  then show ?thesis by (auto simp: Getenv_def demo_files_def map_add_def)
qed

text \<open>A value of \<^verbatim>\<open>APP_ENV\<close> in the default file chooses nothing: the file is chosen before it is read.\<close>

lemma app_env_of_file_ignored:
  assumes "map_of env ''APP_ENV'' = None"
  shows "overrideFile folder (Getenv env ''APP_ENV'') = folder @ ''/.local.env''"
  using assms by (simp add: Getenv_def overrideFile_def)

end
