(* ===== verification/Http_Responder.thy ===== *)
theory Http_Responder
  imports Go_Prelude
begin

text \<open>
  How a handler's result becomes a response: the errors of \<^verbatim>\<open>http/errors.go\<close>, the response types of \<^verbatim>\<open>http/response\<close>,
  the responder of \<^verbatim>\<open>http/responder.go\<close> with its pool of encoders, streams (\<^verbatim>\<open>http/stream.go\<close>) and the recording writer
  of \<^verbatim>\<open>http/capture.go\<close>. The encoding of a value as JSON and the rendering of a template depend on the methods and files of the
  application and are parameters.
\<close>

section \<open>Errors\<close>

datatype level = DEBUG | INFO | NOTICE | WARN | ERROR | FATAL

text \<open>\<open>AppError\<close> is an error of the application: its text, and its status code, log level and additional fields where it
  has the corresponding methods. The type of the field values is a parameter.\<close>

datatype 'j http_error =
    ErrorEntityNotFound string string
  | ErrorEntityAlreadyExist
  | ErrorInvalidParam "string list"
  | ErrorUnsupportedMediaType string
  | ErrorMissingParam "string list"
  | ErrorInvalidRoute
  | ErrorMethodNotAllowed
  | ErrorRequestTimeout
  | ErrorClientClosedRequest
  | ErrorServiceUnavailable string string
  | ErrorPanicRecovery
  | ErrorTooManyRequests
  | AppError string "int option" "level option" "(string \<times> 'j) list option"

fun Error :: "'j http_error \<Rightarrow> string" where
  "Error (ErrorEntityNotFound n v) = ''No entity found with '' @ n @ '': '' @ v"
| "Error ErrorEntityAlreadyExist = ''entity already exists''"
| "Error (ErrorInvalidParam ps) = [char_of (39 :: nat)] @ show_nat (length ps) @ [char_of (39 :: nat)] @ '' invalid parameter(s): '' @ Join ps '', ''"
| "Error (ErrorUnsupportedMediaType t) = (if t = '''' then ''unsupported media type'' else ''unsupported media type: '' @ t)"
| "Error (ErrorMissingParam ps) = [char_of (39 :: nat)] @ show_nat (length ps) @ [char_of (39 :: nat)] @ '' missing parameter(s): '' @ Join ps '', ''"
| "Error ErrorInvalidRoute = ''route not registered''"
| "Error ErrorMethodNotAllowed = ''method not allowed''"
| "Error ErrorRequestTimeout = ''request timed out''"
| "Error ErrorClientClosedRequest = ''client closed request''"
| "Error (ErrorServiceUnavailable d m) =
     (if m \<noteq> '''' \<and> d \<noteq> '''' then ''Service unavailable due to error: '' @ m @ '' from dependency '' @ d else ''Service Unavailable'')"
| "Error ErrorPanicRecovery = ''Internal Server Error''"
| "Error ErrorTooManyRequests = ''rate limit exceeded''"
| "Error (AppError msg _ _ _) = msg"

fun ErrorStatusCode :: "'j http_error \<Rightarrow> int option" where
  "ErrorStatusCode (ErrorEntityNotFound _ _) = Some 404"
| "ErrorStatusCode ErrorEntityAlreadyExist = Some 409"
| "ErrorStatusCode (ErrorInvalidParam _) = Some 400"
| "ErrorStatusCode (ErrorUnsupportedMediaType _) = Some 415"
| "ErrorStatusCode (ErrorMissingParam _) = Some 400"
| "ErrorStatusCode ErrorInvalidRoute = Some 404"
| "ErrorStatusCode ErrorMethodNotAllowed = Some 405"
| "ErrorStatusCode ErrorRequestTimeout = Some 408"
| "ErrorStatusCode ErrorClientClosedRequest = Some 499"
| "ErrorStatusCode (ErrorServiceUnavailable _ _) = Some 503"
| "ErrorStatusCode ErrorPanicRecovery = Some 500"
| "ErrorStatusCode ErrorTooManyRequests = Some 429"
| "ErrorStatusCode (AppError _ code _ _) = code"

fun LogLevel :: "'j http_error \<Rightarrow> level option" where
  "LogLevel (ErrorEntityNotFound _ _) = Some INFO"
| "LogLevel ErrorEntityAlreadyExist = Some WARN"
| "LogLevel (ErrorInvalidParam _) = Some INFO"
| "LogLevel (ErrorUnsupportedMediaType _) = Some INFO"
| "LogLevel (ErrorMissingParam _) = Some INFO"
| "LogLevel ErrorInvalidRoute = Some INFO"
| "LogLevel ErrorMethodNotAllowed = Some INFO"
| "LogLevel ErrorRequestTimeout = Some INFO"
| "LogLevel ErrorClientClosedRequest = Some DEBUG"
| "LogLevel (ErrorServiceUnavailable _ _) = Some ERROR"
| "LogLevel ErrorPanicRecovery = Some ERROR"
| "LogLevel ErrorTooManyRequests = Some WARN"
| "LogLevel (AppError _ _ lvl _) = lvl"

definition GetLogLevelForError :: "'j http_error \<Rightarrow> level" where
  "GetLogLevelForError err = (case LogLevel err of Some l \<Rightarrow> l | None \<Rightarrow> ERROR)"

section \<open>Results of handlers\<close>

text \<open>
  A value of the type \<^verbatim>\<open>any\<close>: nil, a nil pointer, a pointer, a structure of the application with the flag that all its
  fields have zero values, any other value, or a response type. A byte slice may be nil.
\<close>

datatype format = SSE | NDJSON

datatype ('s, 'j) data =
    NilAny
  | NilPointer
  | Pointer "('s, 'j) data"
  | Struct bool 'j
  | Plain 'j
  | Raw "('s, 'j) data"
  | Response "('s, 'j) data" "(string \<times> 'j) list option" "(string \<times> string) list option"
  | File "string option" string
  | Template "('s, 'j) data" string
  | XML "string option" string
  | Redirect string
  | Stream "'s option" format int

fun isNil :: "('s, 'j) data \<Rightarrow> bool" where
  "isNil NilAny = True"
| "isNil NilPointer = True"
| "isNil _ = False"

fun is_struct :: "('s, 'j) data \<Rightarrow> bool" where
  "is_struct NilAny = False"
| "is_struct NilPointer = False"
| "is_struct (Pointer _) = False"
| "is_struct (Plain _) = False"
| "is_struct _ = True"

text \<open>\<^verbatim>\<open>reflect.DeepEqual\<close> of a value with the zero value of a structure type. Values of different types differ, so a pointer is
  never equal.\<close>

fun equals_zero :: "('s, 'j) data \<Rightarrow> bool" where
  "equals_zero (Struct z _) = z"
| "equals_zero (Raw d) = (d = NilAny)"
| "equals_zero (Response d m h) = (d = NilAny \<and> m = None \<and> h = None)"
| "equals_zero (File c t) = (c = None \<and> t = '''')"
| "equals_zero (Template d n) = (d = NilAny \<and> n = '''')"
| "equals_zero (XML c t) = (c = None \<and> t = '''')"
| "equals_zero (Redirect u) = (u = '''')"
| "equals_zero (Stream s f b) = (s = None \<and> f = SSE \<and> b = 0)"
| "equals_zero _ = False"

definition isEmptyStruct :: "('s, 'j) data \<Rightarrow> bool" where
  "isEmptyStruct d =
     (if d = NilAny then False
      else if d = NilPointer then False
      else let v = (case d of Pointer e \<Rightarrow> e | _ \<Rightarrow> d) in
        if \<not> is_struct v then False else equals_zero d)"

section \<open>The response writer\<close>

text \<open>A writer keeps the header map and the calls made on it; a streamed write carries whether it
  succeeded. \<open>CallClose\<close> closes the source of a stream, \<open>CallPanic\<close> marks a panic of the responder.\<close>

datatype wcall = CallHeader int | CallWrite string | CallFlush | CallStream string bool | CallClose | CallPanic

record writer =
  hdr :: "string \<Rightarrow> string list option"
  calls :: "wcall list"

definition fresh_writer :: writer where
  "fresh_writer = \<lparr>hdr = (\<lambda>_. None), calls = []\<rparr>"

definition call :: "wcall \<Rightarrow> writer \<Rightarrow> writer" where
  "call c w = w\<lparr>calls := calls w @ [c]\<rparr>"

definition Header_Set :: "string \<Rightarrow> string \<Rightarrow> writer \<Rightarrow> writer" where
  "Header_Set k v w = w\<lparr>hdr := (hdr w)(CanonicalHeaderKey k := Some [v])\<rparr>"

section \<open>Status codes and the error object\<close>

definition handleSuccessStatusCode :: "string \<Rightarrow> ('s, 'j) data \<Rightarrow> int" where
  "handleSuccessStatusCode meth d =
     (if meth = ''POST'' then (if d \<noteq> NilAny then 201 else 202)
      else if meth = ''DELETE'' then 204 else 200)"

definition getStatusCodeForSpecialResponse :: "string \<Rightarrow> ('s, 'j) data \<Rightarrow> 'j http_error option \<Rightarrow> int" where
  "getStatusCodeForSpecialResponse meth d err =
     (case err of
        None \<Rightarrow> handleSuccessStatusCode meth d
      | Some e \<Rightarrow> (case ErrorStatusCode e of Some c \<Rightarrow> c | None \<Rightarrow> 500))"

datatype 'j cell = Message string | Field 'j

type_synonym 'j error_object = "string \<Rightarrow> 'j cell option"

text \<open>The additional fields are a map; the list enumerates it in some order.\<close>

fun add_fields :: "(string \<times> 'j) list \<Rightarrow> 'j error_object \<Rightarrow> 'j error_object" where
  "add_fields [] resp = resp"
| "add_fields ((k, v) # fs) resp = add_fields fs (if k = ''message'' then resp else resp(k := Some (Field v)))"

definition createErrorResponse :: "'j http_error \<Rightarrow> 'j error_object" where
  "createErrorResponse err =
     (let resp = (\<lambda>_. None)(''message'' := Some (Message (Error err))) in
      case err of AppError _ _ _ (Some fs) \<Rightarrow> add_fields fs resp | _ \<Rightarrow> resp)"

definition errEmptyResponse :: "'j http_error" where
  "errEmptyResponse = AppError ''internal server error'' None None None"

definition handleSuccess :: "string \<Rightarrow> ('s, 'j) data \<Rightarrow> int \<times> 'j error_object option" where
  "handleSuccess meth d =
     (if meth = ''POST'' then (if d \<noteq> NilAny then (201, None) else (202, None))
      else if meth = ''DELETE'' then (204, None) else (200, None))"

definition getStatusCode :: "string \<Rightarrow> ('s, 'j) data \<Rightarrow> 'j http_error option \<Rightarrow> int \<times> 'j error_object option" where
  "getStatusCode meth d err =
     (case err of
        None \<Rightarrow> handleSuccess meth d
      | Some e \<Rightarrow>
          if \<not> isNil d then (206, Some (createErrorResponse e))
          else (case ErrorStatusCode e of
                  Some c \<Rightarrow> (c, Some (createErrorResponse e))
                | None \<Rightarrow> (500, Some (createErrorResponse e))))"

definition determineResponse :: "string \<Rightarrow> ('s, 'j) data \<Rightarrow> 'j http_error option \<Rightarrow> int \<times> 'j error_object option" where
  "determineResponse meth d err =
     (if err \<noteq> None \<and> isEmptyStruct d then (500, Some (createErrorResponse errEmptyResponse))
      else let (statusCode, errorObj) = getStatusCode meth d err in
        (if statusCode = 0 then 500 else statusCode, errorObj))"

section \<open>The pool of encoders\<close>

record ('s, 'j) response =
  rError :: "'j error_object option"
  rMetadata :: "(string \<times> 'j) list option"
  rData :: "('s, 'j) data"

definition no_response :: "('s, 'j) response" where
  "no_response = \<lparr>rError = None, rMetadata = None, rData = NilAny\<rparr>"

text \<open>What is encoded: the envelope, the data of a raw response or a streamed value alone, or the error of a stream.\<close>

datatype ('s, 'j) payload = Bare "('s, 'j) data" | Envelope "('s, 'j) response" | ErrorObject string

text \<open>The contents and capacity of the buffer and the envelope.\<close>

record ('s, 'j) respEncoder =
  buf :: string
  bufCap :: nat
  resp :: "('s, 'j) response"

definition maxRespPooledBuf :: nat where "maxRespPooledBuf = 64 * 1024"
definition initialRespBufCap :: nat where "initialRespBufCap = 512"

definition newRespEncoder :: "('s, 'j) respEncoder" where
  "newRespEncoder = \<lparr>buf = '''', bufCap = initialRespBufCap, resp = no_response\<rparr>"

text \<open>The pool hands out any of its members, or a new encoder.\<close>

definition getRespBuf :: "nat option \<Rightarrow> ('s, 'j) respEncoder list \<Rightarrow> ('s, 'j) respEncoder \<times> ('s, 'j) respEncoder list" where
  "getRespBuf pick pool =
     (let (re, rest) = (case pick of
          Some i \<Rightarrow> if i < length pool then (pool ! i, take i pool @ drop (Suc i) pool) else (newRespEncoder, pool)
        | None \<Rightarrow> (newRespEncoder, pool))
      in (re\<lparr>buf := ''''\<rparr>, rest))"

definition putRespBuf :: "('s, 'j) respEncoder \<Rightarrow> ('s, 'j) respEncoder list \<Rightarrow> ('s, 'j) respEncoder list" where
  "putRespBuf re pool =
     (let re1 = re\<lparr>resp := no_response\<rparr> in
      if bufCap re1 \<le> maxRespPooledBuf then re1 # pool else pool)"

text \<open>A write into the buffer; \<open>grow\<close> is the growth policy of the library.\<close>

definition buf_write :: "(nat \<Rightarrow> nat \<Rightarrow> nat) \<Rightarrow> string \<Rightarrow> ('s, 'j) respEncoder \<Rightarrow> ('s, 'j) respEncoder" where
  "buf_write grow b re =
     (let n = length (buf re) + length b in
      re\<lparr>buf := buf re @ b, bufCap := (if n \<le> bufCap re then bufCap re else grow (bufCap re) n)\<rparr>)"

section \<open>Streams\<close>

text \<open>What a source gives when it is asked for the next value.\<close>

datatype ('s, 'j) pull = Value "('s, 'j) data" 's | End "string option" | Panics string

datatype flush_result = Flushed | NotSupported | FlushFailed

text \<open>One turn of the loop: whether the ticker fires rather than the source, and what becomes of the write.\<close>

record turn =
  isTick :: bool
  writeOk :: bool
  flush :: flush_result

text \<open>The world around the responder.\<close>

record ('s, 'j) renv =
  Marshal :: "('s, 'j) payload \<Rightarrow> string option"
  Render :: "('s, 'j) data \<Rightarrow> string \<Rightarrow> string list \<times> bool"
  Next :: "'s \<Rightarrow> ('s, 'j) pull"
  turns :: "turn list"
  pick :: "nat option"
  grow :: "nat \<Rightarrow> nat \<Rightarrow> nat"

abbreviation nl :: string where "nl \<equiv> [CHR 0x0A]"

definition writeStream :: "turn \<Rightarrow> string \<Rightarrow> writer \<Rightarrow> bool \<times> writer" where
  "writeStream t b w =
     (if \<not> writeOk t then (False, call (CallStream b False) w)
      else (flush t \<noteq> FlushFailed, call CallFlush (call (CallStream b True) w)))"

definition writeErrorFrame :: "('s, 'j) renv \<Rightarrow> turn \<Rightarrow> format \<Rightarrow> string \<Rightarrow> writer \<Rightarrow> bool \<times> writer" where
  "writeErrorFrame env t fmt streamErr w =
     (case Marshal env (ErrorObject streamErr) of
        None \<Rightarrow> (False, w)
      | Some js \<Rightarrow>
          if fmt = NDJSON then writeStream t (js @ nl) w
          else writeStream t (''event: error'' @ nl @ ''data: '' @ js @ nl @ nl) w)"

definition writeFrame :: "('s, 'j) renv \<Rightarrow> turn \<Rightarrow> format \<Rightarrow> ('s, 'j) data \<Rightarrow> writer \<Rightarrow> bool \<times> writer" where
  "writeFrame env t fmt v w =
     (case Marshal env (Bare v) of
        None \<Rightarrow> (False, snd (writeErrorFrame env t fmt ''stream value could not be encoded'' w))
      | Some js \<Rightarrow>
          if fmt = NDJSON then writeStream t (js @ nl) w
          else writeStream t (''data: '' @ js @ nl @ nl) w)"

definition writeHeartbeat :: "turn \<Rightarrow> format \<Rightarrow> writer \<Rightarrow> bool \<times> writer" where
  "writeHeartbeat t fmt w = (if fmt = NDJSON then writeStream t nl w else writeStream t ('': keep-alive'' @ nl @ nl) w)"

definition finishStream :: "('s, 'j) renv \<Rightarrow> turn \<Rightarrow> format \<Rightarrow> string option \<Rightarrow> writer \<Rightarrow> writer" where
  "finishStream env t fmt readErr w =
     (case readErr of
        Some e \<Rightarrow> snd (writeErrorFrame env t fmt e w)
      | None \<Rightarrow> if fmt = SSE then snd (writeStream t (''data: [DONE]'' @ nl @ nl) w) else w)"

text \<open>The next item the reading goroutine offers, or the error it ends with.\<close>

definition readStream :: "('s, 'j) renv \<Rightarrow> 's \<Rightarrow> (('s, 'j) data \<times> 's) + string option" where
  "readStream env s =
     (case Next env s of
        Value v s' \<Rightarrow> Inl (v, s')
      | End e \<Rightarrow> Inr e
      | Panics p \<Rightarrow> Inr (Some (''stream source panicked: '' @ p)))"

text \<open>The loop; the flag tells whether it has ended. With no turn left it is still waiting.\<close>

fun pump :: "('s, 'j) renv \<Rightarrow> format \<Rightarrow> turn list \<Rightarrow> 's \<Rightarrow> writer \<Rightarrow> bool \<times> writer" where
  "pump env fmt [] s w = (False, w)"
| "pump env fmt (t # ts) s w =
     (if isTick t then
        (case writeHeartbeat t fmt w of (ok, w1) \<Rightarrow> if ok then pump env fmt ts s w1 else (True, w1))
      else (case readStream env s of
              Inr e \<Rightarrow> (True, finishStream env t fmt e w)
            | Inl (v, s') \<Rightarrow> (case writeFrame env t fmt v w of (ok, w1) \<Rightarrow> if ok then pump env fmt ts s' w1 else (True, w1))))"

definition setStreamHeaders :: "format \<Rightarrow> writer \<Rightarrow> writer" where
  "setStreamHeaders fmt w =
     (if fmt = NDJSON then Header_Set ''Content-Type'' ''application/x-ndjson'' w
      else Header_Set ''Connection'' ''keep-alive'' (Header_Set ''Cache-Control'' ''no-cache''
        (Header_Set ''Content-Type'' ''text/event-stream'' w)))"

definition nil_stream_body :: string where
  "nil_stream_body = ''{'' @ [CHR 0x22] @ ''error'' @ [CHR 0x22] @ '':{'' @ [CHR 0x22] @ ''message'' @ [CHR 0x22] @ '':'' @ [CHR 0x22]
     @ ''stream source is nil'' @ [CHR 0x22] @ ''}}'' @ nl"

definition handleStream :: "('s, 'j) renv \<Rightarrow> 's option \<Rightarrow> format \<Rightarrow> writer \<Rightarrow> writer" where
  "handleStream env src fmt w =
     (case src of
        None \<Rightarrow> call (CallWrite nil_stream_body) (call (CallHeader 500) w)
      | Some s \<Rightarrow>
          (case pump env fmt (turns env) s (call CallFlush (call (CallHeader 200) (setStreamHeaders fmt w))) of
             (ended, w1) \<Rightarrow> if ended then call CallClose w1 else w1))"

section \<open>The responder\<close>

definition handleXML :: "string option \<Rightarrow> string \<Rightarrow> int \<Rightarrow> writer \<Rightarrow> writer" where
  "handleXML content ctype statusCode w =
     (let contentType = (if ctype = '''' then ''application/xml'' else ctype);
          w1 = call (CallHeader statusCode) (Header_Set ''Content-Type'' contentType w);
          c = (case content of None \<Rightarrow> '''' | Some c \<Rightarrow> c)
      in if length c > 0 then call (CallWrite c) w1 else w1)"

definition handleRedirect :: "string \<Rightarrow> string \<Rightarrow> writer \<Rightarrow> writer" where
  "handleRedirect meth url w =
     (let redirectStatusCode = (if meth = ''POST'' \<or> meth = ''PUT'' \<or> meth = ''PATCH'' \<or> meth = ''QUERY'' then 303 else 302)
      in call (CallHeader redirectStatusCode) (Header_Set ''Location'' url w))"

definition handleSpecialResponseTypes :: "('s, 'j) renv \<Rightarrow> string \<Rightarrow> ('s, 'j) data \<Rightarrow> 'j http_error option \<Rightarrow> writer \<Rightarrow> writer option" where
  "handleSpecialResponseTypes env meth d err w =
     (let statusCode = getStatusCodeForSpecialResponse meth d err in
      case d of
        Stream s fmt _ \<Rightarrow> Some (handleStream env s fmt w)
      | File c t \<Rightarrow> Some (call (CallWrite (case c of None \<Rightarrow> '''' | Some b \<Rightarrow> b)) (call (CallHeader statusCode) (Header_Set ''Content-Type'' t w)))
      | Template x n \<Rightarrow>
          let w1 = call (CallHeader statusCode) (Header_Set ''Content-Type'' ''text/html'' w); (bs, panics) = Render env x n;
              w2 = fold (\<lambda>b. call (CallWrite b)) bs w1
          in Some (if panics then call CallPanic w2 else w2)
      | XML c t \<Rightarrow> Some (handleXML c t statusCode w)
      | Redirect u \<Rightarrow> Some (handleRedirect meth u w)
      | _ \<Rightarrow> None)"

definition encode_failed_body :: string where
  "encode_failed_body = ''{'' @ [CHR 0x22] @ ''error'' @ [CHR 0x22] @ '':{'' @ [CHR 0x22] @ ''message'' @ [CHR 0x22] @ '': '' @ [CHR 0x22]
     @ ''failed to encode response as JSON'' @ [CHR 0x22] @ ''}}'' @ nl"

definition default_content_type :: "writer \<Rightarrow> writer" where
  "default_content_type w =
     (case hdr w ''Content-Type'' of
        Some (v # _) \<Rightarrow> if v = '''' then w\<lparr>hdr := (hdr w)(''Content-Type'' := Some [''application/json''])\<rparr> else w
      | _ \<Rightarrow> w\<lparr>hdr := (hdr w)(''Content-Type'' := Some [''application/json''])\<rparr>)"

text \<open>The envelope is kept in the encoder and encoded from there.\<close>

definition fill :: "('s, 'j) data \<Rightarrow> 'j error_object option \<Rightarrow> ('s, 'j) respEncoder \<Rightarrow> ('s, 'j) respEncoder \<times> ('s, 'j) payload" where
  "fill d errorObj re =
     (case d of
        Raw x \<Rightarrow> (re, Bare x)
      | Response x m _ \<Rightarrow> let re1 = re\<lparr>resp := \<lparr>rError = errorObj, rMetadata = m, rData = x\<rparr>\<rparr> in (re1, Envelope (resp re1))
      | _ \<Rightarrow> let d1 = (if isNil d then NilAny else d); re1 = re\<lparr>resp := \<lparr>rError = errorObj, rMetadata = None, rData = d1\<rparr>\<rparr>
             in (re1, Envelope (resp re1)))"

definition Respond :: "('s, 'j) renv \<Rightarrow> string \<Rightarrow> ('s, 'j) data \<Rightarrow> 'j http_error option \<Rightarrow> ('s, 'j) respEncoder list \<Rightarrow> writer \<Rightarrow>
    ('s, 'j) respEncoder list \<times> writer" where
  "Respond env meth d err pool w =
     (case handleSpecialResponseTypes env meth d err w of
        Some w1 \<Rightarrow> (pool, w1)
      | None \<Rightarrow>
          let (statusCode, errorObj) = determineResponse meth d err;
              w1 = default_content_type w;
              (re, rest) = getRespBuf (pick env) pool;
              (re1, p) = fill d errorObj re
          in (case Marshal env p of
                None \<Rightarrow> (putRespBuf re1 rest, call (CallWrite encode_failed_body) (call (CallHeader 500) w1))
              | Some js \<Rightarrow>
                  let re2 = buf_write (grow env) (js @ nl) re1
                  in (putRespBuf re2 rest, call (CallWrite (buf re2)) (call (CallHeader statusCode) w1))))"

section \<open>The recording writer\<close>

record ResponseCapture =
  cHeader :: "string \<Rightarrow> string list option"
  cBody :: string
  cStatus :: int
  cMax :: int
  wrote :: bool

definition NewResponseCapture :: "int \<Rightarrow> ResponseCapture" where
  "NewResponseCapture maxBytes = \<lparr>cHeader = (\<lambda>_. None), cBody = '''', cStatus = 200, cMax = maxBytes, wrote = False\<rparr>"

definition capture_WriteHeader :: "int \<Rightarrow> ResponseCapture \<Rightarrow> ResponseCapture" where
  "capture_WriteHeader status c = (if \<not> wrote c then c\<lparr>cStatus := status, wrote := True\<rparr> else c)"

definition capture_Write :: "string \<Rightarrow> ResponseCapture \<Rightarrow> int \<times> ResponseCapture" where
  "capture_Write b c =
     (let c1 = c\<lparr>wrote := True\<rparr>; room = cMax c1 - int (length (cBody c1)) in
      if room \<le> 0 then (int (length b), c1)
      else if int (length b) > room then (int (length b), c1\<lparr>cBody := cBody c1 @ take (nat room) b\<rparr>)
      else (int (length b), c1\<lparr>cBody := cBody c1 @ b\<rparr>))"

text \<open>The calls of a responder on a capture.\<close>

fun capture_call :: "wcall \<Rightarrow> ResponseCapture \<Rightarrow> ResponseCapture" where
  "capture_call (CallHeader n) c = capture_WriteHeader n c"
| "capture_call (CallWrite b) c = snd (capture_Write b c)"
| "capture_call (CallStream b ok) c = (if ok then snd (capture_Write b c) else c)"
| "capture_call _ c = c"

section \<open>The error object\<close>

lemma add_fields_message: "add_fields fs rs ''message'' = rs ''message''"
  by (induction fs rs rule: add_fields.induct) auto

lemma add_fields_other: "distinct (map fst fs) \<Longrightarrow> k \<noteq> ''message'' \<Longrightarrow>
    add_fields fs rs k = (case map_of fs k of Some v \<Rightarrow> Some (Field v) | None \<Rightarrow> rs k)"
proof (induction fs rs rule: add_fields.induct)
  case (2 k' v fs rs)
  then have "map_of fs k' = None" by (auto simp: map_of_eq_None_iff image_iff)
  with 2 show ?case by (auto split: option.splits)
qed simp

lemma createErrorResponse_message: "createErrorResponse e ''message'' = Some (Message (Error e))"
  by (auto simp: createErrorResponse_def Let_def add_fields_message split: http_error.splits option.splits)

section \<open>Every response has one status and one body\<close>

fun special :: "('s, 'j) data \<Rightarrow> bool" where
  "special (Stream _ _ _) = True"
| "special (File _ _) = True"
| "special (Template _ _) = True"
| "special (XML _ _) = True"
| "special (Redirect _) = True"
| "special _ = False"

text \<open>What the documentation of the responder promises.\<close>

definition promised_status :: "string \<Rightarrow> ('s, 'j) data \<Rightarrow> 'j http_error option \<Rightarrow> int" where
  "promised_status meth d err =
     (case err of
        None \<Rightarrow> if meth = ''POST'' then (if d = NilAny then 202 else 201) else if meth = ''DELETE'' then 204 else 200
      | Some e \<Rightarrow>
          if is_struct d \<and> equals_zero d then 500
          else if d \<noteq> NilAny \<and> d \<noteq> NilPointer then 206
          else (case ErrorStatusCode e of None \<Rightarrow> 500 | Some c \<Rightarrow> if c = 0 then 500 else c))"

definition promised_error :: "('s, 'j) data \<Rightarrow> 'j http_error option \<Rightarrow> 'j error_object option" where
  "promised_error d err =
     map_option (\<lambda>e. createErrorResponse (if is_struct d \<and> equals_zero d then errEmptyResponse else e)) err"

definition promised_payload :: "('s, 'j) data \<Rightarrow> 'j http_error option \<Rightarrow> ('s, 'j) payload" where
  "promised_payload d err =
     (case d of
        Raw x \<Rightarrow> Bare x
      | Response x m h \<Rightarrow> Envelope \<lparr>rError = promised_error d err, rMetadata = m, rData = x\<rparr>
      | NilPointer \<Rightarrow> Envelope \<lparr>rError = promised_error d err, rMetadata = None, rData = NilAny\<rparr>
      | _ \<Rightarrow> Envelope \<lparr>rError = promised_error d err, rMetadata = None, rData = d\<rparr>)"

lemma isEmptyStruct_iff: "isEmptyStruct d \<longleftrightarrow> is_struct d \<and> equals_zero d"
  by (cases d) (auto simp: isEmptyStruct_def Let_def)

lemma isNil_iff: "isNil d \<longleftrightarrow> d = NilAny \<or> d = NilPointer"
  by (cases d) auto

lemma determineResponse_promised: "determineResponse meth d err = (promised_status meth d err, promised_error d err)"
  by (auto simp: determineResponse_def promised_status_def promised_error_def isEmptyStruct_iff isNil_iff
      getStatusCode_def handleSuccess_def split: option.splits)

lemma not_special: "\<not> special d \<Longrightarrow> handleSpecialResponseTypes env meth d err w = None"
  by (cases d) (simp_all add: handleSpecialResponseTypes_def Let_def)

lemma fill_promised: "fill d (promised_error d err) re = (re1, p) \<Longrightarrow> p = promised_payload d err \<and> buf re1 = buf re \<and> bufCap re1 = bufCap re"
  by (cases d) (auto simp: fill_def promised_payload_def Let_def)

lemma getRespBuf_empty: "getRespBuf i pool = (re, rest) \<Longrightarrow> buf re = ''''"
  by (auto simp: getRespBuf_def Let_def split: prod.splits)

text \<open>The answer to a request as a function of the result alone.\<close>

definition promised_calls :: "('s, 'j) renv \<Rightarrow> string \<Rightarrow> ('s, 'j) data \<Rightarrow> 'j http_error option \<Rightarrow> wcall list" where
  "promised_calls env meth d err =
     (case Marshal env (promised_payload d err) of
        None \<Rightarrow> [CallHeader 500, CallWrite encode_failed_body]
      | Some js \<Rightarrow> [CallHeader (promised_status meth d err), CallWrite (js @ nl)])"

lemma Respond_plain:
  assumes "\<not> special d"
  shows "calls (snd (Respond env meth d err pool w)) = calls w @ promised_calls env meth d err"
    and "hdr (snd (Respond env meth d err pool w)) = hdr (default_content_type w)"
proof -
  obtain re rest where g: "getRespBuf (pick env) pool = (re, rest)" by (rule prod.exhaust)
  obtain re1 p where f: "fill d (promised_error d err) re = (re1, p)" by (rule prod.exhaust)
  note facts = not_special [OF assms] determineResponse_promised g f fill_promised [OF f] getRespBuf_empty [OF g]
  have "calls (default_content_type w) = calls w" by (simp add: default_content_type_def split: option.splits list.splits)
  then show "calls (snd (Respond env meth d err pool w)) = calls w @ promised_calls env meth d err"
    by (simp add: facts Respond_def Let_def promised_calls_def call_def buf_write_def split: option.splits)
  show "hdr (snd (Respond env meth d err pool w)) = hdr (default_content_type w)"
    by (simp add: facts Respond_def Let_def call_def split: option.splits)
qed

section \<open>The pool does not show\<close>

text \<open>Nothing of a response stays in a pooled encoder, and no pooled buffer is large.\<close>

definition pool_ok :: "('s, 'j) respEncoder list \<Rightarrow> bool" where
  "pool_ok pool \<longleftrightarrow> (\<forall>re \<in> set pool. resp re = no_response \<and> bufCap re \<le> maxRespPooledBuf)"

lemma pool_ok_put: "pool_ok pool \<Longrightarrow> pool_ok (putRespBuf re pool)"
  by (auto simp: pool_ok_def putRespBuf_def Let_def)

lemma getRespBuf_subset: "getRespBuf i pool = (re, rest) \<Longrightarrow> set rest \<subseteq> set pool"
  by (auto simp: getRespBuf_def Let_def split: prod.splits option.splits if_splits dest: in_set_takeD in_set_dropD)

lemma pool_ok_get: "pool_ok pool \<Longrightarrow> getRespBuf i pool = (re, rest) \<Longrightarrow> pool_ok rest"
  using getRespBuf_subset [of i pool re rest] by (auto simp: pool_ok_def)

lemma pool_ok_Respond:
  assumes "pool_ok pool"
  shows "pool_ok (fst (Respond env meth d err pool w))"
proof (cases "handleSpecialResponseTypes env meth d err w")
  case None
  obtain re rest where g: "getRespBuf (pick env) pool = (re, rest)" by (rule prod.exhaust)
  obtain sc eo where s: "determineResponse meth d err = (sc, eo)" by (rule prod.exhaust)
  obtain re1 p where f: "fill d eo re = (re1, p)" by (rule prod.exhaust)
  from pool_ok_get [OF assms g] show ?thesis by (simp add: Respond_def None g s f Let_def pool_ok_put split: option.splits)
qed (simp add: Respond_def assms)

lemma Respond_special: "special d \<Longrightarrow> fst (Respond env meth d err pool w) = pool \<and>
    snd (Respond env meth d err pool w) = the (handleSpecialResponseTypes env meth d err w)"
  by (cases d) (simp_all add: Respond_def handleSpecialResponseTypes_def Let_def split: prod.splits)

lemma Respond_ignores_pool: "snd (Respond env meth d err pool w) = snd (Respond env meth d err [] w)"
  by (cases "special d") (simp_all add: Respond_special writer.equality Respond_plain)

text \<open>A server answering one request after the other with a shared pool, which the collector may thin out in between.\<close>

record ('s, 'j) exchange =
  xenv :: "('s, 'j) renv"
  xmethod :: string
  xdata :: "('s, 'j) data"
  xerr :: "'j http_error option"
  xkeep :: "nat \<Rightarrow> bool"

definition thin_out :: "(nat \<Rightarrow> bool) \<Rightarrow> 'a list \<Rightarrow> 'a list" where
  "thin_out keep pool = nths pool {i. keep i}"

fun answer_all :: "('s, 'j) exchange list \<Rightarrow> ('s, 'j) respEncoder list \<Rightarrow> ('s, 'j) respEncoder list \<times> writer list" where
  "answer_all [] pool = (pool, [])"
| "answer_all (x # xs) pool =
     (case Respond (xenv x) (xmethod x) (xdata x) (xerr x) (thin_out (xkeep x) pool) fresh_writer of
        (pool1, w) \<Rightarrow> case answer_all xs pool1 of (pool2, ws) \<Rightarrow> (pool2, w # ws))"

lemma pool_ok_collect: "pool_ok pool \<Longrightarrow> pool_ok (thin_out keep pool)"
  by (auto simp: pool_ok_def thin_out_def dest: in_set_nthsD)

lemma answer_all_spec: "pool_ok pool \<Longrightarrow> answer_all xs pool = (pool', ws) \<Longrightarrow>
    pool_ok pool' \<and> ws = map (\<lambda>x. snd (Respond (xenv x) (xmethod x) (xdata x) (xerr x) [] fresh_writer)) xs"
proof (induction xs arbitrary: pool pool' ws)
  case (Cons x xs)
  let ?r = "Respond (xenv x) (xmethod x) (xdata x) (xerr x) (thin_out (xkeep x) pool) fresh_writer"
  obtain ws1 where ws: "answer_all xs (fst ?r) = (pool', ws1)" "ws = snd ?r # ws1"
    using Cons.prems(2) by (auto split: prod.splits)
  have "pool_ok (fst ?r)" using Cons.prems(1) pool_ok_collect pool_ok_Respond by blast
  from Cons.IH [OF this ws(1)] ws(2) show ?case using Respond_ignores_pool by simp
qed simp

text \<open>
  C36. Reusing encoders is invisible. Whatever requests are answered one after the other with one pool of encoders, and
  whichever encoder the pool hands out each time, every answer is the one a new encoder gives: no byte and no
  field of another response shows. What the pool keeps holds no payload, and no buffer above 64 KiB.
\<close>

theorem pool_is_invisible:
  assumes "answer_all xs [] = (pool, ws)"
  shows "ws = map (\<lambda>x. snd (Respond (xenv x) (xmethod x) (xdata x) (xerr x) [] fresh_writer)) xs \<and>
    (\<forall>re \<in> set pool. resp re = no_response \<and> bufCap re \<le> 65536)"
proof -
  have "pool_ok ([] :: ('a, 'b) respEncoder list)" by (simp add: pool_ok_def)
  from answer_all_spec [OF this assms] show ?thesis by (auto simp: pool_ok_def maxRespPooledBuf_def)
qed

section \<open>What the client of a stream sees\<close>

fun sent_calls :: "wcall list \<Rightarrow> string" where
  "sent_calls [] = ''''"
| "sent_calls (CallStream b True # cs) = b @ sent_calls cs"
| "sent_calls (_ # cs) = sent_calls cs"

lemma sent_calls_append [simp]: "sent_calls (xs @ ys) = sent_calls xs @ sent_calls ys"
  by (induction xs rule: sent_calls.induct) simp_all

abbreviation sent :: "writer \<Rightarrow> string" where "sent w \<equiv> sent_calls (calls w)"

text \<open>
  A reader of server-sent events: comments are skipped, a blank line ends an event, which is reported with its name
  if it has data; an unfinished event at the end is dropped.
\<close>

fun sse_lines :: "string \<Rightarrow> string \<Rightarrow> string list \<Rightarrow> (string \<times> string) list" where
  "sse_lines ev dt [] = []"
| "sse_lines ev dt (l # ls) =
     (if l = '''' then (if dt = '''' then sse_lines '''' '''' ls else (ev, dt) # sse_lines '''' '''' ls)
      else if HasPrefix l '':'' then sse_lines ev dt ls
      else if HasPrefix l ''data: '' then sse_lines ev (if dt = '''' then drop 6 l else dt @ nl @ drop 6 l) ls
      else if HasPrefix l ''event: '' then sse_lines (drop 7 l) dt ls
      else sse_lines ev dt ls)"

definition sse_events :: "string \<Rightarrow> (string \<times> string) list" where
  "sse_events s = sse_lines '''' '''' (Split s (CHR 0x0A))"

definition ndjson_values :: "string \<Rightarrow> string list" where
  "ndjson_values s = filter (\<lambda>l. l \<noteq> '''') (Split s (CHR 0x0A))"

text \<open>Encoded values are single lines.\<close>

definition one_line :: "string \<Rightarrow> bool" where
  "one_line js \<longleftrightarrow> js \<noteq> '''' \<and> CHR 0x0A \<notin> set js"

definition line_encoder :: "('s, 'j) renv \<Rightarrow> bool" where
  "line_encoder env \<longleftrightarrow> (\<forall>p js. Marshal env p = Some js \<longrightarrow> one_line js)"

lemma sse_data: "one_line js \<Longrightarrow> sse_events (''data: '' @ js @ nl @ nl @ rest) = ('''', js) # sse_events rest"
proof -
  assume js: "one_line js"
  have "Split ((''data: '' @ js) @ CHR 0x0A # [] @ CHR 0x0A # rest) (CHR 0x0A) = (''data: '' @ js) # [] # Split rest (CHR 0x0A)"
    using js by (subst Split_append) (simp_all add: one_line_def)
  with js show ?thesis by (simp add: sse_events_def HasPrefix_def one_line_def)
qed

lemma sse_error:
  "one_line js \<Longrightarrow> sse_events (''event: error'' @ nl @ ''data: '' @ js @ nl @ nl @ rest) = (''error'', js) # sse_events rest"
proof -
  assume js: "one_line js"
  have "Split ((''data: '' @ js) @ CHR 0x0A # [] @ CHR 0x0A # rest) (CHR 0x0A) = (''data: '' @ js) # [] # Split rest (CHR 0x0A)"
    using js by (subst Split_append) (simp_all add: one_line_def)
  moreover have "Split (''event: error'' @ CHR 0x0A # t) (CHR 0x0A) = ''event: error'' # Split t (CHR 0x0A)" for t
    by (rule Split_append) simp
  ultimately show ?thesis using js by (simp add: sse_events_def HasPrefix_def one_line_def)
qed

lemma sse_beat: "sse_events ('': keep-alive'' @ nl @ nl @ rest) = sse_events rest"
  by (simp add: sse_events_def HasPrefix_def)

lemma sse_nothing: "sse_events '''' = []"
  by (simp add: sse_events_def)

lemma ndjson_line: "one_line js \<Longrightarrow> ndjson_values (js @ nl @ rest) = js # ndjson_values rest"
  using Split_append [of "CHR 0x0A" js rest] by (simp add: ndjson_values_def one_line_def)

lemma ndjson_beat: "ndjson_values (nl @ rest) = ndjson_values rest"
  by (simp add: ndjson_values_def)

lemma ndjson_nothing: "ndjson_values '''' = []"
  by (simp add: ndjson_values_def)

subsection \<open>Frames\<close>

definition data_frame :: "format \<Rightarrow> string \<Rightarrow> string" where
  "data_frame fmt js = (if fmt = NDJSON then js @ nl else ''data: '' @ js @ nl @ nl)"

definition error_frame :: "format \<Rightarrow> string \<Rightarrow> string" where
  "error_frame fmt js = (if fmt = NDJSON then js @ nl else ''event: error'' @ nl @ ''data: '' @ js @ nl @ nl)"

definition beat_frame :: "format \<Rightarrow> string" where
  "beat_frame fmt = (if fmt = NDJSON then nl else '': keep-alive'' @ nl @ nl)"

definition done_frame :: "format \<Rightarrow> string" where
  "done_frame fmt = (if fmt = NDJSON then '''' else ''data: [DONE]'' @ nl @ nl)"

lemmas frame_defs = data_frame_def error_frame_def beat_frame_def done_frame_def

lemma writeStream_sent: "sent (snd (writeStream t b w)) = sent w @ (if writeOk t then b else '''')"
  by (simp add: writeStream_def call_def)

lemma writeStream_ok: "fst (writeStream t b w) \<longleftrightarrow> writeOk t \<and> flush t \<noteq> FlushFailed"
  by (simp add: writeStream_def)

lemma writeHeartbeat_frame: "writeHeartbeat t fmt w = writeStream t (beat_frame fmt) w"
  by (simp add: writeHeartbeat_def beat_frame_def)

lemma writeFrame_frame: "Marshal env (Bare v) = Some js \<Longrightarrow> writeFrame env t fmt v w = writeStream t (data_frame fmt js) w"
  by (simp add: writeFrame_def data_frame_def)

lemma writeErrorFrame_sent:
  "sent (snd (writeErrorFrame env t fmt e w)) =
     sent w @ (if writeOk t then (case Marshal env (ErrorObject e) of Some js \<Rightarrow> error_frame fmt js | None \<Rightarrow> '''') else '''')"
  by (cases fmt) (simp_all add: writeErrorFrame_def error_frame_def writeStream_sent split: option.splits)

lemma finishStream_sent:
  "sent (finishStream env t fmt r w) =
     sent w @ (if writeOk t then (case r of None \<Rightarrow> done_frame fmt
       | Some e \<Rightarrow> (case Marshal env (ErrorObject e) of Some js \<Rightarrow> error_frame fmt js | None \<Rightarrow> '''')) else '''')"
  by (cases fmt) (simp_all add: finishStream_def done_frame_def writeStream_sent writeErrorFrame_sent split: option.splits)

lemma writeFrame_corrupt:
  "Marshal env (Bare v) = None \<Longrightarrow> \<not> fst (writeFrame env t fmt v w) \<and> sent (snd (writeFrame env t fmt v w)) = sent w @
     (if writeOk t then (case Marshal env (ErrorObject ''stream value could not be encoded'') of Some js \<Rightarrow> error_frame fmt js | None \<Rightarrow> '''') else '''')"
  by (simp add: writeFrame_def writeErrorFrame_sent)

text \<open>The values a source gives up to a state, encoded.\<close>

inductive source_run :: "('s, 'j) renv \<Rightarrow> 's \<Rightarrow> string list \<Rightarrow> 's \<Rightarrow> bool" for env where
  source_stop: "source_run env s [] s"
| source_more: "readStream env s = Inl (v, s') \<Longrightarrow> Marshal env (Bare v) = Some js \<Longrightarrow> source_run env s' jss s'' \<Longrightarrow>
    source_run env s (js # jss) s''"

text \<open>What may follow the values: the mark of the end, or one error, for a source that failed or a value without encoding.\<close>

definition closing :: "('s, 'j) renv \<Rightarrow> 's \<Rightarrow> string \<Rightarrow> (string \<times> string) list \<Rightarrow> (string \<times> string) list \<Rightarrow> bool" where
  "closing env s ename fin tail \<longleftrightarrow>
     (case readStream env s of
        Inr None \<Rightarrow> tail = fin
      | Inr (Some e) \<Rightarrow> tail = (case Marshal env (ErrorObject e) of Some js \<Rightarrow> [(ename, js)] | None \<Rightarrow> [])
      | Inl (v, _) \<Rightarrow> Marshal env (Bare v) = None \<and>
          tail = (case Marshal env (ErrorObject ''stream value could not be encoded'') of Some js \<Rightarrow> [(ename, js)] | None \<Rightarrow> []))"

text \<open>What a wire format owes its reader: \<open>reads\<close> recovers the values and errors frame by frame and skips the beats.\<close>

locale framing =
  fixes fmt :: format
    and reads :: "string \<Rightarrow> (string \<times> string) list"
    and ename :: string
    and fin :: "(string \<times> string) list"
  assumes reads_nothing: "reads '''' = []"
    and reads_data: "one_line js \<Longrightarrow> reads (data_frame fmt js @ rest) = ('''', js) # reads rest"
    and reads_error: "one_line js \<Longrightarrow> reads (error_frame fmt js @ rest) = (ename, js) # reads rest"
    and reads_beat: "reads (beat_frame fmt @ rest) = reads rest"
    and reads_done: "reads (done_frame fmt) = fin"
begin

lemma reads_error_only: "one_line js \<Longrightarrow> reads (error_frame fmt js) = [(ename, js)]"
  using reads_error [of js "''''"] by (simp add: reads_nothing)

lemma reads_closing:
  assumes "line_encoder env"
  shows "reads (case Marshal env (ErrorObject e) of Some js \<Rightarrow> error_frame fmt js | None \<Rightarrow> '''') =
    (case Marshal env (ErrorObject e) of Some js \<Rightarrow> [(ename, js)] | None \<Rightarrow> [])"
  using assms by (auto simp: line_encoder_def reads_nothing reads_error_only split: option.splits)

lemma reads_finish:
  assumes "line_encoder env" and "readStream env s = Inr r"
  shows "\<exists>x tail. sent (finishStream env t fmt r w) = sent w @ x \<and> reads x = tail \<and> (if writeOk t then closing env s ename fin tail else tail = [])"
proof (cases "writeOk t")
  case True
  then show ?thesis using reads_closing [OF assms(1)] assms(2)
    by (cases r) (auto simp: finishStream_sent closing_def reads_done)
next
  case False
  then show ?thesis by (auto simp: finishStream_sent reads_nothing split: option.splits)
qed

end

context framing
begin

lemma reads_beat_only: "reads (beat_frame fmt) = []"
  using reads_beat [of "''''"] by (simp add: reads_nothing)

lemma reads_data_only: "one_line js \<Longrightarrow> reads (data_frame fmt js) = [('''', js)]"
  using reads_data [of js "''''"] by (simp add: reads_nothing)

text \<open>What one call of the loop adds to the wire for its reader.\<close>

definition delivers :: "('s, 'j) renv \<Rightarrow> 's \<Rightarrow> bool \<Rightarrow> writer \<Rightarrow> writer \<Rightarrow> bool" where
  "delivers env s ended w w' \<longleftrightarrow> (\<exists>jss s' tail x. sent w' = sent w @ x \<and> source_run env s jss s' \<and>
     reads x = map (Pair '''') jss @ tail \<and> (tail = [] \<or> ended \<and> closing env s' ename fin tail))"

lemma delivers_nothing: "sent w' = sent w @ x \<Longrightarrow> reads x = [] \<Longrightarrow> delivers env s ended w w'"
  unfolding delivers_def using source_stop [of env s] by fastforce

lemma delivers_beat: "delivers env s ended w1 w' \<Longrightarrow> sent w1 = sent w @ beat_frame fmt \<Longrightarrow> delivers env s ended w w'"
  unfolding delivers_def using reads_beat by fastforce

lemma delivers_value:
  assumes "delivers env s' ended w1 w'" and "sent w1 = sent w @ data_frame fmt js" and "one_line js"
    and "readStream env s = Inl (v, s')" and "Marshal env (Bare v) = Some js"
  shows "delivers env s ended w w'"
proof -
  obtain jss s'' tail x where d: "sent w' = sent w1 @ x" "source_run env s' jss s''" "reads x = map (Pair '''') jss @ tail"
    "tail = [] \<or> ended \<and> closing env s'' ename fin tail" using assms(1) by (auto simp: delivers_def)
  have "source_run env s (js # jss) s''" using assms(4,5) d(2) by (rule source_more)
  moreover have "reads (data_frame fmt js @ x) = map (Pair '''') (js # jss) @ tail" using reads_data [OF assms(3)] d(3) by simp
  ultimately show ?thesis unfolding delivers_def using d(1,4) assms(2)
    by (intro exI [of _ "js # jss"] exI [of _ s''] exI [of _ tail] exI [of _ "data_frame fmt js @ x"]) simp
qed

lemma delivers_closing: "sent w' = sent w @ x \<Longrightarrow> closing env s ename fin (reads x) \<Longrightarrow> delivers env s True w w'"
  unfolding delivers_def using source_stop [of env s] by fastforce

lemma turn_tick:
  assumes "writeHeartbeat t fmt w = (ok, w1)" and "ok \<Longrightarrow> delivers env s ended w1 w'" and "\<not> ok \<Longrightarrow> w' = w1 \<and> ended"
  shows "delivers env s ended w w'"
proof (cases ok)
  case True
  then have "writeOk t" using writeStream_ok [of t "beat_frame fmt" w] assms(1) by (simp add: writeHeartbeat_frame)
  then have "sent w1 = sent w @ beat_frame fmt" using writeStream_sent [of t "beat_frame fmt" w] assms(1) by (simp add: writeHeartbeat_frame)
  then show ?thesis by (rule delivers_beat [OF assms(2) [OF True]])
next
  case False
  with assms(1,3) show ?thesis using writeStream_sent [of t "beat_frame fmt" w]
    by (intro delivers_nothing) (auto simp: writeHeartbeat_frame reads_beat_only reads_nothing)
qed

lemma turn_value:
  assumes "line_encoder env" and "readStream env s = Inl (v, s')" and "writeFrame env t fmt v w = (ok, w1)"
    and "ok \<Longrightarrow> delivers env s' ended w1 w'" and "\<not> ok \<Longrightarrow> w' = w1 \<and> ended"
  shows "delivers env s ended w w'"
proof (cases "Marshal env (Bare v)")
  case None
  note c = writeFrame_corrupt [OF None, of t fmt w, unfolded assms(3)]
  with assms(5) have "w' = w1" ended by auto
  then show ?thesis
  proof (cases "writeOk t")
    case True
    with c \<open>w' = w1\<close> have x: "sent w' = sent w @ (case Marshal env (ErrorObject ''stream value could not be encoded'') of Some js \<Rightarrow> error_frame fmt js | None \<Rightarrow> '''')"
      by simp
    have "closing env s ename fin (reads (case Marshal env (ErrorObject ''stream value could not be encoded'') of Some js \<Rightarrow> error_frame fmt js | None \<Rightarrow> ''''))"
      using None assms(2) reads_closing [OF assms(1)] by (simp add: closing_def)
    from delivers_closing [OF x this] \<open>ended\<close> show ?thesis by simp
  qed (use c \<open>w' = w1\<close> in \<open>auto intro!: delivers_nothing simp: reads_nothing\<close>)
next
  case (Some js)
  then have js: "one_line js" using assms(1) by (simp add: line_encoder_def)
  have w1: "sent w1 = sent w @ (if writeOk t then data_frame fmt js else '''')"
    using writeStream_sent [of t "data_frame fmt js" w] assms(3) by (simp add: writeFrame_frame [OF Some])
  show ?thesis
  proof (cases "writeOk t")
    case True
    have "delivers env s' ended w1 w'"
      using assms(4,5) delivers_nothing [of w1 w1 "''''"] reads_nothing by (cases ok) auto
    then show ?thesis using delivers_value [OF _ _ js assms(2) Some] w1 True by simp
  next
    case False
    then have "\<not> ok" using writeStream_ok [of t "data_frame fmt js" w] assms(3) by (simp add: writeFrame_frame [OF Some])
    with assms(5) False w1 show ?thesis by (intro delivers_nothing) (auto simp: reads_nothing)
  qed
qed

lemma pump_delivers: "line_encoder env \<Longrightarrow> pump env fmt ts s w = (ended, w') \<Longrightarrow> delivers env s ended w w'"
proof (induction ts arbitrary: s w)
  case Nil
  then show ?case by (intro delivers_nothing [of _ _ "''''"]) (auto simp: reads_nothing)
next
  case (Cons t ts)
  show ?case
  proof (cases "isTick t")
    case True
    obtain ok w1 where b: "writeHeartbeat t fmt w = (ok, w1)" by (rule prod.exhaust)
    with Cons True show ?thesis by (intro turn_tick [OF b]) auto
  next
    case False
    show ?thesis
    proof (cases "readStream env s")
      case (Inl p)
      then obtain v s' where p: "readStream env s = Inl (v, s')" by (cases p) auto
      obtain ok w1 where b: "writeFrame env t fmt v w = (ok, w1)" by (rule prod.exhaust)
      with Cons False p show ?thesis by (intro turn_value [OF Cons.prems(1) p b]) auto
    next
      case (Inr r)
      with Cons.prems(2) False have "ended" "w' = finishStream env t fmt r w" by auto
      moreover obtain x where "sent (finishStream env t fmt r w) = sent w @ x" "reads x = [] \<or> closing env s ename fin (reads x)"
        using reads_finish [OF Cons.prems(1) Inr, of t w] by (auto split: if_splits)
      ultimately show ?thesis using delivers_nothing delivers_closing by metis
    qed
  qed
qed

end

text \<open>A turn whose write and flush succeed.\<close>

definition good_turn :: "turn \<Rightarrow> bool" where
  "good_turn t \<longleftrightarrow> writeOk t \<and> flush t \<noteq> FlushFailed"

lemma good_write: "good_turn t \<Longrightarrow> fst (writeStream t b w) \<and> sent (snd (writeStream t b w)) = sent w @ b"
  by (simp add: good_turn_def writeStream_ok writeStream_sent)

context framing
begin

lemma pump_completes:
  assumes "line_encoder env" and "source_run env s jss s'" and "readStream env s' = Inr r"
  shows "list_all good_turn ts \<Longrightarrow> length jss < length (filter (\<lambda>t. \<not> isTick t) ts) \<Longrightarrow>
    \<exists>w' x tail. pump env fmt ts s w = (True, w') \<and> sent w' = sent w @ x \<and> reads x = map (Pair '''') jss @ tail \<and> closing env s' ename fin tail"
  using assms(2,3)
proof (induction ts arbitrary: s jss w)
  case (Cons t ts)
  have t: "good_turn t" "list_all good_turn ts" using Cons.prems(1) by simp_all
  show ?case
  proof (cases "isTick t")
    case True
    let ?p = "writeHeartbeat t fmt w"
    have p: "fst ?p" "sent (snd ?p) = sent w @ beat_frame fmt" using good_write [OF t(1)] by (simp_all add: writeHeartbeat_frame)
    have "length jss < length (filter (\<lambda>t. \<not> isTick t) ts)" using Cons.prems(2) True by simp
    from Cons.IH [OF t(2) this Cons.prems(3,4), of "snd ?p"] obtain w' x tail where "pump env fmt ts s (snd ?p) = (True, w')"
      "sent w' = sent (snd ?p) @ x" "reads x = map (Pair '''') jss @ tail" "closing env s' ename fin tail" by blast
    with p True show ?thesis
      by (intro exI [of _ w'] exI [of _ "beat_frame fmt @ x"] exI [of _ tail]) (simp add: reads_beat case_prod_unfold)
  next
    case False
    from Cons.prems(3) show ?thesis
    proof cases
      case source_stop
      with Cons.prems(4) False have "pump env fmt (t # ts) s w = (True, finishStream env t fmt r w)" by simp
      moreover have "writeOk t" using t(1) by (simp add: good_turn_def)
      ultimately show ?thesis using reads_finish [OF assms(1) Cons.prems(4), of t w] source_stop by auto
    next
      case (source_more v s1 js jss')
      let ?p = "writeFrame env t fmt v w"
      have p: "fst ?p" "sent (snd ?p) = sent w @ data_frame fmt js" using good_write [OF t(1)] source_more(3) by (simp_all add: writeFrame_frame)
      have js: "one_line js" using assms(1) source_more(3) by (simp add: line_encoder_def)
      have "length jss' < length (filter (\<lambda>t. \<not> isTick t) ts)" using Cons.prems(2) False source_more(1) by simp
      from Cons.IH [OF t(2) this source_more(4) Cons.prems(4), of "snd ?p"] obtain w' x tail where "pump env fmt ts s1 (snd ?p) = (True, w')"
        "sent w' = sent (snd ?p) @ x" "reads x = map (Pair '''') jss' @ tail" "closing env s' ename fin tail" by blast
      with p False source_more(1,2) show ?thesis
        by (intro exI [of _ w'] exI [of _ "data_frame fmt js @ x"] exI [of _ tail]) (simp add: reads_data [OF js] case_prod_unfold)
    qed
  qed
qed simp

end

interpretation sse: framing SSE sse_events "''error''" "[('''', ''[DONE]'')]"
proof
  show "sse_events (data_frame SSE js @ rest) = ('''', js) # sse_events rest" if "one_line js" for js rest
    using sse_data [OF that, of rest] by (simp add: data_frame_def)
  show "sse_events (error_frame SSE js @ rest) = (''error'', js) # sse_events rest" if "one_line js" for js rest
    using sse_error [OF that, of rest] by (simp add: error_frame_def)
  show "sse_events (beat_frame SSE @ rest) = sse_events rest" for rest using sse_beat [of rest] by (simp add: beat_frame_def)
  have "one_line ''[DONE]''" by (simp add: one_line_def)
  from sse_data [OF this, of "''''"] show "sse_events (done_frame SSE) = [('''', ''[DONE]'')]"
    by (simp add: done_frame_def sse_nothing)
qed (rule sse_nothing)

interpretation ndjson: framing NDJSON "\<lambda>s. map (Pair '''') (ndjson_values s)" "''''" "[]"
proof
  show "map (Pair '''') (ndjson_values (data_frame NDJSON js @ rest)) = ('''', js) # map (Pair '''') (ndjson_values rest)"
    if "one_line js" for js rest using ndjson_line [OF that, of rest] by (simp add: data_frame_def)
  show "map (Pair '''') (ndjson_values (error_frame NDJSON js @ rest)) = ('''', js) # map (Pair '''') (ndjson_values rest)"
    if "one_line js" for js rest using ndjson_line [OF that, of rest] by (simp add: error_frame_def)
  show "map (Pair '''') (ndjson_values (beat_frame NDJSON @ rest)) = map (Pair '''') (ndjson_values rest)" for rest
    using ndjson_beat [of rest] by (simp add: beat_frame_def)
qed (simp_all add: ndjson_nothing done_frame_def)

section \<open>Streams arrive in order and complete\<close>

definition client_reads :: "format \<Rightarrow> string \<Rightarrow> (string \<times> string) list" where
  "client_reads fmt s = (if fmt = SSE then sse_events s else map (Pair '''') (ndjson_values s))"

definition error_name :: "format \<Rightarrow> string" where
  "error_name fmt = (if fmt = SSE then ''error'' else '''')"

definition end_mark :: "format \<Rightarrow> (string \<times> string) list" where
  "end_mark fmt = (if fmt = SSE then [('''', ''[DONE]'')] else [])"

lemma client_framing: "framing fmt (client_reads fmt) (error_name fmt) (end_mark fmt)"
proof (cases fmt)
  case SSE
  then show ?thesis using sse.framing_axioms by (simp add: client_reads_def [abs_def] error_name_def end_mark_def)
next
  case NDJSON
  then show ?thesis using ndjson.framing_axioms by (simp add: client_reads_def [abs_def] error_name_def end_mark_def)
qed

lemma setStreamHeaders_calls: "calls (setStreamHeaders fmt w) = calls w"
  by (simp add: setStreamHeaders_def Header_Set_def)

text \<open>
  C30. A stream arrives complete and in order, or its client can tell. What the client of a stream reads, in either
  format, whatever keep-alives fall between and whichever write fails, is the values of the source in their order, from the first
  on, none left out or repeated; only when the source has ended or failed, or a value cannot be encoded, does the
  mark of the end or one error follow, and the source is closed. When the writes succeed and the source ends within
  the turns of the loop, all its values and the final mark arrive. (An encoded value is one line.)
\<close>

theorem stream_delivery:
  assumes "line_encoder env" and "sent w = ''''" and "w' = handleStream env (Some s) fmt w"
  shows "(\<exists>jss s' tail. source_run env s jss s' \<and> client_reads fmt (sent w') = map (Pair '''') jss @ tail \<and>
      (tail = [] \<or> closing env s' (error_name fmt) (end_mark fmt) tail \<and> last (calls w') = CallClose)) \<and>
    (\<forall>jss s' r. source_run env s jss s' \<and> readStream env s' = Inr r \<and> list_all good_turn (turns env) \<and>
        length jss < length (filter (\<lambda>t. \<not> isTick t) (turns env)) \<longrightarrow>
      (\<exists>tail. client_reads fmt (sent w') = map (Pair '''') jss @ tail \<and> closing env s' (error_name fmt) (end_mark fmt) tail \<and>
         last (calls w') = CallClose))"
proof -
  note c = client_framing [of fmt]
  let ?w0 = "call CallFlush (call (CallHeader 200) (setStreamHeaders fmt w))"
  have w0: "sent ?w0 = ''''" using assms(2) by (simp add: call_def setStreamHeaders_calls)
  obtain ended w1 where p: "pump env fmt (turns env) s ?w0 = (ended, w1)" by (rule prod.exhaust)
  then have w': "sent w' = sent w1" "ended \<Longrightarrow> last (calls w') = CallClose"
    using assms(3) by (simp_all add: handleStream_def call_def)
  have "framing.delivers (client_reads fmt) (error_name fmt) (end_mark fmt) env s ended ?w0 w1"
    using framing.pump_delivers [OF c assms(1) p] .
  then obtain jss s' tail where d: "source_run env s jss s'" "client_reads fmt (sent w') = map (Pair '''') jss @ tail"
    "tail = [] \<or> ended \<and> closing env s' (error_name fmt) (end_mark fmt) tail"
    using w0 w'(1) by (auto simp: framing.delivers_def [OF c])
  have "\<exists>tail. client_reads fmt (sent w') = map (Pair '''') jss @ tail \<and> closing env s' (error_name fmt) (end_mark fmt) tail \<and>
      last (calls w') = CallClose"
    if "source_run env s jss s' \<and> readStream env s' = Inr r \<and> list_all good_turn (turns env) \<and>
        length jss < length (filter (\<lambda>t. \<not> isTick t) (turns env))" for jss s' r
    using framing.pump_completes [OF c assms(1), of s jss s' r "turns env" ?w0] that p w0 w' by auto
  with d w'(2) show ?thesis by blast
qed

section \<open>One status, before the body\<close>

definition no_header :: "wcall list \<Rightarrow> bool" where
  "no_header cs \<longleftrightarrow> (\<forall>n. CallHeader n \<notin> set cs)"

lemma no_header_simps [simp]:
  "no_header []" "no_header (c # cs) \<longleftrightarrow> (\<forall>n. c \<noteq> CallHeader n) \<and> no_header cs" "no_header (xs @ ys) \<longleftrightarrow> no_header xs \<and> no_header ys"
  by (auto simp: no_header_def)

text \<open>Calls that come after those of \<open>w\<close> and write no status.\<close>

definition body_only :: "writer \<Rightarrow> writer \<Rightarrow> bool" where
  "body_only w w' \<longleftrightarrow> (\<exists>cs. calls w' = calls w @ cs \<and> no_header cs)"

lemma body_only_refl: "body_only w w"
  by (auto simp: body_only_def)

lemma body_only_trans: "body_only w1 w2 \<Longrightarrow> body_only w2 w3 \<Longrightarrow> body_only w1 w3"
  by (auto simp: body_only_def)

lemma body_only_call: "\<forall>n. c \<noteq> CallHeader n \<Longrightarrow> body_only w (call c w)"
  by (auto simp: body_only_def call_def)

lemma body_only_write: "body_only w (snd (writeStream t b w))"
  by (auto simp: writeStream_def body_only_def call_def)

lemma body_only_error: "body_only w (snd (writeErrorFrame env t fmt e w))"
  by (auto simp: writeErrorFrame_def body_only_write body_only_refl split: option.splits)

lemma body_only_frame: "body_only w (snd (writeFrame env t fmt v w))"
  by (auto simp: writeFrame_def body_only_write body_only_error split: option.splits)

lemma body_only_beat: "body_only w (snd (writeHeartbeat t fmt w))"
  by (auto simp: writeHeartbeat_def body_only_write)

lemma body_only_finish: "body_only w (finishStream env t fmt r w)"
  by (auto simp: finishStream_def body_only_write body_only_error body_only_refl split: option.splits)

lemma body_only_pump: "body_only w (snd (pump env fmt ts s w))"
proof (induction ts arbitrary: s w)
  case (Cons t ts)
  have "body_only w (snd (pump env fmt ts s (snd (writeHeartbeat t fmt w))))" for s
    using body_only_trans [OF body_only_beat Cons.IH] .
  moreover have "body_only w (snd (pump env fmt ts s' (snd (writeFrame env t fmt v w))))" for v s'
    using body_only_trans [OF body_only_frame Cons.IH] .
  ultimately show ?case
    by (auto simp: case_prod_unfold body_only_beat body_only_frame body_only_finish split: sum.split)
qed (simp add: body_only_refl)

lemma body_only_fold: "body_only w (fold (\<lambda>b. call (CallWrite b)) bs w)"
proof (induction bs arbitrary: w)
  case (Cons b bs)
  then show ?case using body_only_trans [OF body_only_call [of "CallWrite b" w]] by simp
qed (simp add: body_only_refl)

definition one_header :: "writer \<Rightarrow> writer \<Rightarrow> bool" where
  "one_header w w' \<longleftrightarrow> (\<exists>n cs. calls w' = calls w @ CallHeader n # cs \<and> no_header cs)"

lemma one_header_body: "calls w1 = calls w \<Longrightarrow> body_only (call (CallHeader n) w1) w' \<Longrightarrow> one_header w w'"
  by (auto simp: one_header_def body_only_def call_def)

lemma Header_Set_calls [simp]: "calls (Header_Set k v w) = calls w"
  by (simp add: Header_Set_def)

lemma Respond_one_header: "one_header w (snd (Respond env meth d err pool w))"
proof (cases "special d")
  case False
  then show ?thesis using Respond_plain(1) [of d env meth err pool w]
    by (auto simp: one_header_def promised_calls_def split: option.splits)
next
  case True
  note b = one_header_body [OF _ body_only_call] one_header_body [OF _ body_only_refl]
  show ?thesis
  proof (cases d)
    case (Stream src fmt hb)
    let ?w0 = "call CallFlush (call (CallHeader 200) (setStreamHeaders fmt w))"
    have "body_only (call (CallHeader 200) (setStreamHeaders fmt w)) (snd (pump env fmt (turns env) s ?w0))" for s
      by (rule body_only_trans [OF body_only_call body_only_pump]) simp
    moreover from this have "body_only (call (CallHeader 200) (setStreamHeaders fmt w)) (call CallClose (snd (pump env fmt (turns env) s ?w0)))" for s
      by (rule body_only_trans [OF _ body_only_call]) simp
    ultimately have "one_header w (snd (pump env fmt (turns env) s ?w0)) \<and> one_header w (call CallClose (snd (pump env fmt (turns env) s ?w0)))" for s
      using one_header_body [OF setStreamHeaders_calls] by blast
    then show ?thesis using Respond_special [OF True, of env meth err pool w] Stream
      by (cases src) (simp_all add: handleSpecialResponseTypes_def handleStream_def case_prod_unfold b)
  next
    case (Template x n)
    let ?w1 = "call (CallHeader (getStatusCodeForSpecialResponse meth d err)) (Header_Set ''Content-Type'' ''text/html'' w)"
    have "body_only ?w1 (fold (\<lambda>b. call (CallWrite b)) bs ?w1)" for bs by (rule body_only_fold)
    moreover from this have "body_only ?w1 (call CallPanic (fold (\<lambda>b. call (CallWrite b)) bs ?w1))" for bs
      by (rule body_only_trans [OF _ body_only_call]) simp
    ultimately have "one_header w (fold (\<lambda>b. call (CallWrite b)) bs ?w1) \<and> one_header w (call CallPanic (fold (\<lambda>b. call (CallWrite b)) bs ?w1))" for bs
      using one_header_body [OF Header_Set_calls] by blast
    then show ?thesis using Respond_special [OF True, of env meth err pool w] Template
      by (simp add: handleSpecialResponseTypes_def Let_def case_prod_unfold)
  qed (use True Respond_special [OF True, of env meth err pool w] in
      \<open>auto simp: handleSpecialResponseTypes_def handleXML_def handleRedirect_def Let_def intro!: b\<close>)
qed

section \<open>A captured response\<close>

fun written :: "wcall list \<Rightarrow> string" where
  "written [] = ''''"
| "written (CallWrite b # cs) = b @ written cs"
| "written (CallStream b ok # cs) = (if ok then b else '''') @ written cs"
| "written (_ # cs) = written cs"

lemma capture_Write_body:
  "int (length (cBody c)) \<le> max 0 (cMax c) \<Longrightarrow> cBody (snd (capture_Write b c)) = take (nat (cMax c)) (cBody c @ b) \<and>
     cMax (snd (capture_Write b c)) = cMax c"
  by (auto simp: capture_Write_def Let_def nat_diff_distrib')

lemma capture_call_body:
  assumes "cBody c = take (nat (cMax c)) x"
  shows "cBody (capture_call k c) = take (nat (cMax c)) (x @ written [k]) \<and> cMax (capture_call k c) = cMax c"
proof -
  have "int (length (cBody c)) \<le> max 0 (cMax c)" using assms by auto
  from capture_Write_body [OF this] have "cBody (snd (capture_Write b c)) = take (nat (cMax c)) (x @ b) \<and> cMax (snd (capture_Write b c)) = cMax c" for b
    using assms by (auto simp: min_def)
  with assms show ?thesis
    by (cases k) (auto simp: capture_WriteHeader_def)
qed

lemma written_Cons: "written (k # cs) = written [k] @ written cs"
  by (cases "k # cs" rule: written.cases) auto

lemma capture_body: "cBody c = take (nat (cMax c)) x \<Longrightarrow> cBody (fold capture_call cs c) = take (nat (cMax c)) (x @ written cs)"
proof (induction cs arbitrary: c x)
  case (Cons k cs)
  from capture_call_body [OF Cons.prems, of k] Cons.IH [of "capture_call k c" "x @ written [k]"] show ?case
    by (simp add: written_Cons [of k cs])
qed simp

lemma capture_status: "wrote c \<Longrightarrow> cStatus (fold capture_call cs c) = cStatus c"
proof (induction cs arbitrary: c)
  case (Cons k cs)
  have "wrote (capture_call k c) \<and> cStatus (capture_call k c) = cStatus c"
    using Cons.prems by (cases k) (auto simp: capture_WriteHeader_def capture_Write_def Let_def)
  with Cons.IH [of "capture_call k c"] show ?case by simp
qed simp

text \<open>A response written to a capture has its status, and its body up to the limit.\<close>

lemma captured_response:
  assumes "one_header fresh_writer w" and "c = fold capture_call (calls w) (NewResponseCapture m)"
  shows "CallHeader (cStatus c) = hd (calls w) \<and> cBody c = take (nat m) (written (calls w))"
proof -
  obtain n cs where w: "calls w = CallHeader n # cs" using assms(1) by (auto simp: one_header_def fresh_writer_def)
  let ?c = "capture_WriteHeader n (NewResponseCapture m)"
  have "cStatus c = n" using assms(2) w capture_status [of ?c cs] by (simp add: capture_WriteHeader_def NewResponseCapture_def)
  moreover have "cBody c = take (nat m) (written (calls w))"
    using assms(2) capture_body [of "NewResponseCapture m" "''''" "calls w"] by (simp add: NewResponseCapture_def)
  ultimately show ?thesis using w by simp
qed

section \<open>Examples\<close>

text \<open>A source that counts down, and an encoder of single lines.\<close>

definition demo_marshal :: "(nat, string) payload \<Rightarrow> string option" where
  "demo_marshal p =
     (case p of
        Bare (Plain s) \<Rightarrow> Some (''v'' @ filter (\<lambda>c. c \<noteq> CHR 0x0A) s)
      | Bare _ \<Rightarrow> None
      | ErrorObject e \<Rightarrow> Some (''e'' @ filter (\<lambda>c. c \<noteq> CHR 0x0A) e)
      | Envelope r \<Rightarrow> Some (case rError r of None \<Rightarrow> ''ok'' | Some m \<Rightarrow> ''failed''))"

definition good :: turn where "good = \<lparr>isTick = False, writeOk = True, flush = Flushed\<rparr>"
definition beat :: turn where "beat = \<lparr>isTick = True, writeOk = True, flush = NotSupported\<rparr>"

definition demo_renv :: "(nat, string) renv" where
  "demo_renv = \<lparr>Marshal = demo_marshal, Render = (\<lambda>_ _. ([], False)),
     Next = (\<lambda>n. if n = 0 then End None else Value (Plain (show_nat n)) (n - 1)),
     turns = [good, beat, good, good], pick = Some 0, grow = (\<lambda>c n. n)\<rparr>"

lemma demo_line_encoder: "line_encoder demo_renv"
  by (auto simp: line_encoder_def demo_renv_def demo_marshal_def one_line_def split: payload.splits data.splits option.splits)

lemma demo_source: "source_run demo_renv 2 [''v2'', ''v1''] 0"
proof -
  have d: "show_nat 2 = ''2''" "show_nat (Suc 0) = ''1''" by code_simp+
  have "readStream demo_renv 1 = Inl (Plain ''1'', 0)" "Marshal demo_renv (Bare (Plain ''1'')) = Some ''v1''"
    by (simp_all add: readStream_def demo_renv_def demo_marshal_def d)
  from source_more [OF this source_stop] have 1: "source_run demo_renv 1 [''v1''] 0" .
  have "readStream demo_renv 2 = Inl (Plain ''2'', 1)" "Marshal demo_renv (Bare (Plain ''2'')) = Some ''v2''"
    by (simp_all add: readStream_def demo_renv_def demo_marshal_def d)
  from source_more [OF this 1] show ?thesis .
qed

theorem stream_delivery_witness:
  "sse_events (sent (handleStream demo_renv (Some 2) SSE fresh_writer)) = [('''', ''v2''), ('''', ''v1''), ('''', ''[DONE]'')]"
proof -
  have "sent fresh_writer = ''''" by (simp add: fresh_writer_def)
  from conjunct2 [OF stream_delivery [OF demo_line_encoder this refl, of 2 SSE]] obtain tail where
    "client_reads SSE (sent (handleStream demo_renv (Some 2) SSE fresh_writer)) = map (Pair '''') [''v2'', ''v1''] @ tail"
    "closing demo_renv 0 (error_name SSE) (end_mark SSE) tail"
    using demo_source by (fastforce simp: readStream_def demo_renv_def good_def beat_def good_turn_def)
  then show ?thesis by (simp add: client_reads_def closing_def readStream_def demo_renv_def end_mark_def)
qed

text \<open>A handler returns a value, the next fails: the second response does not show the first.\<close>

definition demo_exchanges :: "(nat, string) exchange list" where
  "demo_exchanges = [\<lparr>xenv = demo_renv, xmethod = ''GET'', xdata = Plain ''secret'', xerr = None, xkeep = (\<lambda>_. True)\<rparr>,
     \<lparr>xenv = demo_renv, xmethod = ''GET'', xdata = NilAny, xerr = Some ErrorTooManyRequests, xkeep = (\<lambda>_. True)\<rparr>]"

theorem pool_is_invisible_witness:
  "map calls (snd (answer_all demo_exchanges [])) =
     [[CallHeader 200, CallWrite (''ok'' @ nl)], [CallHeader 429, CallWrite (''failed'' @ nl)]]"
proof -
  obtain pool ws where a: "answer_all demo_exchanges [] = (pool, ws)" by (rule prod.exhaust)
  have "\<not> special (Plain x)" "\<not> special NilAny" for x :: string by simp_all
  with pool_is_invisible [OF a] a show ?thesis
    by (simp add: demo_exchanges_def Respond_plain promised_calls_def promised_payload_def promised_status_def promised_error_def
        demo_renv_def demo_marshal_def fresh_writer_def)
qed

end
