(* ===== verification/Http_Handler.thy ===== *)
theory Http_Handler
  imports Http_Responder
begin

text \<open>
  The handler around an application function (\<^verbatim>\<open>pkg/gofr/handler.go\<close>): the call in the goroutine of the request or in one of its own,
  the recovery of panics, timeouts and disconnects, and the response made of the result. The application function is
  represented by what it does, the context by the error it has when it is looked at.
\<close>

section \<open>Running the application function\<close>

datatype ctx_error = Canceled | DeadlineExceeded

datatype ('s, 'j) outcome = Returns "('s, 'j) data" "'j http_error option" | PanicsWith string

datatype log_entry = panicLog string | ErrorLogEntry level string

text \<open>Logging a fatal error ends the process; the flag says so.\<close>

definition logError :: "'j http_error option \<Rightarrow> log_entry list \<times> bool" where
  "logError err =
     (case err of
        None \<Rightarrow> ([], False)
      | Some e \<Rightarrow> ([ErrorLogEntry (GetLogLevelForError e) (Error e)], GetLogLevelForError e = FATAL))"

text \<open>The result for the responder, or nothing when the process has ended.\<close>

type_synonym ('s, 'j) verdict = "(('s, 'j) data \<times> 'j http_error option) option"

definition context_verdict :: "ctx_error \<Rightarrow> ('s, 'j) data \<times> 'j http_error option" where
  "context_verdict c = (NilAny, Some (if c = Canceled then ErrorClientClosedRequest else ErrorRequestTimeout))"

definition serveInline :: "('s, 'j) outcome \<Rightarrow> ctx_error option \<Rightarrow> log_entry list \<times> ('s, 'j) verdict" where
  "serveInline out ctxErr =
     (let (panicked, logs, exit, result, err) = (case out of
          PanicsWith p \<Rightarrow> (True, [panicLog p], False, NilAny, Some ErrorPanicRecovery)
        | Returns res e \<Rightarrow> (let (ls, ex) = logError e in (False, ls, ex, res, e)))
      in if exit then (logs, None)
         else (case ctxErr of
                 Some c \<Rightarrow> if \<not> panicked then (logs, Some (context_verdict c)) else (logs, Some (result, err))
               | None \<Rightarrow> (logs, Some (result, err))))"

text \<open>The alternatives of the select statement, and when each can be taken.\<close>

datatype select = WatchDone ctx_error | Done | Panicked

fun ready :: "('s, 'j) outcome \<Rightarrow> ctx_error option \<Rightarrow> select \<Rightarrow> bool" where
  "ready out ctxErr (WatchDone c) = (ctxErr = Some c)"
| "ready (Returns _ _) ctxErr Done = True"
| "ready (PanicsWith _) ctxErr Panicked = True"
| "ready _ _ _ = False"

definition serveWithGoroutine :: "('s, 'j) outcome \<Rightarrow> select \<Rightarrow> log_entry list \<times> ('s, 'j) verdict" where
  "serveWithGoroutine out sel =
     (case (sel, out) of
        (WatchDone c, _) \<Rightarrow> ([], Some (context_verdict c))
      | (Done, Returns res e) \<Rightarrow> (let (logs, exit) = logError e in (logs, if exit then None else Some (res, e)))
      | (Panicked, PanicsWith p) \<Rightarrow> ([panicLog p], Some (NilAny, Some ErrorPanicRecovery))
      | _ \<Rightarrow> ([], None))"

definition SetCustomHeaders :: "(string \<times> string) list option \<Rightarrow> writer \<Rightarrow> writer" where
  "SetCustomHeaders hs w = (case hs of None \<Rightarrow> w | Some kvs \<Rightarrow> fold (\<lambda>(k, v). Header_Set k v) kvs w)"

definition custom_headers :: "('s, 'j) data \<Rightarrow> writer \<Rightarrow> writer" where
  "custom_headers result w =
     (case result of
        Response _ _ hs \<Rightarrow> SetCustomHeaders hs w
      | Pointer (Response _ _ hs) \<Rightarrow> SetCustomHeaders hs w
      | _ \<Rightarrow> w)"

record ('s, 'j) hrequest =
  hMethod :: string
  isWebSocket :: bool
  hOutcome :: "('s, 'j) outcome"
  hCtxErr :: "ctx_error option"
  hSelect :: select

definition handler_ServeHTTP :: "('s, 'j) renv \<Rightarrow> int \<Rightarrow> ('s, 'j) hrequest \<Rightarrow> ('s, 'j) respEncoder list \<Rightarrow> writer \<Rightarrow>
    log_entry list \<times> (('s, 'j) respEncoder list \<times> writer) option" where
  "handler_ServeHTTP env requestTimeout r pool w =
     (let (logs, v) =
        (if \<not> isWebSocket r \<and> requestTimeout = 0 then serveInline (hOutcome r) (hCtxErr r)
         else serveWithGoroutine (hOutcome r) (hSelect r))
      in (logs, case v of
            None \<Rightarrow> None
          | Some (result, err) \<Rightarrow> Some (Respond env (hMethod r) result err pool (custom_headers result w))))"

section \<open>Built-in handlers\<close>

definition liveHandler :: "'j \<Rightarrow> ('s, 'j) outcome" where
  "liveHandler up = Returns (Struct False up) None"

text \<open>The files that are tried, in the working directory and among the embedded ones.\<close>

definition faviconHandler :: "string option \<Rightarrow> string option \<Rightarrow> ('s, 'j) outcome" where
  "faviconHandler disk embedded =
     (let (bytes, err) = (case disk of
          Some c \<Rightarrow> (Some c, None)
        | None \<Rightarrow> (case embedded of Some c \<Rightarrow> (Some c, None) | None \<Rightarrow> (None, Some (AppError ''open favicon.ico: file does not exist'' None None None))))
      in Returns (File bytes ''image/x-icon'') err)"

definition catchAllHandler :: "('s, 'j) outcome" where
  "catchAllHandler = Returns NilAny (Some ErrorInvalidRoute)"

definition methodNotAllowedHandler :: "('s, 'j) outcome" where
  "methodNotAllowedHandler = Returns NilAny (Some ErrorMethodNotAllowed)"

section \<open>What a request can be answered with\<close>

text \<open>What the function itself makes of the request, and what a context that is done makes of it.\<close>

fun own_result :: "('s, 'j) outcome \<Rightarrow> ('s, 'j) data \<times> 'j http_error option" where
  "own_result (Returns d err) = (d, err)"
| "own_result (PanicsWith _) = (NilAny, Some ErrorPanicRecovery)"

fun cut_result :: "ctx_error \<Rightarrow> ('s, 'j) data \<times> 'j http_error option" where
  "cut_result DeadlineExceeded = (NilAny, Some ErrorRequestTimeout)"
| "cut_result Canceled = (NilAny, Some ErrorClientClosedRequest)"

text \<open>The result a request is answered with. In the goroutine of the request the context is looked at after the
  function returns, and not after a panic; with a goroutine of its own, the select statement decides.\<close>

definition in_own_goroutine :: "int \<Rightarrow> ('s, 'j) hrequest \<Rightarrow> bool" where
  "in_own_goroutine requestTimeout r \<longleftrightarrow> isWebSocket r \<or> requestTimeout \<noteq> 0"

definition request_result :: "int \<Rightarrow> ('s, 'j) hrequest \<Rightarrow> ('s, 'j) data \<times> 'j http_error option" where
  "request_result requestTimeout r =
     (if in_own_goroutine requestTimeout r
      then (case hSelect r of WatchDone c \<Rightarrow> cut_result c | _ \<Rightarrow> own_result (hOutcome r))
      else (case (hOutcome r, hCtxErr r) of (Returns _ _, Some c) \<Rightarrow> cut_result c | _ \<Rightarrow> own_result (hOutcome r)))"

text \<open>The process ends instead of answering when the function's error is logged as fatal.\<close>

definition ends_process :: "int \<Rightarrow> ('s, 'j) hrequest \<Rightarrow> bool" where
  "ends_process requestTimeout r \<longleftrightarrow>
     (\<exists>d e. hOutcome r = Returns d (Some e) \<and> GetLogLevelForError e = FATAL) \<and>
     (in_own_goroutine requestTimeout r \<longrightarrow> hSelect r = Done)"

lemma context_verdict_eq: "context_verdict c = cut_result c"
  by (cases c) (simp_all add: context_verdict_def)

lemma serveInline_result:
  assumes "\<not> in_own_goroutine t r"
  shows "snd (serveInline (hOutcome r) (hCtxErr r)) = (if ends_process t r then None else Some (request_result t r))"
  using assms
  by (cases "hOutcome r")
    (auto simp: serveInline_def logError_def ends_process_def request_result_def context_verdict_eq split: option.splits)

lemma serveWithGoroutine_result:
  assumes "in_own_goroutine t r" and "ready (hOutcome r) (hCtxErr r) (hSelect r)"
  shows "snd (serveWithGoroutine (hOutcome r) (hSelect r)) = (if ends_process t r then None else Some (request_result t r))"
  using assms
  by (cases "(hOutcome r, hCtxErr r, hSelect r)" rule: ready.cases)
    (auto simp: serveWithGoroutine_def logError_def ends_process_def request_result_def context_verdict_eq split: option.splits)

text \<open>The status of the response types that are not encoded: a stream is 200, or 500 without a source; a redirect is 303
  after a method that sends a body and 302 otherwise; files, templates and XML have the status of the error, 500 if the
  error has none, or the documented success status. What follows the status is given for all but streams and templates.\<close>

definition special_status :: "string \<Rightarrow> ('s, 'j) data \<Rightarrow> 'j http_error option \<Rightarrow> int" where
  "special_status meth d err =
     (case d of
        Stream src _ _ \<Rightarrow> if src = None then 500 else 200
      | Redirect _ \<Rightarrow> if meth \<in> {''POST'', ''PUT'', ''PATCH'', ''QUERY''} then 303 else 302
      | _ \<Rightarrow> (case err of
               Some e \<Rightarrow> (case ErrorStatusCode e of Some c \<Rightarrow> c | None \<Rightarrow> 500)
             | None \<Rightarrow> if meth = ''POST'' then 201 else if meth = ''DELETE'' then 204 else 200))"

definition special_body :: "('s, 'j) data \<Rightarrow> wcall list \<Rightarrow> bool" where
  "special_body d cs \<longleftrightarrow> no_header cs \<and>
     (case d of
        File c _ \<Rightarrow> cs = [CallWrite (case c of None \<Rightarrow> '''' | Some b \<Rightarrow> b)]
      | XML c _ \<Rightarrow> cs = (case c of None \<Rightarrow> [] | Some b \<Rightarrow> if b = '''' then [] else [CallWrite b])
      | Redirect _ \<Rightarrow> cs = []
      | Stream None _ _ \<Rightarrow> cs = [CallWrite nil_stream_body]
      | _ \<Rightarrow> True)"

lemma body_only_header: "calls w1 = calls w \<Longrightarrow> body_only (call (CallHeader n) w1) w' \<Longrightarrow> \<exists>cs. calls w' = calls w @ CallHeader n # cs \<and> no_header cs"
  by (auto simp: body_only_def call_def)

lemma stream_calls:
  "\<exists>cs. calls (handleStream env (Some s) fmt w) = calls w @ CallHeader 200 # cs \<and> no_header cs"
proof -
  let ?w0 = "call CallFlush (call (CallHeader 200) (setStreamHeaders fmt w))"
  obtain ended w1 where p: "pump env fmt (turns env) s ?w0 = (ended, w1)" by (rule prod.exhaust)
  have "body_only (call (CallHeader 200) (setStreamHeaders fmt w)) w1"
    using body_only_trans [OF body_only_call body_only_pump, of CallFlush "call (CallHeader 200) (setStreamHeaders fmt w)" env fmt "turns env" s] p by simp
  then have "body_only (call (CallHeader 200) (setStreamHeaders fmt w)) (if ended then call CallClose w1 else w1)"
    using body_only_trans [OF _ body_only_call [of CallClose w1]] by simp
  then show ?thesis using body_only_header [OF setStreamHeaders_calls] p by (simp add: handleStream_def)
qed

lemma template_calls:
  "\<exists>cs. calls (if panics then call CallPanic (fold (\<lambda>b. call (CallWrite b)) bs (call (CallHeader n) (Header_Set k v w)))
      else fold (\<lambda>b. call (CallWrite b)) bs (call (CallHeader n) (Header_Set k v w))) = calls w @ CallHeader n # cs \<and> no_header cs"
proof -
  let ?w1 = "call (CallHeader n) (Header_Set k v w)"
  have b: "body_only ?w1 (fold (\<lambda>b. call (CallWrite b)) bs ?w1)" by (rule body_only_fold)
  then have "body_only ?w1 (call CallPanic (fold (\<lambda>b. call (CallWrite b)) bs ?w1))"
    by (rule body_only_trans [OF _ body_only_call]) simp
  with b show ?thesis using body_only_header [OF Header_Set_calls] by (cases panics) simp_all
qed

lemma Respond_special_calls:
  assumes "special d"
  shows "\<exists>cs. calls (snd (Respond env meth d err pool w)) = calls w @ CallHeader (special_status meth d err) # cs \<and> special_body d cs"
proof -
  note R = Respond_special [OF assms, of env meth err pool w, THEN conjunct2]
  have st: "getStatusCodeForSpecialResponse meth d err = special_status meth d err" if "\<And>s f b. d \<noteq> Stream s f b" "\<And>u. d \<noteq> Redirect u"
    using that assms by (cases d)
      (auto simp: special_status_def getStatusCodeForSpecialResponse_def handleSuccessStatusCode_def split: option.splits)
  show ?thesis
  proof (cases d)
    case (Stream src fmt hb)
    then show ?thesis using R stream_calls [of env _ fmt w]
      by (cases src) (simp_all add: handleSpecialResponseTypes_def handleStream_def special_status_def special_body_def call_def)
  next
    case (Template x n)
    obtain bs panics where "Render env x n = (bs, panics)" by (rule prod.exhaust)
    then show ?thesis
      using R st Template template_calls [of panics bs "special_status meth d err" "''Content-Type''" "''text/html''" w]
      by (cases panics) (simp_all add: handleSpecialResponseTypes_def special_body_def Let_def)
  next
    case (File c t)
    then show ?thesis using R st by (simp add: handleSpecialResponseTypes_def special_body_def call_def Let_def)
  next
    case (XML c t)
    then show ?thesis using R st
      by (cases c) (auto simp: handleSpecialResponseTypes_def handleXML_def special_body_def call_def Let_def)
  next
    case (Redirect u)
    then show ?thesis using R
      by (simp add: handleSpecialResponseTypes_def handleRedirect_def special_body_def special_status_def call_def Let_def)
  qed (use assms in simp_all)
qed

lemma SetCustomHeaders_calls [simp]: "calls (SetCustomHeaders hs w) = calls w"
proof -
  have "calls (fold (\<lambda>(k, v). Header_Set k v) kvs w) = calls w" for kvs by (induction kvs arbitrary: w) auto
  then show ?thesis by (simp add: SetCustomHeaders_def split: option.splits)
qed

lemma custom_headers_calls [simp]: "calls (custom_headers d w) = calls w"
  by (simp add: custom_headers_def split: data.splits)

text \<open>
  C18. Every request gets one answer, and the right one. The result that is answered is fixed: in the goroutine of the
  request (no timeout, no WebSocket) it is what the function returned while the context is not done afterwards,
  a request timeout (408) or a closed request (499) without any data if it is, and an internal error (500) after a
  panic; in a goroutine of its own it is the timeout or the closed request if the select statement takes the context's
  branch, which it may only when the context is done, and otherwise the function's result or the panic. The status is written
  once and before the body. A result other than a response type of its own is answered by one JSON document: with the
  documented success status, with the status of the error, or with 206 next to partial data, and 500 if it cannot be
  encoded. Files, templates and XML have the status of the error or of the success and their content, redirects
  302 or 303, streams 200, or 500 without a source. There is no answer exactly if the error of the function is logged as
  fatal, which ends the process.
\<close>

theorem request_answer:
  assumes "in_own_goroutine requestTimeout r \<longrightarrow> ready (hOutcome r) (hCtxErr r) (hSelect r)"
    and "request_result requestTimeout r = (d, err)"
  shows "case snd (handler_ServeHTTP env requestTimeout r pool w) of
      None \<Rightarrow> ends_process requestTimeout r
    | Some (pool', w') \<Rightarrow> \<not> ends_process requestTimeout r \<and>
        (if special d
         then \<exists>cs. calls w' = calls w @ CallHeader (special_status (hMethod r) d err) # cs \<and> special_body d cs
         else calls w' = calls w @ promised_calls env (hMethod r) d err)"
proof -
  let ?run = "if \<not> isWebSocket r \<and> requestTimeout = 0 then serveInline (hOutcome r) (hCtxErr r) else serveWithGoroutine (hOutcome r) (hSelect r)"
  have run: "snd ?run = (if ends_process requestTimeout r then None else Some (d, err))"
    using serveInline_result [of requestTimeout r] serveWithGoroutine_result [of requestTimeout r] assms
    by (auto simp: in_own_goroutine_def)
  have h: "snd (handler_ServeHTTP env requestTimeout r pool w) = (case snd ?run of
      None \<Rightarrow> None | Some (result, e) \<Rightarrow> Some (Respond env (hMethod r) result e pool (custom_headers result w)))"
    by (simp only: handler_ServeHTTP_def Let_def case_prod_unfold snd_conv)
  show ?thesis
  proof (cases "ends_process requestTimeout r")
    case True
    then show ?thesis using h run by simp
  next
    case False
    have "snd (handler_ServeHTTP env requestTimeout r pool w) = Some (Respond env (hMethod r) d err pool (custom_headers d w))"
      unfolding h run using False by simp
    then show ?thesis
      using False Respond_special_calls [of d env "hMethod r" err pool "custom_headers d w"]
        Respond_plain(1) [of d env "hMethod r" err pool "custom_headers d w"]
      by (auto split: prod.split)
  qed
qed

text \<open>
  Running a function in the goroutine of its request changes no response. Whatever the direct call makes of the
  function and the context, the call in a goroutine of its own can make of them too; and while the context is not done the
  two give the same result and the same log, whichever branch of the select is taken.
\<close>

lemma serve_modes_agree:
  "(\<exists>sel. ready out ctxErr sel \<and> snd (serveWithGoroutine out sel) = snd (serveInline out ctxErr)) \<and>
   (ctxErr = None \<and> ready out ctxErr sel \<longrightarrow> serveWithGoroutine out sel = serveInline out ctxErr)"
proof
  show "\<exists>sel. ready out ctxErr sel \<and> snd (serveWithGoroutine out sel) = snd (serveInline out ctxErr)"
  proof (cases out)
    case (PanicsWith p)
    then show ?thesis by (intro exI [of _ Panicked]) (simp add: serveWithGoroutine_def serveInline_def split: option.splits)
  next
    case (Returns d err)
    show ?thesis
    proof (cases "snd (logError err) \<or> ctxErr = None")
      case True
      with Returns show ?thesis
        by (intro exI [of _ Done]) (auto simp: serveWithGoroutine_def serveInline_def case_prod_unfold Let_def)
    next
      case False
      with Returns show ?thesis
        by (intro exI [of _ "WatchDone (the ctxErr)"]) (auto simp: serveWithGoroutine_def serveInline_def case_prod_unfold Let_def)
    qed
  qed
  show "ctxErr = None \<and> ready out ctxErr sel \<longrightarrow> serveWithGoroutine out sel = serveInline out ctxErr"
    by (cases "(out, ctxErr, sel)" rule: ready.cases) (auto simp: serveWithGoroutine_def serveInline_def case_prod_unfold Let_def)
qed

text \<open>The handlers for unknown routes and methods, and the liveness probe.\<close>

lemma builtin_status:
  "promised_status meth NilAny (Some (ErrorInvalidRoute :: 'j http_error)) = 404"
  "promised_status meth NilAny (Some (ErrorMethodNotAllowed :: 'j http_error)) = 405"
  "promised_status ''GET'' (Struct False up) None = 200"
  by (simp_all add: promised_status_def)

section \<open>Examples\<close>

definition slow_request :: "(nat, string) hrequest" where
  "slow_request = \<lparr>hMethod = ''GET'', isWebSocket = False, hOutcome = Returns (Plain ''v'') None, hCtxErr = Some DeadlineExceeded,
     hSelect = Done\<rparr>"

theorem request_answer_witness:
  "\<exists>pool w. snd (handler_ServeHTTP demo_renv 0 slow_request [] fresh_writer) = Some (pool, w) \<and>
     calls w = [CallHeader 408, CallWrite (''failed'' @ nl)]"
proof -
  have own: "\<not> in_own_goroutine 0 slow_request" by (simp add: in_own_goroutine_def slow_request_def)
  have res: "request_result 0 slow_request = (NilAny, Some ErrorRequestTimeout)"
    by (simp add: request_result_def own) (simp add: slow_request_def)
  have lives: "\<not> ends_process 0 slow_request" by (simp add: ends_process_def slow_request_def)
  have c: "promised_calls demo_renv (hMethod slow_request) NilAny (Some ErrorRequestTimeout) = [CallHeader 408, CallWrite (''failed'' @ nl)]"
    by (simp add: promised_calls_def promised_payload_def promised_error_def promised_status_def demo_renv_def demo_marshal_def)
  from own have "in_own_goroutine 0 slow_request \<longrightarrow> ready (hOutcome slow_request) (hCtxErr slow_request) (hSelect slow_request)" by simp
  from request_answer [OF this res, of fresh_writer demo_renv "[]"] lives c show ?thesis
    by (simp add: fresh_writer_def split: option.splits prod.splits)
qed

lemma serve_modes_agree_witness:
  "serveWithGoroutine (Returns (Plain ''v'') None) Done = serveInline (Returns (Plain ''v'' :: (nat, string) data) None) None"
  using serve_modes_agree [of "Returns (Plain ''v'' :: (nat, string) data) None" None Done] by simp

end
