(* ===== verification/Base64.thy ===== *)
theory Base64
  imports Go_Prelude
begin

text \<open>
  The package \<^verbatim>\<open>encoding/base64\<close> as the authentication code uses it: the standard alphabet with padding, and the alphabet for URLs
  without. A decoder skips carriage returns and newlines and ignores the unused bits of the last character.
\<close>

section \<open>Alphabets\<close>

definition enc6 :: "char \<times> char \<Rightarrow> nat \<Rightarrow> char" where
  "enc6 ab n =
     (if n < 26 then char_of (65 + n) else if n < 52 then char_of (71 + n) else if n < 62 then char_of (n - 4)
      else if n = 62 then fst ab else snd ab)"

definition dec6 :: "char \<times> char \<Rightarrow> char \<Rightarrow> nat option" where
  "dec6 ab c =
     (let n = of_char c :: nat in
      if 65 \<le> n \<and> n \<le> 90 then Some (n - 65)
      else if 97 \<le> n \<and> n \<le> 122 then Some (n - 71)
      else if 48 \<le> n \<and> n \<le> 57 then Some (n + 4)
      else if c = fst ab then Some 62 else if c = snd ab then Some 63 else None)"

abbreviation std :: "char \<times> char" where "std \<equiv> (CHR ''+'', CHR ''/'')"
abbreviation url :: "char \<times> char" where "url \<equiv> (CHR ''-'', CHR ''_'')"

abbreviation byte :: "char \<Rightarrow> nat" where "byte c \<equiv> of_char c"

section \<open>Encoding and decoding\<close>

fun EncodeToString :: "string \<Rightarrow> string" where
  "EncodeToString [] = []"
| "EncodeToString [a] = [enc6 std (byte a div 4), enc6 std (byte a mod 4 * 16), CHR ''='', CHR ''='']"
| "EncodeToString [a, b] =
     [enc6 std (byte a div 4), enc6 std (byte a mod 4 * 16 + byte b div 16), enc6 std (byte b mod 16 * 4), CHR ''='']"
| "EncodeToString (a # b # c # r) =
     enc6 std (byte a div 4) # enc6 std (byte a mod 4 * 16 + byte b div 16) #
     enc6 std (byte b mod 16 * 4 + byte c div 64) # enc6 std (byte c mod 64) # EncodeToString r"

definition join1 :: "nat \<Rightarrow> nat \<Rightarrow> char" where "join1 v w = char_of (v * 4 + w div 16)"
definition join2 :: "nat \<Rightarrow> nat \<Rightarrow> char" where "join2 w x = char_of (w mod 16 * 16 + x div 4)"
definition join3 :: "nat \<Rightarrow> nat \<Rightarrow> char" where "join3 x y = char_of (x mod 4 * 64 + y)"

definition decode2 :: "char \<times> char \<Rightarrow> char \<Rightarrow> char \<Rightarrow> string option" where
  "decode2 ab a b = (case (dec6 ab a, dec6 ab b) of (Some v, Some w) \<Rightarrow> Some [join1 v w] | _ \<Rightarrow> None)"

definition decode3 :: "char \<times> char \<Rightarrow> char \<Rightarrow> char \<Rightarrow> char \<Rightarrow> string option" where
  "decode3 ab a b c =
     (case (dec6 ab a, dec6 ab b, dec6 ab c) of (Some v, Some w, Some x) \<Rightarrow> Some [join1 v w, join2 w x] | _ \<Rightarrow> None)"

definition decode4 :: "char \<times> char \<Rightarrow> char \<Rightarrow> char \<Rightarrow> char \<Rightarrow> char \<Rightarrow> string option" where
  "decode4 ab a b c d =
     (case (dec6 ab a, dec6 ab b, dec6 ab c, dec6 ab d) of
        (Some v, Some w, Some x, Some y) \<Rightarrow> Some [join1 v w, join2 w x, join3 x y] | _ \<Rightarrow> None)"

fun decode_std :: "string \<Rightarrow> string option" where
  "decode_std [] = Some []"
| "decode_std (a # b # c # d # r) =
     (if r = [] \<and> d = CHR ''='' then (if c = CHR ''='' then decode2 std a b else decode3 std a b c)
      else (case (decode4 std a b c d, decode_std r) of (Some x, Some y) \<Rightarrow> Some (x @ y) | _ \<Rightarrow> None))"
| "decode_std _ = None"

fun decode_raw_url :: "string \<Rightarrow> string option" where
  "decode_raw_url [] = Some []"
| "decode_raw_url [a] = None"
| "decode_raw_url [a, b] = decode2 url a b"
| "decode_raw_url [a, b, c] = decode3 url a b c"
| "decode_raw_url (a # b # c # d # r) =
     (case (decode4 url a b c d, decode_raw_url r) of (Some x, Some y) \<Rightarrow> Some (x @ y) | _ \<Rightarrow> None)"

definition strip_newlines :: "string \<Rightarrow> string" where
  "strip_newlines s = filter (\<lambda>c. c \<noteq> CHR 0x0A \<and> c \<noteq> CHR 0x0D) s"

definition DecodeString :: "string \<Rightarrow> string option" where
  "DecodeString s = decode_std (strip_newlines s)"

definition RawURL_DecodeString :: "string \<Rightarrow> string option" where
  "RawURL_DecodeString s = decode_raw_url (strip_newlines s)"

section \<open>Decoding undoes encoding\<close>

lemma byte_less [simp]: "byte c < 256"
  by (rule nat_of_char_less_256)

lemma byte_enc6: "n < 64 \<Longrightarrow> byte (enc6 std n) =
    (if n < 26 then 65 + n else if n < 52 then 71 + n else if n < 62 then n - 4 else if n = 62 then 43 else 47)"
  by (simp add: enc6_def)

lemma enc6_neq: "n < 64 \<Longrightarrow> byte c \<notin> {43, 47} \<union> {48..57} \<union> {65..90} \<union> {97..122} \<Longrightarrow> enc6 std n \<noteq> c"
  using byte_enc6 [of n] by (auto split: if_splits)

lemma dec6_enc6 [simp]:
  assumes "n < 64"
  shows "dec6 std (enc6 std n) = Some n"
proof (cases "n < 62")
  case True
  with byte_enc6 [OF assms] show ?thesis by (auto simp: dec6_def Let_def)
next
  case False
  with assms have "n = 62 \<or> n = 63" by auto
  then show ?thesis by (auto simp: enc6_def dec6_def)
qed

lemma enc6_facts [simp]:
  assumes "n < 64"
  shows "enc6 std n \<noteq> CHR ''=''" and "enc6 std n \<noteq> CHR '' ''" and "enc6 std n \<noteq> CHR 0x0A" and "enc6 std n \<noteq> CHR 0x0D"
  by (rule enc6_neq [OF assms]; simp)+

lemma div_small [simp]: "byte b div 4 < 64" "byte b div 16 < 16" "byte c div 64 < 4"
  using byte_less [of b] byte_less [of c] by (simp_all add: less_mult_imp_div_less)

lemma two_parts: "x < (k :: nat) \<Longrightarrow> y < m \<Longrightarrow> x * m + y < k * m"
proof -
  assume "x < k" "y < m"
  then have "x * m + y < Suc x * m" by simp
  also have "\<dots> \<le> k * m" using \<open>x < k\<close> by (intro mult_le_mono1) simp
  finally show ?thesis .
qed

lemma byte_parts [simp]:
  "byte a mod 4 * 16 < 64" "byte a mod 4 * 16 + byte b div 16 < 64" "byte b mod 16 * 4 < 64"
  "byte b mod 16 * 4 + byte c div 64 < 64" "byte c mod 64 < 64"
  using two_parts [of "byte a mod 4" 4 "byte b div 16" 16] two_parts [of "byte b mod 16" 16 "byte c div 64" 4]
    two_parts [of "byte a mod 4" 4 0 16] two_parts [of "byte b mod 16" 16 0 4] by simp_all

lemma join1_parts [simp]: "x < 16 \<Longrightarrow> join1 (byte a div 4) (byte a mod 4 * 16 + x) = a"
proof -
  assume "x < 16"
  then have "(byte a mod 4 * 16 + x) div 16 = byte a mod 4" by simp
  then show ?thesis by (simp add: join1_def)
qed

lemma join1_parts0 [simp]: "join1 (byte a div 4) (byte a mod 4 * 16) = a"
  using join1_parts [of 0 a] by simp

lemma join2_parts [simp]: "x < 4 \<Longrightarrow> join2 (y * 16 + byte b div 16) (byte b mod 16 * 4 + x) = b"
proof -
  assume "x < 4"
  moreover have "byte b div 16 < 16" by simp
  ultimately have "(y * 16 + byte b div 16) mod 16 = byte b div 16" "(byte b mod 16 * 4 + x) div 4 = byte b mod 16" by simp_all
  then show ?thesis by (simp add: join2_def)
qed

lemma join2_parts0 [simp]: "join2 (y * 16 + byte b div 16) (byte b mod 16 * 4) = b"
  using join2_parts [of 0 y b] by simp

lemma join3_parts [simp]: "join3 (y * 4 + byte c div 64) (byte c mod 64) = c"
proof -
  have "byte c div 64 < 4" by simp
  then have "(y * 4 + byte c div 64) mod 4 = byte c div 64" by simp
  then show ?thesis by (simp add: join3_def)
qed

lemma decode_std_encode: "decode_std (EncodeToString s) = Some s"
  by (induction s rule: EncodeToString.induct) (simp_all add: decode2_def decode3_def decode4_def)

lemma encode_plain: "set (EncodeToString s) \<inter> {CHR '' '', CHR 0x0A, CHR 0x0D} = {}"
  by (induction s rule: EncodeToString.induct) auto

lemma strip_newlines_id: "CHR 0x0A \<notin> set s \<Longrightarrow> CHR 0x0D \<notin> set s \<Longrightarrow> strip_newlines s = s"
  unfolding strip_newlines_def by (rule filter_True) auto

lemma DecodeString_encode [simp]: "DecodeString (EncodeToString s) = Some s"
  using encode_plain [of s] decode_std_encode [of s] by (simp add: DecodeString_def strip_newlines_id)

lemma EncodeToString_not_Nil: "s \<noteq> [] \<Longrightarrow> EncodeToString s \<noteq> []"
  by (cases s rule: EncodeToString.cases) simp_all

end
