(* ===== verification/Http_Auth.thy ===== *)
theory Http_Auth
  imports Http_Responder Base64
begin

text \<open>
  Authentication: the providers of the HTTP server (\<^verbatim>\<open>http/middleware/auth.go\<close>, \<^verbatim>\<open>basic_auth.go\<close>, \<^verbatim>\<open>apikey_auth.go\<close>, \<^verbatim>\<open>oauth.go\<close>), the
  interceptors of the gRPC server (\<^verbatim>\<open>grpc/middleware\<close>), their registration (\<^verbatim>\<open>auth.go\<close>) and the options with which a client
  authenticates itself (\<^verbatim>\<open>service/basic_auth.go\<close>, \<^verbatim>\<open>service/apikey_auth.go\<close>). Validation functions of the application, the parser of
  tokens and the decoder of key sets are parameters.
\<close>

section \<open>Errors and requests\<close>

datatype auth_error =
    ErrorMissingAuthHeader string
  | ErrorInvalidAuthorizationHeader string
  | ErrorInvalidAuthorizationHeaderFormat string string
  | ErrorInvalidConfiguration string

abbreviation quote :: string where "quote \<equiv> [CHR 0x27]"

fun auth_Error :: "auth_error \<Rightarrow> string" where
  "auth_Error (ErrorMissingAuthHeader key) = ''missing auth header in key '' @ quote @ key @ quote"
| "auth_Error (ErrorInvalidAuthorizationHeader key) = ''invalid auth header in key '' @ quote @ key @ quote"
| "auth_Error (ErrorInvalidAuthorizationHeaderFormat key msg) = ''invalid value in '' @ quote @ key @ quote @ '' header - '' @ msg"
| "auth_Error (ErrorInvalidConfiguration msg) = ''invalid configuration '' @ msg @ '' - please contact administrator''"

fun auth_StatusCode :: "auth_error \<Rightarrow> int" where
  "auth_StatusCode (ErrorMissingAuthHeader _) = 401"
| "auth_StatusCode (ErrorInvalidAuthorizationHeader _) = 401"
| "auth_StatusCode (ErrorInvalidAuthorizationHeaderFormat _ _) = 401"
| "auth_StatusCode (ErrorInvalidConfiguration _) = 500"

record auth_request =
  aMethod :: string
  aPath :: string
  aHeader :: "string \<Rightarrow> string"

definition auth_wellKnown :: "string \<Rightarrow> bool" where
  "auth_wellKnown path \<longleftrightarrow> path = ''/.well-known'' \<or> HasPrefix path ''/.well-known/''"

definition getAuthHeaderFromRequest :: "auth_request \<Rightarrow> string \<Rightarrow> string \<Rightarrow> auth_error + string" where
  "getAuthHeaderFromRequest r key prefix =
     (let header = aHeader r key in
      if header = '''' then Inl (ErrorMissingAuthHeader key)
      else if prefix = '''' then Inr header
      else (case Split header (CHR '' '') of
              [p, v] \<Rightarrow> if p \<noteq> prefix \<or> v = '''' then Inl (ErrorInvalidAuthorizationHeaderFormat key (''header should be `'' @ prefix @ '' <value>`''))
                        else Inr v
            | _ \<Rightarrow> Inl (ErrorInvalidAuthorizationHeaderFormat key (''header should be `'' @ prefix @ '' <value>`''))))"

section \<open>Basic authentication\<close>

text \<open>The container handed to a validation function with data sources is fixed and part of the function.\<close>

record BasicAuthProvider =
  Users :: "string \<Rightarrow> string option"
  ValidateFunc :: "(string \<Rightarrow> string \<Rightarrow> bool) option"
  ValidateFuncWithDatasources :: "(string \<Rightarrow> string \<Rightarrow> bool) option"

text \<open>\<^verbatim>\<open>strings.Cut\<close> at one byte.\<close>

definition Cut :: "string \<Rightarrow> char \<Rightarrow> (string \<times> string) option" where
  "Cut s c = map_option (\<lambda>i. (take i s, drop (Suc i) s)) (IndexByte s c)"

definition parseBasicAuth :: "string \<Rightarrow> (string \<times> string) option" where
  "parseBasicAuth authHeader =
     (if authHeader = '''' then None
      else (case DecodeString authHeader of None \<Rightarrow> None | Some payload \<Rightarrow> Cut payload (CHR '':'')))"

definition validateCredentials :: "BasicAuthProvider \<Rightarrow> string \<Rightarrow> string \<Rightarrow> bool" where
  "validateCredentials a username password =
     (case ValidateFuncWithDatasources a of
        Some f \<Rightarrow> f username password
      | None \<Rightarrow> (case ValidateFunc a of
          Some f \<Rightarrow> f username password
        | None \<Rightarrow> (case Users a username of
            None \<Rightarrow> False
          | Some storedPass \<Rightarrow> if username = '''' \<or> storedPass = '''' then False else password = storedPass)))"

definition Basic_ExtractAuthHeader :: "BasicAuthProvider \<Rightarrow> auth_request \<Rightarrow> auth_error + string" where
  "Basic_ExtractAuthHeader a r =
     bind_sum (getAuthHeaderFromRequest r ''Authorization'' ''Basic'') (\<lambda>header.
       case parseBasicAuth header of
         None \<Rightarrow> Inl (ErrorInvalidAuthorizationHeaderFormat ''Authorization'' ''credentials should be in the format base64(username:password)'')
       | Some (userName, password) \<Rightarrow>
           if \<not> validateCredentials a userName password then Inl (ErrorInvalidAuthorizationHeader ''Authorization'')
           else Inr userName)"

section \<open>API keys\<close>

record APIKeyAuthProvider =
  APIKeys :: "string list"
  KeyFunc :: "(string \<Rightarrow> bool) option"
  KeyFuncWithDatasources :: "(string \<Rightarrow> bool) option"

definition validateAPIKey :: "APIKeyAuthProvider \<Rightarrow> string \<Rightarrow> bool" where
  "validateAPIKey a apiKey =
     (case KeyFuncWithDatasources a of
        Some f \<Rightarrow> f apiKey
      | None \<Rightarrow> (case KeyFunc a of Some f \<Rightarrow> f apiKey | None \<Rightarrow> list_ex (\<lambda>key. apiKey = key) (APIKeys a)))"

definition APIKey_ExtractAuthHeader :: "APIKeyAuthProvider \<Rightarrow> auth_request \<Rightarrow> auth_error + string" where
  "APIKey_ExtractAuthHeader a r =
     bind_sum (getAuthHeaderFromRequest r ''X-Api-Key'' '''') (\<lambda>header.
       if \<not> validateAPIKey a header then Inl (ErrorInvalidAuthorizationHeader ''X-Api-Key'') else Inr header)"

section \<open>Tokens\<close>

record JSONWebKey =
  kid :: string
  kty :: string
  Modulus :: string
  PublicExponent :: string

record rsa_key =
  rsaN :: nat
  rsaE :: int

definition SetBytes :: "string \<Rightarrow> nat" where
  "SetBytes bs = foldl (\<lambda>n c. n * 256 + byte c) 0 bs"

definition rsaPublicKey :: "JSONWebKey \<Rightarrow> rsa_key option" where
  "rsaPublicKey jwk =
     (if Modulus jwk = '''' then None
      else if PublicExponent jwk = '''' then None
      else (case RawURL_DecodeString (Modulus jwk) of
              None \<Rightarrow> None
            | Some n \<Rightarrow> (case RawURL_DecodeString (PublicExponent jwk) of
                None \<Rightarrow> None
              | Some e \<Rightarrow> Some \<lparr>rsaN = SetBytes n, rsaE = wrap64 (int (SetBytes e))\<rparr>)))"

type_synonym key_map = "string \<Rightarrow> rsa_key option"

definition publicKeyFromJWKS :: "JSONWebKey list \<Rightarrow> key_map" where
  "publicKeyFromJWKS jwks =
     (if length jwks = 0 then Map.empty
      else fold (\<lambda>jwk keys. case rsaPublicKey jwk of Some key \<Rightarrow> keys(kid jwk \<mapsto> key) | None \<Rightarrow> keys) jwks Map.empty)"

text \<open>What fetching the key set ends in: no answer, or a status with a body that may be missing or fail to be read.\<close>

datatype body = NoBody | ReadFails | Body string

datatype fetch = FetchFails | NoResponse | Fetched int body

definition getPublicKeys :: "(string \<Rightarrow> JSONWebKey list option) \<Rightarrow> fetch \<Rightarrow> JSONWebKey list option" where
  "getPublicKeys Unmarshal f =
     (case f of
        FetchFails \<Rightarrow> None
      | NoResponse \<Rightarrow> Some []
      | Fetched status b \<Rightarrow>
          if status \<noteq> 200 then None
          else (case b of NoBody \<Rightarrow> None | ReadFails \<Rightarrow> None | Body c \<Rightarrow> Unmarshal c))"

text \<open>All keys come from the set, so there are none if none of its ids has one.\<close>

definition updateKeys :: "(string \<Rightarrow> JSONWebKey list option) \<Rightarrow> fetch \<Rightarrow> key_map \<Rightarrow> key_map" where
  "updateKeys Unmarshal f keys =
     (case getPublicKeys Unmarshal f of
        None \<Rightarrow> keys
      | Some jwks \<Rightarrow> let new = publicKeyFromJWKS jwks in if list_all (\<lambda>jwk. new (kid jwk) = None) jwks then keys else new)"

definition PublicKeys_Get :: "key_map \<Rightarrow> string \<Rightarrow> rsa_key option" where
  "PublicKeys_Get keys k = keys (TrimSpace k)"

text \<open>A parsed token: its claims, whether they are a map, and whether it is valid. The parser asks for the key of an id.\<close>

record 'c token =
  Claims :: 'c
  isMapClaims :: bool
  Valid :: bool

record jwt_error =
  jwtMsg :: string
  isEmptyProvider :: bool

type_synonym 'c jwt_parser = "string \<Rightarrow> (string \<Rightarrow> rsa_key option) \<Rightarrow> jwt_error + 'c token"

definition jwt_char :: "char \<Rightarrow> bool" where
  "jwt_char c \<longleftrightarrow> is_upper c \<or> is_lower c \<or> is_digit c \<or> c = CHR ''-'' \<or> c = CHR ''_''"

definition jwtRegex :: "string \<Rightarrow> bool" where
  "jwtRegex s = (case Split s (CHR ''.'') of [a, b, c] \<Rightarrow> list_all (\<lambda>w. w \<noteq> '''' \<and> list_all jwt_char w) [a, b, c] | _ \<Rightarrow> False)"

definition OAuth_ExtractAuthHeader :: "'c jwt_parser \<Rightarrow> key_map \<Rightarrow> auth_request \<Rightarrow> auth_error + 'c" where
  "OAuth_ExtractAuthHeader jwtParse keys r =
     bind_sum (getAuthHeaderFromRequest r ''Authorization'' ''Bearer'') (\<lambda>header.
       if \<not> jwtRegex header then Inl (ErrorInvalidAuthorizationHeaderFormat ''Authorization'' ''jwt expected'')
       else (case jwtParse header (PublicKeys_Get keys) of
               Inl e \<Rightarrow>
                 if Contains (jwtMsg e) ''token is malformed'' then Inl (ErrorInvalidAuthorizationHeaderFormat ''Authorization'' ''token is malformed'')
                 else if isEmptyProvider e then Inl (ErrorInvalidConfiguration ''jwks configuration issue'')
                 else Inl (ErrorInvalidAuthorizationHeader ''Authorization'')
             | Inr t \<Rightarrow>
                 if \<not> isMapClaims t then Inl (ErrorInvalidAuthorizationHeaderFormat ''Authorization'' ''token has invalid claims'')
                 else Inr (Claims t)))"

section \<open>The middleware\<close>

datatype 'i admission = Admit "'i option" | Refuse auth_error

definition AuthMiddleware :: "(auth_request \<Rightarrow> auth_error + 'i) \<Rightarrow> auth_request \<Rightarrow> 'i admission" where
  "AuthMiddleware examine r =
     (if auth_wellKnown (aPath r) then Admit None
      else (case examine r of Inl err \<Rightarrow> Refuse err | Inr authHeader \<Rightarrow> Admit (Some authHeader)))"

text \<open>The error as the responder sees it, and the response to a refused request.\<close>

definition as_error :: "auth_error \<Rightarrow> 'j http_error" where
  "as_error e = AppError (auth_Error e) (Some (auth_StatusCode e)) None None"

definition refusal :: "('s, 'j) renv \<Rightarrow> auth_request \<Rightarrow> auth_error \<Rightarrow> ('s, 'j) respEncoder list \<Rightarrow> writer \<Rightarrow> ('s, 'j) respEncoder list \<times> writer" where
  "refusal env r e pool w = Respond env (aMethod r) NilAny (Some (as_error e)) pool w"

text \<open>The middlewares of an application in the order they were enabled.\<close>

datatype 'c identity = Username string | APIKey string | JWTClaim 'c

datatype 'c auth = BasicAuth BasicAuthProvider | APIKeyAuth APIKeyAuthProvider | OAuth "'c jwt_parser" key_map

fun ExtractAuthHeader :: "'c auth \<Rightarrow> auth_request \<Rightarrow> auth_error + 'c identity" where
  "ExtractAuthHeader (BasicAuth a) r = map_sum id Username (Basic_ExtractAuthHeader a r)"
| "ExtractAuthHeader (APIKeyAuth a) r = map_sum id APIKey (APIKey_ExtractAuthHeader a r)"
| "ExtractAuthHeader (OAuth p keys) r = map_sum id JWTClaim (OAuth_ExtractAuthHeader p keys r)"

fun auth_chain :: "'c auth list \<Rightarrow> auth_request \<Rightarrow> auth_error + 'c identity list" where
  "auth_chain [] r = Inr []"
| "auth_chain (a # as) r =
     (case AuthMiddleware (ExtractAuthHeader a) r of
        Refuse e \<Rightarrow> Inl e
      | Admit i \<Rightarrow> map_sum id (\<lambda>ids. (case i of None \<Rightarrow> ids | Some x \<Rightarrow> x # ids)) (auth_chain as r))"

section \<open>Enabling authentication\<close>

datatype enable_error = errNoBasicAuthCredentials | errOddBasicAuthCredentials | errEmptyBasicAuthCredential

fun credential_pairs :: "string list \<Rightarrow> (string \<Rightarrow> string option) \<times> enable_error option \<Rightarrow> (string \<Rightarrow> string option) \<times> enable_error option" where
  "credential_pairs (u # p # cs) (users, err) =
     (if u = '''' \<or> p = '''' then credential_pairs cs (users, Some errEmptyBasicAuthCredential)
      else credential_pairs cs (users(u \<mapsto> p), err))"
| "credential_pairs _ acc = acc"

text \<open>The error, and the middlewares installed on the HTTP and the gRPC server, which share the provider.\<close>

definition enableBasicAuth :: "string list \<Rightarrow> 'c auth list \<Rightarrow> enable_error option \<times> 'c auth list" where
  "enableBasicAuth credentials mws =
     (if length credentials = 0 then (Some errNoBasicAuthCredentials, mws)
      else if length credentials mod 2 \<noteq> 0 then (Some errOddBasicAuthCredentials, mws)
      else let (users, err) = credential_pairs credentials (Map.empty, None) in
        (err, mws @ [BasicAuth \<lparr>Users = users, ValidateFunc = None, ValidateFuncWithDatasources = None\<rparr>]))"

definition EnableAPIKeyAuth :: "string list \<Rightarrow> 'c auth list \<Rightarrow> 'c auth list" where
  "EnableAPIKeyAuth apiKeys mws = mws @ [APIKeyAuth \<lparr>APIKeys = apiKeys, KeyFunc = None, KeyFuncWithDatasources = None\<rparr>]"

section \<open>gRPC\<close>

text \<open>The metadata of a call; a refusal has the code Unauthenticated and a message.\<close>

type_synonym metadata = "(string \<Rightarrow> string list option) option"

definition md_header :: "metadata \<Rightarrow> string \<Rightarrow> string + string" where
  "md_header md key =
     (case md of
        None \<Rightarrow> Inl ''missing metadata''
      | Some m \<Rightarrow> (case m key of
          Some (v # _) \<Rightarrow> Inr v
        | _ \<Rightarrow> Inl (''missing '' @ key @ '' header'')))"

definition verifyCredentials :: "BasicAuthProvider \<Rightarrow> string \<Rightarrow> string \<Rightarrow> bool" where
  "verifyCredentials b username password =
     (if ValidateFuncWithDatasources b \<noteq> None then the (ValidateFuncWithDatasources b) username password
      else if ValidateFunc b \<noteq> None then the (ValidateFunc b) username password
      else (case Users b username of
              None \<Rightarrow> False
            | Some expectedPass \<Rightarrow> \<not> (username = '''' \<or> expectedPass = '''') \<and> password = expectedPass))"

definition validateBasicAuth :: "BasicAuthProvider \<Rightarrow> metadata \<Rightarrow> string + string" where
  "validateBasicAuth provider md =
     bind_sum (md_header md ''authorization'') (\<lambda>h.
       case Cut h (CHR '' '') of
         None \<Rightarrow> Inl ''invalid authorization header format''
       | Some (scheme, v) \<Rightarrow>
           if \<not> EqualFold scheme ''Basic'' then Inl ''invalid authorization header format''
           else (case DecodeString v of
                   None \<Rightarrow> Inl ''invalid base64 credentials''
                 | Some payload \<Rightarrow> (case Cut payload (CHR '':'') of
                     None \<Rightarrow> Inl ''invalid credentials format''
                   | Some (username, password) \<Rightarrow>
                       if \<not> verifyCredentials provider username password then Inl ''invalid credentials'' else Inr username)))"

definition verifyAPIKey :: "APIKeyAuthProvider \<Rightarrow> string \<Rightarrow> bool" where
  "verifyAPIKey a apiKey =
     (if KeyFuncWithDatasources a \<noteq> None then the (KeyFuncWithDatasources a) apiKey
      else if KeyFunc a \<noteq> None then the (KeyFunc a) apiKey
      else list_ex (\<lambda>key. apiKey = key) (APIKeys a))"

definition grpc_validateAPIKey :: "APIKeyAuthProvider \<Rightarrow> metadata \<Rightarrow> string + string" where
  "grpc_validateAPIKey provider md =
     bind_sum (md_header md ''x-api-key'') (\<lambda>apiKey. if \<not> verifyAPIKey provider apiKey then Inl ''invalid api key'' else Inr apiKey)"

definition validateOAuth :: "'c jwt_parser \<Rightarrow> key_map \<Rightarrow> metadata \<Rightarrow> string + 'c" where
  "validateOAuth jwtParse keys md =
     bind_sum (md_header md ''authorization'') (\<lambda>h.
       case Cut h (CHR '' '') of
         None \<Rightarrow> Inl ''invalid authorization header format''
       | Some (scheme, tokenString) \<Rightarrow>
           if \<not> EqualFold scheme ''Bearer'' then Inl ''invalid authorization header format''
           else if \<not> jwtRegex tokenString then Inl ''jwt expected''
           else (case jwtParse tokenString (PublicKeys_Get keys) of
                   Inl e \<Rightarrow> Inl (''invalid token: '' @ jwtMsg e)
                 | Inr t \<Rightarrow> if \<not> Valid t then Inl ''invalid token'' else Inr (Claims t)))"

fun validator :: "'c auth \<Rightarrow> metadata \<Rightarrow> string + 'c identity" where
  "validator (BasicAuth a) md = map_sum id Username (validateBasicAuth a md)"
| "validator (APIKeyAuth a) md = map_sum id APIKey (grpc_validateAPIKey a md)"
| "validator (OAuth p keys) md = map_sum id JWTClaim (validateOAuth p keys md)"

text \<open>The interceptors, for unary calls and streams alike.\<close>

definition NewAuthInterceptor :: "(metadata \<Rightarrow> string + 'i) \<Rightarrow> metadata \<Rightarrow> ('i \<Rightarrow> string + 'a) \<Rightarrow> string + 'a" where
  "NewAuthInterceptor val md h = (case val md of Inl err \<Rightarrow> Inl err | Inr v \<Rightarrow> h v)"

fun grpc_chain :: "'c auth list \<Rightarrow> metadata \<Rightarrow> string + 'c identity list" where
  "grpc_chain [] md = Inr []"
| "grpc_chain (a # as) md = NewAuthInterceptor (validator a) md (\<lambda>v. map_sum id (\<lambda>vs. v # vs) (grpc_chain as md))"

section \<open>The client\<close>

datatype client_error = AuthErr string

record BasicAuthConfig =
  UserName :: string
  Password :: string

definition NewBasicAuthConfig :: "string \<Rightarrow> string \<Rightarrow> client_error + BasicAuthConfig" where
  "NewBasicAuthConfig username0 password0 =
     (let username = TrimSpace username0; password = TrimSpace password0 in
      if username = '''' then Inl (AuthErr ''username is required'')
      else if password = '''' then Inl (AuthErr ''password is required'')
      else (case DecodeString password of
              None \<Rightarrow> Inl (AuthErr ''password should be base64 encoded'')
            | Some decoded \<Rightarrow> if decoded = password then Inl (AuthErr ''password should be base64 encoded'')
                else Inr \<lparr>UserName = username, Password = decoded\<rparr>))"

type_synonym headers = "string \<Rightarrow> string option"

definition Basic_addAuthorizationHeader :: "BasicAuthConfig \<Rightarrow> headers \<Rightarrow> client_error + headers" where
  "Basic_addAuthorizationHeader c hs =
     (if hs ''Authorization'' \<noteq> None then Inl (AuthErr ''a value already exists for header Authorization'')
      else Inr (hs(''Authorization'' \<mapsto> ''Basic '' @ EncodeToString (UserName c @ '':'' @ Password c))))"

definition NewAPIKeyConfig :: "string \<Rightarrow> client_error + string" where
  "NewAPIKeyConfig apiKey0 =
     (let apiKey = TrimSpace apiKey0 in if apiKey = '''' then Inl (AuthErr ''non empty api key is required'') else Inr apiKey)"

definition APIKey_addAuthorizationHeader :: "string \<Rightarrow> headers \<Rightarrow> client_error + headers" where
  "APIKey_addAuthorizationHeader key hs =
     (if hs ''X-Api-Key'' \<noteq> None then Inl (AuthErr ''a value already exists for header X-Api-Key'')
      else Inr (hs(''X-Api-Key'' \<mapsto> key)))"

text \<open>A method of the authenticated client, over the method of the client it wraps; without headers it starts from an empty map.\<close>

definition authProvider_send :: "(headers \<Rightarrow> client_error + headers) \<Rightarrow> (headers \<Rightarrow> client_error + 'a) \<Rightarrow> headers option \<Rightarrow> client_error + 'a" where
  "authProvider_send auth send hs = bind_sum (auth (case hs of None \<Rightarrow> Map.empty | Some m \<Rightarrow> m)) send"

definition setCustomHeader :: "headers \<Rightarrow> headers option \<Rightarrow> headers" where
  "setCustomHeader custom hs = (case hs of None \<Rightarrow> Map.empty | Some m \<Rightarrow> m) ++ custom"

section \<open>What the providers accept\<close>

lemma Split_two: "Split h c = [p, v] \<longleftrightarrow> h = p @ c # v \<and> c \<notin> set p \<and> c \<notin> set v"
proof
  assume s: "Split h c = [p, v]"
  then have "c \<notin> set p" "c \<notin> set v" using Split_no_sep [of p h c] Split_no_sep [of v h c] by simp_all
  with s Join_Split [of h c] show "h = p @ c # v \<and> c \<notin> set p \<and> c \<notin> set v" by simp
qed (auto simp: Split_append Split_single)

lemma Cut_Some: "Cut s c = Some (a, b) \<longleftrightarrow> s = a @ c # b \<and> c \<notin> set a"
proof -
  have "IndexByte (a @ c # b) c = Some (length a)" if "c \<notin> set a" using that by (induction a) auto
  moreover have "s = take i s @ c # drop (Suc i) s \<and> c \<notin> set (take i s)" if "IndexByte s c = Some i" for i
    using that by (induction s arbitrary: i) (auto split: if_splits)
  ultimately show ?thesis by (auto simp: Cut_def)
qed

lemma getAuthHeader_scheme:
  "prefix \<noteq> '''' \<Longrightarrow> CHR '' '' \<notin> set prefix \<Longrightarrow> getAuthHeaderFromRequest r key prefix = Inr v \<longleftrightarrow>
     aHeader r key = prefix @ '' '' @ v \<and> v \<noteq> '''' \<and> CHR '' '' \<notin> set v"
proof -
  assume p: "prefix \<noteq> ''''" "CHR '' '' \<notin> set prefix"
  have "getAuthHeaderFromRequest r key prefix = Inr v \<longleftrightarrow> aHeader r key \<noteq> '''' \<and> Split (aHeader r key) (CHR '' '') = [prefix, v] \<and> v \<noteq> ''''"
    using p(1) by (auto simp: getAuthHeaderFromRequest_def Let_def split: list.splits if_splits)
  then show ?thesis using p by (auto simp: Split_two)
qed

lemma getAuthHeader_plain: "getAuthHeaderFromRequest r key '''' = Inr v \<longleftrightarrow> aHeader r key = v \<and> v \<noteq> ''''"
  by (auto simp: getAuthHeaderFromRequest_def Let_def)

text \<open>Which credentials are good, said without the code's checks. A password is the one configured for the user, neither of
  them empty, unless the application has a function of its own, the one with data sources first; a key is one of the
  configured keys, likewise. A token has three words of letters, digits, hyphens and underscores between dots.\<close>

definition right_password :: "BasicAuthProvider \<Rightarrow> string \<Rightarrow> string \<Rightarrow> bool" where
  "right_password a u p \<longleftrightarrow>
     (\<exists>f. ValidateFuncWithDatasources a = Some f \<and> f u p) \<or>
     ValidateFuncWithDatasources a = None \<and> (\<exists>f. ValidateFunc a = Some f \<and> f u p) \<or>
     ValidateFuncWithDatasources a = None \<and> ValidateFunc a = None \<and> Users a u = Some p \<and> u \<noteq> '''' \<and> p \<noteq> ''''"

definition right_key :: "APIKeyAuthProvider \<Rightarrow> string \<Rightarrow> bool" where
  "right_key a k \<longleftrightarrow>
     (\<exists>f. KeyFuncWithDatasources a = Some f \<and> f k) \<or>
     KeyFuncWithDatasources a = None \<and> (\<exists>f. KeyFunc a = Some f \<and> f k) \<or>
     KeyFuncWithDatasources a = None \<and> KeyFunc a = None \<and> k \<in> set (APIKeys a)"

definition token_word :: "string \<Rightarrow> bool" where
  "token_word w \<longleftrightarrow> w \<noteq> '''' \<and> (\<forall>c \<in> set w. is_upper c \<or> is_lower c \<or> is_digit c \<or> c = CHR ''-'' \<or> c = CHR ''_'')"

definition token_shape :: "string \<Rightarrow> bool" where
  "token_shape v \<longleftrightarrow> (\<exists>x y z. v = x @ ''.'' @ y @ ''.'' @ z \<and> token_word x \<and> token_word y \<and> token_word z)"

definition open_path :: "string \<Rightarrow> bool" where
  "open_path p \<longleftrightarrow> p = ''/.well-known'' \<or> (\<exists>rest. p = ''/.well-known/'' @ rest)"

text \<open>The credentials a request must carry for an identity.\<close>

definition basic_proof :: "BasicAuthProvider \<Rightarrow> auth_request \<Rightarrow> string \<Rightarrow> bool" where
  "basic_proof a r u \<longleftrightarrow> (\<exists>v p. aHeader r ''Authorization'' = ''Basic '' @ v \<and> v \<noteq> '''' \<and> CHR '' '' \<notin> set v \<and>
     DecodeString v = Some (u @ '':'' @ p) \<and> CHR '':'' \<notin> set u \<and> right_password a u p)"

definition apikey_proof :: "APIKeyAuthProvider \<Rightarrow> auth_request \<Rightarrow> string \<Rightarrow> bool" where
  "apikey_proof a r k \<longleftrightarrow> aHeader r ''X-Api-Key'' = k \<and> k \<noteq> '''' \<and> right_key a k"

definition oauth_proof :: "'c jwt_parser \<Rightarrow> key_map \<Rightarrow> auth_request \<Rightarrow> 'c \<Rightarrow> bool" where
  "oauth_proof jwtParse keys r c \<longleftrightarrow> (\<exists>v t. aHeader r ''Authorization'' = ''Bearer '' @ v \<and> token_shape v \<and>
     jwtParse v (\<lambda>kid. keys (TrimSpace kid)) = Inr t \<and> isMapClaims t \<and> c = Claims t)"

lemma validateCredentials_iff: "validateCredentials a u p \<longleftrightarrow> right_password a u p"
  by (auto simp: validateCredentials_def right_password_def split: option.splits)

lemma validateAPIKey_iff: "validateAPIKey a k \<longleftrightarrow> right_key a k"
  by (auto simp: validateAPIKey_def right_key_def list_ex_iff split: option.splits)

lemma auth_wellKnown_iff: "auth_wellKnown p \<longleftrightarrow> open_path p"
  by (auto simp: auth_wellKnown_def open_path_def gostr)

lemma PublicKeys_Get_eq: "PublicKeys_Get keys = (\<lambda>kid. keys (TrimSpace kid))"
  by (simp add: PublicKeys_Get_def fun_eq_iff)

lemma jwtRegex_iff: "jwtRegex v \<longleftrightarrow> token_shape v"
proof -
  have w: "w \<noteq> '''' \<and> list_all jwt_char w \<longleftrightarrow> token_word w" for w
    by (simp add: token_word_def jwt_char_def list_all_iff)
  have dot: "CHR ''.'' \<notin> set w" if "token_word w" for w
  proof -
    have "\<not> (is_upper (CHR ''.'') \<or> is_lower (CHR ''.'') \<or> is_digit (CHR ''.''))" by code_simp
    with that show ?thesis by (auto simp: token_word_def)
  qed
  have "jwtRegex v \<longleftrightarrow> (\<exists>x y z. Split v (CHR ''.'') = [x, y, z] \<and> token_word x \<and> token_word y \<and> token_word z)"
    by (auto simp: jwtRegex_def w split: list.splits)
  moreover have "Split v (CHR ''.'') = [x, y, z] \<longleftrightarrow> v = x @ ''.'' @ y @ ''.'' @ z"
    if "token_word x" "token_word y" "token_word z" for x y z
    using dot [OF that(1)] dot [OF that(2)] dot [OF that(3)] Join_Split [of v "CHR ''.''"]
    by (auto simp: Split_append Split_single)
  ultimately show ?thesis unfolding token_shape_def by blast
qed

lemma parseBasicAuth_Some: "parseBasicAuth v = Some (u, p) \<longleftrightarrow> v \<noteq> '''' \<and> DecodeString v = Some (u @ '':'' @ p) \<and> CHR '':'' \<notin> set u"
  by (auto simp: parseBasicAuth_def Cut_Some split: option.splits)

lemma Basic_iff: "Basic_ExtractAuthHeader a r = Inr u \<longleftrightarrow> basic_proof a r u"
proof -
  have "Basic_ExtractAuthHeader a r = Inr u \<longleftrightarrow> (\<exists>v p. getAuthHeaderFromRequest r ''Authorization'' ''Basic'' = Inr v \<and>
      parseBasicAuth v = Some (u, p) \<and> validateCredentials a u p)"
    by (cases "getAuthHeaderFromRequest r ''Authorization'' ''Basic''")
      (auto simp: Basic_ExtractAuthHeader_def split: option.split)
  then show ?thesis by (auto simp: basic_proof_def getAuthHeader_scheme parseBasicAuth_Some validateCredentials_iff)
qed

lemma APIKey_iff: "APIKey_ExtractAuthHeader a r = Inr k \<longleftrightarrow> apikey_proof a r k"
  by (auto simp: APIKey_ExtractAuthHeader_def bind_sum_eq_Inr getAuthHeader_plain apikey_proof_def validateAPIKey_iff)

lemma jwtRegex_word: "jwtRegex v \<Longrightarrow> v \<noteq> '''' \<and> CHR '' '' \<notin> set v"
proof -
  assume j: "jwtRegex v"
  then obtain a b c where s: "Split v (CHR ''.'') = [a, b, c]" "a \<noteq> ''''" "list_all jwt_char a" "list_all jwt_char b" "list_all jwt_char c"
    by (auto simp: jwtRegex_def split: list.splits)
  then have v: "v = a @ ''.'' @ b @ ''.'' @ c" using Join_Split [of v "CHR ''.''"] by simp
  have "\<not> jwt_char (CHR '' '')" by code_simp
  with s(2-) v show ?thesis by (auto simp: list_all_iff)
qed

lemma OAuth_iff: "OAuth_ExtractAuthHeader p keys r = Inr c \<longleftrightarrow> oauth_proof p keys r c"
proof -
  have "OAuth_ExtractAuthHeader p keys r = Inr c \<longleftrightarrow> (\<exists>v t. getAuthHeaderFromRequest r ''Authorization'' ''Bearer'' = Inr v \<and>
      jwtRegex v \<and> p v (PublicKeys_Get keys) = Inr t \<and> isMapClaims t \<and> c = Claims t)"
    by (cases "getAuthHeaderFromRequest r ''Authorization'' ''Bearer''")
      (auto simp: OAuth_ExtractAuthHeader_def split: sum.split)
  then show ?thesis using jwtRegex_word by (auto simp: oauth_proof_def getAuthHeader_scheme jwtRegex_iff PublicKeys_Get_eq)
qed

section \<open>Only authenticated requests pass\<close>

text \<open>The contract of a provider: it accepts an identity exactly on its proof.\<close>

locale auth_provider =
  fixes examine :: "auth_request \<Rightarrow> auth_error + 'i"
    and proves :: "auth_request \<Rightarrow> 'i \<Rightarrow> bool"
  assumes examine_iff: "examine r = Inr i \<longleftrightarrow> proves r i"
begin

lemma admits_iff: "AuthMiddleware examine r = Admit x \<longleftrightarrow>
    (if auth_wellKnown (aPath r) then x = None else (\<exists>i. x = Some i \<and> proves r i))"
  using examine_iff [of r] by (cases "examine r") (auto simp: AuthMiddleware_def)

lemma proves_unique: "proves r i \<Longrightarrow> proves r i' \<Longrightarrow> i = i'"
  using examine_iff [of r i] examine_iff [of r i'] by simp

end

fun proves_identity :: "'c auth \<Rightarrow> auth_request \<Rightarrow> 'c identity \<Rightarrow> bool" where
  "proves_identity (BasicAuth a) r i = (\<exists>u. i = Username u \<and> basic_proof a r u)"
| "proves_identity (APIKeyAuth a) r i = (\<exists>k. i = APIKey k \<and> apikey_proof a r k)"
| "proves_identity (OAuth p keys) r i = (\<exists>c. i = JWTClaim c \<and> oauth_proof p keys r c)"

interpretation basic: auth_provider "Basic_ExtractAuthHeader a" "basic_proof a" for a
  by unfold_locales (rule Basic_iff)

interpretation apikey: auth_provider "APIKey_ExtractAuthHeader a" "apikey_proof a" for a
  by unfold_locales (rule APIKey_iff)

interpretation oauth: auth_provider "OAuth_ExtractAuthHeader p keys" "oauth_proof p keys" for p :: "'c jwt_parser" and keys
  by unfold_locales (rule OAuth_iff)

lemma map_sum_Inr: "map_sum id f x = Inr i \<longleftrightarrow> (\<exists>y. x = Inr y \<and> i = f y)"
  by (cases x) auto

interpretation any_auth: auth_provider "ExtractAuthHeader a" "proves_identity a" for a :: "'c auth"
  by unfold_locales (cases a; auto simp: map_sum_Inr basic.examine_iff apikey.examine_iff oauth.examine_iff)

lemma auth_chain_iff:
  "auth_chain as r = Inr ids \<longleftrightarrow> (if auth_wellKnown (aPath r) then ids = [] else list_all2 (\<lambda>a i. proves_identity a r i) as ids)"
proof (induction as arbitrary: ids)
  case (Cons a as)
  show ?case
  proof (cases "AuthMiddleware (ExtractAuthHeader a) r")
    case (Refuse e)
    have "\<not> auth_wellKnown (aPath r)" using Refuse any_auth.admits_iff [of a r None] by auto
    moreover have "\<not> proves_identity a r i" for i using Refuse any_auth.admits_iff [of a r "Some i"] calculation by simp
    ultimately show ?thesis using Refuse by (auto simp: list_all2_Cons1)
  next
    case (Admit x)
    note x = any_auth.admits_iff [of a r x, unfolded Admit, simplified]
    show ?thesis
    proof (cases "auth_wellKnown (aPath r)")
      case True
      with x Admit Cons.IH show ?thesis by (auto simp: map_sum_Inr)
    next
      case False
      with x obtain i where i: "x = Some i" "proves_identity a r i" by auto
      with Admit False Cons.IH show ?thesis by (auto simp: map_sum_Inr list_all2_Cons1 dest: any_auth.proves_unique)
    qed
  qed
qed auto

lemma refusal_calls:
  "calls (snd (refusal env r e pool w)) = calls w @
     (case Marshal env (Envelope \<lparr>rError = Some (createErrorResponse (as_error e)), rMetadata = None, rData = NilAny\<rparr>) of
        None \<Rightarrow> [CallHeader 500, CallWrite encode_failed_body]
      | Some js \<Rightarrow> [CallHeader (auth_StatusCode e), CallWrite (js @ nl)])"
proof -
  have "auth_StatusCode e \<noteq> 0" by (cases e) simp_all
  then show ?thesis
    by (simp split: option.split add: refusal_def Respond_plain promised_calls_def promised_payload_def promised_error_def promised_status_def as_error_def)
qed

text \<open>
  C7. Only authenticated requests reach the application. Whatever combination of basic authentication, API keys and
  tokens is enabled: a request passes exactly if its path is below \<^verbatim>\<open>/.well-known\<close> or it proves, for every
  one of them, the identity the application is given: the name of a user with the password configured for that user, a
  key that is one of the configured keys (or, for both, what the application's own function accepts), or the claims of a
  token of the right shape that the parser accepts with the key the set holds for the token's key id. Every other request
  is answered with 401, or 500 for a broken configuration, and an error without data.
\<close>

theorem only_authenticated_pass:
  "(auth_chain as r = Inr ids \<longleftrightarrow>
      (if open_path (aPath r) then ids = [] else list_all2 (\<lambda>a i. proves_identity a r i) as ids)) \<and>
   (auth_chain as r = Inl e \<longrightarrow> auth_StatusCode e \<in> {401, 500} \<and> calls (snd (refusal env r e pool w)) = calls w @
      (case Marshal env (Envelope \<lparr>rError = Some (createErrorResponse (as_error e)), rMetadata = None, rData = NilAny\<rparr>) of
         None \<Rightarrow> [CallHeader 500, CallWrite encode_failed_body]
       | Some js \<Rightarrow> [CallHeader (auth_StatusCode e), CallWrite (js @ nl)]))"
proof -
  have "auth_StatusCode e \<in> {401, 500}" by (cases e) simp_all
  then show ?thesis using auth_chain_iff [of as r ids, unfolded auth_wellKnown_iff] refusal_calls by blast
qed

section \<open>gRPC accepts what HTTP accepts\<close>

definition same_credentials :: "auth_request \<Rightarrow> metadata \<Rightarrow> bool" where
  "same_credentials r md \<longleftrightarrow> (\<exists>m. md = Some m \<and> m ''authorization'' = Some [aHeader r ''Authorization''] \<and>
     m ''x-api-key'' = Some [aHeader r ''X-Api-Key''])"

text \<open>A parser gives only valid tokens.\<close>

fun parser_ok :: "'c auth \<Rightarrow> bool" where
  "parser_ok (OAuth p keys) = (\<forall>v k t. p v k = Inr t \<longrightarrow> Valid t)"
| "parser_ok _ = True"

lemma verify_eq_validate: "verifyCredentials a u p = validateCredentials a u p" "verifyAPIKey b k = validateAPIKey b k"
  by (auto simp: verifyCredentials_def validateCredentials_def verifyAPIKey_def validateAPIKey_def split: option.splits)

lemma cut_scheme: "Cut (''Basic '' @ v) (CHR '' '') = Some (''Basic'', v)" "Cut (''Bearer '' @ v) (CHR '' '') = Some (''Bearer'', v)"
  by (simp_all add: Cut_Some)

lemma validator_accepts:
  assumes "same_credentials r md" and "parser_ok a" and "proves_identity a r i"
  shows "validator a md = Inr i"
proof -
  have h: "md_header md ''authorization'' = Inr (aHeader r ''Authorization'')" "md_header md ''x-api-key'' = Inr (aHeader r ''X-Api-Key'')"
    using assms(1) by (auto simp: same_credentials_def md_header_def)
  show ?thesis
  proof (cases a)
    case (BasicAuth b)
    with assms(3) obtain u v p where i: "i = Username u" "aHeader r ''Authorization'' = ''Basic '' @ v" "DecodeString v = Some (u @ '':'' @ p)"
      "CHR '':'' \<notin> set u" "validateCredentials b u p" by (auto simp: basic_proof_def validateCredentials_iff)
    then have "Cut (u @ '':'' @ p) (CHR '':'') = Some (u, p)" by (simp add: Cut_Some)
    with i h(1) BasicAuth show ?thesis by (simp add: validateBasicAuth_def cut_scheme [simplified] verify_eq_validate EqualFold_def)
  next
    case (APIKeyAuth b)
    with assms(3) h(2) show ?thesis by (auto simp: apikey_proof_def grpc_validateAPIKey_def verify_eq_validate validateAPIKey_iff)
  next
    case (OAuth p keys)
    with assms(3) obtain c v t where i: "i = JWTClaim c" "aHeader r ''Authorization'' = ''Bearer '' @ v" "jwtRegex v"
      "p v (PublicKeys_Get keys) = Inr t" "c = Claims t" by (auto simp: oauth_proof_def jwtRegex_iff PublicKeys_Get_eq)
    moreover have "Valid t" using assms(2) i(4) OAuth by auto
    ultimately show ?thesis using h(1) OAuth by (simp add: validateOAuth_def cut_scheme [simplified] EqualFold_def)
  qed
qed

lemma grpc_chain_accepts:
  "same_credentials r md \<Longrightarrow> list_all2 (\<lambda>a i. proves_identity a r i) as ids \<Longrightarrow> list_all parser_ok as \<Longrightarrow> grpc_chain as md = Inr ids"
  by (induction as arbitrary: ids) (auto simp: NewAuthInterceptor_def validator_accepts list_all2_Cons1)

text \<open>
  The gRPC server accepts the credentials the HTTP server accepts. With the same providers, a call whose metadata
  carries the headers of a request that passes the HTTP middlewares outside \<^verbatim>\<open>/.well-known\<close> passes all interceptors, with
  the same identities.
\<close>

lemma grpc_accepts_http_credentials:
  assumes "auth_chain as r = Inr ids" and "\<not> auth_wellKnown (aPath r)" and "same_credentials r md" and "list_all parser_ok as"
  shows "grpc_chain as md = Inr ids"
  using assms auth_chain_iff [of as r ids] grpc_chain_accepts [of r md as ids] by simp

section \<open>The client's credentials\<close>

lemma TrimSpace_config: "NewBasicAuthConfig u p = Inr c \<Longrightarrow> UserName c = TrimSpace u \<and> TrimSpace u \<noteq> '''' \<and> DecodeString (TrimSpace p) = Some (Password c)"
  by (auto simp: NewBasicAuthConfig_def Let_def split: option.splits if_splits)

text \<open>
  A client and a server with the same credentials understand each other. A configured client adds its header to any
  call that has none yet. A server with the same user and the same password accepts it as that user over HTTP and
  over gRPC; a server with another password, or without the user, refuses it. (The name has no colon: a client whose
  user name has one is accepted for what stands before it, or not at all.)
\<close>

lemma client_credentials_roundtrip:
  assumes "NewBasicAuthConfig u p = Inr c" and "hs ''Authorization'' = None" and "CHR '':'' \<notin> set (UserName c)"
  shows "\<exists>hs'. Basic_addAuthorizationHeader c hs = Inr hs' \<and>
    (\<forall>r md users. aHeader r ''Authorization'' = the (hs' ''Authorization'') \<and> same_credentials r md \<longrightarrow>
       (let srv = \<lparr>Users = users, ValidateFunc = None, ValidateFuncWithDatasources = None\<rparr> in
        (\<forall>name. Basic_ExtractAuthHeader srv r = Inr name \<longleftrightarrow> name = UserName c \<and> users name = Some (Password c) \<and> Password c \<noteq> '''') \<and>
        (users (UserName c) = Some (Password c) \<and> Password c \<noteq> '''' \<longrightarrow> validateBasicAuth srv md = Inr (UserName c))))"
proof -
  let ?e = "EncodeToString (UserName c @ '':'' @ Password c)"
  let ?hs = "hs(''Authorization'' \<mapsto> ''Basic '' @ ?e)"
  have u: "UserName c \<noteq> ''''" using TrimSpace_config [OF assms(1)] by simp
  have e: "?e \<noteq> ''''" "CHR '' '' \<notin> set ?e" "DecodeString ?e = Some (UserName c @ '':'' @ Password c)"
    using encode_plain [of "UserName c @ '':'' @ Password c"] EncodeToString_not_Nil [of "UserName c @ '':'' @ Password c"] by auto
  have split: "UserName c @ '':'' @ Password c = n @ '':'' @ q \<longleftrightarrow> n = UserName c \<and> q = Password c" if "CHR '':'' \<notin> set n" for n q
    using that assms(3) Cut_Some [of "UserName c @ '':'' @ Password c" "CHR '':''"] by (metis append_Cons append_Nil option.inject prod.inject)
  have "(\<forall>name. Basic_ExtractAuthHeader srv r = Inr name \<longleftrightarrow> name = UserName c \<and> users name = Some (Password c) \<and> Password c \<noteq> '''') \<and>
      (users (UserName c) = Some (Password c) \<and> Password c \<noteq> '''' \<longrightarrow> validateBasicAuth srv md = Inr (UserName c))"
    if r: "aHeader r ''Authorization'' = ''Basic '' @ ?e" "same_credentials r md"
      and srv: "srv = \<lparr>Users = users, ValidateFunc = None, ValidateFuncWithDatasources = None\<rparr>" for r md users srv
  proof -
    have iff: "basic_proof srv r name \<longleftrightarrow> name = UserName c \<and> validateCredentials srv name (Password c)" for name
      using r(1) e split assms(3) by (auto simp: basic_proof_def validateCredentials_iff)
    have valid: "validateCredentials srv (UserName c) (Password c) \<longleftrightarrow> users (UserName c) = Some (Password c) \<and> Password c \<noteq> ''''"
      using srv u by (auto simp: validateCredentials_def split: option.splits)
    have "validator (BasicAuth srv :: unit auth) md = Inr (Username (UserName c))" if "basic_proof srv r (UserName c)"
      using that by (intro validator_accepts [OF r(2)]) simp_all
    then have "validateBasicAuth srv md = Inr (UserName c)" if "basic_proof srv r (UserName c)"
      using that by (auto simp: map_sum_Inr)
    with iff valid show ?thesis by (auto simp: Basic_iff)
  qed
  note main = this
  have "Basic_addAuthorizationHeader c hs = Inr ?hs" using assms(2) by (simp add: Basic_addAuthorizationHeader_def)
  then show ?thesis by (intro exI [of _ ?hs] conjI allI impI) (assumption, unfold Let_def, rule main, simp_all)
qed

section \<open>Key sets\<close>

lemma publicKeyFromJWKS_None: "(\<forall>jwk \<in> set jwks. rsaPublicKey jwk = None) \<Longrightarrow> publicKeyFromJWKS jwks = Map.empty"
proof -
  assume "\<forall>jwk \<in> set jwks. rsaPublicKey jwk = None"
  then have "fold (\<lambda>jwk keys. case rsaPublicKey jwk of Some key \<Rightarrow> keys(kid jwk \<mapsto> key) | None \<Rightarrow> keys) jwks m = m" for m
    by (induction jwks arbitrary: m) auto
  then show ?thesis by (simp add: publicKeyFromJWKS_def)
qed

lemma publicKeys_dom:
  "dom (fold (\<lambda>jwk keys. case rsaPublicKey jwk of Some key \<Rightarrow> keys(kid jwk \<mapsto> key) | None \<Rightarrow> keys) jwks m) =
     dom m \<union> kid ` {jwk \<in> set jwks. rsaPublicKey jwk \<noteq> None}"
  by (induction jwks arbitrary: m) (auto split: option.splits)

lemma publicKeyFromJWKS_dom: "dom (publicKeyFromJWKS jwks) = kid ` {jwk \<in> set jwks. rsaPublicKey jwk \<noteq> None}"
  using publicKeys_dom [of jwks Map.empty] by (auto simp: publicKeyFromJWKS_def)

text \<open>A fetch that brings at least one usable key.\<close>

definition usable :: "(string \<Rightarrow> JSONWebKey list option) \<Rightarrow> fetch \<Rightarrow> bool" where
  "usable Unmarshal f \<longleftrightarrow> (\<exists>jwks. getPublicKeys Unmarshal f = Some jwks \<and> (\<exists>jwk \<in> set jwks. rsaPublicKey jwk \<noteq> None))"

lemma updateKeys_usable:
  "updateKeys Unmarshal f keys = (if usable Unmarshal f then publicKeyFromJWKS (the (getPublicKeys Unmarshal f)) else keys)"
proof (cases "getPublicKeys Unmarshal f")
  case (Some jwks)
  have "list_all (\<lambda>jwk. publicKeyFromJWKS jwks (kid jwk) = None) jwks \<longleftrightarrow> dom (publicKeyFromJWKS jwks) = {}"
  proof
    assume "list_all (\<lambda>jwk. publicKeyFromJWKS jwks (kid jwk) = None) jwks"
    then have "kid jwk \<notin> dom (publicKeyFromJWKS jwks)" if "jwk \<in> set jwks" for jwk using that by (auto simp: list_all_iff)
    then show "dom (publicKeyFromJWKS jwks) = {}" using publicKeyFromJWKS_dom [of jwks] by blast
  qed (simp add: list_all_iff)
  then show ?thesis using Some publicKeyFromJWKS_dom [of jwks] by (auto simp: updateKeys_def usable_def Let_def)
qed (simp add: updateKeys_def usable_def)

text \<open>The keys in use are those of the last fetch that brought any: a failing refresh never takes keys away.\<close>

lemma keys_of_last_usable_fetch:
  "foldl (\<lambda>keys f. updateKeys Unmarshal f keys) keys fs =
     (case filter (usable Unmarshal) (rev fs) of [] \<Rightarrow> keys | f # _ \<Rightarrow> publicKeyFromJWKS (the (getPublicKeys Unmarshal f)))"
  by (induction fs rule: rev_induct) (auto simp: updateKeys_usable)

section \<open>Examples\<close>

definition demo_users :: "string \<Rightarrow> string option" where
  "demo_users = [''alice'' \<mapsto> ''s3cret'']"

definition demo_auth :: "unit auth list" where
  "demo_auth = EnableAPIKeyAuth [''k1'', ''k2''] (snd (enableBasicAuth [''alice'', ''s3cret''] []))"

definition alice :: auth_request where
  "alice = \<lparr>aMethod = ''GET'', aPath = ''/orders'',
     aHeader = (\<lambda>k. if k = ''Authorization'' then ''Basic YWxpY2U6czNjcmV0'' else if k = ''X-Api-Key'' then ''k2'' else '''')\<rparr>"

definition mallory :: auth_request where
  "mallory = alice\<lparr>aHeader := (\<lambda>k. if k = ''Authorization'' then ''Basic YWxpY2U6czNjcmV0'' else '''')\<rparr>"

lemma demo_chain: "auth_chain demo_auth alice = Inr [Username ''alice'', APIKey ''k2'']"
  "auth_chain demo_auth mallory = Inl (ErrorMissingAuthHeader ''X-Api-Key'')"
  by code_simp+

theorem only_authenticated_pass_witness:
  "list_all2 (\<lambda>a i. proves_identity a alice i) demo_auth [Username ''alice'', APIKey ''k2''] \<and>
   calls (snd (refusal demo_renv mallory (ErrorMissingAuthHeader ''X-Api-Key'') [] fresh_writer)) = [CallHeader 401, CallWrite (''failed'' @ nl)]"
proof -
  have "\<not> open_path (aPath alice)" unfolding auth_wellKnown_iff [symmetric] by code_simp
  then have "list_all2 (\<lambda>a i. proves_identity a alice i) demo_auth [Username ''alice'', APIKey ''k2'']"
    using conjunct1 [OF only_authenticated_pass [of demo_auth alice "[Username ''alice'', APIKey ''k2'']"]] demo_chain(1) by simp
  moreover have "calls (snd (refusal demo_renv mallory (ErrorMissingAuthHeader ''X-Api-Key'') [] fresh_writer)) = [CallHeader 401, CallWrite (''failed'' @ nl)]"
    using conjunct2 [OF only_authenticated_pass [of demo_auth mallory undefined "ErrorMissingAuthHeader ''X-Api-Key''" demo_renv "[]" fresh_writer]] demo_chain(2)
    by (simp add: demo_renv_def demo_marshal_def fresh_writer_def)
  ultimately show ?thesis ..
qed

definition alice_md :: metadata where
  "alice_md = Some [''authorization'' \<mapsto> [''Basic YWxpY2U6czNjcmV0''], ''x-api-key'' \<mapsto> [''k2'']]"

lemma grpc_accepts_http_credentials_witness: "grpc_chain demo_auth alice_md = Inr [Username ''alice'', APIKey ''k2'']"
proof (rule grpc_accepts_http_credentials [OF demo_chain(1)])
  show "\<not> auth_wellKnown (aPath alice)" by code_simp
  show "same_credentials alice alice_md" by (simp add: same_credentials_def alice_md_def alice_def)
  show "list_all parser_ok demo_auth" by (simp add: demo_auth_def EnableAPIKeyAuth_def enableBasicAuth_def)
qed

lemma client_credentials_roundtrip_witness:
  "\<exists>c. NewBasicAuthConfig '' alice'' ''czNjcmV0'' = Inr c \<and>
     Basic_ExtractAuthHeader \<lparr>Users = demo_users, ValidateFunc = None, ValidateFuncWithDatasources = None\<rparr> alice = Inr (UserName c)"
proof -
  let ?c = "\<lparr>UserName = ''alice'', Password = ''s3cret''\<rparr>"
  have c: "NewBasicAuthConfig '' alice'' ''czNjcmV0'' = Inr ?c" by code_simp
  have e: "''Basic '' @ EncodeToString (UserName ?c @ '':'' @ Password ?c) = aHeader alice ''Authorization''" by code_simp
  obtain hs' where h: "Basic_addAuthorizationHeader ?c Map.empty = Inr hs'" and
    s: "\<forall>r md users. aHeader r ''Authorization'' = the (hs' ''Authorization'') \<and> same_credentials r md \<longrightarrow>
       (let srv = \<lparr>Users = users, ValidateFunc = None, ValidateFuncWithDatasources = None\<rparr> in
        (\<forall>name. Basic_ExtractAuthHeader srv r = Inr name \<longleftrightarrow> name = UserName ?c \<and> users name = Some (Password ?c) \<and> Password ?c \<noteq> '''') \<and>
        (users (UserName ?c) = Some (Password ?c) \<and> Password ?c \<noteq> '''' \<longrightarrow> validateBasicAuth srv md = Inr (UserName ?c)))"
    using client_credentials_roundtrip [OF c, of Map.empty] by auto
  have "the (hs' ''Authorization'') = aHeader alice ''Authorization''" using h e by (auto simp: Basic_addAuthorizationHeader_def)
  moreover have "same_credentials alice alice_md" by (simp add: same_credentials_def alice_md_def alice_def)
  ultimately have "Basic_ExtractAuthHeader \<lparr>Users = demo_users, ValidateFunc = None, ValidateFuncWithDatasources = None\<rparr> alice = Inr (UserName ?c)"
    using s by (simp add: Let_def demo_users_def)
  with c show ?thesis by blast
qed

end
