(* ===== verification/Cors.thy ===== *)
theory Cors
  imports Http_Responder
begin

text \<open>
  The CORS middleware (\<^verbatim>\<open>http/middleware/cors.go\<close>) and the values it is configured with (\<^verbatim>\<open>http/middleware/config.go\<close>). A configuration is
  a map; it is given as a list of its entries in the order in which a loop happens to visit them.
\<close>

section \<open>Configured values\<close>

text \<open>The header value, if one is sent, and whether a warning is logged.\<close>

definition canonicalMaxAge :: "string \<Rightarrow> (string \<times> bool) option" where
  "canonicalMaxAge val =
     (case Atoi val of
        (seconds, None) \<Rightarrow> let canonical = show_nat (nat (max seconds 0)) in Some (canonical, canonical \<noteq> val)
      | _ \<Rightarrow> None)"

definition corsHeaderValue :: "string \<Rightarrow> string \<Rightarrow> string option \<times> bool" where
  "corsHeaderValue key val =
     (if key = ''ACCESS_CONTROL_MAX_AGE'' then
        (case canonicalMaxAge val of Some (maxAge, warned) \<Rightarrow> (Some maxAge, warned) | None \<Rightarrow> (None, True))
      else if key = ''ACCESS_CONTROL_ALLOW_CREDENTIALS'' then
        (if val = ''true'' then (Some val, False) else if val = ''false'' then (None, False) else (None, True))
      else (Some val, False))"

definition allowedCORSHeaders :: "string list" where
  "allowedCORSHeaders = [''ACCESS_CONTROL_ALLOW_ORIGIN'', ''ACCESS_CONTROL_ALLOW_METHODS'', ''ACCESS_CONTROL_ALLOW_HEADERS'',
     ''ACCESS_CONTROL_ALLOW_CREDENTIALS'', ''ACCESS_CONTROL_EXPOSE_HEADERS'', ''ACCESS_CONTROL_MAX_AGE'']"

text \<open>The conversion of a word to title case comes from a third-party package.\<close>

definition convertHeaderNames :: "(string \<Rightarrow> string) \<Rightarrow> string \<Rightarrow> string" where
  "convertHeaderNames title header = Join (map (\<lambda>v. title (map lower_char v)) (Split header (CHR ''_''))) ''-''"

fun cors_loop :: "(string \<Rightarrow> string) \<Rightarrow> (string \<Rightarrow> string) \<Rightarrow> string list \<Rightarrow> (string \<times> string) list" where
  "cors_loop title get [] = []"
| "cors_loop title get (v # vs) =
     (let val = get v in
      if val = '''' then cors_loop title get vs
      else (case corsHeaderValue v val of
              (Some headerVal, _) \<Rightarrow> (convertHeaderNames title v, headerVal) # cors_loop title get vs
            | (None, _) \<Rightarrow> cors_loop title get vs))"

definition CorsHeaders :: "(string \<Rightarrow> string) \<Rightarrow> (string \<Rightarrow> string) \<Rightarrow> (string \<times> string) list" where
  "CorsHeaders title get = cors_loop title get allowedCORSHeaders"

definition metricsUnmatchedLimit :: "string \<Rightarrow> int option" where
  "metricsUnmatchedLimit raw =
     (let val = TrimSpace raw in
      if val = '''' then None
      else (case Atoi val of (n, None) \<Rightarrow> if n \<ge> 0 then Some n else Some 0 | _ \<Rightarrow> Some 0))"

section \<open>Building the headers\<close>

definition AllowOrigin :: string where "AllowOrigin = ''Access-Control-Allow-Origin''"
definition AllowMethods :: string where "AllowMethods = ''Access-Control-Allow-Methods''"
definition AllowHeaders :: string where "AllowHeaders = ''Access-Control-Allow-Headers''"

definition allowedHeaders :: string where
  "allowedHeaders = ''Authorization, Content-Type, x-requested-with, origin, true-client-ip, X-Correlation-ID''"

definition better :: "string \<Rightarrow> string \<Rightarrow> string \<Rightarrow> bool" where
  "better a b ck = (if (a = ck) \<noteq> (b = ck) then a = ck else a < b)"

fun canonicalize_loop :: "(string \<times> string) list \<Rightarrow> (string \<Rightarrow> string option) \<times> (string \<Rightarrow> string option) \<Rightarrow>
    (string \<Rightarrow> string option) \<times> (string \<Rightarrow> string option)" where
  "canonicalize_loop [] (canonical, winner) = (canonical, winner)"
| "canonicalize_loop ((key, val) # cfg) (canonical, winner) =
     (let ck = CanonicalHeaderKey key in
      if (case winner ck of Some prev \<Rightarrow> \<not> better key prev ck | None \<Rightarrow> False) then canonicalize_loop cfg (canonical, winner)
      else canonicalize_loop cfg (canonical(ck \<mapsto> val), winner(ck \<mapsto> key)))"

definition canonicalizeConfig :: "(string \<times> string) list \<Rightarrow> (string \<Rightarrow> string option)" where
  "canonicalizeConfig cfg = fst (canonicalize_loop cfg (Map.empty, Map.empty))"

text \<open>The set of origins.\<close>

definition parseOrigins :: "string \<Rightarrow> string set" where
  "parseOrigins raw =
     (if raw = '''' then {''*''}
      else let origins = set (filter (\<lambda>o'. o' \<noteq> '''') (map TrimSpace (Split raw (CHR '',''))))
        in if origins = {} then {''*''} else origins)"

definition joinAllowedMethods :: "string list \<Rightarrow> string" where
  "joinAllowedMethods routes = (if length routes = 0 then ''OPTIONS'' else Join routes '', '' @ '', '' @ ''OPTIONS'')"

text \<open>A header is a key with its single value; \<open>keys\<close> is the order in which the loop visits the configuration.\<close>

definition buildFixedHeaders :: "(string \<Rightarrow> string option) \<Rightarrow> string list \<Rightarrow> string list \<Rightarrow> (string \<times> string) list \<times> string" where
  "buildFixedHeaders configs keys routes =
     (let allowMethods = (case configs AllowMethods of Some custom \<Rightarrow> if custom \<noteq> '''' then custom else joinAllowedMethods routes
                            | None \<Rightarrow> joinAllowedMethods routes);
          allowHeaders = (case configs AllowHeaders of Some custom \<Rightarrow> if custom \<noteq> '''' then allowedHeaders @ '', '' @ custom else allowedHeaders
                            | None \<Rightarrow> allowedHeaders);
          others = map (\<lambda>k. (k, the (configs k))) (filter (\<lambda>k. k \<noteq> AllowOrigin \<and> k \<noteq> AllowMethods \<and> k \<noteq> AllowHeaders) keys)
      in ((AllowHeaders, allowHeaders) # others, allowMethods))"

section \<open>The middleware\<close>

record cors_built =
  allowedOrigins :: "string set"
  fixedHeaders :: "(string \<times> string) list"
  allowedMethods :: string

definition Header_Add :: "string \<Rightarrow> string \<Rightarrow> writer \<Rightarrow> writer" where
  "Header_Add k v w =
     (let ck = CanonicalHeaderKey k in w\<lparr>hdr := (hdr w)(ck := Some ((case hdr w ck of None \<Rightarrow> [] | Some vs \<Rightarrow> vs) @ [v]))\<rparr>)"

definition assign :: "string \<Rightarrow> string \<Rightarrow> writer \<Rightarrow> writer" where
  "assign k v w = w\<lparr>hdr := (hdr w)(k := Some [v])\<rparr>"

definition setMiddlewareHeaders :: "string \<Rightarrow> cors_built \<Rightarrow> writer \<Rightarrow> writer" where
  "setMiddlewareHeaders origin b w =
     (let w1 = (if ''*'' \<in> allowedOrigins b then assign AllowOrigin ''*'' w
                else if origin \<in> allowedOrigins b then Header_Add ''Vary'' ''Origin'' (Header_Set AllowOrigin origin w)
                else w);
          w2 = assign AllowMethods (allowedMethods b) w1
      in fold (\<lambda>(k, v). assign k v) (fixedHeaders b) w2)"

text \<open>The configuration and the routes as they are when a request arrives; what was built on the first one is kept.\<close>

record cors_request =
  corsConfig :: "(string \<times> string) list"
  corsKeys :: "string list"
  corsRoutes :: "string list"
  corsMethod :: string
  corsOrigin :: string

definition cors_build :: "cors_request \<Rightarrow> cors_built" where
  "cors_build r =
     (let configs = canonicalizeConfig (corsConfig r); (fixed, methods) = buildFixedHeaders configs (corsKeys r) (corsRoutes r) in
      \<lparr>allowedOrigins = parseOrigins (case configs AllowOrigin of Some v \<Rightarrow> v | None \<Rightarrow> ''''), fixedHeaders = fixed, allowedMethods = methods\<rparr>)"

text \<open>The flag tells whether the inner handler runs.\<close>

definition CORS :: "cors_request \<Rightarrow> cors_built option \<Rightarrow> writer \<Rightarrow> (bool \<times> writer) \<times> cors_built option" where
  "CORS r st w =
     (let b = (case st of None \<Rightarrow> cors_build r | Some b \<Rightarrow> b);
          w1 = setMiddlewareHeaders (corsOrigin r) b w
      in (if corsMethod r = ''OPTIONS'' then (False, call (CallHeader 200) w1) else (True, w1), Some b))"

section \<open>Spellings of a header\<close>

lemma better_irrefl [simp]: "\<not> better a a ck"
  by (simp add: better_def)

lemma better_trans: "better a b ck \<Longrightarrow> better b c ck \<Longrightarrow> better a c ck"
  by (auto simp: better_def split: if_splits)

lemma better_total: "a \<noteq> b \<Longrightarrow> better a b ck \<or> better b a ck"
  by (auto simp: better_def)

lemma better_asym: "better a b ck \<Longrightarrow> \<not> better b a ck"
  using better_trans better_irrefl by blast

text \<open>The spelling that counts among those of a header.\<close>

definition wins :: "string set \<Rightarrow> string \<Rightarrow> string \<Rightarrow> bool" where
  "wins ks ck k \<longleftrightarrow> k \<in> ks \<and> CanonicalHeaderKey k = ck \<and> (\<forall>k' \<in> ks. CanonicalHeaderKey k' = ck \<longrightarrow> k' = k \<or> better k k' ck)"

lemma wins_unique: "wins ks ck k \<Longrightarrow> wins ks ck k' \<Longrightarrow> k = k'"
  using better_asym unfolding wins_def by metis

lemma wins_insert_other: "CanonicalHeaderKey key \<noteq> ck \<Longrightarrow> wins (insert key ks) ck k \<longleftrightarrow> wins ks ck k"
  by (auto simp: wins_def)

lemma wins_insert_first: "\<forall>k' \<in> ks. CanonicalHeaderKey k' \<noteq> CanonicalHeaderKey key \<Longrightarrow> wins (insert key ks) (CanonicalHeaderKey key) key"
  by (auto simp: wins_def)

lemma wins_insert_better: "wins ks ck prev \<Longrightarrow> CanonicalHeaderKey key = ck \<Longrightarrow> better key prev ck \<Longrightarrow> wins (insert key ks) ck key"
  using better_trans unfolding wins_def by blast

lemma wins_insert_worse: "wins ks ck prev \<Longrightarrow> \<not> better key prev ck \<Longrightarrow> wins (insert key ks) ck prev"
  using better_total unfolding wins_def by blast

definition loop_inv :: "(string \<times> string) list \<Rightarrow> (string \<Rightarrow> string option) \<Rightarrow> (string \<Rightarrow> string option) \<Rightarrow> bool" where
  "loop_inv seen canonical winner \<longleftrightarrow>
     (\<forall>ck. case winner ck of
        None \<Rightarrow> (\<forall>k \<in> fst ` set seen. CanonicalHeaderKey k \<noteq> ck) \<and> canonical ck = None
      | Some k \<Rightarrow> wins (fst ` set seen) ck k \<and> canonical ck = map_of seen k)"

lemma loop_inv_keep:
  assumes "loop_inv seen canonical winner" and "key \<notin> fst ` set seen"
    and "winner (CanonicalHeaderKey key) = Some prev" and "\<not> better key prev (CanonicalHeaderKey key)"
  shows "loop_inv ((key, val) # seen) canonical winner"
  unfolding loop_inv_def
proof
  fix ck
  from assms(1) have i: "case winner ck of None \<Rightarrow> (\<forall>k \<in> fst ` set seen. CanonicalHeaderKey k \<noteq> ck) \<and> canonical ck = None
      | Some k \<Rightarrow> wins (fst ` set seen) ck k \<and> canonical ck = map_of seen k" by (simp add: loop_inv_def)
  show "case winner ck of None \<Rightarrow> (\<forall>k \<in> fst ` set ((key, val) # seen). CanonicalHeaderKey k \<noteq> ck) \<and> canonical ck = None
      | Some k \<Rightarrow> wins (fst ` set ((key, val) # seen)) ck k \<and> canonical ck = map_of ((key, val) # seen) k"
  proof (cases "winner ck")
    case None
    with i assms(3) show ?thesis by auto
  next
    case (Some k)
    with i have k: "wins (fst ` set seen) ck k" "canonical ck = map_of seen k" by simp_all
    then have "k \<noteq> key" using assms(2) by (auto simp: wins_def)
    moreover have "wins (insert key (fst ` set seen)) ck k"
      using k(1) assms(3,4) Some wins_insert_worse wins_insert_other by (cases "CanonicalHeaderKey key = ck") auto
    ultimately show ?thesis using Some k(2) by simp
  qed
qed

lemma loop_inv_take:
  assumes "loop_inv seen canonical winner" and "key \<notin> fst ` set seen"
    and "case winner (CanonicalHeaderKey key) of Some prev \<Rightarrow> better key prev (CanonicalHeaderKey key) | None \<Rightarrow> True"
  shows "loop_inv ((key, val) # seen) (canonical(CanonicalHeaderKey key \<mapsto> val)) (winner(CanonicalHeaderKey key \<mapsto> key))"
  unfolding loop_inv_def
proof
  fix ck
  let ?c = "canonical(CanonicalHeaderKey key \<mapsto> val)" and ?w = "winner(CanonicalHeaderKey key \<mapsto> key)"
  have i: "case winner ck of None \<Rightarrow> (\<forall>k \<in> fst ` set seen. CanonicalHeaderKey k \<noteq> ck) \<and> canonical ck = None
      | Some k \<Rightarrow> wins (fst ` set seen) ck k \<and> canonical ck = map_of seen k" for ck using assms(1) by (simp add: loop_inv_def)
  show "case ?w ck of None \<Rightarrow> (\<forall>k \<in> fst ` set ((key, val) # seen). CanonicalHeaderKey k \<noteq> ck) \<and> ?c ck = None
      | Some k \<Rightarrow> wins (fst ` set ((key, val) # seen)) ck k \<and> ?c ck = map_of ((key, val) # seen) k"
  proof (cases "CanonicalHeaderKey key = ck")
    case True
    have "wins (insert key (fst ` set seen)) ck key"
      using i [of ck] assms(3) True wins_insert_better [of "fst ` set seen" ck _ key] wins_insert_first [of "fst ` set seen" key]
      by (auto split: option.splits)
    with True show ?thesis by simp
  next
    case False
    then have "winner ck = Some k \<Longrightarrow> k \<noteq> key" for k using i [of ck] by (auto simp: wins_def)
    with False i [of ck] show ?thesis by (auto simp: wins_insert_other split: option.splits)
  qed
qed

lemma canonicalize_loop_inv:
  "loop_inv seen canonical winner \<Longrightarrow> distinct (map fst (cfg @ seen)) \<Longrightarrow> canonicalize_loop cfg (canonical, winner) = (c, w) \<Longrightarrow>
    loop_inv (rev cfg @ seen) c w"
proof (induction cfg arbitrary: seen canonical winner)
  case (Cons e cfg)
  obtain key val where e: "e = (key, val)" by (rule prod.exhaust)
  let ?ck = "CanonicalHeaderKey key"
  have fresh: "key \<notin> fst ` set seen" and d: "distinct (map fst (cfg @ (key, val) # seen))" using Cons.prems(2) e by auto
  show ?case
  proof (cases "case winner ?ck of Some prev \<Rightarrow> \<not> better key prev ?ck | None \<Rightarrow> False")
    case True
    then obtain prev where p: "winner ?ck = Some prev" "\<not> better key prev ?ck" by (auto split: option.splits)
    then have "canonicalize_loop cfg (canonical, winner) = (c, w)" using Cons.prems(3) e by simp
    from Cons.IH [OF loop_inv_keep [OF Cons.prems(1) fresh p] d this] show ?thesis by (simp add: e)
  next
    case False
    then have "case winner ?ck of Some prev \<Rightarrow> better key prev ?ck | None \<Rightarrow> True" by (auto split: option.splits)
    moreover have "canonicalize_loop cfg (canonical(?ck \<mapsto> val), winner(?ck \<mapsto> key)) = (c, w)"
      using Cons.prems(3) e False by (auto simp: Let_def split: option.splits)
    ultimately have "loop_inv (rev cfg @ (key, val) # seen) c w" by (rule Cons.IH [OF loop_inv_take [OF Cons.prems(1) fresh] d])
    then show ?thesis by (simp add: e)
  qed
qed simp

lemma canonicalizeConfig_iff:
  assumes "distinct (map fst cfg)"
  shows "canonicalizeConfig cfg ck = Some v \<longleftrightarrow> (\<exists>k. wins (fst ` set cfg) ck k \<and> (k, v) \<in> set cfg)"
proof -
  obtain c w where l: "canonicalize_loop cfg (Map.empty, Map.empty) = (c, w)" by (rule prod.exhaust)
  have "loop_inv [] Map.empty Map.empty" by (simp add: loop_inv_def)
  from canonicalize_loop_inv [OF this _ l] assms have "loop_inv (rev cfg) c w" by simp
  moreover have "distinct (map fst (rev cfg))" using assms by (simp add: rev_map [symmetric])
  ultimately have i: "case w ck of None \<Rightarrow> (\<forall>k \<in> fst ` set cfg. CanonicalHeaderKey k \<noteq> ck) \<and> c ck = None
      | Some k \<Rightarrow> wins (fst ` set cfg) ck k \<and> (\<forall>v. c ck = Some v \<longleftrightarrow> (k, v) \<in> set cfg)"
    by (auto simp: loop_inv_def split: option.splits dest: spec [of _ ck])
  show ?thesis
  proof (cases "w ck")
    case None
    with i l show ?thesis by (auto simp: canonicalizeConfig_def wins_def)
  next
    case (Some k)
    with i have k: "wins (fst ` set cfg) ck k" "\<forall>v. c ck = Some v \<longleftrightarrow> (k, v) \<in> set cfg" by simp_all
    have "canonicalizeConfig cfg ck = c ck" using l by (simp add: canonicalizeConfig_def)
    then show ?thesis using k wins_unique by metis
  qed
qed

section \<open>The policy\<close>

text \<open>The result does not depend on the order in which the configuration is visited.\<close>

lemma canonicalizeConfig_order:
  assumes "distinct (map fst cfg)" and "distinct (map fst cfg')" and "set cfg = set cfg'"
  shows "canonicalizeConfig cfg = canonicalizeConfig cfg'"
proof
  fix ck
  have "canonicalizeConfig cfg ck = Some v \<longleftrightarrow> canonicalizeConfig cfg' ck = Some v" for v
    using canonicalizeConfig_iff [OF assms(1), of ck v] canonicalizeConfig_iff [OF assms(2), of ck v] assms(3) by simp
  then show "canonicalizeConfig cfg ck = canonicalizeConfig cfg' ck" by (metis not_Some_eq)
qed

lemma canonical_names [simp]:
  "CanonicalHeaderKey AllowOrigin = AllowOrigin" "CanonicalHeaderKey ''Vary'' = ''Vary''"
  "AllowMethods \<noteq> AllowOrigin" "AllowHeaders \<noteq> AllowOrigin" "''Vary'' \<noteq> AllowOrigin" "AllowOrigin \<noteq> AllowMethods" "AllowOrigin \<noteq> AllowHeaders" "AllowOrigin \<noteq> ''Vary''"
  by code_simp+

lemma assign_facts [simp]: "calls (assign k v w) = calls w" "hdr (assign k v w) = (hdr w)(k := Some [v])"
  by (simp_all add: assign_def)

lemma Header_Add_calls [simp]: "calls (Header_Add k v w) = calls w"
  by (simp add: Header_Add_def Let_def)

lemma fold_assign: "k \<notin> fst ` set hs \<Longrightarrow> hdr (fold (\<lambda>(k, v). assign k v) hs w) k = hdr w k"
  by (induction hs arbitrary: w) auto

lemma fold_assign_calls [simp]: "calls (fold (\<lambda>(k, v). assign k v) hs w) = calls w"
  by (induction hs arbitrary: w) auto

lemma fixed_not_origin: "AllowOrigin \<notin> fst ` set (fixedHeaders (cors_build r))"
  by (auto simp: cors_build_def buildFixedHeaders_def Let_def)

lemma parseOrigins_no_empty: "'''' \<notin> parseOrigins raw"
  by (auto simp: parseOrigins_def Let_def)

lemma setMiddlewareHeaders_origin:
  assumes "AllowOrigin \<notin> fst ` set (fixedHeaders b)"
  shows "hdr (setMiddlewareHeaders origin b w) AllowOrigin =
    (if ''*'' \<in> allowedOrigins b then Some [''*''] else if origin \<in> allowedOrigins b then Some [origin] else hdr w AllowOrigin)"
  using fold_assign [OF assms] by (auto simp: setMiddlewareHeaders_def Let_def Header_Add_def Header_Set_def)

lemma setMiddlewareHeaders_calls [simp]: "calls (setMiddlewareHeaders origin b w) = calls w"
  by (simp add: setMiddlewareHeaders_def Let_def)

lemma CORS_state: "CORS r st w = (out, st') \<Longrightarrow> st' = Some (case st of None \<Rightarrow> cors_build r | Some b \<Rightarrow> b)"
  by (auto simp: CORS_def Let_def)

text \<open>
  C28. A browser is told an origin only if it was allowed. The policy is that of the configuration when the first request was
  served, whatever later requests find: among the spellings of \<^verbatim>\<open>Access-Control-Allow-Origin\<close> the canonical one counts, else the smallest, whatever the
  order of the map. An answer names every origin if that is configured, the request's own origin if it is in the
  list, and otherwise none that was not there before; no other configured header replaces it. A preflight request
  is answered with 200 and does not reach the handler.
\<close>

theorem cors_policy:
  assumes "distinct (map fst (corsConfig r0))"
    and "(k, v) \<in> set (corsConfig r0)" and "wins (fst ` set (corsConfig r0)) AllowOrigin k"
    and "CORS r0 None w0 = (out0, st)" and "CORS r st w = ((runs, w'), st')"
  shows "hdr w' AllowOrigin = (if ''*'' \<in> parseOrigins v then Some [''*'']
      else if corsOrigin r \<in> parseOrigins v \<and> corsOrigin r \<noteq> '''' then Some [corsOrigin r] else hdr w AllowOrigin) \<and>
    st' = st \<and> (runs \<longleftrightarrow> corsMethod r \<noteq> ''OPTIONS'') \<and> calls w' = calls w @ (if runs then [] else [CallHeader 200])"
proof -
  have st: "st = Some (cors_build r0)" using CORS_state [OF assms(4)] by simp
  have "canonicalizeConfig (corsConfig r0) AllowOrigin = Some v" using canonicalizeConfig_iff [OF assms(1)] assms(2,3) by blast
  then have o: "allowedOrigins (cors_build r0) = parseOrigins v" by (simp add: cors_build_def Let_def split: prod.splits)
  have w': "hdr w' = hdr (setMiddlewareHeaders (corsOrigin r) (cors_build r0) w)" "st' = st" "runs \<longleftrightarrow> corsMethod r \<noteq> ''OPTIONS''"
    "calls w' = calls w @ (if runs then [] else [CallHeader 200])"
    using assms(5) st by (auto simp: CORS_def Let_def call_def split: if_splits)
  have "corsOrigin r \<in> parseOrigins v \<longleftrightarrow> corsOrigin r \<in> parseOrigins v \<and> corsOrigin r \<noteq> ''''"
    using parseOrigins_no_empty [of v] by auto
  with w' o setMiddlewareHeaders_origin [OF fixed_not_origin, of "corsOrigin r" r0 w] show ?thesis by simp
qed

text \<open>Without a configured origin every origin is allowed.\<close>

lemma cors_default:
  "distinct (map fst (corsConfig r)) \<Longrightarrow> \<forall>k \<in> fst ` set (corsConfig r). CanonicalHeaderKey k \<noteq> AllowOrigin \<Longrightarrow>
    allowedOrigins (cors_build r) = {''*''}"
proof -
  assume d: "distinct (map fst (corsConfig r))" and n: "\<forall>k \<in> fst ` set (corsConfig r). CanonicalHeaderKey k \<noteq> AllowOrigin"
  have "canonicalizeConfig (corsConfig r) AllowOrigin = None"
    using canonicalizeConfig_iff [OF d, of AllowOrigin] n by (cases "canonicalizeConfig (corsConfig r) AllowOrigin") (auto simp: wins_def)
  then show ?thesis by (simp add: cors_build_def parseOrigins_def Let_def split: prod.splits)
qed

section \<open>Values of the maximal age\<close>

text \<open>What is sent is a number without sign or leading zeros, and sending it again changes nothing.\<close>

lemma canonicalMaxAge_number: "canonicalMaxAge val = Some (s, warned) \<Longrightarrow> \<exists>n. s = show_nat n \<and> int n \<le> maxInt64"
proof -
  have "fst (atoi_range n) \<le> maxInt64" for n by (simp add: atoi_range_def int64_num)
  then have "fst (Atoi val) \<le> maxInt64" by (auto simp: Atoi_def Let_def int64_num split: list.splits)
  moreover assume "canonicalMaxAge val = Some (s, warned)"
  ultimately show ?thesis
    by (intro exI [of _ "nat (max (fst (Atoi val)) 0)"]) (auto simp: canonicalMaxAge_def Let_def int64_num split: prod.splits option.splits)
qed

lemma canonicalMaxAge_idem: "canonicalMaxAge val = Some (s, warned) \<Longrightarrow> canonicalMaxAge s = Some (s, False)"
  using canonicalMaxAge_number [of val s warned] by (auto simp: canonicalMaxAge_def Atoi_show_nat Let_def)

section \<open>Example\<close>

text \<open>Two spellings, visited in the unfavourable order.\<close>

definition demo_cors :: cors_request where
  "demo_cors = \<lparr>corsConfig = [(''access-control-allow-origin'', ''https://a.example''), (''Access-Control-Allow-Origin'', ''https://b.example, https://c.example'')],
     corsKeys = [''Access-Control-Allow-Origin''], corsRoutes = [''GET''], corsMethod = ''GET'', corsOrigin = ''https://a.example''\<rparr>"

theorem cors_policy_witness:
  "hdr (snd (fst (CORS (demo_cors\<lparr>corsOrigin := ''https://c.example''\<rparr>) (snd (CORS demo_cors None fresh_writer)) fresh_writer))) AllowOrigin = Some [''https://c.example'']"
proof -
  let ?v = "''https://b.example, https://c.example''"
  obtain out0 st where 0: "CORS demo_cors None fresh_writer = (out0, st)" by (rule prod.exhaust)
  obtain runs w' st' where 1: "CORS (demo_cors\<lparr>corsOrigin := ''https://c.example''\<rparr>) st fresh_writer = ((runs, w'), st')" by (metis surj_pair)
  have d: "distinct (map fst (corsConfig demo_cors))" "(AllowOrigin, ?v) \<in> set (corsConfig demo_cors)"
    by (simp_all add: demo_cors_def AllowOrigin_def)
  have w: "wins (fst ` set (corsConfig demo_cors)) AllowOrigin AllowOrigin"
    by (auto simp: wins_def demo_cors_def better_def) (simp add: AllowOrigin_def)
  have p: "parseOrigins ?v = {''https://b.example'', ''https://c.example''}" by (simp add: parseOrigins_def) code_simp
  from cors_policy [OF d w 0 1] 0 1 show ?thesis unfolding p by (simp add: demo_cors_def)
qed

end
