(* ===== verification/Metrics_Labels.thy ===== *)
theory Metrics_Labels
  imports Go_Prelude
begin

text \<open>
  The labels of the HTTP metrics (\<^verbatim>\<open>http/middleware/metrics.go\<close>) and the bounded cache behind them (\<^verbatim>\<open>http/middleware/routecache.go\<close>).
  Clients choose paths and methods, and every new combination of labels costs memory in the process and in the
  metrics store: what is recorded verbatim has to be bounded. The template of the matched route comes from the router.
\<close>

section \<open>The route cache\<close>

definition routeCacheLimit :: int where "routeCacheLimit = 4096"

definition stdMethods :: "string list" where
  "stdMethods = [''GET'', ''HEAD'', ''POST'', ''PUT'', ''PATCH'', ''DELETE'', ''CONNECT'', ''OPTIONS'', ''TRACE'', ''QUERY'']"

definition cacheableMethod :: "string \<Rightarrow> bool" where
  "cacheableMethod meth = (meth \<in> set stdMethods)"

record ('k, 'v) routeCache =
  cached :: "'k \<Rightarrow> 'v option"
  cacheCount :: int

definition empty_cache :: "('k, 'v) routeCache" where
  "empty_cache = \<lparr>cached = Map.empty, cacheCount = 0\<rparr>"

definition cache_load :: "'k \<Rightarrow> ('k, 'v) routeCache \<Rightarrow> 'v option" where
  "cache_load key c = cached c key"

definition cache_store :: "'k \<Rightarrow> 'v \<Rightarrow> ('k, 'v) routeCache \<Rightarrow> ('k, 'v) routeCache" where
  "cache_store key val c =
     (if cacheCount c \<ge> routeCacheLimit then c
      else (case cached c key of
              Some _ \<Rightarrow> c
            | None \<Rightarrow> c\<lparr>cached := (cached c)(key \<mapsto> val), cacheCount := cacheCount c + 1\<rparr>))"

section \<open>Options and paths\<close>

definition untemplatedLabelLimit :: int where "untemplatedLabelLimit = 500"

definition untemplatedBudget :: "int \<Rightarrow> int" where
  "untemplatedBudget ceiling = (if ceiling \<le> 0 then untemplatedLabelLimit else min untemplatedLabelLimit (ceiling div 4))"

record metricsOptions =
  ceiling :: int
  unmatchedLimit :: int

datatype MetricsOption = WithCardinalityLimit int | WithUnmatchedLimit int

fun apply_option :: "MetricsOption \<Rightarrow> metricsOptions \<Rightarrow> metricsOptions" where
  "apply_option (WithCardinalityLimit limit) o' = o'\<lparr>ceiling := limit\<rparr>"
| "apply_option (WithUnmatchedLimit limit) o' = o'\<lparr>unmatchedLimit := max limit 0\<rparr>"

definition newMetricsOptions :: "MetricsOption list \<Rightarrow> metricsOptions" where
  "newMetricsOptions opts = fold apply_option opts \<lparr>ceiling = 0, unmatchedLimit = untemplatedLabelLimit\<rparr>"

definition untemplatedLimit :: "metricsOptions \<Rightarrow> int" where
  "untemplatedLimit o' = min (untemplatedBudget (ceiling o')) (unmatchedLimit o')"

text \<open>\<^verbatim>\<open>filepath.Ext\<close>: from the last dot of the last element.\<close>

fun ext_loop :: "string \<Rightarrow> string \<Rightarrow> string" where
  "ext_loop [] acc = []"
| "ext_loop (c # cs) acc = (if c = CHR ''/'' then [] else if c = CHR ''.'' then c # acc else ext_loop cs (c # acc))"

definition Ext :: "string \<Rightarrow> string" where
  "Ext p = ext_loop (rev p) []"

definition assetExts :: "string list" where
  "assetExts = [''.css'', ''.js'', ''.png'', ''.jpg'', ''.jpeg'', ''.gif'', ''.ico'', ''.svg'', ''.txt'', ''.html'', ''.json'', ''.woff'',
     ''.woff2'', ''.ttf'', ''.eot'', ''.pdf'']"

definition TrimSlash :: "string \<Rightarrow> string" where
  "TrimSlash p = (if HasSuffix p ''/'' then butlast p else p)"

definition metricsPath :: "string \<Rightarrow> string \<Rightarrow> string \<times> bool" where
  "metricsPath tmpl urlPath =
     (let templated = (tmpl \<noteq> ''''); path = (if templated then tmpl else urlPath);
          (path1, templated1) = (if map lower_char (Ext urlPath) \<in> set assetExts then (urlPath, False) else (path, templated));
          (path2, templated2) = (if path1 = ''/'' \<or> HasPrefix path1 ''/static'' then (urlPath, False) else (path1, templated1))
      in (TrimSlash path2, templated2))"

section \<open>The labels of a request\<close>

type_synonym labels = "string \<times> string \<times> int"

definition unmatchedPathLabel :: string where "unmatchedPathLabel = ''__unmatched__''"
definition otherMethodLabel :: string where "otherMethodLabel = ''__other__''"

definition collapsed :: "string \<Rightarrow> string \<Rightarrow> bool \<Rightarrow> string \<times> string" where
  "collapsed path meth templated =
     (if templated then path else unmatchedPathLabel, if cacheableMethod meth then meth else otherMethodLabel)"

definition metricLabels :: "string \<Rightarrow> string \<Rightarrow> int \<Rightarrow> bool \<Rightarrow> int \<Rightarrow> (labels, unit) routeCache \<Rightarrow> (string \<times> string) \<times> (labels, unit) routeCache" where
  "metricLabels path meth status templated limit c =
     (if templated \<and> cacheableMethod meth then ((path, meth), c)
      else (case cache_load (path, meth, status) c of
              Some _ \<Rightarrow> ((path, meth), c)
            | None \<Rightarrow>
                if cacheCount c \<ge> limit then (collapsed path meth templated, c)
                else ((path, meth), cache_store (path, meth, status) () c)))"

section \<open>Recorders\<close>

definition Itoa :: "int \<Rightarrow> string" where
  "Itoa n = (if n < 0 then CHR ''-'' # show_nat (nat (- n)) else show_nat (nat n))"

definition attributes :: "string \<Rightarrow> string \<Rightarrow> int \<Rightarrow> (string \<times> string) list" where
  "attributes path meth status = [(''path'', path), (''method'', meth), (''status'', Itoa status)]"

type_synonym option_cache = "(labels, (string \<times> string) list) routeCache"

definition optionRecorder_record :: "string \<Rightarrow> string \<Rightarrow> int \<Rightarrow> bool \<Rightarrow> option_cache \<Rightarrow> (string \<times> string) list \<times> option_cache" where
  "optionRecorder_record path meth status templated c =
     (let cacheable = (templated \<and> cacheableMethod meth); key = (path, meth, status) in
      case (if cacheable then cache_load key c else None) of
        Some opts \<Rightarrow> (opts, c)
      | None \<Rightarrow> let opts = attributes path meth status in (opts, if cacheable then cache_store key opts c else c))"

type_synonym attrs_cache = "(string \<times> string, (string \<times> string) list) routeCache"

definition attrsRecorder_record :: "string \<Rightarrow> string \<Rightarrow> int \<Rightarrow> bool \<Rightarrow> attrs_cache \<Rightarrow> (string \<times> string) list \<times> attrs_cache" where
  "attrsRecorder_record path meth status templated c =
     (let key = (path, meth); cacheable = (templated \<and> cacheableMethod meth);
          (b, c1) = (case (if cacheable then cache_load key c else None) of
               Some b \<Rightarrow> (b, c)
             | None \<Rightarrow> let b = [(''path'', path), (''method'', meth)] in (b, if cacheable then cache_store key b c else c))
      in ([b ! 0, b ! 1, (''status'', Itoa status)], c1))"

definition labelsRecorder_record :: "string \<Rightarrow> string \<Rightarrow> int \<Rightarrow> (string \<times> string) list" where
  "labelsRecorder_record path meth status = [(''path'', path), (''method'', meth), (''status'', Itoa status)]"

text \<open>What the middleware records for a request: nothing for GraphQL, which has its own metrics.\<close>

definition Metrics :: "int \<Rightarrow> string \<Rightarrow> string \<Rightarrow> string \<Rightarrow> int \<Rightarrow> (labels, unit) routeCache \<Rightarrow>
    ((string \<times> string \<times> int \<times> bool) option) \<times> (labels, unit) routeCache" where
  "Metrics limit tmpl urlPath meth status c =
     (let (path, templated) = metricsPath tmpl urlPath in
      if path = ''/graphql'' then (None, c)
      else let ((pathLabel, methodLabel), c1) = metricLabels path meth status templated limit c in
        (Some (pathLabel, methodLabel, status, templated), c1))"

section \<open>Requests in parallel\<close>

text \<open>
  Several goroutines ask for labels at once. A step is one access to the shared cache; the last one of a request emits
  its labels. \<open>emitted\<close> is the set of all label combinations recorded so far.
\<close>

datatype lab_pc =
    Idle
  | Asking string string int bool
  | Missed string string int bool
  | Admitted labels
  | Storing labels
  | Stored labels

record lab_sys =
  lcache :: "(labels, unit) routeCache"
  lpcs :: "lab_pc list"
  emitted :: "labels set"

datatype lab_act = LCall nat string string int bool | LStep nat

definition lgoto :: "nat \<Rightarrow> lab_pc \<Rightarrow> lab_sys \<Rightarrow> lab_sys" where
  "lgoto g p s = s\<lparr>lpcs := (lpcs s)[g := p]\<rparr>"

definition emit :: "nat \<Rightarrow> labels \<Rightarrow> lab_sys \<Rightarrow> lab_sys" where
  "emit g l s = lgoto g Idle (s\<lparr>emitted := insert l (emitted s)\<rparr>)"

fun lab_exec :: "int \<Rightarrow> lab_act \<Rightarrow> lab_sys \<Rightarrow> lab_sys option" where
  "lab_exec limit (LCall g path meth status templated) s =
     (if g < length (lpcs s) \<and> lpcs s ! g = Idle then
        Some (if templated \<and> cacheableMethod meth then emit g (path, meth, status) s else lgoto g (Asking path meth status templated) s)
      else None)"
| "lab_exec limit (LStep g) s =
     (if g < length (lpcs s) then
        (case lpcs s ! g of
           Idle \<Rightarrow> None
         | Asking path meth status templated \<Rightarrow>
             Some (case cache_load (path, meth, status) (lcache s) of
                     Some _ \<Rightarrow> emit g (path, meth, status) s
                   | None \<Rightarrow> lgoto g (Missed path meth status templated) s)
         | Missed path meth status templated \<Rightarrow>
             Some (if cacheCount (lcache s) \<ge> limit
                   then emit g (case collapsed path meth templated of (p, m) \<Rightarrow> (p, m, status)) s
                   else lgoto g (Admitted (path, meth, status)) s)
         | Admitted k \<Rightarrow> Some (if cacheCount (lcache s) \<ge> routeCacheLimit then emit g k s else lgoto g (Storing k) s)
         | Storing k \<Rightarrow>
             Some (case cached (lcache s) k of
                     Some _ \<Rightarrow> emit g k s
                   | None \<Rightarrow> lgoto g (Stored k) (s\<lparr>lcache := (lcache s)\<lparr>cached := (cached (lcache s))(k \<mapsto> ())\<rparr>\<rparr>))
         | Stored k \<Rightarrow> Some (emit g k (s\<lparr>lcache := (lcache s)\<lparr>cacheCount := cacheCount (lcache s) + 1\<rparr>\<rparr>)))
      else None)"

text \<open>Templates come from the routes \<open>T\<close>, status codes from the finite set \<open>S\<close> the handlers use.\<close>

fun allowed_act :: "string set \<Rightarrow> int set \<Rightarrow> lab_act \<Rightarrow> bool" where
  "allowed_act T S (LCall g path meth status templated) = (status \<in> S \<and> (templated \<longrightarrow> path \<in> T))"
| "allowed_act T S (LStep g) = True"

definition lab_init :: "nat \<Rightarrow> lab_sys \<Rightarrow> bool" where
  "lab_init n s \<longleftrightarrow> lcache s = empty_cache \<and> lpcs s = replicate n Idle \<and> emitted s = {}"

definition lab_step :: "int \<Rightarrow> string set \<Rightarrow> int set \<Rightarrow> lab_sys \<Rightarrow> lab_sys \<Rightarrow> bool" where
  "lab_step limit T S s t \<longleftrightarrow> (\<exists>a. allowed_act T S a \<and> lab_exec limit a s = Some t)"

text \<open>A request that is not disturbed gets the labels of \<open>metricLabels\<close>.\<close>

fun lab_run :: "int \<Rightarrow> lab_act list \<Rightarrow> lab_sys \<Rightarrow> lab_sys option" where
  "lab_run limit [] s = Some s"
| "lab_run limit (a # as) s = (case lab_exec limit a s of None \<Rightarrow> None | Some t \<Rightarrow> lab_run limit as t)"

lemma lab_run_metricLabels:
  assumes "metricLabels path meth status templated limit (lcache s) = ((p, m), c)" and "lpcs s = [Idle]"
  shows "\<exists>as. lab_run limit (LCall 0 path meth status templated # as) s = Some (s\<lparr>lcache := c, emitted := insert (p, m, status) (emitted s)\<rparr>)"
proof -
  let ?k = "(path, meth, status)"
  note defs = emit_def lgoto_def cache_load_def
  have rest: "s\<lparr>lpcs := [Idle], emitted := E\<rparr> = s\<lparr>emitted := E\<rparr>" for E using assms(2) by (cases s) simp
  show ?thesis
  proof (cases "templated \<and> cacheableMethod meth")
    case True
    with assms rest show ?thesis by (intro exI [of _ "[]"]) (auto simp: metricLabels_def defs)
  next
    case F: False
    show ?thesis
    proof (cases "cached (lcache s) ?k = None")
      case False
      with F assms rest show ?thesis by (intro exI [of _ "[LStep 0]"]) (auto simp: metricLabels_def defs)
    next
      case N: True
      show ?thesis
      proof (cases "cacheCount (lcache s) \<ge> limit")
        case True
        with F N assms rest show ?thesis by (intro exI [of _ "[LStep 0, LStep 0]"]) (auto simp: metricLabels_def defs split: prod.splits)
      next
        case L: False
        show ?thesis
        proof (cases "cacheCount (lcache s) \<ge> routeCacheLimit")
          case True
          with F N L assms rest show ?thesis
            by (intro exI [of _ "[LStep 0, LStep 0, LStep 0]"]) (auto simp: metricLabels_def cache_store_def defs)
        next
          case False
          with F N L assms show ?thesis
            by (intro exI [of _ "[LStep 0, LStep 0, LStep 0, LStep 0, LStep 0]"]) (cases s; auto simp: metricLabels_def cache_store_def defs)
        qed
      qed
    qed
  qed
qed

section \<open>The number of label combinations\<close>

definition w_flying :: "lab_pc \<Rightarrow> int" where
  "w_flying p = (case p of Admitted _ \<Rightarrow> 1 | Storing _ \<Rightarrow> 1 | Stored _ \<Rightarrow> 1 | _ \<Rightarrow> 0)"

definition w_uncounted :: "lab_pc \<Rightarrow> int" where
  "w_uncounted p = (case p of Stored _ \<Rightarrow> 1 | _ \<Rightarrow> 0)"

definition total :: "(lab_pc \<Rightarrow> int) \<Rightarrow> lab_sys \<Rightarrow> int" where
  "total w s = sum_list (map w (lpcs s))"

text \<open>The combinations the routes account for: their templates, the label of unmatched paths, and the methods.\<close>

definition fixed_labels :: "string set \<Rightarrow> int set \<Rightarrow> labels set" where
  "fixed_labels T S = insert unmatchedPathLabel T \<times> insert otherMethodLabel (set stdMethods) \<times> S"

fun pc_ok :: "string set \<Rightarrow> int set \<Rightarrow> (labels, unit) routeCache \<Rightarrow> lab_pc \<Rightarrow> bool" where
  "pc_ok T S c (Asking path meth status templated) = (status \<in> S \<and> (templated \<longrightarrow> path \<in> T))"
| "pc_ok T S c (Missed path meth status templated) = (status \<in> S \<and> (templated \<longrightarrow> path \<in> T))"
| "pc_ok T S c (Stored k) = (cached c k \<noteq> None)"
| "pc_ok T S c _ = True"

definition lab_inv :: "int \<Rightarrow> nat \<Rightarrow> string set \<Rightarrow> int set \<Rightarrow> lab_sys \<Rightarrow> bool" where
  "lab_inv limit n T S s \<longleftrightarrow> length (lpcs s) = n \<and> finite (dom (cached (lcache s))) \<and>
     int (card (dom (cached (lcache s)))) = cacheCount (lcache s) + total w_uncounted s \<and>
     cacheCount (lcache s) + total w_flying s \<le> limit + int n \<and>
     emitted s \<subseteq> dom (cached (lcache s)) \<union> fixed_labels T S \<and> (\<forall>p \<in> set (lpcs s). pc_ok T S (lcache s) p)"

lemma total_goto: "g < length (lpcs s) \<Longrightarrow> total w (lgoto g p s) = total w s - w (lpcs s ! g) + w p"
  by (simp add: total_def lgoto_def map_update sum_list_update_int)

lemma total_other [simp]: "total w (s\<lparr>lcache := c\<rparr>) = total w s" "total w (s\<lparr>emitted := e\<rparr>) = total w s"
  by (simp_all add: total_def)

lemma w_flying_bound: "w_uncounted p \<le> w_flying p" "0 \<le> w_flying p" "w_flying p \<le> 1"
  by (cases p; simp add: w_flying_def w_uncounted_def)+

lemma total_flying_bound: "g < length (lpcs s) \<Longrightarrow> w_flying (lpcs s ! g) = 0 \<Longrightarrow> total w_flying s \<le> int (length (lpcs s)) - 1"
proof -
  assume g: "g < length (lpcs s)" "w_flying (lpcs s ! g) = 0"
  have "sum_list (map w_flying ps) \<le> int (length ps)" for ps
    by (induction ps) (use w_flying_bound(3) in \<open>auto intro: order_trans add_mono\<close>)
  from this [of "(lpcs s)[g := Admitted undefined]"] g show ?thesis
    by (simp add: total_def map_update sum_list_update_int w_flying_def)
qed

lemma total_uncounted_le: "total w_uncounted s \<le> total w_flying s"
  unfolding total_def by (rule sum_list_mono) (rule w_flying_bound(1))

text \<open>Moving one goroutine, with a change of the cache that keeps what is stored, and perhaps an emission.\<close>

lemma lab_inv_move:
  assumes "lab_inv limit n T S s" and "g < length (lpcs s)" and "dom (cached (lcache s)) \<subseteq> dom (cached c)" and "finite (dom (cached c))"
    and "int (card (dom (cached c))) = cacheCount c + total w_uncounted s - w_uncounted (lpcs s ! g) + w_uncounted p"
    and "cacheCount c + total w_flying s - w_flying (lpcs s ! g) + w_flying p \<le> limit + int n"
    and "E \<subseteq> dom (cached c) \<union> fixed_labels T S" and "pc_ok T S c p"
  shows "lab_inv limit n T S (lgoto g p (s\<lparr>lcache := c, emitted := emitted s \<union> E\<rparr>))"
proof -
  have mono: "pc_ok T S (lcache s) q \<Longrightarrow> pc_ok T S c q" for q using assms(3) by (cases q) auto
  have "\<forall>q \<in> set ((lpcs s)[g := p]). pc_ok T S c q"
    using assms(1,8) mono set_update_subset_insert [of "lpcs s" g p] by (auto simp: lab_inv_def)
  moreover have "emitted s \<subseteq> dom (cached (lcache s)) \<union> fixed_labels T S" "length (lpcs s) = n" using assms(1) by (simp_all add: lab_inv_def)
  moreover from this(1) have "emitted s \<union> E \<subseteq> dom (cached c) \<union> fixed_labels T S" using assms(3,7) by blast
  ultimately show ?thesis using assms(2,4,5,6) unfolding lab_inv_def total_goto [of g "s\<lparr>lcache := c, emitted := emitted s \<union> E\<rparr>", simplified, OF assms(2)]
    by (simp add: lgoto_def)
qed

lemma lab_inv_goto:
  assumes "lab_inv limit n T S s" and "g < length (lpcs s)" and "w_uncounted p = w_uncounted (lpcs s ! g)"
    and "w_flying p \<le> w_flying (lpcs s ! g) \<or> cacheCount (lcache s) < limit \<and> w_flying (lpcs s ! g) = 0" and "pc_ok T S (lcache s) p"
  shows "lab_inv limit n T S (lgoto g p s)"
proof -
  have b: "cacheCount (lcache s) + total w_flying s \<le> limit + int n" "length (lpcs s) = n" using assms(1) by (simp_all add: lab_inv_def)
  have "cacheCount (lcache s) + total w_flying s - w_flying (lpcs s ! g) + w_flying p \<le> limit + int n"
    using assms(4) b total_flying_bound [OF assms(2)] w_flying_bound(3) [of p] by auto
  then have "lab_inv limit n T S (lgoto g p (s\<lparr>lcache := lcache s, emitted := emitted s \<union> {}\<rparr>))"
    using assms by (intro lab_inv_move) (auto simp: lab_inv_def)
  then show ?thesis by simp
qed

lemma lab_inv_emit:
  assumes "lab_inv limit n T S s" and "g < length (lpcs s)" and "w_uncounted (lpcs s ! g) = 0" and "l \<in> dom (cached (lcache s)) \<union> fixed_labels T S"
  shows "lab_inv limit n T S (emit g l s)"
proof -
  have "lab_inv limit n T S (lgoto g Idle (s\<lparr>lcache := lcache s, emitted := emitted s \<union> {l}\<rparr>))"
    using assms w_flying_bound(2) [of "lpcs s ! g"] by (intro lab_inv_move) (auto simp: lab_inv_def w_uncounted_def w_flying_def)
  then show ?thesis by (simp add: emit_def)
qed

lemma total_flying_member: "g < length (lpcs s) \<Longrightarrow> w_flying (lpcs s ! g) \<le> total w_flying s"
proof -
  assume g: "g < length (lpcs s)"
  have "0 \<le> total w_flying (lgoto g Idle s)" unfolding total_def by (rule sum_list_nonneg) (use w_flying_bound(2) in auto)
  then show ?thesis using total_goto [OF g, of w_flying Idle] by (simp add: w_flying_def)
qed

lemma collapsed_fixed: "status \<in> S \<Longrightarrow> (templated \<longrightarrow> path \<in> T) \<Longrightarrow> collapsed path meth templated = (p, m) \<Longrightarrow> (p, m, status) \<in> fixed_labels T S"
  by (auto simp: collapsed_def fixed_labels_def cacheableMethod_def split: if_splits)

lemma lab_inv_store:
  assumes "lab_inv limit n T S s" and "g < length (lpcs s)" and "lpcs s ! g = Storing k" and "cached (lcache s) k = None"
  shows "lab_inv limit n T S (lgoto g (Stored k) (s\<lparr>lcache := (lcache s)\<lparr>cached := (cached (lcache s))(k \<mapsto> ())\<rparr>\<rparr>))"
proof -
  let ?c = "(lcache s)\<lparr>cached := (cached (lcache s))(k \<mapsto> ())\<rparr>"
  have "lab_inv limit n T S (lgoto g (Stored k) (s\<lparr>lcache := ?c, emitted := emitted s \<union> {}\<rparr>))"
    using assms by (intro lab_inv_move) (auto simp: lab_inv_def w_uncounted_def w_flying_def card_insert_if domIff)
  then show ?thesis by simp
qed

lemma lab_inv_count:
  assumes "lab_inv limit n T S s" and "g < length (lpcs s)" and "lpcs s ! g = Stored k"
  shows "lab_inv limit n T S (emit g k (s\<lparr>lcache := (lcache s)\<lparr>cacheCount := cacheCount (lcache s) + 1\<rparr>\<rparr>))"
proof -
  let ?c = "(lcache s)\<lparr>cacheCount := cacheCount (lcache s) + 1\<rparr>"
  have "pc_ok T S (lcache s) (Stored k)" using assms by (metis lab_inv_def nth_mem)
  then have "lab_inv limit n T S (lgoto g Idle (s\<lparr>lcache := ?c, emitted := emitted s \<union> {k}\<rparr>))"
    using assms by (intro lab_inv_move) (auto simp: lab_inv_def w_uncounted_def w_flying_def)
  then show ?thesis by (simp add: emit_def)
qed

lemma lab_inv_step:
  assumes "lab_inv limit n T S s" and "lab_step limit T S s t" and "limit + int n \<le> routeCacheLimit"
  shows "lab_inv limit n T S t"
proof -
  obtain a where a: "allowed_act T S a" "lab_exec limit a s = Some t" using assms(2) by (auto simp: lab_step_def)
  note inv = assms(1)
  show ?thesis
  proof (cases a)
    case (LCall g path meth status templated)
    with a(2) have g: "g < length (lpcs s)" "lpcs s ! g = Idle" and
      t: "t = (if templated \<and> cacheableMethod meth then emit g (path, meth, status) s else lgoto g (Asking path meth status templated) s)"
      by (auto split: if_splits)
    have "lab_inv limit n T S (emit g (path, meth, status) s)" if "templated \<and> cacheableMethod meth"
      using that a(1) LCall g by (intro lab_inv_emit [OF inv]) (auto simp: w_uncounted_def fixed_labels_def cacheableMethod_def)
    moreover have "lab_inv limit n T S (lgoto g (Asking path meth status templated) s)"
      using a(1) LCall g by (intro lab_inv_goto [OF inv]) (auto simp: w_uncounted_def w_flying_def)
    ultimately show ?thesis using t by simp
  next
    case (LStep g)
    with a(2) have g: "g < length (lpcs s)" by (auto split: if_splits)
    then have ok: "pc_ok T S (lcache s) (lpcs s ! g)" using inv nth_mem by (auto simp: lab_inv_def)
    show ?thesis
    proof (cases "lpcs s ! g")
      case Idle
      with a(2) LStep g show ?thesis by simp
    next
      case (Asking path meth status templated)
      have "lab_inv limit n T S (emit g (path, meth, status) s)" if "cached (lcache s) (path, meth, status) \<noteq> None"
        using that g Asking by (intro lab_inv_emit [OF inv]) (auto simp: w_uncounted_def)
      moreover have "lab_inv limit n T S (lgoto g (Missed path meth status templated) s)"
        using ok g Asking by (intro lab_inv_goto [OF inv]) (auto simp: w_uncounted_def w_flying_def)
      ultimately show ?thesis using a(2) LStep g Asking by (auto simp: cache_load_def split: option.splits)
    next
      case (Missed path meth status templated)
      obtain p m where c: "collapsed path meth templated = (p, m)" by (rule prod.exhaust)
      have "lab_inv limit n T S (emit g (p, m, status) s)"
        using ok g Missed collapsed_fixed [OF _ _ c] by (intro lab_inv_emit [OF inv]) (auto simp: w_uncounted_def)
      moreover have "lab_inv limit n T S (lgoto g (Admitted (path, meth, status)) s)" if "cacheCount (lcache s) < limit"
        using that g Missed by (intro lab_inv_goto [OF inv]) (auto simp: w_uncounted_def w_flying_def)
      ultimately show ?thesis using a(2) LStep g Missed c by (auto split: if_splits)
    next
      case (Admitted k)
      have "cacheCount (lcache s) < routeCacheLimit"
        using total_flying_member [OF g] Admitted inv assms(3) by (simp add: lab_inv_def w_flying_def)
      moreover have "lab_inv limit n T S (lgoto g (Storing k) s)"
        using g Admitted by (intro lab_inv_goto [OF inv]) (auto simp: w_uncounted_def w_flying_def)
      ultimately show ?thesis using a(2) LStep g Admitted by auto
    next
      case (Storing k)
      have "lab_inv limit n T S (emit g k s)" if "cached (lcache s) k \<noteq> None"
        using that g Storing by (intro lab_inv_emit [OF inv]) (auto simp: w_uncounted_def)
      then show ?thesis using a(2) LStep g Storing lab_inv_store [OF inv g Storing] by (auto split: option.splits)
    next
      case (Stored k)
      then show ?thesis using a(2) LStep g lab_inv_count [OF inv g Stored] by auto
    qed
  qed
qed

interpretation labs: invariant "\<lambda>s. lab_init n s \<and> 0 \<le> limit \<and> limit + int n \<le> routeCacheLimit" "lab_step limit T S"
    "\<lambda>s. lab_inv limit n T S s \<and> limit + int n \<le> routeCacheLimit" for n limit T S
proof
  fix s
  assume "lab_init n s \<and> 0 \<le> limit \<and> limit + int n \<le> routeCacheLimit"
  then show "lab_inv limit n T S s \<and> limit + int n \<le> routeCacheLimit"
    by (auto simp: lab_init_def lab_inv_def empty_cache_def total_def w_uncounted_def w_flying_def sum_list_replicate)
qed (use lab_inv_step in blast)

lemma reachable_with: "reachable init step s \<Longrightarrow> P \<Longrightarrow> reachable (\<lambda>s. init s \<and> P) step s"
  by (induction rule: reachable.induct) (auto intro: reachable.intros)

lemma card_fixed_labels: "finite T \<Longrightarrow> finite S \<Longrightarrow> finite (fixed_labels T S) \<and> card (fixed_labels T S) \<le> (card T + 1) * 11 * card S"
proof -
  assume f: "finite T" "finite S"
  have "card (insert unmatchedPathLabel T) \<le> card T + 1" using f(1) by (simp add: card_insert_if)
  moreover have "card (insert otherMethodLabel (set stdMethods)) \<le> 11"
    using card_length [of "otherMethodLabel # stdMethods"] by (simp add: stdMethods_def)
  ultimately have "card (insert unmatchedPathLabel T) * card (insert otherMethodLabel (set stdMethods)) * card S \<le> (card T + 1) * 11 * card S"
    by (intro mult_le_mono) simp_all
  then show ?thesis using f by (simp add: fixed_labels_def card_cartesian_product mult.assoc)
qed

lemma newMetricsOptions_nonneg: "0 \<le> unmatchedLimit (newMetricsOptions opts)"
proof -
  have "0 \<le> unmatchedLimit o' \<Longrightarrow> 0 \<le> unmatchedLimit (fold apply_option opts o')" for o'
  proof (induction opts arbitrary: o')
    case (Cons x xs)
    then show ?case by (cases x) auto
  qed simp
  then show ?thesis by (simp add: newMetricsOptions_def untemplatedLabelLimit_def)
qed

lemma untemplatedLimit_bounds: "0 \<le> untemplatedLimit (newMetricsOptions opts) \<and> untemplatedLimit (newMetricsOptions opts) \<le> 500"
  using newMetricsOptions_nonneg [of opts] by (auto simp: untemplatedLimit_def untemplatedBudget_def untemplatedLabelLimit_def)

text \<open>
  C26. Clients cannot make the metrics grow without bound. Whatever paths and methods any number of requests carry, in any
  interleaving of \<open>n \<le> 3596\<close> goroutines, with any options and with templated paths taken from the routes: the label combinations that were ever recorded are those
  the routes account for (templates, methods and status codes in use), and at most \<open>500 + n\<close> others.
\<close>

theorem label_sets_bounded:
  assumes "reachable (lab_init n) (lab_step (untemplatedLimit (newMetricsOptions opts)) T S) s" and "n \<le> 3596" and "finite T" and "finite S"
  shows "finite (emitted s) \<and> card (emitted s) \<le> 500 + n + (card T + 1) * 11 * card S"
proof -
  let ?l = "untemplatedLimit (newMetricsOptions opts)" and ?D = "dom (cached (lcache s))"
  have "0 \<le> ?l \<and> ?l + int n \<le> routeCacheLimit" using untemplatedLimit_bounds [of opts] assms(2) by (simp add: routeCacheLimit_def)
  then have inv: "lab_inv ?l n T S s" using labs.reachable_inv [OF reachable_with [OF assms(1)]] by blast
  then have d: "finite ?D" "emitted s \<subseteq> ?D \<union> fixed_labels T S" by (simp_all add: lab_inv_def)
  have "int (card ?D) \<le> ?l + int n" using inv total_uncounted_le [of s] by (simp add: lab_inv_def)
  then have c: "card ?D \<le> 500 + n" using untemplatedLimit_bounds [of opts] by linarith
  have f: "finite (fixed_labels T S)" "card (fixed_labels T S) \<le> (card T + 1) * 11 * card S" using card_fixed_labels [OF assms(3,4)] by simp_all
  have "card (emitted s) \<le> card (?D \<union> fixed_labels T S)" using d f(1) by (intro card_mono) auto
  also have "\<dots> \<le> card ?D + card (fixed_labels T S)" by (rule card_Un_le)
  finally show ?thesis using c f d finite_subset [OF d(2)] by simp
qed

section \<open>The recorders agree\<close>

record measurement =
  mPath :: string
  mMethod :: string
  mStatus :: int
  mTemplated :: bool

fun option_session :: "measurement list \<Rightarrow> option_cache \<Rightarrow> (string \<times> string) list list" where
  "option_session [] c = []"
| "option_session (m # ms) c =
     (case optionRecorder_record (mPath m) (mMethod m) (mStatus m) (mTemplated m) c of (ls, c1) \<Rightarrow> ls # option_session ms c1)"

fun attrs_session :: "measurement list \<Rightarrow> attrs_cache \<Rightarrow> (string \<times> string) list list" where
  "attrs_session [] c = []"
| "attrs_session (m # ms) c =
     (case attrsRecorder_record (mPath m) (mMethod m) (mStatus m) (mTemplated m) c of (ls, c1) \<Rightarrow> ls # attrs_session ms c1)"

text \<open>A cache is sound if every entry is what would be computed for its key.\<close>

locale memo =
  fixes compute :: "'k \<Rightarrow> 'v"
begin

definition sound :: "('k, 'v) routeCache \<Rightarrow> bool" where
  "sound c \<longleftrightarrow> (\<forall>k v. cached c k = Some v \<longrightarrow> v = compute k)"

lemma sound_empty: "sound empty_cache"
  by (simp add: sound_def empty_cache_def)

lemma sound_load: "sound c \<Longrightarrow> cache_load k c = Some v \<Longrightarrow> v = compute k"
  by (simp add: sound_def cache_load_def)

lemma sound_store: "sound c \<Longrightarrow> sound (cache_store k (compute k) c)"
  by (auto simp: sound_def cache_store_def split: option.splits)

end

interpretation opt_memo: memo "\<lambda>(path, meth, status). attributes path meth status" .

interpretation attr_memo: memo "\<lambda>(path, meth). [(''path'', path), (''method'', meth)]" .

lemma optionRecorder_spec:
  assumes "opt_memo.sound c" and "optionRecorder_record path meth status templated c = (ls, c1)"
  shows "ls = labelsRecorder_record path meth status \<and> opt_memo.sound c1"
proof (cases "if templated \<and> cacheableMethod meth then cache_load (path, meth, status) c else None")
  case None
  with assms opt_memo.sound_store [OF assms(1), of "(path, meth, status)"] show ?thesis
    by (auto simp: optionRecorder_record_def Let_def attributes_def labelsRecorder_record_def split: if_splits)
next
  case (Some v)
  with opt_memo.sound_load [OF assms(1), of "(path, meth, status)" v] have "v = attributes path meth status" by (simp split: if_splits)
  with Some assms show ?thesis by (auto simp: optionRecorder_record_def Let_def attributes_def labelsRecorder_record_def)
qed

lemma attrsRecorder_spec:
  assumes "attr_memo.sound c" and "attrsRecorder_record path meth status templated c = (ls, c1)"
  shows "ls = labelsRecorder_record path meth status \<and> attr_memo.sound c1"
proof (cases "if templated \<and> cacheableMethod meth then cache_load (path, meth) c else None")
  case None
  with assms attr_memo.sound_store [OF assms(1), of "(path, meth)"] show ?thesis
    by (auto simp: attrsRecorder_record_def Let_def labelsRecorder_record_def split: if_splits)
next
  case (Some v)
  with attr_memo.sound_load [OF assms(1), of "(path, meth)" v] have "v = [(''path'', path), (''method'', meth)]" by (simp split: if_splits)
  with Some assms show ?thesis by (auto simp: attrsRecorder_record_def Let_def labelsRecorder_record_def)
qed

lemma sessions_spec:
  "opt_memo.sound c \<Longrightarrow> option_session ms c = map (\<lambda>m. labelsRecorder_record (mPath m) (mMethod m) (mStatus m)) ms"
  "attr_memo.sound d \<Longrightarrow> attrs_session ms d = map (\<lambda>m. labelsRecorder_record (mPath m) (mMethod m) (mStatus m)) ms"
  by (induction ms arbitrary: c d) (auto split: prod.splits dest: optionRecorder_spec attrsRecorder_spec)

text \<open>Whichever recorder the metrics support, and whatever its cache holds, a sequence of measurements is recorded under the
  same labels.\<close>

lemma recorders_agree:
  "option_session ms empty_cache = attrs_session ms empty_cache \<and>
   attrs_session ms empty_cache = map (\<lambda>m. labelsRecorder_record (mPath m) (mMethod m) (mStatus m)) ms"
  by (simp add: sessions_spec opt_memo.sound_empty attr_memo.sound_empty)

section \<open>Example\<close>

lemma lab_run_reachable:
  "lab_run limit as s = Some t \<Longrightarrow> list_all (allowed_act T S) as \<Longrightarrow> reachable init (lab_step limit T S) s \<Longrightarrow> reachable init (lab_step limit T S) t"
proof (induction as arbitrary: s)
  case (Cons a as)
  then obtain u where u: "lab_exec limit a s = Some u" "lab_run limit as u = Some t" by (auto split: option.splits)
  then have "lab_step limit T S s u" using Cons.prems(2) by (auto simp: lab_step_def)
  with Cons.IH [OF u(2)] Cons.prems(2,3) show ?case by (auto intro: reachable_step)
qed simp

text \<open>With room for one more combination, two requests with invented methods: the second is recorded under the collapsed labels.\<close>

theorem label_sets_bounded_witness:
  "\<exists>s. reachable (lab_init 1) (lab_step (untemplatedLimit (newMetricsOptions [WithUnmatchedLimit 1])) {} {404}) s \<and>
     emitted s = {(''/x'', ''M1'', 404), (''__unmatched__'', ''__other__'', 404)} \<and> card (emitted s) \<le> 500 + 1 + (0 + 1) * 11 * 1"
proof -
  let ?l = "untemplatedLimit (newMetricsOptions [WithUnmatchedLimit 1])"
  let ?s = "\<lparr>lcache = empty_cache, lpcs = [Idle], emitted = {}\<rparr>"
  let ?as = "[LCall 0 ''/x'' ''M1'' 404 False, LStep 0, LStep 0, LStep 0, LStep 0, LStep 0, LCall 0 ''/y'' ''M2'' 404 False, LStep 0, LStep 0]"
  have l: "?l = 1" by code_simp
  have m: "\<not> cacheableMethod ''M1''" "\<not> cacheableMethod ''M2''" by code_simp+
  have "lab_init 1 ?s" by (simp add: lab_init_def)
  then have r: "reachable (lab_init 1) (lab_step ?l {} {404}) ?s" by (rule reachable_init)
  obtain t where t: "lab_run 1 ?as ?s = Some t" "emitted t = {(''/x'', ''M1'', 404), (''__unmatched__'', ''__other__'', 404)}"
    by (simp add: emit_def lgoto_def cache_load_def empty_cache_def routeCacheLimit_def m collapsed_def unmatchedPathLabel_def otherMethodLabel_def insert_commute)
  have "list_all (allowed_act {} {404}) ?as" by simp
  from lab_run_reachable [OF t(1) this r [unfolded l]] have "reachable (lab_init 1) (lab_step ?l {} {404}) t" unfolding l .
  with label_sets_bounded [OF this] t(2) show ?thesis by (intro exI [of _ t]) simp
qed

end
