(* ===== verification/Command_Line.thy ===== *)
theory Command_Line
  imports Go_Prelude
begin

text \<open>
  Command-line applications: commands and their registration (\<^verbatim>\<open>pkg/gofr/cmd.go\<close>), the parameters of a call (\<^verbatim>\<open>pkg/gofr/cmd/request.go\<close>)
  and what is printed (\<^verbatim>\<open>pkg/gofr/cmd/responder.go\<close>). A handler is a function of the parameters that gives what it prints and
  the text of an error.
\<close>

section \<open>Parameters\<close>

type_synonym params = "string \<Rightarrow> string option"

text \<open>\<^verbatim>\<open>strings.SplitN(a, "=", 2)\<close>: at most one cut.\<close>

definition SplitN2 :: "string \<Rightarrow> string list" where
  "SplitN2 a = (case IndexByte a (CHR ''='') of None \<Rightarrow> [a] | Some i \<Rightarrow> [take i a, drop (Suc i) a])"

definition add_arg :: "string \<Rightarrow> params \<Rightarrow> params" where
  "add_arg arg ps =
     (if arg = '''' then ps
      else if hd arg \<noteq> CHR ''-'' then ps
      else if length arg = 1 then ps
      else let a = (if arg ! 1 = CHR ''-'' then drop 2 arg else drop 1 arg) in
        case SplitN2 a of
          [k] \<Rightarrow> ps(k \<mapsto> ''true'')
        | [k, v] \<Rightarrow> ps(k \<mapsto> v)
        | _ \<Rightarrow> ps)"

definition NewRequest :: "string list \<Rightarrow> params" where
  "NewRequest args = fold add_arg args Map.empty"

definition Param :: "params \<Rightarrow> string \<Rightarrow> string" where
  "Param ps key = (case ps key of Some v \<Rightarrow> v | None \<Rightarrow> '''')"

definition Params :: "params \<Rightarrow> string \<Rightarrow> string list" where
  "Params ps key = (case ps key of None \<Rightarrow> [] | Some v \<Rightarrow> Split v (CHR '',''))"

section \<open>Commands\<close>

record route =
  pattern :: string
  handler :: "(params \<Rightarrow> string option \<times> string option) option"
  description :: string
  helpText :: string

datatype cmd_option = AddDescription string | AddHelp string

fun apply_cmd_option :: "cmd_option \<Rightarrow> route \<Rightarrow> route" where
  "apply_cmd_option (AddDescription d) r = r\<lparr>description := d\<rparr>"
| "apply_cmd_option (AddHelp h) r = r\<lparr>helpText := h\<rparr>"

text \<open>A pattern with a restricted character is not registered.\<close>

definition cmd_addRoute :: "string \<Rightarrow> (params \<Rightarrow> string option \<times> string option) option \<Rightarrow> cmd_option list \<Rightarrow> route list \<Rightarrow> route list" where
  "cmd_addRoute pat h opts routes =
     (if list_ex (\<lambda>c. c \<in> set ''$^'') pat then routes
      else routes @ [fold apply_cmd_option opts \<lparr>pattern = pat, handler = h, description = '''', helpText = ''''\<rparr>])"

definition TrimPrefix :: "string \<Rightarrow> string \<Rightarrow> string" where
  "TrimPrefix s p = (if HasPrefix s p then drop (length p) s else s)"

fun find_route :: "string \<Rightarrow> route list \<Rightarrow> route option" where
  "find_route path [] = None"
| "find_route path (r # rs) = (if HasPrefix path (pattern r) then Some r else find_route path rs)"

definition cmd_handler :: "route list \<Rightarrow> string \<Rightarrow> route option" where
  "cmd_handler routes path = find_route (TrimSpace (TrimPrefix (TrimPrefix path ''--'') ''-'')) routes"

text \<open>The accumulated command, whether help is wanted, and the first argument.\<close>

fun parse_args :: "string list \<Rightarrow> string \<times> bool \<times> string \<Rightarrow> string \<times> bool \<times> string" where
  "parse_args [] acc = acc"
| "parse_args (a # as) (subCommand, showHelp, firstArg) =
     (if a = '''' then parse_args as (subCommand, showHelp, firstArg)
      else if a = ''-h'' \<or> a = ''--help'' then parse_args as (subCommand, True, firstArg)
      else parse_args as (if hd a \<noteq> CHR ''-'' then subCommand @ '' '' @ a else subCommand, showHelp, if firstArg = '''' then a else firstArg))"

definition parseArgs :: "string list \<Rightarrow> string \<times> bool \<times> string" where
  "parseArgs args = parse_args args ('''', False, '''')"

definition getCommandForError :: "string \<Rightarrow> string \<Rightarrow> string" where
  "getCommandForError subCommand firstArg =
     (let commandForError = TrimSpace subCommand in
      if commandForError = '''' \<and> firstArg \<noteq> '''' then firstArg else commandForError)"

section \<open>Output\<close>

datatype cmd_event = Stdout string | Stderr string

definition pad :: "nat \<Rightarrow> string \<Rightarrow> string" where
  "pad n s = s @ replicate (n - length s) (CHR '' '')"

definition printHelp :: "route list \<Rightarrow> cmd_event list" where
  "printHelp routes =
     (let maxPatternLen = fold (\<lambda>r m. if length (pattern r) > m then length (pattern r) else m) routes 0;
          maxDescLen = fold (\<lambda>r m. if length (description r) > m then length (description r) else m) routes 0
      in Stdout ''Available commands:'' # map (\<lambda>r. Stdout (''  '' @ pad maxPatternLen (pattern r) @ ''  '' @ pad maxDescLen (description r) @
           (if helpText r \<noteq> '''' then ''  Help: '' @ helpText r else ''''))) routes)"

text \<open>What the responder prints, and whether it has seen an error.\<close>

definition cmd_Respond :: "string option \<Rightarrow> string option \<Rightarrow> cmd_event list \<times> bool" where
  "cmd_Respond d err =
     ((case d of Some s \<Rightarrow> [Stdout s] | None \<Rightarrow> []) @ (case err of Some e \<Rightarrow> [Stderr e] | None \<Rightarrow> []), err \<noteq> None)"

definition ErrCommandNotFound :: "string \<Rightarrow> string" where
  "ErrCommandNotFound c = [CHR 0x27] @ c @ [CHR 0x27] @ '' is not a valid command.''"

definition noCommandResponse :: "route list \<Rightarrow> route option \<Rightarrow> string \<Rightarrow> (cmd_event list \<times> bool) option" where
  "noCommandResponse routes r subCommand =
     (case r of
        None \<Rightarrow> let (out, errored) = cmd_Respond None (Some (ErrCommandNotFound (TrimSpace subCommand)))
                in Some (out @ [Stdout ''''] @ printHelp routes, errored)
      | Some x \<Rightarrow> (case handler x of
          None \<Rightarrow> Some (cmd_Respond None (Some (ErrCommandNotFound (TrimSpace subCommand))))
        | Some _ \<Rightarrow> None))"

text \<open>The output of a call and whether the process exits with a failure.\<close>

definition cmd_Run :: "route list \<Rightarrow> string list \<Rightarrow> cmd_event list \<times> bool" where
  "cmd_Run routes args =
     (let (subCommand, showHelp, firstArg) = parseArgs args in
      if showHelp \<and> subCommand = '''' then (printHelp routes, False)
      else let r = cmd_handler routes subCommand in
        case noCommandResponse routes r (getCommandForError subCommand firstArg) of
          Some out \<Rightarrow> out
        | None \<Rightarrow>
            if showHelp then ([Stdout (helpText (the r))], False)
            else (case the (handler (the r)) (NewRequest args) of (d, err) \<Rightarrow> cmd_Respond d err))"

section \<open>Which command runs\<close>

text \<open>The words of a call are its arguments without flags.\<close>

definition is_word :: "string \<Rightarrow> bool" where
  "is_word a \<longleftrightarrow> a \<noteq> '''' \<and> hd a \<noteq> CHR ''-''"

definition wants_help :: "string list \<Rightarrow> bool" where
  "wants_help args \<longleftrightarrow> ''-h'' \<in> set args \<or> ''--help'' \<in> set args"

definition plain_word :: "string \<Rightarrow> bool" where
  "plain_word a \<longleftrightarrow> list_all (\<lambda>c. \<not> is_space c) a"

lemma is_word_flags [simp]: "\<not> is_word ''''" "\<not> is_word ''-h''" "\<not> is_word ''--help''"
  by (simp_all add: is_word_def)

lemma parse_args_spec:
  "\<exists>first. parse_args args (sub, h, f) =
     (sub @ concat (map (\<lambda>a. '' '' @ a) (filter is_word args)), h \<or> wants_help args, first)"
proof (induction args arbitrary: sub h f)
  case (Cons a as)
  have hyp: "\<exists>first. parse_args as (sub', h', f') = (sub' @ concat (map (\<lambda>a. '' '' @ a) (filter is_word as)), h' \<or> wants_help as, first)" for sub' h' f'
    by (rule Cons.IH)
  show ?case
  proof (cases "a = '''' \<or> a = ''-h'' \<or> a = ''--help''")
    case True
    then show ?thesis using hyp [of sub h f] hyp [of sub True f] by (auto simp: wants_help_def)
  next
    case False
    then show ?thesis
      using hyp [of "if hd a \<noteq> CHR ''-'' then sub @ '' '' @ a else sub" h "if f = '''' then a else f"]
      by (auto simp: wants_help_def is_word_def [of a])
  qed
qed (simp add: wants_help_def)

lemma space_words: "concat (map (\<lambda>a. '' '' @ a) (w # ws)) = CHR '' '' # Join (w # ws) '' ''"
proof (induction ws arbitrary: w)
  case (Cons v ws)
  from Cons.IH [of v] show ?case by simp
qed simp

lemma dropWhile_id: "s \<noteq> [] \<Longrightarrow> \<not> P (hd s) \<Longrightarrow> dropWhile P s = s"
  by (cases s) auto

lemma TrimSpace_id: "s \<noteq> [] \<Longrightarrow> \<not> is_space (hd s) \<Longrightarrow> \<not> is_space (last s) \<Longrightarrow> TrimSpace s = s"
  by (simp add: TrimSpace_def dropWhile_id hd_rev)

lemma is_space_blank [simp]: "is_space (CHR '' '')"
  by code_simp

lemma TrimSpace_blank: "TrimSpace (CHR '' '' # s) = TrimSpace s"
  by (simp add: TrimSpace_def)

lemma Join_ends:
  assumes "ws \<noteq> []" and "\<forall>w \<in> set ws. w \<noteq> '''' \<and> plain_word w"
  shows "Join ws '' '' \<noteq> '''' \<and> \<not> is_space (hd (Join ws '' '')) \<and> \<not> is_space (last (Join ws '' ''))"
  using assms
proof (induction ws rule: induct_list012)
  case (2 w)
  then show ?case by (auto simp: plain_word_def list_all_iff)
next
  case (3 w v ws)
  then show ?case by (auto simp: plain_word_def list_all_iff)
qed simp

lemma cmd_path:
  assumes "\<forall>w \<in> set ws. w \<noteq> '''' \<and> plain_word w"
  shows "TrimSpace (TrimPrefix (TrimPrefix (concat (map (\<lambda>a. '' '' @ a) ws)) ''--'') ''-'') = Join ws '' ''"
proof (cases ws)
  case Nil
  then show ?thesis by (simp add: TrimPrefix_def HasPrefix_def TrimSpace_def)
next
  case (Cons w us)
  then have "TrimPrefix (TrimPrefix (concat (map (\<lambda>a. '' '' @ a) ws)) ''--'') ''-'' = CHR '' '' # Join ws '' ''"
    using space_words [of w us] by (simp add: TrimPrefix_def HasPrefix_def)
  with Join_ends [OF _ assms] Cons show ?thesis by (simp add: TrimSpace_blank TrimSpace_id)
qed

lemma find_route_find: "find_route path rs = find (\<lambda>r. HasPrefix path (pattern r)) rs"
  by (induction rs) auto

text \<open>What a call of an application should do.\<close>

definition expected_run :: "route list \<Rightarrow> string list \<Rightarrow> cmd_event list \<times> bool \<Rightarrow> bool" where
  "expected_run routes args res \<longleftrightarrow>
     (let ws = filter is_word args in
      if wants_help args \<and> ws = [] then res = (printHelp routes, False)
      else (case find (\<lambda>r. HasPrefix (Join ws '' '') (pattern r)) routes of
              None \<Rightarrow> \<exists>c. res = (Stderr (ErrCommandNotFound c) # Stdout '''' # printHelp routes, True)
            | Some r \<Rightarrow> (case handler r of
                None \<Rightarrow> \<exists>c. res = ([Stderr (ErrCommandNotFound c)], True)
              | Some h \<Rightarrow> if wants_help args then res = ([Stdout (helpText r)], False)
                  else res = cmd_Respond (fst (h (NewRequest args))) (snd (h (NewRequest args))))))"

text \<open>
  C40. A call runs the first command that fits. For arguments without white space the command line is the arguments that are
  not flags, joined by blanks; of the registered commands the first whose pattern is a prefix of it is run with the
  parameters given by the flags, or its help is printed. Without such a command, or without a handler, the call
  fails with an error; a call exits with a failure exactly if an error was printed.
\<close>

theorem first_fitting_command_runs:
  assumes "list_all plain_word args"
  shows "expected_run routes args (cmd_Run routes args) \<and> (snd (cmd_Run routes args) \<longleftrightarrow> (\<exists>e. Stderr e \<in> set (fst (cmd_Run routes args))))"
proof -
  let ?ws = "filter is_word args"
  obtain first where p: "parseArgs args = (concat (map (\<lambda>a. '' '' @ a) ?ws), wants_help args, first)"
    using parse_args_spec [of args "''''" False "''''"] by (auto simp: parseArgs_def)
  have ws: "\<forall>w \<in> set ?ws. w \<noteq> '''' \<and> plain_word w" using assms by (auto simp: is_word_def list_all_iff)
  have none: "concat (map (\<lambda>a. '' '' @ a) ?ws) = '''' \<longleftrightarrow> ?ws = []" by (cases ?ws) auto
  have h: "cmd_handler routes (concat (map (\<lambda>a. '' '' @ a) ?ws)) = find (\<lambda>r. HasPrefix (Join ?ws '' '') (pattern r)) routes"
    using cmd_path [OF ws] by (simp add: cmd_handler_def find_route_find)
  have no_err: "Stderr e \<notin> set (printHelp routes)" for e by (auto simp: printHelp_def Let_def)
  show ?thesis
  proof (cases "wants_help args \<and> ?ws = []")
    case True
    then show ?thesis using p none no_err by (simp add: cmd_Run_def expected_run_def)
  next
    case False
    show ?thesis
    proof (cases "find (\<lambda>r. HasPrefix (Join ?ws '' '') (pattern r)) routes")
      case None
      with False p none h show ?thesis by (simp add: cmd_Run_def expected_run_def noCommandResponse_def cmd_Respond_def Let_def) blast
    next
      case (Some r)
      with False p none h show ?thesis
        by (cases "handler r") (auto simp: cmd_Run_def expected_run_def noCommandResponse_def cmd_Respond_def Let_def split: prod.splits option.splits)
    qed
  qed
qed

text \<open>A command behind one whose pattern is a prefix of its own is never run.\<close>

lemma shadowed_command:
  assumes "HasPrefix (pattern q) (pattern r)"
  shows "cmd_handler (xs @ r # ys @ q # zs) path = cmd_handler (xs @ r # ys @ zs) path"
proof -
  have "HasPrefix p (pattern q) \<Longrightarrow> HasPrefix p (pattern r)" for p using assms by (auto simp: HasPrefix_iff)
  then have "find_route p (xs @ r # ys @ q # zs) = find_route p (xs @ r # ys @ zs)" for p
  proof (induction xs)
    case Nil
    have "\<not> HasPrefix p (pattern q) \<Longrightarrow> find_route p (ys @ q # zs) = find_route p (ys @ zs)" by (induction ys) auto
    with Nil show ?case by auto
  qed auto
  then show ?thesis by (simp add: cmd_handler_def)
qed

section \<open>Flags\<close>

definition show_flag :: "string \<times> string \<Rightarrow> string" where
  "show_flag kv = ''-'' @ fst kv @ ''='' @ snd kv"

definition flag_name :: "string \<Rightarrow> bool" where
  "flag_name k \<longleftrightarrow> k \<noteq> '''' \<and> CHR ''='' \<notin> set k \<and> hd k \<noteq> CHR ''-''"

lemma add_arg_flag: "flag_name k \<Longrightarrow> add_arg (show_flag (k, v)) ps = ps(k \<mapsto> v)"
proof -
  assume k: "flag_name k"
  then obtain c cs where c: "k = c # cs" "c \<noteq> CHR ''-''" by (cases k) (auto simp: flag_name_def)
  have "IndexByte (x @ CHR ''='' # v) (CHR ''='') = Some (length x)" if "CHR ''='' \<notin> set x" for x using that by (induction x) auto
  then show ?thesis using k c by (auto simp: add_arg_def show_flag_def SplitN2_def flag_name_def Let_def)
qed

text \<open>Flags are read back as they were written; of a flag given twice the last value counts.\<close>

lemma NewRequest_flags: "\<forall>(k, v) \<in> set kvs. flag_name k \<Longrightarrow> NewRequest (map show_flag kvs) = map_of (rev kvs)"
proof -
  assume "\<forall>(k, v) \<in> set kvs. flag_name k"
  then have "fold add_arg (map show_flag kvs) ps = ps ++ map_of (rev kvs)" for ps
  proof (induction kvs arbitrary: ps)
    case (Cons kv kvs)
    then show ?case by (cases kv) (simp add: add_arg_flag map_add_upd)
  qed simp
  then show ?thesis by (simp add: NewRequest_def)
qed

lemma Params_joined: "ps k = Some (Join vs '','') \<Longrightarrow> vs \<noteq> [] \<Longrightarrow> \<forall>v \<in> set vs. CHR '','' \<notin> set v \<Longrightarrow> Params ps k = vs"
  by (simp add: Params_def Split_Join)

section \<open>Example\<close>

definition demo_commands :: "route list" where
  "demo_commands = cmd_addRoute ''hello'' (Some (\<lambda>ps. (Some (''Hello '' @ Param ps ''name''), None))) [AddHelp ''-name=<who>'']
     (cmd_addRoute ''bye'' None [] [])"

theorem first_fitting_command_runs_witness:
  "cmd_Run demo_commands [''-name=Eve'', ''hello''] = ([Stdout ''Hello Eve''], False) \<and> snd (cmd_Run demo_commands [''bye'', ''now''])"
proof
  have "list_all plain_word [''-name=Eve'', ''hello'']" "list_all plain_word [''bye'', ''now'']" by code_simp+
  note runs = first_fitting_command_runs [OF this(1), of demo_commands] first_fitting_command_runs [OF this(2), of demo_commands]
  have w: "filter is_word [''-name=Eve'', ''hello''] = [''hello'']" "filter is_word [''bye'', ''now''] = [''bye'', ''now'']"
    "\<not> wants_help [''-name=Eve'', ''hello'']" "\<not> wants_help [''bye'', ''now'']" by (simp_all add: is_word_def wants_help_def)
  have "Param (NewRequest [''-name=Eve'', ''hello'']) ''name'' = ''Eve''" by code_simp
  with runs(1) w show "cmd_Run demo_commands [''-name=Eve'', ''hello''] = ([Stdout ''Hello Eve''], False)"
    by (simp add: expected_run_def demo_commands_def cmd_addRoute_def HasPrefix_def cmd_Respond_def)
  from runs(2) w show "snd (cmd_Run demo_commands [''bye'', ''now''])"
    by (auto simp: expected_run_def demo_commands_def cmd_addRoute_def HasPrefix_def)
qed

end
