(* ===== verification/Spec2Isabelle.thy ===== *)
theory Spec2Isabelle
  imports Cron Static_Files Circuit_Breaker Retry Server_Limiter Rbac_Check Migration Db_Resolver Crud_Table Zip_Archive Container_Health Subscriber Config_Files Http_Handler Http_Auth Cors Metrics_Labels Command_Line
begin

text \<open>
  A verification of the core of GoFr, a framework for microservices in Go (\<^verbatim>\<open>src/pkg/gofr\<close>).

  \<^bold>\<open>The program.\<close> An application registers handlers with a router, protects them by an access configuration,
  schedules jobs, migrates its databases at startup, and calls other services through a client that is wrapped
  in decorators. The modelled parts are those in which GoFr itself decides something: which handler serves a
  request (\<^verbatim>\<open>http/router.go\<close>, \<^verbatim>\<open>http/trie_router.go\<close>), whether the request may reach it (\<^verbatim>\<open>rbac\<close>,
  \<^verbatim>\<open>internal/rbaccheck\<close>), when a job runs (\<^verbatim>\<open>cron.go\<close>, \<^verbatim>\<open>cron_scheduler.go\<close>), which migrations are applied
  (\<^verbatim>\<open>migration\<close>), whether a call to another service is sent, refused or repeated
  (\<^verbatim>\<open>service/circuit_breaker.go\<close>, \<^verbatim>\<open>service/retry*.go\<close>, \<^verbatim>\<open>service/rate_limiter*.go\<close>), whether a caller
  of the server is over its rate (\<^verbatim>\<open>http/middleware/rate_limiter*.go\<close>, \<^verbatim>\<open>grpc\<close>), which database serves a
  statement (\<^verbatim>\<open>datasource/dbresolver\<close>), who a caller is (\<^verbatim>\<open>http/middleware/*auth.go\<close>, \<^verbatim>\<open>grpc/middleware\<close>), which origins a
  browser may use (\<^verbatim>\<open>http/middleware/cors.go\<close>), what a handler's result becomes on the wire (\<^verbatim>\<open>handler.go\<close>, \<^verbatim>\<open>http/responder.go\<close>,
  \<^verbatim>\<open>http/stream.go\<close>), under which labels a request is measured (\<^verbatim>\<open>http/middleware/metrics.go\<close>), what the handlers
  generated for a structure store and return (\<^verbatim>\<open>crud_handlers.go\<close>), where the files of an uploaded archive go
  (\<^verbatim>\<open>file/zip.go\<close>), when the application calls itself healthy (\<^verbatim>\<open>container/health.go\<close>), which messages of a topic are consumed again (\<^verbatim>\<open>subscriber.go\<close>), where a setting comes from
  (\<^verbatim>\<open>config/godotenv.go\<close>), and which command of a
  command-line application runs (\<^verbatim>\<open>cmd.go\<close>).

  A request to the server passes the CORS middleware, the rate limiter, authentication and access control, and
  reaches the handler the router chose; the handler's result goes through the responder, and the labels of
  the metrics are taken afterwards. Each of these parts has a theory; they share the prelude, the responder serves the handler,
  authentication and CORS, and the access rules and the routes meet in this theory.

  \<^bold>\<open>Conventions.\<close> A Go function is a HOL function of the same name, where HOL leaves the name free; a struct is a
  record, a fallible function returns a sum with the error on the left, a method that changes its receiver
  returns the new one. A string is its list of bytes, an \<^verbatim>\<open>int\<close> is an integer with \<open>wrap64\<close> written out where a
  value may overflow, a duration is an integer. What the program takes from third-party packages and from the
  outside (gorilla/mux, the parser and matcher of regular expressions, files, databases, clocks, random
  numbers, user functions) is an argument of the definitions; what is relied on is a named hypothesis of the
  theorem, and its witness instantiates it. Goroutines that share state under a mutex are step relations whose
  steps are the locked sections, in any interleaving.

  \<^bold>\<open>Theories.\<close>
  \<^item> \<^verbatim>\<open>Go_Prelude\<close>: strings, integers and sorting of Go; reachable states and the locale \<open>invariant\<close>, through which
    the crontab, the circuit breaker, the migration lock and the bucket of tokens get their invariants.
  \<^item> \<^verbatim>\<open>Cron\<close>: the parser of schedules, the test whether a job is due, the crontab with its goroutines, a run of a
    job. A parsed schedule denotes exactly the times the cron rules name; printing and parsing agree; after a
    stop no job runs. The loop over a range with a step may not end, so it is a partial function: it diverges
    exactly for zero steps.
  \<^item> \<^verbatim>\<open>Trie_Router\<close>: which expressions of mux can be indexed, the trie, candidates and match. The locale
    \<open>segment_index\<close> states what a router needs of an index; the trie interprets it. The match among the
    candidates is the match of a scan of all routes.
  \<^item> \<^verbatim>\<open>Http_Path\<close>, \<^verbatim>\<open>Http_Router\<close>: canonical paths; registration, the lazily built index and both matchers. Any
    sequence of registrations and requests is served as by mux alone; the catch-all handler answers 404 and 405.
  \<^item> \<^verbatim>\<open>Static_Files\<close>: files are served from below the directory only.
  \<^item> \<^verbatim>\<open>Http_Service\<close>, \<^verbatim>\<open>Circuit_Breaker\<close>: errors and contexts of the client; the breaker and its background
    health check, whose results may come in between the steps of the requests. It opens exactly for more than
    \<open>threshold\<close> failures in a row with no success among the requests and health checks, and its metrics show its state.
  \<^item> \<^verbatim>\<open>Retry_Budget\<close>, \<^verbatim>\<open>Retry_Policy\<close>, \<^verbatim>\<open>Retry\<close>: the ring of slots is a sliding window over the history; waits are
    bounded; the loop ends, repeats only what may be repeated, also when the timer of an attempt cuts it, and
    pays for every retry. Floating-point numbers are rationals, so rounding is not modelled.
  \<^item> \<^verbatim>\<open>Rate_Limiter\<close>: the limiter of the client with its buckets in memory and in Redis. The locale \<open>admission\<close> bounds what
    a bucket admits; both buckets interpret it. Callers one after the other are held to the rate; a bucket in
    Redis expires after ten minutes and starts full again, so there the rate must fill a bucket in that time.
  \<^item> \<^verbatim>\<open>Server_Limiter\<close>: the limiter of the HTTP and gRPC servers. The key of a caller, the store of limiters with its
    bound on keys and its cleanup, the answers 429 and 503. The store exceeds its bound only by calls in flight.
  \<^item> \<^verbatim>\<open>Rbac_Config\<close>, \<^verbatim>\<open>Rbac_Middleware\<close>: validation, inheritance of permissions, the ranking of rules, the
    exact lookups and the ordered scan; what a request holds and the decision. The handler of a
    protected endpoint runs exactly if a held role has a required permission.
  \<^item> \<^verbatim>\<open>Rbac_Check\<close>: the comparison of rules with the route table at startup. Unreported routes are guarded, rules
    reported as dead match nothing, for patterns that mux accepts; what mux documents is a hypothesis.
  \<^item> \<^verbatim>\<open>Migration_Stores\<close>, \<^verbatim>\<open>Migration_Contracts\<close>, \<^verbatim>\<open>Migration_Lock\<close>, \<^verbatim>\<open>Migration\<close>: the migrators of the thirteen datasources, each a
    function of the operation it wraps, their chain, the lock and the run of the pending migrations, with failures at
    every call. The locale \<open>wrapped\<close> lifts what every layer keeps to any chain; tables, records, rollbacks and locks
    interpret it. The migrations that finish are the first of the pending ones, in order, a finished or recorded one never runs again, a run without failures
    completes, and the lock is held by one process at a time. Waiting for a lock and paging through an index
    may not end, so these loops are partial functions; that they end is proved.
  \<^item> \<^verbatim>\<open>Db_Resolver\<close>: reads and writes over a primary database and its replicas, with a breaker per replica. The locale
    \<open>balancer\<close> states what a strategy owes the resolver; both strategies interpret it. Replicas see queries of
    GET requests only, and round robin gives each its share.
  \<^item> \<^verbatim>\<open>Http_Responder\<close>, \<^verbatim>\<open>Http_Handler\<close>: errors, response types, status codes, the pool of encoders, streams; the call of the application
    function with panics, timeouts and disconnects. Every request gets one status before its body, the one that is
    documented for the value, the panic, the timeout or the disconnect that ended it; pooled encoders do not show; a stream is read back in order by its client, in both formats, which
    interpret the locale \<open>framing\<close>; both ways of calling a function agree.
  \<^item> \<^verbatim>\<open>Base64\<close>, \<^verbatim>\<open>Http_Auth\<close>: the encoding of credentials; basic authentication, API keys and tokens for HTTP and gRPC, key sets, and
    the client's side. The locale \<open>auth_provider\<close> states what a provider accepts; the three providers and their
    combination interpret it. Only requests with the right password, key or token pass; client and server understand each other.
  \<^item> \<^verbatim>\<open>Cors\<close>: an origin is named only if the configuration allows it, whatever the spelling and order of the configuration.
  \<^item> \<^verbatim>\<open>Metrics_Labels\<close>: the bounded cache and the labels of the metrics, with goroutines in any interleaving: clients cannot make the
    recorded combinations grow without bound.
  \<^item> \<^verbatim>\<open>Command_Line\<close>: a call runs the first command that fits, and fails exactly if an error was printed.
  \<^item> \<^verbatim>\<open>Snake_Case\<close>, \<^verbatim>\<open>Crud\<close>, \<^verbatim>\<open>Crud_Table\<close>: names of tables and columns; the statements, the scan of an entity and the five generated
    handlers; the table they implement over a database that executes the statements as documented, which is a
    hypothesis on their texts and holds of a database in memory; the database decides how a key is read from
    its text, and any statement may fail. The two converters of names agree.
  \<^item> \<^verbatim>\<open>Zip_Archive\<close>: an archive is read with a limit on each file, and no file is written outside the target directory.
  \<^item> \<^verbatim>\<open>Container_Health\<close>: rounds of health checks with their timeout, cache and shared calls, in any interleaving. Checks of a backend never
    overlap, UP is reported only after all checked backends answered, and calls are answered although none does. Five kinds
    of datasource are never checked.
  \<^item> \<^verbatim>\<open>Subscriber\<close>: the loop of a subscription and the Kafka consumer: which messages are handled, committed and consumed again, over several
    partitions and with reads and commits that fail.
  \<^item> \<^verbatim>\<open>Config_Files\<close>: the environment wins over the file that \<^verbatim>\<open>APP_ENV\<close> chooses, and that over the default file.
  \<^item> This theory: the startup check and the middleware together. After a clean check no request of a route
    reaches its handler without a rule that allows it, as long as the patterns of the rules begin with a slash.

  \<^bold>\<open>Where the code falls short.\<close> Some theorems state behaviour that the code or its documentation does not intend:
  a schedule with a zero step hangs (\<^verbatim>\<open>Cron\<close>), a slash inside a constraint hides a route from the index
  (\<^verbatim>\<open>Trie_Router\<close>), a request for the text of a public pattern is treated as public, and a public path inside a protected pattern is ranked
  differently by the lookup and the scan (\<^verbatim>\<open>Rbac_Config\<close>), a newline
  in the path escapes the rules (\<^verbatim>\<open>Rbac_Check\<close>), a rule without a leading slash counts as covering all routes and matches
  nothing (this theory), two SQL dialects record no migrations, OpenTSDB keeps the tables of other stores from being created, and a
  commit over several stores may be half done and yet count (\<^verbatim>\<open>Migration\<close>), the limiter
  in memory divides by zero for slow rates and counts a refill twice for concurrent callers, and Redis forgets the bucket of a slow rate too early
  (\<^verbatim>\<open>Rate_Limiter\<close>), the status UP says nothing of Solr, ScyllaDB, SurrealDB, ArangoDB and the file system (\<^verbatim>\<open>Container_Health\<close>), a replica whose breaker has opened is never used again (\<^verbatim>\<open>Db_Resolver\<close>), a command
  behind one whose pattern is a prefix of its own never runs (\<^verbatim>\<open>Command_Line\<close>), two generated handlers never find an entity
  whose key is not called \<open>id\<close> (\<^verbatim>\<open>Crud_Table\<close>), no archive can be extracted into the working directory (\<^verbatim>\<open>Zip_Archive\<close>), and on Kafka a message whose handler
  failed is lost with the next one of its partition that is handled (\<^verbatim>\<open>Subscriber\<close>).

  \<^bold>\<open>Fuel.\<close> No definition uses fuel. Recursion that follows a worklist or a ring has a termination proof; loops that
  need not end are partial functions into option, where \<open>None\<close> is divergence.

  \<^bold>\<open>Not modelled.\<close> The datasources, message brokers, file systems, gRPC, GraphQL, WebSocket and language-model parts
  forward to third-party clients; logging, the export of metrics and tracing are input and output. Binding of requests works by reflection. Of the modelled parts, log texts, trace spans and the
  timing inside the standard HTTP client are left out.

  \<^bold>\<open>Plan.\<close> Next: the token cache of the client's OAuth option, the other message brokers, the binding of forms.
\<close>

section \<open>Access control from the startup check to the handler\<close>

lemma resolve_found:
  "resolveEndpoint mux meth p (rules c) = (Some e, pub) \<Longrightarrow> \<exists>e' pub'. resolve mux c meth p = (Some e', pub')"
  by (auto simp: resolve_def getExactEndpoint_def split: option.splits)

text \<open>
  C3. A clean startup check means no request slips through. Let a configuration be loaded whose check against
  the route table reports nothing that can leave a route open, whose patterns begin with a slash, and whose
  constraints hold no anchors, word boundaries or capture groups. Then every request that is served by an
  application route, with a path free of newlines, and reaches its handler, is governed by a rule of the
  configuration: an explicitly public one, or one that requires permissions the request holds, directly
  or by inheritance. The mux library is assumed to refuse a template without a leading slash, which then matches
  nothing, and to match any other one as a whole. The condition on slashes is needed: \<open>unslashed_rule_is_unguarded\<close>.
\<close>

theorem clean_check_leaves_no_gap:
  assumes "regexp_laws rx" and "load_config c0 = Inr c" and "plain_methods (Endpoints c0)"
    and "\<forall>e \<in> set (Endpoints c0). own_patterns rx (Path e)" and "plain_routes rts"
    and "\<not> Failed (CheckAll rx [Endpoints c0] rts)"
    and "rt \<in> set rts" and "\<not> r_BuiltIn rt" and "newline \<notin> set (qPath r)"
    and "entry_matches rx (ToUpper (r_Method rt)) (r_Path rt) (ToUpper (qMethod r)) (qPath r)"
    and "mux_documented rx mux" and "\<forall>e \<in> set (Endpoints c0). isMuxPattern (Path e) \<longrightarrow> HasPrefix (Path e) ''/''"
    and "fst (Middleware mux d (Some c) r st) = RunHandler g"
  shows "\<exists>e. getEndpointForRequest mux c (qMethod r) (qPath r) = (Some e, True) \<or>
    (getEndpointForRequest mux c (qMethod r) (qPath r) = (Some e, False) \<and>
     (\<exists>h. extractHeld r c = Inr h \<and> sufficient (Roles c0) e h))"
proof -
  let ?es = "Endpoints c0" and ?M = "ToUpper (qMethod r)"
  have "\<not> has_gap (e_label (route_entry rx rt)) (Check rx ?es rts)"
    using assms(6) by (auto simp: has_gap_def Failed_def CheckAll_def Let_def)
  then have "fully_covered (buildRules rx ?es) (route_entry rx rt)" using assms(7,8) Check_has_gap by metis
  then obtain cr where cr: "cr \<in> set (buildRules rx ?es)" "covers (cr_entry cr) (route_entry rx rt)"
    by (auto simp: fully_covered_def)
  obtain e M where e: "(e, M) \<in> set (declarations ?es)" "cr = \<lparr>cr_entry = newEntry rx M (Path e), cr_public = Public e\<rparr>"
    using buildRules_declared [OF cr(1)] by blast
  have es: "e \<in> set ?es" and own: "own_patterns rx (Path e)" and ne: "?es \<noteq> []" using assms(4) e(1) by (auto simp: declarations_def)
  then have "entry_matches rx M (Path e) ?M (qPath r)"
    using covers_sound [OF assms(1) _ _ assms(10,9)] cr(2) e(2) by (simp add: route_entry_def)
  moreover have "mux (Path e) ?M (qPath r)" if "isMuxPattern (Path e)" "template_matches rx (Path e) (qPath r)"
    using that own es assms(11,12) by (simp add: mux_documented_def)
  ultimately obtain e' pub where "resolveEndpoint mux ?M (qPath r) (buildEndpointRules ?es) = (Some e', pub)"
    using scan_finds_declared [OF assms(1) _ assms(3) ToUpper_idem e(1)] by blast
  moreover have "rules c = buildEndpointRules ?es" "Endpoints c = ?es"
    using process_config [OF load_processed [OF assms(2)]] by simp_all
  ultimately obtain e'' pub' where "getEndpointForRequest mux c (qMethod r) (qPath r) = (Some e'', pub')"
    using resolve_found [of mux ?M "qPath r" c e' pub] ne by (auto simp: getEndpointForRequest_def)
  then show ?thesis using Middleware_runs [OF assms(2) _ assms(13)] by (cases pub') auto
qed

text \<open>A request for a file by a reader, checked at startup and at run time.\<close>

definition file_reader :: rbac_request where
  "file_reader = \<lparr>qMethod = ''get'', qPath = ''/files/a'', qHeader = (\<lambda>_. ''reader''), qClaims = None\<rparr>"

definition file_access :: Config where
  "file_access = (demo_rbac demo_guard)\<lparr>Roles := [\<lparr>Name = ''reader'', Permissions = [''files:read''], InheritsFrom = []\<rparr>]\<rparr>"

theorem clean_check_leaves_no_gap_witness:
  "let c = projr (load_config file_access) in
   \<exists>e. getEndpointForRequest template_mux c ''get'' ''/files/a'' = (Some e, True) \<or>
    (getEndpointForRequest template_mux c ''get'' ''/files/a'' = (Some e, False) \<and>
     (\<exists>h. extractHeld file_reader c = Inr h \<and> sufficient (Roles file_access) e h))"
proof -
  let ?c = "projr (load_config file_access)" and ?e = "demo_endpoint ''/files/{path:.*}'' [''files:read''] False"
    and ?h = "\<lparr>hlist = None, hstr = ''reader'', permissionsMode = False\<rparr>"
  have "\<not> isl (load_config file_access)" by code_simp
  then have c: "load_config file_access = Inr ?c" by (simp add: sum.collapse(2))
  have es: "Endpoints file_access = demo_guard" by (simp add: file_access_def demo_rbac_def)
  have up: "ToUpper (qMethod file_reader) = ''GET''" "ToUpper ''get'' = ''GET''" and q: "qPath file_reader = ''/files/a''"
    and pm: "plain_methods (Endpoints file_access)" and pr: "plain_routes demo_routes"
    and f: "\<not> Failed (CheckAll demo_rx [Endpoints file_access] demo_routes)"
    and h: "hd demo_routes \<in> set demo_routes" "\<not> r_BuiltIn (hd demo_routes)" and n: "newline \<notin> set (qPath file_reader)"
    by code_simp+
  have srv: "entry_matches demo_rx (ToUpper (r_Method (hd demo_routes))) (r_Path (hd demo_routes)) (ToUpper (qMethod file_reader)) (qPath file_reader)"
    using demo_serves_a unfolding up q .
  have sl: "\<forall>e \<in> set (Endpoints file_access). isMuxPattern (Path e) \<longrightarrow> HasPrefix (Path e) ''/''" by code_simp
  have rules: "rules ?c = [make_rule ?e ''GET'']" by code_simp
  have maps: "endpointMap ?c ''GET:/files/a'' = None" "endpointMap ?c ''*:/files/a'' = None" "length (Endpoints ?c) \<noteq> 0"
    and pat: "isMuxPattern ''/files/{path:.*}''" and hx: "extractHeld file_reader ?c = Inr ?h"
    and ok: "checkEndpointAuthorization ?h ?e ?c = (True, ''reader'')"
    by code_simp+
  have "template_matches demo_rx ''/files/{path:.*}'' ''/files/a''" by (rule demo_rule_matches)
  then have "getEndpointForRequest template_mux ?c ''get'' ''/files/a'' = (Some ?e, False)"
    using maps pat by (simp add: getEndpointForRequest_def resolve_def getExactEndpoint_def up rules rule_matches_def
        matchesMethod_def matchesPath_def make_rule_def compilePattern_def template_mux_def EqualFold_def HasPrefix_def)
  then have "fst (Middleware template_mux demo_deps (Some ?c) file_reader demo_start) = RunHandler (Some ''reader'')"
    using hx ok by (simp add: Middleware_def Let_def file_reader_def)
  from clean_check_leaves_no_gap [OF demo_rx_laws c pm _ pr f h n srv template_mux_documented sl this] demo_guard_patterns es
  show ?thesis by (simp add: Let_def file_reader_def)
qed

text \<open>
  A rule for all paths written without the leading slash, \<^verbatim>\<open>{p:.*}\<close>, is loaded, and the check reports the route
  \<^verbatim>\<open>/files/{id}\<close> as covered. But mux refuses the template, so no rule matches, and requests reach
  the handler without any role.
\<close>

definition unslashed_guard :: "EndpointMapping list" where
  "unslashed_guard = [demo_endpoint ''{p:.*}'' [''files:read''] False]"

lemma unslashed_rule_is_unguarded:
  "mux_documented demo_rx template_mux \<and> \<not> Failed (CheckAll demo_rx [unslashed_guard] demo_routes) \<and>
   entry_matches demo_rx ''GET'' ''/files/{id}'' ''GET'' ''/files/a'' \<and>
   fst (Middleware template_mux demo_deps (Some (projr (load_config (demo_rbac unslashed_guard))))
     (file_reader\<lparr>qHeader := (\<lambda>_. '''')\<rparr>) demo_start) = RunHandler None"
proof (intro conjI)
  let ?c = "projr (load_config (demo_rbac unslashed_guard))"
  show "mux_documented demo_rx template_mux" by (rule template_mux_documented)
  show "\<not> Failed (CheckAll demo_rx [unslashed_guard] demo_routes)" by code_simp
  show "entry_matches demo_rx ''GET'' ''/files/{id}'' ''GET'' ''/files/a''" using demo_route_serves [of "''a''"] by simp
  have r: "rules ?c = [make_rule (demo_endpoint ''{p:.*}'' [''files:read''] False) ''GET'']" by code_simp
  have k: "endpointMap ?c ''GET:/files/a'' = None" "endpointMap ?c ''*:/files/a'' = None" "ToUpper ''get'' = ''GET''"
    "length (Endpoints ?c) \<noteq> 0" and m: "isMuxPattern ''{p:.*}''" by code_simp+
  have "resolveEndpoint template_mux ''GET'' ''/files/a'' (rules ?c) = (None, False)"
    unfolding r using m by (simp add: rule_matches_def matchesPath_def make_rule_def compilePattern_def template_mux_def HasPrefix_def)
  then have "getEndpointForRequest template_mux ?c ''get'' ''/files/a'' = (None, False)"
    using k by (simp add: getEndpointForRequest_def resolve_def getExactEndpoint_def)
  then show "fst (Middleware template_mux demo_deps (Some ?c) (file_reader\<lparr>qHeader := (\<lambda>_. '''')\<rparr>) demo_start) = RunHandler None"
    by (simp add: Middleware_def file_reader_def Let_def)
qed

end
